(* ===== verification/Prelude.thy ===== *)
theory Prelude
  imports Main "HOL-Library.Word" "HOL-Library.Monad_Syntax" "HOL-Library.Char_ord"
begin

text \<open>
  What the component theories share: the machine types of the code, byte strings, checked
  reads and writes of memory areas, and big-endian and little-endian numbers as lists of
  bytes.

  The C++ sources are compiled with \<open>-funsigned-char\<close> (\<open>meson.build\<close>), so a
  \<open>char\<close> is an unsigned byte. A memory area a pointer points to is a \<open>bytes\<close>
  list; an access outside of it is \<open>None\<close> in the model: the code has undefined
  behaviour there.
\<close>

unbundle bit_operations_syntax

section \<open>Machine types\<close>

type_synonym byte = "8 word"
type_synonym bytes = "byte list"
type_synonym u16 = "16 word"
type_synonym u32 = "32 word"
type_synonym u64 = "64 word"

named_theorems mem_simps \<open>laws of checked memory accesses\<close>
named_theorems byte_simps \<open>evaluation of byte literals and byte strings\<close>

text \<open>A string literal of the source, as bytes.\<close>

definition str :: "string \<Rightarrow> bytes" where
  [byte_simps]: "str s = map of_char s"

lemma length_str [simp]: "length (str s) = length s"
  by (simp add: str_def)

section \<open>Checked memory accesses\<close>

text \<open>\<open>rd m i\<close> reads \<open>m[i]\<close>; \<open>rdn m i n\<close> reads \<open>n\<close> bytes from \<open>m + i\<close>
  (\<open>memcpy\<close> out of the area); \<open>wrn m i bs\<close> stores \<open>bs\<close> at \<open>m + i\<close>.\<close>

definition rd :: "'a list \<Rightarrow> nat \<Rightarrow> 'a option" where
  "rd m i = (if i < length m then Some (m ! i) else None)"

definition rdn :: "'a list \<Rightarrow> nat \<Rightarrow> nat \<Rightarrow> 'a list option" where
  "rdn m i n = (if i + n \<le> length m then Some (take n (drop i m)) else None)"

definition wrn :: "'a list \<Rightarrow> nat \<Rightarrow> 'a list \<Rightarrow> 'a list option" where
  "wrn m i bs =
     (if i + length bs \<le> length m then Some (take i m @ bs @ drop (i + length bs) m) else None)"

lemma rd_None_iff [mem_simps]: "rd m i = None \<longleftrightarrow> length m \<le> i"
  by (auto simp: rd_def)

lemma rd_Some_iff: "rd m i = Some x \<longleftrightarrow> i < length m \<and> m ! i = x"
  by (auto simp: rd_def)

lemma rd_in [mem_simps]: "i < length m \<Longrightarrow> rd m i = Some (m ! i)"
  by (simp add: rd_def)

lemma rd_append_left [mem_simps]: "i < length xs \<Longrightarrow> rd (xs @ ys) i = rd xs i"
  by (simp add: rd_def nth_append)

lemma rd_append_right [mem_simps]: "length xs \<le> i \<Longrightarrow> rd (xs @ ys) i = rd ys (i - length xs)"
  by (auto simp: rd_def nth_append)

lemma rd_append_at [simp]: "rd (xs @ ys) (length xs + k) = rd ys k"
  by (simp add: rd_def nth_append)

lemma rd_append_at0 [simp]: "rd (xs @ ys) (length xs) = rd ys 0"
  by (simp add: rd_def nth_append)

lemma rd_Cons_0 [simp]: "rd (x # xs) 0 = Some x"
  by (simp add: rd_def)

lemma rd_Cons_Suc [simp]: "rd (x # xs) (Suc i) = rd xs i"
  by (simp add: rd_def)

lemma rd_Cons_numeral [simp]: "rd (x # xs) (numeral k) = rd xs (pred_numeral k)"
  by (simp add: rd_def numeral_eq_Suc)

lemma rd_Nil [simp]: "rd [] i = None"
  by (simp add: rd_def)

lemma rdn_None_iff [mem_simps]: "rdn m i n = None \<longleftrightarrow> length m < i + n"
  by (auto simp: rdn_def)

lemma rdn_Some_length: "rdn m i n = Some bs \<Longrightarrow> length bs = n \<and> i + n \<le> length m"
  by (auto simp: rdn_def split: if_splits)

lemma rdn_append_at: "length xs = i \<Longrightarrow> length ys = n \<Longrightarrow> rdn (xs @ ys @ zs) i n = Some ys"
  by (simp add: rdn_def)

lemma rd_rdn: "i + n \<le> length m \<Longrightarrow> k < n \<Longrightarrow> rd m (i + k) = Some (the (rdn m i n) ! k)"
  by (simp add: rd_def rdn_def)

lemma wrn_None_iff [mem_simps]: "wrn m i bs = None \<longleftrightarrow> length m < i + length bs"
  by (auto simp: wrn_def)

lemma wrn_length: "wrn m i bs = Some m' \<Longrightarrow> length m' = length m"
  by (auto simp: wrn_def split: if_splits)

lemma wrn_take: "wrn m i bs = Some m' \<Longrightarrow> take i m' = take i m"
  by (auto simp: wrn_def split: if_splits)

lemma wrn_drop: "wrn m i bs = Some m' \<Longrightarrow> drop (i + length bs) m' = drop (i + length bs) m"
  by (auto simp: wrn_def split: if_splits)

lemma rdn_wrn_same: "wrn m i bs = Some m' \<Longrightarrow> rdn m' i (length bs) = Some bs"
  by (auto simp: wrn_def rdn_def split: if_splits)

lemma rd_wrn_other:
  assumes "wrn m i bs = Some m'" and "k < i \<or> i + length bs \<le> k"
  shows "rd m' k = rd m k"
  using assms by (auto simp: wrn_def rd_def nth_append min_def split: if_splits)

lemma rdn_wrn_other:
  assumes w: "wrn m i bs = Some m'" and d: "k + n \<le> i \<or> i + length bs \<le> k"
  shows "rdn m' k n = rdn m k n"
proof -
  have "take n (drop k m') = take n (drop k m)" if "k + n \<le> length m"
  proof (rule nth_equalityI)
    show "length (take n (drop k m')) = length (take n (drop k m))"
      using wrn_length [OF w] by simp
  next
    fix j assume "j < length (take n (drop k m'))"
    then have j: "j < n" "k + j < length m" using wrn_length [OF w] by auto
    have "rd m' (k + j) = rd m (k + j)" using d j by (intro rd_wrn_other [OF w]) auto
    then show "take n (drop k m') ! j = take n (drop k m) ! j"
      using j wrn_length [OF w] by (simp add: rd_def)
  qed
  then show ?thesis using wrn_length [OF w] by (simp add: rdn_def)
qed

lemma wrn_append_at:
  "length xs = i \<Longrightarrow> length ys = length bs \<Longrightarrow> wrn (xs @ ys @ zs) i bs = Some (xs @ bs @ zs)"
  by (simp add: wrn_def)

section \<open>Numbers as lists of bytes\<close>

text \<open>\<open>be_val\<close> reads a list of bytes with the most significant byte first, \<open>be_bytes n v\<close>
  writes the \<open>n\<close> low bytes of \<open>v\<close> in that order.\<close>

definition be_val :: "bytes \<Rightarrow> 'a::len word" where
  "be_val bs = foldl (\<lambda>a b. push_bit 8 a OR ucast b) 0 bs"

definition be_bytes :: "nat \<Rightarrow> 'a::len word \<Rightarrow> bytes" where
  "be_bytes n v = rev (map (\<lambda>i. ucast (drop_bit (8 * i) v)) [0..<n])"

lemma length_be_bytes [simp]: "length (be_bytes n v) = n"
  by (simp add: be_bytes_def)

lemma be_val_Nil [simp]: "be_val [] = 0"
  by (simp add: be_val_def)

lemma be_val_snoc: "be_val (bs @ [b]) = push_bit 8 (be_val bs) OR ucast b"
  by (simp add: be_val_def)

lemma be_bytes_Suc: "be_bytes (Suc n) v = be_bytes n (drop_bit 8 v) @ [ucast v]"
proof -
  have "map (\<lambda>i. ucast (drop_bit (8 * i) v)) [0..<Suc n]
      = ucast v # map (\<lambda>i. (ucast (drop_bit (8 * i) (drop_bit 8 v)) :: byte)) [0..<n]"
    by (simp add: upt_conv_Cons map_Suc_upt [symmetric] o_def algebra_simps drop_bit_drop_bit del: upt_Suc)
  then show ?thesis by (simp add: be_bytes_def del: upt_Suc)
qed

lemma be_bytes_0 [simp]: "be_bytes 0 v = []"
  by (simp add: be_bytes_def)

lemma byte_bit_less: "bit (b :: byte) n \<Longrightarrow> n < 8"
  using bit_imp_le_length [of b n] by simp

lemma ucast_mask_byte [simp]: "(ucast (v AND 255) :: byte) = ucast (v :: 'a::len word)"
proof -
  have "v AND 255 = take_bit 8 v" by (simp add: take_bit_eq_mask mask_eq_exp_minus_1)
  then show ?thesis by (auto intro!: bit_word_eqI simp: bit_simps dest: bit_imp_le_length)
qed

lemma push_drop_byte:
  "push_bit 8 (drop_bit 8 v) OR ucast (ucast v :: byte) = (v :: 'a::len word)"
  by (rule bit_word_eqI) (auto simp: bit_simps)

text \<open>Writing enough bytes and reading them back is the identity.\<close>

lemma be_val_be_bytes_take:
  "(be_val (be_bytes n v) :: 'a::len word) = take_bit (8 * n) v"
proof (induction n arbitrary: v)
  case 0
  then show ?case by simp
next
  case (Suc n)
  have "(be_val (be_bytes (Suc n) v) :: 'a word)
      = push_bit 8 (take_bit (8 * n) (drop_bit 8 v)) OR ucast (ucast v :: byte)"
    by (simp add: be_bytes_Suc be_val_snoc Suc.IH)
  also have "\<dots> = take_bit (8 * Suc n) v"
    by (rule bit_word_eqI) (auto simp: bit_simps)
  finally show ?case .
qed

lemma be_val_be_bytes:
  "take_bit (8 * n) v = v \<Longrightarrow> (be_val (be_bytes n v) :: 'a::len word) = v"
  by (simp add: be_val_be_bytes_take)

lemma be_bytes_be_val:
  "8 * length bs \<le> LENGTH('a) \<Longrightarrow> be_bytes (length bs) (be_val bs :: 'a::len word) = bs"
proof (induction bs rule: rev_induct)
  case Nil
  then show ?case by simp
next
  case (snoc b bs)
  let ?v = "be_val bs :: 'a word"
  have vb: "take_bit (8 * length bs) ?v = ?v"
  proof -
    have "be_bytes (length bs) ?v = bs" using snoc by simp
    then have "be_val (be_bytes (length bs) ?v) = ?v" by simp
    then show ?thesis by (simp only: be_val_be_bytes_take)
  qed
  have hi: "\<not> bit ?v n" if "8 * length bs \<le> n" for n
    using that by (subst vb [symmetric]) (simp add: bit_simps)
  have "drop_bit 8 (push_bit 8 ?v OR ucast b) = ?v"
  proof (rule bit_word_eqI)
    fix n
    have "bit ?v n \<Longrightarrow> 8 + n < LENGTH('a)"
      using hi [of n] snoc.prems by (cases "n < 8 * length bs") auto
    then show "bit (drop_bit 8 (push_bit 8 ?v OR ucast b)) n = bit ?v n"
      by (auto simp: bit_simps dest: bit_imp_le_length)
  qed
  moreover have "(ucast (push_bit 8 ?v OR ucast b) :: byte) = b"
    using snoc.prems by (intro bit_word_eqI) (auto simp: bit_simps)
  ultimately show ?case using snoc by (simp add: be_val_snoc be_bytes_Suc)
qed

lemma be_val_bound:
  assumes "8 * length bs < LENGTH('a)"
  shows "unat (be_val bs :: 'a::len word) < 256 ^ length bs"
proof -
  have "be_val bs = take_bit (8 * length bs) (be_val bs :: 'a word)"
    using assms by (metis be_bytes_be_val be_val_be_bytes_take less_imp_le)
  then have "unat (be_val bs :: 'a word) = take_bit (8 * length bs) (unat (be_val bs :: 'a word))"
    by (metis unsigned_take_bit_eq)
  then have "unat (be_val bs :: 'a word) < 2 ^ (8 * length bs)"
    by (metis take_bit_nat_less_exp)
  then show ?thesis by (simp add: power_mult)
qed

lemma byte_cases8: "n < 8 \<Longrightarrow> n = 0 \<or> n = 1 \<or> n = 2 \<or> n = 3 \<or> n = 4 \<or> n = 5 \<or> n = 6 \<or> n = (7 :: nat)"
  by linarith

lemma byte_bits_eqI:
  assumes "bit a 0 = bit b 0" "bit a 1 = bit b 1" "bit a 2 = bit b 2" "bit a 3 = bit b 3"
    "bit a 4 = bit b 4" "bit a 5 = bit b 5" "bit a 6 = bit b 6" "bit a 7 = bit b 7"
  shows "a = (b :: byte)"
  using assms by (intro bit_word_eqI) (auto dest!: byte_cases8)

lemma nibble_cases:
  assumes "unat (v :: byte) < 16"
  shows "v \<in> {0, 1, 2, 3, 4, 5, 6, 7, 8, 9, 10, 11, 12, 13, 14, 15}"
proof -
  have "unat v \<in> {..<16}" using assms by simp
  then have "unat v \<in> {0, 1, 2, 3, 4, 5, 6, 7, 8, 9, 10, 11, 12, 13, 14, 15}"
    by (auto simp: lessThan_nat_numeral simp del: lessThan_iff)
  then show ?thesis by (simp add: word_unat_eq_iff)
qed

text \<open>Masking with the constants of the sources is \<open>take_bit\<close>.\<close>

lemma and_masks:
  fixes x :: "'a::len word"
  shows "x AND 0x7 = take_bit 3 x" "x AND 0xF = take_bit 4 x"
    and "x AND 0x1F = take_bit 5 x"
  "x AND 0x3F = take_bit 6 x" "x AND 0x3FF = take_bit 10 x" "x AND 0xFFFF = take_bit 16 x"
  by (simp_all add: take_bit_eq_mask mask_eq_exp_minus_1)

lemma take_bit_lt: "x < 2 ^ n \<Longrightarrow> take_bit n x = (x :: 'a::len word)"
  using less_mask_eq [of x n] by (simp add: take_bit_eq_mask)

lemma not_bit_lt: "x < 2 ^ n \<Longrightarrow> n \<le> k \<Longrightarrow> \<not> bit (x :: 'a::len word) k"
  using take_bit_lt [of x n] by (metis bit_take_bit_iff not_le)

lemma take_bit_split:
  "take_bit k x + push_bit k (take_bit j (drop_bit k x)) = take_bit (k + j) (x :: 'a::len word)"
proof -
  have "take_bit k x AND push_bit k (take_bit j (drop_bit k x)) = 0"
    by (rule bit_word_eqI) (auto simp: bit_simps)
  moreover have "take_bit k x OR push_bit k (take_bit j (drop_bit k x)) = take_bit (k + j) x"
    by (rule bit_word_eqI) (auto simp: bit_simps)
  ultimately show ?thesis by (simp add: disjunctive_add_eq_or)
qed

end
