(* ===== verification/Bits.thy ===== *)
theory Bits
  imports Prelude
begin

text \<open>
  \<open>lib/bitfields.h\<close> and \<open>lib/bitfields.cpp\<close>: the fixed-width accessors every other part
  of the library reads and writes its formats with, the MSB-first bit reader and writer, and
  \<open>Util::stringToBool\<close>. A \<open>float\<close> or \<open>double\<close> is its bit pattern
  (\<open>btohf\<close>, \<open>btohd\<close> reinterpret the bytes). \<open>unsigned long\<close> is 64 bits wide.
\<close>

section \<open>Big-endian and little-endian accessors\<close>

definition btohs :: "bytes \<Rightarrow> nat \<Rightarrow> u16 option" where
  "btohs p i = do { b0 \<leftarrow> rd p i; b1 \<leftarrow> rd p (i + 1);
     Some (push_bit 8 (ucast b0) OR ucast b1) }"

definition htobs :: "bytes \<Rightarrow> nat \<Rightarrow> u16 \<Rightarrow> bytes option" where
  "htobs p i val = wrn p i
     [ucast (drop_bit 8 val AND 0xFF), ucast (val AND 0xFF)]"

definition btohl :: "bytes \<Rightarrow> nat \<Rightarrow> u32 option" where
  "btohl p i = do { b0 \<leftarrow> rd p i; b1 \<leftarrow> rd p (i + 1);
      b2 \<leftarrow> rd p (i + 2); b3 \<leftarrow> rd p (i + 3);
     Some (push_bit 24 (ucast b0) OR push_bit 16 (ucast b1) OR push_bit 8 (ucast b2)
      OR ucast b3) }"

definition htobl :: "bytes \<Rightarrow> nat \<Rightarrow> u32 \<Rightarrow> bytes option" where
  "htobl p i val = wrn p i
     [ucast (drop_bit 24 val AND 0xFF), ucast (drop_bit 16 val AND 0xFF),
      ucast (drop_bit 8 val AND 0xFF), ucast (val AND 0xFF)]"

definition btoh24 :: "bytes \<Rightarrow> nat \<Rightarrow> u64 option" where
  "btoh24 p i = do { b0 \<leftarrow> rd p i; b1 \<leftarrow> rd p (i + 1);
      b2 \<leftarrow> rd p (i + 2);
     Some (push_bit 16 (ucast b0) OR push_bit 8 (ucast b1) OR ucast b2) }"

definition htob24 :: "bytes \<Rightarrow> nat \<Rightarrow> u64 \<Rightarrow> bytes option" where
  "htob24 p i val = wrn p i
     [ucast (drop_bit 16 val AND 0xFF), ucast (drop_bit 8 val AND 0xFF), ucast (val AND 0xFF)]"

definition btoh40 :: "bytes \<Rightarrow> nat \<Rightarrow> u64 option" where
  "btoh40 p i = do { b0 \<leftarrow> rd p i; b1 \<leftarrow> rd p (i + 1);
      b2 \<leftarrow> rd p (i + 2); b3 \<leftarrow> rd p (i + 3); b4 \<leftarrow> rd p (i + 4);
     Some (push_bit 32 (ucast b0) OR push_bit 24 (ucast b1) OR push_bit 16 (ucast b2)
      OR push_bit 8 (ucast b3) OR ucast b4) }"

definition htob40 :: "bytes \<Rightarrow> nat \<Rightarrow> u64 \<Rightarrow> bytes option" where
  "htob40 p i val = wrn p i
     [ucast (drop_bit 32 val AND 0xFF), ucast (drop_bit 24 val AND 0xFF),
      ucast (drop_bit 16 val AND 0xFF), ucast (drop_bit 8 val AND 0xFF), ucast (val AND 0xFF)]"

definition btoh48 :: "bytes \<Rightarrow> nat \<Rightarrow> u64 option" where
  "btoh48 p i = do { b0 \<leftarrow> rd p i; b1 \<leftarrow> rd p (i + 1);
      b2 \<leftarrow> rd p (i + 2); b3 \<leftarrow> rd p (i + 3); b4 \<leftarrow> rd p (i + 4);
      b5 \<leftarrow> rd p (i + 5);
     Some (push_bit 40 (ucast b0) OR push_bit 32 (ucast b1) OR push_bit 24 (ucast b2)
      OR push_bit 16 (ucast b3) OR push_bit 8 (ucast b4) OR ucast b5) }"

definition htob48 :: "bytes \<Rightarrow> nat \<Rightarrow> u64 \<Rightarrow> bytes option" where
  "htob48 p i val = wrn p i
     [ucast (drop_bit 40 val AND 0xFF), ucast (drop_bit 32 val AND 0xFF),
      ucast (drop_bit 24 val AND 0xFF), ucast (drop_bit 16 val AND 0xFF),
      ucast (drop_bit 8 val AND 0xFF), ucast (val AND 0xFF)]"

definition btoh56 :: "bytes \<Rightarrow> nat \<Rightarrow> u64 option" where
  "btoh56 p i = do { b0 \<leftarrow> rd p i; b1 \<leftarrow> rd p (i + 1);
      b2 \<leftarrow> rd p (i + 2); b3 \<leftarrow> rd p (i + 3); b4 \<leftarrow> rd p (i + 4);
      b5 \<leftarrow> rd p (i + 5); b6 \<leftarrow> rd p (i + 6);
     Some (push_bit 48 (ucast b0) OR push_bit 40 (ucast b1) OR push_bit 32 (ucast b2)
      OR push_bit 24 (ucast b3) OR push_bit 16 (ucast b4) OR push_bit 8 (ucast b5) OR ucast b6) }"

definition htob56 :: "bytes \<Rightarrow> nat \<Rightarrow> u64 \<Rightarrow> bytes option" where
  "htob56 p i val = wrn p i
     [ucast (drop_bit 48 val AND 0xFF), ucast (drop_bit 40 val AND 0xFF),
      ucast (drop_bit 32 val AND 0xFF), ucast (drop_bit 24 val AND 0xFF),
      ucast (drop_bit 16 val AND 0xFF), ucast (drop_bit 8 val AND 0xFF), ucast (val AND 0xFF)]"

definition btohll :: "bytes \<Rightarrow> nat \<Rightarrow> u64 option" where
  "btohll p i = do { b0 \<leftarrow> rd p i; b1 \<leftarrow> rd p (i + 1);
      b2 \<leftarrow> rd p (i + 2); b3 \<leftarrow> rd p (i + 3); b4 \<leftarrow> rd p (i + 4);
      b5 \<leftarrow> rd p (i + 5); b6 \<leftarrow> rd p (i + 6); b7 \<leftarrow> rd p (i + 7);
     Some (push_bit 56 (ucast b0) OR push_bit 48 (ucast b1) OR push_bit 40 (ucast b2)
      OR push_bit 32 (ucast b3) OR push_bit 24 (ucast b4) OR push_bit 16 (ucast b5)
      OR push_bit 8 (ucast b6) OR ucast b7) }"

definition htobll :: "bytes \<Rightarrow> nat \<Rightarrow> u64 \<Rightarrow> bytes option" where
  "htobll p i val = wrn p i
     [ucast (drop_bit 56 val AND 0xFF), ucast (drop_bit 48 val AND 0xFF),
      ucast (drop_bit 40 val AND 0xFF), ucast (drop_bit 32 val AND 0xFF),
      ucast (drop_bit 24 val AND 0xFF), ucast (drop_bit 16 val AND 0xFF),
      ucast (drop_bit 8 val AND 0xFF), ucast (val AND 0xFF)]"

definition btohs_le :: "bytes \<Rightarrow> nat \<Rightarrow> u16 option" where
  "btohs_le p i = do { b0 \<leftarrow> rd p i; b1 \<leftarrow> rd p (i + 1);
     Some (push_bit 8 (ucast b1) OR ucast b0) }"

definition htobs_le :: "bytes \<Rightarrow> nat \<Rightarrow> u16 \<Rightarrow> bytes option" where
  "htobs_le p i val = wrn p i
     [ucast (val AND 0xFF), ucast (drop_bit 8 val AND 0xFF)]"

definition btohl_le :: "bytes \<Rightarrow> nat \<Rightarrow> u64 option" where
  "btohl_le p i = do { b0 \<leftarrow> rd p i; b1 \<leftarrow> rd p (i + 1);
      b2 \<leftarrow> rd p (i + 2); b3 \<leftarrow> rd p (i + 3);
     Some (push_bit 24 (ucast b3) OR push_bit 16 (ucast b2) OR push_bit 8 (ucast b1)
      OR ucast b0) }"

definition htobl_le :: "bytes \<Rightarrow> nat \<Rightarrow> u64 \<Rightarrow> bytes option" where
  "htobl_le p i val = wrn p i
     [ucast (val AND 0xFF), ucast (drop_bit 8 val AND 0xFF), ucast (drop_bit 16 val AND 0xFF),
      ucast (drop_bit 24 val AND 0xFF)]"

definition btoh24_le :: "bytes \<Rightarrow> nat \<Rightarrow> u64 option" where
  "btoh24_le p i = do { b0 \<leftarrow> rd p i; b1 \<leftarrow> rd p (i + 1);
      b2 \<leftarrow> rd p (i + 2);
     Some (push_bit 16 (ucast b2) OR push_bit 8 (ucast b1) OR ucast b0) }"

definition htob24_le :: "bytes \<Rightarrow> nat \<Rightarrow> u64 \<Rightarrow> bytes option" where
  "htob24_le p i val = wrn p i
     [ucast (val AND 0xFF), ucast (drop_bit 8 val AND 0xFF), ucast (drop_bit 16 val AND 0xFF)]"

definition btohll_le :: "bytes \<Rightarrow> nat \<Rightarrow> u64 option" where
  "btohll_le p i = do { b0 \<leftarrow> rd p i; b1 \<leftarrow> rd p (i + 1);
      b2 \<leftarrow> rd p (i + 2); b3 \<leftarrow> rd p (i + 3); b4 \<leftarrow> rd p (i + 4);
      b5 \<leftarrow> rd p (i + 5); b6 \<leftarrow> rd p (i + 6); b7 \<leftarrow> rd p (i + 7);
     Some (push_bit 56 (ucast b7) OR push_bit 48 (ucast b6) OR push_bit 40 (ucast b5)
      OR push_bit 32 (ucast b4) OR push_bit 24 (ucast b3) OR push_bit 16 (ucast b2)
      OR push_bit 8 (ucast b1) OR ucast b0) }"

definition htobll_le :: "bytes \<Rightarrow> nat \<Rightarrow> u64 \<Rightarrow> bytes option" where
  "htobll_le p i val = wrn p i
     [ucast (val AND 0xFF), ucast (drop_bit 8 val AND 0xFF), ucast (drop_bit 16 val AND 0xFF),
      ucast (drop_bit 24 val AND 0xFF), ucast (drop_bit 32 val AND 0xFF),
      ucast (drop_bit 40 val AND 0xFF), ucast (drop_bit 48 val AND 0xFF),
      ucast (drop_bit 56 val AND 0xFF)]"

definition btohf :: "bytes \<Rightarrow> nat \<Rightarrow> u32 option" where
  "btohf p i = btohl p i"

definition htobf :: "bytes \<Rightarrow> nat \<Rightarrow> u32 \<Rightarrow> bytes option" where
  "htobf p i val = htobl p i val"

definition btohd :: "bytes \<Rightarrow> nat \<Rightarrow> u64 option" where
  "btohd p i = btohll p i"

definition htobd :: "bytes \<Rightarrow> nat \<Rightarrow> u64 \<Rightarrow> bytes option" where
  "htobd p i val = htobll p i val"

subsection \<open>The accessors as numbers in base 256\<close>

lemma rdn_0: "rdn m i 0 = (if i \<le> length m then Some [] else None)"
  by (simp add: rdn_def)

lemma rdn_Suc: "rdn m i (Suc n) = do { x \<leftarrow> rd m i; xs \<leftarrow> rdn m (Suc i) n; Some (x # xs) }"
  by (auto simp: rdn_def rd_def Cons_nth_drop_Suc [symmetric])

lemma rdn_numeral: "rdn m i (numeral k) =
    do { x \<leftarrow> rd m i; xs \<leftarrow> rdn m (Suc i) (pred_numeral k); Some (x # xs) }"
  by (simp add: numeral_eq_Suc rdn_Suc)

lemma plus_numeral_Suc: "(i :: nat) + numeral k = Suc (i + pred_numeral k)"
  by (simp add: numeral_eq_Suc)

lemmas get_unfold = rdn_numeral rdn_Suc rdn_0 rd_def be_val_def push_bit_or or.assoc

lemmas put_unfold = numeral_eq_Suc be_bytes_Suc drop_bit_drop_bit

named_theorems codec_eqs \<open>every accessor as a number in base 256\<close>

lemma btohs_eq [codec_eqs]: "btohs p i = map_option be_val (rdn p i 2)"
  by (cases "rdn p i 2") (auto simp: btohs_def get_unfold plus_numeral_Suc [of i] split: if_splits)

lemma htobs_eq [codec_eqs]: "htobs p i val = wrn p i (be_bytes 2 val)"
  by (simp add: htobs_def put_unfold)

lemma btohl_eq [codec_eqs]: "btohl p i = map_option be_val (rdn p i 4)"
  by (cases "rdn p i 4") (auto simp: btohl_def get_unfold plus_numeral_Suc [of i] split: if_splits)

lemma htobl_eq [codec_eqs]: "htobl p i val = wrn p i (be_bytes 4 val)"
  by (simp add: htobl_def put_unfold)

lemma btoh24_eq [codec_eqs]: "btoh24 p i = map_option be_val (rdn p i 3)"
  by (cases "rdn p i 3") (auto simp: btoh24_def get_unfold plus_numeral_Suc [of i] split: if_splits)

lemma htob24_eq [codec_eqs]: "htob24 p i val = wrn p i (be_bytes 3 val)"
  by (simp add: htob24_def put_unfold)

lemma btoh40_eq [codec_eqs]: "btoh40 p i = map_option be_val (rdn p i 5)"
  by (cases "rdn p i 5") (auto simp: btoh40_def get_unfold plus_numeral_Suc [of i] split: if_splits)

lemma htob40_eq [codec_eqs]: "htob40 p i val = wrn p i (be_bytes 5 val)"
  by (simp add: htob40_def put_unfold)

lemma btoh48_eq [codec_eqs]: "btoh48 p i = map_option be_val (rdn p i 6)"
  by (cases "rdn p i 6") (auto simp: btoh48_def get_unfold plus_numeral_Suc [of i] split: if_splits)

lemma htob48_eq [codec_eqs]: "htob48 p i val = wrn p i (be_bytes 6 val)"
  by (simp add: htob48_def put_unfold)

lemma btoh56_eq [codec_eqs]: "btoh56 p i = map_option be_val (rdn p i 7)"
  by (cases "rdn p i 7") (auto simp: btoh56_def get_unfold plus_numeral_Suc [of i] split: if_splits)

lemma htob56_eq [codec_eqs]: "htob56 p i val = wrn p i (be_bytes 7 val)"
  by (simp add: htob56_def put_unfold)

lemma btohll_eq [codec_eqs]: "btohll p i = map_option be_val (rdn p i 8)"
  by (cases "rdn p i 8") (auto simp: btohll_def get_unfold plus_numeral_Suc [of i] split: if_splits)

lemma htobll_eq [codec_eqs]: "htobll p i val = wrn p i (be_bytes 8 val)"
  by (simp add: htobll_def put_unfold)

lemma btohs_le_eq [codec_eqs]: "btohs_le p i = map_option (\<lambda>bs. be_val (rev bs)) (rdn p i 2)"
  by (cases "rdn p i 2") (auto simp: btohs_le_def get_unfold plus_numeral_Suc [of i] split: if_splits)

lemma htobs_le_eq [codec_eqs]: "htobs_le p i val = wrn p i (rev (be_bytes 2 val))"
  by (simp add: htobs_le_def put_unfold)

lemma btohl_le_eq [codec_eqs]: "btohl_le p i = map_option (\<lambda>bs. be_val (rev bs)) (rdn p i 4)"
  by (cases "rdn p i 4") (auto simp: btohl_le_def get_unfold plus_numeral_Suc [of i] split: if_splits)

lemma htobl_le_eq [codec_eqs]: "htobl_le p i val = wrn p i (rev (be_bytes 4 val))"
  by (simp add: htobl_le_def put_unfold)

lemma btoh24_le_eq [codec_eqs]: "btoh24_le p i = map_option (\<lambda>bs. be_val (rev bs)) (rdn p i 3)"
  by (cases "rdn p i 3") (auto simp: btoh24_le_def get_unfold plus_numeral_Suc [of i] split: if_splits)

lemma htob24_le_eq [codec_eqs]: "htob24_le p i val = wrn p i (rev (be_bytes 3 val))"
  by (simp add: htob24_le_def put_unfold)

lemma btohll_le_eq [codec_eqs]: "btohll_le p i = map_option (\<lambda>bs. be_val (rev bs)) (rdn p i 8)"
  by (cases "rdn p i 8") (auto simp: btohll_le_def get_unfold plus_numeral_Suc [of i] split: if_splits)

lemma htobll_le_eq [codec_eqs]: "htobll_le p i val = wrn p i (rev (be_bytes 8 val))"
  by (simp add: htobll_le_def put_unfold)


section \<open>The contract of a fixed-width accessor pair\<close>

text \<open>
  What every client of \<open>bitfields.h\<close> relies on: a store touches exactly the field's bytes,
  fails only outside of the area, a load returns what was stored (for the values that fit the
  field) and depends on the field's bytes only.
\<close>

locale mem_codec =
  fixes get :: "bytes \<Rightarrow> nat \<Rightarrow> 'v option"
    and put :: "bytes \<Rightarrow> nat \<Rightarrow> 'v \<Rightarrow> bytes option"
    and width :: nat
    and fits :: "'v \<Rightarrow> bool"
  assumes put_None_iff: "put m i v = None \<longleftrightarrow> length m < i + width"
    and put_length: "put m i v = Some m' \<Longrightarrow> length m' = length m"
    and put_rd_other: "put m i v = Some m' \<Longrightarrow> k < i \<or> i + width \<le> k \<Longrightarrow> rd m' k = rd m k"
    and get_put: "put m i v = Some m' \<Longrightarrow> fits v \<Longrightarrow> get m' i = Some v"
    and get_cong: "(\<And>k. k < width \<Longrightarrow> rd m (i + k) = rd m' (j + k)) \<Longrightarrow>
          0 < width \<Longrightarrow> get m i = get m' j"
    and get_fits: "get m i = Some v \<Longrightarrow> fits v"
    and put_get: "get m i = Some v \<Longrightarrow> put m i v = Some m"
    and width_pos: "0 < width"
begin

lemma get_put_other:
  assumes "put m i v = Some m'" and "j + width \<le> i \<or> i + width \<le> j"
  shows "get m' j = get m j"
  by (rule get_cong) (use assms in \<open>auto intro!: put_rd_other width_pos\<close>)

lemma get_append_left:
  "i + width \<le> length xs \<Longrightarrow> get (xs @ ys) i = get xs i"
  by (rule get_cong) (auto intro: rd_append_left width_pos)

lemma get_append_at: "length xs = n \<Longrightarrow> get (xs @ ys) (n + i) = get ys i"
  by (rule get_cong) (auto simp: add.assoc width_pos)

lemma put_ok: "i + width \<le> length m \<Longrightarrow> \<exists>m'. put m i v = Some m'"
  using put_None_iff [of m i v] by fastforce

lemma get_ok_iff: "(\<exists>v. get m i = Some v) \<Longrightarrow> i + width \<le> length m"
proof -
  assume "\<exists>v. get m i = Some v"
  then obtain v where "put m i v = Some m" using put_get by blast
  then show ?thesis using put_None_iff [of m i v] by fastforce
qed

lemma get_after_two_puts:
  assumes "put m i v = Some m1" "put m1 j w = Some m2" "j + width \<le> i \<or> i + width \<le> j" "fits v"
  shows "get m2 i = Some v"
  using get_put_other [OF assms(2), of i] get_put [OF assms(1,4)] assms(3) by auto

end

lemma rdn_cong:
  assumes "\<And>k. k < n \<Longrightarrow> rd m (i + k) = rd m' (j + k)" "0 < n"
  shows "rdn m i n = rdn m' j n"
proof -
  have last: "rd m (i + (n - 1)) = rd m' (j + (n - 1))" using assms(1) [of "n - 1"] assms(2) by simp
  then have "i + n \<le> length m \<longleftrightarrow> j + n \<le> length m'"
    using assms(2) by (auto simp: rd_def split: if_splits)
  moreover have "take n (drop i m) = take n (drop j m')" if "i + n \<le> length m" "j + n \<le> length m'"
    by (rule nth_equalityI) (use that assms(1) in \<open>auto simp: rd_def\<close>)
  ultimately show ?thesis by (simp add: rdn_def)
qed

lemma wrn_rdn: "rdn m i n = Some bs \<Longrightarrow> wrn m i bs = Some m"
  by (auto simp: rdn_def wrn_def split: if_splits)
    (metis append_take_drop_id drop_drop add.commute)

lemma take_bit_full [simp]:
  "take_bit 16 (v :: u16) = v" "take_bit 32 (w :: u32) = w" "take_bit 64 (x :: u64) = x"
  by (auto intro!: bit_word_eqI simp: bit_simps dest: bit_imp_le_length)

lemma be_codec:
  assumes "8 * n \<le> LENGTH('a::len)" "0 < n"
  shows "mem_codec (\<lambda>m i. map_option (be_val :: bytes \<Rightarrow> 'a word) (rdn m i n))
           (\<lambda>m i v. wrn m i (be_bytes n v)) n (\<lambda>v. take_bit (8 * n) v = v)"
proof
  fix m m' i j k and v :: "'a word"
  show "wrn m i (be_bytes n v) = None \<longleftrightarrow> length m < i + n" by (simp add: wrn_None_iff)
  assume w: "wrn m i (be_bytes n v) = Some m'"
  show "length m' = length m" using w by (rule wrn_length)
  show "rd m' k = rd m k" if "k < i \<or> i + n \<le> k"
    using that by (intro rd_wrn_other [OF w]) simp
  show "map_option be_val (rdn m' i n) = Some v" if "take_bit (8 * n) v = v"
    using rdn_wrn_same [OF w] that by (simp add: be_val_be_bytes)
next
  fix m m' :: bytes and i j
  assume "\<And>k. k < n \<Longrightarrow> rd m (i + k) = rd m' (j + k)" "0 < n"
  then have "rdn m i n = rdn m' j n" by (rule rdn_cong)
  then show "map_option (be_val :: bytes \<Rightarrow> 'a word) (rdn m i n)
      = map_option be_val (rdn m' j n)" by simp
next
  fix m i and v :: "'a word"
  assume "map_option be_val (rdn m i n) = Some v"
  then obtain bs where bs: "rdn m i n = Some bs" "v = be_val bs" by auto
  then have bk: "be_bytes n v = bs"
    using assms be_bytes_be_val [where ?'a = 'a, of bs] rdn_Some_length by fastforce
  show "take_bit (8 * n) v = v"
    using be_val_be_bytes_take [of n v] bk bs(2) by simp
  show "wrn m i (be_bytes n v) = Some m" using bk wrn_rdn [OF bs(1)] by simp
qed (use assms in simp)

lemma le_codec:
  assumes "8 * n \<le> LENGTH('a::len)" "0 < n"
  shows "mem_codec (\<lambda>m i. map_option (\<lambda>bs. be_val (rev bs) :: 'a word) (rdn m i n))
           (\<lambda>m i v. wrn m i (rev (be_bytes n v))) n (\<lambda>v. take_bit (8 * n) v = v)"
proof
  fix m m' i j k and v :: "'a word"
  show "wrn m i (rev (be_bytes n v)) = None \<longleftrightarrow> length m < i + n" by (simp add: wrn_None_iff)
  assume w: "wrn m i (rev (be_bytes n v)) = Some m'"
  show "length m' = length m" using w by (rule wrn_length)
  show "rd m' k = rd m k" if "k < i \<or> i + n \<le> k"
    using that by (intro rd_wrn_other [OF w]) simp
  show "map_option (\<lambda>bs. be_val (rev bs)) (rdn m' i n) = Some v" if "take_bit (8 * n) v = v"
    using rdn_wrn_same [OF w] that by (simp add: be_val_be_bytes)
next
  fix m m' :: bytes and i j
  assume "\<And>k. k < n \<Longrightarrow> rd m (i + k) = rd m' (j + k)" "0 < n"
  then have "rdn m i n = rdn m' j n" by (rule rdn_cong)
  then show "map_option (\<lambda>bs. be_val (rev bs) :: 'a word) (rdn m i n)
      = map_option (\<lambda>bs. be_val (rev bs)) (rdn m' j n)" by simp
next
  fix m i and v :: "'a word"
  assume "map_option (\<lambda>bs. be_val (rev bs)) (rdn m i n) = Some v"
  then obtain bs where bs: "rdn m i n = Some bs" "v = be_val (rev bs)" by auto
  then have bk: "be_bytes n v = rev bs"
    using assms be_bytes_be_val [where ?'a = 'a, of "rev bs"] rdn_Some_length by fastforce
  show "take_bit (8 * n) v = v"
    using be_val_be_bytes_take [of n v] bk bs(2) by simp
  show "wrn m i (rev (be_bytes n v)) = Some m" using bk wrn_rdn [OF bs(1)] by simp
qed (use assms in simp)

interpretation short: mem_codec btohs htobs 2 "\<lambda>_. True"
  using be_codec [of 2, where ?'a = 16] by (simp add: btohs_eq [abs_def] htobs_eq [abs_def])

interpretation long: mem_codec btohl htobl 4 "\<lambda>_. True"
  using be_codec [of 4, where ?'a = 32] by (simp add: btohl_eq [abs_def] htobl_eq [abs_def])

interpretation b24: mem_codec btoh24 htob24 3 "\<lambda>v. take_bit 24 v = v"
  using be_codec [of 3, where ?'a = 64] by (simp add: btoh24_eq [abs_def] htob24_eq [abs_def])

interpretation b40: mem_codec btoh40 htob40 5 "\<lambda>v. take_bit 40 v = v"
  using be_codec [of 5, where ?'a = 64] by (simp add: btoh40_eq [abs_def] htob40_eq [abs_def])

interpretation b48: mem_codec btoh48 htob48 6 "\<lambda>v. take_bit 48 v = v"
  using be_codec [of 6, where ?'a = 64] by (simp add: btoh48_eq [abs_def] htob48_eq [abs_def])

interpretation b56: mem_codec btoh56 htob56 7 "\<lambda>v. take_bit 56 v = v"
  using be_codec [of 7, where ?'a = 64] by (simp add: btoh56_eq [abs_def] htob56_eq [abs_def])

interpretation llong: mem_codec btohll htobll 8 "\<lambda>_. True"
  using be_codec [of 8, where ?'a = 64] by (simp add: btohll_eq [abs_def] htobll_eq [abs_def])

interpretation short_le: mem_codec btohs_le htobs_le 2 "\<lambda>_. True"
  using le_codec [of 2, where ?'a = 16] by (simp add: btohs_le_eq [abs_def] htobs_le_eq [abs_def])

interpretation long_le: mem_codec btohl_le htobl_le 4 "\<lambda>v. take_bit 32 v = v"
  using le_codec [of 4, where ?'a = 64] by (simp add: btohl_le_eq [abs_def] htobl_le_eq [abs_def])

interpretation b24_le: mem_codec btoh24_le htob24_le 3 "\<lambda>v. take_bit 24 v = v"
  using le_codec [of 3, where ?'a = 64] by (simp add: btoh24_le_eq [abs_def] htob24_le_eq [abs_def])

interpretation llong_le: mem_codec btohll_le htobll_le 8 "\<lambda>_. True"
  using le_codec [of 8, where ?'a = 64] by (simp add: btohll_le_eq [abs_def] htobll_le_eq [abs_def])

section \<open>The MSB-first bit reader and writer\<close>

text \<open>
  The loop of \<open>Bit::getMSB\<close>: \<open>curBits\<close> bits are taken from the current byte. The shifts
  on the byte are done on an \<open>int\<close>, so the bits above the field are not cut off. The offset is
  below 8 in every call (the caller reduces it, the loop resets it to 0).
\<close>

function getMSB_loop :: "bytes \<Rightarrow> nat \<Rightarrow> nat \<Rightarrow> nat \<Rightarrow> u64 \<Rightarrow> u64 option" where
  "getMSB_loop p pos offsetBits dataBits retVal =
     (if dataBits = 0 \<or> 8 \<le> offsetBits then Some retVal
      else
        let curBits = (if 8 - offsetBits > dataBits then dataBits else 8 - offsetBits) in
        do { b \<leftarrow> rd p pos;
             getMSB_loop p (pos + 1) 0 (dataBits - curBits)
               (push_bit curBits retVal OR
                ucast (drop_bit (8 - curBits) (push_bit offsetBits (ucast b :: u32)))) })"
  by pat_completeness auto
termination
  by (relation "measure (\<lambda>(p, pos, off, n, r). n)") auto

declare getMSB_loop.simps [simp del]

definition getMSB :: "bytes \<Rightarrow> nat \<Rightarrow> nat \<Rightarrow> u64 option" where
  "getMSB p offsetBits dataBits =
     getMSB_loop p (drop_bit 3 offsetBits) (offsetBits AND 7) dataBits 0"

text \<open>
  \<open>Bit::setMSB\<close>, which the source marks as unfinished: the pointer starts at the byte after the
  last whole one and moves down; it is an \<open>int\<close> here, and an access outside of the area is
  \<open>None\<close>.
\<close>

function setMSB_loop :: "bytes \<Rightarrow> int \<Rightarrow> nat \<Rightarrow> nat \<Rightarrow> u64 \<Rightarrow> bytes option" where
  "setMSB_loop p pos offsetBits dataBits value =
     (if dataBits = 0 then Some p
      else if pos < 0 then None
      else
        let curBits = (if offsetBits > dataBits then dataBits else offsetBits) in
        do { b \<leftarrow> rd p (nat pos);
             p' \<leftarrow> wrn p (nat pos)
               [ucast (ucast (drop_bit offsetBits (push_bit offsetBits (ucast b :: u32))) OR
                       push_bit (8 - offsetBits) (value AND 0xFF))];
             setMSB_loop p' (pos - 1) 8 (dataBits - curBits) (drop_bit offsetBits value) })"
  by pat_completeness auto
termination
  by (relation "measure (\<lambda>(p, pos, off, n, v). n + (if off = 0 then 1 else 0))") auto

declare setMSB_loop.simps [simp del]

definition setMSB :: "bytes \<Rightarrow> nat \<Rightarrow> nat \<Rightarrow> u64 \<Rightarrow> bytes option" where
  "setMSB p offsetBits dataBits value =
     setMSB_loop p (int (drop_bit 3 (offsetBits + dataBits))) ((offsetBits + dataBits) AND 7)
       dataBits value"

lemma drop_bit_3_nat: "drop_bit 3 (n :: nat) = n div 8"
  by (simp add: drop_bit_eq_div)

lemma and_7_nat: "(n :: nat) AND 7 = n mod 8"
proof -
  have "n AND 7 = take_bit 3 n" by (simp add: take_bit_eq_mask mask_eq_exp_minus_1)
  then show ?thesis by (simp add: take_bit_eq_mod)
qed

lemma ucast_byte_32_64 [simp]: "(ucast (ucast (b :: byte) :: u32) :: u64) = ucast b"
proof (rule bit_word_eqI)
  show "bit (ucast (ucast b :: u32) :: u64) n = bit (ucast b :: u64) n" for n
    using byte_bit_less [of b n] by (auto simp: bit_simps)
qed

lemma getMSB_loop_aligned:
  "i \<le> length p \<Longrightarrow> getMSB_loop p i 0 (8 * k) r
     = map_option (foldl (\<lambda>a b. push_bit 8 a OR ucast b) r) (rdn p i k)"
proof (induction k arbitrary: i r)
  case 0
  then show ?case by (simp add: getMSB_loop.simps rdn_0)
next
  case (Suc k)
  show ?case
  proof (cases "rd p i")
    case None
    then show ?thesis by (subst getMSB_loop.simps) (simp add: rdn_Suc)
  next
    case (Some b)
    then have "Suc i \<le> length p" by (auto simp: rd_def split: if_splits)
    with Some show ?thesis
      by (subst getMSB_loop.simps) (auto simp: rdn_Suc Suc.IH split: bind_splits)
  qed
qed

text \<open>On byte boundaries \<open>getMSB\<close> is the big-endian reader: with an offset of \<open>8 * i\<close> bits
  and a width of \<open>8 * (k + 1)\<close> bits it returns the number the \<open>k + 1\<close> bytes at \<open>p + i\<close> spell (the
  last eight of them, if there are more), and fails exactly when one of them lies outside of the
  area.\<close>

theorem getMSB_aligned: "getMSB p (8 * i) (8 * Suc k) = map_option be_val (rdn p i (Suc k))"
proof (cases "i \<le> length p")
  case True
  then have "getMSB_loop p i 0 (8 * Suc k) 0 = map_option be_val (rdn p i (Suc k))"
    by (simp only: getMSB_loop_aligned be_val_def [abs_def])
  then show ?thesis by (simp add: getMSB_def drop_bit_3_nat and_7_nat)
next
  case False
  then show ?thesis
    by (simp add: getMSB_def drop_bit_3_nat and_7_nat getMSB_loop.simps [of p i 0] rd_def rdn_Suc)
qed

lemma getMSB_unaligned_keeps_high_bits: "getMSB [0xFF] 4 4 = Some 0xFF"
  by (simp add: getMSB_def drop_bit_3_nat and_7_nat getMSB_loop.simps)

section \<open>Booleans in configuration strings\<close>

definition isspace :: "byte \<Rightarrow> bool" where
  "isspace c \<longleftrightarrow> c = 0x20 \<or> (0x09 \<le> c \<and> c \<le> 0x0D)"

definition tolower :: "byte \<Rightarrow> byte" where
  "tolower c = (if 0x41 \<le> c \<and> c \<le> 0x5A then c + 0x20 else c)"

fun stringToBool_scan :: "bytes \<Rightarrow> bytes \<Rightarrow> bytes" where
  "stringToBool_scan [] tmp = tmp"
| "stringToBool_scan (c # cs) tmp =
     (if length tmp < 4
      then stringToBool_scan cs (if \<not> isspace c then tmp @ [tolower c] else tmp)
      else tmp)"

text \<open>\<open>strncmp(tmp, lit, n) == 0\<close> for a literal of \<open>n\<close> characters without a null byte.\<close>

definition strncmp_eq :: "bytes \<Rightarrow> bytes \<Rightarrow> nat \<Rightarrow> bool" where
  "strncmp_eq tmp lit n \<longleftrightarrow> take n tmp = take n lit"

definition stringToBool :: "bytes \<Rightarrow> bool" where
  "stringToBool s =
     (let tmp = stringToBool_scan s [] in
      strncmp_eq tmp (str ''1'') 1 \<or> strncmp_eq tmp (str ''yes'') 3 \<or>
      strncmp_eq tmp (str ''true'') 4 \<or> strncmp_eq tmp (str ''cont'') 4)"

lemma stringToBool_scan_eq:
  "stringToBool_scan s tmp
     = (if length tmp < 4
        then take 4 (tmp @ map tolower (filter (\<lambda>c. \<not> isspace c) s)) else tmp)"
  by (induction s arbitrary: tmp) (auto simp: take_Cons' Suc_diff_le)

lemma stringToBool_space: "isspace c \<Longrightarrow> stringToBool (c # s) = stringToBool s"
  by (simp add: stringToBool_def)

lemma tolower_idem [simp]: "tolower (tolower c) = tolower c"
proof -
  have "unat (c + 32) = unat c + 32" if "c \<le> 90"
    using that by (simp add: unat_word_ariths word_le_nat_alt)
  then show ?thesis by (auto simp: tolower_def word_le_nat_alt)
qed

text \<open>Parts of a number that do not overlap.\<close>

lemma or_shift: "a < 2 ^ k \<Longrightarrow> a OR push_bit k b = a + push_bit k (b :: nat)"
proof -
  assume a: "a < 2 ^ k"
  have "\<not> bit a j" if "k \<le> j" for j
  proof -
    have "a < 2 ^ j" using a that by (meson less_le_trans one_le_numeral power_increasing)
    then show ?thesis by (simp add: bit_iff_odd)
  qed
  then show ?thesis by (subst disjunctive_add) (auto simp: bit_push_bit_iff)
qed


end
