(* ===== verification/ByteBuffer.thy ===== *)
theory ByteBuffer
  imports Bits
begin

text \<open>
  \<open>Util::ResizeablePointer\<close> (\<open>lib/util.cpp\<close>, \<open>lib/util.h\<close>), a growable memory block, and
  \<open>Socket::Buffer\<close> (\<open>lib/socket.cpp\<close>, \<open>lib/socket.h\<close>), the receive queue of a connection: a
  deque of strings, filled at the front in blocks that end at a splitter and drained at the back.
  The abstract view of both is the byte string they hold (\<open>rp_abs\<close>, \<open>sb_abs\<close>).
\<close>

section \<open>ResizeablePointer\<close>

text \<open>
  \<open>rp_mem\<close> is the allocated block (its length is \<open>maxSize\<close>), of which the first \<open>currSize\<close>
  bytes are the contents; a block that was never allocated is empty. \<open>realloc\<close> is an argument:
  \<open>ra m l = None\<close> when it fails.
\<close>

record rptr =
  rp_mem :: bytes
  currSize :: nat
  ro :: bool

type_synonym allocator = "bytes \<Rightarrow> nat \<Rightarrow> bytes option"

text \<open>What C promises of \<open>realloc\<close>: the new block has the size asked for and keeps the bytes of
  the old one.\<close>

definition realloc_ok :: "allocator \<Rightarrow> bool" where
  "realloc_ok ra \<longleftrightarrow> (\<forall>m l m'. ra m l = Some m' \<longrightarrow>
     length m' = l \<and> take (length m) m' = take l m)"

text \<open>One such allocator, which never fails and clears the new bytes.\<close>

definition realloc_zero :: allocator where
  "realloc_zero m l = Some (take l m @ replicate (l - length m) 0)"

lemma realloc_zero_ok: "realloc_ok realloc_zero"
  by (auto simp: realloc_ok_def realloc_zero_def min_def)

definition rp_new :: rptr where
  "rp_new = \<lparr>rp_mem = [], currSize = 0, ro = False\<rparr>"

definition rp_const :: "bytes \<Rightarrow> rptr" where
  "rp_const d = \<lparr>rp_mem = d, currSize = length d, ro = True\<rparr>"

text \<open>The parameter of \<open>allocate\<close> is a \<open>uint32_t\<close>: a larger request is cut to 32 bits.\<close>

definition rp_allocate :: "allocator \<Rightarrow> rptr \<Rightarrow> nat \<Rightarrow> bool \<times> rptr" where
  "rp_allocate ra r l =
     (let l = l mod 2 ^ 32 in
      if length (rp_mem r) < l then
        if ro r then (False, r)
        else (case ra (rp_mem r) l of
                None \<Rightarrow> (False, r)
              | Some m \<Rightarrow> (True, r\<lparr>rp_mem := m\<rparr>))
      else (True, r))"

text \<open>\<open>None\<close> is a \<open>memcpy\<close> that leaves the block.\<close>

definition rp_append :: "allocator \<Rightarrow> rptr \<Rightarrow> bytes \<Rightarrow> (bool \<times> rptr) option" where
  "rp_append ra r d =
     (let (ok, r') = rp_allocate ra r (length d + currSize r) in
      if \<not> ok then Some (False, r')
      else do { m \<leftarrow> wrn (rp_mem r') (currSize r') d;
                Some (True, r'\<lparr>rp_mem := m, currSize := currSize r' + length d\<rparr>) })"

text \<open>\<open>append\<close> with a null pointer: the bytes were written by someone else.\<close>

definition rp_append_external :: "rptr \<Rightarrow> nat \<Rightarrow> bool \<times> rptr" where
  "rp_append_external r l =
     (if length (rp_mem r) < currSize r + l then (False, r)
      else (True, r\<lparr>currSize := currSize r + l\<rparr>))"

definition rp_assign :: "allocator \<Rightarrow> rptr \<Rightarrow> bytes \<Rightarrow> (bool \<times> rptr) option" where
  "rp_assign ra r d =
     (let (ok, r') = rp_allocate ra r (length d) in
      if \<not> ok then Some (False, r')
      else do { m \<leftarrow> wrn (rp_mem r') 0 d;
                Some (True, r'\<lparr>rp_mem := m, currSize := length d\<rparr>) })"

definition rp_appendNull :: "allocator \<Rightarrow> rptr \<Rightarrow> nat \<Rightarrow> (bool \<times> rptr) option" where
  "rp_appendNull ra r l =
     (let (ok, r') = rp_allocate ra r (l + currSize r) in
      if \<not> ok then Some (False, r')
      else do { m \<leftarrow> wrn (rp_mem r') (currSize r') (replicate l 0);
                Some (True, r'\<lparr>rp_mem := m, currSize := currSize r' + l\<rparr>) })"

definition rp_truncate :: "rptr \<Rightarrow> nat \<Rightarrow> rptr" where
  "rp_truncate r newLen = (if newLen < currSize r then r\<lparr>currSize := newLen\<rparr> else r)"

definition rp_shift :: "rptr \<Rightarrow> nat \<Rightarrow> rptr" where
  "rp_shift r byteCount =
     (if currSize r \<le> byteCount then r\<lparr>currSize := 0\<rparr>
      else r\<lparr>rp_mem := take (currSize r - byteCount) (drop byteCount (rp_mem r)) @
                      drop (currSize r - byteCount) (rp_mem r),
             currSize := currSize r - byteCount\<rparr>)"

definition rp_swap :: "rptr \<Rightarrow> rptr \<Rightarrow> rptr \<times> rptr" where
  "rp_swap r rhs = (rhs, r)"

definition rp_abs :: "rptr \<Rightarrow> bytes" where
  "rp_abs r = take (currSize r) (rp_mem r)"

text \<open>The copy constructor and the assignment operator.\<close>

definition rp_copy :: "allocator \<Rightarrow> rptr \<Rightarrow> (bool \<times> rptr) option" where
  "rp_copy ra rhs = rp_append ra rp_new (rp_abs rhs)"

definition rp_copy_assign :: "allocator \<Rightarrow> rptr \<Rightarrow> rptr \<Rightarrow> (bool \<times> rptr) option" where
  "rp_copy_assign ra r rhs = rp_append ra (rp_truncate r 0) (rp_abs rhs)"

definition rp_eq :: "rptr \<Rightarrow> rptr \<Rightarrow> bool" where
  "rp_eq r rhs =
     (if currSize r \<noteq> currSize rhs then False
      else if currSize r = 0 then True
      else take (currSize r) (rp_mem r) = take (currSize r) (rp_mem rhs))"

text \<open>\<open>memcmp\<close>: the first byte that differs decides.\<close>

fun memcmp_less :: "bytes \<Rightarrow> bytes \<Rightarrow> bool" where
  "memcmp_less (x # xs) (y # ys) = (if x = y then memcmp_less xs ys else x < y)"
| "memcmp_less _ _ = False"

definition rp_less :: "rptr \<Rightarrow> rptr \<Rightarrow> bool" where
  "rp_less r rhs =
     (if currSize r \<noteq> currSize rhs then currSize r < currSize rhs
      else if currSize r = 0 then False
      else memcmp_less (take (currSize r) (rp_mem r)) (take (currSize r) (rp_mem rhs)))"

subsection \<open>Invariant and contents\<close>

definition rp_wf :: "rptr \<Rightarrow> bool" where
  "rp_wf r \<longleftrightarrow> currSize r \<le> length (rp_mem r)"

lemma rp_wf_new [simp]: "rp_wf rp_new" and rp_abs_new [simp]: "rp_abs rp_new = []"
  by (simp_all add: rp_wf_def rp_new_def rp_abs_def)

lemma rp_wf_truncate: "rp_wf r \<Longrightarrow> rp_wf (rp_truncate r n)"
  and rp_abs_truncate: "rp_abs (rp_truncate r n) = take n (rp_abs r)"
  by (auto simp: rp_wf_def rp_truncate_def rp_abs_def min_def)

lemma rp_wf_shift: "rp_wf r \<Longrightarrow> rp_wf (rp_shift r n)"
  by (auto simp: rp_wf_def rp_shift_def)

lemma rp_abs_shift: "rp_wf r \<Longrightarrow> rp_abs (rp_shift r n) = drop n (rp_abs r)"
  by (auto simp: rp_wf_def rp_shift_def rp_abs_def drop_take)

lemma rp_allocate_cases:
  assumes "realloc_ok ra" "rp_allocate ra r l = (ok, r')"
  shows "currSize r' = currSize r \<and> ro r' = ro r \<and>
         length (rp_mem r) \<le> length (rp_mem r') \<and>
         take (length (rp_mem r)) (rp_mem r') = rp_mem r \<and>
         (ok \<longrightarrow> l mod 2 ^ 32 \<le> length (rp_mem r'))"
  using assms by (auto simp: rp_allocate_def realloc_ok_def Let_def split: if_splits option.splits)

lemma rp_allocate_abs:
  assumes "realloc_ok ra" "rp_allocate ra r l = (ok, r')" "rp_wf r"
  shows "rp_abs r' = rp_abs r \<and> rp_wf r'"
proof -
  note c = rp_allocate_cases [OF assms(1,2)]
  have "take (currSize r) (rp_mem r') = take (currSize r) (take (length (rp_mem r)) (rp_mem r'))"
    using assms(3) by (simp add: rp_wf_def min_def)
  then show ?thesis using c assms(3) by (simp add: rp_abs_def rp_wf_def)
qed

lemma rp_append_abs:
  assumes ra: "realloc_ok ra" and wf: "rp_wf r" and bound: "currSize r + length d < 2 ^ 32"
  shows "case rp_append ra r d of None \<Rightarrow> False
         | Some (ok, r') \<Rightarrow> rp_wf r' \<and> rp_abs r' = (if ok then rp_abs r @ d else rp_abs r)"
proof (cases "rp_allocate ra r (length d + currSize r)")
  case (Pair ok r1)
  note c = rp_allocate_cases [OF ra Pair] and i = rp_allocate_abs [OF ra Pair wf]
  show ?thesis
  proof (cases ok)
    case False
    then show ?thesis using Pair i by (simp add: rp_append_def)
  next
    case True
    have fit: "currSize r1 + length d \<le> length (rp_mem r1)"
      using c bound True by (simp add: add.commute)
    define m where "m = take (currSize r1) (rp_mem r1) @ d @ drop (currSize r1 + length d) (rp_mem r1)"
    have "wrn (rp_mem r1) (currSize r1) d = Some m" using fit by (simp add: wrn_def m_def)
    then have e: "rp_append ra r d
        = Some (True, r1\<lparr>rp_mem := m, currSize := currSize r1 + length d\<rparr>)"
      using Pair True by (simp add: rp_append_def)
    have "take (currSize r1 + length d) m = rp_abs r1 @ d" "length m = length (rp_mem r1)"
      using fit by (simp_all add: m_def rp_abs_def)
    then show ?thesis using e i fit by (simp add: rp_abs_def rp_wf_def)
  qed
qed

lemma rp_append_wraps:
  assumes "2 ^ 32 \<le> currSize r + length d"
    and "(currSize r + length d) mod 2 ^ 32 \<le> length (rp_mem r)"
    and "length (rp_mem r) < 2 ^ 32"
  shows "rp_append ra r d = None"
  using assms by (simp add: rp_append_def rp_allocate_def wrn_def Let_def add.commute)

lemma rp_eq_abs: "rp_wf r \<Longrightarrow> rp_wf q \<Longrightarrow> rp_eq r q \<longleftrightarrow> rp_abs r = rp_abs q"
  by (auto simp: rp_eq_def rp_abs_def rp_wf_def min_def) (metis length_take min.absorb2)

section \<open>Socket::Buffer\<close>

text \<open>
  \<open>chunks\<close> is the deque: the head of the list is its front, where new data is pushed, the last
  element its back, where reading starts. Counters of type \<open>unsigned int\<close> wrap at 32 bits.
\<close>

record sbuf =
  chunks :: "bytes list"
  splitter :: bytes

definition BUFFER_BLOCKSIZE :: nat where
  "BUFFER_BLOCKSIZE = 4096"

definition sb_new :: sbuf where
  "sb_new = \<lparr>chunks = [], splitter = [0x0A]\<rparr>"

definition u32_add :: "nat \<Rightarrow> nat \<Rightarrow> nat" where
  "u32_add a b = (a + b) mod 2 ^ 32"

text \<open>\<open>size()\<close> drops empty strings at the back first.\<close>

definition pop_empty :: "bytes list \<Rightarrow> bytes list" where
  "pop_empty cs = rev (dropWhile (\<lambda>c. c = []) (rev cs))"

definition sb_size :: "sbuf \<Rightarrow> nat \<times> sbuf" where
  "sb_size b = (let cs = pop_empty (chunks b) in (length cs, b\<lparr>chunks := cs\<rparr>))"

definition sb_bytes :: "sbuf \<Rightarrow> nat" where
  "sb_bytes b = foldl (\<lambda>i c. i + length c) 0 (chunks b)"

fun bytes_max_loop :: "nat \<Rightarrow> nat \<Rightarrow> bytes list \<Rightarrow> nat" where
  "bytes_max_loop mx i [] = i"
| "bytes_max_loop mx i (c # cs) =
     (let i = u32_add i (length c) in if mx \<le> i then mx else bytes_max_loop mx i cs)"

definition sb_bytes_max :: "sbuf \<Rightarrow> nat \<Rightarrow> nat" where
  "sb_bytes_max b mx = bytes_max_loop mx 0 (chunks b)"

fun bytesToSplit_loop :: "bytes \<Rightarrow> nat \<Rightarrow> bytes list \<Rightarrow> nat" where
  "bytesToSplit_loop spl i [] = 0"
| "bytesToSplit_loop spl i (c # cs) =
     (let i = u32_add i (length c) in
      if length spl \<le> length c \<and> drop (length c - length spl) c = spl then i
      else bytesToSplit_loop spl i cs)"

definition sb_bytesToSplit :: "sbuf \<Rightarrow> nat" where
  "sb_bytesToSplit b = bytesToSplit_loop (splitter b) 0 (rev (chunks b))"

text \<open>The inner loop of \<open>append\<close>: the length of the next block, starting at \<open>newdata + i\<close>.\<close>

function split_len :: "bytes \<Rightarrow> bytes \<Rightarrow> nat \<Rightarrow> nat \<Rightarrow> nat" where
  "split_len spl nd i j =
     (if j + i < length nd \<and> j < BUFFER_BLOCKSIZE then
        let j' = j + 1 in
        if length spl \<le> j' \<and> take (length spl) (drop (i + j' - length spl) nd) = spl then j'
        else split_len spl nd i j'
      else j)"
  by pat_completeness auto
termination
  by (relation "measure (\<lambda>(spl, nd, i, j). BUFFER_BLOCKSIZE - j)") auto

declare split_len.simps [simp del]

definition block_len :: "bytes \<Rightarrow> bytes \<Rightarrow> nat \<Rightarrow> nat" where
  "block_len spl nd i =
     (if spl = [] then
        (if BUFFER_BLOCKSIZE < length nd - i then BUFFER_BLOCKSIZE else length nd - i)
      else split_len spl nd i 0)"

function append_loop :: "bytes \<Rightarrow> bytes \<Rightarrow> nat \<Rightarrow> bytes list \<Rightarrow> bytes list" where
  "append_loop spl nd i cs =
     (if i < length nd then
        let j = block_len spl nd i in
        if j \<noteq> 0 then append_loop spl nd (i + j) (take j (drop i nd) # cs) else cs
      else cs)"
  by pat_completeness auto
termination
  by (relation "measure (\<lambda>(spl, nd, i, cs). length nd - i)") auto

declare append_loop.simps [simp del]

definition sb_append :: "sbuf \<Rightarrow> bytes \<Rightarrow> sbuf" where
  "sb_append b newdata = b\<lparr>chunks := append_loop (splitter b) newdata 0 (chunks b)\<rparr>"

definition sb_prepend :: "sbuf \<Rightarrow> bytes \<Rightarrow> sbuf" where
  "sb_prepend b newdata = b\<lparr>chunks := chunks b @ [newdata]\<rparr>"

fun available_loop :: "nat \<Rightarrow> nat \<Rightarrow> bytes list \<Rightarrow> bool" where
  "available_loop count i [] = False"
| "available_loop count i (c # cs) =
     (let i = u32_add i (length c) in if count \<le> i then True else available_loop count i cs)"

text \<open>\<open>available(count) const\<close>, and the variant that first drops empty strings at the back.\<close>

definition sb_available_const :: "sbuf \<Rightarrow> nat \<Rightarrow> bool" where
  "sb_available_const b count = available_loop (count mod 2 ^ 32) 0 (chunks b)"

definition sb_available :: "sbuf \<Rightarrow> nat \<Rightarrow> bool \<times> sbuf" where
  "sb_available b count =
     (let b = snd (sb_size b) in (available_loop (count mod 2 ^ 32) 0 (chunks b), b))"

text \<open>The loops below run over the deque from its back: their list argument is reversed.\<close>

fun skip_loop :: "nat \<Rightarrow> nat \<Rightarrow> bytes list \<Rightarrow> bytes list" where
  "skip_loop count i [] = []"
| "skip_loop count i (c # cs) =
     (if i + length c \<le> count then skip_loop count (i + length c) cs
      else drop (count - i) c # cs)"

definition sb_skip :: "sbuf \<Rightarrow> nat \<Rightarrow> sbuf" where
  "sb_skip b count = b\<lparr>chunks := rev (skip_loop count 0 (rev (chunks b)))\<rparr>"

fun remove_loop :: "nat \<Rightarrow> nat \<Rightarrow> bytes \<Rightarrow> bytes list \<Rightarrow> bytes \<times> bytes list" where
  "remove_loop count i ret [] = (ret, [])"
| "remove_loop count i ret (c # cs) =
     (if i + length c < count then
        let (r, cs') = remove_loop count (i + length c) (ret @ c) cs in (r, [] # cs')
      else (ret @ take (count - i) c, drop (count - i) c # cs))"

definition sb_remove :: "sbuf \<Rightarrow> nat \<Rightarrow> bytes \<times> sbuf" where
  "sb_remove b count =
     (let (ok, b) = sb_available b count in
      if \<not> ok then ([], b)
      else let (ret, cs) = remove_loop count 0 [] (rev (chunks b)) in (ret, b\<lparr>chunks := rev cs\<rparr>))"

fun copy_loop :: "nat \<Rightarrow> nat \<Rightarrow> bytes \<Rightarrow> bytes list \<Rightarrow> bytes" where
  "copy_loop count i ret [] = ret"
| "copy_loop count i ret (c # cs) =
     (if i + length c < count then copy_loop count (u32_add i (length c)) (ret @ c) cs
      else ret @ take (count - i) c)"

definition sb_copy :: "sbuf \<Rightarrow> nat \<Rightarrow> bytes \<times> sbuf" where
  "sb_copy b count =
     (let (ok, b) = sb_available b count in
      if \<not> ok then ([], b) else (copy_loop count 0 [] (rev (chunks b)), b))"

text \<open>The variants that append to a \<open>ResizeablePointer\<close> ignore a failed allocation.\<close>

fun remove_ptr_loop ::
  "allocator \<Rightarrow> nat \<Rightarrow> nat \<Rightarrow> rptr \<Rightarrow> bytes list \<Rightarrow> (rptr \<times> bytes list) option" where
  "remove_ptr_loop ra count i r [] = Some (r, [])"
| "remove_ptr_loop ra count i r (c # cs) =
     (if i + length c < count then
        do { (_, r') \<leftarrow> rp_append ra r c;
             (r'', cs') \<leftarrow> remove_ptr_loop ra count (u32_add i (length c)) r' cs;
             Some (r'', [] # cs') }
      else
        do { (_, r') \<leftarrow> rp_append ra r (take (count - i) c);
             Some (r', drop (count - i) c # cs) })"

definition sb_remove_ptr :: "allocator \<Rightarrow> sbuf \<Rightarrow> rptr \<Rightarrow> nat \<Rightarrow> (rptr \<times> sbuf) option" where
  "sb_remove_ptr ra b r count =
     (let (ok, b) = sb_available b count in
      if \<not> ok then Some (r, b)
      else do { (r', cs) \<leftarrow> remove_ptr_loop ra count 0 r (rev (chunks b));
                Some (r', b\<lparr>chunks := rev cs\<rparr>) })"

fun copy_ptr_loop :: "allocator \<Rightarrow> nat \<Rightarrow> nat \<Rightarrow> rptr \<Rightarrow> bytes list \<Rightarrow> (nat \<times> rptr) option" where
  "copy_ptr_loop ra count i r [] = Some (i, r)"
| "copy_ptr_loop ra count i r (c # cs) =
     (let toAppend = (if count < i + length c then count - i else length c) in
      do { (_, r') \<leftarrow> rp_append ra r (take toAppend c);
           if count \<le> i + toAppend then Some (i + toAppend, r')
           else copy_ptr_loop ra count (i + toAppend) r' cs })"

definition sb_copy_ptr :: "allocator \<Rightarrow> sbuf \<Rightarrow> rptr \<Rightarrow> nat \<Rightarrow> (nat \<times> rptr) option" where
  "sb_copy_ptr ra b r count =
     (let (_, r') = rp_allocate ra r (currSize r + count) in
      copy_ptr_loop ra count 0 r' (rev (chunks b)))"

definition sb_get :: "sbuf \<Rightarrow> bytes \<times> sbuf" where
  "sb_get b = (let b = snd (sb_size b) in
     (if chunks b \<noteq> [] then last (chunks b) else [], b))"

definition sb_clear :: "sbuf \<Rightarrow> sbuf" where
  "sb_clear b = b\<lparr>chunks := []\<rparr>"

text \<open>\<open>compact\<close>: the inner loop moves following strings into the current one until it is large
  enough; it returns the grown string, the strings it emptied and the ones after them.\<close>

fun absorb :: "nat \<Rightarrow> bytes \<Rightarrow> bytes list \<Rightarrow> bytes \<times> bytes list \<times> bytes list" where
  "absorb lim x [] = (x, [], [])"
| "absorb lim x (y # ys) =
     (if lim \<le> length (x @ y) then (x @ y, [[]], ys)
      else let (z, cl, r) = absorb lim (x @ y) ys in (z, [] # cl, r))"

lemma absorb_length: "absorb lim x ys = (z, cl, r) \<Longrightarrow> length r \<le> length ys"
proof (induction lim x ys arbitrary: z cl r rule: absorb.induct)
  case (2 lim x y ys)
  then show ?case by (fastforce split: if_splits prod.splits)
qed simp

function compact_loop :: "nat \<Rightarrow> bytes list \<Rightarrow> bool \<times> bytes list" where
  "compact_loop lim [] = (False, [])"
| "compact_loop lim (x # xs) =
     (if length x < lim then
        let (z, cl, r) = absorb lim x xs; (ch, r') = compact_loop lim r
        in (cl \<noteq> [] \<or> ch, z # cl @ r')
      else let (ch, r') = compact_loop lim xs in (ch, x # r'))"
  by pat_completeness auto
termination
proof (relation "measure (\<lambda>(lim, xs). length xs)", goal_cases)
  case (2 lim x xs a z b cl r)
  then show ?case using absorb_length [of lim x xs z cl r] by simp
qed auto

definition compactSize :: "nat \<Rightarrow> nat option" where
  "compactSize preBytes =
     (if 4194304 < preBytes then
        if 16777216 < preBytes then
          if 33554432 < preBytes then
            if 268435456 < preBytes then None else Some 32768
          else Some 16384
        else Some 8192
      else Some 4096)"

definition sb_compact :: "sbuf \<Rightarrow> bool \<times> sbuf" where
  "sb_compact b =
     (let b = snd (sb_size b); preBytes = sb_bytes_max b (2 ^ 32 - 1) in
      case compactSize preBytes of
        None \<Rightarrow> (False, b)
      | Some lim \<Rightarrow>
          let (changed, cs) = compact_loop lim (rev (chunks b)) in
          if \<not> changed then (False, b\<lparr>chunks := rev cs\<rparr>)
          else (True, snd (sb_size (b\<lparr>chunks := filter (\<lambda>c. c \<noteq> []) (rev cs)\<rparr>))))"

subsection \<open>The buffer as a byte string\<close>

definition sb_abs :: "sbuf \<Rightarrow> bytes" where
  "sb_abs b = concat (rev (chunks b))"

lemma sb_abs_new [simp]: "sb_abs sb_new = []"
  by (simp add: sb_abs_def sb_new_def)

lemma concat_dropWhile_empty: "concat (dropWhile (\<lambda>c. c = []) cs) = concat cs"
  by (induction cs) auto

lemma sb_abs_size [simp]: "sb_abs (snd (sb_size b)) = sb_abs b"
  by (simp add: sb_abs_def sb_size_def pop_empty_def concat_dropWhile_empty)

lemma splitter_size [simp]: "splitter (snd (sb_size b)) = splitter b"
  by (simp add: sb_size_def Let_def)

lemma size_empty_iff: "chunks (snd (sb_size b)) = [] \<longleftrightarrow> sb_abs b = []"
  by (simp add: sb_size_def pop_empty_def sb_abs_def dropWhile_eq_Nil_conv)

lemma length_concat_rev [simp]: "length (concat (rev cs)) = length (concat cs)"
  by (induction cs) auto

lemma foldl_length: "foldl (\<lambda>i c. i + length c) n cs = n + length (concat cs)"
  by (induction cs arbitrary: n) auto

lemma sb_bytes_abs: "sb_bytes b = length (sb_abs b)"
  by (simp add: sb_bytes_def sb_abs_def foldl_length)

lemma bytes_max_loop_eq:
  "i + length (concat cs) < 2 ^ 32 \<Longrightarrow> i < mx \<Longrightarrow>
     bytes_max_loop mx i cs = min mx (i + length (concat cs))"
  by (induction cs arbitrary: i) (auto simp: u32_add_def min_def Let_def)

lemma sb_bytes_max_abs:
  "length (sb_abs b) < 2 ^ 32 \<Longrightarrow> sb_bytes_max b mx = min mx (length (sb_abs b))"
  by (cases "mx = 0"; cases "chunks b")
    (auto simp: sb_bytes_max_def sb_abs_def bytes_max_loop_eq u32_add_def Let_def)

lemma available_loop_eq:
  "i + length (concat cs) < 2 ^ 32 \<Longrightarrow>
     available_loop count i cs \<longleftrightarrow> cs \<noteq> [] \<and> count \<le> i + length (concat cs)"
proof (induction cs arbitrary: i)
  case Nil
  then show ?case by simp
next
  case (Cons c cs)
  then show ?case by (cases cs) (auto simp: u32_add_def Let_def)
qed

lemma sb_available_eq:
  "length (sb_abs b) < 2 ^ 32 \<Longrightarrow> count < 2 ^ 32 \<Longrightarrow>
     fst (sb_available b count) \<longleftrightarrow> sb_abs b \<noteq> [] \<and> count \<le> length (sb_abs b)"
proof -
  assume l: "length (sb_abs b) < 2 ^ 32" "count < 2 ^ 32"
  have "length (concat (chunks (snd (sb_size b)))) = length (sb_abs b)"
    using sb_abs_size [of b] by (metis sb_abs_def length_concat_rev)
  then show ?thesis using l
    by (simp add: sb_available_def available_loop_eq size_empty_iff Let_def)
qed

lemma sb_available_abs [simp]: "sb_abs (snd (sb_available b count)) = sb_abs b"
  by (simp add: sb_available_def Let_def)

lemma split_len_bounds:
  "j + i \<le> length nd \<Longrightarrow> j \<le> BUFFER_BLOCKSIZE \<Longrightarrow>
     j \<le> split_len spl nd i j \<and> split_len spl nd i j + i \<le> length nd \<and>
     split_len spl nd i j \<le> BUFFER_BLOCKSIZE \<and>
     (j + i < length nd \<longrightarrow> j < BUFFER_BLOCKSIZE \<longrightarrow> j < split_len spl nd i j)"
proof (induction spl nd i j rule: split_len.induct)
  case (1 spl nd i j)
  then show ?case by (subst (1 2 3 4) split_len.simps) (force simp: Let_def)
qed

lemma block_len_bounds:
  "i < length nd \<Longrightarrow> 0 < block_len spl nd i \<and> i + block_len spl nd i \<le> length nd \<and>
     block_len spl nd i \<le> BUFFER_BLOCKSIZE"
  using split_len_bounds [of 0 i nd spl] by (auto simp: block_len_def BUFFER_BLOCKSIZE_def)

lemma append_loop_abs:
  "concat (rev (append_loop spl nd i cs)) = concat (rev cs) @ drop i nd"
proof (induction spl nd i cs rule: append_loop.induct)
  case (1 spl nd i cs)
  show ?case
  proof (cases "i < length nd")
    case True
    let ?k = "block_len spl nd i"
    have "take ?k (drop i nd) @ drop (i + ?k) nd = drop i nd"
      by (metis add.commute append_take_drop_id drop_drop)
    with block_len_bounds [OF True, of spl] "1.IH" [OF True refl] True
    show ?thesis by (subst append_loop.simps) (simp add: Let_def)
  next
    case False
    then show ?thesis by (subst append_loop.simps) simp
  qed
qed

lemma sb_append_abs: "sb_abs (sb_append b d) = sb_abs b @ d"
  by (simp add: sb_abs_def sb_append_def append_loop_abs)

lemma sb_prepend_abs: "sb_abs (sb_prepend b d) = d @ sb_abs b"
  by (simp add: sb_abs_def sb_prepend_def)

lemma skip_loop_abs:
  "i \<le> count \<Longrightarrow> concat (skip_loop count i cs) = drop (count - i) (concat cs)"
  by (induction count i cs rule: skip_loop.induct) auto

lemma sb_skip_abs: "sb_abs (sb_skip b n) = drop n (sb_abs b)"
  by (simp add: sb_abs_def sb_skip_def skip_loop_abs)

lemma remove_loop_abs:
  assumes "i \<le> count" "count \<le> i + length (concat cs)" "remove_loop count i ret cs = (r, cs')"
  shows "r = ret @ take (count - i) (concat cs) \<and> concat cs' = drop (count - i) (concat cs)"
  using assms
proof (induction count i ret cs arbitrary: r cs' rule: remove_loop.induct)
  case (2 count i ret c cs)
  show ?case
  proof (cases "i + length c < count")
    case True
    obtain r1 cs1 where rl: "remove_loop count (i + length c) (ret @ c) cs = (r1, cs1)"
      by fastforce
    have "r1 = (ret @ c) @ take (count - (i + length c)) (concat cs) \<and>
        concat cs1 = drop (count - (i + length c)) (concat cs)"
      by (rule "2.IH" [OF True _ _ rl]) (use True "2.prems" in auto)
    then show ?thesis using True "2.prems" rl by auto
  next
    case False
    then show ?thesis using "2.prems" by auto
  qed
qed auto

lemma copy_loop_abs:
  "i \<le> count \<Longrightarrow> count \<le> 2 ^ 32 \<Longrightarrow>
     copy_loop count i ret cs = ret @ take (count - i) (concat cs)"
  by (induction count i ret cs rule: copy_loop.induct) (auto simp: u32_add_def)

lemma sb_remove_available:
  assumes "fst (sb_available b n)" "n \<le> length (sb_abs b)"
  shows "fst (sb_remove b n) = take n (sb_abs b) \<and> sb_abs (snd (sb_remove b n)) = drop n (sb_abs b)"
proof -
  define b' where "b' = snd (sb_available b n)"
  have a: "sb_available b n = (True, b')" using assms(1) by (simp add: b'_def prod_eq_iff)
  have abs: "concat (rev (chunks b')) = sb_abs b"
    using sb_available_abs [of b n] by (simp add: b'_def sb_abs_def)
  obtain r cs where rl: "remove_loop n 0 [] (rev (chunks b')) = (r, cs)" by fastforce
  have "r = [] @ take (n - 0) (concat (rev (chunks b'))) \<and>
      concat cs = drop (n - 0) (concat (rev (chunks b')))"
    by (rule remove_loop_abs [OF _ _ rl]) (use abs assms(2) in auto)
  then show ?thesis using a rl abs by (simp add: sb_remove_def sb_abs_def)
qed

lemma sb_remove_unavailable:
  "\<not> fst (sb_available b n) \<Longrightarrow> fst (sb_remove b n) = [] \<and> sb_abs (snd (sb_remove b n)) = sb_abs b"
  using sb_available_abs [of b n] by (cases "sb_available b n") (simp add: sb_remove_def)

lemma sb_copy_available:
  assumes "fst (sb_available b n)"
  shows "n \<le> 2 ^ 32 \<Longrightarrow> fst (sb_copy b n) = take n (sb_abs b)"
  using assms sb_available_abs [of b n]
  by (cases "sb_available b n") (simp add: sb_copy_def copy_loop_abs sb_abs_def)

lemma sb_copy_abs: "sb_abs (snd (sb_copy b n)) = sb_abs b"
  using sb_available_abs [of b n] by (cases "sb_available b n") (simp add: sb_copy_def)

lemma sb_copy_unavailable:
  "\<not> fst (sb_available b n) \<Longrightarrow> fst (sb_copy b n) = [] \<and> sb_abs (snd (sb_copy b n)) = sb_abs b"
  using sb_available_abs [of b n] by (cases "sb_available b n") (simp add: sb_copy_def)

lemma absorb_abs:
  "absorb lim x ys = (z, cl, r) \<Longrightarrow> z @ concat cl @ concat r = x @ concat ys \<and> concat cl = []"
proof (induction lim x ys arbitrary: z cl r rule: absorb.induct)
  case (2 lim x y ys)
  then show ?case by (fastforce split: if_splits prod.splits)
qed simp

lemma compact_loop_abs: "concat (snd (compact_loop lim cs)) = concat cs"
proof (induction lim cs rule: compact_loop.induct)
  case (2 lim x xs)
  show ?case
  proof (cases "length x < lim")
    case True
    obtain z cl r where a: "absorb lim x xs = (z, cl, r)" by (metis prod_cases3)
    with "2.IH"(1) [OF True refl a [symmetric] refl] absorb_abs [OF a] True show ?thesis
      by (auto split: prod.split)
  next
    case False
    with "2.IH"(2) show ?thesis by (auto split: prod.split)
  qed
qed simp

lemma concat_filter_nonempty: "concat (filter (\<lambda>c. c \<noteq> []) cs) = concat cs"
  by (induction cs) auto

lemma sb_abs_filter: "sb_abs (b\<lparr>chunks := filter (\<lambda>c. c \<noteq> []) (rev cs)\<rparr>) = concat cs"
  by (simp add: sb_abs_def rev_filter concat_filter_nonempty)

lemma sb_compact_abs: "sb_abs (snd (sb_compact b)) = sb_abs b"
proof -
  define b' where "b' = snd (sb_size b)"
  have b': "concat (rev (chunks b')) = sb_abs b" using sb_abs_size [of b] by (simp add: b'_def sb_abs_def)
  show ?thesis
  proof (cases "compactSize (sb_bytes_max b' (2 ^ 32 - 1))")
    case None
    then show ?thesis using b' by (simp add: sb_compact_def b'_def Let_def)
  next
    case (Some lim)
    obtain ch cs where l: "compact_loop lim (rev (chunks b')) = (ch, cs)" by fastforce
    have "concat cs = sb_abs b" using compact_loop_abs [of lim "rev (chunks b')"] l b' by simp
    moreover have "sb_abs (b'\<lparr>chunks := rev cs\<rparr>) = concat cs" by (simp add: sb_abs_def)
    ultimately show ?thesis
      using Some l sb_abs_filter by (simp add: sb_compact_def b'_def [symmetric] Let_def)
  qed
qed

subsection \<open>Line framing\<close>

text \<open>
  With a one-byte splitter, every string of the deque holds the splitter at its end only; this is
  what \<open>bytesToSplit\<close> relies on. \<open>compact\<close> does not keep it.
\<close>

definition framed :: "byte \<Rightarrow> sbuf \<Rightarrow> bool" where
  "framed s b \<longleftrightarrow> splitter b = [s] \<and> (\<forall>c \<in> set (chunks b). s \<notin> set (butlast c))"

lemma split_len_clean:
  "s \<notin> set (take j (drop i nd)) \<Longrightarrow> j + i \<le> length nd \<Longrightarrow>
     s \<notin> set (butlast (take (split_len [s] nd i j) (drop i nd)))"
proof (induction "[s]" nd i j rule: split_len.induct)
  case (1 nd i j)
  show ?case
  proof (cases "j + i < length nd \<and> j < BUFFER_BLOCKSIZE")
    case False
    have "split_len [s] nd i j = j" using False by (subst split_len.simps) auto
    then show ?thesis using "1.prems"(1) by (auto dest: in_set_butlastD)
  next
    case True
    then have "j < length nd - i" by linarith
    then have t: "take (Suc j) (drop i nd) = take j (drop i nd) @ [nd ! (i + j)]"
      using take_Suc_conv_app_nth [of j "drop i nd"] by (simp add: add.commute)
    show ?thesis
    proof (cases "nd ! (i + j) = s")
      case hit: True
      then have "split_len [s] nd i j = Suc j"
        using True by (subst split_len.simps) (simp add: Cons_nth_drop_Suc [symmetric] add.commute)
      then show ?thesis using t "1.prems"(1) by simp
    next
      case False
      then have eq: "split_len [s] nd i j = split_len [s] nd i (Suc j)"
        using True by (subst split_len.simps) (simp add: Cons_nth_drop_Suc [symmetric] add.commute)
      have "s \<notin> set (butlast (take (split_len [s] nd i (j + 1)) (drop i nd)))"
        by (rule "1.hyps" [OF True refl])
          (use True False t "1.prems" in \<open>auto simp: Cons_nth_drop_Suc [symmetric] add.commute\<close>)
      then show ?thesis using eq by simp
    qed
  qed
qed

lemma append_loop_framed:
  "\<forall>c \<in> set cs. s \<notin> set (butlast c) \<Longrightarrow>
     \<forall>c \<in> set (append_loop [s] nd i cs). s \<notin> set (butlast c)"
proof (induction "[s]" nd i cs rule: append_loop.induct)
  case (1 nd i cs)
  show ?case
  proof (cases "i < length nd")
    case True
    have "s \<notin> set (butlast (take (block_len [s] nd i) (drop i nd)))"
      using split_len_clean [of s 0 i nd] True by (simp add: block_len_def)
    then show ?thesis
      using "1.hyps" [OF True refl] "1.prems" True
      by (subst append_loop.simps) (simp add: Let_def)
  next
    case False
    then show ?thesis using "1.prems" by (subst append_loop.simps) simp
  qed
qed

lemma framed_new: "framed 0x0A sb_new"
  by (simp add: framed_def sb_new_def)

lemma framed_append: "framed s b \<Longrightarrow> framed s (sb_append b d)"
  using append_loop_framed [of "chunks b" s d 0] by (simp add: framed_def sb_append_def)

lemma framed_size: "framed s b \<Longrightarrow> framed s (snd (sb_size b))"
  by (auto simp: framed_def sb_size_def pop_empty_def Let_def dest: set_dropWhileD)

lemma in_butlast_dropD: "x \<in> set (butlast (drop n c)) \<Longrightarrow> x \<in> set (butlast c)"
  by (metis butlast_drop in_set_dropD)

lemma skip_loop_framed:
  "\<forall>c \<in> set cs. s \<notin> set (butlast c) \<Longrightarrow>
     \<forall>c \<in> set (skip_loop n i cs). s \<notin> set (butlast c)"
  by (induction n i cs rule: skip_loop.induct) (auto dest: in_butlast_dropD)

lemma framed_skip: "framed s b \<Longrightarrow> framed s (sb_skip b n)"
  using skip_loop_framed [of "rev (chunks b)" s n 0] by (simp add: framed_def sb_skip_def)

lemma remove_loop_framed:
  "\<forall>c \<in> set cs. s \<notin> set (butlast c) \<Longrightarrow>
     \<forall>c \<in> set (snd (remove_loop n i r cs)). s \<notin> set (butlast c)"
proof (induction n i r cs rule: remove_loop.induct)
  case (2 count i ret c cs)
  then show ?case
    by (cases "remove_loop count (i + length c) (ret @ c) cs") (auto dest: in_butlast_dropD)
qed simp

lemma framed_remove: "framed s b \<Longrightarrow> framed s (snd (sb_remove b n))"
proof -
  assume "framed s b"
  then have f: "framed s (snd (sb_size b))" by (rule framed_size)
  define b' where "b' = snd (sb_size b)"
  obtain r cs where rl: "remove_loop n 0 [] (rev (chunks b')) = (r, cs)" by fastforce
  have "\<forall>c \<in> set cs. s \<notin> set (butlast c)"
    using remove_loop_framed [of "rev (chunks b')" s n 0 "[]"] f rl by (simp add: framed_def b'_def)
  then show ?thesis
    using f rl by (simp add: framed_def sb_remove_def sb_available_def Let_def b'_def)
qed

lemma bytesToSplit_loop_eq:
  "\<forall>c \<in> set cs. s \<notin> set (butlast c) \<Longrightarrow> i + length (concat cs) < 2 ^ 32 \<Longrightarrow>
     bytesToSplit_loop [s] i cs
       = (if s \<in> set (concat cs) then i + Suc (length (takeWhile (\<lambda>x. x \<noteq> s) (concat cs))) else 0)"
proof (induction cs arbitrary: i)
  case Nil
  then show ?case by simp
next
  case (Cons c cs)
  show ?case
  proof (cases "c \<noteq> [] \<and> last c = s")
    case True
    then obtain d where c: "c = d @ [s]" by (metis append_butlast_last_id)
    then have "s \<notin> set d" using Cons.prems(1) by simp
    then have "takeWhile (\<lambda>x. x \<noteq> s) (c @ concat cs) = d"
      using c takeWhile_append2 [of d "\<lambda>x. x \<noteq> s" "s # concat cs"] by fastforce
    then show ?thesis using c Cons.prems(2) by (simp add: u32_add_def)
  next
    case False
    have "s \<notin> set c"
      using False Cons.prems(1) by (cases c rule: rev_cases) auto
    moreover have "drop (length c - 1) c \<noteq> [s] \<or> c = []"
      using False by (cases c rule: rev_cases) auto
    moreover have "takeWhile (\<lambda>x. x \<noteq> s) (c @ concat cs) = c @ takeWhile (\<lambda>x. x \<noteq> s) (concat cs)"
      using \<open>s \<notin> set c\<close> by (intro takeWhile_append2) auto
    ultimately show ?thesis
      using Cons.IH [of "i + length c"] Cons.prems
      by (auto simp: u32_add_def Let_def add.assoc Suc_le_eq)
  qed
qed

lemma framed_bytesToSplit:
  assumes "framed s b" "length (sb_abs b) < 2 ^ 32"
  shows "sb_bytesToSplit b
     = (if s \<in> set (sb_abs b) then Suc (length (takeWhile (\<lambda>x. x \<noteq> s) (sb_abs b))) else 0)"
  using assms bytesToSplit_loop_eq [of "rev (chunks b)" s 0]
  by (simp add: sb_bytesToSplit_def framed_def sb_abs_def)

section \<open>The queue contract\<close>

text \<open>
  What the protocol parsers rely on: a buffer is a queue of bytes with one reading end. \<open>lim\<close> is
  the size below which the \<open>unsigned int\<close> counters do not wrap.
\<close>

locale byte_queue =
  fixes qabs :: "'q \<Rightarrow> bytes"
    and lim :: nat
    and qappend :: "'q \<Rightarrow> bytes \<Rightarrow> 'q"
    and qavailable :: "'q \<Rightarrow> nat \<Rightarrow> bool \<times> 'q"
    and qcopy :: "'q \<Rightarrow> nat \<Rightarrow> bytes \<times> 'q"
    and qremove :: "'q \<Rightarrow> nat \<Rightarrow> bytes \<times> 'q"
    and qskip :: "'q \<Rightarrow> nat \<Rightarrow> 'q"
  assumes append_abs: "qabs (qappend q d) = qabs q @ d"
    and available_iff: "length (qabs q) < lim \<Longrightarrow> n < lim \<Longrightarrow>
          fst (qavailable q n) \<longleftrightarrow> qabs q \<noteq> [] \<and> n \<le> length (qabs q)"
    and available_abs: "qabs (snd (qavailable q n)) = qabs q"
    and copy_ok: "n < lim \<Longrightarrow> fst (qavailable q n) \<Longrightarrow> fst (qcopy q n) = take n (qabs q)"
    and copy_abs: "qabs (snd (qcopy q n)) = qabs q"
    and remove_ok: "fst (qavailable q n) \<Longrightarrow> n \<le> length (qabs q) \<Longrightarrow>
          fst (qremove q n) = take n (qabs q) \<and> qabs (snd (qremove q n)) = drop n (qabs q)"
    and remove_none: "\<not> fst (qavailable q n) \<Longrightarrow>
          fst (qremove q n) = [] \<and> qabs (snd (qremove q n)) = qabs q"
    and skip_abs: "qabs (qskip q n) = drop n (qabs q)"
begin

lemma remove_take:
  assumes "length (qabs q) < lim" "n \<le> length (qabs q)" "qabs q \<noteq> []"
  shows "fst (qremove q n) = take n (qabs q) \<and> qabs (snd (qremove q n)) = drop n (qabs q)"
  using assms available_iff [of q n] remove_ok [of q n] by auto

lemma remove_short:
  assumes "length (qabs q) < lim" "n < lim" "length (qabs q) < n"
  shows "fst (qremove q n) = [] \<and> qabs (snd (qremove q n)) = qabs q"
  using assms available_iff [of q n] remove_none [of q n] by auto

lemma copy_skip_is_remove:
  assumes "length (qabs q) < lim" "n \<le> length (qabs q)" "qabs q \<noteq> []"
  shows "fst (qcopy q n) = fst (qremove q n) \<and>
         qabs (qskip (snd (qcopy q n)) n) = qabs (snd (qremove q n))"
  using assms available_iff [of q n] remove_take [OF assms] copy_ok [of n q] copy_abs skip_abs
  by auto

lemma remove_after_append:
  assumes "length (qabs q @ d) < lim" "n \<le> length (qabs q)" "qabs q \<noteq> []"
  shows "fst (qremove (qappend q d) n) = fst (qremove q n) \<and>
         qabs (snd (qremove (qappend q d) n)) = qabs (snd (qremove q n)) @ d"
  using assms remove_take [of q n] remove_take [of "qappend q d" n] by (simp add: append_abs)

lemma remove_split:
  assumes "length (qabs q) < lim" "a + b \<le> length (qabs q)" "0 < b"
  shows "fst (qremove q a) @ fst (qremove (snd (qremove q a)) b) = fst (qremove q (a + b))"
proof -
  have "qabs q \<noteq> []" using assms by auto
  then have q: "fst (qremove q a) = take a (qabs q)" "qabs (snd (qremove q a)) = drop a (qabs q)"
    "fst (qremove q (a + b)) = take (a + b) (qabs q)"
    using assms remove_take [of q a] remove_take [of q "a + b"] by auto
  have "fst (qremove (snd (qremove q a)) b) = take b (drop a (qabs q))"
    using remove_take [of "snd (qremove q a)" b] q assms by auto
  then show ?thesis by (simp add: q take_add)
qed

end

interpretation sbq: byte_queue sb_abs "2 ^ 32" sb_append sb_available sb_copy sb_remove sb_skip
proof
  fix q d n
  show "sb_abs (sb_append q d) = sb_abs q @ d" by (rule sb_append_abs)
  show "sb_abs (snd (sb_available q n)) = sb_abs q" by simp
  show "sb_abs (snd (sb_copy q n)) = sb_abs q" by (rule sb_copy_abs)
  show "fst (sb_copy q n) = take n (sb_abs q)" if "n < 2 ^ 32" "fst (sb_available q n)"
    using that sb_copy_available by simp
  show "sb_abs (sb_skip q n) = drop n (sb_abs q)" by (rule sb_skip_abs)
qed (use sb_available_eq sb_remove_available sb_remove_unavailable in blast)+

section \<open>Draining into a ResizeablePointer\<close>

text \<open>When memory is available and the 32-bit sizes suffice, the pointer variants append the bytes
  the string variants return.\<close>

definition alloc_total :: "allocator \<Rightarrow> bool" where
  "alloc_total ra \<longleftrightarrow> realloc_ok ra \<and> (\<forall>m l. ra m l \<noteq> None)"

lemma alloc_total_zero: "alloc_total realloc_zero"
  using realloc_zero_ok by (simp add: alloc_total_def realloc_zero_def)

lemma rp_allocate_total:
  assumes "alloc_total ra" "\<not> ro r"
  shows "\<exists>r'. rp_allocate ra r l = (True, r') \<and> \<not> ro r'"
proof -
  obtain m where "ra (rp_mem r) (l mod 2 ^ 32) = Some m"
    using assms(1) unfolding alloc_total_def by blast
  then show ?thesis using assms(2) by (auto simp: rp_allocate_def Let_def)
qed

lemma length_rp_abs: "rp_wf r \<Longrightarrow> length (rp_abs r) = currSize r"
  by (simp add: rp_abs_def rp_wf_def)

lemma rp_append_total:
  assumes "alloc_total ra" "rp_wf r" "\<not> ro r" "length (rp_abs r) + length d < 2 ^ 32"
  shows "\<exists>r'. rp_append ra r d = Some (True, r') \<and> rp_wf r' \<and> \<not> ro r' \<and> rp_abs r' = rp_abs r @ d"
proof -
  have ra: "realloc_ok ra" using assms(1) by (simp add: alloc_total_def)
  have b: "currSize r + length d < 2 ^ 32" using assms(2,4) by (simp add: length_rp_abs)
  obtain r1 where r1: "rp_allocate ra r (length d + currSize r) = (True, r1)" "\<not> ro r1"
    using rp_allocate_total [OF assms(1,3)] by blast
  then have "\<exists>r'. rp_append ra r d = Some (True, r') \<and> \<not> ro r'"
    using rp_append_abs [OF ra assms(2) b]
    by (auto simp: rp_append_def Let_def split: bind_splits option.splits)
  then show ?thesis using rp_append_abs [OF ra assms(2) b] by auto
qed

lemma copy_ptr_loop_total:
  assumes "alloc_total ra"
  shows "rp_wf r \<Longrightarrow> \<not> ro r \<Longrightarrow> length (rp_abs r) + (count - i) < 2 ^ 32 \<Longrightarrow> i \<le> count \<Longrightarrow>
    \<exists>r'. copy_ptr_loop ra count i r cs = Some (min count (i + length (concat cs)), r') \<and>
         rp_wf r' \<and> \<not> ro r' \<and> rp_abs r' = rp_abs r @ take (count - i) (concat cs)"
proof (induction cs arbitrary: i r)
  case Nil
  then show ?case by simp
next
  case (Cons c cs)
  let ?t = "if count < i + length c then count - i else length c"
  have len: "length (take ?t c) = ?t" by auto
  have "length (rp_abs r) + length (take ?t c) < 2 ^ 32" using Cons.prems by auto
  then obtain r1 where r1: "rp_append ra r (take ?t c) = Some (True, r1)" "rp_wf r1" "\<not> ro r1"
      "rp_abs r1 = rp_abs r @ take ?t c"
    using rp_append_total [OF assms Cons.prems(1,2)] by blast
  show ?case
  proof (cases "count \<le> i + ?t")
    case True
    then show ?thesis using r1 Cons.prems by (auto simp: min_def Let_def)
  next
    case False
    then have t: "?t = length c" "i + length c < count" by (auto split: if_splits)
    have "length (rp_abs r1) + (count - (i + length c)) < 2 ^ 32"
      using r1 t Cons.prems by simp
    then obtain r2 where
      "copy_ptr_loop ra count (i + length c) r1 cs
         = Some (min count (i + length c + length (concat cs)), r2)"
      "rp_wf r2" "\<not> ro r2" "rp_abs r2 = rp_abs r1 @ take (count - (i + length c)) (concat cs)"
      using Cons.IH [OF r1(2,3)] t by fastforce
    then show ?thesis using r1 t by (auto simp: Let_def add.assoc)
  qed
qed

lemma sb_copy_ptr_total:
  assumes "alloc_total ra" "rp_wf r" "\<not> ro r" "length (rp_abs r) + count < 2 ^ 32"
  shows "\<exists>r'. sb_copy_ptr ra b r count = Some (min count (length (sb_abs b)), r') \<and>
     rp_wf r' \<and> \<not> ro r' \<and> rp_abs r' = rp_abs r @ take count (sb_abs b)"
proof -
  obtain r1 where r1: "rp_allocate ra r (currSize r + count) = (True, r1)" "\<not> ro r1"
    using rp_allocate_total [OF assms(1,3)] by blast
  have ra: "realloc_ok ra" using assms(1) by (simp add: alloc_total_def)
  have a: "rp_abs r1 = rp_abs r" "rp_wf r1" using rp_allocate_abs [OF ra r1(1) assms(2)] by auto
  then show ?thesis
    using copy_ptr_loop_total [OF assms(1) a(2) r1(2), of count 0 "rev (chunks b)"] assms(4) r1
    by (simp add: sb_copy_ptr_def sb_abs_def)
qed

lemma remove_ptr_loop_total:
  assumes "alloc_total ra"
  shows "rp_wf r \<Longrightarrow> \<not> ro r \<Longrightarrow> length (rp_abs r) + (count - i) < 2 ^ 32 \<Longrightarrow> i \<le> count \<Longrightarrow>
    count \<le> i + length (concat cs) \<Longrightarrow> count < 2 ^ 32 \<Longrightarrow>
    \<exists>r' cs'. remove_ptr_loop ra count i r cs = Some (r', cs') \<and>
         rp_wf r' \<and> \<not> ro r' \<and> rp_abs r' = rp_abs r @ take (count - i) (concat cs) \<and>
         concat cs' = drop (count - i) (concat cs)"
proof (induction cs arbitrary: i r)
  case Nil
  then show ?case by simp
next
  case (Cons c cs)
  show ?case
  proof (cases "i + length c < count")
    case True
    then have "length (rp_abs r) + length c < 2 ^ 32" using Cons.prems by linarith
    then obtain r1 where r1: "rp_append ra r c = Some (True, r1)" "rp_wf r1" "\<not> ro r1"
        "rp_abs r1 = rp_abs r @ c"
      using rp_append_total [OF assms Cons.prems(1,2), of c] by blast
    have u: "u32_add i (length c) = i + length c"
      using True Cons.prems by (simp add: u32_add_def)
    obtain r2 cs2 where
      "remove_ptr_loop ra count (i + length c) r1 cs = Some (r2, cs2)"
      "rp_wf r2" "\<not> ro r2" "rp_abs r2 = rp_abs r1 @ take (count - (i + length c)) (concat cs)"
      "concat cs2 = drop (count - (i + length c)) (concat cs)"
      using Cons.IH [OF r1(2,3), of "i + length c"] True Cons.prems r1(4) by force
    then show ?thesis using r1 True u by auto
  next
    case False
    then obtain r1 where "rp_append ra r (take (count - i) c) = Some (True, r1)" "rp_wf r1" "\<not> ro r1"
        "rp_abs r1 = rp_abs r @ take (count - i) c"
      using rp_append_total [OF assms Cons.prems(1,2), of "take (count - i) c"] Cons.prems by auto
    then show ?thesis using False by auto
  qed
qed

lemma sb_remove_ptr_total:
  assumes "alloc_total ra" "rp_wf r" "\<not> ro r" "length (rp_abs r) + count < 2 ^ 32"
    and "fst (sb_available b count)" "count \<le> length (sb_abs b)"
  shows "\<exists>r' b'. sb_remove_ptr ra b r count = Some (r', b') \<and>
     rp_wf r' \<and> \<not> ro r' \<and> rp_abs r' = rp_abs r @ take count (sb_abs b) \<and>
     sb_abs b' = drop count (sb_abs b)"
proof -
  define b1 where "b1 = snd (sb_available b count)"
  have a: "sb_available b count = (True, b1)" using assms(5) by (simp add: b1_def prod_eq_iff)
  have abs: "concat (rev (chunks b1)) = sb_abs b"
    using sb_available_abs [of b count] by (simp add: b1_def sb_abs_def)
  obtain r' cs' where "remove_ptr_loop ra count 0 r (rev (chunks b1)) = Some (r', cs')"
    "rp_wf r'" "\<not> ro r'" "rp_abs r' = rp_abs r @ take (count - 0) (concat (rev (chunks b1)))"
    "concat cs' = drop (count - 0) (concat (rev (chunks b1)))"
    using remove_ptr_loop_total [OF assms(1-3), of count 0 "rev (chunks b1)"] assms(4,6) abs by auto
  then show ?thesis using a abs by (simp add: sb_remove_ptr_def sb_abs_def)
qed

section \<open>Properties\<close>

text \<open>
  Everything that changes the deque between its construction and a read, in any order: the
  operations of the class (\<open>available\<close> and \<open>copy\<close> drop empty strings, a removal into a
  \<open>ResizeablePointer\<close> has the pointer and the allocator it writes with), and \<open>Edit d\<close>, a caller that
  writes \<open>d\<close> through the reference that \<open>get\<close> returns. A removal that is undefined behaviour (the
  pointer's 32-bit size wraps) is followed by nothing.
\<close>

datatype sb_op =
  Append bytes | Prepend bytes | Available nat | Skip nat | Remove nat | Copy nat
  | Remove_ptr allocator rptr nat | Get | Edit bytes | Clear | Compact

fun sb_step :: "sbuf \<Rightarrow> sb_op \<Rightarrow> sbuf option" where
  "sb_step b (Append d) = Some (sb_append b d)"
| "sb_step b (Prepend d) = Some (sb_prepend b d)"
| "sb_step b (Available n) = Some (snd (sb_available b n))"
| "sb_step b (Skip n) = Some (sb_skip b n)"
| "sb_step b (Remove n) = Some (snd (sb_remove b n))"
| "sb_step b (Copy n) = Some (snd (sb_copy b n))"
| "sb_step b (Remove_ptr ra r n) = map_option snd (sb_remove_ptr ra b r n)"
| "sb_step b Get = Some (snd (sb_get b))"
| "sb_step b (Edit d) =
     (let b = snd (sb_get b) in
      Some (if chunks b = [] then b else b\<lparr>chunks := butlast (chunks b) @ [d]\<rparr>))"
| "sb_step b Clear = Some (sb_clear b)"
| "sb_step b Compact = Some (snd (sb_compact b))"

fun sb_steps :: "sb_op list \<Rightarrow> sbuf \<Rightarrow> sbuf option" where
  "sb_steps [] b = Some b"
| "sb_steps (x # ops) b = do { b \<leftarrow> sb_step b x; sb_steps ops b }"

definition sb_run :: "sb_op list \<Rightarrow> sbuf option" where
  "sb_run ops = sb_steps ops sb_new"

text \<open>The operations that leave a newline only at the end of a string of the deque: all but
  \<open>compact\<close>, and putting a string with an inner newline in place.\<close>

fun keeps_lines :: "sb_op \<Rightarrow> bool" where
  "keeps_lines (Prepend d) \<longleftrightarrow> 0x0A \<notin> set (butlast d)"
| "keeps_lines (Edit d) \<longleftrightarrow> 0x0A \<notin> set (butlast d)"
| "keeps_lines Compact \<longleftrightarrow> False"
| "keeps_lines _ \<longleftrightarrow> True"

lemma framed_get: "framed s b \<Longrightarrow> framed s (snd (sb_get b))"
  using framed_size [of s b] by (simp add: sb_get_def Let_def)

lemma framed_available: "framed s b \<Longrightarrow> framed s (snd (sb_available b n))"
  using framed_size [of s b] by (simp add: sb_available_def Let_def)

lemma framed_chunks:
  "framed s b \<Longrightarrow> \<forall>c \<in> set cs. c \<in> set (chunks b) \<or> s \<notin> set (butlast c) \<Longrightarrow> framed s (b\<lparr>chunks := cs\<rparr>)"
  by (auto simp: framed_def)

lemma remove_ptr_loop_framed:
  "remove_ptr_loop ra n i r cs = Some (r', cs') \<Longrightarrow> \<forall>c \<in> set cs. s \<notin> set (butlast c) \<Longrightarrow>
     \<forall>c \<in> set cs'. s \<notin> set (butlast c)"
proof (induction ra n i r cs arbitrary: r' cs' rule: remove_ptr_loop.induct)
  case (2 ra count i r c cs)
  show ?case
  proof (cases "i + length c < count")
    case True
    then obtain b1 r1 cs1 where r1: "rp_append ra r c = Some (b1, r1)"
        "remove_ptr_loop ra count (u32_add i (length c)) r1 cs = Some (r', cs1)" "cs' = [] # cs1"
      using "2.prems"(1) by (auto split: bind_splits)
    have "\<forall>c \<in> set cs1. s \<notin> set (butlast c)"
      by (rule "2.IH" [OF True r1(1) refl r1(2)]) (use "2.prems"(2) in auto)
    then show ?thesis using r1(3) by simp
  next
    case False
    then have "cs' = drop (count - i) c # cs" using "2.prems"(1) by (auto split: bind_splits)
    then show ?thesis using "2.prems"(2) by (auto dest: in_butlast_dropD)
  qed
qed simp

lemma framed_remove_ptr: "framed s b \<Longrightarrow> sb_remove_ptr ra b r n = Some (r', b') \<Longrightarrow> framed s b'"
proof -
  assume f: "framed s b" and e: "sb_remove_ptr ra b r n = Some (r', b')"
  obtain ok b1 where a: "sb_available b n = (ok, b1)" by fastforce
  then have f1: "framed s b1" using framed_available [OF f, of n] by simp
  show ?thesis
  proof (cases ok)
    case True
    then obtain cs where l: "remove_ptr_loop ra n 0 r (rev (chunks b1)) = Some (r', cs)"
      and b': "b' = b1\<lparr>chunks := rev cs\<rparr>"
      using e a by (auto simp: sb_remove_ptr_def split: bind_splits)
    have "\<forall>c \<in> set cs. s \<notin> set (butlast c)"
      by (rule remove_ptr_loop_framed [OF l]) (use f1 in \<open>simp add: framed_def\<close>)
    then show ?thesis using f1 b' by (simp add: framed_def)
  next
    case False
    then show ?thesis using e a f1 by (simp add: sb_remove_ptr_def)
  qed
qed

text \<open>C11: Reading from a buffer returns the bytes in the order they were appended: after any
  append, removing \<open>n\<close> of the bytes present returns the first \<open>n\<close> of the queue followed by the new
  data and leaves the rest, whatever blocks the data was split into.\<close>

theorem sb_fifo:
  assumes "length (sb_abs b) + length d < 2 ^ 32"
    and "0 < n" "n \<le> length (sb_abs b) + length d"
  shows "fst (sb_remove (sb_append b d) n) = take n (sb_abs b @ d) \<and>
         sb_abs (snd (sb_remove (sb_append b d) n)) = drop n (sb_abs b @ d)"
proof -
  have "sb_abs (sb_append b d) \<noteq> []" using assms by (auto simp: sb_append_abs)
  then show ?thesis
    using sbq.remove_take [of "sb_append b d" n] assms by (simp add: sb_append_abs)
qed

theorem sb_fifo_witness:
  "fst (sb_remove (sb_append (sb_append sb_new [1, 10, 2]) [3, 4]) 4) = [1, 10, 2, 3]"
  using sb_fifo [of "sb_append sb_new [1, 10, 2]" "[3, 4]" 4] by (simp add: sb_append_abs)

lemma framed_step:
  "keeps_lines x \<Longrightarrow> framed 0x0A b \<Longrightarrow> sb_step b x = Some b' \<Longrightarrow> framed 0x0A b'"
proof (cases x)
  case (Prepend d)
  assume "keeps_lines x" "framed 0x0A b" "sb_step b x = Some b'"
  then show ?thesis using Prepend framed_chunks [of "0x0A" b "chunks b @ [d]"] by (auto simp: sb_prepend_def)
next
  case (Copy n)
  assume "framed 0x0A b" "sb_step b x = Some b'"
  then show ?thesis using Copy framed_available [of "0x0A" b n]
    by (auto simp: sb_copy_def split: prod.splits if_splits)
next
  case (Edit d)
  assume a: "keeps_lines x" "framed 0x0A b" "sb_step b x = Some b'"
  have "framed 0x0A (snd (sb_get b))" using a(2) by (rule framed_get)
  then show ?thesis
    using Edit a framed_chunks [of "0x0A" "snd (sb_get b)" "butlast (chunks (snd (sb_get b))) @ [d]"]
    by (auto simp: Let_def dest: in_set_butlastD split: if_splits)
next
  case (Remove_ptr ra r n)
  assume "framed 0x0A b" "sb_step b x = Some b'"
  then show ?thesis using Remove_ptr framed_remove_ptr by fastforce
qed (auto simp: framed_append framed_skip framed_remove framed_available framed_get sb_clear_def
       framed_def [of _ "b\<lparr>chunks := []\<rparr>"] dest: framed_def [THEN iffD1])

lemma framed_steps:
  "\<forall>x \<in> set ops. keeps_lines x \<Longrightarrow> framed 0x0A b \<Longrightarrow> sb_steps ops b = Some b' \<Longrightarrow> framed 0x0A b'"
  by (induction ops arbitrary: b) (auto intro: framed_step split: bind_splits)

lemma splitter_step: "sb_step b x = Some b' \<Longrightarrow> splitter b' = splitter b"
  by (cases x)
    (auto simp: sb_append_def sb_prepend_def sb_available_def sb_skip_def sb_remove_def sb_copy_def
      sb_remove_ptr_def sb_get_def sb_clear_def sb_compact_def Let_def
      split: if_splits prod.splits option.splits bind_splits)

lemma splitter_steps: "sb_steps ops b = Some b' \<Longrightarrow> splitter b' = splitter b"
  by (induction ops arbitrary: b) (auto dest: splitter_step split: bind_splits)

lemma bytesToSplit_loop_hit:
  assumes "i + length (concat cs) < 2 ^ 32" "bytesToSplit_loop [s] i cs \<noteq> 0"
  shows "i < bytesToSplit_loop [s] i cs \<and> bytesToSplit_loop [s] i cs \<le> i + length (concat cs) \<and>
     concat cs ! (bytesToSplit_loop [s] i cs - i - 1) = s"
  using assms
proof (induction cs arbitrary: i)
  case (Cons c cs)
  let ?n = "bytesToSplit_loop [s] (i + length c) cs"
  have u: "u32_add i (length c) = i + length c" using Cons.prems(1) by (simp add: u32_add_def)
  show ?case
  proof (cases "1 \<le> length c \<and> drop (length c - 1) c = [s]")
    case True
    then have "c \<noteq> [] \<and> c ! (length c - 1) = s"
      by (metis One_nat_def diff_less drop_eq_Nil2 hd_drop_conv_nth le_zero_eq length_0_conv list.sel(1)
          not_less_eq_eq zero_less_iff_neq_zero zero_less_one)
    then show ?thesis using True u by (simp add: nth_append Let_def)
  next
    case False
    then have e: "bytesToSplit_loop [s] i (c # cs) = ?n" using u by (auto simp: Let_def)
    then have "i + length c < ?n \<and> ?n \<le> i + length c + length (concat cs) \<and>
        concat cs ! (?n - (i + length c) - 1) = s"
      using Cons by simp
    then show ?thesis unfolding e by (auto simp: nth_append)
  qed
qed simp

text \<open>C20: A connection's buffer finds line ends. Whatever operations ran on a new buffer (the list
  of \<open>sb_op\<close>, \<open>compact\<close> and edits through \<open>get\<close> included), the position \<open>bytesToSplit\<close> returns is directly
  behind a newline of the data, or 0; and when none of them was a \<open>compact\<close> and no string with an
  inner newline was put in front or in place, it is the length of the first line including its
  newline, and 0 exactly when no newline has arrived. The buffer holds less than 4 GiB.\<close>

theorem bytesToSplit_first_line:
  assumes "sb_run ops = Some b" and "length (sb_abs b) < 2 ^ 32"
  shows "(sb_bytesToSplit b = 0 \<or>
            sb_bytesToSplit b \<le> length (sb_abs b) \<and> sb_abs b ! (sb_bytesToSplit b - 1) = 0x0A) \<and>
         ((\<forall>x \<in> set ops. keeps_lines x) \<longrightarrow>
            sb_bytesToSplit b
              = (if 0x0A \<in> set (sb_abs b)
                 then Suc (length (takeWhile (\<lambda>x. x \<noteq> 0x0A) (sb_abs b))) else 0))"
proof
  have "splitter b = [0x0A]"
    using splitter_steps [OF assms(1) [unfolded sb_run_def]] by (simp add: sb_new_def)
  then show "sb_bytesToSplit b = 0 \<or>
      sb_bytesToSplit b \<le> length (sb_abs b) \<and> sb_abs b ! (sb_bytesToSplit b - 1) = 0x0A"
    using bytesToSplit_loop_hit [of 0 "rev (chunks b)" "0x0A"] assms(2)
    by (auto simp: sb_bytesToSplit_def sb_abs_def)
  show "(\<forall>x \<in> set ops. keeps_lines x) \<longrightarrow> sb_bytesToSplit b = (if 0x0A \<in> set (sb_abs b)
      then Suc (length (takeWhile (\<lambda>x. x \<noteq> 0x0A) (sb_abs b))) else 0)"
    using framed_steps [OF _ framed_new assms(1) [unfolded sb_run_def]] framed_bytesToSplit assms(2)
    by blast
qed

lemma sb_run_example:
  "\<exists>b. sb_run [Append [9, 1, 2, 10, 3], Skip 2, Get, Edit [4, 10], Prepend [7]] = Some b \<and> sb_abs b = [7, 4, 10, 3]"
  by (simp add: sb_run_def sb_append_def append_loop.simps block_len_def split_len.simps sb_new_def
      BUFFER_BLOCKSIZE_def sb_skip_def sb_get_def sb_size_def pop_empty_def sb_prepend_def sb_abs_def Let_def)

theorem bytesToSplit_first_line_witness:
  "\<exists>b. sb_run [Append [9, 1, 2, 10, 3], Skip 2, Get, Edit [4, 10], Prepend [7]] = Some b \<and>
     sb_bytesToSplit b = 3"
proof -
  obtain b where b: "sb_run [Append [9, 1, 2, 10, 3], Skip 2, Get, Edit [4, 10], Prepend [7]] = Some b"
    and "sb_abs b = [7, 4, 10, 3]" using sb_run_example by blast
  then show ?thesis using bytesToSplit_first_line [OF b] by simp
qed

lemma absorb_large:
  "absorb lim x ys = (z, cl, r) \<Longrightarrow> filter (\<lambda>c. c \<noteq> []) cl = [] \<and> (lim \<le> length z \<or> r = [])"
proof (induction lim x ys arbitrary: z cl r rule: absorb.induct)
  case (2 lim x y ys)
  then show ?case by (fastforce split: if_splits prod.splits)
qed simp

lemma compact_loop_large:
  "\<forall>c \<in> set (butlast (filter (\<lambda>c. c \<noteq> []) (snd (compact_loop lim cs)))). lim \<le> length c"
proof (induction lim cs rule: compact_loop.induct)
  case (2 lim x xs)
  show ?case
  proof (cases "length x < lim")
    case True
    obtain z cl r where a: "absorb lim x xs = (z, cl, r)" by (metis prod_cases3)
    with "2.IH"(1) [OF True refl a [symmetric] refl] absorb_large [OF a] True show ?thesis
      by (auto split: prod.split)
  next
    case False
    with "2.IH"(2) show ?thesis by (auto split: prod.split)
  qed
qed simp

lemma bytesToSplit_loop_large:
  "\<forall>c \<in> set (butlast cs). lim \<le> length c \<Longrightarrow> i + length (concat cs) < 2 ^ 32 \<Longrightarrow>
     bytesToSplit_loop spl i cs = 0 \<or> i + lim \<le> bytesToSplit_loop spl i cs \<or>
     bytesToSplit_loop spl i cs = i + length (concat cs)"
proof (induction cs arbitrary: i)
  case (Cons c cs)
  have "u32_add i (length c) = i + length c" using Cons.prems(2) by (simp add: u32_add_def)
  then show ?case
    using Cons.IH [of "i + length c"] Cons.prems by (cases cs) (auto simp: Let_def)
qed simp

text \<open>C39: Compacting a buffer hides lines. A successful \<open>compact\<close>, which a connection runs instead of
  reading when more than 5000 strings wait, glues lines together: afterwards \<open>bytesToSplit\<close> finds no
  line shorter than 4096 bytes, unless all the data of the buffer ends with it, although the data is
  unchanged.\<close>

theorem compact_hides_lines:
  assumes "fst (sb_compact b)" and "length (sb_abs b) < 2 ^ 32"
  shows "sb_abs (snd (sb_compact b)) = sb_abs b \<and>
         (sb_bytesToSplit (snd (sb_compact b)) = 0 \<or> 4096 \<le> sb_bytesToSplit (snd (sb_compact b)) \<or>
          sb_bytesToSplit (snd (sb_compact b)) = length (sb_abs b))"
proof -
  define b' where "b' = snd (sb_size b)"
  obtain lim where lim: "compactSize (sb_bytes_max b' (2 ^ 32 - 1)) = Some lim"
    using assms(1) by (cases "compactSize (sb_bytes_max b' (2 ^ 32 - 1))")
      (simp_all add: sb_compact_def b'_def Let_def)
  then have "4096 \<le> lim" by (auto simp: compactSize_def split: if_splits)
  obtain ch cs where l: "compact_loop lim (rev (chunks b')) = (ch, cs)" by fastforce
  let ?fs = "filter (\<lambda>c. c \<noteq> []) cs"
  have "ch" using assms(1) lim l by (auto simp: sb_compact_def b'_def [symmetric] Let_def split: if_splits)
  then have c: "snd (sb_compact b) = snd (sb_size (b'\<lparr>chunks := filter (\<lambda>c. c \<noteq> []) (rev cs)\<rparr>))"
    using lim l by (simp add: sb_compact_def b'_def [symmetric] Let_def)
  have "dropWhile (\<lambda>c. c = []) ?fs = ?fs" by (cases ?fs) (auto dest: filter_eq_ConsD)
  then have ch: "rev (chunks (snd (sb_compact b))) = ?fs"
    unfolding c by (simp add: sb_size_def pop_empty_def rev_filter Let_def)
  have abs: "concat ?fs = sb_abs b" using sb_compact_abs [of b] ch by (simp add: sb_abs_def)
  have "\<forall>c \<in> set (butlast ?fs). 4096 \<le> length c"
    using compact_loop_large [of lim "rev (chunks b')"] l \<open>4096 \<le> lim\<close> by fastforce
  then show ?thesis
    using bytesToSplit_loop_large [of ?fs 4096 0] assms(2) abs ch
    by (auto simp: sb_bytesToSplit_def sb_compact_abs)
qed

text \<open>Two lines, the first of which is there before the buffer is compacted and gone afterwards.\<close>

theorem compact_hides_lines_witness:
  "sb_bytesToSplit (sb_append sb_new [1, 10, 2]) = 2 \<and>
   sb_bytesToSplit (snd (sb_compact (sb_append sb_new [1, 10, 2]))) \<noteq> 2"
proof
  show "sb_bytesToSplit (sb_append sb_new [1, 10, 2]) = 2"
    by (simp add: sb_append_def append_loop.simps block_len_def split_len.simps
      sb_new_def BUFFER_BLOCKSIZE_def sb_bytesToSplit_def u32_add_def Let_def)
  have "fst (sb_compact (sb_append sb_new [1, 10, 2]))"
    by (simp add: sb_compact_def sb_append_def append_loop.simps block_len_def split_len.simps
      sb_new_def BUFFER_BLOCKSIZE_def u32_add_def Let_def sb_size_def pop_empty_def compactSize_def
      sb_bytes_max_def)
  then show "sb_bytesToSplit (snd (sb_compact (sb_append sb_new [1, 10, 2]))) \<noteq> 2"
    using compact_hides_lines [of "sb_append sb_new [1, 10, 2]"] by (auto simp: sb_append_abs)
qed

text \<open>A splitter of several bytes is only seen inside one append. With the H.264 start code as
  the splitter, as the H.264 input sets it, a start code that arrives in one piece is found, and
  the same bytes arriving in two pieces are not.\<close>

theorem split_across_appends_missed:
  "let b = sb_new\<lparr>splitter := [0, 0, 1]\<rparr> in
     sb_abs (sb_append b [7, 0, 0, 1]) = sb_abs (sb_append (sb_append b [7, 0]) [0, 1]) \<and>
     sb_bytesToSplit (sb_append b [7, 0, 0, 1]) = 4 \<and>
     sb_bytesToSplit (sb_append (sb_append b [7, 0]) [0, 1]) = 0"
  by (simp add: sb_append_abs sb_append_def append_loop.simps block_len_def split_len.simps
      sb_new_def BUFFER_BLOCKSIZE_def sb_bytesToSplit_def u32_add_def Let_def sb_abs_def)

text \<open>Compacting a buffer, whether it succeeds or asks for the connection to be dropped, does
  not change the bytes in it.\<close>

theorem compact_keeps_bytes: "sb_abs (snd (sb_compact b)) = sb_abs b"
  by (rule sb_compact_abs)

end
