(* ===== verification/Encode.thy ===== *)
theory Encode
  imports Prelude
begin

text \<open>
  Base64, hexadecimal and URL encoding (\<open>lib/encode.cpp\<close>, \<open>lib/encode.h\<close>). Strings are lists of
  bytes; the loops over an input are recursions over it, so lengths are not bounded.
\<close>

abbreviation chr :: "char \<Rightarrow> byte" where "chr c \<equiv> of_char c"

section \<open>Base64\<close>

definition b64_chars :: "bool \<Rightarrow> bytes" where
  "b64_chars isBase64URL =
     (if isBase64URL then str ''ABCDEFGHIJKLMNOPQRSTUVWXYZabcdefghijklmnopqrstuvwxyz0123456789-_''
      else str ''ABCDEFGHIJKLMNOPQRSTUVWXYZabcdefghijklmnopqrstuvwxyz0123456789+/'')"

text \<open>The four characters for a group of three bytes, of which the first \<open>n\<close> are input.\<close>

definition b64_quad :: "bytes \<Rightarrow> nat \<Rightarrow> byte \<Rightarrow> byte \<Rightarrow> byte \<Rightarrow> bytes" where
  "b64_quad chars n t0 t1 t2 =
     (let q0 = chars ! unat (drop_bit 2 (t0 AND 0xFC));
          q1 = chars ! unat (push_bit 4 (t0 AND 0x03) OR drop_bit 4 (t1 AND 0xF0));
          q2 = chars ! unat (push_bit 2 (t1 AND 0x0F) OR drop_bit 6 (t2 AND 0xC0));
          q3 = chars ! unat (t2 AND 0x3F)
      in [q0, q1, if n < 2 then 0x3D else q2, if n < 3 then 0x3D else q3])"

fun b64_quads :: "bytes \<Rightarrow> bytes \<Rightarrow> bytes" where
  "b64_quads chars [] = []"
| "b64_quads chars [a] = b64_quad chars 1 a 0 0"
| "b64_quads chars [a, b] = b64_quad chars 2 a b 0"
| "b64_quads chars (a # b # c # r) = b64_quad chars 3 a b c @ b64_quads chars r"

definition Base64_encode :: "bytes \<Rightarrow> bool \<Rightarrow> bytes" where
  "Base64_encode input isBase64URL =
     (let ret = b64_quads (b64_chars isBase64URL) input in
      if isBase64URL then rev (dropWhile (\<lambda>c. c = 0x3D) (rev ret)) else ret)"

definition b64CharVal :: "byte \<Rightarrow> nat" where
  "b64CharVal c =
     (if 0x41 \<le> c \<and> c \<le> 0x5A then unat c - 0x41
      else if 0x61 \<le> c \<and> c \<le> 0x7A then unat c - 0x61 + 26
      else if 0x30 \<le> c \<and> c \<le> 0x39 then unat c - 0x30 + 52
      else if c = 0x2B \<or> c = 0x2D then 62
      else if c = 0x2F \<or> c = 0x5F then 63
      else 64)"

text \<open>The three bytes of four characters.\<close>

definition b64_triple :: "byte \<Rightarrow> byte \<Rightarrow> byte \<Rightarrow> byte \<Rightarrow> bytes" where
  "b64_triple c0 c1 c2 c3 =
     (let v0 = of_nat (b64CharVal c0); v1 = of_nat (b64CharVal c1);
          v2 = of_nat (b64CharVal c2); v3 = of_nat (b64CharVal c3)
      in [push_bit 2 v0 + drop_bit 4 (v1 AND 0x30),
          push_bit 4 (v1 AND 0xf) + drop_bit 2 (v2 AND 0x3c),
          push_bit 6 (v2 AND 0x3) + v3])"

text \<open>The characters left at the end, fewer than four, padded with zero characters.\<close>

fun b64_rest :: "bytes \<Rightarrow> bytes" where
  "b64_rest [a] = take 0 (b64_triple a 0 0 0)"
| "b64_rest [a, b] = take 1 (b64_triple a b 0 0)"
| "b64_rest [a, b, c] = take 2 (b64_triple a b c 0)"
| "b64_rest _ = []"

text \<open>The loop of \<open>decode\<close>: \<open>arr\<close> holds the characters of the group that is being read.\<close>

fun b64_loop :: "bytes \<Rightarrow> bytes \<Rightarrow> bytes" where
  "b64_loop arr [] = b64_rest arr"
| "b64_loop arr (c # cs) =
     (if c = 0x3D \<or> b64CharVal c = 64 then b64_rest arr
      else case arr of
        [c0, c1, c2] \<Rightarrow> b64_triple c0 c1 c2 c @ b64_loop [] cs
      | _ \<Rightarrow> b64_loop (arr @ [c]) cs)"

definition Base64_decode :: "bytes \<Rightarrow> bytes" where
  "Base64_decode encoded_string = b64_loop [] encoded_string"

section \<open>Hexadecimal\<close>

definition hex_digit :: "byte \<Rightarrow> byte" where
  "hex_digit dig =
     (let dig = (if dig \<le> 9 then dig + 48 else dig)
      in if 10 \<le> dig \<and> dig \<le> 15 then dig + (97 - 10) else dig)"

definition Hex_chr :: "byte \<Rightarrow> bytes" where
  "Hex_chr dec = [hex_digit (drop_bit 4 (dec AND 0xF0)), hex_digit (dec AND 0x0F)]"

definition Hex_encode :: "bytes \<Rightarrow> bytes" where
  "Hex_encode s = concat (map Hex_chr s)"

definition Hex_ord :: "byte \<Rightarrow> byte" where
  "Hex_ord c = (c AND 15) + (drop_bit 6 (c AND 64) OR drop_bit 3 (c AND 64))"

text \<open>\<open>decode\<close> allocates half as many bytes as there are digits and ors every digit into its
  place; \<open>None\<close> is a write behind the allocated bytes.\<close>

definition Hex_decode :: "bytes \<Rightarrow> bytes option" where
  "Hex_decode s =
     fold (\<lambda>i r. do {
         ret \<leftarrow> r;
         b \<leftarrow> rd ret (i div 2);
         Some (ret[i div 2 := b OR push_bit (if even i then 4 else 0) (Hex_ord (s ! i))]) })
       [0..<length s] (Some (replicate (length s div 2) 0))"

section \<open>URLs\<close>

definition url_plain :: "byte \<Rightarrow> bool" where
  "url_plain c \<longleftrightarrow> 0x30 \<le> c \<and> c \<le> 0x39 \<or> 0x61 \<le> c \<and> c \<le> 0x7A \<or> 0x41 \<le> c \<and> c \<le> 0x5A \<or>
     c \<in> set (str ''$-_.,!~;*()'') \<or> c = 0x27"

definition url_chr :: "bytes \<Rightarrow> bool \<Rightarrow> byte \<Rightarrow> bytes" where
  "url_chr ign queryStr c =
     (if url_plain c \<or> c \<in> set ign then [c]
      else if c = 0x20 \<and> queryStr then [0x2B]
      else 0x25 # Hex_chr c)"

definition URL_encode :: "bytes \<Rightarrow> bytes \<Rightarrow> bool \<Rightarrow> bytes" where
  "URL_encode c ign queryStr = concat (map (url_chr ign queryStr) c)"

fun URL_decode :: "bytes \<Rightarrow> bool \<Rightarrow> bytes" where
  "URL_decode [] queryStr = []"
| "URL_decode (c # s) queryStr =
     (if c = 0x25 then
        (case s of
           [] \<Rightarrow> [0]
         | [a] \<Rightarrow> [push_bit 4 (Hex_ord a)]
         | a # b # s \<Rightarrow> (push_bit 4 (Hex_ord a) + Hex_ord b) # URL_decode s queryStr)
      else (if c = 0x2B \<and> queryStr then 0x20 else c) # URL_decode s queryStr)"

section \<open>Base64 is read back\<close>

lemma b64_chars_vals: "map b64CharVal (b64_chars u) = [0..<64]"
  by (cases u) (simp_all add: b64_chars_def b64CharVal_def byte_simps upt_conv_Cons)

lemma b64_chars_pad: "0x3D \<notin> set (b64_chars u)"
  by (cases u) (simp_all add: b64_chars_def byte_simps)

lemma length_b64_chars: "length (b64_chars u) = 64"
  using arg_cong [OF b64_chars_vals, of length] by simp

lemma b64_chars_val:
  assumes "v < 64"
  shows "b64CharVal (b64_chars u ! v) = v" "b64_chars u ! v \<noteq> 0x3D"
proof -
  have "b64CharVal (b64_chars u ! v) = map b64CharVal (b64_chars u) ! v"
    using assms by (simp add: length_b64_chars)
  then show "b64CharVal (b64_chars u ! v) = v" using assms by (simp only: b64_chars_vals) simp
  show "b64_chars u ! v \<noteq> 0x3D"
    using b64_chars_pad assms by (metis length_b64_chars nth_mem)
qed

lemma b64_bits:
  fixes t0 t1 t2 :: byte
  shows "push_bit 2 (drop_bit 2 (t0 AND 0xFC)) +
      drop_bit 4 ((push_bit 4 (t0 AND 0x03) OR drop_bit 4 (t1 AND 0xF0)) AND 0x30) = t0"
    and "push_bit 4 ((push_bit 4 (t0 AND 0x03) OR drop_bit 4 (t1 AND 0xF0)) AND 0xf) +
      drop_bit 2 ((push_bit 2 (t1 AND 0x0F) OR drop_bit 6 (t2 AND 0xC0)) AND 0x3c) = t1"
    and "push_bit 6 ((push_bit 2 (t1 AND 0x0F) OR drop_bit 6 (t2 AND 0xC0)) AND 0x3) +
      (t2 AND 0x3F) = t2"
  by (subst disjunctive_add_eq_or; rule byte_bits_eqI; simp add: bit_simps)+

lemma byte_less_64: "\<not> bit v 6 \<Longrightarrow> \<not> bit v 7 \<Longrightarrow> unat (v :: byte) < 64"
proof -
  assume b: "\<not> bit v 6" "\<not> bit v 7"
  have "v = take_bit 6 v" using b by (intro byte_bits_eqI) (simp_all add: bit_simps)
  then have "unat v = take_bit 6 (unat v)" by (metis unsigned_take_bit_eq)
  then show ?thesis using take_bit_nat_less_exp [of 6 "unat v"] by simp
qed

lemma b64_back:
  assumes "\<not> bit v 6" "\<not> bit v 7"
  shows "of_nat (b64CharVal (b64_chars u ! unat v)) = (v :: byte)"
    "b64_chars u ! unat v \<noteq> 0x3D" "b64CharVal (b64_chars u ! unat v) \<noteq> 64"
  using byte_less_64 [OF assms] b64_chars_val [of "unat v" u] by simp_all

text \<open>The four indices of a group have six bits each.\<close>

lemma b64_index_bits:
  fixes t0 t1 t2 :: byte
  shows "\<not> bit (drop_bit 2 (t0 AND 0xFC)) 6" "\<not> bit (drop_bit 2 (t0 AND 0xFC)) 7"
    "\<not> bit (push_bit 4 (t0 AND 0x03) OR drop_bit 4 (t1 AND 0xF0)) 6"
    "\<not> bit (push_bit 4 (t0 AND 0x03) OR drop_bit 4 (t1 AND 0xF0)) 7"
    "\<not> bit (push_bit 2 (t1 AND 0x0F) OR drop_bit 6 (t2 AND 0xC0)) 6"
    "\<not> bit (push_bit 2 (t1 AND 0x0F) OR drop_bit 6 (t2 AND 0xC0)) 7"
    "\<not> bit (t2 AND 0x3F) 6" "\<not> bit (t2 AND 0x3F) 7"
  by (simp_all add: bit_simps)

lemma b64_triple_quad:
  fixes a b c :: byte
  assumes q: "b64_quad (b64_chars u) n a b c = [q0, q1, q2, q3]"
  shows "b64CharVal q0 \<noteq> 64 \<and> q0 \<noteq> 0x3D \<and> b64CharVal q1 \<noteq> 64 \<and> q1 \<noteq> 0x3D"
    and "take 1 (b64_triple q0 q1 x y) = [a]"
    and "2 \<le> n \<Longrightarrow> b64CharVal q2 \<noteq> 64 \<and> q2 \<noteq> 0x3D \<and> take 2 (b64_triple q0 q1 q2 y) = [a, b]"
    and "3 \<le> n \<Longrightarrow> b64CharVal q3 \<noteq> 64 \<and> q3 \<noteq> 0x3D \<and> b64_triple q0 q1 q2 q3 = [a, b, c]"
    and "n < 2 \<Longrightarrow> q2 = 0x3D" "n < 3 \<Longrightarrow> q3 = 0x3D"
proof -
  define i0 i1 i2 i3 where i: "i0 = drop_bit 2 (a AND 0xFC)"
    "i1 = push_bit 4 (a AND 0x03) OR drop_bit 4 (b AND 0xF0)"
    "i2 = push_bit 2 (b AND 0x0F) OR drop_bit 6 (c AND 0xC0)" "i3 = c AND 0x3F"
  have q0: "q0 = b64_chars u ! unat i0" "q1 = b64_chars u ! unat i1"
    and q2: "q2 = (if n < 2 then 0x3D else b64_chars u ! unat i2)"
    and q3: "q3 = (if n < 3 then 0x3D else b64_chars u ! unat i3)"
    using q by (simp_all only: b64_quad_def Let_def i list.inject)
  note bk = b64_back [OF b64_index_bits(1,2) [of a], of u, folded i]
    b64_back [OF b64_index_bits(3,4) [of a b], of u, folded i]
    b64_back [OF b64_index_bits(5,6) [of b c], of u, folded i]
    b64_back [OF b64_index_bits(7,8) [of c], of u, folded i]
  note bits = b64_bits(1) [of a b, folded i] b64_bits(2) [of a b c, folded i]
    b64_bits(3) [of b c, folded i]
  show "b64CharVal q0 \<noteq> 64 \<and> q0 \<noteq> 0x3D \<and> b64CharVal q1 \<noteq> 64 \<and> q1 \<noteq> 0x3D"
    using bk by (simp add: q0)
  show "take 1 (b64_triple q0 q1 x y) = [a]" using bits
    by (simp add: b64_triple_def Let_def q0 bk)
  show "2 \<le> n \<Longrightarrow> b64CharVal q2 \<noteq> 64 \<and> q2 \<noteq> 0x3D \<and> take 2 (b64_triple q0 q1 q2 y) = [a, b]"
    using bits by (simp add: b64_triple_def Let_def q0 q2 bk)
  show "3 \<le> n \<Longrightarrow> b64CharVal q3 \<noteq> 64 \<and> q3 \<noteq> 0x3D \<and> b64_triple q0 q1 q2 q3 = [a, b, c]"
    using bits by (simp add: b64_triple_def Let_def q0 q2 q3 bk)
  show "n < 2 \<Longrightarrow> q2 = 0x3D" "n < 3 \<Longrightarrow> q3 = 0x3D" by (simp_all add: q2 q3)
qed

lemma b64_quad_exists: "\<exists>q0 q1 q2 q3. b64_quad chars n a b c = [q0, q1, q2, q3]"
  by (simp add: b64_quad_def Let_def)

lemma b64_loop_quads: "b64_loop [] (b64_quads (b64_chars u) s) = s"
proof (induction "b64_chars u" s rule: b64_quads.induct)
  case (2 a)
  obtain q0 q1 q2 q3 where q: "b64_quad (b64_chars u) 1 a 0 0 = [q0, q1, q2, q3]"
    using b64_quad_exists by blast
  show ?case using q b64_triple_quad(1,5) [OF q] b64_triple_quad(2) [OF q] by simp
next
  case (3 a b)
  obtain q0 q1 q2 q3 where q: "b64_quad (b64_chars u) 2 a b 0 = [q0, q1, q2, q3]"
    using b64_quad_exists by blast
  show ?case using q b64_triple_quad(1,6) [OF q] b64_triple_quad(3) [OF q] by simp
next
  case (4 a b c r)
  obtain q0 q1 q2 q3 where q: "b64_quad (b64_chars u) 3 a b c = [q0, q1, q2, q3]"
    using b64_quad_exists by blast
  show ?case using q 4 b64_triple_quad(1,3,4) [OF q] by simp
qed simp

lemma b64_loop_takeWhile: "b64_loop arr (takeWhile (\<lambda>c. c \<noteq> 0x3D) s) = b64_loop arr s"
  by (induction arr s rule: b64_loop.induct) (auto split: list.splits)

lemma b64_quads_padding:
  "\<exists>core k. b64_quads (b64_chars u) s = core @ replicate k 0x3D \<and> 0x3D \<notin> set core"
proof (induction "b64_chars u" s rule: b64_quads.induct)
  case 1
  show ?case by (intro exI [of _ "[]"] exI [of _ 0]) simp
next
  case (2 a)
  obtain q0 q1 q2 q3 where q: "b64_quad (b64_chars u) 1 a 0 0 = [q0, q1, q2, q3]"
    using b64_quad_exists by blast
  show ?case using q b64_triple_quad(1,5,6) [OF q]
    by (intro exI [of _ "[q0, q1]"] exI [of _ 2]) (simp add: numeral_2_eq_2)
next
  case (3 a b)
  obtain q0 q1 q2 q3 where q: "b64_quad (b64_chars u) 2 a b 0 = [q0, q1, q2, q3]"
    using b64_quad_exists by blast
  show ?case using q b64_triple_quad(1,3,6) [OF q]
    by (intro exI [of _ "[q0, q1, q2]"] exI [of _ 1]) simp
next
  case (4 a b c r)
  obtain q0 q1 q2 q3 where q: "b64_quad (b64_chars u) 3 a b c = [q0, q1, q2, q3]"
    using b64_quad_exists by blast
  obtain core k where "b64_quads (b64_chars u) r = core @ replicate k 0x3D" "0x3D \<notin> set core"
    using 4 by auto
  then show ?case using q b64_triple_quad(1,3,4) [OF q]
    by (intro exI [of _ "[q0, q1, q2, q3] @ core"] exI [of _ k]) simp
qed

lemma strip_padding:
  assumes "xs = core @ replicate k p" "p \<notin> set core"
  shows "rev (dropWhile (\<lambda>c. c = p) (rev xs)) = takeWhile (\<lambda>c. c \<noteq> p) xs"
proof -
  have "rev (dropWhile (\<lambda>c. c = p) (rev xs)) = core"
    using assms by (cases core rule: rev_cases) (auto simp: dropWhile_append)
  moreover have "takeWhile (\<lambda>c. c \<noteq> p) xs = core"
    using assms by (cases k) (auto simp: takeWhile_tail takeWhile_append)
  ultimately show ?thesis by simp
qed

lemma b64_roundtrip: "Base64_decode (Base64_encode s u) = s"
proof -
  obtain core k where c: "b64_quads (b64_chars u) s = core @ replicate k 0x3D" "0x3D \<notin> set core"
    using b64_quads_padding by blast
  have "Base64_encode s u = b64_quads (b64_chars u) s \<or>
      Base64_encode s u = takeWhile (\<lambda>c. c \<noteq> 0x3D) (b64_quads (b64_chars u) s)"
    by (simp only: Base64_encode_def Let_def strip_padding [OF c] split: if_split) simp
  then show ?thesis
    by (auto simp: Base64_decode_def b64_loop_takeWhile b64_loop_quads)
qed

text \<open>\<open>Base64::decode\<close> gives back what \<open>Base64::encode\<close> was given, for any string of bytes, in
  the standard alphabet with padding and in the URL alphabet without it.\<close>

theorem Base64_decode_encode: "Base64_decode (Base64_encode s u) = s"
  by (rule b64_roundtrip)

section \<open>Hexadecimal and URL encoding are read back\<close>

lemma Hex_ord_digit: "unat v < 16 \<Longrightarrow> Hex_ord (hex_digit v) = v"
  and hex_digit_plain: "unat v < 16 \<Longrightarrow> url_plain (hex_digit v)"
  by (drule nibble_cases, elim insertE emptyE;
      simp add: Hex_ord_def hex_digit_def url_plain_def Let_def)+

lemma nibbles:
  fixes d :: byte
  shows "unat (drop_bit 4 (d AND 0xF0)) < 16" "unat (d AND 0x0F) < 16"
    and "push_bit 4 (drop_bit 4 (d AND 0xF0)) OR (d AND 0x0F) = d"
    and "push_bit 4 (drop_bit 4 (d AND 0xF0)) + (d AND 0x0F) = d"
proof -
  have lt: "unat v < 16" if "v = take_bit 4 v" for v :: byte
  proof -
    have "unat v = take_bit 4 (unat v)" using that by (metis unsigned_take_bit_eq)
    then show ?thesis using take_bit_nat_less_exp [of 4 "unat v"] by simp
  qed
  show "unat (drop_bit 4 (d AND 0xF0)) < 16" "unat (d AND 0x0F) < 16"
    by (rule lt, rule byte_bits_eqI; simp add: bit_simps)+
  show e: "push_bit 4 (drop_bit 4 (d AND 0xF0)) OR (d AND 0x0F) = d"
    by (rule byte_bits_eqI; simp add: bit_simps)
  have "push_bit 4 (drop_bit 4 (d AND 0xF0)) AND (d AND 0x0F) = 0"
    by (rule byte_bits_eqI; simp add: bit_simps)
  then show "push_bit 4 (drop_bit 4 (d AND 0xF0)) + (d AND 0x0F) = d"
    using e by (simp add: disjunctive_add_eq_or)
qed

text \<open>What \<open>Hex::decode\<close> computes.\<close>

definition hex_pair :: "bytes \<Rightarrow> nat \<Rightarrow> byte" where
  "hex_pair s j = push_bit 4 (Hex_ord (s ! (2 * j))) OR Hex_ord (s ! (2 * j + 1))"

definition hex_step :: "bytes \<Rightarrow> nat \<Rightarrow> bytes option \<Rightarrow> bytes option" where
  "hex_step s i r = do {
     ret \<leftarrow> r;
     b \<leftarrow> rd ret (i div 2);
     Some (ret[i div 2 := b OR push_bit (if even i then 4 else 0) (Hex_ord (s ! i))]) }"

lemma Hex_decode_fold:
  "Hex_decode s = fold (hex_step s) [0..<length s] (Some (replicate (length s div 2) 0))"
  by (simp add: Hex_decode_def hex_step_def [abs_def])

lemma hex_steps:
  "k \<le> m \<Longrightarrow> fold (hex_step s) [0..<2 * k] (Some (replicate m 0)) =
     Some (map (hex_pair s) [0..<k] @ replicate (m - k) 0)"
proof (induction k)
  case (Suc k)
  have "[0..<2 * Suc k] = [0..<2 * k] @ [2 * k, 2 * k + 1]" by simp
  moreover have "replicate (m - k) (0 :: byte) = 0 # replicate (m - Suc k) 0"
    using Suc.prems by (cases "m - k") (simp_all add: Suc_diff_Suc [symmetric])
  ultimately show ?case
    using Suc by (simp add: hex_step_def rd_def nth_append list_update_append hex_pair_def)
qed simp

lemma Hex_decode_eq:
  "Hex_decode s = (if even (length s) then Some (map (hex_pair s) [0..<length s div 2]) else None)"
proof (cases "even (length s)")
  case True
  then obtain k where k: "length s = 2 * k" by blast
  then show ?thesis using hex_steps [of k k s] by (simp add: Hex_decode_fold)
next
  case False
  then obtain k where k: "length s = 2 * k + 1" using oddE by blast
  then have "[0..<length s] = [0..<2 * k] @ [2 * k]" by simp
  then show ?thesis using hex_steps [of k k s] k False
    by (simp add: Hex_decode_fold hex_step_def rd_def)
qed

lemma Hex_encode_nth:
  "j < length s \<Longrightarrow> Hex_encode s ! (2 * j) = hex_digit (drop_bit 4 (s ! j AND 0xF0)) \<and>
     Hex_encode s ! (2 * j + 1) = hex_digit (s ! j AND 0x0F)"
  by (induction s arbitrary: j) (auto simp: Hex_encode_def Hex_chr_def nth_Cons' less_Suc_eq_0_disj)

lemma Hex_encode_length: "length (Hex_encode s) = 2 * length s"
  by (induction s) (auto simp: Hex_encode_def Hex_chr_def)

text \<open>\<open>Hex::decode\<close> inverts \<open>Hex::encode\<close>, and on any other string of even length it returns half
  as many bytes; on a string of odd length it writes behind the bytes it allocated.\<close>

theorem Hex_decode_encode:
  "Hex_decode (Hex_encode s) = Some s \<and>
   (\<forall>t. case Hex_decode t of Some r \<Rightarrow> length t = 2 * length r | None \<Rightarrow> odd (length t))"
proof
  have "map (hex_pair (Hex_encode s)) [0..<length s] = map (\<lambda>j. s ! j) [0..<length s]"
    using Hex_encode_nth [of _ s] Hex_ord_digit nibbles
    by (intro map_cong refl) (simp add: hex_pair_def)
  then show "Hex_decode (Hex_encode s) = Some s"
    by (simp add: Hex_decode_eq Hex_encode_length map_nth)
  show "\<forall>t. case Hex_decode t of Some r \<Rightarrow> length t = 2 * length r | None \<Rightarrow> odd (length t)"
    by (auto simp: Hex_decode_eq split: option.splits)
qed

lemma url_not_plain: "\<not> url_plain 0x25" "\<not> url_plain 0x2B"
  by (simp_all add: url_plain_def byte_simps)

lemma URL_round_trip:
  assumes "0x25 \<notin> set ign" "queryStr \<longrightarrow> decodeQuery" "decodeQuery \<longrightarrow> 0x2B \<notin> set ign"
  shows "URL_decode (URL_encode s ign queryStr) decodeQuery = s"
proof (induction s)
  case (Cons c s)
  have "URL_decode (url_chr ign queryStr c @ t) decodeQuery = c # URL_decode t decodeQuery" for t
    using assms url_not_plain nibbles [of c]
    by (auto simp: url_chr_def Hex_chr_def Hex_ord_digit)
  then show ?case using Cons by (simp add: URL_encode_def)
qed (simp add: URL_encode_def)

lemma URL_encode_chars:
  "c \<in> set (URL_encode s ign queryStr) \<Longrightarrow> url_plain c \<or> c \<in> {0x25, 0x2B} \<or> c \<in> set ign"
  using hex_digit_plain nibbles(1,2)
  by (auto simp: URL_encode_def url_chr_def Hex_chr_def split: if_splits)

lemma URL_encode_Nil: "URL_encode s ign queryStr = [] \<longleftrightarrow> s = []"
  by (cases s) (auto simp: URL_encode_def url_chr_def)

text \<open>\<open>URL::decode\<close> inverts \<open>URL::encode\<close>, for query strings and other parts of a URL, provided the
  characters to be left alone do not include the percent sign, nor the plus sign when plus is
  decoded to a space; and the encoded string only has characters that need no encoding,
  percent, plus and those left alone.\<close>

theorem URL_decode_encode:
  assumes "0x25 \<notin> set ign" "queryStr \<longrightarrow> decodeQuery" "decodeQuery \<longrightarrow> 0x2B \<notin> set ign"
  shows "URL_decode (URL_encode s ign queryStr) decodeQuery = s \<and>
    (\<forall>c \<in> set (URL_encode s ign queryStr). url_plain c \<or> c \<in> {0x25, 0x2B} \<or> c \<in> set ign)"
  using URL_round_trip [OF assms] URL_encode_chars by blast

theorem URL_decode_encode_witness:
  "URL_decode (URL_encode (str ''a b/+%'') (str ''/'') True) True = str ''a b/+%''"
  using URL_decode_encode [of "str ''/''" True True "str ''a b/+%''"] by (simp add: byte_simps)

end
