(* ===== verification/Strings.thy ===== *)
theory Strings
  imports Prelude "HOL-Library.Sublist"
begin

text \<open>
  The operations of \<open>std::string\<close> and of the C library on strings that several components use,
  on lists of bytes: searching (\<open>None\<close> is \<open>npos\<close>), erasing, and reading and printing decimal
  numbers. They are the standard library's, so nothing here maps to a line of the sources.
\<close>

section \<open>Searching\<close>

definition at_pos :: "bytes \<Rightarrow> bytes \<Rightarrow> nat \<Rightarrow> bool" where
  "at_pos s pat i \<longleftrightarrow> take (length pat) (drop i s) = pat"

definition sfind :: "bytes \<Rightarrow> bytes \<Rightarrow> nat \<Rightarrow> nat option" where
  "sfind s pat from = find (at_pos s pat) [from..<Suc (length s)]"

definition find_chr :: "bytes \<Rightarrow> byte \<Rightarrow> nat \<Rightarrow> nat option" where
  "find_chr s c from = sfind s [c] from"

definition find_first_of :: "bytes \<Rightarrow> bytes \<Rightarrow> nat \<Rightarrow> nat option" where
  "find_first_of s cs from = find (\<lambda>i. s ! i \<in> set cs) [from..<length s]"

text \<open>The last position at most \<open>pos\<close>.\<close>

definition rfind_chr :: "bytes \<Rightarrow> byte \<Rightarrow> nat \<Rightarrow> nat option" where
  "rfind_chr s c pos = find (\<lambda>i. s ! i = c) (rev [0..<min (Suc pos) (length s)])"

definition erase :: "bytes \<Rightarrow> nat \<Rightarrow> nat \<Rightarrow> bytes" where
  "erase s i n = take i s @ drop (i + n) s"

lemma at_pos_len: "pat \<noteq> [] \<Longrightarrow> at_pos s pat i \<Longrightarrow> i + length pat \<le> length s"
  unfolding at_pos_def
  by (drule arg_cong [where f = length], cases pat) (auto simp: min_def split: if_splits)

lemma at_pos_split: "at_pos s pat i \<Longrightarrow> s = take i s @ pat @ drop (i + length pat) s"
  unfolding at_pos_def by (metis append_take_drop_id drop_drop add.commute)

lemma at_pos_nth: "at_pos s pat i \<Longrightarrow> k < length pat \<Longrightarrow> i + k < length s \<and> s ! (i + k) = pat ! k"
  using at_pos_len [of pat s i] unfolding at_pos_def
  by (cases pat) (auto dest: arg_cong [where f = "\<lambda>l. l ! k"])

lemma at_posI:
  "i + length pat \<le> length s \<Longrightarrow> (\<And>k. k < length pat \<Longrightarrow> s ! (i + k) = pat ! k) \<Longrightarrow> at_pos s pat i"
  unfolding at_pos_def by (rule nth_equalityI) auto

lemma at_pos_iff:
  "pat \<noteq> [] \<Longrightarrow> at_pos s pat i \<longleftrightarrow>
     i + length pat \<le> length s \<and> (\<forall>k < length pat. s ! (i + k) = pat ! k)"
  using at_pos_len at_pos_nth at_posI by blast

lemma sfind_None: "sfind s pat 0 = None \<longleftrightarrow> (\<forall>i \<le> length s. \<not> at_pos s pat i)"
  by (auto simp: sfind_def find_None_iff less_Suc_eq_le simp del: upt_Suc)

lemma sfind_Some:
  "sfind s pat from = Some i \<Longrightarrow> from \<le> i \<and> at_pos s pat i \<and> (\<forall>j. from \<le> j \<longrightarrow> j < i \<longrightarrow> \<not> at_pos s pat j)"
proof -
  assume "sfind s pat from = Some i"
  then obtain k where k: "k < Suc (length s) - from" "at_pos s pat (from + k)" "i = from + k"
    "\<forall>j < k. \<not> at_pos s pat (from + j)"
    by (auto simp: sfind_def find_Some_iff simp del: upt_Suc)
  have "\<not> at_pos s pat j" if "from \<le> j" "j < i" for j
    using k(3,4) that by (metis add_diff_inverse_nat add_less_cancel_left not_less)
  then show ?thesis using k by auto
qed

lemma find_first: "P x \<Longrightarrow> (\<forall>y \<in> set xs. \<not> P y) \<Longrightarrow> find P (xs @ x # ys) = Some x"
  by (induction xs) auto

lemma find_SomeD: "find P xs = Some x \<Longrightarrow> P x \<and> x \<in> set xs"
  by (induction xs) (auto split: if_splits)

lemma find_none: "(\<forall>y \<in> set xs. \<not> P y) \<Longrightarrow> find P xs = None"
  by (induction xs) auto

lemma upt_split: "from \<le> i \<Longrightarrow> i < n \<Longrightarrow> [from..<n] = [from..<i] @ i # [Suc i..<n]"
  using upt_add_eq_append [of "from" i "n - i"] upt_conv_Cons [of i n] by simp

lemma sfind_eqI:
  assumes "from \<le> i" "i \<le> length s" "at_pos s pat i" "\<And>j. from \<le> j \<Longrightarrow> j < i \<Longrightarrow> \<not> at_pos s pat j"
  shows "sfind s pat from = Some i"
  using assms upt_split [of "from" i "Suc (length s)"] by (simp add: sfind_def find_first del: upt_Suc)

lemma sfind_NoneI: "(\<And>j. from \<le> j \<Longrightarrow> j \<le> length s \<Longrightarrow> \<not> at_pos s pat j) \<Longrightarrow> sfind s pat from = None"
  by (simp add: sfind_def find_none less_Suc_eq_le del: upt_Suc)

lemma at_pos_chr: "at_pos s [c] i \<longleftrightarrow> i < length s \<and> s ! i = c"
  by (auto simp: at_pos_iff)

lemma find_chr_None: "find_chr s c 0 = None \<longleftrightarrow> c \<notin> set s"
  unfolding find_chr_def sfind_None at_pos_chr in_set_conv_nth by (metis less_imp_le)

lemma find_chr_append: "c \<notin> set a \<Longrightarrow> find_chr (a @ c # b) c 0 = Some (length a)"
  unfolding find_chr_def by (rule sfind_eqI) (auto simp: at_pos_chr nth_append in_set_conv_nth)

lemma rfind_chr_None: "length s \<le> Suc n \<Longrightarrow> c \<notin> set s \<Longrightarrow> rfind_chr s c n = None"
  by (auto simp: rfind_chr_def intro!: find_none)

lemma rfind_chr_append:
  assumes "c \<notin> set b" "length a + length b \<le> n"
  shows "rfind_chr (a @ c # b) c n = Some (length a)"
proof -
  let ?s = "a @ c # b"
  have "[0..<min (Suc n) (length ?s)] = [0..<length a] @ length a # [Suc (length a)..<length ?s]"
    using assms(2) upt_split [of 0 "length a" "length ?s"] by (simp add: min_def)
  then have e: "rev [0..<min (Suc n) (length ?s)] =
      rev [Suc (length a)..<length ?s] @ length a # rev [0..<length a]"
    by simp
  have ne: "?s ! i \<noteq> c" if "Suc (length a) \<le> i" "i < length ?s" for i
    using that assms(1) by (auto simp: nth_append nth_Cons' in_set_conv_nth)
  show ?thesis unfolding rfind_chr_def e
  proof (rule find_first)
    show "\<forall>y \<in> set (rev [Suc (length a)..<length ?s]). ?s ! y \<noteq> c"
      unfolding set_rev set_upt using ne by (intro ballI) (metis atLeastLessThan_iff)
  qed simp
qed

lemma rfind_chr_Some: "rfind_chr s c n = Some i \<Longrightarrow> i \<le> n \<and> i < length s \<and> s ! i = c"
  by (auto simp: rfind_chr_def dest!: find_SomeD)

lemma find_first_of_None: "(\<forall>c \<in> set s. c \<notin> set cs) \<Longrightarrow> find_first_of s cs from = None"
  by (auto simp: find_first_of_def intro!: find_none)

lemma find_first_of_append:
  assumes "c \<in> set cs" "\<forall>x \<in> set b. x \<notin> set cs" "length a = from"
  shows "find_first_of (a @ b @ c # d) cs from = Some (from + length b)"
proof -
  let ?s = "a @ b @ c # d"
  have "[from..<length ?s] = [from..<from + length b] @ (from + length b) # [Suc (from + length b)..<length ?s]"
    using upt_split [of "from" "from + length b" "length ?s"] assms(3) by simp
  then have e: "[from..<length ?s] =
      [from..<from + length b] @ (from + length b) # [Suc (from + length b)..<length ?s]" .
  have "?s ! i \<notin> set cs" if "from \<le> i" "i < from + length b" for i
    using that assms(2,3) by (simp add: nth_append)
  moreover have "?s ! (from + length b) = c" using assms(3) by (simp add: nth_append)
  ultimately show ?thesis unfolding find_first_of_def e using assms(1)
    by (intro find_first) auto
qed

section \<open>Decimal numbers\<close>

definition is_digit :: "byte \<Rightarrow> bool" where
  "is_digit c \<longleftrightarrow> 48 \<le> c \<and> c \<le> 57"

definition is_space :: "byte \<Rightarrow> bool" where
  "is_space c \<longleftrightarrow> c = 32 \<or> 9 \<le> c \<and> c \<le> 13"

definition dec_val :: "bytes \<Rightarrow> nat" where
  "dec_val s = foldl (\<lambda>n c. n * 10 + (unat c - 48)) 0 s"

text \<open>\<open>atoi\<close>: \<open>None\<close> when the value does not fit an \<open>int\<close>.\<close>

definition atoi :: "bytes \<Rightarrow> int option" where
  "atoi s =
     (let s = dropWhile is_space s;
          neg = (s \<noteq> [] \<and> s ! 0 = 45);
          s = (if s \<noteq> [] \<and> s ! 0 \<in> {43, 45} then drop 1 s else s);
          v = int (dec_val (takeWhile is_digit s));
          v = (if neg then - v else v)
      in if - (2 ^ 31) \<le> v \<and> v < 2 ^ 31 then Some v else None)"

fun to_dec :: "nat \<Rightarrow> bytes" where
  "to_dec n = (if n < 10 then [of_nat (48 + n)] else to_dec (n div 10) @ [of_nat (48 + n mod 10)])"

declare to_dec.simps [simp del]

lemma digit_val: "n < 10 \<Longrightarrow> unat (of_nat (48 + n) :: byte) = 48 + n"
  by (simp add: unat_of_nat del: of_nat_add)

lemma digit_is_digit: "n < 10 \<Longrightarrow> is_digit (of_nat (48 + n))"
  using digit_val [of n] by (simp add: is_digit_def word_le_nat_alt del: of_nat_add)

lemma dec_val_to_dec: "dec_val (to_dec n) = n"
proof (induction n rule: to_dec.induct)
  case (1 n)
  show ?case
  proof (cases "n < 10")
    case True
    then show ?thesis using digit_val [of n]
      by (subst to_dec.simps) (simp add: dec_val_def del: of_nat_add)
  next
    case False
    then show ?thesis using 1 digit_val [of "n mod 10"]
      by (subst to_dec.simps) (simp add: dec_val_def del: of_nat_add)
  qed
qed

lemma to_dec_digits: "list_all is_digit (to_dec n)" and to_dec_ne: "to_dec n \<noteq> []"
proof (induction n rule: to_dec.induct)
  case (1 n)
  {
    case 1
    show ?case using "1.IH"(1) digit_is_digit [of n] digit_is_digit [of "n mod 10"]
      by (subst to_dec.simps) (simp del: of_nat_add)
  next
    case 2
    show ?case by (subst to_dec.simps) simp
  }
qed

lemma digit_not_space: "is_digit c \<Longrightarrow> \<not> is_space c \<and> c \<noteq> 43 \<and> c \<noteq> 45 \<and> c \<noteq> 0"
  unfolding is_digit_def is_space_def word_le_nat_alt word_unat_eq_iff by auto

lemma atoi_to_dec: "n < 2 ^ 31 \<Longrightarrow> atoi (to_dec n) = Some (int n)"
proof -
  assume n: "n < 2 ^ 31"
  obtain c s where cs: "to_dec n = c # s" using to_dec_ne [of n] by (cases "to_dec n") auto
  have d: "\<forall>x \<in> set (c # s). is_digit x" using to_dec_digits [of n] cs by (simp add: list_all_iff)
  then have "takeWhile is_digit s = s" by (induction s) auto
  then show ?thesis
    using d n digit_not_space [of c] dec_val_to_dec [of n]
    by (simp add: atoi_def cs Let_def del: takeWhile_eq_all_conv)
qed

end
