(* ===== verification/Doubles.thy ===== *)
theory Doubles
  imports Prelude
begin

text \<open>
  Conversions between integers and the C type \<open>double\<close>. A \<open>double\<close> is its IEEE 754 bit pattern, a
  64-bit word; the conversions the components use are written out on patterns.
\<close>

fun msb_nat :: "nat \<Rightarrow> nat" where
  "msb_nat n = (if n < 2 then 0 else Suc (msb_nat (n div 2)))"

declare msb_nat.simps [simp del]

text \<open>The conversion of an unsigned number below \<open>2^53\<close> to a double.\<close>

definition nat_to_dbl :: "nat \<Rightarrow> u64" where
  "nat_to_dbl n =
     (if n = 0 then 0
      else of_nat ((1023 + msb_nat n) * 2 ^ 52 + (n - 2 ^ msb_nat n) * 2 ^ (52 - msb_nat n)))"

text \<open>The conversion of a double to an integer: the value without its fraction; \<open>None\<close> for
  infinities and NaNs.\<close>

definition dbl_to_int :: "u64 \<Rightarrow> int option" where
  "dbl_to_int x =
     (let e = unat x div 2 ^ 52 mod 2 ^ 11;
          m = 2 ^ 52 + unat x mod 2 ^ 52;
          v = (if e < 1023 then 0 else if e \<le> 1075 then m div 2 ^ (1075 - e) else m * 2 ^ (e - 1075))
      in if e = 2047 then None else Some (if unat x < 2 ^ 63 then int v else - int v))"

lemma msb_nat_0: "msb_nat 0 = 0" and msb_nat_1: "msb_nat 1 = 0" "msb_nat (Suc 0) = 0"
  by (simp_all add: msb_nat.simps)

lemma msb_nat_bounds: "0 < n \<Longrightarrow> 2 ^ msb_nat n \<le> n \<and> n < 2 ^ Suc (msb_nat n)"
proof (induction n rule: msb_nat.induct)
  case (1 n)
  show ?case
  proof (cases "n < 2")
    case True
    then have "n = 1" using 1 by simp
    then show ?thesis by (simp add: msb_nat_1)
  next
    case False
    then have "msb_nat n = Suc (msb_nat (n div 2))" by (simp add: msb_nat.simps [of n])
    moreover have "2 ^ msb_nat (n div 2) \<le> n div 2 \<and> n div 2 < 2 ^ Suc (msb_nat (n div 2))"
      using 1 False by simp
    ultimately show ?thesis by (simp, linarith)
  qed
qed

lemma dbl_to_int_nat: "n < 2 ^ 52 \<Longrightarrow> dbl_to_int (nat_to_dbl n) = Some (int n)"
proof (cases "n = 0")
  case True
  then show ?thesis by (simp add: dbl_to_int_def nat_to_dbl_def)
next
  case False
  assume n: "n < 2 ^ 52"
  define e where "e = msb_nat n"
  have b: "2 ^ e \<le> n" "n < 2 ^ Suc e" using msb_nat_bounds [of n] False by (auto simp: e_def)
  have e: "e < 52" using le_less_trans [OF b(1) n] by (rule power_less_imp_less_exp [rotated]) simp
  define m where "m = (n - 2 ^ e) * 2 ^ (52 - e)"
  have "n - 2 ^ e < 2 ^ e" using b by simp
  then have "m < 2 ^ e * 2 ^ (52 - e)" by (simp add: m_def)
  also have "\<dots> = 2 ^ 52" using e by (simp flip: power_add)
  finally have m: "m < 2 ^ 52" .
  have lim: "(1023 + e) * 2 ^ 52 + m < 2 ^ 63" using m e by simp
  define x where "x = (1023 + e) * 2 ^ 52 + m"
  have "unat (of_nat x :: u64) = x" using lim unfolding x_def [symmetric] by (simp add: unat_of_nat)
  moreover have "nat_to_dbl n = of_nat x"
    using False by (simp only: nat_to_dbl_def e_def [symmetric] m_def [symmetric] x_def if_False)
  ultimately have u: "unat (nat_to_dbl n) = (1023 + e) * 2 ^ 52 + m" by (simp add: x_def)
  have "unat (nat_to_dbl n) div 2 ^ 52 = 1023 + e" "unat (nat_to_dbl n) mod 2 ^ 52 = m"
    using m by (simp_all only: u mod_mult_self3 mod_less div_mult_self3 div_less
        power_not_zero numeral_neq_zero not_False_eq_True add_0_right)
  then have f: "unat (nat_to_dbl n) div 2 ^ 52 mod 2 ^ 11 = 1023 + e" "unat (nat_to_dbl n) mod 2 ^ 52 = m"
    using e by simp_all
  have "2 ^ 52 + m = n * 2 ^ (52 - e)"
  proof -
    have "(2 :: nat) ^ 52 = 2 ^ e * 2 ^ (52 - e)" using e by (simp flip: power_add)
    moreover have "n * 2 ^ (52 - e) = (2 ^ e + (n - 2 ^ e)) * 2 ^ (52 - e)" using b by simp
    ultimately show ?thesis by (simp only: m_def distrib_right)
  qed
  then show ?thesis using f e lim u by (simp add: dbl_to_int_def Let_def)
qed

end
