(* ===== verification/Json.thy ===== *)
theory Json
  imports Bits Strings Doubles "HOL-Library.List_Lexorder"
begin

text \<open>
  JSON values (\<open>lib/json.cpp\<close>, \<open>lib/json.h\<close>): the class \<open>JSON::Value\<close> with its assignments,
  conversions, comparisons and containers, the text form (\<open>string_escape\<close>, \<open>toString\<close>) and the
  packed form of the stream container (\<open>toPacked\<close>, \<open>packedSize\<close>, \<open>sendTo\<close>, \<open>netPrepare\<close>,
  \<open>fromDTMI\<close>). The parser of the text form is in \<open>JsonParse\<close>.

  A value is the class with all its fields, since parsing can leave members behind in a value
  of another type. A \<open>std::map\<close> is the list of its pairs in the order of the keys. A \<open>double\<close> is
  its bit pattern; how the stream library prints one is a parameter.
\<close>

section \<open>Values\<close>

datatype ValueType = EMPTY | BOOL | INTEGER | DOUBLE | STRING | RAWSTRING | ARRAY | OBJECT | UNSET

datatype jval =
  Value (myType: ValueType) (intVal: u64) (strVal: bytes) (dblVal: u64) (dblDivider: u64)
    (arrVal: "jval list") (objVal: "(bytes \<times> jval) list")

definition dbl_1 :: u64 where
  "dbl_1 = 0x3FF0000000000000"

definition jnull :: jval where
  "jnull = Value EMPTY 0 [] 0 dbl_1 [] []"

definition junset :: jval where
  "junset = Value UNSET 0 [] 0 dbl_1 [] []"

definition set_int :: "u64 \<Rightarrow> jval" where
  "set_int n = Value INTEGER n [] 0 dbl_1 [] []"

definition set_bool :: "bool \<Rightarrow> jval" where
  "set_bool b = Value BOOL (if b then 1 else 0) [] 0 dbl_1 [] []"

definition set_double :: "u64 \<Rightarrow> jval" where
  "set_double d = Value DOUBLE 0 [] d dbl_1 [] []"

definition set_string :: "bytes \<Rightarrow> jval" where
  "set_string s = Value STRING 0 s 0 dbl_1 [] []"

definition raw :: "jval \<Rightarrow> jval" where
  "raw v = (if myType v = STRING
     then Value RAWSTRING (intVal v) (strVal v) (dblVal v) (dblDivider v) (arrVal v) (objVal v) else v)"

definition isInt :: "jval \<Rightarrow> bool" where "isInt v \<longleftrightarrow> myType v = INTEGER"
definition isDouble :: "jval \<Rightarrow> bool" where "isDouble v \<longleftrightarrow> myType v = DOUBLE"
definition isString :: "jval \<Rightarrow> bool" where "isString v \<longleftrightarrow> myType v = STRING \<or> myType v = RAWSTRING"
definition isBool :: "jval \<Rightarrow> bool" where "isBool v \<longleftrightarrow> myType v = BOOL"
definition isObject :: "jval \<Rightarrow> bool" where "isObject v \<longleftrightarrow> myType v = OBJECT"
definition isArray :: "jval \<Rightarrow> bool" where "isArray v \<longleftrightarrow> myType v = ARRAY"
definition isNull :: "jval \<Rightarrow> bool" where "isNull v \<longleftrightarrow> myType v = EMPTY \<or> myType v = UNSET"

lemmas type_tests = isInt_def isDouble_def isString_def isBool_def isObject_def isArray_def isNull_def

definition jsize :: "jval \<Rightarrow> u32" where
  "jsize v = of_nat (length (objVal v)) + of_nat (length (arrVal v))"

text \<open>What \<open>jsonForEachConst\<close> visits.\<close>

definition members :: "jval \<Rightarrow> (bytes \<times> jval) list" where
  "members v = (if myType v = OBJECT then objVal v else [])"

definition elements :: "jval \<Rightarrow> jval list" where
  "elements v = (if myType v = ARRAY then arrVal v else [])"

section \<open>Containers\<close>

text \<open>The value stored under a key of a \<open>std::map\<close>, which keeps its keys in order.\<close>

fun oput :: "bytes \<Rightarrow> jval \<Rightarrow> (bytes \<times> jval) list \<Rightarrow> (bytes \<times> jval) list" where
  "oput k w [] = [(k, w)]"
| "oput k w ((k', w') # kvs) =
     (if k = k' then (k, w) # kvs
      else if k < k' then (k, w) # (k', w') # kvs
      else (k', w') # oput k w kvs)"

definition isMember :: "jval \<Rightarrow> bytes \<Rightarrow> bool" where
  "isMember v k \<longleftrightarrow> map_of (objVal v) k \<noteq> None"

text \<open>\<open>operator[]\<close> makes the value a container of the right type; \<open>put_member\<close> and \<open>put_element\<close>
  assign through the reference it returns.\<close>

definition to_container :: "ValueType \<Rightarrow> jval \<Rightarrow> jval" where
  "to_container t v = (if myType v \<noteq> t then Value t 0 [] 0 dbl_1 [] [] else v)"

definition with_objVal :: "jval \<Rightarrow> (bytes \<times> jval) list \<Rightarrow> jval" where
  "with_objVal v kvs =
     Value (myType v) (intVal v) (strVal v) (dblVal v) (dblDivider v) (arrVal v) kvs"

definition with_arrVal :: "jval \<Rightarrow> jval list \<Rightarrow> jval" where
  "with_arrVal v vs =
     Value (myType v) (intVal v) (strVal v) (dblVal v) (dblDivider v) vs (objVal v)"

definition put_member :: "jval \<Rightarrow> bytes \<Rightarrow> jval \<Rightarrow> jval" where
  "put_member v k w = (let v = to_container OBJECT v in with_objVal v (oput k w (objVal v)))"

definition get_member :: "jval \<Rightarrow> bytes \<Rightarrow> jval \<times> jval" where
  "get_member v k =
     (let v = to_container OBJECT v in
      case map_of (objVal v) k of
        Some w \<Rightarrow> (v, w)
      | None \<Rightarrow> (with_objVal v (oput k junset (objVal v)), junset))"

definition const_member :: "jval \<Rightarrow> bytes \<Rightarrow> jval" where
  "const_member v k = (case map_of (objVal v) k of Some w \<Rightarrow> w | None \<Rightarrow> junset)"

definition append :: "jval \<Rightarrow> jval \<Rightarrow> jval" where
  "append v w = (let v = to_container ARRAY v in with_arrVal v (arrVal v @ [w]))"

definition prepend :: "jval \<Rightarrow> jval \<Rightarrow> jval" where
  "prepend v w = (let v = to_container ARRAY v in with_arrVal v (w # arrVal v))"

definition get_element :: "jval \<Rightarrow> u32 \<Rightarrow> jval \<times> jval" where
  "get_element v i =
     (let v = to_container ARRAY v;
          a = arrVal v @ replicate (Suc (unat i) - length (arrVal v)) junset
      in (with_arrVal v a, a ! unat i))"

definition const_element :: "jval \<Rightarrow> u32 \<Rightarrow> jval" where
  "const_element v i = (if length (arrVal v) \<le> unat i then junset else arrVal v ! unat i)"

definition shrink :: "jval \<Rightarrow> u32 \<Rightarrow> jval" where
  "shrink v n =
     (let v = with_arrVal v (drop (length (arrVal v) - unat n) (arrVal v))
      in with_objVal v (drop (length (objVal v) - unat n) (objVal v)))"

definition truncate :: "jval \<Rightarrow> u32 \<Rightarrow> jval" where
  "truncate v n =
     (let v = with_arrVal v (take (unat n) (arrVal v)) in with_objVal v (take (unat n) (objVal v)))"

definition removeMember :: "jval \<Rightarrow> bytes \<Rightarrow> jval" where
  "removeMember v k = with_objVal v (filter (\<lambda>(k', w). k' \<noteq> k) (objVal v))"

text \<open>\<open>removeNullMembers\<close> starts over after each removal.\<close>

function removeNullMembers :: "jval \<Rightarrow> jval" where
  "removeNullMembers v =
     (case find (\<lambda>(k, w). k \<noteq> [] \<and> isNull w) (members v) of
        Some (k, w) \<Rightarrow> removeNullMembers (removeMember v k)
      | None \<Rightarrow> v)"
  by pat_completeness auto

lemma find_Some_in: "find P xs = Some x \<Longrightarrow> x \<in> set xs \<and> P x"
  by (induction xs) (auto split: if_splits)

termination removeNullMembers
proof (relation "measure (\<lambda>v. length (objVal v))", simp, goal_cases)
  case (1 v p k w)
  then have "(k, w) \<in> set (objVal v)"
    by (auto dest!: find_Some_in simp: members_def split: if_splits)
  then show ?case
    by (auto simp: removeMember_def with_objVal_def intro!: length_filter_less)
qed

declare removeNullMembers.simps [simp del]

text \<open>Every recursion over a value descends into its members and elements.\<close>

lemma size_member [simp]: "(k, w) \<in> set (objVal v) \<Longrightarrow> size w < size v"
  by (cases v) (auto dest!: size_list_estimation' [where f = "size_prod (\<lambda>_. 0) size", OF _ order_refl])

lemma size_element [simp]: "w \<in> set (arrVal v) \<Longrightarrow> size w < size v"
  by (cases v) (auto dest!: size_list_estimation' [where f = size, OF _ order_refl])

section \<open>Conversions\<close>

text \<open>\<open>atoll\<close> on the string up to its first zero byte: \<open>None\<close> when the value does not fit.\<close>

definition atoll :: "bytes \<Rightarrow> u64 option" where
  "atoll s =
     (let s = dropWhile is_space (takeWhile (\<lambda>c. c \<noteq> 0) s);
          neg = (s \<noteq> [] \<and> s ! 0 = 45);
          s = (if s \<noteq> [] \<and> s ! 0 \<in> {43, 45} then drop 1 s else s);
          v = int (dec_val (takeWhile is_digit s));
          v = (if neg then - v else v)
      in if - (2 ^ 63) \<le> v \<and> v < 2 ^ 63 then Some (of_int v) else None)"

definition asInt :: "jval \<Rightarrow> u64 option" where
  "asInt v =
     (if myType v = INTEGER then Some (intVal v)
      else if myType v = DOUBLE then
        (case dbl_to_int (dblVal v) of
           Some n \<Rightarrow> if - (2 ^ 63) \<le> n \<and> n < 2 ^ 63 then Some (of_int n) else None
         | None \<Rightarrow> None)
      else if myType v = STRING \<or> myType v = RAWSTRING then atoll (strVal v)
      else Some 0)"

definition dbl_nonzero :: "u64 \<Rightarrow> bool" where
  "dbl_nonzero d \<longleftrightarrow> d AND 0x7FFFFFFFFFFFFFFF \<noteq> 0"

definition asBool :: "jval \<Rightarrow> bool" where
  "asBool v =
     (if myType v = STRING \<or> myType v = RAWSTRING then strVal v \<noteq> []
      else if myType v = DOUBLE then dbl_nonzero (dblVal v)
      else if myType v = INTEGER \<or> myType v = BOOL then intVal v \<noteq> 0
      else if myType v = OBJECT \<or> myType v = ARRAY then jsize v > 0
      else False)"

definition asStringRef :: "jval \<Rightarrow> bytes" where
  "asStringRef v = (if myType v = STRING \<or> myType v = RAWSTRING then strVal v else [])"

section \<open>Comparing and copying\<close>

text \<open>\<open>==\<close> on doubles: the two zeros are equal, a NaN equals nothing.\<close>

definition dbl_eq :: "u64 \<Rightarrow> u64 \<Rightarrow> bool" where
  "dbl_eq a b \<longleftrightarrow> a AND 0x7FFFFFFFFFFFFFFF \<le> 0x7FF0000000000000 \<and>
     (a = b \<or> \<not> dbl_nonzero a \<and> \<not> dbl_nonzero b)"

function jeq :: "jval \<Rightarrow> jval \<Rightarrow> bool" where
  "jeq v w =
     (if myType v \<noteq> myType w then False
      else if myType v = INTEGER \<or> myType v = BOOL then intVal v = intVal w
      else if myType v = DOUBLE then dbl_eq (dblVal v) (dblVal w)
      else if myType v = STRING \<or> myType v = RAWSTRING then strVal v = strVal w
      else if myType v = EMPTY \<or> myType v = UNSET then True
      else if jsize v \<noteq> jsize w then False
      else if myType v = OBJECT then
        list_all (\<lambda>(k, x). isMember w k \<and> jeq x (const_member w k)) (objVal v)
      else list_all (\<lambda>(i, x). jeq x (const_element w (of_nat i))) (enumerate 0 (arrVal v)))"
  by pat_completeness auto
termination
  by (relation "measure (size \<circ> fst)") (auto simp: enumerate_eq_zip dest: set_zip_rightD)

declare jeq.simps [simp del]

text \<open>\<open>compareExcept\<close> and \<open>compareOnly\<close> differ in the keys they look at.\<close>

function compare_keys :: "(bytes \<Rightarrow> bool) \<Rightarrow> jval \<Rightarrow> jval \<Rightarrow> bool" where
  "compare_keys look v w =
     (if myType v = OBJECT then
        list_all (\<lambda>(k, x). look k \<longrightarrow> isMember w k \<and> compare_keys look x (const_member w k)) (objVal v) \<and>
        list_all (\<lambda>(k, y). look k \<longrightarrow> isMember v k) (members w)
      else if myType v = ARRAY then
        jsize v = jsize w \<and>
        list_all (\<lambda>(i, x). compare_keys look x (const_element w (of_nat i))) (enumerate 0 (arrVal v))
      else jeq v w)"
  by pat_completeness auto
termination
  by (relation "measure (size \<circ> fst \<circ> snd)") (auto simp: enumerate_eq_zip dest: set_zip_rightD)

declare compare_keys.simps [simp del]

definition compareExcept :: "jval \<Rightarrow> jval \<Rightarrow> bytes list \<Rightarrow> bool" where
  "compareExcept v w skip = compare_keys (\<lambda>k. k \<notin> set skip) v w"

definition compareOnly :: "jval \<Rightarrow> jval \<Rightarrow> bytes list \<Rightarrow> bool" where
  "compareOnly v w check = compare_keys (\<lambda>k. k \<in> set check) v w"

text \<open>\<open>operator=\<close> copies the fields of the value's type only.\<close>

function assign :: "jval \<Rightarrow> jval" where
  "assign w =
     (let v = Value (myType w)
                (if myType w = BOOL \<or> myType w = INTEGER then intVal w else 0)
                (if myType w = STRING \<or> myType w = RAWSTRING then strVal w else [])
                (if myType w = DOUBLE then dblVal w else 0) dbl_1 [] []
      in if myType w = OBJECT then foldl (\<lambda>v (k, x). put_member v k (assign x)) v (objVal w)
         else if myType w = ARRAY then foldl (\<lambda>v x. append v (assign x)) v (arrVal w)
         else v)"
  by pat_completeness auto
termination
  by (relation "measure size") auto

declare assign.simps [simp del]

function assignFrom :: "jval \<Rightarrow> bytes list \<Rightarrow> jval" where
  "assignFrom w skip =
     (let v = Value (myType w)
                (if myType w = BOOL \<or> myType w = INTEGER then intVal w else 0)
                (if myType w = STRING \<or> myType w = RAWSTRING then strVal w else [])
                (if myType w = DOUBLE then dblVal w else 0) dbl_1 [] []
      in if myType w = OBJECT then
           foldl (\<lambda>v (k, x). if k \<in> set skip then v else put_member v k (assign (assignFrom x skip)))
             v (objVal w)
         else if myType w = ARRAY then
           foldl (\<lambda>v x. append v (assign (assignFrom x skip))) v (arrVal w)
         else v)"
  by pat_completeness auto
termination
  by (relation "measure (size \<circ> fst)") auto

declare assignFrom.simps [simp del]

function extend :: "jval \<Rightarrow> jval \<Rightarrow> bytes list \<Rightarrow> bytes list \<Rightarrow> jval" where
  "extend v w skip incl =
     (let v = (if myType v = EMPTY \<or> myType v = UNSET
               then Value OBJECT (intVal v) (strVal v) (dblVal v) (dblDivider v) (arrVal v) (objVal v)
               else v)
      in if myType v \<noteq> myType w \<or> myType v \<noteq> OBJECT then v
         else if incl = [] then
           foldl (\<lambda>v (k, x).
               if k \<in> set skip then v
               else if \<not> isMember v k \<or> \<not> isObject x then put_member v k (assign x)
               else put_member v k (extend (const_member v k) x skip []))
             v (objVal w)
         else
           foldl (\<lambda>v k.
               case map_of (objVal w) k of
                 None \<Rightarrow> v
               | Some x \<Rightarrow>
                   if k \<in> set skip then v
                   else if \<not> isMember v k \<or> \<not> isObject x then put_member v k (assign x)
                   else put_member v k (extend (const_member v k) x skip []))
             v incl)"
  by pat_completeness auto
termination
  by (relation "measure (\<lambda>(v, w, skip, incl). size w)") (auto dest: map_of_SomeD)

declare extend.simps [simp del]

end
