(* ===== verification/Auth.thy ===== *)
theory Auth
  imports Encode Json
begin

text \<open>
  Digests and keyed digests (\<open>lib/auth.cpp\<close>, \<open>lib/auth.h\<close>): MD5, SHA-256, SHA-384, SHA-512 and HMAC.
  A digest works on whole blocks of the input and then on what is left, in a buffer of its own. The
  properties compare each function with the text of its standard: the message is padded first and
  then cut into blocks, and the words are rotated.
\<close>

section \<open>Blocks\<close>

text \<open>The loop over the whole blocks of the input: the hash and what is left.\<close>

function add_blocks :: "('h \<Rightarrow> bytes \<Rightarrow> 'h) \<Rightarrow> nat \<Rightarrow> 'h \<Rightarrow> bytes \<Rightarrow> 'h \<times> bytes" where
  "add_blocks add n hash input =
     (if 0 < n \<and> n \<le> length input then add_blocks add n (add hash (take n input)) (drop n input)
      else (hash, input))"
  by pat_completeness auto
termination
  by (relation "measure (\<lambda>(add, n, hash, input). length input)") auto

declare add_blocks.simps [simp del]

text \<open>The end of the input: the buffer of \<open>n\<close> bytes gets the rest, a mark, zeroes, and the length at
  \<open>n - k\<close> if there is room for it, or else in a buffer of its own.\<close>

definition last_blocks :: "('h \<Rightarrow> bytes \<Rightarrow> 'h) \<Rightarrow> nat \<Rightarrow> 'h \<Rightarrow> bytes \<Rightarrow> bytes \<Rightarrow> 'h" where
  "last_blocks add n hash rest len_bytes =
     (let k = length len_bytes;
          buffer = rest @ 0x80 # replicate (n - length rest - 1) 0;
          (hash, buffer) = (if length rest > n - k - 1 then (add hash buffer, replicate n 0) else (hash, buffer))
      in add hash (take (n - k) buffer @ len_bytes))"

text \<open>The output stream in hexadecimal with two digits for every byte.\<close>

definition stream_digit :: "byte \<Rightarrow> byte" where
  "stream_digit n = (if n < 10 then 0x30 + n else 0x57 + n)"

definition stream_hex :: "bytes \<Rightarrow> bytes" where
  "stream_hex output = concat (map (\<lambda>c. [stream_digit (drop_bit 4 c), stream_digit (c AND 0xF)]) output)"

section \<open>MD5\<close>

definition md5_shift :: "nat list" where
  "md5_shift =
    [7, 12, 17, 22, 7, 12, 17, 22, 7, 12, 17, 22, 7, 12, 17, 22,
     5, 9, 14, 20, 5, 9, 14, 20, 5, 9, 14, 20, 5, 9, 14, 20,
     4, 11, 16, 23, 4, 11, 16, 23, 4, 11, 16, 23, 4, 11, 16, 23,
     6, 10, 15, 21, 6, 10, 15, 21, 6, 10, 15, 21, 6, 10, 15, 21]"

definition md5_K :: "u32 list" where
  "md5_K =
    concat [
      [0xd76aa478, 0xe8c7b756, 0x242070db, 0xc1bdceee, 0xf57c0faf, 0x4787c62a],
      [0xa8304613, 0xfd469501, 0x698098d8, 0x8b44f7af, 0xffff5bb1, 0x895cd7be],
      [0x6b901122, 0xfd987193, 0xa679438e, 0x49b40821, 0xf61e2562, 0xc040b340],
      [0x265e5a51, 0xe9b6c7aa, 0xd62f105d, 0x02441453, 0xd8a1e681, 0xe7d3fbc8],
      [0x21e1cde6, 0xc33707d6, 0xf4d50d87, 0x455a14ed, 0xa9e3e905, 0xfcefa3f8],
      [0x676f02d9, 0x8d2a4c8a, 0xfffa3942, 0x8771f681, 0x6d9d6122, 0xfde5380c],
      [0xa4beea44, 0x4bdecfa9, 0xf6bb4b60, 0xbebfbc70, 0x289b7ec6, 0xeaa127fa],
      [0xd4ef3085, 0x04881d05, 0xd9d4d039, 0xe6db99e5, 0x1fa27cf8, 0xc4ac5665],
      [0xf4292244, 0x432aff97, 0xab9423a7, 0xfc93a039, 0x655b59c3, 0x8f0ccc92],
      [0xffeff47d, 0x85845dd1, 0x6fa87e4f, 0xfe2ce6e0, 0xa3014314, 0x4e0811a1],
      [0xf7537e82, 0xbd3af235, 0x2ad7d2bb, 0xeb86d391]]"

type_synonym md5_hash = "u32 \<times> u32 \<times> u32 \<times> u32"

definition md5_words :: "bytes \<Rightarrow> u32 list" where
  "md5_words data =
     map (\<lambda>i. ucast (data ! (4 * i)) OR push_bit 8 (ucast (data ! (4 * i + 1)))
              OR push_bit 16 (ucast (data ! (4 * i + 2))) OR push_bit 24 (ucast (data ! (4 * i + 3))))
       [0..<16]"

definition md5_round :: "u32 list \<Rightarrow> md5_hash \<Rightarrow> nat \<Rightarrow> md5_hash" where
  "md5_round M h i =
     (case h of (A, B, C, D) \<Rightarrow>
        let (F, g) =
              (if i < 16 then ((B AND C) OR (NOT B AND D), i)
               else if i < 32 then ((D AND B) OR (NOT D AND C), (5 * i + 1) mod 16)
               else if i < 48 then (B XOR C XOR D, (3 * i + 5) mod 16)
               else (C XOR (B OR NOT D), (7 * i) mod 16));
            x = A + F + md5_K ! i + M ! g;
            s = md5_shift ! i
        in (D, B + (push_bit s x OR drop_bit (32 - s) x), B, C))"

definition md5_add64 :: "md5_hash \<Rightarrow> bytes \<Rightarrow> md5_hash" where
  "md5_add64 hash data =
     (case (hash, foldl (md5_round (md5_words data)) hash [0..<64]) of
        ((h0, h1, h2, h3), (A, B, C, D)) \<Rightarrow> (h0 + A, h1 + B, h2 + C, h3 + D))"

definition md5_init :: md5_hash where
  "md5_init = (0x67452301, 0xefcdab89, 0x98badcfe, 0x10325476)"

definition md5_length :: "nat \<Rightarrow> bytes" where
  "md5_length in_len =
     (let bit_len = push_bit 3 (of_nat in_len :: u64)
      in map (\<lambda>s. ucast (drop_bit s bit_len)) [0, 8, 16, 24, 32, 40, 48, 54])"

definition md5_output :: "md5_hash \<Rightarrow> bytes" where
  "md5_output h =
     (case h of (a, b, c, d) \<Rightarrow> rev (be_bytes 4 a) @ rev (be_bytes 4 b) @ rev (be_bytes 4 c) @ rev (be_bytes 4 d))"

definition md5bin :: "bytes \<Rightarrow> bytes" where
  "md5bin input =
     (let (hash, rest) = add_blocks md5_add64 64 md5_init input
      in md5_output (last_blocks md5_add64 64 hash rest (md5_length (length input))))"

definition md5 :: "bytes \<Rightarrow> bytes" where
  "md5 input = stream_hex (md5bin input)"

section \<open>SHA-256\<close>

definition sha256_k :: "u32 list" where
  "sha256_k =
    concat [
      [0x428a2f98, 0x71374491, 0xb5c0fbcf, 0xe9b5dba5, 0x3956c25b, 0x59f111f1],
      [0x923f82a4, 0xab1c5ed5, 0xd807aa98, 0x12835b01, 0x243185be, 0x550c7dc3],
      [0x72be5d74, 0x80deb1fe, 0x9bdc06a7, 0xc19bf174, 0xe49b69c1, 0xefbe4786],
      [0x0fc19dc6, 0x240ca1cc, 0x2de92c6f, 0x4a7484aa, 0x5cb0a9dc, 0x76f988da],
      [0x983e5152, 0xa831c66d, 0xb00327c8, 0xbf597fc7, 0xc6e00bf3, 0xd5a79147],
      [0x06ca6351, 0x14292967, 0x27b70a85, 0x2e1b2138, 0x4d2c6dfc, 0x53380d13],
      [0x650a7354, 0x766a0abb, 0x81c2c92e, 0x92722c85, 0xa2bfe8a1, 0xa81a664b],
      [0xc24b8b70, 0xc76c51a3, 0xd192e819, 0xd6990624, 0xf40e3585, 0x106aa070],
      [0x19a4c116, 0x1e376c08, 0x2748774c, 0x34b0bcb5, 0x391c0cb3, 0x4ed8aa4a],
      [0x5b9cca4f, 0x682e6ff3, 0x748f82ee, 0x78a5636f, 0x84c87814, 0x8cc70208],
      [0x90befffa, 0xa4506ceb, 0xbef9a3f7, 0xc67178f2]]"

type_synonym 'w sha_hash = "'w \<times> 'w \<times> 'w \<times> 'w \<times> 'w \<times> 'w \<times> 'w \<times> 'w"

definition sha256_rr :: "u64 \<Rightarrow> nat \<Rightarrow> u64" where
  "sha256_rr x c = push_bit (32 - c) x OR drop_bit c (x AND 0xFFFFFFFF)"

definition sha256_words :: "bytes \<Rightarrow> u32 list" where
  "sha256_words data =
     map (\<lambda>i. ucast (data ! (4 * i + 3)) OR push_bit 8 (ucast (data ! (4 * i + 2)))
              OR push_bit 16 (ucast (data ! (4 * i + 1))) OR push_bit 24 (ucast (data ! (4 * i))))
       [0..<16]"

definition sha256_extend :: "u32 list \<Rightarrow> nat \<Rightarrow> u32 list" where
  "sha256_extend w i =
     (let x = w ! (i - 15); y = w ! (i - 2);
          s0 = (ucast (sha256_rr (ucast x) 7 XOR sha256_rr (ucast x) 18 XOR ucast (drop_bit 3 (x AND 0xFFFFFFFF))) :: u32);
          s1 = (ucast (sha256_rr (ucast y) 17 XOR sha256_rr (ucast y) 19 XOR ucast (drop_bit 10 (y AND 0xFFFFFFFF))) :: u32)
      in w @ [w ! (i - 16) + s0 + w ! (i - 7) + s1])"

definition sha256_round :: "u32 list \<Rightarrow> u32 sha_hash \<Rightarrow> nat \<Rightarrow> u32 sha_hash" where
  "sha256_round w st i =
     (case st of (a, b, c, d, e, f, g, h) \<Rightarrow>
        let temp1 = (ucast (ucast h + (sha256_rr (ucast e) 6 XOR sha256_rr (ucast e) 11 XOR sha256_rr (ucast e) 25)
                       + ucast (g XOR (e AND (f XOR g))) + ucast (sha256_k ! i) + ucast (w ! i) :: u64) :: u32);
            temp2 = (ucast ((sha256_rr (ucast a) 2 XOR sha256_rr (ucast a) 13 XOR sha256_rr (ucast a) 22)
                       + ucast ((a AND b) OR (c AND (a OR b))) :: u64) :: u32)
        in (temp1 + temp2, a, b, c, d + temp1, e, f, g))"

definition add_hashes :: "'w::plus sha_hash \<Rightarrow> 'w sha_hash \<Rightarrow> 'w sha_hash" where
  "add_hashes x y =
     (case (x, y) of ((h0, h1, h2, h3, h4, h5, h6, h7), (a, b, c, d, e, f, g, h)) \<Rightarrow>
        (h0 + a, h1 + b, h2 + c, h3 + d, h4 + e, h5 + f, h6 + g, h7 + h))"

definition sha256_add64 :: "u32 sha_hash \<Rightarrow> bytes \<Rightarrow> u32 sha_hash" where
  "sha256_add64 hash data =
     (let w = foldl sha256_extend (sha256_words data) [16..<64]
      in add_hashes hash (foldl (sha256_round w) hash [0..<64]))"

definition sha256_init :: "u32 sha_hash" where
  "sha256_init = (0x6a09e667, 0xbb67ae85, 0x3c6ef372, 0xa54ff53a, 0x510e527f, 0x9b05688c, 0x1f83d9ab, 0x5be0cd19)"

definition sha256_length :: "nat \<Rightarrow> bytes" where
  "sha256_length in_len =
     (let bit_len = push_bit 3 (of_nat in_len :: u64)
      in map (\<lambda>s. ucast (drop_bit s bit_len)) [54, 48, 40, 32, 24, 16, 8, 0])"

definition sha256_output :: "u32 sha_hash \<Rightarrow> bytes" where
  "sha256_output st =
     (case st of (a, b, c, d, e, f, g, h) \<Rightarrow> concat (map (be_bytes 4) [a, b, c, d, e, f, g, h]))"

definition sha256bin :: "bytes \<Rightarrow> bytes" where
  "sha256bin input =
     (let (hash, rest) = add_blocks sha256_add64 64 sha256_init input
      in sha256_output (last_blocks sha256_add64 64 hash rest (sha256_length (length input))))"

definition sha256 :: "bytes \<Rightarrow> bytes" where
  "sha256 input = stream_hex (sha256bin input)"

section \<open>SHA-384 and SHA-512\<close>

definition sha512_k :: "u64 list" where
  "sha512_k =
    concat [
      [0x428a2f98d728ae22, 0x7137449123ef65cd, 0xb5c0fbcfec4d3b2f, 0xe9b5dba58189dbbc],
      [0x3956c25bf348b538, 0x59f111f1b605d019, 0x923f82a4af194f9b, 0xab1c5ed5da6d8118],
      [0xd807aa98a3030242, 0x12835b0145706fbe, 0x243185be4ee4b28c, 0x550c7dc3d5ffb4e2],
      [0x72be5d74f27b896f, 0x80deb1fe3b1696b1, 0x9bdc06a725c71235, 0xc19bf174cf692694],
      [0xe49b69c19ef14ad2, 0xefbe4786384f25e3, 0x0fc19dc68b8cd5b5, 0x240ca1cc77ac9c65],
      [0x2de92c6f592b0275, 0x4a7484aa6ea6e483, 0x5cb0a9dcbd41fbd4, 0x76f988da831153b5],
      [0x983e5152ee66dfab, 0xa831c66d2db43210, 0xb00327c898fb213f, 0xbf597fc7beef0ee4],
      [0xc6e00bf33da88fc2, 0xd5a79147930aa725, 0x06ca6351e003826f, 0x142929670a0e6e70],
      [0x27b70a8546d22ffc, 0x2e1b21385c26c926, 0x4d2c6dfc5ac42aed, 0x53380d139d95b3df],
      [0x650a73548baf63de, 0x766a0abb3c77b2a8, 0x81c2c92e47edaee6, 0x92722c851482353b],
      [0xa2bfe8a14cf10364, 0xa81a664bbc423001, 0xc24b8b70d0f89791, 0xc76c51a30654be30],
      [0xd192e819d6ef5218, 0xd69906245565a910, 0xf40e35855771202a, 0x106aa07032bbd1b8],
      [0x19a4c116b8d2d0c8, 0x1e376c085141ab53, 0x2748774cdf8eeb99, 0x34b0bcb5e19b48a8],
      [0x391c0cb3c5c95a63, 0x4ed8aa4ae3418acb, 0x5b9cca4f7763e373, 0x682e6ff3d6b2b8a3],
      [0x748f82ee5defb2fc, 0x78a5636f43172f60, 0x84c87814a1f0ab72, 0x8cc702081a6439ec],
      [0x90befffa23631e28, 0xa4506cebde82bde9, 0xbef9a3f7b2c67915, 0xc67178f2e372532b],
      [0xca273eceea26619c, 0xd186b8c721c0c207, 0xeada7dd6cde0eb1e, 0xf57d4f7fee6ed178],
      [0x06f067aa72176fba, 0x0a637dc5a2c898a6, 0x113f9804bef90dae, 0x1b710b35131c471b],
      [0x28db77f523047d84, 0x32caab7b40c72493, 0x3c9ebe0a15c9bebc, 0x431d67c49c100d4c],
      [0x4cc5d4becb3e42b6, 0x597f299cfc657e2a, 0x5fcb6fab3ad6faec, 0x6c44198c4a475817]]"

definition sha512_rr :: "u64 \<Rightarrow> nat \<Rightarrow> u64" where
  "sha512_rr x c = drop_bit c x OR push_bit (64 - c) x"

definition sha512_words :: "bytes \<Rightarrow> u64 list" where
  "sha512_words data =
     map (\<lambda>i. foldl (\<lambda>w j. w OR push_bit ((7 - j) * 8) (ucast (data ! (i * 8 + j)))) 0 [0..<8]) [0..<16]"

definition sha512_extend :: "u64 list \<Rightarrow> nat \<Rightarrow> u64 list" where
  "sha512_extend w i =
     (let x = w ! (i - 15); y = w ! (i - 2);
          s0 = sha512_rr x 1 XOR sha512_rr x 8 XOR drop_bit 7 x;
          s1 = sha512_rr y 19 XOR sha512_rr y 61 XOR drop_bit 6 y
      in w @ [w ! (i - 16) + s0 + w ! (i - 7) + s1])"

definition sha512_round :: "u64 list \<Rightarrow> u64 sha_hash \<Rightarrow> nat \<Rightarrow> u64 sha_hash" where
  "sha512_round w st i =
     (case st of (a, b, c, d, e, f, g, h) \<Rightarrow>
        let s1 = sha512_rr e 14 XOR sha512_rr e 18 XOR sha512_rr e 41;
            ch = (e AND f) XOR (NOT e AND g);
            temp1 = h + s1 + ch + sha512_k ! i + w ! i;
            s0 = sha512_rr a 28 XOR sha512_rr a 34 XOR sha512_rr a 39;
            maj = (a AND b) XOR (a AND c) XOR (b AND c);
            temp2 = s0 + maj
        in (temp1 + temp2, a, b, c, d + temp1, e, f, g))"

definition sha512_add128 :: "u64 sha_hash \<Rightarrow> bytes \<Rightarrow> u64 sha_hash" where
  "sha512_add128 hash data =
     (let w = foldl sha512_extend (sha512_words data) [16..<80]
      in add_hashes hash (foldl (sha512_round w) hash [0..<80]))"

definition sha512_init :: "bool \<Rightarrow> u64 sha_hash" where
  "sha512_init is384 =
     (if is384 then
        (0xcbbb9d5dc1059ed8, 0x629a292a367cd507, 0x9159015a3070dd17, 0x152fecd8f70e5939,
         0x67332667ffc00b31, 0x8eb44a8768581511, 0xdb0c2e0d64f98fa7, 0x47b5481dbefa4fa4)
      else
        (0x6a09e667f3bcc908, 0xbb67ae8584caa73b, 0x3c6ef372fe94f82b, 0xa54ff53a5f1d36f1,
         0x510e527fade682d1, 0x9b05688c2b3e6c1f, 0x1f83d9abfb41bd6b, 0x5be0cd19137e2179))"

definition sha512_length :: "nat \<Rightarrow> bytes" where
  "sha512_length in_len =
     (let low = of_nat in_len * 8 :: u64; high = 0 :: u64
      in map (\<lambda>i. ucast (drop_bit (56 - i * 8) high)) [0..<8] @ map (\<lambda>i. ucast (drop_bit (56 - i * 8) low)) [0..<8])"

definition sha512_output :: "bool \<Rightarrow> u64 sha_hash \<Rightarrow> bytes" where
  "sha512_output is384 st =
     (case st of (a, b, c, d, e, f, g, h) \<Rightarrow>
        concat (map (\<lambda>x. map (\<lambda>j. ucast (drop_bit (56 - j * 8) x)) [0..<8])
          (take (if is384 then 6 else 8) [a, b, c, d, e, f, g, h])))"

definition sha512bin_is :: "bytes \<Rightarrow> bool \<Rightarrow> bytes" where
  "sha512bin_is input is384 =
     (let (hash, rest) = add_blocks sha512_add128 128 (sha512_init is384) input
      in sha512_output is384 (last_blocks sha512_add128 128 hash rest (sha512_length (length input))))"

definition sha384bin :: "bytes \<Rightarrow> bytes" where "sha384bin input = sha512bin_is input True"
definition sha512bin :: "bytes \<Rightarrow> bytes" where "sha512bin input = sha512bin_is input False"

datatype SHA = SHA256 | SHA384 | SHA512

definition shabin :: "bytes \<Rightarrow> SHA \<Rightarrow> bytes" where
  "shabin input alg =
     (case alg of SHA256 \<Rightarrow> sha256bin input | SHA384 \<Rightarrow> sha384bin input | SHA512 \<Rightarrow> sha512bin input)"

section \<open>Keyed digests\<close>

definition hmac_key :: "bytes \<Rightarrow> nat \<Rightarrow> (bytes \<Rightarrow> bytes) \<Rightarrow> nat \<Rightarrow> bytes" where
  "hmac_key key hashSize hasher blockSize =
     (if length key > blockSize then hasher key @ replicate (blockSize - hashSize) 0
      else key @ replicate (blockSize - length key) 0)"

definition hmacbin :: "bytes \<Rightarrow> bytes \<Rightarrow> nat \<Rightarrow> (bytes \<Rightarrow> bytes) \<Rightarrow> nat \<Rightarrow> bytes" where
  "hmacbin msg key hashSize hasher blockSize =
     (let key_data = hmac_key key hashSize hasher blockSize;
          inner = map (\<lambda>c. c XOR 0x36) key_data @ msg;
          outer = map (\<lambda>c. c XOR 0x5c) key_data @ hasher inner
      in hasher outer)"

definition hmac :: "bytes \<Rightarrow> bytes \<Rightarrow> nat \<Rightarrow> (bytes \<Rightarrow> bytes) \<Rightarrow> nat \<Rightarrow> bytes" where
  "hmac msg key hashSize hasher blockSize = stream_hex (hmacbin msg key hashSize hasher blockSize)"

definition hmac_sha :: "bytes \<Rightarrow> bytes \<Rightarrow> SHA \<Rightarrow> bytes" where
  "hmac_sha msg key alg =
     (case alg of
        SHA256 \<Rightarrow> hmac msg key 32 sha256bin 64
      | SHA384 \<Rightarrow> hmac msg key 48 sha384bin 128
      | SHA512 \<Rightarrow> hmac msg key 64 sha512bin 128)"

definition hmac_shabin :: "bytes \<Rightarrow> bytes \<Rightarrow> SHA \<Rightarrow> bytes" where
  "hmac_shabin msg key alg =
     (case alg of
        SHA256 \<Rightarrow> hmacbin msg key 32 sha256bin 64
      | SHA384 \<Rightarrow> hmacbin msg key 48 sha384bin 128
      | SHA512 \<Rightarrow> hmacbin msg key 64 sha512bin 128)"

definition sha_bytes :: "SHA \<Rightarrow> nat" where
  "sha_bytes alg = (case alg of SHA256 \<Rightarrow> 256 | SHA384 \<Rightarrow> 384 | SHA512 \<Rightarrow> 512) div 8"

definition digest_hmac :: "bytes \<Rightarrow> jval \<Rightarrow> SHA \<Rightarrow> bytes" where
  "digest_hmac msg jkey alg =
     (let key = Base64_decode (asStringRef (const_member jkey (str ''k'')));
          binHash = hmac_shabin msg key alg
      in Base64_encode (take (sha_bytes alg) (binHash @ replicate (64 - length binHash) 0)) True)"

section \<open>Words\<close>

text \<open>The code's shifts and masks are the rotations of the standards, on words as wide as the code uses.\<close>

lemma ucast_add32: "(ucast (x + y :: u64) :: u32) = ucast x + ucast y"
  by (simp add: word_uint_eq_iff uint_word_ariths take_bit_eq_mod uint_up_ucast unsigned_ucast_eq mod_mod_cancel mod_add_eq)

lemma and_all32: "x AND 0xFFFFFFFF = take_bit 32 (x :: 'a::len word)"
proof -
  have "(0xFFFFFFFF :: 'a word) = mask 32" by (simp add: mask_eq_exp_minus_1)
  then show ?thesis by (simp add: take_bit_eq_mask)
qed

lemma sha256_rr:
  assumes "0 < c" "c < 32"
  shows "(ucast (sha256_rr (ucast x) c) :: u32) = word_rotr c x"
proof (rule bit_word_eqI)
  fix n assume n: "n < LENGTH(32)"
  show "bit (ucast (sha256_rr (ucast x) c) :: u32) n = bit (word_rotr c x) n"
  proof (cases "n + c < 32")
    case True
    then have "\<not> 32 - c \<le> n" using assms by simp
    then show ?thesis using True n assms by (simp add: sha256_rr_def and_all32 bit_simps bit_word_rotr_iff add.commute)
  next
    case False
    then have "32 - c \<le> n" "n + c - 32 < 64" using n assms by simp_all
    moreover have m: "(n + c) mod 32 = n + c - 32" using n assms False by (subst le_mod_geq) auto
    moreover have "\<not> bit x (c + n)" using False by (auto dest!: bit_imp_le_length)
    ultimately show ?thesis using n assms False m by (simp add: sha256_rr_def and_all32 bit_simps bit_word_rotr_iff)
  qed
qed

lemma sha512_rr:
  assumes "0 < c" "c < 64"
  shows "sha512_rr x c = word_rotr c x"
proof (rule bit_word_eqI)
  fix n assume n: "n < LENGTH(64)"
  show "bit (sha512_rr x c) n = bit (word_rotr c x) n"
  proof (cases "n + c < 64")
    case True
    then have "\<not> 64 - c \<le> n" using assms by simp
    then show ?thesis using True n assms by (simp add: sha512_rr_def bit_simps bit_word_rotr_iff add.commute)
  next
    case False
    then have "64 - c \<le> n" "n + c - 64 < 64" using n assms by simp_all
    moreover have m: "(n + c) mod 64 = n + c - 64" using n assms False by (subst le_mod_geq) auto
    moreover have "\<not> bit x (c + n)" using False by (auto dest!: bit_imp_le_length)
    ultimately show ?thesis using n assms False m by (simp add: sha512_rr_def bit_simps bit_word_rotr_iff)
  qed
qed

lemma md5_rotl:
  assumes "0 < c" "c < 32"
  shows "push_bit c x OR drop_bit (32 - c) x = word_rotl c (x :: u32)"
proof (rule bit_word_eqI)
  fix n assume n: "n < LENGTH(32)"
  show "bit (push_bit c x OR drop_bit (32 - c) x) n = bit (word_rotl c x) n"
  proof (cases "n < c")
    case True
    then have "(n + (32 - c)) mod 32 = 32 - c + n" using assms by simp
    then show ?thesis using n assms True by (simp add: bit_simps bit_word_rotl_iff)
  next
    case False
    then have "n + (32 - c) = n - c + 32" using assms by simp
    then have m: "(n + (32 - c)) mod 32 = n - c" using n by (simp only: mod_add_self2) simp
    have "\<not> bit x (32 - c + n)" using False assms by (auto dest!: bit_imp_le_length)
    then show ?thesis using n assms False m by (simp add: bit_simps bit_word_rotl_iff)
  qed
qed

lemma choose_eq: "g XOR (e AND (f XOR g)) = (e AND f) XOR (NOT e AND (g :: 'a::len word))"
  by (rule bit_word_eqI) (auto simp: bit_simps)

lemma majority_eq: "(a AND b) OR (c AND (a OR b)) = (a AND b) XOR (a AND c) XOR (b AND (c :: 'a::len word))"
  by (rule bit_word_eqI) (auto simp: bit_simps)

lemma nth_take_drop_list: "k * i + k \<le> length bs \<Longrightarrow> take k (drop (k * i) bs) = map (\<lambda>j. bs ! (k * i + j)) [0..<k]"
  by (rule nth_equalityI) simp_all

lemma upt_4_8: "[0..<4] = [0, 1, 2, 3]" "[0..<8] = [0, 1, 2, 3, 4, 5, 6, 7]"
  by (simp_all add: upt_rec)

lemma sha256_words_nth:
  assumes "length data = 64" "t < 16"
  shows "sha256_words data ! t = be_val (take 4 (drop (4 * t) data))"
proof -
  have "take 4 (drop (4 * t) data) = map (\<lambda>j. data ! (4 * t + j)) [0..<4]"
    using assms by (intro nth_take_drop_list) simp
  then show ?thesis using assms
    by (simp add: sha256_words_def be_val_def push_bit_or upt_4_8 or.assoc or.commute or.left_commute)
qed

lemma sha512_words_nth:
  assumes "length data = 128" "t < 16"
  shows "sha512_words data ! t = be_val (take 8 (drop (8 * t) data))"
proof -
  have "take 8 (drop (8 * t) data) = map (\<lambda>j. data ! (8 * t + j)) [0..<8]"
    using assms by (intro nth_take_drop_list) simp
  then show ?thesis using assms
    by (simp add: sha512_words_def be_val_def push_bit_or upt_4_8 or.assoc mult.commute)
qed

lemma md5_words_nth:
  assumes "length data = 64" "t < 16"
  shows "md5_words data ! t = be_val (rev (take 4 (drop (4 * t) data)))"
proof -
  have "take 4 (drop (4 * t) data) = map (\<lambda>j. data ! (4 * t + j)) [0..<4]"
    using assms by (intro nth_take_drop_list) simp
  then show ?thesis using assms
    by (simp add: md5_words_def be_val_def push_bit_or upt_4_8 or.assoc or.commute or.left_commute)
qed

section \<open>The standards\<close>

text \<open>A message is padded with a mark, as few zeroes as possible and its length, cut into blocks, and the
  blocks are compressed one after the other.\<close>

definition pad_zeros :: "nat \<Rightarrow> nat \<Rightarrow> nat \<Rightarrow> nat" where
  "pad_zeros n k l = (n - (l + 1 + k) mod n) mod n"

definition padded :: "nat \<Rightarrow> bytes \<Rightarrow> bytes \<Rightarrow> bytes" where
  "padded n len_bytes m = m @ 0x80 # replicate (pad_zeros n (length len_bytes) (length m)) 0 @ len_bytes"

function cut :: "nat \<Rightarrow> bytes \<Rightarrow> bytes list" where
  "cut n m = (if 0 < n \<and> n \<le> length m then take n m # cut n (drop n m) else [])"
  by pat_completeness auto
termination
  by (relation "measure (\<lambda>(n, m). length m)") auto

declare cut.simps [simp del]

lemma pad_zeros: "0 < n \<Longrightarrow> pad_zeros n k l < n \<and> n dvd l + 1 + pad_zeros n k l + k"
proof -
  assume n: "0 < n"
  let ?q = "l + 1 + k"
  have "(?q + pad_zeros n k l) mod n = (?q mod n + (n - ?q mod n)) mod n"
    unfolding pad_zeros_def mod_add_right_eq mod_add_left_eq ..
  also have "?q mod n + (n - ?q mod n) = n" using n by (simp add: less_imp_le)
  finally have "n dvd ?q + pad_zeros n k l" by (simp add: dvd_eq_mod_eq_0)
  moreover have "?q + pad_zeros n k l = l + 1 + pad_zeros n k l + k" by simp
  ultimately show ?thesis using n by (metis pad_zeros_def mod_less_divisor)
qed

lemma cut_block: "length b = n \<Longrightarrow> 0 < n \<Longrightarrow> cut n (b @ m) = b # cut n m"
  by (subst cut.simps) simp

lemma cut_end: "length b = n \<Longrightarrow> 0 < n \<Longrightarrow> cut n b = [b]"
  using cut_block [of b n "[]"] by (simp add: cut.simps [of n "[]"])

lemma pad_zeros_drop: "n \<le> l \<Longrightarrow> pad_zeros n k (l - n) = pad_zeros n k l"
proof -
  assume "n \<le> l"
  then have "l + 1 + k = (l - n + 1 + k) + n" by simp
  then have "(l + 1 + k) mod n = (l - n + 1 + k) mod n" by (metis mod_add_self2)
  then show ?thesis by (simp add: pad_zeros_def)
qed

lemma last_blocks_cut:
  assumes "length rest < n" "length len_bytes < n"
  shows "last_blocks add n h rest len_bytes = foldl add h (cut n (padded n len_bytes rest))"
proof -
  let ?k = "length len_bytes" and ?l = "length rest"
  show ?thesis
  proof (cases "?l > n - ?k - 1")
    case True
    have "(?l + 1 + ?k) mod n = ?l + 1 + ?k - n" using True assms by (subst le_mod_geq) auto
    then have z: "pad_zeros n ?k ?l = (n - ?l - 1) + (n - ?k)"
      using True assms by (simp add: pad_zeros_def)
    have "padded n len_bytes rest = (rest @ 0x80 # replicate (n - ?l - 1) 0) @ (replicate (n - ?k) 0 @ len_bytes)"
      by (simp add: padded_def z replicate_add)
    moreover have "cut n \<dots> = [rest @ 0x80 # replicate (n - ?l - 1) 0, replicate (n - ?k) 0 @ len_bytes]"
      by (subst cut_block) (use assms in \<open>simp_all add: cut_end\<close>)
    ultimately show ?thesis using True by (simp add: last_blocks_def Let_def)
  next
    case False
    then have "n = ?l + 1 + ?k \<or> ?l + 1 + ?k < n" using assms by auto
    then have z: "pad_zeros n ?k ?l = n - ?k - ?l - 1" by (auto simp: pad_zeros_def)
    have "padded n len_bytes rest = rest @ 0x80 # replicate (n - ?k - ?l - 1) 0 @ len_bytes"
      by (simp add: padded_def z)
    moreover have "cut n \<dots> = [rest @ 0x80 # replicate (n - ?k - ?l - 1) 0 @ len_bytes]"
      by (rule cut_end) (use assms False in auto)
    moreover have "?l + ?k < n" using False assms by simp
    ultimately show ?thesis using False assms by (simp add: last_blocks_def Let_def take_Cons')
  qed
qed

lemma digest_blocks:
  assumes "length len_bytes < n" "add_blocks add n h m = (h', rest)"
  shows "last_blocks add n h' rest len_bytes = foldl add h (cut n (padded n len_bytes m))"
  using assms
proof (induction add n h m rule: add_blocks.induct)
  case (1 add n h m)
  show ?case
  proof (cases "0 < n \<and> n \<le> length m")
    case True
    have "padded n len_bytes m = take n m @ padded n len_bytes (drop n m)"
      using True pad_zeros_drop [of n "length m"] by (simp add: padded_def)
    moreover have "cut n \<dots> = take n m # cut n (padded n len_bytes (drop n m))"
      using True by (subst cut_block) auto
    ultimately show ?thesis using 1 True by (simp add: add_blocks.simps [of add n h m])
  next
    case False
    then have "length m < n" using 1 by auto
    then show ?thesis using 1 last_blocks_cut [of m n len_bytes add h]
      by (simp add: add_blocks.simps [of add n h m])
  qed
qed

subsection \<open>SHA-2 (FIPS 180-4)\<close>

definition Ch :: "'a::len word \<Rightarrow> 'a word \<Rightarrow> 'a word \<Rightarrow> 'a word" where
  "Ch x y z = (x AND y) XOR (NOT x AND z)"

definition Maj :: "'a::len word \<Rightarrow> 'a word \<Rightarrow> 'a word \<Rightarrow> 'a word" where
  "Maj x y z = (x AND y) XOR (x AND z) XOR (y AND z)"

fun sha2_W :: "('a::len word \<Rightarrow> 'a word) \<Rightarrow> ('a word \<Rightarrow> 'a word) \<Rightarrow> (nat \<Rightarrow> 'a word) \<Rightarrow> nat \<Rightarrow> 'a word" where
  "sha2_W s0 s1 M t =
     (if t < 16 then M t
      else s1 (sha2_W s0 s1 M (t - 2)) + sha2_W s0 s1 M (t - 7) + s0 (sha2_W s0 s1 M (t - 15)) + sha2_W s0 s1 M (t - 16))"

declare sha2_W.simps [simp del]

definition sha2_step ::
  "('a::len word \<Rightarrow> 'a word) \<Rightarrow> ('a word \<Rightarrow> 'a word) \<Rightarrow> (nat \<Rightarrow> 'a word) \<Rightarrow> (nat \<Rightarrow> 'a word) \<Rightarrow> 'a word sha_hash \<Rightarrow> nat \<Rightarrow> 'a word sha_hash" where
  "sha2_step S0 S1 K W st t =
     (case st of (a, b, c, d, e, f, g, h) \<Rightarrow>
        let T1 = h + S1 e + Ch e f g + K t + W t; T2 = S0 a + Maj a b c
        in (T1 + T2, a, b, c, d + T1, e, f, g))"

definition sha256_compress :: "u32 sha_hash \<Rightarrow> bytes \<Rightarrow> u32 sha_hash" where
  "sha256_compress hash block =
     (let M = (\<lambda>t. be_val (take 4 (drop (4 * t) block)));
          W = sha2_W (\<lambda>x. word_rotr 7 x XOR word_rotr 18 x XOR drop_bit 3 x)
                     (\<lambda>x. word_rotr 17 x XOR word_rotr 19 x XOR drop_bit 10 x) M
      in add_hashes hash
           (foldl (sha2_step (\<lambda>x. word_rotr 2 x XOR word_rotr 13 x XOR word_rotr 22 x)
                             (\<lambda>x. word_rotr 6 x XOR word_rotr 11 x XOR word_rotr 25 x) ((!) sha256_k) W) hash [0..<64]))"

definition sha512_compress :: "u64 sha_hash \<Rightarrow> bytes \<Rightarrow> u64 sha_hash" where
  "sha512_compress hash block =
     (let M = (\<lambda>t. be_val (take 8 (drop (8 * t) block)));
          W = sha2_W (\<lambda>x. word_rotr 1 x XOR word_rotr 8 x XOR drop_bit 7 x)
                     (\<lambda>x. word_rotr 19 x XOR word_rotr 61 x XOR drop_bit 6 x) M
      in add_hashes hash
           (foldl (sha2_step (\<lambda>x. word_rotr 28 x XOR word_rotr 34 x XOR word_rotr 39 x)
                             (\<lambda>x. word_rotr 14 x XOR word_rotr 18 x XOR word_rotr 41 x) ((!) sha512_k) W) hash [0..<80]))"

definition sha_words :: "'w sha_hash \<Rightarrow> 'w list" where
  "sha_words st = (case st of (a, b, c, d, e, f, g, h) \<Rightarrow> [a, b, c, d, e, f, g, h])"

definition sha_standard :: "SHA \<Rightarrow> bytes \<Rightarrow> bytes" where
  "sha_standard alg m =
     (case alg of
        SHA256 \<Rightarrow> concat (map (be_bytes 4) (sha_words (foldl sha256_compress sha256_init
          (cut 64 (padded 64 (be_bytes 8 (of_nat (8 * length m) :: 64 word)) m)))))
      | _ \<Rightarrow> concat (map (be_bytes 8) (take (if alg = SHA384 then 6 else 8) (sha_words
          (foldl sha512_compress (sha512_init (alg = SHA384))
            (cut 128 (padded 128 (be_bytes 16 (of_nat (8 * length m) :: 128 word)) m)))))))"

subsection \<open>MD5 (RFC 1321)\<close>

text \<open>The order in which the sixteen steps of each of the four rounds read the words of the block, as the
  RFC lists them.\<close>

definition md5_index :: "nat list" where
  "md5_index =
    [0, 1, 2, 3, 4, 5, 6, 7, 8, 9, 10, 11, 12, 13, 14, 15,
     1, 6, 11, 0, 5, 10, 15, 4, 9, 14, 3, 8, 13, 2, 7, 12,
     5, 8, 11, 14, 1, 4, 7, 10, 13, 0, 3, 6, 9, 12, 15, 2,
     0, 7, 14, 5, 12, 3, 10, 1, 8, 15, 6, 13, 4, 11, 2, 9]"

definition md5_F :: "nat \<Rightarrow> u32 \<Rightarrow> u32 \<Rightarrow> u32 \<Rightarrow> u32" where
  "md5_F i x y z =
     (if i < 16 then (x AND y) OR (NOT x AND z)
      else if i < 32 then (x AND z) OR (y AND NOT z)
      else if i < 48 then x XOR y XOR z
      else y XOR (x OR NOT z))"

definition md5_compress :: "md5_hash \<Rightarrow> bytes \<Rightarrow> md5_hash" where
  "md5_compress hash block =
     (let X = (\<lambda>k. be_val (rev (take 4 (drop (4 * k) block))));
          step = (\<lambda>(a, b, c, d) i.
            (d, b + word_rotl (md5_shift ! i) (a + md5_F i b c d + X (md5_index ! i) + md5_K ! i), b, c))
      in case (hash, foldl step hash [0..<64]) of
           ((h0, h1, h2, h3), (a, b, c, d)) \<Rightarrow> (h0 + a, h1 + b, h2 + c, h3 + d))"

definition md5_standard :: "bytes \<Rightarrow> bytes" where
  "md5_standard m =
     (case foldl md5_compress md5_init (cut 64 (padded 64 (rev (be_bytes 8 (of_nat (8 * length m) :: 64 word))) m)) of
        (a, b, c, d) \<Rightarrow> concat (map (\<lambda>w. rev (be_bytes 4 w)) [a, b, c, d]))"

section \<open>The code computes the standards\<close>

text \<open>A step of the message schedule appends the next word.\<close>

lemma schedule:
  assumes ext: "\<And>w i. 16 \<le> i \<Longrightarrow> ext w i = w @ [w ! (i - 16) + s0 (w ! (i - 15)) + w ! (i - 7) + s1 (w ! (i - 2))]"
    and start: "length ws = 16" "\<And>t. t < 16 \<Longrightarrow> ws ! t = M t"
  shows "16 \<le> n \<Longrightarrow> length (foldl ext ws [16..<n]) = n \<and> (\<forall>t < n. foldl ext ws [16..<n] ! t = sha2_W s0 s1 M t)"
proof (induction n rule: dec_induct)
  case base
  then show ?case using start by (simp add: sha2_W.simps)
next
  case (step n)
  define w where "w = foldl ext ws [16..<n]"
  have len: "length w = n" and w: "\<And>t. t < n \<Longrightarrow> w ! t = sha2_W s0 s1 M t"
    using step.IH by (simp_all add: w_def)
  have "foldl ext ws [16..<Suc n] = w @ [w ! (n - 16) + s0 (w ! (n - 15)) + w ! (n - 7) + s1 (w ! (n - 2))]"
    using step.hyps by (simp add: w_def ext)
  also have "\<dots> = w @ [sha2_W s0 s1 M n]"
    using step.hyps w by (subst sha2_W.simps [of _ _ _ n]) (simp add: ac_simps)
  finally show ?case using len w by (auto simp: nth_append less_Suc_eq)
qed

lemma foldl_steps:
  assumes "\<And>st i. i \<in> set is \<Longrightarrow> f st i = g st i"
  shows "foldl f st is = foldl g st is"
  using assms by (intro foldl_cong) auto

lemma ucast_up_down: "(ucast (ucast y :: u64) :: u32) = y"
  by (rule bit_word_eqI) (auto simp: bit_simps)

lemma sha256_schedule:
  assumes "length data = 64" "t < 64"
  shows "foldl sha256_extend (sha256_words data) [16..<64] ! t =
    sha2_W (\<lambda>x. word_rotr 7 x XOR word_rotr 18 x XOR drop_bit 3 x) (\<lambda>x. word_rotr 17 x XOR word_rotr 19 x XOR drop_bit 10 x) (\<lambda>t. be_val (take 4 (drop (4 * t) data))) t"
proof -
  have "length (foldl sha256_extend (sha256_words data) [16..<64]) = 64 \<and>
    (\<forall>t < 64. foldl sha256_extend (sha256_words data) [16..<64] ! t =
      sha2_W (\<lambda>x. word_rotr 7 x XOR word_rotr 18 x XOR drop_bit 3 x) (\<lambda>x. word_rotr 17 x XOR word_rotr 19 x XOR drop_bit 10 x) (\<lambda>t. be_val (take 4 (drop (4 * t) data))) t)"
  proof (rule schedule)
    show "sha256_extend w i = w @ [w ! (i - 16) + (\<lambda>x. word_rotr 7 x XOR word_rotr 18 x XOR drop_bit 3 x) (w ! (i - 15)) + w ! (i - 7) + (\<lambda>x. word_rotr 17 x XOR word_rotr 19 x XOR drop_bit 10 x) (w ! (i - 2))]"
      for w i by (simp add: sha256_extend_def Let_def unsigned_xor_eq ucast_up_down sha256_rr and_all32)
    show "length (sha256_words data) = 16" by (simp add: sha256_words_def)
    show "sha256_words data ! t = be_val (take 4 (drop (4 * t) data))" if "t < 16" for t
      using assms(1) that by (rule sha256_words_nth)
  qed simp
  then show ?thesis using assms(2) by blast
qed

lemma sha256_round_standard:
  "w ! i = W i \<Longrightarrow> sha256_round w st i = sha2_step (\<lambda>x. word_rotr 2 x XOR word_rotr 13 x XOR word_rotr 22 x) (\<lambda>x. word_rotr 6 x XOR word_rotr 11 x XOR word_rotr 25 x) ((!) sha256_k) W st i"
  by (simp add: sha256_round_def sha2_step_def Let_def Ch_def Maj_def ucast_add32 unsigned_xor_eq ucast_up_down sha256_rr choose_eq majority_eq split: prod.split)

lemma sha256_add64_standard:
  assumes "length data = 64"
  shows "sha256_add64 hash data = sha256_compress hash data"
  unfolding sha256_add64_def sha256_compress_def Let_def
  by (intro arg_cong [where f = "add_hashes hash"] foldl_steps sha256_round_standard sha256_schedule assms)
    (simp only: set_upt atLeastLessThan_iff)

lemma sha512_schedule:
  assumes "length data = 128" "t < 80"
  shows "foldl sha512_extend (sha512_words data) [16..<80] ! t =
    sha2_W (\<lambda>x. word_rotr 1 x XOR word_rotr 8 x XOR drop_bit 7 x) (\<lambda>x. word_rotr 19 x XOR word_rotr 61 x XOR drop_bit 6 x) (\<lambda>t. be_val (take 8 (drop (8 * t) data))) t"
proof -
  have "length (foldl sha512_extend (sha512_words data) [16..<80]) = 80 \<and>
    (\<forall>t < 80. foldl sha512_extend (sha512_words data) [16..<80] ! t =
      sha2_W (\<lambda>x. word_rotr 1 x XOR word_rotr 8 x XOR drop_bit 7 x) (\<lambda>x. word_rotr 19 x XOR word_rotr 61 x XOR drop_bit 6 x) (\<lambda>t. be_val (take 8 (drop (8 * t) data))) t)"
  proof (rule schedule)
    show "sha512_extend w i = w @ [w ! (i - 16) + (\<lambda>x. word_rotr 1 x XOR word_rotr 8 x XOR drop_bit 7 x) (w ! (i - 15)) + w ! (i - 7) + (\<lambda>x. word_rotr 19 x XOR word_rotr 61 x XOR drop_bit 6 x) (w ! (i - 2))]"
      for w i by (simp add: sha512_extend_def Let_def sha512_rr)
    show "length (sha512_words data) = 16" by (simp add: sha512_words_def)
    show "sha512_words data ! t = be_val (take 8 (drop (8 * t) data))" if "t < 16" for t
      using assms(1) that by (rule sha512_words_nth)
  qed simp
  then show ?thesis using assms(2) by blast
qed

lemma sha512_round_standard:
  "w ! i = W i \<Longrightarrow> sha512_round w st i = sha2_step (\<lambda>x. word_rotr 28 x XOR word_rotr 34 x XOR word_rotr 39 x) (\<lambda>x. word_rotr 14 x XOR word_rotr 18 x XOR word_rotr 41 x) ((!) sha512_k) W st i"
  by (simp add: sha512_round_def sha2_step_def Let_def Ch_def Maj_def sha512_rr split: prod.split)

lemma sha512_add128_standard:
  assumes "length data = 128"
  shows "sha512_add128 hash data = sha512_compress hash data"
  unfolding sha512_add128_def sha512_compress_def Let_def
  by (intro arg_cong [where f = "add_hashes hash"] foldl_steps sha512_round_standard sha512_schedule assms)
    (simp only: set_upt atLeastLessThan_iff)

lemma md5_tables:
  "\<forall>i < 64. md5_index ! i = (if i < 16 then i else if i < 32 then (5 * i + 1) mod 16
     else if i < 48 then (3 * i + 5) mod 16 else (7 * i) mod 16)"
  "\<forall>i < 64. 0 < md5_shift ! i \<and> md5_shift ! i < 32"
  by code_simp+

lemma md5_add64_standard:
  assumes "length data = 64"
  shows "md5_add64 hash data = md5_compress hash data"
proof -
  let ?X = "\<lambda>k. be_val (rev (take 4 (drop (4 * k) data))) :: u32"
  let ?step = "\<lambda>(a, b, c, d) i.
    (d, b + word_rotl (md5_shift ! i) (a + md5_F i b c d + ?X (md5_index ! i) + md5_K ! i), b, c)"
  have "md5_round (md5_words data) st i = ?step st i" if i: "i \<in> set [0..<64]" for st i
  proof -
    have s: "0 < md5_shift ! i" "md5_shift ! i < 32"
      and g: "md5_index ! i = (if i < 16 then i else if i < 32 then (5 * i + 1) mod 16
        else if i < 48 then (3 * i + 5) mod 16 else (7 * i) mod 16)"
      using md5_tables i by auto
    have X: "?X (md5_index ! i) = md5_words data ! (md5_index ! i)"
      by (rule md5_words_nth [symmetric]) (use assms g in auto)
    obtain a b c d where st: "st = (a, b, c, d)" by (cases st)
    have "?step st i = (d, b + word_rotl (md5_shift ! i) (a + md5_F i b c d + md5_words data ! (md5_index ! i) + md5_K ! i), b, c)"
      by (simp only: st prod.case X)
    also have "\<dots> = md5_round (md5_words data) st i"
      by (simp add: st g md5_round_def md5_F_def Let_def md5_rotl [OF s] ac_simps)
    finally show ?thesis by simp
  qed
  then have "foldl (md5_round (md5_words data)) hash [0..<64] = foldl ?step hash [0..<64]"
    by (rule foldl_steps)
  then show ?thesis by (simp add: md5_add64_def md5_compress_def Let_def)
qed

lemma cut_lengths: "x \<in> set (cut n m) \<Longrightarrow> length x = n"
proof (induction n m rule: cut.induct)
  case (1 n m)
  then show ?case using cut.simps [of n m] by (auto split: if_splits)
qed

lemma digest_standard:
  assumes blocks: "add_blocks add n h m = (h', rest)" and len: "length len_bytes < n"
    and add: "\<And>h data. length data = n \<Longrightarrow> add h data = compress h data"
  shows "last_blocks add n h' rest len_bytes = foldl compress h (cut n (padded n len_bytes m))"
proof -
  have "foldl add h (cut n (padded n len_bytes m)) = foldl compress h (cut n (padded n len_bytes m))"
    by (rule foldl_steps) (auto dest: cut_lengths simp: add)
  then show ?thesis using digest_blocks [OF len blocks] by simp
qed

lemma bit_length_64: "push_bit 3 (of_nat n :: u64) = of_nat (8 * n)"
  by (simp add: push_bit_eq_mult)

lemma shifted_out:
  fixes v :: u64
  assumes "unat v < 2 ^ 54" "54 \<le> k"
  shows "drop_bit k v = 0"
proof -
  have "(2 :: nat) ^ 54 \<le> 2 ^ k" using assms(2) by (intro power_increasing) simp_all
  then have "unat v < 2 ^ k" using assms(1) by (rule order.strict_trans2 [rotated])
  then have "unat (drop_bit k v) = 0" by (subst unat_drop_bit_eq) (simp add: drop_bit_eq_div)
  then show ?thesis by (simp add: unat_eq_zero)
qed

lemma unat_of_nat_below: "m < b \<Longrightarrow> unat (of_nat m :: 'a::len word) < b"
  by (metis mod_less_eq_dividend order.strict_trans1 unat_of_nat)

lemma unat_bit_length: "n < 2 ^ 51 \<Longrightarrow> unat (of_nat (8 * n) :: u64) < 2 ^ 54"
  by (rule unat_of_nat_below) simp

lemma sha256_length_eq: "n < 2 ^ 51 \<Longrightarrow> sha256_length n = be_bytes 8 (of_nat (8 * n) :: u64)"
  using shifted_out [OF unat_bit_length [of n], of 54] shifted_out [OF unat_bit_length [of n], of 56]
  by (simp only: sha256_length_def be_bytes_def bit_length_64 upt_4_8 Let_def) simp

lemma md5_length_eq: "n < 2 ^ 51 \<Longrightarrow> md5_length n = rev (be_bytes 8 (of_nat (8 * n) :: u64))"
  using shifted_out [OF unat_bit_length [of n], of 54] shifted_out [OF unat_bit_length [of n], of 56]
  by (simp only: md5_length_def be_bytes_def bit_length_64 upt_4_8 Let_def) simp

lemma be_bytes_add: "be_bytes (a + b) v = be_bytes a (drop_bit (8 * b) v) @ be_bytes b v"
proof -
  have "[0..<a + b] = [0..<b] @ map (\<lambda>i. i + b) [0..<a]" using upt_add_eq_append [of 0 b a] map_add_upt [of b a] by (simp add: add.commute)
  then show ?thesis by (simp add: be_bytes_def comp_def drop_bit_drop_bit ac_simps distrib_left)
qed

lemma be_bytes_of_nat: "be_bytes 8 (of_nat m :: 128 word) = be_bytes 8 (of_nat m :: u64)"
  by (simp add: be_bytes_def) (auto intro!: bit_word_eqI simp: bit_simps)

lemma sha512_length_eq:
  assumes "n < 2 ^ 61"
  shows "sha512_length n = be_bytes 16 (of_nat (8 * n) :: 128 word)"
proof -
  let ?v = "of_nat (8 * n) :: 128 word"
  have "unat ?v < 2 ^ 64" by (rule unat_of_nat_below) (use assms in simp)
  then have "unat (drop_bit 64 ?v) = 0" by (subst unat_drop_bit_eq) (simp add: drop_bit_eq_div)
  then have high: "drop_bit 64 ?v = 0" by (simp add: unat_eq_zero)
  have low: "be_bytes 8 ?v = be_bytes 8 (of_nat (8 * n) :: u64)" by (rule be_bytes_of_nat)
  have "be_bytes 16 ?v = be_bytes 8 (drop_bit 64 ?v) @ be_bytes 8 ?v"
    using be_bytes_add [of 8 8 ?v] by simp
  also have "\<dots> = be_bytes 8 (0 :: u64) @ be_bytes 8 (of_nat (8 * n) :: u64)" using high low by (simp add: be_bytes_def)
  finally show ?thesis by (simp add: sha512_length_def be_bytes_def upt_4_8 Let_def mult.commute)
qed

subsection \<open>The digests\<close>

lemma sha256bin_standard:
  assumes "length m < 2 ^ 51"
  shows "sha256bin m = sha_standard SHA256 m"
proof -
  obtain h' rest where blocks: "add_blocks sha256_add64 64 sha256_init m = (h', rest)" by fastforce
  have "last_blocks sha256_add64 64 h' rest (sha256_length (length m)) =
      foldl sha256_compress sha256_init (cut 64 (padded 64 (sha256_length (length m)) m))"
    by (rule digest_standard [OF blocks]) (simp_all add: sha256_length_eq [OF assms] sha256_add64_standard)
  then show ?thesis
    by (simp add: sha256bin_def sha_standard_def blocks sha256_length_eq [OF assms] sha256_output_def sha_words_def
        del: of_nat_mult split: prod.split)
qed

lemma sha512bin_is_standard:
  assumes "length m < 2 ^ 61" "alg \<noteq> SHA256"
  shows "sha512bin_is m (alg = SHA384) = sha_standard alg m"
proof -
  obtain h' rest where blocks: "add_blocks sha512_add128 128 (sha512_init (alg = SHA384)) m = (h', rest)" by fastforce
  have "last_blocks sha512_add128 128 h' rest (sha512_length (length m)) =
      foldl sha512_compress (sha512_init (alg = SHA384)) (cut 128 (padded 128 (sha512_length (length m)) m))"
    by (rule digest_standard [OF blocks]) (simp_all add: sha512_length_eq [OF assms(1)] sha512_add128_standard)
  moreover have be8: "map (\<lambda>j. ucast (drop_bit (56 - j * 8) x)) [0..<8] = be_bytes 8 x" for x :: u64
    by (simp add: be_bytes_def upt_4_8)
  ultimately have "sha512bin_is m (alg = SHA384) = sha512_output (alg = SHA384) (foldl sha512_compress (sha512_init (alg = SHA384))
      (cut 128 (padded 128 (be_bytes 16 (of_nat (8 * length m) :: 128 word)) m)))"
    by (simp add: sha512bin_is_def blocks sha512_length_eq [OF assms(1)] del: of_nat_mult)
  then show ?thesis using assms(2) be8
    by (cases alg) (simp_all add: sha_standard_def sha512_output_def sha_words_def del: of_nat_mult split: prod.split)
qed

lemma md5bin_standard:
  assumes "length m < 2 ^ 51"
  shows "md5bin m = md5_standard m"
proof -
  obtain h' rest where blocks: "add_blocks md5_add64 64 md5_init m = (h', rest)" by fastforce
  have "last_blocks md5_add64 64 h' rest (md5_length (length m)) =
      foldl md5_compress md5_init (cut 64 (padded 64 (md5_length (length m)) m))"
    by (rule digest_standard [OF blocks]) (simp_all add: md5_length_eq [OF assms] md5_add64_standard)
  then show ?thesis
    by (simp add: md5bin_def md5_standard_def blocks md5_length_eq [OF assms] md5_output_def del: of_nat_mult
        split: prod.split)
qed

lemma shabin_standard_all: "length m < 2 ^ 51 \<Longrightarrow> shabin m alg = sha_standard alg m"
  using sha512bin_is_standard [of m alg] sha256bin_standard [of m]
  by (cases alg) (simp_all add: shabin_def sha384bin_def sha512bin_def)

lemma length_concat_be: "length (concat (map (be_bytes k) ws)) = k * length ws"
  by (induction ws) simp_all

lemma length_shabin: "length (shabin m alg) = sha_bytes alg"
  by (cases alg)
    (simp_all add: shabin_def sha256bin_def sha384bin_def sha512bin_def sha512bin_is_def sha256_output_def
      sha512_output_def length_concat comp_def sha_bytes_def split: prod.split)

section \<open>Keyed digests (RFC 2104)\<close>

text \<open>The key is digested if it is longer than a block and filled with zeroes to a block; each of its bytes
  is combined with the byte of the inner or the outer padding.\<close>

definition hmac_standard :: "(bytes \<Rightarrow> bytes) \<Rightarrow> nat \<Rightarrow> bytes \<Rightarrow> bytes \<Rightarrow> bytes" where
  "hmac_standard H B K text =
     (let K0 = take B ((if length K > B then H K else K) @ replicate B 0);
          pad = (\<lambda>x. map2 (XOR) K0 (replicate B x))
      in H (pad 0x5c @ H (pad 0x36 @ text)))"

locale digest =
  fixes H :: "bytes \<Rightarrow> bytes" and size_of :: nat and block :: nat
  assumes out: "length (H m) = size_of"
    and fits: "size_of \<le> block"
begin

lemma key_length: "length (hmac_key K size_of H block) = block"
  using out [of K] fits by (simp add: hmac_key_def)

lemma key_eq: "hmac_key K size_of H block = take block ((if length K > block then H K else K) @ replicate block 0)"
  using out [of K] fits by (simp add: hmac_key_def)

lemma standard: "hmacbin msg K size_of H block = hmac_standard H block K msg"
proof -
  have "map2 (XOR) K0 (replicate (length K0) x) = map (\<lambda>c. c XOR x) K0" for K0 :: bytes and x
    by (induction K0) simp_all
  then have "map2 (XOR) (hmac_key K size_of H block) (replicate block x) = map (\<lambda>c. c XOR x) (hmac_key K size_of H block)" for x
    using key_length by metis
  then show ?thesis by (simp only: hmacbin_def hmac_standard_def Let_def key_eq [symmetric])
qed

lemma length_mac: "length (hmacbin msg K size_of H block) = size_of"
  by (simp add: hmacbin_def Let_def out)

lemma long_key: "block < length K \<Longrightarrow> hmacbin msg K size_of H block = hmacbin msg (H K) size_of H block"
  using out [of K] fits by (simp add: hmacbin_def hmac_key_def)

lemma zero_key: "length K < block \<Longrightarrow> hmacbin msg (K @ [0]) size_of H block = hmacbin msg K size_of H block"
proof -
  assume "length K < block"
  then have "replicate (block - length K) (0 :: byte) = 0 # replicate (block - Suc (length K)) 0"
    by (metis Suc_diff_Suc replicate_Suc)
  then show ?thesis using \<open>length K < block\<close> by (simp add: hmacbin_def hmac_key_def)
qed

end

interpretation mac256: digest sha256bin 32 64
  using length_shabin [of _ SHA256] by unfold_locales (simp_all add: shabin_def sha_bytes_def)

interpretation mac384: digest sha384bin 48 128
  using length_shabin [of _ SHA384] by unfold_locales (simp_all add: shabin_def sha_bytes_def)

interpretation mac512: digest sha512bin 64 128
  using length_shabin [of _ SHA512] by unfold_locales (simp_all add: shabin_def sha_bytes_def)

definition sha_block :: "SHA \<Rightarrow> nat" where
  "sha_block alg = (case alg of SHA256 \<Rightarrow> 64 | _ \<Rightarrow> 128)"

lemma hmac_shabin_mac: "hmac_shabin msg key alg = hmac_standard (\<lambda>m. shabin m alg) (sha_block alg) key msg"
  using mac256.standard mac384.standard mac512.standard
  by (cases alg) (simp_all add: hmac_shabin_def sha_block_def shabin_def fun_eq_iff)

lemma length_hmac_shabin: "length (hmac_shabin msg key alg) = sha_bytes alg"
  by (cases alg) (simp_all add: hmac_shabin_def mac256.length_mac mac384.length_mac mac512.length_mac sha_bytes_def)

lemma hmac_standard_cong:
  assumes H: "\<And>m. length m < N \<Longrightarrow> H m = H' m" and out: "\<And>m. length (H m) \<le> B"
    and len: "length K < N" "B + length text < N" "2 * B < N"
  shows "hmac_standard H B K text = hmac_standard H' B K text"
proof -
  have K: "H K = H' K" using H len by simp
  let ?K0 = "take B ((if length K > B then H K else K) @ replicate B 0)"
  have pad: "length (map2 (XOR) ?K0 (replicate B x)) = B" for x by simp
  have inner: "H (map2 (XOR) ?K0 (replicate B x) @ text) = H' (map2 (XOR) ?K0 (replicate B x) @ text)" for x
    by (rule H) (simp only: length_append pad len)
  have outer: "H (map2 (XOR) ?K0 (replicate B x) @ H m) = H' (map2 (XOR) ?K0 (replicate B x) @ H m)" for x m
    using out [of m] len by (intro H) (simp only: length_append pad)
  show ?thesis unfolding hmac_standard_def Let_def by (simp only: K [symmetric] inner [symmetric] outer [symmetric])
qed

lemma hmac_shabin_standard:
  assumes "length key < 2 ^ 51" "length msg + 128 < 2 ^ 51"
  shows "hmac_shabin msg key alg = hmac_standard (sha_standard alg) (sha_block alg) key msg"
  unfolding hmac_shabin_mac
  by (rule hmac_standard_cong [where N = "2 ^ 51"])
    (use assms in \<open>simp_all add: shabin_standard_all length_shabin sha_bytes_def sha_block_def split: SHA.splits\<close>)

section \<open>Properties\<close>

text \<open>C16: \<open>shabin\<close> computes the digests of FIPS 180-4: with the input processed block by block in place and its
  end in a buffer, the bits rotated by shifts of wider words and the functions of the rounds rearranged, the
  result is that of padding the whole message, cutting it into blocks and applying the standard's
  compression function to each. It has as many bytes as the algorithm's number of bits says.\<close>

theorem shabin_standard:
  assumes "length m < 2 ^ 51"
  shows "shabin m alg = sha_standard alg m \<and> length (shabin m alg) = sha_bytes alg"
  by (intro conjI shabin_standard_all assms length_shabin)

theorem shabin_standard_witness:
  "shabin (replicate 200 7) SHA384 = sha_standard SHA384 (replicate 200 7) \<and>
   length (shabin (replicate 200 7) SHA384) = sha_bytes SHA384"
  by (rule shabin_standard) (simp only: length_replicate, simp)

text \<open>\<open>md5\<close> gives the hexadecimal digits of the digest of RFC 1321.\<close>

theorem md5_digest:
  assumes "length m < 2 ^ 51"
  shows "md5 m = stream_hex (md5_standard m)"
  by (simp only: md5_def md5bin_standard [OF assms])

theorem md5_digest_witness: "md5 (str ''abc'') = stream_hex (md5_standard (str ''abc''))"
  by (rule md5_digest) (simp add: length_str)

text \<open>C27: If the member \<open>k\<close> of a key object (a JSON Web Key) is the base64 text of a key of less than 2 to the
  power of 51 bytes, in either alphabet, then \<open>digest_hmac\<close> gives the base64url text of the keyed digest of
  RFC 2104 under that key.\<close>

theorem digest_hmac_standard:
  assumes "asStringRef (const_member jkey (str ''k'')) = Base64_encode key u"
    and "length key < 2 ^ 51" "length msg + 128 < 2 ^ 51"
  shows "digest_hmac msg jkey alg = Base64_encode (hmac_standard (sha_standard alg) (sha_block alg) key msg) True"
  using hmac_shabin_standard [OF assms(2,3), of alg] length_hmac_shabin [of msg key alg]
  by (simp add: digest_hmac_def assms(1) b64_roundtrip Let_def)

theorem digest_hmac_standard_witness:
  "digest_hmac (str ''msg'') (Value OBJECT 0 [] 0 dbl_1 [] [(str ''k'', set_string (Base64_encode (replicate 200 1) True))]) SHA256 =
   Base64_encode (hmac_standard (sha_standard SHA256) (sha_block SHA256) (replicate 200 1) (str ''msg'')) True"
proof (rule digest_hmac_standard)
  show "asStringRef (const_member (Value OBJECT 0 [] 0 dbl_1 [] [(str ''k'', set_string (Base64_encode (replicate 200 1) True))]) (str ''k'')) =
    Base64_encode (replicate 200 1) True"
    by (simp add: const_member_def asStringRef_def set_string_def)
qed (simp_all add: length_str)

text \<open>The most significant byte of the length is cut out two bits too low: from a length of 2 to the power of 51 bytes on
  MD5 and SHA-256 are not those of the standards.\<close>

theorem sha256_length_top: "sha256_length (2 ^ 51) \<noteq> be_bytes 8 (of_nat (8 * 2 ^ 51) :: u64)"
  by (simp add: sha256_length_def be_bytes_def upt_4_8 Let_def drop_bit_eq_div)

end
