(* ===== verification/Rtmp.thy ===== *)
theory Rtmp
  imports ByteBuffer Auth
begin

text \<open>
  The RTMP chunk stream (\<open>lib/rtmpchunks.cpp\<close>, \<open>lib/rtmpchunks.h\<close>): the sender \<open>Pack\<close> and
  the functions that fill a chunk for it, the receiver \<open>Parse\<close>, and the handshake. The globals of
  the namespace are the record \<open>rtmp\<close>. A \<open>ResizeablePointer\<close> is represented by its contents
  (\<open>ByteBuffer.sb_copy_ptr_total\<close> and \<open>sb_remove_ptr_total\<close> say when that is exact). The lengths
  and channel numbers, which never leave 32 bits in this code, are \<open>nat\<close>; timestamps are words.
  \<open>None\<close> is a read out of bounds or a loop that does not end; the time stamp of the last read
  (\<open>lastrec\<close>) and the log messages are left out.
\<close>

section \<open>State\<close>

record chunk =
  headertype :: byte
  cs_id :: nat
  timestamp :: u64
  ts_delta :: u32
  ts_header :: u64
  len :: nat
  real_len :: nat
  len_left :: nat
  msg_type_id :: byte
  msg_stream_id :: u32
  data :: bytes

definition Chunk :: chunk where
  "Chunk = \<lparr>headertype = 0, cs_id = 0, timestamp = 0, ts_delta = 0, ts_header = 0, len = 0,
     real_len = 0, len_left = 0, msg_type_id = 0, msg_stream_id = 0, data = []\<rparr>"

definition assignWithoutData :: "chunk \<Rightarrow> chunk \<Rightarrow> chunk" where
  "assignWithoutData c rhs = rhs\<lparr>data := data c\<rparr>"

record rtmp =
  lastsend :: "nat \<rightharpoonup> chunk"
  lastrecv :: "nat \<rightharpoonup> chunk"
  chunk_rec_max :: nat
  chunk_snd_max :: nat
  rec_window_at :: nat
  rec_cnt :: nat
  snd_cnt :: nat
  parseErr :: nat

definition rtmp_init :: rtmp where
  "rtmp_init = \<lparr>lastsend = Map.empty, lastrecv = Map.empty, chunk_rec_max = 128,
     chunk_snd_max = 128, rec_window_at = 0, rec_cnt = 0, snd_cnt = 0, parseErr = 0\<rparr>"

text \<open>\<open>m[k]\<close> on a \<open>std::map\<close>: a missing entry is default-constructed.\<close>

definition entry :: "(nat \<rightharpoonup> chunk) \<Rightarrow> nat \<Rightarrow> chunk" where
  "entry m k = (case m k of None \<Rightarrow> Chunk | Some c \<Rightarrow> c)"

section \<open>Sending\<close>

definition pack_chtype :: "bool \<Rightarrow> chunk \<Rightarrow> chunk \<Rightarrow> byte" where
  "pack_chtype allow_short prev ch =
     (if allow_short \<and> cs_id prev = cs_id ch then
        let chtype =
          (if msg_stream_id ch = msg_stream_id prev then
             if len ch = len prev then
               if msg_type_id ch = msg_type_id prev then
                 if timestamp ch - timestamp prev = ucast (ts_delta prev) then 0xC0 else 0x80
               else 0x40
             else 0x40
           else 0x00)
        in if timestamp ch < timestamp prev then 0x00 else chtype
      else 0x00)"

definition pack_basic :: "byte \<Rightarrow> nat \<Rightarrow> bytes" where
  "pack_basic chtype cs =
     (if cs \<le> 63 then [chtype OR of_nat cs]
      else if cs \<le> 255 + 64 then [chtype OR 0, of_nat (cs - 64)]
      else [chtype OR 1, of_nat ((cs - 64) mod 256), of_nat ((cs - 64) div 256)])"

text \<open>The header of a continuation piece.\<close>

definition cont_basic :: "nat \<Rightarrow> bytes" where
  "cont_basic cs =
     (if cs \<le> 63 then [0xC0 + of_nat cs]
      else if cs \<le> 255 + 64 then [0xC0, of_nat (cs - 64)]
      else [0xC1, of_nat ((cs - 64) mod 256), of_nat ((cs - 64) div 256)])"

definition out24 :: "u64 \<Rightarrow> bytes" where
  "out24 t = [ucast (drop_bit 16 t AND 0xff), ucast (drop_bit 8 t AND 0xff), ucast (t AND 0xff)]"

definition out32 :: "u64 \<Rightarrow> bytes" where
  "out32 t = [ucast (drop_bit 24 t AND 0xff), ucast (drop_bit 16 t AND 0xff),
              ucast (drop_bit 8 t AND 0xff), ucast (t AND 0xff)]"

definition out_stream_id :: "u32 \<Rightarrow> bytes" where
  "out_stream_id s = [ucast (s mod 256), ucast (s div 256), ucast (s div (256 * 256)),
                      ucast (s div (256 * 256 * 256))]"

text \<open>The message header: its bytes, the extended timestamp (0 for none) and the chunk with
  \<open>ts_delta\<close> and \<open>ts_header\<close> set. A type \<open>0xC0\<close> header leaves \<open>ts_delta\<close> as it was.\<close>

definition pack_header :: "byte \<Rightarrow> chunk \<Rightarrow> chunk \<Rightarrow> bytes \<times> u64 \<times> chunk" where
  "pack_header chtype prev ch =
     (if chtype \<noteq> 0xC0 then
        let tmpi = (if chtype = 0x00 then timestamp ch else timestamp ch - timestamp prev);
            ch = ch\<lparr>ts_delta := ucast tmpi\<rparr>;
            ntime = (if tmpi \<ge> 0x00ffffff then tmpi else 0);
            tmpi = (if tmpi \<ge> 0x00ffffff then 0x00ffffff else tmpi);
            ch = ch\<lparr>ts_header := tmpi\<rparr>
        in (out24 tmpi @
            (if chtype \<noteq> 0x80 then
               out24 (of_nat (len ch)) @ [msg_type_id ch] @
               (if chtype \<noteq> 0x40 then out_stream_id (msg_stream_id ch) else [])
             else []),
            ntime, ch)
      else
        let ch = ch\<lparr>ts_header := ts_header prev\<rparr>
        in ([], if ts_header ch = 0xffffff then timestamp ch else 0, ch))"

text \<open>The payload, cut into pieces of at most \<open>chunk_snd_max\<close> bytes. A maximum of 0 would loop
  for ever.\<close>

function pack_body :: "nat \<Rightarrow> nat \<Rightarrow> u64 \<Rightarrow> bytes \<Rightarrow> nat \<Rightarrow> nat \<Rightarrow> bytes option" where
  "pack_body mx cs ntime d l left =
     (if left < l then
        if mx = 0 then None
        else
          let tmpi = (if l - left > mx then mx else l - left) in
          do { piece \<leftarrow> rdn d left tmpi;
               more \<leftarrow> pack_body mx cs ntime d l (left + tmpi);
               Some (piece @
                 (if left + tmpi < l
                  then cont_basic cs @ (if ntime \<noteq> 0 then out32 ntime else []) else []) @
                 more) }
      else Some [])"
  by pat_completeness auto
termination
  by (relation "measure (\<lambda>(mx, cs, nt, d, l, left). l - left)") auto

declare pack_body.simps [simp del]

definition Pack :: "rtmp \<Rightarrow> chunk \<Rightarrow> (bytes \<times> chunk \<times> rtmp) option" where
  "Pack st ch =
     (let allow_short = (lastsend st (cs_id ch) \<noteq> None);
          prev = entry (lastsend st) (cs_id ch);
          chtype = pack_chtype allow_short prev ch;
          (hdr, ntime, ch) = pack_header chtype prev ch
      in do { body \<leftarrow> pack_body (chunk_snd_max st) (cs_id ch) ntime (data ch) (len ch) 0;
              let output = pack_basic chtype (cs_id ch) @ hdr @
                    (if ntime \<noteq> 0 then out32 ntime else []) @ body;
                  ch = ch\<lparr>len_left := len ch\<rparr>
              in Some (output, ch,
                   st\<lparr>lastsend := (lastsend st)(cs_id ch \<mapsto> ch),
                      snd_cnt := (snd_cnt st + length output) mod 2 ^ 64\<rparr>) })"

text \<open>
  The senders fill a static chunk, which keeps the fields they do not set (\<open>ts_delta\<close> among
  them) from call to call: it is an argument and part of the result. \<open>SendMedia\<close> for an FLV tag
  gets the tag's bytes, its length and its time.
\<close>

definition SendChunk ::
  "rtmp \<Rightarrow> chunk \<Rightarrow> nat \<Rightarrow> byte \<Rightarrow> u32 \<Rightarrow> bytes \<Rightarrow> (bytes \<times> chunk \<times> rtmp) option" where
  "SendChunk st ch cs type_id stream_id d =
     Pack st (ch\<lparr>cs_id := cs, timestamp := 0, len := length d, real_len := length d, len_left := 0,
       msg_type_id := type_id, msg_stream_id := stream_id, data := d\<rparr>)"

definition SendMedia ::
  "rtmp \<Rightarrow> chunk \<Rightarrow> byte \<Rightarrow> bytes \<Rightarrow> u32 \<Rightarrow> (bytes \<times> chunk \<times> rtmp) option" where
  "SendMedia st ch type_id d ts =
     Pack st (ch\<lparr>cs_id := unat type_id + 42, timestamp := ucast ts, len := length d,
       real_len := length d, len_left := 0, msg_type_id := type_id, msg_stream_id := 1, data := d\<rparr>)"

definition SendMedia_tag ::
  "rtmp \<Rightarrow> chunk \<Rightarrow> bytes \<Rightarrow> nat \<Rightarrow> u64 \<Rightarrow> (bytes \<times> chunk \<times> rtmp) option" where
  "SendMedia_tag st ch tag_data tag_len tagTime =
     do { type_id \<leftarrow> rd tag_data 0;
          d \<leftarrow> rdn tag_data 11 (tag_len - 15);
          Pack st (ch\<lparr>cs_id := 4, timestamp := tagTime, len_left := 0, msg_type_id := type_id,
            msg_stream_id := 1, data := d, len := length d, real_len := length d\<rparr>) }"

definition send_on_2 :: "rtmp \<Rightarrow> chunk \<Rightarrow> byte \<Rightarrow> bytes \<Rightarrow> (bytes \<times> chunk \<times> rtmp) option" where
  "send_on_2 st ch type_id d =
     Pack (st\<lparr>lastsend := (lastsend st)(2 := None)\<rparr>)
       (ch\<lparr>cs_id := 2, timestamp := 0, len := length d, real_len := length d, len_left := 0,
          msg_type_id := type_id, msg_stream_id := 0, data := d\<rparr>)"

definition SendCTL :: "rtmp \<Rightarrow> chunk \<Rightarrow> byte \<Rightarrow> u32 \<Rightarrow> (bytes \<times> chunk \<times> rtmp) option" where
  "SendCTL st ch type d =
     do { tmpData \<leftarrow> htobl [0, 0, 0, 0, 0] 0 d;
          send_on_2 st ch type (take (if type = 6 then 5 else 4) tmpData) }"

definition SendCTL2 ::
  "rtmp \<Rightarrow> chunk \<Rightarrow> byte \<Rightarrow> u32 \<Rightarrow> byte \<Rightarrow> (bytes \<times> chunk \<times> rtmp) option" where
  "SendCTL2 st ch type d data2 =
     do { tmpData \<leftarrow> htobl [0, 0, 0, 0, 0] 0 d;
          send_on_2 st ch type (tmpData[4 := data2]) }"

definition SendUSR :: "rtmp \<Rightarrow> chunk \<Rightarrow> byte \<Rightarrow> u32 \<Rightarrow> (bytes \<times> chunk \<times> rtmp) option" where
  "SendUSR st ch type d =
     do { tmpData \<leftarrow> htobl [0, type, 0, 0, 0, 0] 2 d;
          send_on_2 st ch 4 tmpData }"

definition SendUSR2 ::
  "rtmp \<Rightarrow> chunk \<Rightarrow> byte \<Rightarrow> u32 \<Rightarrow> u32 \<Rightarrow> (bytes \<times> chunk \<times> rtmp) option" where
  "SendUSR2 st ch type d data2 =
     do { tmpData \<leftarrow> htobl [0, type, 0, 0, 0, 0, 0, 0, 0, 0] 2 d;
          tmpData \<leftarrow> htobl tmpData 6 data2;
          send_on_2 st ch 4 tmpData }"

section \<open>Receiving\<close>

text \<open>The bytes that \<open>Socket::Buffer::copy\<close> appends to an empty \<open>ResizeablePointer\<close>
  (\<open>sb_peek_is_copy\<close> shows that they are those).\<close>

fun peek_loop :: "nat \<Rightarrow> nat \<Rightarrow> bytes list \<Rightarrow> bytes" where
  "peek_loop n i [] = []"
| "peek_loop n i (c # cs) =
     (let toAppend = (if n < i + length c then n - i else length c) in
      take toAppend c @ (if n \<le> i + toAppend then [] else peek_loop n (i + toAppend) cs))"

definition sb_peek :: "sbuf \<Rightarrow> nat \<Rightarrow> bytes" where
  "sb_peek b n = peek_loop n 0 (rev (chunks b))"

text \<open>The basic header: chunk type byte, channel number, bytes read.\<close>

definition parse_cs :: "bytes \<Rightarrow> (byte \<times> nat \<times> nat) option" where
  "parse_cs inData =
     do { chunktype \<leftarrow> rd inData 0;
          if chunktype AND 0x3F = 0 then
            do { b \<leftarrow> rd inData 1; Some (chunktype, unat b + 64, 2) }
          else if chunktype AND 0x3F = 1 then
            do { b \<leftarrow> rd inData 1; c \<leftarrow> rd inData 2;
                 Some (chunktype, unat b + 64 + unat c * 256, 3) }
          else Some (chunktype, unat (chunktype AND 0x3F), 1) }"

definition in24 :: "bytes \<Rightarrow> nat \<Rightarrow> u64 option" where
  "in24 inData i =
     do { a \<leftarrow> rd inData i; b \<leftarrow> rd inData (i + 1); c \<leftarrow> rd inData (i + 2);
          Some (push_bit 16 (ucast a) OR push_bit 8 (ucast b) OR ucast c) }"

definition in_stream_id :: "bytes \<Rightarrow> nat \<Rightarrow> u32 option" where
  "in_stream_id inData i =
     do { a \<leftarrow> rd inData i; b \<leftarrow> rd inData (i + 1); c \<leftarrow> rd inData (i + 2); d \<leftarrow> rd inData (i + 3);
          Some (ucast a OR push_bit 8 (ucast b) OR push_bit 16 (ucast c) OR push_bit 24 (ucast d)) }"

text \<open>Four bytes as the code reads them into a 64-bit timestamp: the first shift is done on an
  \<open>int\<close>, whose sign is extended.\<close>

definition in_ext :: "bytes \<Rightarrow> nat \<Rightarrow> u64 option" where
  "in_ext inData i =
     do { a \<leftarrow> rd inData i; b \<leftarrow> rd inData (i + 1); c \<leftarrow> rd inData (i + 2); d \<leftarrow> rd inData (i + 3);
          Some (scast (push_bit 24 (ucast a :: u32)) OR push_bit 16 (ucast b) OR
                push_bit 8 (ucast c) OR ucast d) }"

text \<open>The message header of each chunk type: \<open>None\<close> inside is "cannot read whole header".\<close>

definition parse_header ::
  "chunk \<Rightarrow> chunk \<Rightarrow> bytes \<Rightarrow> nat \<Rightarrow> (chunk \<times> nat) option option" where
  "parse_header prev ch inData i =
     (if headertype ch = 0x00 then
        if length inData < i + 11 then Some None
        else do {
          t \<leftarrow> in24 inData i; l \<leftarrow> in24 inData (i + 3); ty \<leftarrow> rd inData (i + 6);
          s \<leftarrow> in_stream_id inData (i + 7);
          Some (Some (ch\<lparr>timestamp := t, ts_delta := ucast t, ts_header := t, len := unat l,
            len_left := 0, msg_type_id := ty, msg_stream_id := s\<rparr>, i + 11)) }
      else if headertype ch = 0x40 then
        if length inData < i + 7 then Some None
        else do {
          t \<leftarrow> in24 inData i; l \<leftarrow> in24 inData (i + 3); ty \<leftarrow> rd inData (i + 6);
          Some (Some (ch\<lparr>timestamp := (if t \<noteq> 0x00ffffff then timestamp prev + t else t),
            ts_delta := (if t \<noteq> 0x00ffffff then ucast t else ts_delta ch), ts_header := t,
            len := unat l, len_left := 0, msg_type_id := ty,
            msg_stream_id := msg_stream_id prev\<rparr>, i + 7)) }
      else if headertype ch = 0x80 then
        if length inData < i + 3 then Some None
        else do {
          t \<leftarrow> in24 inData i;
          Some (Some (ch\<lparr>timestamp := (if t \<noteq> 0x00ffffff then timestamp prev + t else t),
            ts_delta := (if t \<noteq> 0x00ffffff then ucast t else ts_delta ch), ts_header := t,
            len := len prev, len_left := len_left prev, msg_type_id := msg_type_id prev,
            msg_stream_id := msg_stream_id prev\<rparr>, i + 3)) }
      else
        Some (Some (ch\<lparr>
          timestamp := (if len_left prev > 0 then timestamp prev
                        else timestamp prev + ucast (ts_delta prev)),
          ts_header := ts_header prev, ts_delta := ts_delta prev, len := len prev,
          len_left := len_left prev, msg_type_id := msg_type_id prev,
          msg_stream_id := msg_stream_id prev\<rparr>, i)))"

definition parse_lengths :: "nat \<Rightarrow> chunk \<Rightarrow> chunk" where
  "parse_lengths mx ch =
     (let ch = (if len_left ch > 0 then ch\<lparr>real_len := len_left ch, len_left := 0\<rparr>
                else ch\<lparr>real_len := len ch\<rparr>)
      in if real_len ch > mx
         then ch\<lparr>len_left := len_left ch + (real_len ch - mx), real_len := mx\<rparr> else ch)"

definition parse_ext :: "chunk \<Rightarrow> chunk \<Rightarrow> bytes \<Rightarrow> nat \<Rightarrow> (chunk \<times> nat) option option" where
  "parse_ext prev ch inData i =
     (if ts_header ch = 0x00ffffff then
        if length inData < i + 4 then Some None
        else do {
          t \<leftarrow> in_ext inData i;
          let d = (ucast t :: u32);
              t' = (if t > 0xFFFF8000 \<and> (timestamp prev AND 0xFFFFFFFF) < 0xFFFF0000
                    then timestamp prev + scast d else t)
          in Some (Some (ch\<lparr>timestamp := t', ts_delta := d\<rparr>, i + 4)) }
      else Some (Some (ch, i)))"

text \<open>Taking the payload off the buffer, once the headers are read: \<open>Some b\<close> is a \<open>return b\<close> of
  \<open>Parse\<close>, \<open>None\<close> goes round its loop again.\<close>

definition parse_payload ::
  "rtmp \<Rightarrow> nat \<Rightarrow> chunk \<Rightarrow> chunk \<Rightarrow> nat \<Rightarrow> sbuf \<Rightarrow> bool option \<times> chunk \<times> rtmp \<times> sbuf" where
  "parse_payload st cs prev ch i b =
     (let (ok, b) = sb_available b (i + real_len ch) in
      if \<not> ok then (Some False, ch, st, b)
      else
        let b = sb_skip b i;
            ch = ch\<lparr>data := []\<rparr>;
            (ch, prev) =
              (if real_len ch \<noteq> 0 \<and> len_left prev \<noteq> 0
               then (ch\<lparr>data := data prev\<rparr>, prev\<lparr>data := data ch\<rparr>) else (ch, prev));
            (d, b) = (if real_len ch \<noteq> 0 then sb_remove b (real_len ch) else ([], b));
            ch = ch\<lparr>data := data ch @ d\<rparr>;
            prev = assignWithoutData prev ch;
            (ch, prev) =
              (if len_left ch \<noteq> 0
               then (ch\<lparr>data := data prev\<rparr>, prev\<lparr>data := data ch\<rparr>) else (ch, prev));
            cnt = rec_cnt st + (i + real_len ch);
            st = st\<lparr>lastrecv := (lastrecv st)(cs \<mapsto> prev),
                    rec_cnt := (if cnt \<ge> 0xf0000000 then cnt - 0xf0000000 else cnt),
                    rec_window_at := (if cnt \<ge> 0xf0000000 then 0 else rec_window_at st)\<rparr>
        in (if real_len ch = 0 \<or> len_left ch = 0 then Some True else None, ch, st, b))"

text \<open>One round of the loop in \<open>Parse\<close>. The entry of the channel exists from the moment it is
  looked up; a short header of a channel without one counts as a parse error.\<close>

definition parse_step ::
  "rtmp \<Rightarrow> chunk \<Rightarrow> sbuf \<Rightarrow> (bool option \<times> chunk \<times> rtmp \<times> sbuf) option" where
  "parse_step st ch b =
     (let inData = sb_peek b 18 in
      if length inData < 3 then Some (Some False, ch, st, b)
      else do {
        (chunktype, cs, i) \<leftarrow> parse_cs inData;
        let ch = ch\<lparr>cs_id := cs, headertype := chunktype AND 0xC0\<rparr>;
        let allow_short = (lastrecv st cs \<noteq> None);
        let prev = entry (lastrecv st) cs;
        let st = st\<lparr>lastrecv := (lastrecv st)(cs \<mapsto> prev)\<rparr>;
        hdr \<leftarrow> parse_header prev ch inData i;
        (case hdr of
           None \<Rightarrow> Some (Some False, ch, st, b)
         | Some (ch, i) \<Rightarrow> do {
             let st = (if headertype ch \<noteq> 0 \<and> \<not> allow_short
                       then st\<lparr>parseErr := parseErr st + 1\<rparr> else st);
             let ch = parse_lengths (chunk_rec_max st) ch;
             ext \<leftarrow> parse_ext prev ch inData i;
             (case ext of
                None \<Rightarrow> Some (Some False, ch, st, b)
              | Some (ch, i) \<Rightarrow> Some (parse_payload st cs prev ch i b)) }) })"

lemma peek_loop_abs: "i \<le> n \<Longrightarrow> peek_loop n i cs = take (n - i) (concat cs)"
  by (induction cs arbitrary: i) (auto simp: Let_def)

lemma sb_peek_abs: "sb_peek b n = take n (sb_abs b)"
  by (simp add: sb_peek_def peek_loop_abs sb_abs_def)

lemma sb_peek_is_copy:
  assumes "alloc_total ra" "n < 2 ^ 32"
  shows "\<exists>r. sb_copy_ptr ra b rp_new n = Some (length (sb_peek b n), r) \<and> rp_abs r = sb_peek b n"
  using sb_copy_ptr_total [OF assms(1), of rp_new n b] assms(2)
  by (auto simp: sb_peek_abs rp_new_def rp_wf_def rp_abs_def)

lemma sb_available_nonempty: "fst (sb_available b n) \<Longrightarrow> sb_abs b \<noteq> []"
  using size_empty_iff [of b] by (auto simp: sb_available_def Let_def)

lemma remove_loop_length:
  "length (concat (snd (remove_loop n i r cs))) \<le> length (concat cs)"
  by (induction n i r cs rule: remove_loop.induct) (auto split: prod.splits)

lemma sb_remove_length: "length (sb_abs (snd (sb_remove b n))) \<le> length (sb_abs b)"
proof (cases "sb_available b n")
  case (Pair ok b1)
  then have abs: "sb_abs b1 = sb_abs b" using sb_available_abs [of b n] by simp
  obtain r cs where rl: "remove_loop n 0 [] (rev (chunks b1)) = (r, cs)" by fastforce
  have "length (concat cs) \<le> length (sb_abs b)"
    using remove_loop_length [of n 0 "[]" "rev (chunks b1)"] rl arg_cong [OF abs, of length]
    by (simp add: sb_abs_def)
  then show ?thesis
    using Pair rl abs by (cases ok) (auto simp: sb_remove_def sb_abs_def [of "b1\<lparr>chunks := rev cs\<rparr>"])
qed

lemma parse_cs_pos: "parse_cs d = Some (ct, cs, i) \<Longrightarrow> 0 < i"
  by (auto simp: parse_cs_def split: bind_splits if_splits)

lemma parse_header_mono: "parse_header prev ch d i = Some (Some (ch', i')) \<Longrightarrow> i \<le> i'"
  by (auto simp: parse_header_def split: bind_splits if_splits)

lemma parse_ext_mono: "parse_ext prev ch d i = Some (Some (ch', i')) \<Longrightarrow> i \<le> i'"
  by (auto simp: parse_ext_def Let_def split: bind_splits if_splits)

lemma parse_payload_shrinks:
  assumes "parse_payload st cs prev ch i b = (None, ch', st', b')" "0 < i"
  shows "length (sb_abs b') < length (sb_abs b)"
proof -
  obtain ok b1 where a: "sb_available b (i + real_len ch) = (ok, b1)" by fastforce
  have ok: ok using assms(1) a by (cases ok) (auto simp: parse_payload_def)
  have abs: "sb_abs b1 = sb_abs b" using sb_available_abs [of b "i + real_len ch"] a by simp
  have "sb_abs b \<noteq> []" using sb_available_nonempty [of b "i + real_len ch"] a ok by simp
  then have "length (sb_abs (sb_skip b1 i)) < length (sb_abs b)"
    using assms(2) abs by (cases "sb_abs b") (auto simp: sb_skip_abs)
  moreover have "length (sb_abs b') \<le> length (sb_abs (sb_skip b1 i))"
    using assms(1) a ok sb_remove_length [of "sb_skip b1 i" "real_len ch"]
    by (auto simp: parse_payload_def Let_def split: if_splits prod.splits)
  ultimately show ?thesis by simp
qed

lemma parse_step_shrinks:
  assumes "parse_step st ch b = Some (None, ch', st', b')"
  shows "length (sb_abs b') < length (sb_abs b)"
  using assms parse_payload_shrinks
  by (auto simp: parse_step_def Let_def split: bind_splits option.splits prod.splits if_splits
      dest!: parse_cs_pos parse_header_mono parse_ext_mono)

function Parse :: "rtmp \<Rightarrow> chunk \<Rightarrow> sbuf \<Rightarrow> (bool \<times> chunk \<times> rtmp \<times> sbuf) option" where
  "Parse st ch b =
     (case parse_step st ch b of
        None \<Rightarrow> None
      | Some (Some r, ch, st, b) \<Rightarrow> Some (r, ch, st, b)
      | Some (None, ch, st, b) \<Rightarrow> Parse st ch b)"
  by pat_completeness auto
termination
  by (relation "measure (\<lambda>(st, ch, b). length (sb_abs b))") (auto dest: parse_step_shrinks)

declare Parse.simps [simp del]

section \<open>The receiver stays inside the bytes it copied\<close>

lemma in24_None_iff: "in24 d i = None \<longleftrightarrow> length d < i + 3"
  by (auto simp: in24_def rd_def split: bind_splits)

lemma in_stream_id_None_iff: "in_stream_id d i = None \<longleftrightarrow> length d < i + 4"
  by (auto simp: in_stream_id_def rd_def split: bind_splits)

lemma in_ext_None_iff: "in_ext d i = None \<longleftrightarrow> length d < i + 4"
  by (auto simp: in_ext_def rd_def split: bind_splits)

lemma parse_cs_safe: "3 \<le> length d \<Longrightarrow> \<exists>ct cs i. parse_cs d = Some (ct, cs, i)"
  by (auto simp: parse_cs_def rd_def)

lemma parse_header_safe: "\<exists>r. parse_header prev ch d i = Some r"
  by (auto simp: parse_header_def in24_None_iff in_stream_id_None_iff rd_None_iff
      split: bind_splits simp flip: not_None_eq)

lemma parse_ext_safe: "\<exists>r. parse_ext prev ch d i = Some r"
  by (auto simp: parse_ext_def Let_def in_ext_None_iff split: bind_splits simp flip: not_None_eq)

lemma parse_step_safe: "parse_step st ch b \<noteq> None"
proof (cases "length (sb_peek b 18) < 3")
  case True
  then show ?thesis by (simp add: parse_step_def)
next
  case False
  then obtain ct cs i where pc: "parse_cs (sb_peek b 18) = Some (ct, cs, i)"
    using parse_cs_safe [of "sb_peek b 18"] by fastforce
  let ?prev = "entry (lastrecv st) cs"
  obtain h where ph:
    "parse_header ?prev (ch\<lparr>cs_id := cs, headertype := ct AND 0xC0\<rparr>) (sb_peek b 18) i = Some h"
    using parse_header_safe by blast
  show ?thesis
  proof (cases h)
    case None
    then show ?thesis using False pc ph by (simp add: parse_step_def Let_def)
  next
    case (Some p)
    obtain ch1 i1 where p: "p = (ch1, i1)" by (cases p)
    obtain e where pe:
      "parse_ext ?prev (parse_lengths (chunk_rec_max st) ch1) (sb_peek b 18) i1 = Some e"
      using parse_ext_safe by blast
    show ?thesis using False pc ph Some p pe
      by (cases e) (auto simp: parse_step_def Let_def simp del: not_None_eq split_paired_Ex)
  qed
qed

text \<open>C26: For any state and any received bytes, \<open>Parse\<close> returns: its loop ends, because every
  round takes at least the basic header off the buffer, and no header field is read beyond the
  bytes that were copied out of the buffer.\<close>

theorem Parse_returns: "Parse st ch b \<noteq> None"
proof (induction st ch b rule: Parse.induct)
  case (1 st ch b)
  obtain r ch' st' b' where s: "parse_step st ch b = Some (r, ch', st', b')"
    using parse_step_safe [of st ch b] by (metis not_Some_eq prod_cases4)
  then show ?case
    using "1.IH" [OF s refl _ refl refl] by (subst Parse.simps) (auto split: option.splits)
qed

section \<open>Writing and reading the header fields\<close>

lemma in24_eq: "in24 d i = map_option be_val (rdn d i 3)"
  using btoh24_eq by (simp add: in24_def btoh24_def)

lemma out24_eq: "out24 v = be_bytes 3 v"
  by (simp add: out24_def put_unfold)

lemma in24_out24: "length xs = i \<Longrightarrow> in24 (xs @ out24 v @ ys) i = Some (take_bit 24 v)"
  by (simp add: in24_eq out24_eq rdn_append_at be_val_be_bytes_take)

lemma out_stream_id_eq: "out_stream_id s = rev (be_bytes 4 s)"
proof -
  have "s div 256 = drop_bit 8 s" "s div 65536 = drop_bit 16 s" "s div 16777216 = drop_bit 24 s"
    "s mod 256 = take_bit 8 s"
    by (simp_all add: drop_bit_eq_div take_bit_eq_mod)
  moreover have "(ucast (take_bit 8 s) :: byte) = ucast s"
    by (rule bit_word_eqI) (auto simp: bit_simps)
  ultimately show ?thesis by (simp add: out_stream_id_def put_unfold)
qed

lemma in_stream_id_eq: "in_stream_id d i = map_option (\<lambda>bs. be_val (rev bs)) (rdn d i 4)"
  by (cases "rdn d i 4")
    (auto simp: in_stream_id_def get_unfold plus_numeral_Suc [of i] or.commute or.left_commute
      split: if_splits)

lemma in_out_stream_id:
  "length xs = i \<Longrightarrow> in_stream_id (xs @ out_stream_id s @ ys) i = Some s"
  by (simp add: in_stream_id_eq out_stream_id_eq rdn_append_at be_val_be_bytes)

lemma length_out [simp]: "length (out24 v) = 3" "length (out_stream_id s) = 4"
  by (simp_all add: out24_def out_stream_id_def)

lemma cont_basic_eq: "cont_basic cs = pack_basic 0xC0 cs"
proof -
  have "0xC0 + of_nat cs = (0xC0 OR of_nat cs :: byte)" if "cs \<le> 63"
  proof -
    have "unat (of_nat cs :: byte) = cs" using that by (simp add: unat_of_nat)
    then have c: "of_nat cs = (take_bit 6 (of_nat cs) :: byte)"
      using that by (simp add: word_unat_eq_iff take_bit_eq_mod unat_mod)
    have "(0xC0 :: byte) AND of_nat cs = 0"
      by (subst c) (simp add: take_bit_eq_mask and.left_commute mask_eq_exp_minus_1)
    then show ?thesis by (metis add.left_neutral word_plus_and_or)
  qed
  then show ?thesis by (auto simp: cont_basic_def pack_basic_def)
qed


section \<open>What is sent is received\<close>

lemma chtype_or:
  assumes "t \<in> {0, 0x40, 0x80, 0xC0 :: byte}" "unat c < 64"
  shows "(t OR c) AND 0x3F = c" "(t OR c) AND 0xC0 = t"
proof -
  have "c = take_bit 6 c"
    using assms(2) by (simp add: word_unat_eq_iff take_bit_eq_mod unat_mod)
  then have c: "c AND 0x3F = c" by (simp add: take_bit_eq_mask mask_eq_exp_minus_1)
  have t: "t AND 0x3F = 0" "t AND 0xC0 = t" using assms(1) by auto
  show "(t OR c) AND 0x3F = c" using c t by (simp add: bit.conj_disj_distrib2)
  have "c AND 0xC0 = (c AND 0x3F) AND 0xC0" by (simp only: c)
  then have "c AND 0xC0 = 0" by (simp add: and.assoc)
  then show "(t OR c) AND 0xC0 = t" using t by (simp add: bit.conj_disj_distrib2)
qed

lemma parse_pack_cs:
  assumes t: "t \<in> {0, 0x40, 0x80, 0xC0 :: byte}" and cs: "2 \<le> cs" "cs \<le> 65599"
  shows "\<exists>ct. parse_cs (pack_basic t cs @ x) = Some (ct, cs, length (pack_basic t cs)) \<and>
    ct AND 0xC0 = t"
proof -
  consider "cs \<le> 63" | "63 < cs" "cs \<le> 319" | "319 < cs" by linarith
  then show ?thesis
  proof cases
    case 1
    then have u: "unat (of_nat cs :: byte) = cs" by (simp add: unat_of_nat)
    then have "(of_nat cs :: byte) \<noteq> 0" "(of_nat cs :: byte) \<noteq> 1" using cs by auto
    then show ?thesis using chtype_or [OF t, of "of_nat cs"] u 1 by (simp add: pack_basic_def parse_cs_def)
  next
    case 2
    then show ?thesis using chtype_or [OF t, of 0]
      by (simp add: pack_basic_def parse_cs_def unat_of_nat del: of_nat_diff)
  next
    case 3
    have "(cs - 64) div 256 < 256" using cs by simp
    then show ?thesis using chtype_or [OF t, of 1] 3
      by (simp add: pack_basic_def parse_cs_def unat_of_nat
          del: of_nat_diff)
  qed
qed

lemma pack_chtype_range: "pack_chtype a prev ch \<in> {0, 0x40, 0x80, 0xC0}"
  by (simp add: pack_chtype_def)

lemma pack_chtype_short:
  assumes "pack_chtype a prev ch \<noteq> 0"
  shows "a" "timestamp prev \<le> timestamp ch" "msg_stream_id ch = msg_stream_id prev"
  using assms by (auto simp: pack_chtype_def split: if_splits)

lemma pack_chtype_shorter:
  assumes "pack_chtype a prev ch \<noteq> 0" "pack_chtype a prev ch \<noteq> 0x40"
  shows "len ch = len prev" "msg_type_id ch = msg_type_id prev"
  using assms by (auto simp: pack_chtype_def split: if_splits)

lemma pack_chtype_shortest:
  "pack_chtype a prev ch = 0xC0 \<Longrightarrow> timestamp ch - timestamp prev = ucast (ts_delta prev)"
  by (auto simp: pack_chtype_def split: if_splits)

text \<open>The entries of the sender and the receiver for a channel agree between two messages.\<close>

definition synced :: "chunk \<Rightarrow> chunk \<Rightarrow> bool" where
  "synced s r \<longleftrightarrow> timestamp r = timestamp s \<and> ts_delta r = ts_delta s \<and>
     ts_header r = ts_header s \<and> len r = len s \<and> msg_type_id r = msg_type_id s \<and>
     msg_stream_id r = msg_stream_id s \<and> len_left r = 0"

definition in_sync :: "rtmp \<Rightarrow> rtmp \<Rightarrow> nat \<Rightarrow> bool" where
  "in_sync st rt cs \<longleftrightarrow>
     len_left (entry (lastrecv rt) cs) = 0 \<and>
     (case lastsend st cs of None \<Rightarrow> True
      | Some s \<Rightarrow> ts_header s \<noteq> 0xffffff \<and> (\<exists>r. lastrecv rt cs = Some r \<and> synced s r))"

lemma take24: "(v :: u64) < 0xffffff \<Longrightarrow> take_bit 24 v = v"
proof -
  assume "v < 0xffffff"
  then have "unat v < 0xffffff" by (simp add: word_less_nat_alt)
  then show ?thesis by (simp add: word_unat_eq_iff take_bit_eq_mod unat_mod)
qed

lemma take24_nat: "n < 2 ^ 24 \<Longrightarrow> unat (take_bit 24 (of_nat n :: u64)) = n"
  by (simp add: take_bit_eq_mod unat_mod unat_of_nat)

lemma rd_at: "length xs = i \<Longrightarrow> rd (xs @ y # ys) i = Some y"
  by auto

lemma in24_second:
  "length xs = i \<Longrightarrow> length h = 3 \<Longrightarrow> in24 (xs @ h @ out24 v @ ys) (i + 3) = Some (take_bit 24 v)"
  using in24_out24 [of "xs @ h" "i + 3" v ys] by simp

lemma in_stream_id_at:
  "length xs = i \<Longrightarrow> length h = 3 \<Longrightarrow> length g = 3 \<Longrightarrow>
     in_stream_id (xs @ h @ g @ y # out_stream_id s @ ys) (i + 7) = Some s"
  using in_out_stream_id [of "xs @ h @ g @ [y]" "i + 7" s ys] by simp

lemma rd_type:
  "length xs = i \<Longrightarrow> length h = 3 \<Longrightarrow> length g = 3 \<Longrightarrow> rd (xs @ h @ g @ y # ys) (i + 6) = Some y"
  using rd_at [of "xs @ h @ g" "i + 6" y ys] by simp

lemma rd_type0: "length h = 3 \<Longrightarrow> length g = 3 \<Longrightarrow> rd (h @ g @ y # ys) 6 = Some y"
  using rd_type [of "[]" 0 h g y ys] by simp

text \<open>The message header of each type is read back.\<close>

lemma parse_pack_header:
  assumes pk: "pack_header (pack_chtype a prev ch) prev ch = (hdr, ntime, ch1)"
    and ht: "headertype ch0 = pack_chtype a prev ch"
    and sync: "a \<Longrightarrow> synced prev prevr \<and> ts_header prev \<noteq> 0xffffff"
    and ts: "timestamp ch < 0xffffff" and l: "len ch < 2 ^ 24"
    and stale: "pack_chtype a prev ch = 0xC0 \<Longrightarrow> ts_delta ch = ts_delta prev"
    and i: "length pre = i"
  shows "ntime = 0 \<and> ts_header ch1 \<noteq> 0xffffff \<and>
    (\<exists>c. (\<forall>x. parse_header prevr ch0 (pre @ hdr @ x) i = Some (Some (c, i + length hdr))) \<and>
       synced ch1 c \<and> cs_id c = cs_id ch0)"
proof -
  consider "pack_chtype a prev ch = 0" | "pack_chtype a prev ch = 0x40"
    | "pack_chtype a prev ch = 0x80" | "pack_chtype a prev ch = 0xC0"
    using pack_chtype_range [of a prev ch] by auto
  then show ?thesis
  proof cases
    case 1
    then show ?thesis using pk ht ts l i
      by (auto simp: pack_header_def parse_header_def Let_def not_le [symmetric] in24_out24
          in24_second in_stream_id_at rd_type0 take24 take24_nat synced_def)
  next
    case 2
    have le: "timestamp prev \<le> timestamp ch" and a: a and id: "msg_stream_id ch = msg_stream_id prev"
      using pack_chtype_short [of a prev ch] 2 by simp_all
    have d: "timestamp ch - timestamp prev < 0xffffff"
      using le ts by (simp add: word_less_nat_alt word_le_nat_alt unat_sub)
    show ?thesis using pk ht d l i 2 id sync [OF a]
      by (auto simp: pack_header_def parse_header_def Let_def not_le [symmetric] in24_out24
          in24_second rd_type0 take24 take24_nat synced_def)
  next
    case 3
    have le: "timestamp prev \<le> timestamp ch" and a: a and id: "msg_stream_id ch = msg_stream_id prev"
      using pack_chtype_short [of a prev ch] 3 by simp_all
    have d: "timestamp ch - timestamp prev < 0xffffff"
      using le ts by (simp add: word_less_nat_alt word_le_nat_alt unat_sub)
    show ?thesis using pk ht d l i 3 id sync [OF a] pack_chtype_shorter [of a prev ch]
      by (auto simp: pack_header_def parse_header_def Let_def not_le [symmetric] in24_out24
          take24 synced_def)
  next
    case 4
    have a: a and id: "msg_stream_id ch = msg_stream_id prev"
      using pack_chtype_short [of a prev ch] 4 by simp_all
    have "timestamp prev + ucast (ts_delta prev) = timestamp ch"
      using pack_chtype_shortest [OF 4] by (metis diff_add_cancel add.commute)
    then show ?thesis
      using pk ht i 4 id sync [OF a] stale [OF 4] pack_chtype_shorter [of a prev ch]
      by (auto simp: pack_header_def parse_header_def Let_def synced_def)
  qed
qed


lemma length_pack_basic: "length (pack_basic t cs) \<in> {1, 2, 3}"
  by (simp add: pack_basic_def)

lemma length_pack_header:
  "pack_header chtype prev ch = (hdr, ntime, ch1) \<Longrightarrow> length hdr \<le> 11"
  by (auto simp: pack_header_def Let_def split: if_splits)

lemma pack_header_fields:
  assumes "pack_header chtype prev ch = (hdr, ntime, ch1)"
  shows "ch1 = ch\<lparr>ts_delta := ts_delta ch1, ts_header := ts_header ch1\<rparr>"
  using assms by (auto simp: pack_header_def Let_def split: if_splits)

text \<open>Taking one piece \<open>P\<close> off the buffer behind a header \<open>H\<close>.\<close>

lemma parse_payload_piece:
  assumes abs: "sb_abs b = H @ P @ tail" and i: "length H = i" "0 < i"
    and rl: "real_len ch = length P" and lim: "length (sb_abs b) < 2 ^ 32"
    and pd: "pd = (if P \<noteq> [] \<and> len_left prev \<noteq> 0 then data prev else [])"
  shows "\<exists>d d' st' b'. parse_payload st cs prev ch i b =
      (if P = [] \<or> len_left ch = 0 then Some True else None, ch\<lparr>data := d\<rparr>, st', b') \<and>
    sb_abs b' = tail \<and> lastrecv st' = (lastrecv st)(cs \<mapsto> ch\<lparr>data := d'\<rparr>) \<and>
    chunk_rec_max st' = chunk_rec_max st \<and>
    (len_left ch = 0 \<longrightarrow> d = pd @ P) \<and> (len_left ch \<noteq> 0 \<longrightarrow> d' = pd @ P)"
proof -
  obtain ok b1 where a: "sb_available b (i + real_len ch) = (ok, b1)" by fastforce
  have ok: ok
    using sb_available_eq [of b "i + real_len ch"] a abs i rl lim by (auto simp: add_ac)
  have "sb_abs b1 = H @ P @ tail" using sb_available_abs [of b "i + real_len ch"] a abs by simp
  then have sk: "sb_abs (sb_skip b1 i) = P @ tail" using i by (simp add: sb_skip_abs)
  show ?thesis
  proof (cases "P = []")
    case True
    then show ?thesis
      using a ok rl pd sk by (auto simp: parse_payload_def Let_def assignWithoutData_def)
  next
    case False
    have "length (sb_abs (sb_skip b1 i)) < 2 ^ 32" using lim abs sk by simp
    then have "fst (sb_available (sb_skip b1 i) (real_len ch))"
      using False sk rl lim abs by (subst sb_available_eq) auto
    then obtain b2 where b2: "sb_remove (sb_skip b1 i) (length P) = (P, b2)" "sb_abs b2 = tail"
      using sb_remove_available [of "sb_skip b1 i" "real_len ch"] sk rl
      by (cases "sb_remove (sb_skip b1 i) (length P)") auto
    then show ?thesis
      using a ok rl pd False
      by (auto simp: parse_payload_def Let_def assignWithoutData_def)
  qed
qed

lemma parse_step_piece:
  assumes abs: "sb_abs b = H @ P @ tail" and big: "3 \<le> length (sb_abs b)"
    and lim: "length (sb_abs b) < 2 ^ 32"
    and pc: "parse_cs (take 18 (sb_abs b)) = Some (ct, cs, i0)"
    and ph: "parse_header (entry (lastrecv st) cs)
      (ch\<lparr>cs_id := cs, headertype := ct AND 0xC0\<rparr>) (take 18 (sb_abs b)) i0 =
        Some (Some (ch1, length H))"
    and ts: "ts_header ch1 \<noteq> 0xffffff"
    and ch2: "ch2 = parse_lengths (chunk_rec_max st) ch1" and rl: "real_len ch2 = length P"
    and pd: "pd = (if P \<noteq> [] \<and> len_left (entry (lastrecv st) cs) \<noteq> 0
                   then data (entry (lastrecv st) cs) else [])"
  shows "\<exists>d d' st' b'. parse_step st ch b =
      Some (if P = [] \<or> len_left ch2 = 0 then Some True else None, ch2\<lparr>data := d\<rparr>, st', b') \<and>
    sb_abs b' = tail \<and> lastrecv st' = (lastrecv st)(cs \<mapsto> ch2\<lparr>data := d'\<rparr>) \<and>
    chunk_rec_max st' = chunk_rec_max st \<and>
    (len_left ch2 = 0 \<longrightarrow> d = pd @ P) \<and> (len_left ch2 \<noteq> 0 \<longrightarrow> d' = pd @ P)"
proof -
  let ?prev = "entry (lastrecv st) cs"
  define st1 where "st1 = st\<lparr>lastrecv := (lastrecv st)(cs \<mapsto> ?prev)\<rparr>"
  define st2 where "st2 = (if headertype ch1 \<noteq> 0 \<and> lastrecv st cs = None
    then st1\<lparr>parseErr := parseErr st1 + 1\<rparr> else st1)"
  have pos: "0 < length H" using parse_cs_pos [OF pc] parse_header_mono [OF ph] by linarith
  have th: "ts_header ch2 = ts_header ch1" by (simp add: ch2 parse_lengths_def Let_def)
  have ext: "parse_ext ?prev ch2 (sb_peek b 18) (length H) = Some (Some (ch2, length H))"
    using ts th by (simp add: parse_ext_def)
  have mx: "chunk_rec_max st1 = chunk_rec_max st" "chunk_rec_max st2 = chunk_rec_max st"
    "lastrecv st2 = (lastrecv st)(cs \<mapsto> ?prev)"
    by (auto simp: st1_def st2_def)
  have not_short: "\<not> min (length (sb_abs b)) 18 < 3" using big by simp
  have "parse_step st ch b = Some (parse_payload st2 cs ?prev ch2 (length H) b)"
    using pc ph ext not_short
    by (simp add: parse_step_def Let_def sb_peek_abs st1_def [symmetric] ch2 st2_def mx)
  then show ?thesis
    using parse_payload_piece [OF abs refl pos rl lim pd, of st2 cs] mx by auto
qed


lemma take_header:
  "length H \<le> 18 \<Longrightarrow> take 18 (H @ x) = H @ take (18 - length H) x"
  by simp

lemma parse_header_cont:
  assumes "headertype c = 0xC0" "len_left prev \<noteq> 0"
  shows "parse_header prev c d i = Some (Some (c\<lparr>timestamp := timestamp prev,
    ts_header := ts_header prev, ts_delta := ts_delta prev, len := len prev,
    len_left := len_left prev, msg_type_id := msg_type_id prev,
    msg_stream_id := msg_stream_id prev\<rparr>, i))"
  using assms by (simp add: parse_header_def)

lemma pack_body_split:
  assumes "pack_body mx cs nt d l left = Some body" "left < l"
  shows "\<exists>P more. rdn d left (min mx (l - left)) = Some P \<and> 0 < mx \<and>
    pack_body mx cs nt d l (left + length P) = Some more \<and> length P = min mx (l - left) \<and>
    body = P @ (if left + length P < l
                then cont_basic cs @ (if nt \<noteq> 0 then out32 nt else []) else []) @ more"
  using assms by (subst (asm) pack_body.simps)
    (auto simp: Let_def min_def split: if_splits bind_splits dest!: rdn_Some_length)

lemma pack_body_end: "l \<le> left \<Longrightarrow> pack_body mx cs nt d l left = Some []"
  by (subst pack_body.simps) simp

lemma pack_body_total: "0 < mx \<Longrightarrow> l \<le> length d \<Longrightarrow> \<exists>body. pack_body mx cs nt d l left = Some body"
proof (induction mx cs nt d l left rule: pack_body.induct)
  case (1 mx cs nt d l left)
  show ?case
  proof (cases "left < l")
    case True
    let ?n = "if l - left > mx then mx else l - left"
    have "rdn d left ?n \<noteq> None" using 1(3) True by (auto simp: rdn_def)
    then obtain P where P: "rdn d left ?n = Some P" by blast
    then show ?thesis using 1(1) [OF True _ refl P] 1(2,3) True
      by (subst pack_body.simps) (auto simp: Let_def)
  qed (simp add: pack_body_end)
qed

lemma take_rdn: "rdn d i n = Some P \<Longrightarrow> take i d @ P = take (i + n) d"
  by (auto simp: rdn_def take_add split: if_splits)

lemma Parse_pieces:
  assumes "pack_body mx cs 0 d l left = Some body" "0 < left" "left < l" "l = length d"
    and "chunk_rec_max st = mx" "2 \<le> cs" "cs \<le> 65599"
    and "lastrecv st cs = Some r" "ts_header r \<noteq> 0xffffff"
    and "len_left r = l - left" "data r = take left d"
    and "sb_abs b = cont_basic cs @ body @ tail" "2 \<le> length tail" "length (sb_abs b) < 2 ^ 32"
  shows "\<exists>ch' st' b' r'. Parse st ch b = Some (True, ch', st', b') \<and> sb_abs b' = tail \<and>
    data ch' = d \<and> cs_id ch' = cs \<and> synced r ch' \<and>
    lastrecv st' = (lastrecv st)(cs \<mapsto> r') \<and> synced r r' \<and> chunk_rec_max st' = mx"
  using assms
proof (induction "l - left" arbitrary: left body st ch b r rule: less_induct)
  case less
  obtain P more where P: "rdn d left (min mx (l - left)) = Some P" "0 < mx"
    "pack_body mx cs 0 d l (left + length P) = Some more" "length P = min mx (l - left)"
    "body = P @ (if left + length P < l then cont_basic cs else []) @ more"
    using pack_body_split [OF less.prems(1,3)] by (auto cong: if_cong)
  have ne: "P \<noteq> []" using P(2,4) less.prems(3) by auto
  define tail' where "tail' = (if left + length P < l then cont_basic cs else []) @ more @ tail"
  have abs: "sb_abs b = pack_basic 0xC0 cs @ P @ tail'"
    using less.prems(12) P(5) by (simp add: cont_basic_eq tail'_def)
  have lb: "length (pack_basic 0xC0 cs) \<le> 18" "0 < length (pack_basic 0xC0 cs)"
    using length_pack_basic [of "0xC0" cs] by auto
  obtain ct where pc: "parse_cs (take 18 (sb_abs b)) = Some (ct, cs, length (pack_basic 0xC0 cs))"
    and ct: "ct AND 0xC0 = 0xC0"
    using parse_pack_cs [of "0xC0" cs "take (18 - length (pack_basic 0xC0 cs)) (P @ tail')"]
      less.prems(6,7) abs take_header [OF lb(1), of "P @ tail'"] by auto
  have e: "entry (lastrecv st) cs = r" using less.prems(8) by (simp add: entry_def)
  have ll: "len_left r \<noteq> 0" using less.prems(3,10) by simp
  define ch1 where "ch1 = ch\<lparr>cs_id := cs, headertype := 0xC0, timestamp := timestamp r,
    ts_header := ts_header r, ts_delta := ts_delta r, len := len r, len_left := len_left r,
    msg_type_id := msg_type_id r, msg_stream_id := msg_stream_id r\<rparr>"
  define ch2 where "ch2 = parse_lengths (chunk_rec_max st) ch1"
  have ph: "parse_header (entry (lastrecv st) cs) (ch\<lparr>cs_id := cs, headertype := ct AND 0xC0\<rparr>)
      (take 18 (sb_abs b)) (length (pack_basic 0xC0 cs)) =
      Some (Some (ch1, length (pack_basic 0xC0 cs)))"
    using ll ct by (subst parse_header_cont) (auto simp: e ch1_def)
  have c2: "len_left ch2 = l - (left + length P)" "real_len ch2 = length P" "synced r ch2 = (len_left ch2 = 0)"
    "cs_id ch2 = cs" "ts_header ch2 = ts_header r" "timestamp ch2 = timestamp r"
    "ts_delta ch2 = ts_delta r" "len ch2 = len r" "msg_type_id ch2 = msg_type_id r"
    "msg_stream_id ch2 = msg_stream_id r"
    using less.prems(3,5,10) P(2,4)
    by (auto simp: ch2_def ch1_def parse_lengths_def Let_def synced_def)
  have big: "3 \<le> length (sb_abs b)" using abs ne lb(2) less.prems(13)
    by (cases P) (auto simp: tail'_def)
  have pd: "data r = (if P \<noteq> [] \<and> len_left (entry (lastrecv st) cs) \<noteq> 0
      then data (entry (lastrecv st) cs) else [])" using ne ll e by simp
  have tsc: "ts_header ch1 \<noteq> 0xffffff" using less.prems(9) by (simp add: ch1_def)
  obtain d1 d2 st1 b1 where step:
    "parse_step st ch b = Some (if P = [] \<or> len_left ch2 = 0 then Some True else None,
       ch2\<lparr>data := d1\<rparr>, st1, b1)"
    "sb_abs b1 = tail'" "lastrecv st1 = (lastrecv st)(cs \<mapsto> ch2\<lparr>data := d2\<rparr>)"
    "chunk_rec_max st1 = chunk_rec_max st"
    "len_left ch2 = 0 \<longrightarrow> d1 = data r @ P" "len_left ch2 \<noteq> 0 \<longrightarrow> d2 = data r @ P"
    using parse_step_piece [OF abs big less.prems(14) pc ph tsc ch2_def c2(2) pd] by (elim exE conjE) (rule that)
  have dP: "data r @ P = take (left + length P) d"
    using take_rdn [OF P(1)] less.prems(11) P(4) by simp
  show ?case
  proof (cases "len_left ch2 = 0")
    case True
    then have end': "l \<le> left + length P" using c2(1) by simp
    then have "more = []" using P(3) pack_body_end [OF end'] by simp
    then have "tail' = tail" using end' by (simp add: tail'_def)
    have "Parse st ch b = Some (True, ch2\<lparr>data := d1\<rparr>, st1, b1)"
      using True step(1) by (subst Parse.simps) simp
    then show ?thesis using True step(2-5) c2 dP end' less.prems(4,5) \<open>tail' = tail\<close>
      by (auto simp: synced_def)
  next
    case False
    then have lt: "left + length P < l" using c2(1) by simp
    have abs1: "sb_abs b1 = cont_basic cs @ more @ tail" using step(2) lt by (simp add: tail'_def)
    have dec: "l - (left + length P) < l - left" using less.prems(3) ne by (cases P) auto
    have lim1: "length (sb_abs b1) < 2 ^ 32" using less.prems(14) abs step(2) by simp
    obtain ch' st' b' r' where ih:
      "Parse st1 (ch2\<lparr>data := d1\<rparr>) b1 = Some (True, ch', st', b')" "sb_abs b' = tail"
      "data ch' = d" "cs_id ch' = cs" "synced (ch2\<lparr>data := d2\<rparr>) ch'"
      "lastrecv st' = (lastrecv st1)(cs \<mapsto> r')" "synced (ch2\<lparr>data := d2\<rparr>) r'"
      "chunk_rec_max st' = mx"
      using less.hyps [OF dec P(3) _ lt less.prems(4) _ less.prems(6,7) _ _ _ _ abs1
          less.prems(13) lim1, of st1 "ch2\<lparr>data := d2\<rparr>" "ch2\<lparr>data := d1\<rparr>"]
        step(3,4) step(6) False c2 dP less.prems(2,5,9) by auto
    have "Parse st ch b = Some (True, ch', st', b')"
      using False step(1) ne ih(1) by (subst Parse.simps) simp
    then show ?thesis using ih step(3) c2 by (auto simp: synced_def)
  qed
qed


definition received :: "chunk \<Rightarrow> chunk \<Rightarrow> bool" where
  "received s r \<longleftrightarrow> cs_id r = cs_id s \<and> timestamp r = timestamp s \<and> len r = len s \<and>
     msg_type_id r = msg_type_id s \<and> msg_stream_id r = msg_stream_id s \<and> data r = data s"

text \<open>The conditions under which a chunk can be packed for this receiver: the channel number and
  the sizes fit their fields, the timestamp needs no extension, and the delta the sender's chunk
  carries is that of its channel.\<close>

definition sendable :: "rtmp \<Rightarrow> rtmp \<Rightarrow> chunk \<Rightarrow> bool" where
  "sendable st rt ch \<longleftrightarrow> 2 \<le> cs_id ch \<and> cs_id ch \<le> 65599 \<and> timestamp ch < 0xffffff \<and>
     len ch = length (data ch) \<and> len ch < 2 ^ 24 \<and>
     chunk_rec_max rt = chunk_snd_max st \<and> 0 < chunk_snd_max st \<and>
     in_sync st rt (cs_id ch) \<and>
     (\<forall>s. lastsend st (cs_id ch) = Some s \<longrightarrow> ts_delta s = ts_delta ch)"

lemma Parse_first_piece:
  assumes abs: "sb_abs b = pack_basic t cs @ hdr @ body @ tail"
    and t: "t \<in> {0, 0x40, 0x80, 0xC0}" and cs: "2 \<le> cs" "cs \<le> 65599"
    and hl: "length hdr \<le> 11"
    and ph: "\<And>ct x. ct AND 0xC0 = t \<Longrightarrow> parse_header (entry (lastrecv rt) cs)
      (rc\<lparr>cs_id := cs, headertype := ct AND 0xC0\<rparr>) (pack_basic t cs @ hdr @ x)
        (length (pack_basic t cs)) = Some (Some (c, length (pack_basic t cs) + length hdr))"
    and c: "ts_header c \<noteq> 0xffffff" "len c = length d" "len_left c = 0" "cs_id c = cs"
    and ll: "len_left (entry (lastrecv rt) cs) = 0"
    and body: "pack_body mx cs 0 d (length d) 0 = Some body"
    and mx: "chunk_rec_max rt = mx" "0 < mx"
    and tail: "2 \<le> length tail" and lim: "length (sb_abs b) < 2 ^ 32"
  shows "\<exists>ch' st' b' r'. Parse rt rc b = Some (True, ch', st', b') \<and> sb_abs b' = tail \<and>
    data ch' = d \<and> cs_id ch' = cs \<and> synced c ch' \<and>
    lastrecv st' = (lastrecv rt)(cs \<mapsto> r') \<and> synced c r' \<and> chunk_rec_max st' = mx"
proof -
  define H where "H = pack_basic t cs @ hdr"
  define P where "P = take mx d"
  have lH: "length H \<le> 18" "length (pack_basic t cs) \<le> 18" "0 < length (pack_basic t cs)"
    using length_pack_basic [of t cs] hl by (auto simp: H_def)
  obtain more where more: "body = P @ more" "mx < length d \<Longrightarrow> \<exists>m.
      more = cont_basic cs @ m \<and> pack_body mx cs 0 d (length d) mx = Some m"
    "length d \<le> mx \<Longrightarrow> more = []"
  proof (cases "d = []")
    case True
    then show ?thesis using body that [of "[]"] by (simp add: pack_body_end P_def)
  next
    case False
    then obtain P' m where s: "rdn d 0 (min mx (length d)) = Some P'"
      "pack_body mx cs 0 d (length d) (length P') = Some m" "length P' = min mx (length d)"
      "body = P' @ (if length P' < length d then cont_basic cs else []) @ m"
      using pack_body_split [OF body] by (auto cong: if_cong)
    have "P' = P" using s(1) by (auto simp: rdn_def P_def min_def split: if_splits)
    then show ?thesis
      using s that [of "(if length P < length d then cont_basic cs else []) @ m"]
      by (auto simp: pack_body_end split: if_splits)
  qed
  have abs': "sb_abs b = H @ P @ more @ tail" using abs more(1) by (simp add: H_def)
  obtain ct where pc: "parse_cs (take 18 (sb_abs b)) = Some (ct, cs, length (pack_basic t cs))"
    and ct: "ct AND 0xC0 = t"
    using parse_pack_cs [OF t cs, of "take (18 - length (pack_basic t cs)) (hdr @ body @ tail)"]
      take_header [OF lH(2), of "hdr @ body @ tail"] abs by auto
  have "take 18 (sb_abs b) = pack_basic t cs @ hdr @ take (18 - length H) (body @ tail)"
    using take_header [OF lH(1), of "body @ tail"] abs by (simp only: H_def append_assoc)
  then have ph': "parse_header (entry (lastrecv rt) cs) (rc\<lparr>cs_id := cs, headertype := ct AND 0xC0\<rparr>)
      (take 18 (sb_abs b)) (length (pack_basic t cs)) = Some (Some (c, length H))"
    using ph [OF ct, of "take (18 - length H) (body @ tail)"] by (simp add: H_def)
  define c2 where "c2 = parse_lengths (chunk_rec_max rt) c"
  have c2: "real_len c2 = length P" "len_left c2 = length d - mx" "data (c2\<lparr>data := x\<rparr>) = x"
    "len_left c2 = 0 \<Longrightarrow> synced c (c2\<lparr>data := x\<rparr>)" "cs_id c2 = cs" "ts_header c2 = ts_header c"
    "synced (c2\<lparr>data := x\<rparr>) y = synced c y" for x y
    using c mx by (auto simp: c2_def P_def parse_lengths_def Let_def synced_def)
  have big: "3 \<le> length (sb_abs b)" using arg_cong [OF abs', of length] lH(3) tail unfolding H_def length_append by linarith
  have pd: "[] = (if P \<noteq> [] \<and> len_left (entry (lastrecv rt) cs) \<noteq> 0
      then data (entry (lastrecv rt) cs) else [])" using ll by simp
  obtain d1 d2 st1 b1 where step:
    "parse_step rt rc b = Some (if P = [] \<or> len_left c2 = 0 then Some True else None,
       c2\<lparr>data := d1\<rparr>, st1, b1)"
    "sb_abs b1 = more @ tail" "lastrecv st1 = (lastrecv rt)(cs \<mapsto> c2\<lparr>data := d2\<rparr>)"
    "chunk_rec_max st1 = chunk_rec_max rt"
    "len_left c2 = 0 \<longrightarrow> d1 = [] @ P" "len_left c2 \<noteq> 0 \<longrightarrow> d2 = [] @ P"
    using parse_step_piece [OF abs' big lim pc ph' c(1) c2_def c2(1) pd] by (elim exE conjE) (rule that)
  show ?thesis
  proof (cases "length d \<le> mx")
    case True
    have "Parse rt rc b = Some (True, c2\<lparr>data := d1\<rparr>, st1, b1)"
      using True step(1) c2(2) by (subst Parse.simps) simp
    moreover have "P = d" using True by (simp add: P_def)
    ultimately show ?thesis using step(2-5) c2 True more(3) mx
      by (intro exI [of _ "c2\<lparr>data := d1\<rparr>"] exI [of _ st1] exI [of _ b1] exI [of _ "c2\<lparr>data := d2\<rparr>"]) auto
  next
    case False
    then obtain m where m: "more = cont_basic cs @ m" "pack_body mx cs 0 d (length d) mx = Some m"
      using more(2) by auto
    have ne: "P \<noteq> []" using False mx by (cases d) (auto simp: P_def)
    have lt: "mx < length d" using False by simp
    have abs1: "sb_abs b1 = cont_basic cs @ m @ tail" using step(2) m(1) by simp
    have lim1: "length (sb_abs b1) < 2 ^ 32" using lim abs' step(2) by simp
    obtain ch' st' b' r' where ih:
      "Parse st1 (c2\<lparr>data := d1\<rparr>) b1 = Some (True, ch', st', b')" "sb_abs b' = tail"
      "data ch' = d" "cs_id ch' = cs" "synced (c2\<lparr>data := d2\<rparr>) ch'"
      "lastrecv st' = (lastrecv st1)(cs \<mapsto> r')" "synced (c2\<lparr>data := d2\<rparr>) r'"
      "chunk_rec_max st' = mx"
      using Parse_pieces [OF m(2) mx(2) lt refl _ cs _ _ _ _ abs1 tail lim1,
          of st1 "c2\<lparr>data := d2\<rparr>" "c2\<lparr>data := d1\<rparr>"] step(3,4,6) c2(2,6) c(1) mx lt
      by (auto simp: P_def)
    have "Parse rt rc b = Some (True, ch', st', b')"
      using step(1) ne lt c2(2) ih(1) by (subst Parse.simps) simp
    then show ?thesis using ih step(3) c2(7)
      by (intro exI [of _ ch'] exI [of _ st'] exI [of _ b'] exI [of _ r']) auto
  qed
qed


lemma Pack_Parse_lemma:
  assumes "sendable st rt ch"
  shows "\<exists>out ch1 st1. Pack st ch = Some (out, ch1, st1) \<and> chunk_snd_max st1 = chunk_snd_max st \<and>
    lastsend st1 = (lastsend st)(cs_id ch \<mapsto> ch1) \<and> ts_header ch1 \<noteq> 0xffffff \<and>
    (\<forall>rc b tail. sb_abs b = out @ tail \<longrightarrow> 2 \<le> length tail \<longrightarrow> length (sb_abs b) < 2 ^ 32 \<longrightarrow>
      (\<exists>rc' rt' b' r'. Parse rt rc b = Some (True, rc', rt', b') \<and> sb_abs b' = tail \<and>
         received ch rc' \<and> chunk_rec_max rt' = chunk_rec_max rt \<and>
         lastrecv rt' = (lastrecv rt)(cs_id ch \<mapsto> r') \<and> synced ch1 r'))"
proof -
  note s = assms [unfolded sendable_def]
  define a prev prevr cs where "a = (lastsend st (cs_id ch) \<noteq> None)"
    and "prev = entry (lastsend st) (cs_id ch)" and "prevr = entry (lastrecv rt) (cs_id ch)"
    and "cs = cs_id ch"
  define t where "t = pack_chtype a prev ch"
  have t: "t \<in> {0, 0x40, 0x80, 0xC0}" unfolding t_def by (rule pack_chtype_range)
  obtain hdr ntime ch2 where pk: "pack_header t prev ch = (hdr, ntime, ch2)"
    by (cases "pack_header t prev ch")
  have sync: "synced prev prevr \<and> ts_header prev \<noteq> 0xffffff" if a
    using s that by (auto simp: a_def prev_def prevr_def in_sync_def entry_def)
  have stale: "ts_delta ch = ts_delta prev" if "pack_chtype a prev ch = 0xC0"
    using s pack_chtype_short(1) [of a prev ch] that by (auto simp: a_def prev_def entry_def)
  have hd: "ntime = 0 \<and> ts_header ch2 \<noteq> 0xffffff \<and>
    (\<exists>c. (\<forall>x. parse_header prevr ch0 (pre @ hdr @ x) (length pre) =
        Some (Some (c, length pre + length hdr))) \<and> synced ch2 c \<and> cs_id c = cs_id ch0)"
    if "headertype ch0 = t" for ch0 pre
    using parse_pack_header [OF pk [unfolded t_def] that [unfolded t_def] sync _ _ stale refl] s
    by simp
  have nt: "ntime = 0" "ts_header ch2 \<noteq> 0xffffff" using hd [of "Chunk\<lparr>headertype := t\<rparr>"] by simp_all
  note f = pack_header_fields [OF pk]
  have f': "cs_id ch2 = cs" "data ch2 = data ch" "len ch2 = len ch" "timestamp ch2 = timestamp ch"
    "msg_type_id ch2 = msg_type_id ch" "msg_stream_id ch2 = msg_stream_id ch"
    by (subst f; simp add: cs_def)+
  obtain body where body: "pack_body (chunk_snd_max st) cs 0 (data ch) (len ch) 0 = Some body"
    using pack_body_total [of "chunk_snd_max st" "len ch" "data ch" cs 0 0] s by auto
  let ?out = "pack_basic t cs @ hdr @ body"
  let ?ch1 = "ch2\<lparr>len_left := len ch2\<rparr>"
  have P: "Pack st ch = Some (?out, ?ch1, st\<lparr>lastsend := (lastsend st)(cs \<mapsto> ?ch1),
      snd_cnt := (snd_cnt st + length ?out) mod 2 ^ 64\<rparr>)"
    using pk [unfolded t_def a_def prev_def] body [unfolded cs_def] nt f' [unfolded cs_def]
    by (simp add: Pack_def Let_def t_def a_def prev_def cs_def)
  have "\<exists>rc' rt' b' r'. Parse rt rc b = Some (True, rc', rt', b') \<and> sb_abs b' = tail \<and>
      received ch rc' \<and> chunk_rec_max rt' = chunk_rec_max rt \<and>
      lastrecv rt' = (lastrecv rt)(cs_id ch \<mapsto> r') \<and> synced ?ch1 r'"
    if b: "sb_abs b = ?out @ tail" "2 \<le> length tail" "length (sb_abs b) < 2 ^ 32" for rc b tail
  proof -
    obtain c where c: "\<And>x. parse_header prevr (rc\<lparr>cs_id := cs, headertype := t\<rparr>)
        (pack_basic t cs @ hdr @ x) (length (pack_basic t cs)) =
        Some (Some (c, length (pack_basic t cs) + length hdr))" "synced ch2 c" "cs_id c = cs"
      using hd [of "rc\<lparr>cs_id := cs, headertype := t\<rparr>" "pack_basic t cs"] by auto
    have ph: "parse_header (entry (lastrecv rt) cs) (rc\<lparr>cs_id := cs, headertype := ct AND 0xC0\<rparr>)
        (pack_basic t cs @ hdr @ x) (length (pack_basic t cs)) =
        Some (Some (c, length (pack_basic t cs) + length hdr))" if "ct AND 0xC0 = t" for ct x
      using c(1) that by (simp add: prevr_def cs_def)
    have ll: "len_left (entry (lastrecv rt) cs) = 0"
      using s by (simp add: in_sync_def cs_def)
    obtain rc' rt' b' r' where r: "Parse rt rc b = Some (True, rc', rt', b')" "sb_abs b' = tail"
      "data rc' = data ch" "cs_id rc' = cs" "synced c rc'"
      "lastrecv rt' = (lastrecv rt)(cs \<mapsto> r')" "synced c r'"
      "chunk_rec_max rt' = chunk_snd_max st"
      using Parse_first_piece [OF _ t _ _ length_pack_header [OF pk] ph _ _ _ c(3) ll _ _ _ b(2,3),
          of body "data ch" "chunk_snd_max st"] b(1) s body nt c(2) f' by (auto simp: synced_def cs_def)
    then show ?thesis using c f' s
      by (intro exI [of _ rc'] exI [of _ rt'] exI [of _ b'] exI [of _ r'])
        (auto simp: received_def synced_def cs_def)
  qed
  then show ?thesis using P nt
    by (intro exI [of _ ?out] exI [of _ ?ch1]
        exI [of _ "st\<lparr>lastsend := (lastsend st)(cs \<mapsto> ?ch1),
          snd_cnt := (snd_cnt st + length ?out) mod 2 ^ 64\<rparr>"]) (simp add: cs_def)
qed


text \<open>A sequence of media tags (type, payload and time of each) sent with \<open>SendMedia\<close>, and the
  reception of a given number of messages.\<close>

fun send_tags :: "rtmp \<Rightarrow> chunk \<Rightarrow> (bytes \<times> nat \<times> u64) list \<Rightarrow> (bytes \<times> chunk \<times> rtmp) option" where
  "send_tags st ch [] = Some ([], ch, st)"
| "send_tags st ch ((d, l, t) # tags) =
     do { (out, ch, st) \<leftarrow> SendMedia_tag st ch d l t;
          (outs, ch, st) \<leftarrow> send_tags st ch tags;
          Some (out @ outs, ch, st) }"

fun recv_chunks :: "nat \<Rightarrow> rtmp \<Rightarrow> chunk \<Rightarrow> sbuf \<Rightarrow> (chunk list \<times> rtmp \<times> sbuf) option" where
  "recv_chunks 0 rt rc b = Some ([], rt, b)"
| "recv_chunks (Suc n) rt rc b =
     (case Parse rt rc b of
        Some (True, rc, rt, b) \<Rightarrow>
          do { (cs, rt, b) \<leftarrow> recv_chunks n rt rc b; Some (rc # cs, rt, b) }
      | _ \<Rightarrow> None)"

definition tag_ok :: "bytes \<times> nat \<times> u64 \<Rightarrow> bool" where
  "tag_ok = (\<lambda>(d, l, t). 15 \<le> l \<and> l \<le> length d \<and> l < 2 ^ 24 \<and> t < 0xffffff)"

definition tag_received :: "bytes \<times> nat \<times> u64 \<Rightarrow> chunk \<Rightarrow> bool" where
  "tag_received = (\<lambda>(d, l, t) c. msg_type_id c = d ! 0 \<and> data c = take (l - 15) (drop 11 d) \<and>
     len c = l - 15 \<and> timestamp c = t \<and> msg_stream_id c = 1 \<and> cs_id c = 4)"

lemma SendMedia_tag_eq:
  assumes "tag_ok (d, l, t)"
  shows "SendMedia_tag st ch d l t = Pack st (ch\<lparr>cs_id := 4, timestamp := t, len_left := 0,
    msg_type_id := d ! 0, msg_stream_id := 1, data := take (l - 15) (drop 11 d),
    len := l - 15, real_len := l - 15\<rparr>)"
  using assms by (auto simp: SendMedia_tag_def tag_ok_def rd_def rdn_def min_def)

lemma tags_delivered_lemma:
  assumes "\<forall>tag \<in> set tags. tag_ok tag"
    and "chunk_rec_max rt = chunk_snd_max st" "0 < chunk_snd_max st" "in_sync st rt 4"
    and "\<forall>s. lastsend st 4 = Some s \<longrightarrow> ts_delta s = ts_delta ch"
  shows "\<exists>out ch' st'. send_tags st ch tags = Some (out, ch', st') \<and>
    (\<forall>rc b tail. sb_abs b = out @ tail \<longrightarrow> 2 \<le> length tail \<longrightarrow> length (sb_abs b) < 2 ^ 32 \<longrightarrow>
      (\<exists>msgs rt' b'. recv_chunks (length tags) rt rc b = Some (msgs, rt', b') \<and> sb_abs b' = tail \<and>
         list_all2 tag_received tags msgs))"
  using assms
proof (induction tags arbitrary: st ch rt)
  case Nil
  then show ?case by simp
next
  case (Cons tag tags)
  obtain d l t where tag: "tag = (d, l, t)" by (cases tag)
  have ok: "tag_ok (d, l, t)" using Cons.prems(1) tag by simp
  let ?ch = "ch\<lparr>cs_id := 4, timestamp := t, len_left := 0,
    msg_type_id := d ! 0, msg_stream_id := 1, data := take (l - 15) (drop 11 d),
    len := l - 15, real_len := l - 15\<rparr>"
  have "sendable st rt ?ch"
    using Cons.prems ok by (auto simp: sendable_def tag_ok_def)
  from Pack_Parse_lemma [OF this] obtain out ch1 st1 where
    P: "Pack st ?ch = Some (out, ch1, st1)" "chunk_snd_max st1 = chunk_snd_max st"
      "lastsend st1 = (lastsend st)(4 \<mapsto> ch1)" "ts_header ch1 \<noteq> 0xffffff"
    and R: "\<And>rc b tail. sb_abs b = out @ tail \<Longrightarrow> 2 \<le> length tail \<Longrightarrow> length (sb_abs b) < 2 ^ 32 \<Longrightarrow>
      \<exists>rc' rt' b' r'. Parse rt rc b = Some (True, rc', rt', b') \<and> sb_abs b' = tail \<and>
         received ?ch rc' \<and> chunk_rec_max rt' = chunk_rec_max rt \<and>
         lastrecv rt' = (lastrecv rt)(4 \<mapsto> r') \<and> synced ch1 r'"
    by auto
  define rt1 where "rt1 r' = rt\<lparr>lastrecv := (lastrecv rt)(4 \<mapsto> r')\<rparr>" for r'
  have nxt: "\<exists>out ch' st'. send_tags st1 ch1 tags = Some (out, ch', st') \<and>
    (\<forall>rc b tail. sb_abs b = out @ tail \<longrightarrow> 2 \<le> length tail \<longrightarrow> length (sb_abs b) < 2 ^ 32 \<longrightarrow>
      (\<exists>msgs rt'' b'. recv_chunks (length tags) rt' rc b = Some (msgs, rt'', b') \<and> sb_abs b' = tail \<and>
         list_all2 tag_received tags msgs))"
    if "chunk_rec_max rt' = chunk_rec_max rt" "lastrecv rt' = (lastrecv rt)(4 \<mapsto> r')" "synced ch1 r'"
    for rt' r'
    using Cons.prems(1-3) P that
    by (intro Cons.IH) (auto simp: in_sync_def entry_def synced_def)
  have "synced ch1 (ch1\<lparr>len_left := 0\<rparr>)" by (simp add: synced_def)
  from nxt [OF _ _ this, of "rt1 (ch1\<lparr>len_left := 0\<rparr>)"] obtain outs ch2 st2 where
    S: "send_tags st1 ch1 tags = Some (outs, ch2, st2)" by (auto simp: rt1_def)
  show ?case
  proof (intro exI [of _ "out @ outs"] exI [of _ ch2] exI [of _ st2] conjI allI impI)
    show "send_tags st ch (tag # tags) = Some (out @ outs, ch2, st2)"
      using P(1) S SendMedia_tag_eq [OF ok] tag by simp
  next
    fix rc b tail
    assume b: "sb_abs b = (out @ outs) @ tail" "2 \<le> length tail" "length (sb_abs b) < 2 ^ 32"
    obtain rc' rt' b' r' where r: "Parse rt rc b = Some (True, rc', rt', b')"
      "sb_abs b' = outs @ tail" "received ?ch rc'" "chunk_rec_max rt' = chunk_rec_max rt"
      "lastrecv rt' = (lastrecv rt)(4 \<mapsto> r')" "synced ch1 r'"
      using R [of b "outs @ tail" rc] b by auto
    have "length (sb_abs b') < 2 ^ 32" using b r(2) by simp
    then obtain msgs rt'' b'' where "recv_chunks (length tags) rt' rc' b' = Some (msgs, rt'', b'')"
      "sb_abs b'' = tail" "list_all2 tag_received tags msgs"
      using nxt [OF r(4-6)] S r(2) b(2) by fastforce
    moreover have "tag_received tag rc'"
      using r(3) tag by (simp add: received_def tag_received_def)
    ultimately show "\<exists>msgs rt' b'. recv_chunks (length (tag # tags)) rt rc b = Some (msgs, rt', b') \<and>
        sb_abs b' = tail \<and> list_all2 tag_received (tag # tags) msgs"
      using r(1) by auto
  qed
qed

text \<open>C4: Packing and parsing are inverse, also for messages cut into pieces: if sender and receiver
  agree on the channel and on the chunk size, and the message fits the header fields without an
  extended timestamp, then \<open>Pack\<close> returns bytes from which \<open>Parse\<close> gives back the message, leaving
  exactly what follows it in the buffer, whatever blocks the buffer is made of; and both sides
  agree on the channel afterwards, so the next message can use the short headers.\<close>

theorem Pack_Parse:
  assumes "sendable st rt ch"
  shows "\<exists>out ch1 st1. Pack st ch = Some (out, ch1, st1) \<and>
    (\<forall>rc b tail. sb_abs b = out @ tail \<and> 2 \<le> length tail \<and> length (sb_abs b) < 2 ^ 32 \<longrightarrow>
      (\<exists>rc' rt' b'. Parse rt rc b = Some (True, rc', rt', b') \<and> sb_abs b' = tail \<and>
         received ch rc' \<and> in_sync st1 rt' (cs_id ch) \<and>
         (\<forall>k. k \<noteq> cs_id ch \<longrightarrow> lastrecv rt' k = lastrecv rt k \<and> lastsend st1 k = lastsend st k)))"
proof -
  from Pack_Parse_lemma [OF assms] obtain out ch1 st1 where
    P: "Pack st ch = Some (out, ch1, st1)" "lastsend st1 = (lastsend st)(cs_id ch \<mapsto> ch1)"
      "ts_header ch1 \<noteq> 0xffffff"
    and R: "\<And>rc b tail. sb_abs b = out @ tail \<Longrightarrow> 2 \<le> length tail \<Longrightarrow> length (sb_abs b) < 2 ^ 32 \<Longrightarrow>
      \<exists>rc' rt' b' r'. Parse rt rc b = Some (True, rc', rt', b') \<and> sb_abs b' = tail \<and>
         received ch rc' \<and> chunk_rec_max rt' = chunk_rec_max rt \<and>
         lastrecv rt' = (lastrecv rt)(cs_id ch \<mapsto> r') \<and> synced ch1 r'"
    by auto
  show ?thesis
  proof (rule exI [of _ out], rule exI [of _ ch1], rule exI [of _ st1], intro conjI allI impI)
    fix rc b tail
    assume "sb_abs b = out @ tail \<and> 2 \<le> length tail \<and> length (sb_abs b) < 2 ^ 32"
    then obtain rc' rt' b' r' where r: "Parse rt rc b = Some (True, rc', rt', b')" "sb_abs b' = tail"
      "received ch rc'" "lastrecv rt' = (lastrecv rt)(cs_id ch \<mapsto> r')" "synced ch1 r'"
      using R [of b tail rc] by auto
    have "in_sync st1 rt' (cs_id ch)"
      using P(2,3) r(4,5) by (auto simp: in_sync_def entry_def synced_def)
    then show "\<exists>rc' rt' b'. Parse rt rc b = Some (True, rc', rt', b') \<and> sb_abs b' = tail \<and>
         received ch rc' \<and> in_sync st1 rt' (cs_id ch) \<and>
         (\<forall>k. k \<noteq> cs_id ch \<longrightarrow> lastrecv rt' k = lastrecv rt k \<and> lastsend st1 k = lastsend st k)"
      using r P(2) by (intro exI [of _ rc'] exI [of _ rt'] exI [of _ b']) simp
  qed (rule P(1))
qed

theorem Pack_Parse_witness:
  "\<exists>out ch1 st1. Pack rtmp_init (Chunk\<lparr>cs_id := 70, timestamp := 7, len := 2, data := [1, 2]\<rparr>) =
      Some (out, ch1, st1)"
proof -
  have "sendable rtmp_init rtmp_init (Chunk\<lparr>cs_id := 70, timestamp := 7, len := 2, data := [1, 2]\<rparr>)"
    by (simp add: sendable_def rtmp_init_def Chunk_def in_sync_def entry_def)
  then show ?thesis using Pack_Parse by blast
qed

text \<open>C1: Media tags sent one after another arrive in order with their type, time and payload,
  for any chunk size both sides use: each call of \<open>SendMedia\<close> returns, and as many calls of
  \<open>Parse\<close> on the concatenated output give the tags back.\<close>

theorem tags_delivered:
  assumes "\<forall>tag \<in> set tags. tag_ok tag" and "0 < mx"
  shows "\<exists>out ch' st'.
    send_tags (rtmp_init\<lparr>chunk_snd_max := mx\<rparr>) Chunk tags = Some (out, ch', st') \<and>
    (\<forall>rc b tail. sb_abs b = out @ tail \<and> 2 \<le> length tail \<and> length (sb_abs b) < 2 ^ 32 \<longrightarrow>
      (\<exists>msgs rt' b'.
         recv_chunks (length tags) (rtmp_init\<lparr>chunk_rec_max := mx\<rparr>) rc b = Some (msgs, rt', b') \<and>
         sb_abs b' = tail \<and> list_all2 tag_received tags msgs))"
  using tags_delivered_lemma [OF assms(1), of "rtmp_init\<lparr>chunk_rec_max := mx\<rparr>"
      "rtmp_init\<lparr>chunk_snd_max := mx\<rparr>" Chunk] assms(2)
  by (auto simp: rtmp_init_def Chunk_def in_sync_def entry_def)

theorem tags_delivered_witness:
  "\<exists>out ch' st'. send_tags (rtmp_init\<lparr>chunk_snd_max := 3\<rparr>) Chunk
     [(replicate 24 9, 20, 40), (replicate 24 8, 24, 80)] = Some (out, ch', st')"
proof -
  have "\<forall>tag \<in> set [(replicate 24 9, 20, 40), (replicate 24 8, 24, 80)]. tag_ok tag"
    by (simp add: tag_ok_def)
  from tags_delivered [OF this, of 3] show ?thesis by auto
qed

lemmas send_defs = SendMedia_def Pack_def pack_chtype_def pack_header_def pack_basic_def
  out24_def out32_def out_stream_id_def Let_def entry_def pack_body.simps rdn_def
  rtmp_init_def Chunk_def

lemmas recv_defs = Parse.simps parse_step_def parse_cs_def parse_header_def in24_def in_ext_def
  in_stream_id_def parse_lengths_def parse_ext_def parse_payload_def sb_peek_def
  sb_available_def sb_size_def pop_empty_def sb_skip_def sb_remove_def u32_add_def
  assignWithoutData_def

lemma recv_chunks_numeral:
  "recv_chunks (numeral k) rt rc b =
     (case Parse rt rc b of
        Some (True, rc, rt, b) \<Rightarrow>
          do { (cs, rt, b) \<leftarrow> recv_chunks (pred_numeral k) rt rc b; Some (rc # cs, rt, b) }
      | _ \<Rightarrow> None)"
  by (simp add: numeral_eq_Suc)

text \<open>The condition on the delta is needed: the chunk \<open>SendMedia\<close> keeps between calls is shared
  by all channels, so a message sent without a timestamp leaves another channel's delta in the
  entry of its own. Audio at 10, video at 5, then audio at 20 and 25 reaches the receiver
  as audio at 10, 20 and 30.\<close>

theorem SendMedia_stale_delta:
  "do {
     (o1, ch, st) \<leftarrow> SendMedia rtmp_init Chunk 8 [1] 10;
     (o2, ch, st) \<leftarrow> SendMedia st ch 9 [2] 5;
     (o3, ch, st) \<leftarrow> SendMedia st ch 8 [3] 20;
     (o4, ch, st) \<leftarrow> SendMedia st ch 8 [4] 25;
     (cs, rt, b) \<leftarrow> recv_chunks 4 rtmp_init Chunk
       \<lparr>chunks = [o1 @ o2 @ o3 @ o4 @ [0, 0]], splitter = [10]\<rparr>;
     Some (map timestamp cs) } = Some [10, 5, 20, 30]"
  by (simp add: send_defs recv_defs recv_chunks_numeral)

text \<open>Extended timestamps are not transmitted faithfully: a gap of \<open>0x2000000\<close> after time 5 is
  read back as the time \<open>0x2000000\<close>, because the sender writes the difference and the receiver
  reads a time.\<close>

theorem extended_delta_misread:
  "do {
     (o1, ch, st) \<leftarrow> SendMedia rtmp_init Chunk 8 [1] 5;
     (o2, ch, st) \<leftarrow> SendMedia st ch 8 [2] 0x2000005;
     (cs, rt, b) \<leftarrow> recv_chunks 2 rtmp_init Chunk
       \<lparr>chunks = [o1 @ o2 @ [0, 0]], splitter = [10]\<rparr>;
     Some (map timestamp cs) } = Some [5, 0x2000000]"
  by (simp add: send_defs recv_defs recv_chunks_numeral)

lemma extended_sign_misread:
  "do {
     (o1, ch, st) \<leftarrow> SendMedia rtmp_init Chunk 8 [1] 0x80000005;
     (cs, rt, b) \<leftarrow> recv_chunks 1 rtmp_init Chunk
       \<lparr>chunks = [o1 @ [0, 0]], splitter = [10]\<rparr>;
     Some (map timestamp cs) } = Some [0xffffffff80000005]"
  by (simp add: send_defs recv_defs)

lemma short_tail_stalls:
  "do {
     (o1, ch, st) \<leftarrow> SendMedia rtmp_init Chunk 8 [1] 10;
     (o2, ch, st) \<leftarrow> SendMedia st ch 8 [2] 20;
     (r1, rc, rt, b) \<leftarrow> Parse rtmp_init Chunk \<lparr>chunks = [o1 @ o2], splitter = [10]\<rparr>;
     (r2, rc, rt, b) \<leftarrow> Parse rt rc b;
     Some (r1, r2, sb_abs b = o2) } = Some (True, False, True)"
  by (simp add: send_defs recv_defs sb_abs_def)

section \<open>The handshake\<close>

text \<open>The lemmas hold for any keyed digest \<open>hm\<close> of 32 bytes; the code's is \<open>handshake_mac\<close>.\<close>

definition handshake_mac :: "bytes \<Rightarrow> bytes \<Rightarrow> bytes" where
  "handshake_mac msg key = hmac_shabin msg key SHA256"

lemma length_handshake_mac: "length (handshake_mac msg key) = 32"
  by (simp add: handshake_mac_def length_hmac_shabin sha_bytes_def)

definition genuineFMSKey :: bytes where
  "genuineFMSKey = [
    0x47, 0x65, 0x6e, 0x75, 0x69, 0x6e, 0x65, 0x20, 0x41, 0x64, 0x6f, 0x62, 0x65, 0x20, 0x46,
    0x6c, 0x61, 0x73, 0x68, 0x20, 0x4d, 0x65, 0x64, 0x69, 0x61, 0x20, 0x53, 0x65, 0x72, 0x76,
    0x65, 0x72, 0x20, 0x30, 0x30, 0x31, 0xf0, 0xee, 0xc2, 0x4a, 0x80, 0x68, 0xbe, 0xe8, 0x2e,
    0x0, 0xd0, 0xd1, 0x2, 0x9e, 0x7e, 0x57, 0x6e, 0xec, 0x5d, 0x2d, 0x29, 0x80, 0x6f, 0xab,
    0x93, 0xb8, 0xe6, 0x36, 0xcf, 0xeb, 0x31, 0xae]"

definition genuineFPKey :: bytes where
  "genuineFPKey = [
    0x47, 0x65, 0x6e, 0x75, 0x69, 0x6e, 0x65, 0x20, 0x41, 0x64, 0x6f, 0x62, 0x65, 0x20, 0x46,
    0x6c, 0x61, 0x73, 0x68, 0x20, 0x50, 0x6c, 0x61, 0x79, 0x65, 0x72, 0x20, 0x30, 0x30, 0x31,
    0xf0, 0xee, 0xc2, 0x4a, 0x80, 0x68, 0xbe, 0xe8, 0x2e, 0x0, 0xd0, 0xd1, 0x2, 0x9e, 0x7e,
    0x57, 0x6e, 0xec, 0x5d, 0x2d, 0x29, 0x80, 0x6f, 0xab, 0x93, 0xb8, 0xe6, 0x36, 0xcf, 0xeb,
    0x31, 0xae]"

text \<open>\<open>FILLER_DATA\<close>, with the zero byte that ends the literal.\<close>

definition FILLER_DATA :: bytes where
  "FILLER_DATA = str (
    ''Lorem ipsum dolor sit amet, consectetur adipiscing elit. Praesent commodo '' @
    ''vulputate urna eu commodo. Cras tempor velit nec nulla placerat volutpat. Proin '' @
    ''eleifend blandit quam sit amet suscipit. Pellentesque vitae tristique lorem. '' @
    ''Maecenas facilisis consequat neque, vitae iaculis eros vulputate ut. Suspendisse'' @
    '' ut arcu non eros vestibulum pulvinar id sed erat. Nam dictum tellus vel tellus '' @
    ''rhoncus ut mollis tellus fermentum. Fusce volutpat consectetur ante, in mollis '' @
    ''nisi euismod vulputate. Curabitur vitae facilisis ligula. Sed sed gravida dolor.'' @
    '' Integer eu eros a dolor lobortis ullamcorper. Mauris interdum elit non neque '' @
    ''interdum dictum. Suspendisse imperdiet eros sed sapien cursus pulvinar. '' @
    ''Vestibulum ut dolor lectus, id commodo elit. Cras convallis varius leo eu porta.'' @
    '' Duis luctus sapien nec dui adipiscing quis interdum nunc congue. Morbi pharetra'' @
    '' aliquet mauris vitae tristique. Etiam feugiat sapien quis augue elementum id '' @
    ''ultricies magna vulputate. Phasellus luctus, leo id egestas consequat, eros '' @
    ''tortor commodo neque, vitae hendrerit nunc sem ut odio.'') @ [0]"

definition GetDigestOffset :: "bytes \<Rightarrow> byte \<Rightarrow> nat option" where
  "GetDigestOffset p scheme =
     (if scheme = 0 then
        do { a \<leftarrow> rd p 8; b \<leftarrow> rd p 9; c \<leftarrow> rd p 10; d \<leftarrow> rd p 11;
             Some ((unat a + unat b + unat c + unat d) mod 728 + 12) }
      else
        do { a \<leftarrow> rd p 772; b \<leftarrow> rd p 773; c \<leftarrow> rd p 774; d \<leftarrow> rd p 775;
             Some ((unat a + unat b + unat c + unat d) mod 728 + 776) })"

definition ValidateClientScheme ::
  "(bytes \<Rightarrow> bytes \<Rightarrow> bytes) \<Rightarrow> bytes \<Rightarrow> byte \<Rightarrow> bool option" where
  "ValidateClientScheme hm p scheme =
     do { off \<leftarrow> GetDigestOffset p scheme;
          a \<leftarrow> rdn p 0 off;
          b \<leftarrow> rdn p (off + 32) (1536 - off - 32);
          digest \<leftarrow> rdn p off 32;
          Some (digest = hm (a @ b) (take 30 genuineFPKey)) }"

text \<open>The server's 3072 bytes before the digests: time, version and filler.\<close>

definition handshake_server :: bytes where
  "handshake_server = [0, 0, 0, 0, 1, 2, 3, 4] @
     map (\<lambda>i. FILLER_DATA ! (i mod length FILLER_DATA)) [8..<3072]"

lemma length_handshake_server: "length handshake_server = 3072"
  unfolding handshake_server_def length_append length_map length_upt by simp

definition doHandshake ::
  "(bytes \<Rightarrow> bytes \<Rightarrow> bytes) \<Rightarrow> rtmp \<Rightarrow> bytes \<Rightarrow> bytes \<Rightarrow> (bool \<times> bytes \<times> rtmp) option" where
  "doHandshake hm st handshake_in handshake_out =
     (if length handshake_in < 1537 then Some (False, handshake_out, st)
      else do {
        Version \<leftarrow> rd handshake_in 0;
        let Client = drop 1 handshake_in;
        let Server = handshake_server;
        scheme0 \<leftarrow> ValidateClientScheme hm Client 0;
        scheme1 \<leftarrow> ValidateClientScheme hm Client 1;
        let scheme = (if scheme1 then 1 else if scheme0 then 0 else 5);
        serverDigestOffset \<leftarrow> GetDigestOffset Server scheme;
        keyChallengeIndex \<leftarrow> GetDigestOffset Client scheme;
        a \<leftarrow> rdn Server 0 serverDigestOffset;
        b \<leftarrow> rdn Server (serverDigestOffset + 32) (1504 - serverDigestOffset);
        Server \<leftarrow> wrn Server serverDigestOffset (hm (a @ b) (take 36 genuineFMSKey));
        Server \<leftarrow>
          (if scheme = 5 \<and> Version = 3 then
             do { c \<leftarrow> rdn Client 0 1536; wrn Server 1536 c }
           else
             do { k \<leftarrow> rdn Client keyChallengeIndex 32;
                  d \<leftarrow> rdn Server 1536 (1536 - 32);
                  wrn Server (1536 * 2 - 32) (hm d (hm k (take 68 genuineFMSKey))) });
        Some (True, Version # Server,
          st\<lparr>rec_cnt := rec_cnt st + 1537, snd_cnt := (snd_cnt st + 3073) mod 2 ^ 64\<rparr>) })"

lemma GetDigestOffset_bounds:
  assumes "776 \<le> length p"
  shows "\<exists>off. GetDigestOffset p scheme = Some off \<and> off + 32 \<le> 1536 \<and>
    12 \<le> off \<and> (scheme \<noteq> 0 \<longrightarrow> 776 \<le> off)"
proof -
  have m: "n mod 728 < 728" for n :: nat by simp
  show ?thesis using assms m [of "unat (p ! 8) + unat (p ! 9) + unat (p ! 10) + unat (p ! 11)"]
      m [of "unat (p ! 772) + unat (p ! 773) + unat (p ! 774) + unat (p ! 775)"]
    by (auto simp: GetDigestOffset_def rd_in)
qed

lemma GetDigestOffset_cong:
  assumes "\<And>k. k < 12 \<or> scheme \<noteq> 0 \<and> k < 776 \<Longrightarrow> rd q k = rd p k"
  shows "GetDigestOffset q scheme = GetDigestOffset p scheme"
  using assms by (simp add: GetDigestOffset_def)

lemma ValidateClientScheme_total:
  assumes "1536 \<le> length p"
  shows "\<exists>r. ValidateClientScheme hm p scheme = Some r"
proof -
  obtain off where "GetDigestOffset p scheme = Some off" "off + 32 \<le> 1536"
    using GetDigestOffset_bounds [of p scheme] assms by auto
  then show ?thesis using assms by (simp add: ValidateClientScheme_def rdn_def)
qed

text \<open>What a client checks of the server's first 1536 bytes \<open>p\<close>.\<close>

definition server_digest_ok :: "(bytes \<Rightarrow> bytes \<Rightarrow> bytes) \<Rightarrow> bytes \<Rightarrow> byte \<Rightarrow> bool" where
  "server_digest_ok hm p scheme \<longleftrightarrow>
     (\<exists>off. GetDigestOffset p scheme = Some off \<and> off + 32 \<le> length p \<and>
        take 32 (drop off p) = hm (take off p @ drop (off + 32) p) (take 36 genuineFMSKey))"

lemma wrn_total: "i + length bs \<le> length m \<Longrightarrow> \<exists>m'. wrn m i bs = Some m'"
  by (simp add: wrn_def)

lemma server_digest_written:
  assumes p: "length p = 3072" and off: "GetDigestOffset p scheme = Some off"
    and h: "length h = 32" "h = hm (take off p @ take (1504 - off) (drop (off + 32) p)) (take 36 genuineFMSKey)"
    and w: "wrn p off h = Some q" and q: "take 1536 r = take 1536 q" "length r = 3072"
  shows "server_digest_ok hm (take 1536 r) scheme"
proof -
  have b: "off + 32 \<le> 1536" "12 \<le> off" "scheme \<noteq> 0 \<Longrightarrow> 776 \<le> off"
    using GetDigestOffset_bounds [of p scheme] p off by auto
  have lq: "length q = 3072" using wrn_length [OF w] p by simp
  have q': "q = take off p @ h @ drop (off + 32) p"
    using w h(1) by (auto simp: wrn_def split: if_splits)
  have "rd (take 1536 q) k = rd p k" if "k < off" for k
    using that b(1) p by (auto simp: q' rd_def nth_append)
  then have "GetDigestOffset (take 1536 q) scheme = GetDigestOffset p scheme"
    using b(2,3) by (intro GetDigestOffset_cong) (metis less_le_trans)
  moreover have "take 32 (drop off (take 1536 q)) = h"
    using b(1) p h(1) by (simp add: q' take_drop)
  moreover have "take off (take 1536 q) = take off p" using b(1) p by (simp add: q')
  moreover have "drop (off + 32) (take 1536 q) = take (1504 - off) (drop (off + 32) p)"
    using b(1) p h(1) by (simp add: q' drop_take)
  ultimately show ?thesis using off b(1) lq h q by (auto simp: server_digest_ok_def)
qed

lemma doHandshake_total:
  assumes hm: "\<forall>d k. length (hm d k) = 32" and inp: "1537 \<le> length handshake_in"
  shows "\<exists>out st' scheme. doHandshake hm st handshake_in old = Some (True, out, st') \<and>
    length out = 3073 \<and> out ! 0 = handshake_in ! 0 \<and>
    server_digest_ok hm (take 1536 (drop 1 out)) scheme \<and>
    (ValidateClientScheme hm (drop 1 handshake_in) 1 = Some True \<longrightarrow> scheme = 1) \<and>
    (ValidateClientScheme hm (drop 1 handshake_in) 1 = Some False \<and>
     ValidateClientScheme hm (drop 1 handshake_in) 0 = Some True \<longrightarrow> scheme = 0) \<and>
    (ValidateClientScheme hm (drop 1 handshake_in) 1 = Some False \<and>
     ValidateClientScheme hm (drop 1 handshake_in) 0 = Some False \<and> handshake_in ! 0 = 3 \<longrightarrow>
       drop 1537 out = take 1536 (drop 1 handshake_in))"
proof -
  let ?C = "drop 1 handshake_in"
  have lC: "1536 \<le> length ?C" using inp by simp
  obtain s0 where s0: "ValidateClientScheme hm ?C 0 = Some s0"
    using ValidateClientScheme_total [OF lC] by blast
  obtain s1 where s1: "ValidateClientScheme hm ?C 1 = Some s1"
    using ValidateClientScheme_total [OF lC] by blast
  define scheme :: byte where "scheme = (if s1 then 1 else if s0 then 0 else 5)"
  define S where "S = handshake_server"
  have lS: "length S = 3072" by (simp add: S_def length_handshake_server)
  obtain off where off: "GetDigestOffset S scheme = Some off" "off + 32 \<le> 1536"
    using GetDigestOffset_bounds [of S scheme] lS by auto
  obtain key where key: "GetDigestOffset ?C scheme = Some key" "key + 32 \<le> 1536"
    using GetDigestOffset_bounds [of ?C scheme] lC by auto
  define h where "h = hm (take off S @ take (1504 - off) (drop (off + 32) S)) (take 36 genuineFMSKey)"
  obtain q where q: "wrn S off h = Some q" using wrn_total [of off h S] hm off lS by (auto simp: h_def)
  have lq: "length q = 3072" using wrn_length [OF q] lS by simp
  define second :: "nat \<times> bytes" where "second = (if scheme = 5 \<and> handshake_in ! 0 = 3 then (1536, take 1536 ?C)
    else (3040, hm (take 1504 (drop 1536 q)) (hm (take 32 (drop key ?C)) (take 68 genuineFMSKey))))"
  have bnd: "1536 \<le> fst second" "fst second + length (snd second) \<le> length q"
    using hm lC lq by (auto simp: second_def)
  obtain r where r: "wrn q (fst second) (snd second) = Some r" using wrn_total [OF bnd(2)] by blast
  have lr: "length r = 3072" using wrn_length [OF r] lq by simp
  have first: "take 1536 r = take 1536 q"
    using wrn_take [OF r] bnd(1) by (metis min.absorb1 take_take)
  have rd0: "rd handshake_in 0 = Some (handshake_in ! 0)" using inp by (intro rd_in) linarith
  have run: "\<exists>st'. doHandshake hm st handshake_in old = Some (True, handshake_in ! 0 # r, st')"
    using inp rd0 s0 s1 off key q r lC lS lq
    by (auto simp: doHandshake_def Let_def S_def [symmetric] scheme_def [symmetric] rdn_def
        h_def [symmetric] second_def split: if_splits)
  have "server_digest_ok hm (take 1536 r) scheme"
    using hm by (intro server_digest_written [where h = h and hm = hm, OF lS off(1) _ h_def q first lr]) (simp add: h_def)
  moreover have "drop 1536 r = take 1536 ?C" if "scheme = 5" "handshake_in ! 0 = 3"
    using r that lC lq by (auto simp: second_def wrn_def split: if_splits)
  ultimately show ?thesis using run s0 s1 lr by (fastforce simp: scheme_def)
qed

text \<open>C35: The handshake answers every client: given the 1537 bytes of its first packet, \<open>doHandshake\<close>
  returns 3073 bytes that start with the client's version and carry a digest a client can verify at
  the offset it computes for the digest scheme in use, and stays inside both packets while doing so. A client
  that uses neither digest scheme and asks for version 3 gets its own 1536 bytes back as the
  second half.\<close>

theorem doHandshake_answer:
  assumes "1537 \<le> length handshake_in"
  shows "\<exists>out st' scheme. doHandshake handshake_mac st handshake_in old = Some (True, out, st') \<and>
    length out = 3073 \<and> out ! 0 = handshake_in ! 0 \<and>
    server_digest_ok handshake_mac (take 1536 (drop 1 out)) scheme \<and>
    (ValidateClientScheme handshake_mac (drop 1 handshake_in) 1 = Some True \<longrightarrow> scheme = 1) \<and>
    (ValidateClientScheme handshake_mac (drop 1 handshake_in) 1 = Some False \<and>
     ValidateClientScheme handshake_mac (drop 1 handshake_in) 0 = Some True \<longrightarrow> scheme = 0) \<and>
    (ValidateClientScheme handshake_mac (drop 1 handshake_in) 1 = Some False \<and>
     ValidateClientScheme handshake_mac (drop 1 handshake_in) 0 = Some False \<and> handshake_in ! 0 = 3 \<longrightarrow>
       drop 1537 out = take 1536 (drop 1 handshake_in))"
  using assms by (intro doHandshake_total) (simp_all add: length_handshake_mac)

theorem doHandshake_answer_witness:
  "\<exists>out st'. doHandshake handshake_mac rtmp_init (3 # replicate 1536 0) [] =
     Some (True, out, st') \<and> length out = 3073"
  using doHandshake_answer [of "3 # replicate 1536 0" rtmp_init "[]"] by auto

end
