(* ===== verification/Amf.thy ===== *)
theory Amf
  imports Doubles
begin

text \<open>
  AMF0 values (\<open>lib/amf.cpp\<close>, \<open>lib/amf.h\<close>): the class \<open>AMF::Object\<close> with its constructors and
  accessors, the serialisation \<open>Pack\<close> and the parsers \<open>parseOne\<close> and \<open>parse\<close>. A \<open>double\<close> is its
  IEEE 754 bit pattern, as in \<open>Doubles\<close>. Positions
  and lengths in the parser are 32-bit words, as in the code, and wrap around.

  The parser works on a memory area \<open>dat\<close> of which the message is the first \<open>len\<close> bytes; \<open>None\<close>
  is an access outside of the area, the overflow of a signed number, or recursion deeper than the fuel. The parsers count the errors
  they add to \<open>amfErrors\<close> in the last component of their result.
\<close>

section \<open>Objects\<close>

datatype obj0type =
    AMF0_NUMBER | AMF0_BOOL | AMF0_STRING | AMF0_OBJECT | AMF0_MOVIECLIP | AMF0_NULL
  | AMF0_UNDEFINED | AMF0_REFERENCE | AMF0_ECMA_ARRAY | AMF0_OBJ_END | AMF0_STRICT_ARRAY
  | AMF0_DATE | AMF0_LONGSTRING | AMF0_UNSUPPORTED | AMF0_RECORDSET | AMF0_XMLDOC
  | AMF0_TYPED_OBJ | AMF0_UPGRADE | AMF0_DDV_CONTAINER

fun type_code :: "obj0type \<Rightarrow> byte" where
  "type_code AMF0_NUMBER = 0x00"
| "type_code AMF0_BOOL = 0x01"
| "type_code AMF0_STRING = 0x02"
| "type_code AMF0_OBJECT = 0x03"
| "type_code AMF0_MOVIECLIP = 0x04"
| "type_code AMF0_NULL = 0x05"
| "type_code AMF0_UNDEFINED = 0x06"
| "type_code AMF0_REFERENCE = 0x07"
| "type_code AMF0_ECMA_ARRAY = 0x08"
| "type_code AMF0_OBJ_END = 0x09"
| "type_code AMF0_STRICT_ARRAY = 0x0A"
| "type_code AMF0_DATE = 0x0B"
| "type_code AMF0_LONGSTRING = 0x0C"
| "type_code AMF0_UNSUPPORTED = 0x0D"
| "type_code AMF0_RECORDSET = 0x0E"
| "type_code AMF0_XMLDOC = 0x0F"
| "type_code AMF0_TYPED_OBJ = 0x10"
| "type_code AMF0_UPGRADE = 0x11"
| "type_code AMF0_DDV_CONTAINER = 0xFF"

datatype amf =
  Obj (Indice: bytes) (GetType: obj0type) (StrValue: bytes) (NumValue: u64) (contents: "amf list")

definition Object :: amf where
  "Object = Obj [] AMF0_DDV_CONTAINER [] 0 []"

definition Object_type :: "obj0type \<Rightarrow> amf" where
  "Object_type t = Obj [] t [] 0 []"

definition Object_num :: "bytes \<Rightarrow> u64 \<Rightarrow> obj0type \<Rightarrow> amf" where
  "Object_num ind val t = Obj ind t [] val []"

definition Object_str :: "bytes \<Rightarrow> bytes \<Rightarrow> obj0type \<Rightarrow> amf" where
  "Object_str ind val t = Obj ind t val 0 []"

definition Object_cont :: "bytes \<Rightarrow> obj0type \<Rightarrow> amf" where
  "Object_cont ind t = Obj ind t [] 0 []"

definition error_object :: amf where
  "error_object = Object_cont (str ''error'') AMF0_DDV_CONTAINER"

definition hasContent :: "amf \<Rightarrow> nat" where
  "hasContent ob = length (contents ob)"

definition hasContent_named :: "amf \<Rightarrow> bytes \<Rightarrow> bool" where
  "hasContent_named ob s \<longleftrightarrow> list_ex (\<lambda>c. Indice c = s) (contents ob)"

definition addContent :: "amf \<Rightarrow> amf \<Rightarrow> amf" where
  "addContent ob c = Obj (Indice ob) (GetType ob) (StrValue ob) (NumValue ob) (contents ob @ [c])"

definition getContent :: "amf \<Rightarrow> nat \<Rightarrow> amf" where
  "getContent ob i = (if i \<ge> length (contents ob) then error_object else contents ob ! i)"

definition getContent_named :: "amf \<Rightarrow> bytes \<Rightarrow> amf" where
  "getContent_named ob s =
     (case find (\<lambda>c. Indice c = s) (contents ob) of Some c \<Rightarrow> c | None \<Rightarrow> error_object)"

section \<open>Serialisation\<close>

text \<open>\<open>size / 256\<close>, \<open>size % 256\<close> and so on, narrowed to a character each.\<close>

definition out_size2 :: "nat \<Rightarrow> bytes" where
  "out_size2 n = [of_nat (n div 256), of_nat (n mod 256)]"

definition out_size4 :: "nat \<Rightarrow> bytes" where
  "out_size4 n = [of_nat (n div (256 * 256 * 256)), of_nat (n div (256 * 256)), of_nat (n div 256),
     of_nat (n mod 256)]"

text \<open>The number of the members of an array is an \<open>int\<close>: it wraps around at 2 to the power of 31, and its quotients are
  rounded towards zero.\<close>

definition out_arrlen :: "nat \<Rightarrow> bytes" where
  "out_arrlen n =
     (let arrlen = sint (of_nat n :: u32);
          quot = (\<lambda>d. of_int (sgn arrlen * (\<bar>arrlen\<bar> div d)))
      in [quot (256 * 256 * 256), quot (256 * 256), quot 256, of_int (sgn arrlen * (\<bar>arrlen\<bar> mod 256))])"

text \<open>Division and remainder of C round towards zero.\<close>

definition out_reference :: "int \<Rightarrow> bytes" where
  "out_reference v = [of_int (sgn v * (\<bar>v\<bar> div 256)), of_int (sgn v * (\<bar>v\<bar> mod 256))]"

definition pack_type :: "obj0type \<Rightarrow> bytes \<Rightarrow> obj0type" where
  "pack_type t s = (if t = AMF0_STRING \<and> length s > 0xFFFF then AMF0_LONGSTRING else t)"

text \<open>\<open>Pack\<close> returns the bytes and the object, whose type it may have changed. \<open>None\<close> is a
  conversion of a double out of the range of \<open>char\<close> or \<open>int\<close>.\<close>

fun Pack :: "amf \<Rightarrow> (bytes \<times> amf) option"
  and pack_props :: "amf list \<Rightarrow> (bytes \<times> amf list) option"
  and pack_items :: "amf list \<Rightarrow> (bytes \<times> amf list) option" where
  "Pack (Obj ind t0 s v cs) =
     (let t = pack_type t0 s;
          r = (if t \<noteq> AMF0_DDV_CONTAINER then [type_code t] else []);
          me = Obj ind t s v
      in case t of
           AMF0_NUMBER \<Rightarrow> Some (r @ be_bytes 8 v, me cs)
         | AMF0_DATE \<Rightarrow> Some (r @ be_bytes 8 v @ [0, 0], me cs)
         | AMF0_BOOL \<Rightarrow>
             (case dbl_to_int v of
                Some b \<Rightarrow> if 0 \<le> b \<and> b < 256 then Some (r @ [of_int b], me cs) else None
              | None \<Rightarrow> None)
         | AMF0_STRING \<Rightarrow> Some (r @ out_size2 (length s) @ s, me cs)
         | AMF0_LONGSTRING \<Rightarrow> Some (r @ out_size4 (length s) @ s, me cs)
         | AMF0_XMLDOC \<Rightarrow> Some (r @ out_size4 (length s) @ s, me cs)
         | AMF0_TYPED_OBJ \<Rightarrow>
             do { (b, cs) \<leftarrow> pack_props cs;
                  Some (r @ out_size2 (length ind) @ ind @ b @ [0, 0, 9], me cs) }
         | AMF0_OBJECT \<Rightarrow> do { (b, cs) \<leftarrow> pack_props cs; Some (r @ b @ [0, 0, 9], me cs) }
         | AMF0_REFERENCE \<Rightarrow>
             (case dbl_to_int v of
                Some n \<Rightarrow> if - (2 ^ 31) \<le> n \<and> n < 2 ^ 31 then Some (r @ out_reference n, me cs) else None
              | None \<Rightarrow> None)
         | AMF0_ECMA_ARRAY \<Rightarrow>
             do { (b, cs) \<leftarrow> pack_props cs;
                  Some (r @ out_arrlen (length cs) @ b @ [0, 0, 9], me cs) }
         | AMF0_STRICT_ARRAY \<Rightarrow>
             do { (b, cs) \<leftarrow> pack_items cs; Some (r @ out_arrlen (length cs) @ b, me cs) }
         | AMF0_DDV_CONTAINER \<Rightarrow> do { (b, cs) \<leftarrow> pack_items cs; Some (r @ b, me cs) }
         | _ \<Rightarrow> Some (r, me cs))"
| "pack_props [] = Some ([], [])"
| "pack_props (c # cs) =
     do { (b, c') \<leftarrow> Pack c; (bs, cs') \<leftarrow> pack_props cs;
          Some (out_size2 (length (Indice c)) @ Indice c @ b @ bs, c' # cs') }"
| "pack_items [] = Some ([], [])"
| "pack_items (c # cs) =
     do { (b, c') \<leftarrow> Pack c; (bs, cs') \<leftarrow> pack_items cs; Some (b @ bs, c' # cs') }"

section \<open>Parsing\<close>

text \<open>\<open>at dat i\<close> is \<open>data[i]\<close> for an unsigned 32-bit \<open>i\<close>, \<open>be_at\<close> reads some bytes in a row.\<close>

definition at :: "bytes \<Rightarrow> u32 \<Rightarrow> byte option" where
  "at dat i = rd dat (unat i)"

fun bytes_at :: "bytes \<Rightarrow> u32 \<Rightarrow> nat \<Rightarrow> bytes option" where
  "bytes_at dat i 0 = Some []"
| "bytes_at dat i (Suc n) = do { b \<leftarrow> at dat i; bs \<leftarrow> bytes_at dat (i + 1) n; Some (b # bs) }"

definition in_dbl :: "bytes \<Rightarrow> u32 \<Rightarrow> u32 \<Rightarrow> u64 option" where
  "in_dbl dat len i =
     (if i + 8 < len then do { bs \<leftarrow> bytes_at dat (i + 1) 8; Some (be_val bs) } else Some 0)"

definition in_size2 :: "bytes \<Rightarrow> u32 \<Rightarrow> u32 option" where
  "in_size2 dat i = do { a \<leftarrow> at dat i; b \<leftarrow> at dat (i + 1); Some (ucast a * 256 + ucast b) }"

text \<open>Four bytes are put together as an \<open>int\<close>, which overflows when the first one is 128 or more.\<close>

definition in_size4 :: "bytes \<Rightarrow> u32 \<Rightarrow> u32 option" where
  "in_size4 dat i =
     do { a \<leftarrow> at dat i; b \<leftarrow> at dat (i + 1); c \<leftarrow> at dat (i + 2); d \<leftarrow> at dat (i + 3);
          if 0x80 \<le> a then None
          else Some (ucast a * 256 * 256 * 256 + ucast b * 256 * 256 + ucast c * 256 + ucast d) }"

text \<open>A string of \<open>tmpi\<close> bytes that starts \<open>k\<close> bytes after \<open>i\<close>, cut at the end of the message, and
  its length.\<close>

definition in_string :: "bytes \<Rightarrow> u32 \<Rightarrow> u32 \<Rightarrow> u32 \<Rightarrow> u32 \<Rightarrow> (bytes \<times> u32) option" where
  "in_string dat len i k tmpi =
     (let tmpi = (if tmpi + i + k \<ge> len then len - i - k else tmpi)
      in do { s \<leftarrow> rdn dat (unat i + unat k) (unat tmpi); Some (s, tmpi) })"

type_synonym 'a parsed = "('a \<times> u32 \<times> nat) option"

text \<open>The loops over the members of an object (\<open>clamp\<close> tells whether names are cut at the end
  of the message) and the items of an array; \<open>one\<close> parses a value.\<close>

fun parse_props :: "(u32 \<Rightarrow> bytes \<Rightarrow> amf parsed) \<Rightarrow> bytes \<Rightarrow> u32 \<Rightarrow> bool \<Rightarrow> nat \<Rightarrow> u32 \<Rightarrow> amf list parsed" where
  "parse_props one dat len clamp 0 i = None"
| "parse_props one dat len clamp (Suc f) i =
     (if \<not> i + 1 < len then Some ([], i, 0)
      else do {
        a \<leftarrow> at dat i; b \<leftarrow> at dat (i + 1);
        (if a = 0 \<and> b = 0 then Some ([], i, 0)
         else do {
           tmpi \<leftarrow> in_size2 dat i;
           (s, tmpi) \<leftarrow> (if clamp then in_string dat len i 2 tmpi
                        else do { s \<leftarrow> rdn dat (unat i + 2) (unat tmpi); Some (s, tmpi) });
           (c, i, e) \<leftarrow> one (i + (tmpi + 2)) s;
           (cs, i, e') \<leftarrow> parse_props one dat len clamp f i;
           Some (c # cs, i, e + e') }) })"

fun parse_items :: "(u32 \<Rightarrow> bytes \<Rightarrow> amf parsed) \<Rightarrow> nat \<Rightarrow> u32 \<Rightarrow> u32 \<Rightarrow> amf list parsed" where
  "parse_items one 0 i tmpi = None"
| "parse_items one (Suc f) i tmpi =
     (if tmpi = 0 then Some ([], i, 0)
      else do {
        (c, i, e) \<leftarrow> one i (str ''arrVal'');
        (cs, i, e') \<leftarrow> parse_items one f i (tmpi - 1);
        Some (c # cs, i, e + e') })"

text \<open>The values that hold no others, and those that do; the constructor of the result gets the
  members.\<close>

definition parse_leaf :: "bytes \<Rightarrow> u32 \<Rightarrow> u32 \<Rightarrow> bytes \<Rightarrow> obj0type \<Rightarrow> amf parsed" where
  "parse_leaf dat len i name t =
     (case t of
        AMF0_NUMBER \<Rightarrow> do { d \<leftarrow> in_dbl dat len i; Some (Object_num name d AMF0_NUMBER, i + 9, 0) }
      | AMF0_DATE \<Rightarrow> do { d \<leftarrow> in_dbl dat len i; Some (Object_num name d AMF0_DATE, i + 11, 0) }
      | AMF0_BOOL \<Rightarrow>
          do { b \<leftarrow> at dat (i + 1);
               Some (Object_num name (if b = 0 then nat_to_dbl 0 else nat_to_dbl 1) AMF0_BOOL, i + 2, 0) }
      | AMF0_REFERENCE \<Rightarrow>
          do { tmpi \<leftarrow> in_size2 dat (i + 1);
               Some (Object_num name (nat_to_dbl (unat tmpi)) AMF0_REFERENCE, i + 3, 0) }
      | AMF0_XMLDOC \<Rightarrow>
          do { tmpi \<leftarrow> in_size4 dat (i + 1); (s, tmpi) \<leftarrow> in_string dat len i 5 tmpi;
               Some (Object_str name s AMF0_XMLDOC, i + (tmpi + 5), 0) }
      | AMF0_LONGSTRING \<Rightarrow>
          do { tmpi \<leftarrow> in_size4 dat (i + 1); (s, tmpi) \<leftarrow> in_string dat len i 5 tmpi;
               Some (Object_str name s AMF0_LONGSTRING, i + (tmpi + 5), 0) }
      | AMF0_STRING \<Rightarrow>
          do { tmpi \<leftarrow> in_size2 dat (i + 1); (s, tmpi) \<leftarrow> in_string dat len i 3 tmpi;
               Some (Object_str name s AMF0_STRING, i + (tmpi + 3), 0) }
      | AMF0_NULL \<Rightarrow> Some (Object_num name 0 AMF0_NULL, i + 1, 0)
      | AMF0_UNDEFINED \<Rightarrow> Some (Object_num name 0 AMF0_UNDEFINED, i + 1, 0)
      | AMF0_UNSUPPORTED \<Rightarrow> Some (Object_num name 0 AMF0_UNSUPPORTED, i + 1, 0)
      | _ \<Rightarrow> Some (error_object, len, 1))"

definition parse_body ::
  "(u32 \<Rightarrow> bytes \<Rightarrow> amf parsed) \<Rightarrow> nat \<Rightarrow> bytes \<Rightarrow> u32 \<Rightarrow> u32 \<Rightarrow> bytes \<Rightarrow> obj0type \<Rightarrow> amf parsed" where
  "parse_body one f dat len i name t =
     (case t of
        AMF0_OBJECT \<Rightarrow>
          do { (cs, i, e) \<leftarrow> parse_props one dat len True f (i + 1);
               Some (Obj name AMF0_OBJECT [] 0 cs, i + 3, e) }
      | AMF0_TYPED_OBJ \<Rightarrow>
          do { tmpi \<leftarrow> in_size2 dat (i + 1); (s, tmpi) \<leftarrow> in_string dat len (i + 1) 2 tmpi;
               (cs, i, e) \<leftarrow> parse_props one dat len False f (i + 1);
               Some (Obj s AMF0_TYPED_OBJ [] 0 cs, i + 3, e) }
      | AMF0_ECMA_ARRAY \<Rightarrow>
          do { (cs, i, e) \<leftarrow> parse_props one dat len True f (i + 5);
               Some (Obj name AMF0_ECMA_ARRAY [] 0 cs, i + 3, e) }
      | AMF0_STRICT_ARRAY \<Rightarrow>
          do { tmpi \<leftarrow> in_size4 dat (i + 1);
               (cs, i, e) \<leftarrow> parse_items one f (i + 5) tmpi;
               Some (Obj name AMF0_STRICT_ARRAY [] 0 cs, i, e) }
      | _ \<Rightarrow> parse_leaf dat len i name t)"

text \<open>The type a byte stands for; bytes without a \<open>case\<close> are errors, like
  \<open>AMF0_DDV_CONTAINER\<close>.\<close>

definition all_types :: "obj0type list" where
  "all_types = [AMF0_NUMBER, AMF0_BOOL, AMF0_STRING, AMF0_OBJECT, AMF0_MOVIECLIP, AMF0_NULL,
     AMF0_UNDEFINED, AMF0_REFERENCE, AMF0_ECMA_ARRAY, AMF0_OBJ_END, AMF0_STRICT_ARRAY, AMF0_DATE,
     AMF0_LONGSTRING, AMF0_UNSUPPORTED, AMF0_RECORDSET, AMF0_XMLDOC, AMF0_TYPED_OBJ, AMF0_UPGRADE]"

definition type_of :: "byte \<Rightarrow> obj0type" where
  "type_of b = (case find (\<lambda>t. type_code t = b) all_types of Some t \<Rightarrow> t | None \<Rightarrow> AMF0_DDV_CONTAINER)"

primrec parseOne :: "nat \<Rightarrow> bytes \<Rightarrow> u32 \<Rightarrow> u32 \<Rightarrow> bytes \<Rightarrow> amf parsed" where
  "parseOne 0 dat len i name = None"
| "parseOne (Suc f) dat len i name =
     (if i \<ge> len then Some (Object, i, 0)
      else do { t \<leftarrow> at dat i; parse_body (parseOne f dat len) f dat len i name (type_of t) })"

text \<open>The loop of \<open>parse\<close> and \<open>parse\<close> for a C string and a \<open>std::string\<close>, whose bytes a zero byte
  follows.\<close>

fun parse_loop :: "nat \<Rightarrow> bytes \<Rightarrow> u32 \<Rightarrow> u32 \<Rightarrow> u32 \<Rightarrow> (amf list \<times> nat) option" where
  "parse_loop 0 dat len i j = None"
| "parse_loop (Suc f) dat len i j =
     (if i < len then
        do { (c, i, e) \<leftarrow> parseOne f dat len i [];
             (if i > j then
                do { (cs, e') \<leftarrow> parse_loop f dat len i i; Some (c # cs, e + e') }
              else Some ([c], e)) }
      else Some ([], 0))"

definition parse :: "nat \<Rightarrow> bytes \<Rightarrow> u32 \<Rightarrow> (amf \<times> nat) option" where
  "parse fuel dat len =
     do { (cs, e) \<leftarrow> parse_loop fuel dat len 0 0;
          Some (Obj (str ''returned'') AMF0_DDV_CONTAINER [] 0 cs, e) }"

definition parse_string :: "nat \<Rightarrow> bytes \<Rightarrow> (amf \<times> nat) option" where
  "parse_string fuel s = parse fuel (s @ [0]) (of_nat (length s))"

section \<open>Numbers and strings are read back\<close>

lemma unat_less_32: "unat (x :: u32) < 2 ^ 32"
  using unsigned_less [of x, where 'a = nat] by simp

lemma unat_of_nat_u32: "n < 2 ^ 32 \<Longrightarrow> unat (of_nat n :: u32) = n"
  by (simp add: unat_of_nat)

lemma unat_add_nat: "unat (i :: u32) + n < 2 ^ 32 \<Longrightarrow> unat (i + of_nat n) = unat i + n"
  by (simp add: unat_word_ariths unat_of_nat)

lemma at_at:
  "unat i = length pre \<Longrightarrow> length pre + n < 2 ^ 32 \<Longrightarrow> at (pre @ xs) (i + of_nat n) = rd xs n"
  by (simp add: at_def unat_add_nat)

lemma at_0: "unat i = length pre \<Longrightarrow> at (pre @ xs) i = rd xs 0"
  by (simp add: at_def)

lemmas at_k = at_at [where n = 1, simplified] at_at [where n = 2, simplified]
  at_at [where n = 3, simplified]

lemma bytes_at_at:
  "unat i = length pre \<Longrightarrow> length pre + length bs \<le> 2 ^ 32 \<Longrightarrow>
     bytes_at (pre @ bs @ ys) i (length bs) = Some bs"
proof (induction bs arbitrary: pre i)
  case (Cons b bs)
  have "bs = [] \<or> unat (i + 1) = length (pre @ [b])"
    using unat_add_nat [of i 1] Cons.prems by (cases bs) auto
  then have "bytes_at (pre @ (b # bs) @ ys) (i + 1) (length bs) = Some bs"
    using Cons.IH [of "i + 1" "pre @ [b]"] Cons.prems by auto
  then show ?case using Cons.prems by (simp add: at_def)
qed simp

lemma in_dbl_at:
  assumes "unat i = length pre" "length pre + 9 \<le> unat len"
  shows "in_dbl (pre @ t # be_bytes 8 v @ ys) len i = Some v"
proof -
  have l: "unat len < 2 ^ 32" by (rule unat_less_32)
  have u: "unat (i + of_nat 8) = length pre + 8" "unat (i + of_nat 1) = length (pre @ [t])"
    using unat_add_nat [of i 8] unat_add_nat [of i 1] assms l by auto
  then have "i + 8 < len" using assms by (simp add: word_less_nat_alt)
  moreover have "bytes_at ((pre @ [t]) @ be_bytes 8 v @ ys) (i + 1) 8 = Some (be_bytes 8 v)"
    using bytes_at_at [of "i + 1" "pre @ [t]" "be_bytes 8 v" ys] u assms l by simp
  ultimately show ?thesis by (simp add: in_dbl_def be_val_be_bytes_take take_bit_word_eq_self)
qed

lemma ucast_of_nat_byte: "(ucast (of_nat n :: byte) :: u32) = of_nat (n mod 256)"
  by (simp add: unsigned_of_nat take_bit_eq_mod)

lemma in_size2_at:
  assumes "unat i = length pre" "length pre + 1 < 2 ^ 32" "n < 2 ^ 16"
  shows "in_size2 (pre @ out_size2 n @ ys) i = Some (of_nat n)"
proof -
  have "n div 256 mod 256 = n div 256" using assms(3) by simp
  then have "(ucast (of_nat (n div 256) :: byte) :: u32) * 256 + ucast (of_nat (n mod 256) :: byte)
      = of_nat (n div 256 * 256 + n mod 256)"
    by (simp only: ucast_of_nat_byte of_nat_add of_nat_mult of_nat_numeral mod_mod_trivial)
  then show ?thesis using assms at_k(1) [OF assms(1)] by (simp add: in_size2_def out_size2_def at_0)
qed

lemma in_size4_at:
  assumes "unat i = length pre" "length pre + 3 < 2 ^ 32" "n < 2 ^ 31"
  shows "in_size4 (pre @ out_size4 n @ ys) i = Some (of_nat n)"
proof -
  define b where "b k = n div 256 ^ k mod 256" for k
  have d: "n div 256 ^ Suc k = n div 256 ^ k div 256" for k
    by (simp only: power_Suc2 div_mult2_eq)
  have "n = (((b 3) * 256 + b 2) * 256 + b 1) * 256 + b 0"
  proof -
    have "n div 256 ^ 3 mod 256 = n div 256 ^ 3" using assms(3) by simp
    then have "b 3 = n div 256 ^ 3" by (simp add: b_def)
    moreover have "n div 256 ^ k = n div 256 ^ Suc k * 256 + b k" for k
      by (simp only: d b_def div_mult_mod_eq)
    ultimately show ?thesis
      by (metis numeral_3_eq_3 numeral_2_eq_2 One_nat_def power_0 div_by_1)
  qed
  then have "(of_nat n :: u32) = of_nat (b 3 * 256 * 256 * 256 + b 2 * 256 * 256 + b 1 * 256 + b 0)"
    by (simp add: algebra_simps)
  then have "(of_nat n :: u32) = of_nat (b 3) * 256 * 256 * 256 + of_nat (b 2) * 256 * 256
      + of_nat (b 1) * 256 + of_nat (b 0)"
    by (simp only: of_nat_add of_nat_mult of_nat_numeral)
  moreover have "\<not> (0x80 :: byte) \<le> of_nat (n div 256 ^ 3)"
  proof -
    have "n div 256 ^ 3 < 128" using assms(3) by (simp add: div_less_iff_less_mult)
    then show ?thesis by (simp add: word_le_nat_alt unat_of_nat)
  qed
  ultimately show ?thesis using assms at_k [OF assms(1)]
    by (simp add: in_size4_def out_size4_def at_0 ucast_of_nat_byte b_def del: of_nat_mod of_nat_div)
qed

lemma length_out_arrlen [simp]: "length (out_arrlen n) = 4"
  by (simp add: out_arrlen_def Let_def)

lemma array_length_wraps: "out_arrlen (2 ^ 31 + 1) = [0x81, 0x01, 0x01, 0x01]"
  by (simp add: out_arrlen_def)

lemma out_arrlen_size4:
  assumes "n < 2 ^ 31"
  shows "out_arrlen n = out_size4 n"
proof -
  have "sint (of_nat n :: u32) = int n"
    using assms by (simp add: signed_of_nat signed_take_bit_int_eq_self)
  moreover have "sgn (int n) * (\<bar>int n\<bar> div int d) = int (n div d)" "sgn (int n) * (\<bar>int n\<bar> mod int d) = int (n mod d)" for d
    by (cases "n = 0"; simp add: zdiv_int zmod_int)+
  from this [of 256] this(1) [of "256 * 256"] this(1) [of "256 * 256 * 256"]
  have "sgn (int n) * (\<bar>int n\<bar> div (256 * 256 * 256)) = int (n div (256 * 256 * 256))"
    "sgn (int n) * (\<bar>int n\<bar> div (256 * 256)) = int (n div (256 * 256))"
    "sgn (int n) * (\<bar>int n\<bar> div 256) = int (n div 256)" "sgn (int n) * (\<bar>int n\<bar> mod 256) = int (n mod 256)"
    by simp_all
  ultimately show ?thesis by (simp only: out_arrlen_def out_size4_def Let_def of_int_of_nat_eq)
qed

lemma in_string_at:
  assumes "unat i + unat k = length pre" "length pre + length s \<le> unat len"
  shows "in_string (pre @ s @ ys) len i k (of_nat (length s)) = Some (s, of_nat (length s))"
proof -
  have l: "unat len < 2 ^ 32" by (rule unat_less_32)
  have "unat (of_nat (length s) + i + k) = length pre + length s"
    using assms l by (simp add: unat_word_ariths unat_of_nat)
  then have "len \<le> of_nat (length s) + i + k \<Longrightarrow> len = of_nat (length s) + i + k"
    using assms by (simp add: word_le_nat_alt word_unat_eq_iff)
  then have "(if of_nat (length s) + i + k \<ge> len then len - i - k else of_nat (length s)) = of_nat (length s)"
    by auto
  then show ?thesis using assms l by (simp add: in_string_def Let_def unat_of_nat rdn_append_at)
qed

section \<open>What is packed is parsed\<close>

text \<open>The value the parser makes of a packed one: named by the reader, with the fields its type
  does not use cleared.\<close>

fun norm :: "bytes \<Rightarrow> amf \<Rightarrow> amf" where
  "norm nm (Obj ind t0 s v cs) =
     (let t = pack_type t0 s in
      if t \<in> {AMF0_NUMBER, AMF0_DATE, AMF0_BOOL, AMF0_REFERENCE} then Obj nm t [] v []
      else if t \<in> {AMF0_STRING, AMF0_LONGSTRING, AMF0_XMLDOC} then Obj nm t s 0 []
      else if t \<in> {AMF0_OBJECT, AMF0_ECMA_ARRAY} then
        Obj nm t [] 0 (map (\<lambda>c. norm (Indice c) c) cs)
      else if t = AMF0_STRICT_ARRAY then Obj nm t [] 0 (map (norm (str ''arrVal'')) cs)
      else Obj nm t [] 0 [])"

text \<open>The values that can be transmitted: no typed object, no movie clip, record set, object end,
  upgrade or nested container, names of members that are not empty, and sizes that fit their fields; those of long strings,
  documents and arrays are below 2 to the power of 31, because they go through an \<open>int\<close> on one side or the other.\<close>

fun amf_ok :: "amf \<Rightarrow> bool" where
  "amf_ok (Obj ind t0 s v cs) =
     (let t = pack_type t0 s in
      if t \<in> {AMF0_NUMBER, AMF0_DATE, AMF0_STRING, AMF0_NULL, AMF0_UNDEFINED, AMF0_UNSUPPORTED} then True
      else if t = AMF0_BOOL then v = nat_to_dbl 0 \<or> v = nat_to_dbl 1
      else if t = AMF0_REFERENCE then \<exists>n \<in> {..<65536}. v = nat_to_dbl n
      else if t \<in> {AMF0_LONGSTRING, AMF0_XMLDOC} then length s < 2 ^ 31
      else if t \<in> {AMF0_OBJECT, AMF0_ECMA_ARRAY} then
        \<forall>c \<in> set cs. Indice c \<noteq> [] \<and> length (Indice c) < 65536 \<and> amf_ok c
      else if t = AMF0_STRICT_ARRAY then length cs < 2 ^ 31 \<and> (\<forall>c \<in> set cs. amf_ok c)
      else False)"

fun need :: "amf \<Rightarrow> nat" where
  "need (Obj ind t s v cs) = Suc (Suc (sum_list (map (\<lambda>c. Suc (need c)) cs)))"

definition parses :: "amf \<Rightarrow> bytes \<Rightarrow> bool" where
  "parses c bs \<longleftrightarrow> bs \<noteq> [] \<and>
     (\<forall>pre post i len nm fuel. unat i = length pre \<longrightarrow> need c \<le> fuel \<longrightarrow>
        length pre + length bs \<le> unat len \<longrightarrow>
        parseOne fuel (pre @ bs @ post) len i nm = Some (norm nm c, i + of_nat (length bs), 0))"

lemma parsesD:
  "parses c bs \<Longrightarrow> unat i = length pre \<Longrightarrow> need c \<le> fuel \<Longrightarrow> length pre + length bs \<le> unat len \<Longrightarrow>
     parseOne fuel (pre @ bs @ post) len i nm = Some (norm nm c, i + of_nat (length bs), 0)"
  by (simp add: parses_def)

lemma unat_advance:
  fixes i len :: u32
  assumes "unat i = length pre" "length pre + length bs \<le> unat len"
  shows "unat (i + of_nat (length bs)) = length (pre @ bs)"
  using unat_add_nat [of i "length bs"] assms unat_less_32 [of len] by simp

lemma type_of_code: "t \<noteq> AMF0_DDV_CONTAINER \<Longrightarrow> type_of (type_code t) = t"
  by (cases t) (simp_all add: type_of_def all_types_def)

lemma parseOne_start:
  assumes "unat i = length pre" "length pre < unat len" "t \<noteq> AMF0_DDV_CONTAINER"
  shows "parseOne (Suc f) (pre @ type_code t # xs) len i nm =
    parse_body (parseOne f (pre @ type_code t # xs) len) f (pre @ type_code t # xs) len i nm t"
  using assms by (simp add: at_0 type_of_code word_le_nat_alt)

lemma need_Suc: "need c = Suc (need c - 1)" "2 \<le> need c"
  by (cases c; simp)+

lemma advance: "i + of_nat m + of_nat n = (i :: u32) + of_nat (m + n)"
  by (simp add: add.assoc)

text \<open>A byte or two read behind the type byte.\<close>

lemma snoc_unat:
  assumes "unat i = length pre" "length pre + n \<le> unat (len :: u32)" "0 < n"
  shows "unat (i + 1 :: u32) = length (pre @ [t])"
  using unat_add_nat [of i 1] assms unat_less_32 [of len] by simp

lemma parse_size2_string:
  assumes "unat i = length pre" "length pre + 3 + length s \<le> unat len" "length s < 65536"
  shows "in_size2 (pre @ t # out_size2 (length s) @ s @ ys) (i + 1) \<bind>
      (\<lambda>tmpi. in_string (pre @ t # out_size2 (length s) @ s @ ys) len i 3 tmpi \<bind> g) =
    g (s, of_nat (length s))"
proof -
  have u: "unat (i + 1) = length (pre @ [t])"
    using assms by (intro snoc_unat [where n = 3 and len = len]) auto
  have "in_size2 (pre @ t # out_size2 (length s) @ s @ ys) (i + 1) = Some (of_nat (length s))"
    using in_size2_at [OF u, of "length s" "s @ ys"] assms unat_less_32 [of len] by simp
  moreover have "in_string (pre @ t # out_size2 (length s) @ s @ ys) len i 3 (of_nat (length s)) =
           Some (s, of_nat (length s))"
    using in_string_at [of i 3 "pre @ t # out_size2 (length s)" s len ys] assms
    by (simp add: out_size2_def)
  ultimately show ?thesis by simp
qed

lemma parse_size4_string:
  assumes "unat i = length pre" "length pre + 5 + length s \<le> unat len" "length s < 2 ^ 31"
  shows "in_size4 (pre @ t # out_size4 (length s) @ s @ ys) (i + 1) \<bind>
      (\<lambda>tmpi. in_string (pre @ t # out_size4 (length s) @ s @ ys) len i 5 tmpi \<bind> g) =
    g (s, of_nat (length s))"
proof -
  have u: "unat (i + 1) = length (pre @ [t])"
    using assms by (intro snoc_unat [where n = 5 and len = len]) auto
  have "in_size4 (pre @ t # out_size4 (length s) @ s @ ys) (i + 1) = Some (of_nat (length s))"
    using in_size4_at [OF u, of "length s" "s @ ys"] assms unat_less_32 [of len] by simp
  moreover have "in_string (pre @ t # out_size4 (length s) @ s @ ys) len i 5 (of_nat (length s)) =
           Some (s, of_nat (length s))"
    using in_string_at [of i 5 "pre @ t # out_size4 (length s)" s len ys] assms
    by (simp add: out_size4_def)
  ultimately show ?thesis by simp
qed

lemma parses_leaf:
  assumes "Pack c = Some (type_code t # bs, c')" "t \<noteq> AMF0_DDV_CONTAINER"
    and "t \<notin> {AMF0_OBJECT, AMF0_TYPED_OBJ, AMF0_ECMA_ARRAY, AMF0_STRICT_ARRAY}"
    and leaf: "\<And>pre post i len nm. unat i = length pre \<Longrightarrow> length pre + Suc (length bs) \<le> unat len \<Longrightarrow>
      parse_leaf (pre @ type_code t # bs @ post) len i nm t =
        Some (norm nm c, i + of_nat (Suc (length bs)), 0)"
  shows "\<exists>bs c'. Pack c = Some (bs, c') \<and> parses c bs"
proof -
  have "parses c (type_code t # bs)"
    unfolding parses_def
  proof (intro conjI allI impI)
    fix pre post nm :: bytes and i len :: u32 and fuel :: nat
    assume a: "unat (i :: u32) = length pre" "need c \<le> fuel"
      "length pre + length (type_code t # bs) \<le> unat (len :: u32)"
    obtain f where "fuel = Suc f" using a(2) need_Suc(2) [of c] by (cases fuel) auto
    then show "parseOne fuel (pre @ (type_code t # bs) @ post) len i nm =
        Some (norm nm c, i + of_nat (length (type_code t # bs)), 0)"
      using parseOne_start [of i pre len t f "bs @ post" nm] leaf [of i pre len post nm] a assms(2,3)
      by (cases t) (auto simp: parse_body_def)
  qed simp
  then show ?thesis using assms(1) by blast
qed

lemma length_out_size [simp]: "length (out_size2 n) = 2" "length (out_size4 n) = 4"
  by (simp_all add: out_size2_def out_size4_def)

lemma unat_of_nat_byte: "k < 256 \<Longrightarrow> unat (of_nat k :: byte) = k"
  by (simp add: unat_of_nat)

lemma out_size2_nonzero:
  assumes n: "0 < n" "n < 65536" and o: "out_size2 n = [a, b]"
  shows "a \<noteq> 0 \<or> b \<noteq> 0"
proof -
  have ab: "a = of_nat (n div 256)" "b = of_nat (n mod 256)" using o by (simp_all add: out_size2_def)
  have "n div 256 < 256" "n mod 256 < 256" using n(2) by simp_all
  then have "unat a = n div 256" "unat b = n mod 256"
    unfolding ab by (simp_all only: unat_of_nat_byte)
  moreover have "n div 256 \<noteq> 0 \<or> n mod 256 \<noteq> 0" using n(1) div_mult_mod_eq [of n 256] by (metis add_0 mult_0 less_irrefl)
  ultimately show ?thesis by auto
qed

lemma parse_props_end:
  assumes "unat i = length pre" "length pre + 3 \<le> unat len"
  shows "parse_props one (pre @ 0 # 0 # xs) len clamp (Suc f) i = Some ([], i, 0)"
  using assms at_k(1) [OF assms(1)] unat_add_nat [of i 1] unat_less_32 [of len]
  by (simp add: at_0 word_less_nat_alt)

lemma parse_props_member:
  assumes i: "unat i = length pre" and lim: "length pre + 2 + length ind + 3 \<le> unat len"
    and ind: "ind \<noteq> []" "length ind < 65536"
    and M: "M = pre @ out_size2 (length ind) @ ind @ xs"
  shows "parse_props one M len True (Suc g) i =
    do { (c, i, e) \<leftarrow> one (i + (of_nat (length ind) + 2)) ind;
         (cs, i, e') \<leftarrow> parse_props one M len True g i;
         Some (c # cs, i, e + e') }"
proof -
  have l: "unat len < 2 ^ 32" by (rule unat_less_32)
  have lt: "i + 1 < len" using unat_add_nat [of i 1] i lim l by (simp add: word_less_nat_alt)
  obtain a b where ab: "out_size2 (length ind) = [a, b]" by (simp add: out_size2_def)
  have nz: "\<not> (a = 0 \<and> b = 0)" using out_size2_nonzero [OF _ ind(2) ab] ind(1) by simp
  have at01: "at M i = Some a" "at M (i + 1) = Some b"
    using at_k(1) [OF i] i lim l by (simp_all add: M ab at_0)
  have sz: "in_size2 M i = Some (of_nat (length ind))"
    using in_size2_at [OF i, of "length ind" "ind @ xs"] ind lim l by (simp add: M)
  have st: "in_string M len i 2 (of_nat (length ind)) = Some (ind, of_nat (length ind))"
    using in_string_at [of i 2 "pre @ out_size2 (length ind)" ind len xs] i lim by (simp add: M)
  show ?thesis using lt at01 nz sz st by auto
qed

lemma parse_props_pack:
  assumes "\<forall>c \<in> set cs. Indice c \<noteq> [] \<and> length (Indice c) < 65536 \<and>
    (\<exists>b c'. Pack c = Some (b, c') \<and> parses c b)"
  shows "\<exists>b cs'. pack_props cs = Some (b, cs') \<and> length cs' = length cs \<and>
    (\<forall>pre post i len f g M. M = pre @ b @ 0 # 0 # 9 # post \<longrightarrow> unat i = length pre \<longrightarrow>
       length pre + length b + 3 \<le> unat len \<longrightarrow> length cs < g \<longrightarrow> (\<forall>c \<in> set cs. need c \<le> f) \<longrightarrow>
       parse_props (parseOne f M len) M len True g i =
         Some (map (\<lambda>c. norm (Indice c) c) cs, i + of_nat (length b), 0))"
  using assms
proof (induction cs)
  case Nil
  have "parse_props one (pre @ 0 # 0 # 9 # post) len True g i = Some ([], i, 0)"
    if "unat i = length pre" "length pre + 3 \<le> unat len" "0 < g" for one pre post i len g
    using parse_props_end [OF that(1,2)] that(3) by (cases g) auto
  then show ?case by simp
next
  case (Cons c cs)
  obtain b c' where c: "Pack c = Some (b, c')" "parses c b" "Indice c \<noteq> []" "length (Indice c) < 65536"
    using Cons.prems by auto
  obtain bs cs' where IH: "pack_props cs = Some (bs, cs')" "length cs' = length cs"
    "\<And>pre post i len f g M. M = pre @ bs @ 0 # 0 # 9 # post \<Longrightarrow> unat i = length pre \<Longrightarrow>
       length pre + length bs + 3 \<le> unat len \<Longrightarrow> length cs < g \<Longrightarrow> (\<forall>c \<in> set cs. need c \<le> f) \<Longrightarrow>
       parse_props (parseOne f M len) M len True g i =
         Some (map (\<lambda>c. norm (Indice c) c) cs, i + of_nat (length bs), 0)"
    using Cons.IH Cons.prems by auto
  let ?n = "length (Indice c)"
  let ?b = "out_size2 ?n @ Indice c @ b @ bs"
  have "parse_props (parseOne f M len) M len True g i =
         Some (map (\<lambda>c. norm (Indice c) c) (c # cs), i + of_nat (length ?b), 0)"
    if M: "M = pre @ ?b @ 0 # 0 # 9 # post" and i: "unat i = length pre"
      and lim: "length pre + length ?b + 3 \<le> unat len" and g: "length (c # cs) < g"
      and f: "\<forall>c \<in> set (c # cs). need c \<le> f" for pre post i len f g M
  proof -
    obtain g' where g': "g = Suc g'" "length cs < g'" using g by (cases g) auto
    define pre1 where "pre1 = pre @ out_size2 ?n @ Indice c"
    define i1 where "i1 = i + (of_nat ?n + 2)"
    have u1: "unat i1 = length pre1"
      using unat_advance [OF i, of "out_size2 ?n @ Indice c" len] lim
      by (simp add: i1_def pre1_def algebra_simps)
    have "parseOne f (pre1 @ b @ bs @ 0 # 0 # 9 # post) len i1 (Indice c) =
        Some (norm (Indice c) c, i1 + of_nat (length b), 0)"
      using f lim by (intro parsesD [OF c(2) u1]) (auto simp: pre1_def)
    then have one: "parseOne f M len i1 (Indice c) = Some (norm (Indice c) c, i1 + of_nat (length b), 0)"
      by (simp add: M pre1_def)
    have u2: "unat (i1 + of_nat (length b)) = length (pre1 @ b)"
      using lim by (intro unat_advance [OF u1, where len = len]) (simp add: pre1_def)
    have "parse_props (parseOne f M len) M len True g' (i1 + of_nat (length b)) =
        Some (map (\<lambda>c. norm (Indice c) c) cs, i1 + of_nat (length b) + of_nat (length bs), 0)"
      using M lim f g'(2) by (intro IH(3) [OF _ u2]) (auto simp: pre1_def)
    moreover have "i1 + of_nat (length b) + of_nat (length bs) = i + of_nat (length ?b)"
      by (simp add: i1_def algebra_simps)
    ultimately show ?thesis
      using parse_props_member [OF i _ c(3,4), of len M "b @ bs @ 0 # 0 # 9 # post"] lim M one g'(1)
      by (simp add: i1_def)
  qed
  then show ?case using c(1) IH(1,2)
    by (intro exI [of _ ?b] exI [of _ "c' # cs'"]) auto
qed

lemma parse_items_pack:
  assumes "\<forall>c \<in> set cs. \<exists>b c'. Pack c = Some (b, c') \<and> parses c b" "length cs < 2 ^ 31"
  shows "\<exists>b cs'. pack_items cs = Some (b, cs') \<and> length cs' = length cs \<and> length cs \<le> length b \<and>
    (\<forall>pre post i len f g M. M = pre @ b @ post \<longrightarrow> unat i = length pre \<longrightarrow>
       length pre + length b \<le> unat len \<longrightarrow> length cs < g \<longrightarrow> (\<forall>c \<in> set cs. need c \<le> f) \<longrightarrow>
       parse_items (parseOne f M len) g i (of_nat (length cs)) =
         Some (map (norm (str ''arrVal'')) cs, i + of_nat (length b), 0))"
  using assms
proof (induction cs)
  case Nil
  have "parse_items one g i 0 = Some ([], i, 0)" if "0 < g" for one g i
    using that by (cases g) auto
  then show ?case by simp
next
  case (Cons c cs)
  obtain b c' where c: "Pack c = Some (b, c')" "parses c b" using Cons.prems by auto
  obtain bs cs' where IH: "pack_items cs = Some (bs, cs')" "length cs' = length cs" "length cs \<le> length bs"
    "\<And>pre post i len f g M. M = pre @ bs @ post \<Longrightarrow> unat i = length pre \<Longrightarrow>
       length pre + length bs \<le> unat len \<Longrightarrow> length cs < g \<Longrightarrow> (\<forall>c \<in> set cs. need c \<le> f) \<Longrightarrow>
       parse_items (parseOne f M len) g i (of_nat (length cs)) =
         Some (map (norm (str ''arrVal'')) cs, i + of_nat (length bs), 0)"
    using Cons.IH Cons.prems by auto
  have nz: "(of_nat (length (c # cs)) :: u32) \<noteq> 0" "(of_nat (length (c # cs)) :: u32) - 1 = of_nat (length cs)"
    using unat_of_nat_u32 [of "length (c # cs)"] Cons.prems(2) by (auto simp del: of_nat_Suc) simp
  have "parse_items (parseOne f M len) g i (of_nat (length (c # cs))) =
         Some (map (norm (str ''arrVal'')) (c # cs), i + of_nat (length (b @ bs)), 0)"
    if M: "M = pre @ (b @ bs) @ post" and i: "unat i = length pre"
      and lim: "length pre + length (b @ bs) \<le> unat len" and g: "length (c # cs) < g"
      and f: "\<forall>c \<in> set (c # cs). need c \<le> f" for pre post i len f g M
  proof -
    obtain g' where g': "g = Suc g'" "length cs < g'" using g by (cases g) auto
    have one: "parseOne f M len i (str ''arrVal'') = Some (norm (str ''arrVal'') c, i + of_nat (length b), 0)"
      using parsesD [OF c(2) i, of f len "bs @ post"] f lim by (simp add: M)
    have u2: "unat (i + of_nat (length b)) = length (pre @ b)"
      using lim by (intro unat_advance [OF i, where len = len]) simp
    have "parse_items (parseOne f M len) g' (i + of_nat (length b)) (of_nat (length cs)) =
        Some (map (norm (str ''arrVal'')) cs, i + of_nat (length b) + of_nat (length bs), 0)"
      using M lim f g'(2) by (intro IH(4) [OF _ u2]) auto
    then show ?thesis using one g'(1) nz by (simp add: add.assoc del: of_nat_Suc)
  qed
  moreover have "b \<noteq> []" using c(2) by (simp add: parses_def)
  ultimately show ?case using c(1) IH(1-3)
    by (intro exI [of _ "b @ bs"] exI [of _ "c' # cs'"]) (cases b; auto)
qed

lemma pack_type_long: "pack_type t s = AMF0_STRING \<Longrightarrow> length s < 65536"
  by (auto simp: pack_type_def split: if_splits)

lemma sum_need: "c \<in> set cs \<Longrightarrow> need c \<le> sum_list (map (\<lambda>c. Suc (need c)) cs)"
  and length_need: "length cs \<le> sum_list (map (\<lambda>c. Suc (need c)) cs)"
  by (induction cs) auto

lemma Pack_parses_leaf:
  assumes ok: "amf_ok (Obj ind t0 s v cs)" and t: "t = pack_type t0 s"
    and lf: "t \<notin> {AMF0_OBJECT, AMF0_ECMA_ARRAY, AMF0_STRICT_ARRAY}"
  shows "\<exists>bs c'. Pack (Obj ind t0 s v cs) = Some (bs, c') \<and> parses (Obj ind t0 s v cs) bs"
proof -
  note P = parses_leaf [where c = "Obj ind t0 s v cs" and t = t and c' = "Obj ind t s v cs"]
  consider "t = AMF0_NUMBER" | "t = AMF0_DATE" | "t = AMF0_STRING" | "t = AMF0_LONGSTRING"
    | "t = AMF0_XMLDOC" | "t = AMF0_BOOL" | "t = AMF0_REFERENCE"
    | "t \<in> {AMF0_NULL, AMF0_UNDEFINED, AMF0_UNSUPPORTED}"
    using ok lf by (cases t) (auto simp: Let_def t [symmetric])
  then show ?thesis
  proof cases
    case 1
    show ?thesis using 1 t
      by (intro P [of "be_bytes 8 v"])
        (auto simp: Let_def parse_leaf_def in_dbl_at Object_num_def)
  next
    case 2
    have r: "in_dbl (pre @ 0x0B # be_bytes 8 v @ 0 # 0 # ys) len i = Some v"
      if "unat i = length pre" "length pre + 11 \<le> unat len" for pre ys i len
      using in_dbl_at [OF that(1), of len "0x0B" v "0 # 0 # ys"] that(2) by simp
    show ?thesis using 2 t
      by (intro P [of "be_bytes 8 v @ [0, 0]"])
        (auto simp: Let_def parse_leaf_def r Object_num_def)
  next
    case 3
    show ?thesis using 3 t pack_type_long [of t0 s]
      by (intro P [of "out_size2 (length s) @ s"])
        (auto simp: Let_def parse_leaf_def parse_size2_string Object_str_def add.commute)
  next
    case 4
    then have "length s < 2 ^ 31" using ok t by (simp add: Let_def)
    then show ?thesis using 4 t
      by (intro P [of "out_size4 (length s) @ s"])
        (auto simp: Let_def parse_leaf_def parse_size4_string Object_str_def add.commute)
  next
    case 5
    then have "length s < 2 ^ 31" using ok t by (simp add: Let_def)
    then show ?thesis using 5 t
      by (intro P [of "out_size4 (length s) @ s"])
        (auto simp: Let_def parse_leaf_def parse_size4_string Object_str_def add.commute)
  next
    case 6
    obtain b :: nat where b: "v = nat_to_dbl b" "b \<in> {0, 1}" using ok 6 t by (auto simp: Let_def)
    then have d: "dbl_to_int v = Some (int b)" by (auto simp: dbl_to_int_nat)
    have r: "at (pre @ 1 # x # ys) (i + 1) = Some x"
      if "unat i = length pre" "length pre + 2 \<le> unat len" for pre x ys i and len :: u32
      using at_k(1) [OF that(1)] that(2) unat_less_32 [of len] by simp
    show ?thesis using 6 t b d
      by (intro P [of "[of_nat b]"]) (auto simp: Let_def parse_leaf_def r Object_num_def)
  next
    case 7
    obtain n where n: "v = nat_to_dbl n" "n < 65536" using ok 7 t by (auto simp: Let_def)
    then have d: "dbl_to_int v = Some (int n)" by (simp add: dbl_to_int_nat)
    have "sgn (int n) * (\<bar>int n\<bar> div 256) = int (n div 256)"
      "sgn (int n) * (\<bar>int n\<bar> mod 256) = int (n mod 256)"
      by (cases "n = 0"; simp add: zdiv_int zmod_int)+
    then have o: "out_reference (int n) = out_size2 n"
      by (simp only: out_reference_def out_size2_def of_int_of_nat_eq)
    have r: "in_size2 (pre @ 7 # out_size2 n @ ys) (i + 1) = Some (of_nat n)"
      if "unat i = length pre" "length pre + 3 \<le> unat len" for pre ys i and len :: u32
    proof -
      have "unat (i + 1) = length (pre @ [7 :: byte])" using that by (intro snoc_unat [where n = 3]) auto
      from in_size2_at [OF this, of n ys] show ?thesis using that n(2) unat_less_32 [of len] by simp
    qed
    show ?thesis using 7 t n d o
      by (intro P [of "out_size2 n"]) (auto simp: Let_def parse_leaf_def r Object_num_def unat_of_nat_u32)
  next
    case 8
    then show ?thesis using t
      by (intro P [of "[]"]) (auto simp: Let_def parse_leaf_def Object_num_def)
  qed
qed

lemma parses_object:
  assumes t: "t \<in> {AMF0_OBJECT, AMF0_ECMA_ARRAY}" and P: "pack_type t0 s = t"
    and cs: "\<forall>c \<in> set cs. Indice c \<noteq> [] \<and> length (Indice c) < 65536 \<and>
      (\<exists>b c'. Pack c = Some (b, c') \<and> parses c b)"
  shows "\<exists>bs c'. Pack (Obj ind t0 s v cs) = Some (bs, c') \<and> parses (Obj ind t0 s v cs) bs"
proof -
  from parse_props_pack [OF cs] obtain b cs' where b: "pack_props cs = Some (b, cs')"
    "length cs' = length cs"
    "\<And>pre post i len f g M. M = pre @ b @ 0 # 0 # 9 # post \<Longrightarrow> unat i = length pre \<Longrightarrow>
       length pre + length b + 3 \<le> unat len \<Longrightarrow> length cs < g \<Longrightarrow> (\<forall>c \<in> set cs. need c \<le> f) \<Longrightarrow>
       parse_props (parseOne f M len) M len True g i =
         Some (map (\<lambda>c. norm (Indice c) c) cs, i + of_nat (length b), 0)"
    by blast
  define hd where "hd = (if t = AMF0_OBJECT then [] else out_arrlen (length cs))"
  let ?bs = "type_code t # hd @ b @ [0, 0, 9]"
  have "parses (Obj ind t0 s v cs) ?bs"
    unfolding parses_def
  proof (intro conjI allI impI)
    fix pre post nm :: bytes and i len :: u32 and fuel :: nat
    assume a: "unat i = length pre" "need (Obj ind t0 s v cs) \<le> fuel"
      "length pre + length ?bs \<le> unat len"
    obtain f where f: "fuel = Suc f" "Suc (sum_list (map (\<lambda>c. Suc (need c)) cs)) \<le> f"
      using a(2) by (cases fuel) auto
    define M where "M = pre @ ?bs @ post"
    let ?i = "i + of_nat (Suc (length hd))"
    have u: "unat ?i = length (pre @ type_code t # hd)"
      using unat_advance [OF a(1), of "type_code t # hd" len] a(3) by simp
    have nf: "\<forall>c \<in> set cs. need c \<le> f" "length cs < f"
      using sum_need [of _ cs] length_need [of cs] f(2) by (auto intro: le_trans Suc_leD)
    have props: "parse_props (parseOne f M len) M len True f ?i =
        Some (map (\<lambda>c. norm (Indice c) c) cs, ?i + of_nat (length b), 0)"
      using a(3) nf by (intro b(3) [OF _ u]) (auto simp: M_def)
    have pos: "?i = (if t = AMF0_OBJECT then i + 1 else i + 5)" by (simp add: hd_def)
    have "parseOne fuel M len i nm = parse_body (parseOne f M len) f M len i nm t"
      unfolding f(1) M_def append_assoc append_Cons
      using a(1,3) t by (intro parseOne_start) auto
    also have "\<dots> = Some (norm nm (Obj ind t0 s v cs), ?i + of_nat (length b) + 3, 0)"
      using t P props unfolding pos by (auto simp: parse_body_def)
    also have "?i + of_nat (length b) + 3 = i + of_nat (length ?bs)"
      by (simp add: algebra_simps)
    finally show "parseOne fuel (pre @ ?bs @ post) len i nm =
        Some (norm nm (Obj ind t0 s v cs), i + of_nat (length ?bs), 0)" unfolding M_def .
  qed simp
  then show ?thesis using t P b(1,2) by (auto simp: Let_def hd_def)
qed

lemma parses_strict_array:
  assumes P: "pack_type t0 s = AMF0_STRICT_ARRAY" and l: "length cs < 2 ^ 31"
    and cs: "\<forall>c \<in> set cs. \<exists>b c'. Pack c = Some (b, c') \<and> parses c b"
  shows "\<exists>bs c'. Pack (Obj ind t0 s v cs) = Some (bs, c') \<and> parses (Obj ind t0 s v cs) bs"
proof -
  from parse_items_pack [OF cs l] obtain b cs' where b: "pack_items cs = Some (b, cs')"
    "length cs' = length cs"
    "\<And>pre post i len f g M. M = pre @ b @ post \<Longrightarrow> unat i = length pre \<Longrightarrow>
       length pre + length b \<le> unat len \<Longrightarrow> length cs < g \<Longrightarrow> (\<forall>c \<in> set cs. need c \<le> f) \<Longrightarrow>
       parse_items (parseOne f M len) g i (of_nat (length cs)) =
         Some (map (norm (str ''arrVal'')) cs, i + of_nat (length b), 0)"
    by blast
  let ?t = AMF0_STRICT_ARRAY
  let ?bs = "type_code ?t # out_size4 (length cs) @ b"
  have "parses (Obj ind t0 s v cs) ?bs"
    unfolding parses_def
  proof (intro conjI allI impI)
    fix pre post nm :: bytes and i len :: u32 and fuel :: nat
    assume a: "unat i = length pre" "need (Obj ind t0 s v cs) \<le> fuel"
      "length pre + length ?bs \<le> unat len"
    obtain f where f: "fuel = Suc f" "Suc (sum_list (map (\<lambda>c. Suc (need c)) cs)) \<le> f"
      using a(2) by (cases fuel) auto
    define M where "M = pre @ ?bs @ post"
    have u: "unat (i + 5) = length (pre @ type_code ?t # out_size4 (length cs))"
      using unat_advance [OF a(1), of "type_code ?t # out_size4 (length cs)" len] a(3) by simp
    have u1: "unat (i + 1) = length (pre @ [type_code ?t])"
      using a(3) by (intro snoc_unat [OF a(1), where n = 5 and len = len]) auto
    have sz: "in_size4 M (i + 1) = Some (of_nat (length cs))"
      using in_size4_at [OF u1 _ l, of "b @ post"] a(3) unat_less_32 [of len] by (simp add: M_def)
    have nf: "\<forall>c \<in> set cs. need c \<le> f" "length cs < f"
      using sum_need [of _ cs] length_need [of cs] f(2) by (auto intro: le_trans Suc_leD)
    have items: "parse_items (parseOne f M len) f (i + 5) (of_nat (length cs)) =
        Some (map (norm (str ''arrVal'')) cs, i + 5 + of_nat (length b), 0)"
      using a(3) nf by (intro b(3) [OF _ u]) (auto simp: M_def)
    have "parseOne fuel M len i nm = parse_body (parseOne f M len) f M len i nm ?t"
      unfolding f(1) M_def append_assoc append_Cons
      using a(1,3) by (intro parseOne_start) auto
    also have "\<dots> = Some (norm nm (Obj ind t0 s v cs), i + 5 + of_nat (length b), 0)"
      using P items sz by (auto simp: parse_body_def)
    also have "i + 5 + of_nat (length b) = i + of_nat (length ?bs)"
      by (simp add: algebra_simps)
    finally show "parseOne fuel (pre @ ?bs @ post) len i nm =
        Some (norm nm (Obj ind t0 s v cs), i + of_nat (length ?bs), 0)" unfolding M_def .
  qed simp
  then show ?thesis using P b(1,2) out_arrlen_size4 [OF l] by (auto simp: Let_def)
qed

lemma Pack_parses: "amf_ok c \<Longrightarrow> \<exists>bs c'. Pack c = Some (bs, c') \<and> parses c bs"
proof (induction c)
  case (Obj ind t0 s v cs)
  define t where "t = pack_type t0 s"
  consider "t \<in> {AMF0_OBJECT, AMF0_ECMA_ARRAY}" | "t = AMF0_STRICT_ARRAY"
    | "t \<notin> {AMF0_OBJECT, AMF0_ECMA_ARRAY, AMF0_STRICT_ARRAY}" by blast
  then show ?case
  proof cases
    case 1
    then have "\<forall>c \<in> set cs. Indice c \<noteq> [] \<and> length (Indice c) < 65536 \<and> amf_ok c"
      using Obj.prems by (auto simp: Let_def t_def [symmetric])
    then show ?thesis using Obj.IH 1 by (intro parses_object [of t]) (auto simp: t_def)
  next
    case 2
    then have "length cs < 2 ^ 31 \<and> (\<forall>c \<in> set cs. amf_ok c)"
      using Obj.prems by (auto simp: Let_def t_def [symmetric])
    then show ?thesis using Obj.IH 2 by (intro parses_strict_array) (auto simp: t_def)
  next
    case 3
    then show ?thesis using Obj.prems by (intro Pack_parses_leaf) (auto simp: t_def)
  qed
qed

lemma parse_loop_pack:
  assumes "\<forall>c \<in> set cs. amf_ok c"
  shows "\<exists>b cs'. pack_items cs = Some (b, cs') \<and>
    (\<forall>pre post i len fuel. unat i = length pre \<longrightarrow> unat len = length pre + length b \<longrightarrow>
       sum_list (map (\<lambda>c. Suc (need c)) cs) < fuel \<longrightarrow>
       parse_loop fuel (pre @ b @ post) len i i = Some (map (norm []) cs, 0))"
  using assms
proof (induction cs)
  case Nil
  have "parse_loop fuel M len i i = Some ([], 0)" if "unat len \<le> unat i" "0 < fuel" for fuel M len i
    using that by (cases fuel) (auto simp: word_less_nat_alt)
  then show ?case by simp
next
  case (Cons c cs)
  obtain b c' where c: "Pack c = Some (b, c')" "parses c b" using Pack_parses [of c] Cons.prems by auto
  obtain bs cs' where IH: "pack_items cs = Some (bs, cs')"
    "\<And>pre post i len fuel. unat i = length pre \<Longrightarrow> unat len = length pre + length bs \<Longrightarrow>
       sum_list (map (\<lambda>c. Suc (need c)) cs) < fuel \<Longrightarrow>
       parse_loop fuel (pre @ bs @ post) len i i = Some (map (norm []) cs, 0)"
    using Cons by auto
  have ne: "0 < length b" using c(2) by (simp add: parses_def)
  have "parse_loop fuel (pre @ (b @ bs) @ post) len i i = Some (map (norm []) (c # cs), 0)"
    if i: "unat i = length pre" and len: "unat len = length pre + length (b @ bs)"
      and f: "sum_list (map (\<lambda>c. Suc (need c)) (c # cs)) < fuel" for pre post i len fuel
  proof -
    obtain f' where f': "fuel = Suc f'" using f by (cases fuel) auto
    have one: "parseOne f' (pre @ b @ bs @ post) len i [] = Some (norm [] c, i + of_nat (length b), 0)"
      using f f' len by (intro parsesD [OF c(2) i]) auto
    have u: "unat (i + of_nat (length b)) = length (pre @ b)"
      using len by (intro unat_advance [OF i, where len = len]) simp
    have "parse_loop f' ((pre @ b) @ bs @ post) len (i + of_nat (length b)) (i + of_nat (length b)) =
        Some (map (norm []) cs, 0)"
      using len f f' by (intro IH(2) [OF u]) auto
    moreover have "i < len" "i < i + of_nat (length b)"
      using i len u ne by (auto simp: word_less_nat_alt)
    ultimately show ?thesis using one f' by simp
  qed
  then show ?case using c(1) IH(1) by (intro exI [of _ "b @ bs"] exI [of _ "c' # cs'"]) auto
qed

section \<open>Properties\<close>

text \<open>C12: AMF0 messages of numbers, dates, booleans, references, strings, documents, null, undefined and unsupported
  values, and of objects and arrays of them, survive transmission: \<open>Pack\<close> of their container returns bytes that \<open>parse\<close>
  reads back as those values (without the fields their types do not use), with no error counted and whatever the fuel beyond
  a bound, and without reading outside of the message. Members have names; long strings, documents and strict arrays have
  sizes below 2 to the power of 31; typed objects, movie clips, record sets and nested containers are not covered.\<close>

theorem Pack_parse:
  assumes "\<forall>c \<in> set cs. amf_ok c"
  shows "\<exists>bs ob. Pack (Obj ind AMF0_DDV_CONTAINER s v cs) = Some (bs, ob) \<and>
    (length bs < 2 ^ 32 \<longrightarrow>
      (\<forall>fuel > sum_list (map (\<lambda>c. Suc (need c)) cs).
         parse_string fuel bs =
           Some (Obj (str ''returned'') AMF0_DDV_CONTAINER [] 0 (map (norm []) cs), 0)))"
proof -
  obtain b cs' where b: "pack_items cs = Some (b, cs')"
    "\<And>pre post i len fuel. unat i = length pre \<Longrightarrow> unat len = length pre + length b \<Longrightarrow>
       sum_list (map (\<lambda>c. Suc (need c)) cs) < fuel \<Longrightarrow>
       parse_loop fuel (pre @ b @ post) len i i = Some (map (norm []) cs, 0)"
    using parse_loop_pack [OF assms] by blast
  have "parse_string fuel b =
      Some (Obj (str ''returned'') AMF0_DDV_CONTAINER [] 0 (map (norm []) cs), 0)"
    if "length b < 2 ^ 32" "sum_list (map (\<lambda>c. Suc (need c)) cs) < fuel" for fuel
    using b(2) [of 0 "[]" "of_nat (length b)" fuel "[0]"] unat_of_nat_u32 [OF that(1)] that(2)
    by (simp add: parse_string_def parse_def)
  then show ?thesis using b(1) by (simp add: pack_type_def)
qed

theorem Pack_parse_witness:
  "\<exists>bs ob. Pack (Obj [] AMF0_DDV_CONTAINER [] 0
     [Obj [] AMF0_STRING (str ''ping'') 0 [],
      Obj [] AMF0_OBJECT [] 0 [Obj (str ''t'') AMF0_NUMBER [] (nat_to_dbl 5) []]]) = Some (bs, ob)"
proof -
  have "\<forall>c \<in> set [Obj [] AMF0_STRING (str ''ping'') 0 [],
      Obj [] AMF0_OBJECT [] 0 [Obj (str ''t'') AMF0_NUMBER [] (nat_to_dbl 5) []]]. amf_ok c"
    by (simp add: pack_type_def byte_simps)
  from Pack_parse [OF this, of "[]" "[]" 0] show ?thesis by blast
qed

text \<open>A truncated string makes the parser leave the message: on a message of the single byte
  2, wherever it is stored, the bounds check computes a length just below 4 GiB, so no memory
  area of up to 4 GiB is large enough for the copy that follows.\<close>

theorem short_string_overreads:
  assumes "dat ! 0 = type_code AMF0_STRING" "dat \<noteq> []" "length dat \<le> 2 ^ 32"
  shows "parse fuel dat 1 = None"
proof -
  have big: "in_string dat 1 0 3 (ucast (a :: byte) * 256 + ucast (b :: byte)) = None" for a b
  proof -
    have ab: "unat a < 256" "unat b < 256"
      using unsigned_less [of a, where 'a = nat] unsigned_less [of b, where 'a = nat] by simp_all
    have "unat (ucast a * 256 + ucast b + 0 + 3 :: u32) = unat a * 256 + unat b + 3"
      using ab by (simp add: unat_word_ariths unsigned_ucast_eq take_bit_eq_mod)
    then have "(1 :: u32) \<le> ucast a * 256 + ucast b + 0 + 3" by (simp add: word_le_nat_alt)
    moreover have "rdn dat 3 4294967294 = None" using assms(3) by (simp add: rdn_None_iff)
    ultimately show ?thesis by (simp add: in_string_def Let_def)
  qed
  have "parseOne f dat 1 0 [] = None" for f
    using assms big
    by (cases f)
      (auto simp: at_def rd_def type_of_code parse_body_def parse_leaf_def in_size2_def
        simp del: type_code.simps split: bind_splits)
  then show ?thesis by (cases fuel) (simp_all add: parse_def)
qed

theorem short_string_overreads_witness: "parse 5 [2, 0, 0, 0] 1 = None"
  using short_string_overreads [of "[2, 0, 0, 0]" 5] by simp

text \<open>A typed object does not survive transmission: the parser does not step over the class
  name, takes it for the name of the first member, and reads the length of the real first name as
  a type. An object of class \<open>A\<close> whose member \<open>b\<close> is null comes back as the class with a
  number \<open>A\<close>.\<close>

theorem typed_object_misread:
  "\<exists>bs ob. Pack (Obj (str ''A'') AMF0_TYPED_OBJ [] 0 [Obj (str ''b'') AMF0_NULL [] 0 []]) = Some (bs, ob) \<and>
   parse_string (Suc (Suc (Suc (Suc (Suc 0))))) bs =
   Some (Obj (str ''returned'') AMF0_DDV_CONTAINER [] 0
     [Obj (str ''A'') AMF0_TYPED_OBJ [] 0 [Obj (str ''A'') AMF0_NUMBER [] 0 []]], 0)"
proof (intro exI conjI)
  show "Pack (Obj (str ''A'') AMF0_TYPED_OBJ [] 0 [Obj (str ''b'') AMF0_NULL [] 0 []]) =
    Some ([0x10, 0, 1, 65, 0, 1, 98, 5, 0, 0, 9],
      Obj (str ''A'') AMF0_TYPED_OBJ [] 0 [Obj (str ''b'') AMF0_NULL [] 0 []])"
    by (simp add: pack_type_def byte_simps out_size2_def)
  show "parse_string (Suc (Suc (Suc (Suc (Suc 0))))) [0x10, 0, 1, 65, 0, 1, 98, 5, 0, 0, 9] =
   Some (Obj (str ''returned'') AMF0_DDV_CONTAINER [] 0
     [Obj (str ''A'') AMF0_TYPED_OBJ [] 0 [Obj (str ''A'') AMF0_NUMBER [] 0 []]], 0)"
    by (simp add: byte_simps parse_string_def parse_def
      at_def type_of_def all_types_def parse_body_def in_size2_def in_string_def rdn_def Let_def
      parse_leaf_def in_dbl_def Object_num_def)
qed

end
