(* ===== verification/Url.thy ===== *)
theory Url
  imports Encode Strings
begin

text \<open>
  URLs (\<open>lib/url.cpp\<close>, \<open>lib/url.h\<close>): the class \<open>HTTP::URL\<close> with its parsing constructor, the
  normalisation of paths inside it, the printing functions and the resolution of links. The port
  is kept as a string; functions that need its number return \<open>None\<close> when \<open>atoi\<close> has no defined
  value for it.
\<close>

section \<open>The class\<close>

record url =
  host :: bytes
  protocol :: bytes
  port :: bytes
  path :: bytes
  args :: bytes
  frag :: bytes
  user :: bytes
  pass :: bytes
  IPv6Addr :: bool

text \<open>\<open>is_numeric\<close> reads up to the first zero byte.\<close>

definition is_numeric :: "bytes \<Rightarrow> bool" where
  "is_numeric s = list_all is_digit (takeWhile (\<lambda>c. c \<noteq> 0) s)"

definition isLocalPath :: "url \<Rightarrow> bool" where
  "isLocalPath u \<longleftrightarrow> protocol u = str ''file'' \<or> host u = [] \<and> protocol u = [] \<and> port u = []"

section \<open>Parsing\<close>

text \<open>The protocol, and where the host starts.\<close>

definition parse_proto :: "bytes \<Rightarrow> bytes \<times> nat" where
  "parse_proto s =
     (case sfind s (str ''://'') 0 of
        Some i \<Rightarrow> (take i s, i + 3)
      | None \<Rightarrow> ([], if take 2 s = str ''//'' then 2 else 0))"

text \<open>The three loops of the normalisation; each removes characters in every round.\<close>

lemma erase_shorter:
  "0 < n \<Longrightarrow> i < length s \<Longrightarrow> length (erase s i n) < length s"
  by (simp add: erase_def)

lemma sfind_in: "pat \<noteq> [] \<Longrightarrow> sfind s pat 0 = Some d \<Longrightarrow> d + length pat \<le> length s"
  using sfind_Some [of s pat 0 d] at_pos_len [of pat s d] by simp

function del_dots :: "bytes \<Rightarrow> bytes" where
  "del_dots p = (case sfind p (str ''/./'') 0 of Some dots \<Rightarrow> del_dots (erase p dots 2) | None \<Rightarrow> p)"
  by pat_completeness auto
termination
  by (relation "measure length")
    (auto intro!: erase_shorter dest!: sfind_in [rotated] simp: byte_simps)

function del_slashes :: "bytes \<Rightarrow> bytes" where
  "del_slashes p = (case sfind p (str ''//'') 0 of Some dots \<Rightarrow> del_slashes (erase p dots 1) | None \<Rightarrow> p)"
  by pat_completeness auto
termination
  by (relation "measure length")
    (auto intro!: erase_shorter dest!: sfind_in [rotated] simp: byte_simps)

text \<open>Removing a directory and the \<open>..\<close> behind it; \<open>rfind\<close> from position -1 searches everything,
  but its result is not used then.\<close>

definition up_dir :: "bytes \<Rightarrow> nat \<Rightarrow> bytes" where
  "up_dir p dots =
     (case (if dots = 0 then None else rfind_chr p 0x2F (dots - 1)) of
        None \<Rightarrow> erase p 0 (dots + 4)
      | Some prevslash \<Rightarrow> erase p (prevslash + 1) (dots - prevslash + 3))"

lemma up_dir_shorter:
  assumes "dots < length p"
  shows "length (up_dir p dots) < length p"
proof (cases "if dots = 0 then None else rfind_chr p 0x2F (dots - 1)")
  case None
  then show ?thesis using assms by (simp add: up_dir_def erase_def)
next
  case (Some s)
  then have "s < dots" by (auto dest!: rfind_chr_Some split: if_splits)
  then show ?thesis using Some assms by (auto simp: up_dir_def intro!: erase_shorter)
qed

function up_dirs :: "bytes \<Rightarrow> bytes" where
  "up_dirs p = (case sfind p (str ''/../'') 0 of Some dots \<Rightarrow> up_dirs (up_dir p dots) | None \<Rightarrow> p)"
  by pat_completeness auto
termination
  by (relation "measure length")
    (auto intro!: up_dir_shorter dest!: sfind_in [rotated] simp: byte_simps)

declare del_dots.simps [simp del] del_slashes.simps [simp del] up_dirs.simps [simp del]

definition drop_slash :: "bytes \<Rightarrow> bytes" where
  "drop_slash p = (if p \<noteq> [] \<and> p ! 0 = 0x2F then erase p 0 1 else p)"

definition ends_with :: "bytes \<Rightarrow> bytes \<Rightarrow> bool" where
  "ends_with p e \<longleftrightarrow> length e \<le> length p \<and> drop (length p - length e) p = e"

text \<open>A path that ends in \<open>..\<close> or \<open>.\<close>.\<close>

definition clean_end :: "bytes \<Rightarrow> bytes" where
  "clean_end p =
     (let p = (if p = str ''..'' then [] else p);
          p = (if p = str ''.'' then [] else p);
          p = (if ends_with p (str ''/..'') then
                 (if length p \<le> 4 then []
                  else if \<not> ends_with p (str ''../..'') then
                    (case rfind_chr p 0x2F (length p - 4) of
                       Some prevslash \<Rightarrow> take (prevslash + 1) p
                     | None \<Rightarrow> [])
                  else p)
               else p)
      in if ends_with p (str ''/.'') then take (length p - 1) p else p)"

definition norm_path :: "bytes \<Rightarrow> bytes" where
  "norm_path p =
     (if p = [] then []
      else
        let p = drop_slash p;
            p = del_slashes (del_dots p);
            p = up_dirs (drop_slash p);
            p = (if take 2 p = str ''./'' then erase p 0 2 else p);
            p = (if take 3 p = str ''../'' then erase p 0 3 else p)
        in clean_end p)"

text \<open>The path, the arguments and the fragment, from what follows the host. The check for a local
  path is made before the host and the port are known, on the protocol alone.\<close>

definition split_path :: "bytes \<Rightarrow> bytes \<Rightarrow> bytes \<times> bytes \<times> bytes" where
  "split_path proto p =
     (if proto \<noteq> str ''rtsp'' then
        let (p, fr) = (case find_chr p 0x23 0 of
              Some h \<Rightarrow> (take h p, URL_decode (drop (h + 1) p) False) | None \<Rightarrow> (p, []));
            (p, ar) = (case find_chr p 0x3F 0 of
              Some q \<Rightarrow> (take q p, drop (q + 1) p) | None \<Rightarrow> (p, []))
        in (p, ar, fr)
      else (p, [], []))"

definition parse_path :: "bytes \<Rightarrow> bytes \<Rightarrow> bytes \<times> bytes \<times> bytes" where
  "parse_path proto rest =
     (let p = (if rest ! 0 = 0x2F then drop 1 rest else rest);
          (p, ar, fr) = split_path proto p;
          p' = norm_path p
      in (if p = [] \<or> proto = [] \<or> proto = str ''file'' then p' else URL_decode p' False, ar, fr))"

definition parse_creds :: "bytes \<Rightarrow> bytes \<times> bytes \<times> bytes" where
  "parse_creds uphp =
     (case find_chr uphp 0x40 0 of
        None \<Rightarrow> ([], [], uphp)
      | Some at_sign \<Rightarrow>
          let creds = take at_sign uphp; uphp = drop (at_sign + 1) uphp in
          (case find_chr creds 0x3A 0 of
             Some colon \<Rightarrow> (URL_decode (take colon creds) False, URL_decode (drop (colon + 1) creds) False, uphp)
           | None \<Rightarrow> (URL_decode creds False, [], uphp)))"

text \<open>Host, port and whether it is an IPv6 address.\<close>

definition parse_host :: "bytes \<Rightarrow> bytes \<times> bytes \<times> bool" where
  "parse_host uphp =
     (let (h, po, v6) =
        (if uphp \<noteq> [] \<and> uphp ! 0 = 0x5B then
           (case find_chr uphp 0x5D 0 of
              None \<Rightarrow> (drop 1 uphp, [], True)
            | Some b \<Rightarrow>
                let h = take (b - 1) (drop 1 uphp) in
                (case find_chr uphp 0x3A b of
                   None \<Rightarrow> (h, [], True)
                 | Some colon \<Rightarrow>
                     let po = drop (colon + 1) uphp in
                     if is_numeric po then (h, po, True) else (h @ [0x3A] @ po, [], True)))
         else
           let (h, po, v6) =
             (case rfind_chr uphp 0x3A (length uphp) of
                None \<Rightarrow> (uphp, [], False)
              | Some colon \<Rightarrow>
                  let h = take colon uphp; po = drop (colon + 1) uphp in
                  if is_numeric po then (h, po, False) else (h @ [0x3A] @ po, [], True))
           in (h, po, v6 \<or> find_chr h 0x3A 0 \<noteq> None))
      in if h \<noteq> [] \<and> is_numeric h then ([], h, v6) else (h, po, v6))"

definition URL :: "bytes \<Rightarrow> url" where
  "URL s =
     (let (proto, proto_sep) = parse_proto s;
          first_slash = find_first_of s (str ''/?#'') proto_sep;
          (p, ar, fr) = (case first_slash of
            Some k \<Rightarrow> parse_path proto (drop k s) | None \<Rightarrow> ([], [], []));
          uphp = (case first_slash of
            Some k \<Rightarrow> take (k - proto_sep) (drop proto_sep s) | None \<Rightarrow> drop proto_sep s);
          (us, pa, uphp) = parse_creds uphp;
          (h, po, v6) = parse_host uphp
      in \<lparr>host = h, protocol = proto, port = po, path = p, args = ar, frag = fr, user = us,
          pass = pa, IPv6Addr = v6\<rparr>)"

section \<open>Ports, printing and links\<close>

definition getDefaultPort :: "url \<Rightarrow> u16" where
  "getDefaultPort u =
     (if protocol u = str ''http'' then 80 else if protocol u = str ''https'' then 443
      else if protocol u = str ''ws'' then 80 else if protocol u = str ''wss'' then 443
      else if protocol u = str ''rtmp'' then 1935 else if protocol u = str ''rtmps'' then 443
      else if protocol u = str ''dtsc'' then 4200 else if protocol u = str ''rtsp'' then 554
      else if protocol u = str ''srt'' then 8889 else 0)"

definition getPort :: "url \<Rightarrow> u16 option" where
  "getPort u =
     (if port u = [] then Some (getDefaultPort u) else map_option of_int (atoi (port u)))"

definition setPort :: "url \<Rightarrow> u16 \<Rightarrow> url" where
  "setPort u newPort = u\<lparr>port := to_dec (unat newPort)\<rparr>"

definition getExt :: "url \<Rightarrow> bytes" where
  "getExt u =
     (case rfind_chr (path u) 0x2E (length (path u)) of
        None \<Rightarrow> []
      | Some dot \<Rightarrow>
          (case rfind_chr (path u) 0x2F (length (path u)) of
             Some slash \<Rightarrow> if slash > dot then [] else drop (dot + 1) (path u)
           | None \<Rightarrow> drop (dot + 1) (path u)))"

definition getFilePath :: "url \<Rightarrow> bytes" where
  "getFilePath u = 0x2F # path u"

definition getEncodedPath :: "url \<Rightarrow> bytes" where
  "getEncodedPath u =
     (if path u = [] then []
      else if protocol u = str ''rtsp'' then URL_encode (path u) (str ''/:=@[]#?&'') False
      else if isLocalPath u then URL_encode (path u) (str ''/:=@[]+ '') False
      else URL_encode (path u) (str ''/:=@[]'') False)"

text \<open>The parts the three printing functions share.\<close>

definition out_proto :: "url \<Rightarrow> bytes" where
  "out_proto u = (if protocol u \<noteq> [] then protocol u @ str ''://'' else str ''//'')"

definition out_creds :: "url \<Rightarrow> bytes" where
  "out_creds u =
     (if user u \<noteq> [] \<or> pass u \<noteq> [] then
        (if pass u = [] then URL_encode (user u) [] False @ str ''@''
         else URL_encode (user u) [] False @ str '':'' @ URL_encode (pass u) [] False @ str ''@'')
      else [])"

definition out_host :: "url \<Rightarrow> bytes" where
  "out_host u = (if IPv6Addr u \<or> find_chr (host u) 0x3A 0 \<noteq> None then [0x5B] @ host u @ [0x5D] else host u)"

definition out_port :: "url \<Rightarrow> bytes option" where
  "out_port u =
     (if port u \<noteq> [] then
        do { p \<leftarrow> getPort u; Some (if p \<noteq> getDefaultPort u then 0x3A # port u else []) }
      else Some [])"

definition out_args :: "url \<Rightarrow> bytes" where
  "out_args u = (if args u \<noteq> [] then 0x3F # args u else [])"

definition getUrl :: "url \<Rightarrow> bytes option" where
  "getUrl u =
     do { po \<leftarrow> out_port u;
          Some (out_proto u @ out_creds u @ out_host u @ po @
            (if protocol u \<noteq> str ''rist'' then 0x2F # getEncodedPath u else []) @ out_args u @
            (if frag u \<noteq> [] then 0x23 # URL_encode (frag u) (str ''/:=@[]#?&'') False else [])) }"

definition getProxyUrl :: "url \<Rightarrow> bytes option" where
  "getProxyUrl u =
     do { po \<leftarrow> out_port u;
          Some (out_proto u @ out_host u @ po @ 0x2F # getEncodedPath u @ out_args u) }"

definition getBareUrl :: "url \<Rightarrow> bytes option" where
  "getBareUrl u =
     do { po \<leftarrow> out_port u;
          Some (out_proto u @ out_creds u @ out_host u @ po @ 0x2F # getEncodedPath u) }"

definition getBase :: "url \<Rightarrow> bytes option" where
  "getBase u =
     do { tmpUrl \<leftarrow> (if isLocalPath u then Some (getFilePath u) else getBareUrl u);
          Some (case rfind_chr tmpUrl 0x2F (length tmpUrl) of
                  Some slashPos \<Rightarrow> take (slashPos + 1) tmpUrl | None \<Rightarrow> []) }"

definition getLinkFrom :: "url \<Rightarrow> url \<Rightarrow> bytes option" where
  "getLinkFrom u fromUrl =
     do { to \<leftarrow> (if isLocalPath u then Some (getFilePath u) else getUrl u);
          base \<leftarrow> getBase fromUrl;
          Some (if take (length base) to = base then drop (length base) to else to) }"

text \<open>\<open>link\<close>: a full link, an absolute one or a relative one; \<open>npos\<close> is greater than every
  position. \<open>l[0]\<close> of an empty link is its terminating zero.\<close>

definition link_full :: "bytes \<Rightarrow> bool" where
  "link_full l \<longleftrightarrow>
     (case find_chr l 0x2F 0 of
        None \<Rightarrow> False
      | Some k \<Rightarrow> (case sfind l (str ''://'') 0 of Some i \<Rightarrow> i < k | None \<Rightarrow> False))"

definition link :: "url \<Rightarrow> bytes \<Rightarrow> url option" where
  "link u l =
     (if link_full l then Some (URL l)
      else if l \<noteq> [] \<and> l ! 0 = 0x2F then
        (if length l > 1 \<and> l ! 1 = 0x2F then Some (URL (protocol u @ [0x3A] @ l))
         else
           let tmp = u\<lparr>args := [], path := drop 1 l\<rparr> in
           (if isLocalPath tmp then Some (URL (getFilePath tmp)) else map_option URL (getUrl tmp)))
      else do { base \<leftarrow> getBase u; Some (URL (base @ l)) })"

definition url_eq :: "url \<Rightarrow> url \<Rightarrow> bool" where
  "url_eq u r \<longleftrightarrow> host u = host r \<and> getPort u = getPort r \<and> protocol u = protocol r \<and>
     path u = path r \<and> args u = args r"

section \<open>Paths are normalised\<close>

text \<open>A path without the patterns the loops remove. The occurrences are stated by position.\<close>

abbreviation (input) slash :: byte where "slash \<equiv> 0x2F"
abbreviation (input) dot :: byte where "dot \<equiv> 0x2E"















definition no_lead :: "bytes \<Rightarrow> bool" where
  "no_lead p \<longleftrightarrow> p = [] \<or> p ! 0 \<noteq> slash"







text \<open>The last directory of a path is neither \<open>.\<close> nor \<open>..\<close>, but for a \<open>..\<close> behind a directory whose
  name ends in two dots.\<close>

definition clean_last :: "bytes \<Rightarrow> bool" where
  "clean_last p \<longleftrightarrow> p \<noteq> str ''..'' \<and> p \<noteq> str ''.'' \<and> \<not> ends_with p (str ''/.'') \<and>
     (ends_with p (str ''/..'') \<longrightarrow> ends_with p (str ''../..''))"




text \<open>What the normalisation guarantees: no empty, \<open>.\<close> or \<open>..\<close> directory inside or in front of the
  path, no slash in front, and a \<open>clean_last\<close> directory (an empty one is the final slash).\<close>

definition normal_path :: "bytes \<Rightarrow> bool" where
  "normal_path p \<longleftrightarrow> sfind p (str ''//'') 0 = None \<and> sfind p (str ''/./'') 0 = None \<and>
     sfind p (str ''/../'') 0 = None \<and> no_lead p \<and> take 2 p \<noteq> str ''./'' \<and>
     take 3 p \<noteq> str ''../'' \<and> clean_last p"







section \<open>Printing and parsing\<close>

text \<open>The URLs that are printed in full and read back: a protocol other than the three that are
  treated specially, a host name, and a port that differs from the default.\<close>

definition url_ok :: "url \<Rightarrow> bool" where
  "url_ok u \<longleftrightarrow> protocol u \<noteq> [] \<and> 0x3A \<notin> set (protocol u) \<and>
     protocol u \<notin> {str ''file'', str ''rtsp'', str ''rist''} \<and>
     (\<forall>c \<in> set (host u). c \<notin> set (str ''/?#@:'')) \<and> (host u \<noteq> [] \<longrightarrow> host u ! 0 \<noteq> 0x5B) \<and>
     (host u \<noteq> [] \<longrightarrow> \<not> is_numeric (host u)) \<and> \<not> IPv6Addr u \<and>
     (port u \<noteq> [] \<longrightarrow> (\<exists>n \<in> {..<65536}. port u = to_dec n \<and> of_nat n \<noteq> getDefaultPort u)) \<and>
     norm_path (URL_encode (path u) (str ''/:=@[]'') False) = URL_encode (path u) (str ''/:=@[]'') False \<and>
     0x23 \<notin> set (args u)"

lemma not_encoded:
  "\<not> url_plain c \<Longrightarrow> c \<noteq> 0x25 \<Longrightarrow> c \<noteq> 0x2B \<Longrightarrow> c \<notin> set ign \<Longrightarrow> c \<notin> set (URL_encode s ign q)"
  using URL_encode_chars by blast

lemma not_plain: "\<not> url_plain 0x2F" "\<not> url_plain 0x3F" "\<not> url_plain 0x23" "\<not> url_plain 0x40"
  "\<not> url_plain 0x3A"
  by (simp_all add: url_plain_def byte_simps)

lemma parse_proto_ok:
  assumes "0x3A \<notin> set p"
  shows "parse_proto (p @ str ''://'' @ s) = (p, length p + 3)"
proof -
  have "sfind (p @ str ''://'' @ s) (str ''://'') 0 = Some (length p)"
  proof (rule sfind_eqI)
    fix j assume "j < length p"
    then have "(p @ str ''://'' @ s) ! (j + 0) \<noteq> str ''://'' ! 0"
      using assms nth_mem [of j p] by (cases "p ! j = 0x3A") (simp_all add: nth_append byte_simps)
    then show "\<not> at_pos (p @ str ''://'' @ s) (str ''://'') j"
      using at_pos_nth [of "p @ str ''://'' @ s" "str ''://''" j 0] by (auto simp: byte_simps)
  qed (simp_all add: at_pos_def)
  then show ?thesis by (simp add: parse_proto_def)
qed

lemma parse_creds_ok:
  assumes "\<forall>c \<in> set h. c \<noteq> 0x40"
  shows "parse_creds (out_creds u @ h) = (user u, pass u, h)"
proof -
  let ?U = "URL_encode (user u) [] False" and ?P = "URL_encode (pass u) [] False"
  have n: "0x40 \<notin> set ?U" "0x40 \<notin> set ?P" "0x3A \<notin> set ?U" "0x40 \<notin> set h"
    using assms by (auto simp: not_encoded not_plain)
  have d: "URL_decode ?U False = user u" "URL_decode ?P False = pass u"
    by (simp_all add: URL_round_trip)
  consider "user u = [] \<and> pass u = []" | "pass u = [] \<and> user u \<noteq> []" | "pass u \<noteq> []" by blast
  then show ?thesis
  proof cases
    case 1
    have "find_chr h 0x40 0 = None" using n(4) by (simp add: find_chr_None)
    then show ?thesis using 1 by (simp add: out_creds_def parse_creds_def)
  next
    case 2
    have "find_chr (?U @ 0x40 # h) 0x40 0 = Some (length ?U)" using n by (intro find_chr_append) auto
    moreover have "find_chr ?U 0x3A 0 = None" using n by (simp add: find_chr_None)
    ultimately show ?thesis using 2 d by (simp add: out_creds_def parse_creds_def byte_simps)
  next
    case 3
    have "find_chr ((?U @ 0x3A # ?P) @ 0x40 # h) 0x40 0 = Some (length (?U @ 0x3A # ?P))"
      using n by (intro find_chr_append) auto
    moreover have "find_chr (?U @ 0x3A # ?P) 0x3A 0 = Some (length ?U)"
      using n by (intro find_chr_append) auto
    ultimately show ?thesis using 3 d by (simp add: out_creds_def parse_creds_def byte_simps)
  qed
qed

lemma digits_numeric: "is_numeric (to_dec n)"
  using to_dec_digits [of n] digit_not_space
  by (auto simp: is_numeric_def list_all_iff dest!: set_takeWhileD)

lemma digits_no: "c \<in> set (to_dec n) \<Longrightarrow> is_digit c"
  using to_dec_digits [of n] by (simp add: list_all_iff)

lemma parse_host_ok:
  assumes h: "\<forall>c \<in> set h. c \<notin> set (str ''/?#@:'')" "h \<noteq> [] \<longrightarrow> h ! 0 \<noteq> 0x5B"
    "h \<noteq> [] \<longrightarrow> \<not> is_numeric h"
    and po: "po = [] \<and> q = [] \<or> po = to_dec n \<and> q = 0x3A # po"
  shows "parse_host (h @ q) = (h, po, False)"
proof -
  have c: "0x3A \<notin> set h" using h(1) by (auto simp: byte_simps)
  then have fc: "find_chr h 0x3A 0 = None" by (simp add: find_chr_None)
  from po show ?thesis
  proof (elim disjE conjE)
    assume "po = []" "q = []"
    have "rfind_chr h 0x3A (length h) = None" using c by (intro rfind_chr_None) auto
    then show ?thesis using \<open>po = []\<close> \<open>q = []\<close> h(2,3) fc
      by (auto simp: parse_host_def)
  next
    assume p: "po = to_dec n" "q = 0x3A # po"
    have "0x3A \<notin> set po" using digits_no [of "0x3A" n] p(1) by (auto simp: is_digit_def)
    then have "rfind_chr (h @ 0x3A # po) 0x3A (length (h @ 0x3A # po)) = Some (length h)"
      by (intro rfind_chr_append) auto
    moreover have "(h @ q) ! 0 \<noteq> 0x5B" using h(2) p(2) by (cases h) auto
    ultimately show ?thesis using h(3) fc p digits_numeric [of n]
      by (auto simp: parse_host_def)
  qed
qed

text \<open>What follows the host in a printed URL is read back.\<close>

lemma parse_path_ok:
  assumes u: "url_ok u"
  defines "enc \<equiv> URL_encode (path u) (str ''/:=@[]'') False"
    and "fr \<equiv> (if frag u \<noteq> [] then 0x23 # URL_encode (frag u) (str ''/:=@[]#?&'') False else [])"
  shows "parse_path (protocol u) (0x2F # enc @ out_args u @ fr) = (path u, args u, frag u)"
proof -
  let ?p = "enc @ out_args u @ fr"
  have pr: "protocol u \<noteq> str ''rtsp''" "protocol u \<noteq> []" "protocol u \<noteq> str ''file''"
    and ar: "0x23 \<notin> set (args u)" and nf: "norm_path enc = enc"
    using u by (auto simp: url_ok_def enc_def)
  have en: "0x23 \<notin> set enc" "0x3F \<notin> set enc"
    unfolding enc_def by (rule not_encoded; simp add: not_plain byte_simps)+
  have dec: "URL_decode (drop 1 fr) False = frag u" "URL_decode enc False = path u"
    "enc = [] \<longleftrightarrow> path u = []"
    by (auto simp: fr_def enc_def URL_round_trip URL_encode_Nil byte_simps URL_decode.simps)
  have e2: "0x23 \<notin> set (enc @ out_args u)" using en(1) ar by (simp add: out_args_def)
  have h: "(case find_chr ?p 0x23 0 of
      Some h \<Rightarrow> (take h ?p, URL_decode (drop (h + 1) ?p) False) | None \<Rightarrow> (?p, [])) =
      (enc @ out_args u, frag u)"
  proof (cases "frag u = []")
    case True
    then have "find_chr ?p 0x23 0 = None" using e2 by (simp add: fr_def find_chr_None)
    then show ?thesis using True by (simp add: fr_def)
  next
    case False
    then obtain t where t: "fr = 0x23 # t" by (simp add: fr_def)
    have "find_chr ((enc @ out_args u) @ 0x23 # t) 0x23 0 = Some (length (enc @ out_args u))"
      using e2 by (rule find_chr_append)
    then show ?thesis using t dec(1) by simp
  qed
  have q: "(case find_chr (enc @ out_args u) 0x3F 0 of
      Some q \<Rightarrow> (take q (enc @ out_args u), drop (q + 1) (enc @ out_args u))
    | None \<Rightarrow> (enc @ out_args u, [])) = (enc, args u)"
  proof (cases "args u = []")
    case True
    have "find_chr enc 0x3F 0 = None" using en(2) by (simp add: find_chr_None)
    then show ?thesis using True by (simp add: out_args_def)
  next
    case False
    have "find_chr (enc @ 0x3F # args u) 0x3F 0 = Some (length enc)"
      using en(2) by (rule find_chr_append)
    then show ?thesis using False by (simp add: out_args_def)
  qed
  have "split_path (protocol u) ?p = (enc, args u, frag u)"
    using pr(1) h q by (simp add: split_path_def)
  then show ?thesis using pr dec nf by (simp add: parse_path_def)
qed

text \<open>A URL that is printed and parsed is itself again.\<close>

lemma out_port_ok:
  assumes "url_ok u"
  obtains q n where "out_port u = Some q" "port u = [] \<and> q = [] \<or> port u = to_dec n \<and> q = 0x3A # port u"
proof (cases "port u = []")
  case True
  then show ?thesis using that [of "[]"] by (simp add: out_port_def)
next
  case False
  then obtain n where n: "n < 65536" "port u = to_dec n" "of_nat n \<noteq> getDefaultPort u"
    using assms unfolding url_ok_def by auto
  then have "getPort u = Some (of_nat n)"
    using atoi_to_dec [of n] to_dec_ne [of n] by (simp add: getPort_def)
  then show ?thesis using that [of "0x3A # port u" n] n False by (simp add: out_port_def)
qed

lemma creds_chars: "c \<in> set (out_creds u) \<Longrightarrow> c \<notin> set (str ''/?#'')"
  using URL_encode_chars [of c _ "[]" False] not_plain
  by (auto simp: out_creds_def byte_simps split: if_splits)

lemma URL_getUrl_ok:
  assumes u: "url_ok u"
  shows "\<exists>s. getUrl u = Some s \<and> URL s = u"
proof -
  obtain q n where q: "out_port u = Some q"
    "port u = [] \<and> q = [] \<or> port u = to_dec n \<and> q = 0x3A # port u"
    using out_port_ok [OF u] .
  define enc where "enc = URL_encode (path u) (str ''/:=@[]'') False"
  define fr where "fr = (if frag u \<noteq> [] then 0x23 # URL_encode (frag u) (str ''/:=@[]#?&'') False else [])"
  have pr: "protocol u \<noteq> []" "0x3A \<notin> set (protocol u)" "protocol u \<noteq> str ''file''"
    "protocol u \<noteq> str ''rtsp''" "protocol u \<noteq> str ''rist''"
    and v6: "\<not> IPv6Addr u"
    and h: "\<forall>c \<in> set (host u). c \<notin> set (str ''/?#@:'')" "host u \<noteq> [] \<longrightarrow> host u ! 0 \<noteq> 0x5B"
      "host u \<noteq> [] \<longrightarrow> \<not> is_numeric (host u)"
    using u by (auto simp: url_ok_def)
  have ho: "out_host u = host u"
    using h(1) v6 by (auto simp: out_host_def find_chr_None byte_simps)
  have pe: "getEncodedPath u = enc"
    using pr by (auto simp: getEncodedPath_def enc_def isLocalPath_def URL_encode_def)
  let ?b = "out_creds u @ host u @ q" and ?r = "0x2F # enc @ out_args u @ fr"
  have g: "getUrl u = Some (protocol u @ str ''://'' @ ?b @ ?r)"
    using pr ho pe q(1) by (simp add: getUrl_def out_proto_def fr_def)
  have dig: "\<forall>c \<in> set q. c \<notin> set (str ''/?#@'')"
    using q(2) digits_no [of "0x2F" n] digits_no [of "0x3F" n] digits_no [of "0x23" n] digits_no [of "0x40" n]
    by (auto simp: is_digit_def byte_simps)
  have b: "\<forall>c \<in> set ?b. c \<notin> set (str ''/?#'')"
    using creds_chars [of _ u] h(1) dig by (auto simp: byte_simps)
  let ?s = "protocol u @ str ''://'' @ ?b @ ?r"
  have "find_first_of ((protocol u @ str ''://'') @ ?b @ ?r) (str ''/?#'') (length (protocol u) + 3) =
      Some (length (protocol u) + 3 + length ?b)"
    using b by (intro find_first_of_append) (auto simp: byte_simps)
  then have ff: "find_first_of ?s (str ''/?#'') (length (protocol u) + 3) = Some (length (protocol u) + 3 + length ?b)"
    by simp
  have cut: "drop (length (protocol u) + 3 + length ?b) ?s = ?r"
    "take (length ?b) (drop (length (protocol u) + 3) ?s) = ?b"
    by simp_all
  have c: "parse_creds (out_creds u @ host u @ q) = (user u, pass u, host u @ q)"
    using h(1) dig by (intro parse_creds_ok) (auto simp: byte_simps)
  have ph: "parse_host (host u @ q) = (host u, port u, False)"
    using h q(2) by (intro parse_host_ok)
  have pp: "parse_path (protocol u) ?r = (path u, args u, frag u)"
    using parse_path_ok [OF u] by (simp add: enc_def fr_def)
  have "URL ?s = u"
    unfolding URL_def parse_proto_ok [OF pr(2)] Let_def prod.case ff option.case cut(1) pp
    using c ph v6 by simp
  then show ?thesis using g by blast
qed



section \<open>Properties\<close>




text \<open>The exception is real: the check for a preceding \<open>..\<close> looks at two characters, not at a whole
  name, so the \<open>..\<close> behind a directory called \<open>x..\<close> stays.\<close>

lemma URL_final_dots_kept:
  "path (URL (str ''file:///x../..'')) = str ''x../..'' \<and>
   path (URL (str ''file:///x/y/..'')) = str ''x/''"
  by code_simp

text \<open>Decoding comes after the normalisation, so a \<open>..\<close> written with percent signs is still in
  the path of the parsed URL.\<close>

theorem URL_encoded_dots:
  "path (URL (str ''http://h/%2e%2e/x'')) = str ''../x'' \<and>
   \<not> normal_path (path (URL (str ''http://h/%2e%2e/x'')))"
  by code_simp

text \<open>The port that is set is the port that is read.\<close>

theorem getPort_setPort: "getPort (setPort u p) = Some p"
  using atoi_to_dec [of "unat p"] to_dec_ne [of "unat p"] unsigned_less [of p, where ?'a = nat]
  by (simp add: getPort_def setPort_def)

text \<open>\<open>URL::getUrl\<close> prints a URL with all its parts such that parsing gives the URL back: user,
  password, path and fragment may have any characters at all.\<close>

theorem URL_getUrl:
  assumes "url_ok u"
  shows "\<exists>s. getUrl u = Some s \<and> URL s = u"
  using URL_getUrl_ok [OF assms] .

definition sample_url :: url where
  "sample_url = \<lparr>host = str ''example.org'', protocol = str ''http'', port = str ''8080'',
     path = str ''a dir/b'', args = str ''x=1'', frag = str ''f#'', user = str ''me@'', pass = str ''p/w'',
     IPv6Addr = False\<rparr>"

lemma sample_url_ok: "url_ok sample_url"
proof -
  have "norm_path (URL_encode (path sample_url) (str ''/:=@[]'') False) =
      URL_encode (path sample_url) (str ''/:=@[]'') False"
    by code_simp
  moreover have "port sample_url = to_dec 8080 \<and> (of_nat 8080 :: u16) \<noteq> getDefaultPort sample_url"
    by (simp add: sample_url_def to_dec.simps getDefaultPort_def byte_simps)
  moreover have "\<not> is_numeric (host sample_url)" by code_simp
  ultimately show ?thesis
    by (auto simp: url_ok_def sample_url_def byte_simps intro!: bexI [of _ 8080])
qed

theorem URL_getUrl_witness: "\<exists>s. getUrl sample_url = Some s \<and> URL s = sample_url"
  using URL_getUrl [OF sample_url_ok] .

text \<open>A relative link with a full URL in its query is taken for a full link: everything before
  the query's \<open>://\<close> becomes the protocol.\<close>

theorem link_query_misread:
  "map_option protocol (link (URL (str ''http://h/d/a'')) (str ''b?u=http://c/'')) =
     Some (str ''b?u=http'')"
  by code_simp

lemma getDefaultPort_upd: "getDefaultPort (u\<lparr>args := a, path := l\<rparr>) = getDefaultPort u"
proof -
  have "protocol (u\<lparr>args := a, path := l\<rparr>) = protocol u" by simp
  then show ?thesis unfolding getDefaultPort_def by (rule arg_cong)
qed

text \<open>An absolute link keeps protocol, user, host and port, and takes everything in the link for
  the path: a query in it is not split off, and escapes in it are not decoded.\<close>

theorem link_absolute:
  assumes "url_ok (u\<lparr>args := [], path := l\<rparr>)" "l \<noteq> []" "l ! 0 \<noteq> 0x2F"
  shows "link u (0x2F # l) = Some (u\<lparr>args := [], path := l\<rparr>)"
proof -
  let ?u = "u\<lparr>args := [], path := l\<rparr>"
  obtain s where s: "getUrl ?u = Some s" "URL s = ?u" using URL_getUrl_ok [OF assms(1)] by blast
  have "find_chr (0x2F # l) 0x2F 0 = Some 0" using find_chr_append [of "0x2F" "[]" l] by simp
  then have "\<not> link_full (0x2F # l)" by (simp add: link_full_def split: option.split)
  moreover have "\<not> isLocalPath ?u" using assms(1) by (auto simp: url_ok_def isLocalPath_def)
  ultimately show ?thesis using s assms(2,3) by (simp add: link_def)
qed

theorem link_absolute_witness:
  "link sample_url (str ''/x?y=%20'') = Some (sample_url\<lparr>args := [], path := str ''x?y=%20''\<rparr>)"
proof -
  have "norm_path (URL_encode (str ''x?y=%20'') (str ''/:=@[]'') False) =
      URL_encode (str ''x?y=%20'') (str ''/:=@[]'') False"
    by code_simp
  moreover have "host sample_url = str ''example.org''" by (simp add: sample_url_def)
  ultimately have "url_ok (sample_url\<lparr>args := [], path := str ''x?y=%20''\<rparr>)"
    using sample_url_ok by (simp add: url_ok_def getDefaultPort_upd)
  from link_absolute [OF this] show ?thesis by (simp add: byte_simps)
qed

end
