(* ===== verification/Bitstream.thy ===== *)
theory Bitstream
  imports Bits
begin

text \<open>
  Bit streams (\<open>lib/bitstream.cpp\<close>, \<open>lib/bitstream.h\<close>): the reader \<open>Utils::bitstream\<close>, the
  writer \<open>Utils::bitWriter\<close> with the exponential Golomb codes of H.264 and H.265, and the reader
  \<open>Utils::bitstreamLSBF\<close> that takes the least significant bit first. \<open>data\<close> holds the first
  \<open>dataSize\<close> bytes of the buffer; buffers are below 2 GiB, so the casts of byte positions to
  \<open>int\<close> change nothing.
\<close>

section \<open>Reading, most significant bit first\<close>

record bitstream =
  data :: bytes
  offset :: nat
  bufferSize :: nat

definition bs_size :: "bitstream \<Rightarrow> nat" where
  "bs_size s = (if offset s > length (data s) * 8 then 0 else length (data s) * 8 - offset s)"

text \<open>\<open>can\<close> says which allocations succeed. The requested size is cut to 32 bits.\<close>

definition checkBufferSize :: "(nat \<Rightarrow> bool) \<Rightarrow> bitstream \<Rightarrow> nat \<Rightarrow> bitstream option" where
  "checkBufferSize can s n =
     (let size = n mod 2 ^ 32 in
      if size \<le> bufferSize s then Some s
      else if can size then Some (s\<lparr>bufferSize := size\<rparr>) else None)"

text \<open>Appending: \<open>None\<close> is a write behind the buffer.\<close>

definition bs_append :: "(nat \<Rightarrow> bool) \<Rightarrow> bitstream \<Rightarrow> bytes \<Rightarrow> bitstream option" where
  "bs_append can s input =
     (case checkBufferSize can s (length (data s) + length input) of
        None \<Rightarrow> Some s
      | Some s \<Rightarrow>
          if length (data s) + length input \<le> bufferSize s
          then Some (s\<lparr>data := data s @ input\<rparr>) else None)"

function prevented :: "bytes \<Rightarrow> nat \<Rightarrow> bytes" where
  "prevented input i =
     (if i < length input then
        (if i + 2 < length input \<and> input ! i = 0 \<and> input ! (i + 1) = 0 \<and> input ! (i + 2) = 3
         then input ! i # input ! (i + 1) # prevented input (i + 3)
         else input ! i # prevented input (i + 1))
      else [])"
  by pat_completeness auto
termination by (relation "measure (\<lambda>(input, i). length input - i)") auto

declare prevented.simps [simp del]

definition appendPreventEmulation :: "(nat \<Rightarrow> bool) \<Rightarrow> bitstream \<Rightarrow> bytes \<Rightarrow> bitstream option" where
  "appendPreventEmulation can s input =
     (case checkBufferSize can s (length (data s) + length input) of
        None \<Rightarrow> Some s
      | Some s \<Rightarrow>
          if length (data s) + length (prevented input 0) \<le> bufferSize s
          then Some (s\<lparr>data := data s @ prevented input 0\<rparr>) else None)"

definition peekOffset :: "bitstream \<Rightarrow> nat \<Rightarrow> bool option" where
  "peekOffset s k =
     do { b \<leftarrow> rd (data s) (drop_bit 3 (k + offset s));
          Some (drop_bit (7 - ((k + offset s) AND 7)) b AND 1 \<noteq> 0) }"

text \<open>One round of the loop in \<open>peek\<close>: how many bits are read, and their value.\<close>

definition peek_size :: "nat \<Rightarrow> nat \<Rightarrow> nat" where
  "peek_size readOff left = (let readSize = 8 - readOff in if left < readSize then left else readSize)"

definition peek_bits :: "nat \<Rightarrow> nat \<Rightarrow> byte \<Rightarrow> byte" where
  "peek_bits readOff left b =
     (let b = (if readOff \<noteq> 0 then b AND (push_bit (8 - readOff) 1 - 1) else b)
      in if left < 8 - readOff then drop_bit (8 - left - readOff) b else b)"

function peek_loop :: "bitstream \<Rightarrow> nat \<Rightarrow> nat \<Rightarrow> u64 \<Rightarrow> u64 option" where
  "peek_loop s count curPlace retval =
     (if curPlace < count then
        do { b \<leftarrow> rd (data s) ((offset s + curPlace) div 8);
             let readOff = (offset s + curPlace) mod 8 in
             let n = peek_size readOff (count - curPlace) in
             peek_loop s count (curPlace + n)
               (push_bit n retval + ucast (peek_bits readOff (count - curPlace) b)) }
      else Some retval)"
  by pat_completeness auto
termination
  by (relation "measure (\<lambda>(s, count, curPlace, retval). count - curPlace)")
    (auto simp: peek_size_def Let_def)

declare peek_loop.simps [simp del]

definition peek :: "bitstream \<Rightarrow> nat \<Rightarrow> u64 option" where
  "peek s count = (if count > bs_size s then Some 0 else peek_loop s count 0 0)"

definition bs_skip :: "bitstream \<Rightarrow> nat \<Rightarrow> bitstream" where
  "bs_skip s count =
     (if count \<le> bs_size s then s\<lparr>offset := offset s + count\<rparr> else s\<lparr>offset := length (data s) * 8\<rparr>)"

definition bs_get :: "bitstream \<Rightarrow> nat \<Rightarrow> (u64 \<times> bitstream) option" where
  "bs_get s count =
     (if count \<le> bs_size s then do { v \<leftarrow> peek s count; Some (v, bs_skip s count) } else Some (0, s))"

definition setOffset :: "bitstream \<Rightarrow> nat \<Rightarrow> bitstream" where
  "setOffset s newOffset = s\<lparr>offset := newOffset\<rparr>"

definition bs_clear :: "bitstream \<Rightarrow> bitstream" where
  "bs_clear s = s\<lparr>data := [], offset := 0\<rparr>"

text \<open>\<open>None\<close>: the length given to \<open>memmove\<close> is negative.\<close>

definition bs_flush :: "bitstream \<Rightarrow> bitstream option" where
  "bs_flush s =
     (if offset s div 8 \<le> length (data s)
      then Some (s\<lparr>data := drop (offset s div 8) (data s), offset := offset s mod 8\<rparr>) else None)"

text \<open>The first of the next 64 bits that is set.\<close>

function first_set :: "bitstream \<Rightarrow> nat \<Rightarrow> nat option option" where
  "first_set s i =
     (if i < 64 \<and> i < bs_size s then
        do { b \<leftarrow> peekOffset s i; if b then Some (Some i) else first_set s (i + 1) }
      else Some None)"
  by pat_completeness auto
termination by (relation "measure (\<lambda>(s, i). 64 - i)") auto

declare first_set.simps [simp del]

definition golombPeeker :: "bitstream \<Rightarrow> u64 option" where
  "golombPeeker s =
     do { r \<leftarrow> first_set s 0;
          (case r of Some i \<Rightarrow> peek s (i * 2 + 1) | None \<Rightarrow> Some 0) }"

definition golombGetter :: "bitstream \<Rightarrow> (u64 \<times> bitstream) option" where
  "golombGetter s =
     do { r \<leftarrow> first_set s 0;
          (case r of Some i \<Rightarrow> bs_get s (i * 2 + 1) | None \<Rightarrow> Some (0, s)) }"

text \<open>The sign is in the lowest bit; the product is unsigned and then read as signed.\<close>

definition golomb_signed :: "u64 \<Rightarrow> int" where
  "golomb_signed temp = sint (drop_bit 1 temp * (1 - push_bit 1 (temp AND 1)))"

definition getExpGolomb :: "bitstream \<Rightarrow> (int \<times> bitstream) option" where
  "getExpGolomb s = do { (temp, s) \<leftarrow> golombGetter s; Some (golomb_signed temp, s) }"

definition getUExpGolomb :: "bitstream \<Rightarrow> (u64 \<times> bitstream) option" where
  "getUExpGolomb s = do { (temp, s) \<leftarrow> golombGetter s; Some (temp - 1, s) }"

definition peekExpGolomb :: "bitstream \<Rightarrow> int option" where
  "peekExpGolomb s = map_option golomb_signed (golombPeeker s)"

definition peekUExpGolomb :: "bitstream \<Rightarrow> u64 option" where
  "peekUExpGolomb s = map_option (\<lambda>temp. temp - 1) (golombPeeker s)"

text \<open>\<open>bitSizeUExpGolomb\<close>; the fuel counts the rounds of its loop.\<close>

fun bitSize_loop :: "nat \<Rightarrow> u64 \<Rightarrow> u64 \<Rightarrow> nat \<Rightarrow> nat option" where
  "bitSize_loop 0 value pw i = None"
| "bitSize_loop (Suc fuel) value pw i =
     (if pw - 2 < value then bitSize_loop fuel value (pw * 2) (i + 2) else Some i)"

definition bitSizeUExpGolomb :: "nat \<Rightarrow> u64 \<Rightarrow> nat option" where
  "bitSizeUExpGolomb fuel value = bitSize_loop fuel value 2 1"

section \<open>Writing\<close>

record bitWriter =
  written :: bytes
  bitSize :: nat

text \<open>Appending the \<open>bitLength\<close> low bits of a value. \<open>None\<close> is a shift by 64 or more, or by a
  negative number, or an access behind the buffer. \<open>buf\<close> has a ninth byte for what does not fit.\<close>

definition shifted :: "u64 \<Rightarrow> int \<Rightarrow> bytes option" where
  "shifted val bitShift =
     (if bitShift \<ge> 64 \<or> bitShift < -8 then None
      else if bitShift \<ge> 0 then Some (be_bytes 8 (push_bit (nat bitShift) val))
      else Some (be_bytes 8 (drop_bit (nat (- bitShift)) val) @
                 [ucast (push_bit (nat (8 + bitShift)) val AND 0xFF)]))"

definition or_at :: "bytes \<Rightarrow> nat \<Rightarrow> bytes \<Rightarrow> nat \<Rightarrow> bytes option" where
  "or_at p i buf n =
     (if i + n \<le> length p \<and> n \<le> length buf
      then Some (take i p @ map2 (OR) (take n (drop i p)) (take n buf) @ drop (i + n) p) else None)"

definition bw_append :: "bitWriter \<Rightarrow> u64 \<Rightarrow> nat \<Rightarrow> bitWriter option" where
  "bw_append w val bitLength =
     (let byteLength = ((bitSize w + bitLength) div 8 + 1) mod 2 ^ 32;
          p = written w @ replicate (byteLength - length (written w)) 0;
          bitShift = (64 - int bitLength) - int (bitSize w mod 8);
          adjustableBits = bitSize w mod 8 + bitLength;
          adjustableBytes = adjustableBits div 8 + (if adjustableBits mod 8 \<noteq> 0 then 1 else 0)
      in do { buf \<leftarrow> shifted val bitShift;
              p \<leftarrow> or_at p (bitSize w div 8) buf adjustableBytes;
              Some (w\<lparr>written := p, bitSize := bitSize w + bitLength\<rparr>) })"

fun bw_append_bytes :: "bitWriter \<Rightarrow> bytes \<Rightarrow> bitWriter option" where
  "bw_append_bytes w [] = Some w"
| "bw_append_bytes w (c # cs) = do { w \<leftarrow> bw_append w (ucast c) 8; bw_append_bytes w cs }"

definition bw_clear :: "bitWriter \<Rightarrow> bitWriter" where
  "bw_clear w = w\<lparr>written := [], bitSize := 0\<rparr>"

definition bw_str :: "bitWriter \<Rightarrow> bytes" where
  "bw_str w = take (bitSize w div 8 + (if bitSize w mod 8 \<noteq> 0 then 1 else 0)) (written w)"

fun size_loop :: "nat \<Rightarrow> u64 \<Rightarrow> u64 \<Rightarrow> nat \<Rightarrow> nat option" where
  "size_loop 0 value maxVal res = None"
| "size_loop (Suc fuel) value maxVal res =
     (if value > maxVal then size_loop fuel value (push_bit 1 maxVal OR 1) (res + 1)
      else Some (2 * res - 1))"

text \<open>Sixty-four rounds are always enough.\<close>

definition UExpGolombEncodedSize :: "u64 \<Rightarrow> nat option" where
  "UExpGolombEncodedSize value = size_loop 64 (value + 1) 1 1"

definition appendUExpGolomb :: "bitWriter \<Rightarrow> u64 \<Rightarrow> bitWriter option" where
  "appendUExpGolomb w value = do { n \<leftarrow> UExpGolombEncodedSize value; bw_append w (value + 1) n }"

text \<open>The signed code; \<open>None\<close> when the product overflows \<open>int64_t\<close>.\<close>

definition appendExpGolomb :: "bitWriter \<Rightarrow> int \<Rightarrow> bitWriter option" where
  "appendExpGolomb w value =
     (let v = (if value < 0 then value * -2 else if value > 0 then value * 2 - 1 else value) in
      if value * 2 < - (2 ^ 63) \<or> abs (value * 2) \<ge> 2 ^ 63 then None
      else appendUExpGolomb w (of_int v))"

section \<open>Reading, least significant bit first\<close>

record bitstreamLSBF =
  lsbf_data :: bytes
  readBuffer :: u64
  readBufferOffset :: nat

text \<open>The condition looks at the size of the data, which only changes after the loop; reading
  \<open>data[data.size()]\<close> gives zero, further positions are outside the string.\<close>

function fixData_loop :: "bytes \<Rightarrow> nat \<Rightarrow> u64 \<Rightarrow> nat \<Rightarrow> (nat \<times> u64 \<times> nat) option" where
  "fixData_loop d pos rb rbo =
     (if rbo \<le> 32 \<and> length d \<noteq> 0 then
        do { c \<leftarrow> rd (d @ [0]) pos;
             fixData_loop d (pos + 1) (rb OR push_bit rbo (ucast c)) (rbo + 8) }
      else Some (pos, rb, rbo))"
  by pat_completeness auto
termination by (relation "measure (\<lambda>(d, pos, rb, rbo). 33 - rbo)") auto

declare fixData_loop.simps [simp del]

definition fixData :: "bitstreamLSBF \<Rightarrow> bitstreamLSBF option" where
  "fixData s =
     do { (pos, rb, rbo) \<leftarrow> fixData_loop (lsbf_data s) 0 (readBuffer s) (readBufferOffset s);
          Some \<lparr>lsbf_data = drop pos (lsbf_data s), readBuffer = rb, readBufferOffset = rbo\<rparr> }"

definition lsbf_append :: "bitstreamLSBF \<Rightarrow> bytes \<Rightarrow> bitstreamLSBF option" where
  "lsbf_append s input = fixData (s\<lparr>lsbf_data := lsbf_data s @ input\<rparr>)"

definition lsbf_size :: "bitstreamLSBF \<Rightarrow> nat" where
  "lsbf_size s = length (lsbf_data s) * 8 + readBufferOffset s"

definition lsbf_skip :: "bitstreamLSBF \<Rightarrow> nat \<Rightarrow> bitstreamLSBF option" where
  "lsbf_skip s count =
     (if count \<le> 32 \<and> count \<le> readBufferOffset s
      then fixData (s\<lparr>readBuffer := drop_bit count (readBuffer s),
                      readBufferOffset := readBufferOffset s - count\<rparr>)
      else Some s)"

definition lsbf_get :: "bitstreamLSBF \<Rightarrow> nat \<Rightarrow> (u64 \<times> bitstreamLSBF) option" where
  "lsbf_get s count =
     (if count \<le> 32 \<and> count \<le> readBufferOffset s
      then do { t \<leftarrow> fixData (s\<lparr>readBuffer := drop_bit count (readBuffer s),
                                readBufferOffset := readBufferOffset s - count\<rparr>);
                Some (readBuffer s AND (push_bit count 1 - 1), t) }
      else Some (42, s))"

text \<open>\<open>peek\<close> shifts an \<open>int\<close>: 31 bits overflow it and 32 are not a shift of it.\<close>

definition lsbf_peek :: "bitstreamLSBF \<Rightarrow> nat \<Rightarrow> u64 option" where
  "lsbf_peek s count =
     (if count \<le> 32 \<and> count \<le> readBufferOffset s
      then (if count \<ge> 31 then None else Some (readBuffer s AND (push_bit count 1 - 1)))
      else Some 0)"

definition lsbf_clear :: "bitstreamLSBF \<Rightarrow> bitstreamLSBF" where
  "lsbf_clear s = \<lparr>lsbf_data = [], readBuffer = 0, readBufferOffset = 0\<rparr>"

section \<open>Bits\<close>

text \<open>The bits of a buffer, the number a list of bits stands for and the \<open>n\<close> low bits of a number.\<close>

definition bits :: "bytes \<Rightarrow> bool list" where
  "bits d = map (\<lambda>k. bit (d ! (k div 8)) (7 - k mod 8)) [0..<8 * length d]"

definition bl_val :: "bool list \<Rightarrow> nat" where
  "bl_val bl = foldl (\<lambda>n b. 2 * n + of_bool b) 0 bl"

definition bl_of :: "nat \<Rightarrow> nat \<Rightarrow> bool list" where
  "bl_of n m = map (\<lambda>i. bit m (n - 1 - i)) [0..<n]"

lemma length_bits [simp]: "length (bits d) = 8 * length d"
  by (simp add: bits_def)

lemma length_bl_of [simp]: "length (bl_of n m) = n"
  by (simp add: bl_of_def)

lemma nth_bits: "k < 8 * length d \<Longrightarrow> bits d ! k = bit (d ! (k div 8)) (7 - k mod 8)"
  by (simp add: bits_def)

lemma nth_bl_of: "i < n \<Longrightarrow> bl_of n m ! i = bit m (n - 1 - i)"
  by (simp add: bl_of_def)

lemma bl_val_Nil [simp]: "bl_val [] = 0"
  by (simp add: bl_val_def)

lemma bl_val_snoc: "bl_val (xs @ [b]) = 2 * bl_val xs + of_bool b"
  by (simp add: bl_val_def)

lemma bl_val_append: "bl_val (xs @ ys) = bl_val xs * 2 ^ length ys + bl_val ys"
proof (induction ys rule: rev_induct)
  case (snoc y ys)
  then show ?case unfolding append_assoc [symmetric] bl_val_snoc by simp
qed simp

lemma bl_of_Suc: "bl_of (Suc n) m = bl_of n (m div 2) @ [odd m]"
proof (rule nth_equalityI)
  fix i assume "i < length (bl_of (Suc n) m)"
  then consider "i = n" | "i < n" by (auto simp: less_Suc_eq)
  then show "bl_of (Suc n) m ! i = (bl_of n (m div 2) @ [odd m]) ! i"
  proof cases
    case 2
    then have "n - i = Suc (n - 1 - i)" by simp
    then have "bit m (n - i) = bit (m div 2) (n - 1 - i)" by (simp only: bit_Suc)
    then show ?thesis using 2 by (simp add: nth_bl_of nth_append)
  qed (simp add: nth_bl_of nth_append bit_0)
qed simp

lemma bl_val_bl_of: "bl_val (bl_of n m) = take_bit n m"
proof (induction n arbitrary: m)
  case (Suc n)
  then show ?case by (simp add: bl_of_Suc bl_val_snoc take_bit_Suc mod_2_eq_odd)
qed (simp add: bl_of_def)

lemma bl_of_append: "bl_of (a + b) m = bl_of a (drop_bit b m) @ bl_of b m"
  by (rule nth_equalityI) (auto simp: nth_bl_of nth_append bit_drop_bit_eq algebra_simps)

text \<open>Bits inside one byte.\<close>

lemma take_drop_bits:
  assumes "r + n \<le> 8" "q < length d"
  shows "take n (drop (8 * q + r) (bits d)) = bl_of n (drop_bit (8 - r - n) (unat (d ! q)))"
proof (rule nth_equalityI)
  show "length (take n (drop (8 * q + r) (bits d))) = length (bl_of n (drop_bit (8 - r - n) (unat (d ! q))))"
    using assms by simp
next
  fix i assume "i < length (take n (drop (8 * q + r) (bits d)))"
  then have i: "i < n" by simp
  then have ri: "r + i < 8" using assms(1) by simp
  then have "(8 * q + (r + i)) div 8 = q" "(8 * q + (r + i)) mod 8 = r + i"
    by (simp_all del: add.assoc)
  moreover have "8 * q + r + i < 8 * length d" using assms(2) ri by linarith
  ultimately have "(8 * q + r + i) div 8 = q" "(8 * q + r + i) mod 8 = r + i" "8 * q + r + i < 8 * length d"
    by (simp_all add: add.assoc)
  then show "take n (drop (8 * q + r) (bits d)) ! i = bl_of n (drop_bit (8 - r - n) (unat (d ! q))) ! i"
    using i assms
    by (simp add: nth_bits nth_bl_of bit_drop_bit_eq bit_unsigned_iff Suc_diff_Suc algebra_simps)
qed

lemma peek_bits_val:
  assumes "r < 8" "0 < left"
  defines "n \<equiv> peek_size r left"
  shows "unat (peek_bits r left b) = bl_val (bl_of n (drop_bit (8 - r - n) (unat b)))"
    and "r + n \<le> 8" "0 < n" "n \<le> left"
proof -
  have m: "push_bit k 1 - 1 = (mask k :: byte)" for k
    by (simp add: mask_eq_exp_minus_1)
  have "peek_bits r left b = take_bit n (drop_bit (8 - r - n) b)"
  proof (rule bit_word_eqI)
    fix i assume "i < LENGTH(8)"
    then show "bit (peek_bits r left b) i = bit (take_bit n (drop_bit (8 - r - n) b)) i"
      using assms(1,2) unfolding peek_bits_def n_def peek_size_def Let_def m
      by (auto simp: bit_simps add.commute [of left r] dest: byte_bit_less)
  qed
  moreover have "take_bit 8 (unat b) = unat b"
    using unsigned_less [of b, where ?'a = nat] by (simp add: take_bit_nat_eq_self)
  ultimately show "unat (peek_bits r left b) = bl_val (bl_of n (drop_bit (8 - r - n) (unat b)))"
    by (simp add: bl_val_bl_of unsigned_take_bit_eq unsigned_drop_bit_eq)
  show "r + n \<le> 8" "0 < n" "n \<le> left"
    using assms by (auto simp: peek_size_def Let_def)
qed

section \<open>The reader returns the bits of its data\<close>

definition bits_left :: "bitstream \<Rightarrow> bool list" where
  "bits_left s = drop (offset s) (bits (data s))"

lemma length_bits_left: "length (bits_left s) = bs_size s"
  by (simp add: bits_left_def bs_size_def mult.commute)

lemma peek_loop_eq:
  assumes "offset s + count \<le> 8 * length (data s)" "cur \<le> count"
    "rv = of_nat (bl_val (take cur (bits_left s)))"
  shows "peek_loop s count cur rv = Some (of_nat (bl_val (take count (bits_left s))))"
  using assms
proof (induction s count cur rv rule: peek_loop.induct)
  case (1 s count cur rv)
  show ?case
  proof (cases "cur < count")
    case False
    then show ?thesis using 1 by (subst peek_loop.simps) simp
  next
    case True
    let ?o = "offset s + cur" let ?q = "?o div 8" let ?r = "?o mod 8"
    let ?n = "peek_size ?r (count - cur)" let ?b = "data s ! ?q"
    have q: "?q < length (data s)" using True 1(2) by auto
    have n: "?r + ?n \<le> 8" "0 < ?n" "?n \<le> count - cur"
      using peek_bits_val(2-4) [of ?r "count - cur"] True by auto
    have pb: "unat (peek_bits ?r (count - cur) ?b) =
        bl_val (bl_of ?n (drop_bit (8 - ?r - ?n) (unat ?b)))"
      using True by (intro peek_bits_val(1)) auto
    have "take (cur + ?n) (bits_left s) = take cur (bits_left s) @ take ?n (drop ?o (bits (data s)))"
      by (simp add: bits_left_def take_add add.commute)
    also have "drop ?o (bits (data s)) = drop (8 * ?q + ?r) (bits (data s))" by simp
    also have "take ?n \<dots> = bl_of ?n (drop_bit (8 - ?r - ?n) (unat ?b))"
      using n q by (intro take_drop_bits) auto
    finally have "bl_val (take (cur + ?n) (bits_left s)) =
        bl_val (take cur (bits_left s)) * 2 ^ ?n + unat (peek_bits ?r (count - cur) ?b)"
      using pb by (simp add: bl_val_append)
    note e0 = this
    have e: "push_bit ?n rv + ucast (peek_bits ?r (count - cur) ?b) =
        of_nat (bl_val (take (cur + ?n) (bits_left s)))"
    proof -
      have "ucast (peek_bits ?r (count - cur) ?b) = (of_nat (unat (peek_bits ?r (count - cur) ?b)) :: u64)"
        by (simp only: of_nat_unat)
      then show ?thesis unfolding e0 push_bit_eq_mult 1(4) by (simp only: of_nat_add of_nat_mult of_nat_power of_nat_numeral)
    qed
    have "peek_loop s count cur rv =
        peek_loop s count (cur + ?n) (push_bit ?n rv + ucast (peek_bits ?r (count - cur) ?b))"
      using True q by (subst peek_loop.simps) (simp add: rd_def Let_def)
    also have "\<dots> = Some (of_nat (bl_val (take count (bits_left s))))"
    proof -
      have "cur + ?n \<le> count" using n True by linarith
      then show ?thesis
        using 1(1) [OF True, of ?b ?r ?n] e 1(2) q by (simp add: rd_def)
    qed
    finally show ?thesis .
  qed
qed

lemma peek_eq:
  "count \<le> bs_size s \<Longrightarrow> peek s count = Some (of_nat (bl_val (take count (bits_left s))))"
  using peek_loop_eq [of s count 0 0] peek_loop.simps [of s 0 0 0]
  by (auto simp: peek_def bs_size_def split: if_splits)

lemma bs_get_eq:
  "count \<le> bs_size s \<Longrightarrow>
   bs_get s count = Some (of_nat (bl_val (take count (bits_left s))), s\<lparr>offset := offset s + count\<rparr>)"
  by (simp add: bs_get_def peek_eq bs_skip_def)

lemma bits_left_skip: "bits_left (s\<lparr>offset := offset s + n\<rparr>) = drop n (bits_left s)"
  by (simp add: bits_left_def add.commute)

lemma peekOffset_eq: "i < bs_size s \<Longrightarrow> peekOffset s i = Some (bits_left s ! i)"
proof -
  assume i: "i < bs_size s"
  let ?k = "i + offset s"
  have k: "?k < 8 * length (data s)" using i by (auto simp: bs_size_def split: if_splits)
  have o: "odd (drop_bit n b) \<longleftrightarrow> bit b n" for n and b :: byte
    by (simp add: bit_iff_odd_drop_bit)
  have "bits_left s ! i = bits (data s) ! ?k"
    using k by (simp add: bits_left_def add.commute)
  then show ?thesis
    using k by (simp add: peekOffset_def rd_def drop_bit_3_nat and_7_nat nth_bits o and_one_eq
        odd_iff_mod_2_eq_one [symmetric] less_mult_imp_div_less mult.commute mod_2_eq_odd)
qed

lemma first_set_eq:
  assumes "k < 64" "k < bs_size s" "bits_left s ! k" "\<forall>j < k. \<not> bits_left s ! j" "i \<le> k"
  shows "first_set s i = Some (Some k)"
  using assms
proof (induction s i rule: first_set.induct)
  case (1 s i)
  show ?case
  proof (cases "i = k")
    case True
    then show ?thesis using 1 by (subst first_set.simps) (simp add: peekOffset_eq)
  next
    case False
    have "first_set s (i + 1) = Some (Some k)"
      by (rule 1(1) [of False]) (use 1 False in \<open>simp_all add: peekOffset_eq\<close>)
    then show ?thesis using 1 False by (subst first_set.simps) (simp add: peekOffset_eq)
  qed
qed

section \<open>Exponential Golomb codes\<close>

text \<open>\<open>bit_len r w\<close>: the number \<open>w\<close> has \<open>r\<close> bits.\<close>

definition bit_len :: "nat \<Rightarrow> nat \<Rightarrow> bool" where
  "bit_len r w \<longleftrightarrow> 0 < r \<and> 2 ^ (r - 1) \<le> w \<and> w < 2 ^ r"

lemma bit_len_ex: "0 < w \<Longrightarrow> \<exists>r. bit_len r w"
proof -
  assume "0 < w"
  obtain r where r: "w < 2 ^ r" "\<forall>k < r. \<not> w < 2 ^ k"
    using exists_least_iff [of "\<lambda>r. w < 2 ^ r"] less_exp by blast
  then have "r \<noteq> 0" using \<open>0 < w\<close> by (cases r) auto
  then have "\<not> w < 2 ^ (r - 1)" using r(2) by simp
  then show ?thesis using r(1) \<open>r \<noteq> 0\<close> by (intro exI [of _ r]) (auto simp: bit_len_def)
qed

lemma bit_len_le: "bit_len r w \<Longrightarrow> w < 2 ^ k \<Longrightarrow> r \<le> k"
proof (rule ccontr)
  assume "bit_len r w" "w < 2 ^ k" "\<not> r \<le> k"
  then have "(2 :: nat) ^ k \<le> 2 ^ (r - 1)" by (intro power_increasing) auto
  then show False using \<open>bit_len r w\<close> \<open>w < 2 ^ k\<close> unfolding bit_len_def by linarith
qed

lemma bit_len_bits:
  assumes "bit_len r w"
  shows "bit w (r - 1)" "r \<le> i \<Longrightarrow> \<not> bit w i"
proof -
  obtain k where k: "r = Suc k" using assms by (cases r) (auto simp: bit_len_def)
  then have "w div 2 ^ k = 1" using assms by (intro div_nat_eqI) (auto simp: bit_len_def)
  then show "bit w (r - 1)" by (simp add: bit_iff_odd k)
  assume "r \<le> i"
  then have "w < 2 ^ i"
    using assms power_increasing [of r i "2 :: nat"] unfolding bit_len_def by linarith
  then show "\<not> bit w i" by (simp add: bit_iff_odd)
qed

lemma unat_mask_u64: "n \<le> 64 \<Longrightarrow> unat (mask n :: u64) = 2 ^ n - 1"
proof -
  assume "n \<le> 64"
  then have "unat (of_nat (mask n) :: u64) = mask n"
    using mask_nat_less_exp [of n] power_increasing [of n 64 "2 :: nat"]
    by (simp add: unsigned_of_nat take_bit_nat_eq_self del: of_nat_mask_eq)
  then have "unat (mask n :: u64) = mask n" by (simp only: of_nat_mask_eq)
  then show ?thesis by (simp add: mask_eq_exp_minus_1)
qed

lemma mask_step: "mask n * 2 OR 1 = (mask (Suc n) :: u64)"
  by (simp add: mask_Suc_double or.commute mult.commute)

lemma size_loop_eq:
  assumes "bit_len k (unat value)" "res \<le> k" "k \<le> 64" "k - res < fuel"
  shows "size_loop fuel value (mask res) res = Some (2 * k - 1)"
  using assms
proof (induction fuel arbitrary: res)
  case (Suc fuel)
  have m: "unat (mask res :: u64) = 2 ^ res - 1" using Suc.prems by (intro unat_mask_u64) simp
  show ?case
  proof (cases "res = k")
    case True
    then have "\<not> mask res < value"
      using Suc.prems(1) m by (simp add: word_less_nat_alt bit_len_def not_less) linarith
    then show ?thesis using True by simp
  next
    case False
    then have "(2 :: nat) ^ res \<le> 2 ^ (k - 1)" using Suc.prems by (intro power_increasing) auto
    then have "2 ^ res \<le> unat value" using Suc.prems(1) unfolding bit_len_def by linarith
    then have "mask res < value" using m
      by (simp add: word_less_nat_alt) (metis Suc_le_lessD Suc_pred zero_less_numeral zero_less_power)
    then show ?thesis using Suc False by (simp add: mask_step)
  qed
qed simp

lemma encodedSize_eq:
  "bit_len k (unat (v + 1)) \<Longrightarrow> UExpGolombEncodedSize v = Some (2 * k - 1)"
proof -
  assume k: "bit_len k (unat (v + 1))"
  then have "k \<le> 64" using bit_len_le unsigned_less [of "v + 1", where ?'a = nat] by fastforce
  moreover have "1 \<le> k" using k by (simp add: bit_len_def)
  moreover have "(1 :: u64) = mask 1" by (simp add: mask_eq_exp_minus_1)
  ultimately show ?thesis
    using size_loop_eq [OF k, of 1 64] unfolding UExpGolombEncodedSize_def by simp
qed

text \<open>A code in front of the reader is found and read.\<close>

lemma golombGetter_eq:
  assumes w: "bit_len r w" "r \<le> 64" and l: "bits_left s = bl_of (2 * r - 1) w @ rest"
  shows "golombGetter s = Some (of_nat w, s\<lparr>offset := offset s + (2 * r - 1)\<rparr>)"
proof -
  have r: "0 < r" using w by (simp add: bit_len_def)
  have sz: "bs_size s = 2 * r - 1 + length rest" using l length_bits_left [of s] by simp
  have n: "bits_left s ! j = bit w (2 * r - 2 - j)" if "j < r" for j
  proof -
    have "j < 2 * r - 1" using that by linarith
    then show ?thesis by (simp add: l nth_append nth_bl_of)
  qed
  have "2 * r - 2 - (r - 1) = r - 1" using r by simp
  then have "first_set s 0 = Some (Some (r - 1))"
    using n w(2) r sz bit_len_bits [OF w(1)] by (intro first_set_eq) auto
  moreover have "bs_get s ((r - 1) * 2 + 1) = Some (of_nat w, s\<lparr>offset := offset s + (2 * r - 1)\<rparr>)"
  proof -
    have c: "(r - 1) * 2 + 1 = 2 * r - 1" using r by simp
    have "(2 :: nat) ^ r \<le> 2 ^ (2 * r - 1)" using r by (intro power_increasing) auto
    then have "take_bit (2 * r - 1) w = w" using w(1) unfolding bit_len_def
      by (intro take_bit_nat_eq_self) linarith
    then show ?thesis unfolding c using l sz by (subst bs_get_eq) (auto simp: bl_val_bl_of)
  qed
  ultimately show ?thesis by (simp add: golombGetter_def)
qed

section \<open>The writer appends bits\<close>

definition bw_bits :: "bitWriter \<Rightarrow> bool list" where
  "bw_bits w = take (bitSize w) (bits (written w))"

definition bw_ok :: "bitWriter \<Rightarrow> bool" where
  "bw_ok w \<longleftrightarrow> bitSize w \<le> 8 * length (written w) \<and>
     list_all Not (drop (bitSize w) (bits (written w)))"

lemma bw_ok_nth:
  "bw_ok w \<longleftrightarrow> bitSize w \<le> 8 * length (written w) \<and>
     (\<forall>k. bitSize w \<le> k \<and> k < 8 * length (written w) \<longrightarrow> \<not> bits (written w) ! k)"
proof -
  let ?b = "bitSize w" and ?l = "8 * length (written w)"
  have "list_all Not (drop ?b (bits (written w))) \<longleftrightarrow> (\<forall>n < ?l - ?b. \<not> bits (written w) ! (?b + n))"
    by (simp add: list_all_length)
  also have "\<dots> \<longleftrightarrow> (\<forall>k. ?b \<le> k \<and> k < ?l \<longrightarrow> \<not> bits (written w) ! k)" if "?b \<le> ?l"
  proof (intro iffI allI impI)
    fix k assume "\<forall>n < ?l - ?b. \<not> bits (written w) ! (?b + n)" "?b \<le> k \<and> k < ?l"
    then show "\<not> bits (written w) ! k" by (auto dest!: spec [of _ "k - ?b"])
  qed auto
  finally show ?thesis unfolding bw_ok_def by blast
qed

lemma length_bw_bits: "bw_ok w \<Longrightarrow> length (bw_bits w) = bitSize w"
  by (simp add: bw_bits_def bw_ok_def)

lemma bit_be_bytes: "k < 64 \<Longrightarrow> bit (be_bytes 8 (v :: u64) ! (k div 8)) (7 - k mod 8) = bit v (63 - k)"
proof -
  assume k: "k < 64"
  then have i: "k div 8 < 8" by simp
  have "be_bytes 8 v ! (k div 8) = ucast (drop_bit (8 * (7 - k div 8)) v)"
  proof -
    have "[0..<8] ! (7 - k div 8) = 7 - k div 8" by (subst nth_upt) auto
    then show ?thesis using i by (simp add: be_bytes_def rev_nth del: upt_rec_numeral)
  qed
  moreover have "8 * (7 - k div 8) + (7 - k mod 8) = 63 - k"
  proof -
    define q r where "q = k div 8" and "r = k mod 8"
    then have "k = 8 * q + r" "q < 8" "r < 8" using i by simp_all
    then show ?thesis unfolding q_def [symmetric] r_def [symmetric] by simp
  qed
  moreover have "7 - k mod 8 < 8" by (rule le_less_trans [OF diff_le_self]) simp
  ultimately show ?thesis by (simp add: bit_simps)
qed

lemma shifted_ok:
  assumes "r < 8" "0 < n" "n \<le> 64"
  obtains buf where "shifted val (64 - int n - int r) = Some buf"
    "length buf = (if n + r \<le> 64 then 8 else 9)"
    "\<And>k. k < 8 * length buf \<Longrightarrow>
      bit (buf ! (k div 8)) (7 - k mod 8) = (k < n + r \<and> bit val (n + r - 1 - k))"
proof (cases "n + r \<le> 64")
  case True
  let ?b = "be_bytes 8 (push_bit (64 - n - r) val)"
  have "shifted val (64 - int n - int r) = Some ?b"
    using True assms by (simp add: shifted_def nat_diff_distrib nat_int_add)
  moreover have "bit (?b ! (k div 8)) (7 - k mod 8) = (k < n + r \<and> bit val (n + r - 1 - k))"
    if "k < 8 * length ?b" for k
  proof -
    have "k < n + r \<longleftrightarrow> 64 - n - r \<le> 63 - k" "k < n + r \<Longrightarrow> 63 - k - (64 - n - r) = n + r - 1 - k"
      using that True by auto
    then show ?thesis using that by (auto simp: bit_be_bytes bit_push_bit_iff)
  qed
  ultimately show ?thesis using that [of ?b] True by simp
next
  case False
  define t where "t = n + r - 64"
  have t: "0 < t" "t < 8" "n + r = 64 + t" using assms False by (auto simp: t_def)
  let ?h = "be_bytes 8 (drop_bit t val)" and ?l = "ucast (push_bit (8 - t) val AND 0xFF) :: byte"
  have e: "64 - int n - int r = - int t" using t(3) by linarith
  have "shifted val (64 - int n - int r) = Some (?h @ [?l])"
    unfolding e using t by (simp add: shifted_def nat_diff_distrib nat_int_add)
  moreover have "bit ((?h @ [?l]) ! (k div 8)) (7 - k mod 8) = (k < n + r \<and> bit val (n + r - 1 - k))"
    if k: "k < 8 * length (?h @ [?l])" for k
  proof (cases "k < 64")
    case True
    then have "k div 8 < 8" by simp
    moreover have "t + (63 - k) = n + r - 1 - k" "k < n + r" using True t by auto
    ultimately show ?thesis using True by (simp add: nth_append bit_be_bytes bit_drop_bit_eq add.commute)
  next
    case False
    then obtain m' where "k = 64 + m'" by (metis le_add_diff_inverse not_less)
    moreover have "(64 + m') div 8 = 8" "(64 + m') mod 8 = m'" if "m' < 8" for m' :: nat
      using that by presburger+
    ultimately have m: "k div 8 = 8" "k mod 8 = k - 64" using k by auto
    have "bit ?l (7 - (k - 64)) = (8 - t \<le> 7 - (k - 64) \<and> bit val (7 - (k - 64) - (8 - t)))"
      using k False by (auto simp: bit_simps)
    moreover have "8 - t \<le> 7 - (k - 64) \<longleftrightarrow> k < n + r"
      "k < n + r \<Longrightarrow> 7 - (k - 64) - (8 - t) = n + r - 1 - k"
      using t k False by auto
    ultimately show ?thesis unfolding m by (simp add: nth_append) metis
  qed
  ultimately show ?thesis using that [of "?h @ [?l]"] False by simp
qed

lemma or_at_nth:
  assumes "or_at p i buf n = Some p'"
  shows "length p' = length p" "j < length p \<Longrightarrow> p' ! j = (if i \<le> j \<and> j < i + n then p ! j OR buf ! (j - i) else p ! j)"
  using assms by (auto simp: or_at_def nth_append min_def split: if_splits)

lemma bit_high:
  assumes "unat (v :: u64) < 2 ^ n" "n \<le> i"
  shows "\<not> bit v i"
proof
  assume "bit v i"
  then have "bit (unat v) i" by (simp add: bit_unsigned_iff bit_imp_le_length)
  moreover have "unat v < 2 ^ i"
    using assms power_increasing [of n i "2 :: nat"] by linarith
  ultimately show False by (simp add: bit_iff_odd)
qed

lemma bw_append_ok:
  assumes w: "bw_ok w" and n: "0 < n" "n \<le> 64" "unat val < 2 ^ n"
    and sz: "bitSize w + n < 2 ^ 32"
  obtains w' where "bw_append w val n = Some w'" "bw_ok w'" "bitSize w' = bitSize w + n"
    "bw_bits w' = bw_bits w @ bl_of n (unat val)"
proof -
  let ?o = "bitSize w" let ?B = "?o div 8" let ?r = "?o mod 8"
  define m where "m = (?r + n) div 8 + (if (?r + n) mod 8 \<noteq> 0 then 1 else 0)"
  define pad where "pad = (?o + n) div 8 + 1 - length (written w)"
  let ?p = "written w @ replicate pad 0"
  obtain buf where buf: "shifted val (64 - int n - int ?r) = Some buf"
    "length buf = (if n + ?r \<le> 64 then 8 else 9)"
    "\<And>k. k < 8 * length buf \<Longrightarrow> bit (buf ! (k div 8)) (7 - k mod 8) = (k < n + ?r \<and> bit val (n + ?r - 1 - k))"
    using shifted_ok [of ?r n val] n by auto
  have o: "?o = 8 * ?B + ?r" "?r < 8" by simp_all
  have m8: "?r + n \<le> 8 * m" "8 * m < ?r + n + 8"
  proof -
    define q c where "q = (?r + n) div 8" and "c = (?r + n) mod 8"
    then have "8 * q + c = ?r + n" "c < 8" "m = q + (if c \<noteq> 0 then 1 else 0)"
      unfolding m_def by simp_all
    then show "?r + n \<le> 8 * m" "8 * m < ?r + n + 8" by auto
  qed
  have lp: "(?o + n) div 8 + 1 \<le> length ?p" by (simp add: pad_def)
  have "8 * ((?o + n) div 8) + (?o + n) mod 8 = ?o + n" "(?o + n) mod 8 < 8" by simp_all
  then have lp8: "?o + n < 8 * length ?p" using lp by linarith
  then have Bm: "?B + m \<le> length ?p" using o m8 by linarith
  have mb: "m \<le> length buf" using m8 n o(2) unfolding buf(2) by auto
  obtain p' where p': "or_at ?p ?B buf m = Some p'" using Bm mb by (simp add: or_at_def)
  let ?w = "w\<lparr>written := p', bitSize := ?o + n\<rparr>"
  have "((?o + n) div 8 + 1) mod 2 ^ 32 = (?o + n) div 8 + 1"
    using sz by (intro mod_less) (simp add: div_less_iff_less_mult less_mult_imp_div_less)
  then have app: "bw_append w val n = Some ?w"
    using buf(1) p' unfolding bw_append_def Let_def by (simp add: m_def pad_def)
  have nw: "bits p' ! k = (if k < ?o then bits (written w) ! k else k < ?o + n \<and> bit val (n - 1 - (k - ?o)))"
    if k: "k < 8 * length p'" for k
  proof -
    have l': "length p' = length ?p" using or_at_nth(1) [OF p'] .
    have kd: "k div 8 < length ?p" using k l' by (simp add: less_mult_imp_div_less mult.commute)
    have old: "bit (?p ! (k div 8)) (7 - k mod 8) = (k < ?o \<and> bits (written w) ! k)"
    proof (cases "k < 8 * length (written w)")
      case True
      moreover have "k < ?o \<or> \<not> bits (written w) ! k" using w True by (auto simp: bw_ok_nth not_less)
      ultimately show ?thesis
        by (auto simp: nth_append nth_bits less_mult_imp_div_less mult.commute)
    next
      case False
      then have "\<not> k div 8 < length (written w)" "\<not> k < ?o"
        using w by (auto simp: bw_ok_def div_less_iff_less_mult mult.commute)
      then show ?thesis using kd by (simp add: nth_append)
    qed
    show ?thesis
    proof (cases "8 * ?B \<le> k \<and> k < 8 * ?B + 8 * m")
      case True
      define k' where "k' = k - 8 * ?B"
      have k': "k = 8 * ?B + k'" "k' < 8 * m" using True by (auto simp: k'_def)
      have dm: "k div 8 = ?B + k' div 8" "k mod 8 = k' mod 8" unfolding k'(1) by simp_all
      have "k' div 8 < m" using k'(2) by (simp add: less_mult_imp_div_less mult.commute)
      then have "bits p' ! k = (bit (?p ! (k div 8)) (7 - k mod 8) \<or>
          bit (buf ! (k' div 8)) (7 - k' mod 8))"
        using k l' kd or_at_nth(2) [OF p' kd] by (simp add: nth_bits dm bit_or_iff)
      also have "bit (buf ! (k' div 8)) (7 - k' mod 8) = (k' < n + ?r \<and> bit val (n + ?r - 1 - k'))"
        using k'(2) mb by (intro buf(3)) linarith
      finally have b: "bits p' ! k = (bit (?p ! (k div 8)) (7 - k mod 8) \<or>
          k' < n + ?r \<and> bit val (n + ?r - 1 - k'))" .
      have "k' < ?r \<Longrightarrow> \<not> bit val (n + ?r - 1 - k')"
        using bit_high [OF n(3)] by simp
      moreover have "k < ?o \<longleftrightarrow> k' < ?r" "k' < n + ?r \<longleftrightarrow> k < ?o + n"
        "?o \<le> k \<Longrightarrow> n + ?r - 1 - k' = n - 1 - (k - ?o)"
        using o(1) k'(1) by linarith+
      ultimately show ?thesis using b old by (cases "k < ?o") (auto simp: not_less)
    next
      case False
      then have "bits p' ! k = bit (?p ! (k div 8)) (7 - k mod 8)"
        using k l' kd or_at_nth(2) [OF p' kd] by (auto simp: nth_bits)
      moreover have "\<not> (?o \<le> k \<and> k < ?o + n)" using False o m8 by linarith
      ultimately show ?thesis using old by auto
    qed
  qed
  have l: "?o + n < 8 * length p'" using lp8 or_at_nth(1) [OF p'] by simp
  have "bw_ok ?w" using nw l by (auto simp: bw_ok_nth)
  moreover have "bw_bits ?w = bw_bits w @ bl_of n (unat val)"
  proof (rule nth_equalityI)
    show "length (bw_bits ?w) = length (bw_bits w @ bl_of n (unat val))"
      using l w by (simp add: bw_bits_def bw_ok_def)
    fix k assume "k < length (bw_bits ?w)"
    then show "bw_bits ?w ! k = (bw_bits w @ bl_of n (unat val)) ! k"
      using nw [of k] l w by (auto simp: bw_bits_def bw_ok_def nth_append nth_bl_of bit_unsigned_iff)
  qed
  ultimately show ?thesis using that [of ?w] app by simp
qed

section \<open>What is written is read\<close>

text \<open>Writing and reading a sequence of fields, each a value and its number of bits.\<close>

fun put_all :: "('w \<Rightarrow> u64 \<Rightarrow> nat \<Rightarrow> 'w option) \<Rightarrow> 'w \<Rightarrow> (u64 \<times> nat) list \<Rightarrow> 'w option" where
  "put_all put w [] = Some w"
| "put_all put w ((v, n) # fs) = do { w \<leftarrow> put w v n; put_all put w fs }"

fun get_all :: "('r \<Rightarrow> nat \<Rightarrow> (u64 \<times> 'r) option) \<Rightarrow> 'r \<Rightarrow> nat list \<Rightarrow> (u64 list \<times> 'r) option" where
  "get_all get r [] = Some ([], r)"
| "get_all get r (n # ns) =
     do { (v, r) \<leftarrow> get r n; (vs, r) \<leftarrow> get_all get r ns; Some (v # vs, r) }"

definition field_ok :: "u64 \<times> nat \<Rightarrow> bool" where
  "field_ok f \<longleftrightarrow> 0 < snd f \<and> snd f \<le> 64 \<and> unat (fst f) < 2 ^ snd f"

definition field_bits :: "(u64 \<times> nat) list \<Rightarrow> bool list" where
  "field_bits fs = concat (map (\<lambda>(v, n). bl_of n (unat v)) fs)"

lemma length_field_bits: "length (field_bits fs) = sum_list (map snd fs)"
  by (induction fs) (auto simp: field_bits_def)

text \<open>The interface between a writer and a reader of bits.\<close>

locale bit_channel =
  fixes wview :: "'w \<Rightarrow> bool list"
    and wok :: "'w \<Rightarrow> bool"
    and put :: "'w \<Rightarrow> u64 \<Rightarrow> nat \<Rightarrow> 'w option"
    and rview :: "'r \<Rightarrow> bool list"
    and get :: "'r \<Rightarrow> nat \<Rightarrow> (u64 \<times> 'r) option"
    and cap :: nat
  assumes put_ok: "wok w \<Longrightarrow> field_ok (v, n) \<Longrightarrow> length (wview w) + n < cap \<Longrightarrow>
      \<exists>w'. put w v n = Some w' \<and> wok w' \<and> wview w' = wview w @ bl_of n (unat v)"
    and get_ok: "n \<le> length (rview r) \<Longrightarrow>
      \<exists>r'. get r n = Some (of_nat (bl_val (take n (rview r))), r') \<and> rview r' = drop n (rview r)"
begin

lemma put_all_ok:
  "wok w \<Longrightarrow> list_all field_ok fs \<Longrightarrow> length (wview w) + sum_list (map snd fs) < cap \<Longrightarrow>
   \<exists>w'. put_all put w fs = Some w' \<and> wok w' \<and> wview w' = wview w @ field_bits fs"
proof (induction fs arbitrary: w)
  case (Cons f fs)
  obtain v n where f: "f = (v, n)" by (cases f)
  have "field_ok (v, n)" "length (wview w) + n < cap" using Cons.prems f by auto
  then obtain w1 where w1: "put w v n = Some w1" "wok w1" "wview w1 = wview w @ bl_of n (unat v)"
    using put_ok Cons.prems(1) by blast
  then show ?case using Cons.IH [of w1] Cons.prems f by (auto simp: field_bits_def add.assoc)
qed (simp add: field_bits_def)

lemma get_all_ok:
  "list_all field_ok fs \<Longrightarrow> rview r = field_bits fs @ rest \<Longrightarrow>
   \<exists>r'. get_all get r (map snd fs) = Some (map fst fs, r') \<and> rview r' = rest"
proof (induction fs arbitrary: r)
  case (Cons f fs)
  obtain v n where f: "f = (v, n)" by (cases f)
  have v: "rview r = bl_of n (unat v) @ field_bits fs @ rest"
    using Cons.prems(2) f by (simp add: field_bits_def)
  then obtain r1 where r1: "get r n = Some (of_nat (bl_val (take n (rview r))), r1)"
    "rview r1 = drop n (rview r)"
    using get_ok [of n r] by auto
  have "take_bit n (unat v) = unat v"
    using Cons.prems(1) f by (intro take_bit_nat_eq_self) (simp add: field_ok_def)
  then have "get r n = Some (v, r1)" "rview r1 = field_bits fs @ rest"
    using r1 v by (simp_all add: bl_val_bl_of)
  then show ?case using Cons.IH [of r1] Cons.prems(1) f by auto
qed (simp add: field_bits_def)

end

interpretation bw: bit_channel bw_bits bw_ok bw_append bits_left bs_get "2 ^ 32"
proof (unfold_locales, goal_cases)
  case (1 w v n)
  then show ?case
    using bw_append_ok [of w n v] by (auto simp: field_ok_def length_bw_bits)
next
  case (2 n r)
  then show ?case using bs_get_eq [of n r] bits_left_skip [of r n] by (auto simp: length_bits_left)
qed

definition reader_of :: "bytes \<Rightarrow> bitstream" where
  "reader_of d = \<lparr>data = d, offset = 0, bufferSize = length d\<rparr>"

lemma bits_take: "bits (take n d) = take (8 * n) (bits d)"
  by (rule nth_equalityI) (auto simp: nth_bits less_mult_imp_div_less mult.commute)

lemma bits_bw_str:
  assumes "bw_ok w"
  obtains rest where "bits_left (reader_of (bw_str w)) = bw_bits w @ rest"
proof -
  let ?n = "bitSize w div 8 + (if bitSize w mod 8 \<noteq> 0 then 1 else 0)"
  have "bitSize w \<le> 8 * ?n"
    using mult_div_mod_eq [of 8 "bitSize w"] mod_less_divisor [of 8 "bitSize w"] by auto
  then have "bits_left (reader_of (bw_str w)) =
      bw_bits w @ drop (bitSize w) (take (8 * ?n) (bits (written w)))"
    by (simp only: bits_left_def reader_of_def bw_str_def bits_take bitstream.simps drop_0 bw_bits_def)
      (metis append_take_drop_id min.absorb1 take_take)
  then show ?thesis using that by blast
qed

text \<open>The empty writer, as its constructor makes it.\<close>

definition bw_new :: bitWriter where
  "bw_new = \<lparr>written = [], bitSize = 0\<rparr>"

lemma bw_new_ok: "bw_ok bw_new" "bw_bits bw_new = []"
  by (simp_all add: bw_new_def bw_ok_def bw_bits_def bits_def)

text \<open>A value with its exponential Golomb code, as a field.\<close>

lemma golomb_field:
  assumes "bit_len r (unat (v + 1))" "r \<le> 32"
  shows "field_ok (v + 1, 2 * r - 1)" "UExpGolombEncodedSize v = Some (2 * r - 1)"
proof -
  have "(2 :: nat) ^ r \<le> 2 ^ (2 * r - 1)"
    using assms(1) by (intro power_increasing) (auto simp: bit_len_def)
  then have "unat (v + 1) < 2 ^ (2 * r - 1)" using assms(1) unfolding bit_len_def by linarith
  then show "field_ok (v + 1, 2 * r - 1)"
    using assms by (auto simp: field_ok_def bit_len_def)
qed (rule encodedSize_eq [OF assms(1)])

lemma golomb_len:
  assumes "v < 2 ^ 32 - 1"
  obtains r where "bit_len r (unat (v + 1 :: u64))" "r \<le> 32"
proof -
  have v: "unat v < 2 ^ 32 - 1" using assms by (simp add: word_less_nat_alt)
  then have u: "unat (v + 1) = unat v + 1" by (simp add: unat_add_lem [symmetric] unat_word_ariths)
  then obtain r where "bit_len r (unat (v + 1))" using bit_len_ex [of "unat (v + 1)"] by auto
  moreover have "unat (v + 1) < 2 ^ 32" using u v by simp
  ultimately show ?thesis using that bit_len_le by blast
qed

lemma UExpGolomb_round:
  assumes "bw_ok w" "bitSize w < 2 ^ 31" "v < 2 ^ 32 - 1" "offset s = bitSize w"
  obtains w' n where "appendUExpGolomb w v = Some w'" "bw_ok w'" "UExpGolombEncodedSize v = Some n"
    "bitSize w' = bitSize w + n"
    "data s = bw_str w' \<Longrightarrow> getUExpGolomb s = Some (v, s\<lparr>offset := bitSize w'\<rparr>)"
proof -
  obtain r where r: "bit_len r (unat (v + 1))" "r \<le> 32" using golomb_len [OF assms(3)] .
  note f = golomb_field [OF r]
  have "bitSize w + (2 * r - 1) < 2 ^ 32" using assms(2) r(2) by simp
  then obtain w' where w': "bw_append w (v + 1) (2 * r - 1) = Some w'" "bw_ok w'"
    "bitSize w' = bitSize w + (2 * r - 1)" "bw_bits w' = bw_bits w @ bl_of (2 * r - 1) (unat (v + 1))"
    using bw_append_ok [OF assms(1), of "2 * r - 1" "v + 1"] f(1) by (auto simp: field_ok_def)
  have "getUExpGolomb s = Some (v, s\<lparr>offset := bitSize w'\<rparr>)" if d: "data s = bw_str w'"
  proof -
    obtain rest where "bits_left (reader_of (bw_str w')) = bw_bits w' @ rest"
      using bits_bw_str [OF w'(2)] .
    then have "bits (data s) = bw_bits w @ bl_of (2 * r - 1) (unat (v + 1)) @ rest"
      using d w'(4) by (simp add: bits_left_def reader_of_def)
    then have "bits_left s = bl_of (2 * r - 1) (unat (v + 1)) @ rest"
      using assms(1,4) by (simp add: bits_left_def length_bw_bits)
    then show ?thesis
      using golombGetter_eq [OF r(1)] r(2) w'(3) assms(4) by (simp add: getUExpGolomb_def)
  qed
  then show ?thesis using that [OF _ w'(2) f(2) w'(3)] w'(1) f(2)
    by (simp add: appendUExpGolomb_def)
qed

text \<open>The signed code is the unsigned one of a number with the sign in its lowest bit.\<close>

definition signed_code :: "int \<Rightarrow> int" where
  "signed_code v = (if v < 0 then v * -2 else if v > 0 then v * 2 - 1 else v)"

lemma golomb_signed_code:
  assumes "\<bar>v\<bar> < 2 ^ 31 - 1"
  shows "golomb_signed (of_int (signed_code v) + 1) = v"
proof -
  have g: "golomb_signed (of_nat (2 * m + of_bool b)) = (if b then - int m else int m)" if "m < 2 ^ 31" for m b
  proof -
    let ?t = "2 * m + of_bool b" let ?T = "of_nat ?t :: u64"
    have t: "?t < 2 ^ 64" using that by (cases b) auto
    have "unat ?T = ?t" using t by (simp add: unsigned_of_nat take_bit_nat_eq_self del: of_nat_add of_nat_mult)
    then have "unat (drop_bit 1 ?T) = drop_bit 1 ?t" by (simp only: unat_drop_bit_eq)
    also have "\<dots> = m" by (cases b) (simp_all add: drop_bit_Suc)
    finally have "of_nat (unat (drop_bit 1 ?T)) = (of_nat m :: u64)" by (rule arg_cong)
    then have d: "drop_bit 1 ?T = of_nat m" by (simp only: of_nat_unat ucast_id)
    have "?T AND 1 = of_bool b" by (cases b) (simp_all add: and_one_eq mod_2_eq_odd)
    moreover have "sint (of_int i :: u64) = i" if "\<bar>i\<bar> < 2 ^ 31" for i
      using that by (simp add: signed_of_int signed_take_bit_int_eq_self)
    from this [of "int m"] this [of "- int m"]
    have "sint (of_nat m :: u64) = int m" "sint (- of_nat m :: u64) = - int m"
      using that by simp_all
    ultimately show ?thesis unfolding golomb_signed_def d by (cases b) simp_all
  qed
  consider "0 < v" | "v = 0" | "v < 0" by linarith
  then show ?thesis
  proof cases
    case 1
    then have "of_int (signed_code v) + 1 = (of_nat (2 * nat v + of_bool False) :: u64)"
      by (simp add: signed_code_def)
    then show ?thesis using g [of "nat v" False] 1 assms by simp
  next
    case 2
    then show ?thesis using g [of 0 True] by (simp add: signed_code_def)
  next
    case 3
    then have "of_int (signed_code v) + 1 = (of_nat (2 * nat (- v) + of_bool True) :: u64)"
      by (simp add: signed_code_def)
    then show ?thesis using g [of "nat (- v)" True] 3 assms by simp
  qed
qed

section \<open>Emulation prevention\<close>

text \<open>The reference: after two zero bytes, a byte of at most 3 has a 3 put before it.\<close>

fun escape :: "nat \<Rightarrow> bytes \<Rightarrow> bytes" where
  "escape z [] = []"
| "escape z (c # cs) =
     (if 2 \<le> z \<and> c \<le> 3 then 3 # c # escape (if c = 0 then 1 else 0) cs
      else c # escape (if c = 0 then z + 1 else 0) cs)"

text \<open>The loop of the code on the rest of the input, as a function of that rest.\<close>

fun unescape :: "bytes \<Rightarrow> bytes" where
  "unescape (a # b # c # cs) =
     (if a = 0 \<and> b = 0 \<and> c = 3 then a # b # unescape cs else a # unescape (b # c # cs))"
| "unescape cs = cs"

lemma prevented_drop: "prevented input i = unescape (drop i input)"
proof (induction input i rule: prevented.induct)
  case (1 input i)
  consider "length input \<le> i" | "i < length input" "length input \<le> i + 2" | "i + 2 < length input"
    by linarith
  then show ?case
  proof cases
    case 1
    then show ?thesis by (subst prevented.simps) simp
  next
    case 2
    then have "drop i input = [input ! i] \<or> drop i input = [input ! i, input ! (i + 1)]"
      by (cases "length input = Suc i") (auto simp: Cons_nth_drop_Suc [symmetric])
    moreover have "prevented input (i + 1) = unescape (drop (i + 1) input)" using 1(2) 2 by auto
    moreover have "drop (i + 1) input = tl (drop i input)" by (simp add: drop_Suc tl_drop)
    ultimately show ?thesis using 2 by (subst prevented.simps) auto
  next
    case 3
    have d: "drop i input = input ! i # input ! (i + 1) # input ! (i + 2) # drop (i + 3) input"
      "drop (i + 1) input = input ! (i + 1) # input ! (i + 2) # drop (i + 3) input"
      using 3 by (simp_all add: Cons_nth_drop_Suc [symmetric] numeral_3_eq_3)
    show ?thesis using 1 3 unfolding d(1)
      by (subst prevented.simps) (use d(2) in auto)
  qed
qed

lemma unescape_nz: "c \<noteq> 0 \<Longrightarrow> unescape (c # cs) = c # unescape cs"
  by (cases "c # cs" rule: unescape.cases) auto

lemma unescape_0_nz: "b \<noteq> 0 \<Longrightarrow> unescape (0 # b # cs) = 0 # b # unescape cs"
  by (cases cs) (auto simp: unescape_nz)

lemma unescape_00: "c \<noteq> 3 \<Longrightarrow> c \<noteq> 0 \<Longrightarrow> unescape (0 # 0 # c # cs) = 0 # 0 # c # unescape cs"
  by (simp add: unescape_0_nz)

lemma unescape_escape:
  "unescape (escape 0 cs) = cs \<and> unescape (0 # escape 1 cs) = 0 # cs \<and>
   unescape (0 # 0 # escape 2 cs) = 0 # 0 # cs"
proof (induction cs)
  case (Cons c cs)
  show ?case
  proof (cases "c = 0")
    case True
    then show ?thesis using Cons by (simp add: numeral_2_eq_2)
  next
    case False
    then show ?thesis using Cons
      by (auto simp: unescape_nz unescape_0_nz unescape_00)
  qed
qed simp

lemma length_unescape: "length (unescape cs) \<le> length cs"
  by (induction cs rule: unescape.induct) auto

text \<open>The loop of \<open>bitSizeUExpGolomb\<close>: what it returns, and why it does not for the largest value.\<close>

lemma bitSize_loop_eq:
  assumes "bit_len k (unat v + 1)" "k \<le> 63" "0 < j" "j \<le> k" "k - j < fuel"
  shows "bitSize_loop fuel v (2 ^ j) (2 * j - 1) = Some (2 * k - 1)"
  using assms
proof (induction fuel arbitrary: j)
  case (Suc fuel)
  have "(2 :: nat) ^ j < 2 ^ 64" using Suc.prems by (intro power_strict_increasing) auto
  then have u: "unat (2 ^ j :: u64) = 2 ^ j"
    using unsigned_of_nat [of "2 ^ j", where 'a = nat and 'b = 64] Suc.prems(2,4)
    by (simp add: take_bit_nat_eq_self)
  have "(2 :: nat) \<le> 2 ^ j" using Suc.prems(3) self_le_power [of 2 j] by simp
  then have "(2 :: u64) \<le> 2 ^ j" using u by (simp add: word_le_nat_alt)
  then have m: "unat (2 ^ j - 2 :: u64) = 2 ^ j - 2" using u by (simp add: unat_sub)
  show ?case
  proof (cases "j = k")
    case True
    then have "\<not> (2 ^ j - 2 :: u64) < v"
      using Suc.prems(1) m unfolding word_less_nat_alt bit_len_def by (simp only: True) linarith
    then show ?thesis using True by simp
  next
    case False
    then have "(2 :: nat) ^ j \<le> 2 ^ (k - 1)" using Suc.prems by (intro power_increasing) auto
    then have "2 ^ j \<le> unat v + 1" using Suc.prems(1) unfolding bit_len_def by linarith
    then have "(2 ^ j - 2 :: u64) < v" using m \<open>(2 :: nat) \<le> 2 ^ j\<close>
      unfolding word_less_nat_alt by linarith
    moreover have "2 * Suc j - 1 = 2 * j - 1 + 2" using Suc.prems(3) by simp
    ultimately show ?thesis using Suc.IH [of "Suc j"] Suc.prems False by (simp add: mult.commute)
  qed
qed simp

lemma bitSize_loop_max: "even pw \<Longrightarrow> bitSize_loop fuel (- 1) pw i = None"
proof (induction fuel arbitrary: pw i)
  case (Suc fuel)
  have "pw - 2 \<noteq> - 1"
  proof
    assume "pw - 2 = - 1"
    then have "pw = 1" by (simp add: algebra_simps)
    then show False using Suc.prems by simp
  qed
  then have "pw - 2 < - 1" by (metis word_order.extremum_strict word_order.not_eq_extremum)
  then show ?case using Suc.IH [of "pw * 2"] by simp
qed simp

section \<open>Properties\<close>

text \<open>C32: \<open>bitstream::peek\<close> returns the next bits of the data as a number, most significant bit
  first, whatever the alignment; \<open>get\<close> also moves behind them, and both return 0 when there are
  too few. More than 64 bits are cut to the last 64.\<close>

theorem peek_get_bits:
  "peek s count =
     Some (if count \<le> bs_size s then of_nat (bl_val (take count (bits_left s))) else 0) \<and>
   bs_get s count =
     Some (if count \<le> bs_size s
           then (of_nat (bl_val (take count (bits_left s))), s\<lparr>offset := offset s + count\<rparr>) else (0, s))"
  by (simp add: peek_eq bs_get_eq) (simp add: peek_def bs_get_def)

text \<open>C33: a sequence of fields written with \<open>bitWriter::append\<close> is read back in order by
  \<open>bitstream::get\<close> from the string the writer returns, for fields of 1 to 64 bits whose values fit.\<close>

theorem fields_round_trip:
  assumes "list_all field_ok fs" "sum_list (map snd fs) < 2 ^ 32"
  shows "\<exists>w r. put_all bw_append bw_new fs = Some w \<and>
    get_all bs_get (reader_of (bw_str w)) (map snd fs) = Some (map fst fs, r)"
proof -
  obtain w where w: "put_all bw_append bw_new fs = Some w" "bw_ok w" "bw_bits w = field_bits fs"
    using bw.put_all_ok [of bw_new fs] assms bw_new_ok by auto
  obtain rest where "bits_left (reader_of (bw_str w)) = field_bits fs @ rest"
    using bits_bw_str [OF w(2)] w(3) by auto
  then show ?thesis using bw.get_all_ok [OF assms(1)] w(1) by blast
qed

theorem fields_round_trip_witness:
  "\<exists>w r. put_all bw_append bw_new [(5, 3), (0x1FF, 9), (1, 64)] = Some w \<and>
    get_all bs_get (reader_of (bw_str w)) [3, 9, 64] = Some ([5, 0x1FF, 1], r)"
  using fields_round_trip [of "[(5, 3), (0x1FF, 9), (1, 64)]"] by (simp add: field_ok_def)

text \<open>An unsigned exponential Golomb code written by \<open>appendUExpGolomb\<close> behind any other bits is
  read by \<open>getUExpGolomb\<close>, for values below 2^32 - 1, and takes as many bits as
  \<open>UExpGolombEncodedSize\<close> says.\<close>

theorem UExpGolomb_round_trip:
  assumes "bw_ok w" "bitSize w < 2 ^ 31" "v < 2 ^ 32 - 1" "offset s = bitSize w"
  shows "\<exists>w' n. appendUExpGolomb w v = Some w' \<and> bw_ok w' \<and> UExpGolombEncodedSize v = Some n \<and>
    bitSize w' = bitSize w + n \<and>
    (data s = bw_str w' \<longrightarrow> getUExpGolomb s = Some (v, s\<lparr>offset := bitSize w'\<rparr>))"
  using UExpGolomb_round [OF assms] by metis

theorem UExpGolomb_round_trip_witness:
  "\<exists>w' n. appendUExpGolomb bw_new 300 = Some w' \<and> bw_ok w' \<and> UExpGolombEncodedSize 300 = Some n \<and>
    bitSize w' = n \<and>
    (data (reader_of (bw_str w')) = bw_str w' \<longrightarrow>
      getUExpGolomb (reader_of (bw_str w')) = Some (300, (reader_of (bw_str w'))\<lparr>offset := bitSize w'\<rparr>))"
proof -
  obtain w' where w': "appendUExpGolomb bw_new 300 = Some w'"
    using UExpGolomb_round_trip [OF bw_new_ok(1), of 300 "reader_of []"]
    by (auto simp: bw_new_def reader_of_def)
  show ?thesis
    using UExpGolomb_round_trip [OF bw_new_ok(1), of 300 "reader_of (bw_str w')"] w'
    by (auto simp: bw_new_def reader_of_def)
qed

text \<open>The signed code keeps values whose magnitude is below 2^31 - 1.\<close>

theorem ExpGolomb_round_trip:
  assumes "bw_ok w" "bitSize w < 2 ^ 31" "\<bar>v\<bar> < 2 ^ 31 - 1" "offset s = bitSize w"
  shows "\<exists>w'. appendExpGolomb w v = Some w' \<and> bw_ok w' \<and>
    (data s = bw_str w' \<longrightarrow> getExpGolomb s = Some (v, s\<lparr>offset := bitSize w'\<rparr>))"
proof -
  have c: "0 \<le> signed_code v" "signed_code v < 2 ^ 32 - 1" using assms(3) by (auto simp: signed_code_def)
  then have u: "(of_int (signed_code v) :: u64) < 2 ^ 32 - 1"
    by (simp add: word_less_nat_alt unsigned_of_int nat_less_iff take_bit_int_eq_self)
  obtain w' n where w': "appendUExpGolomb w (of_int (signed_code v)) = Some w'" "bw_ok w'"
    "data s = bw_str w' \<Longrightarrow>
       getUExpGolomb s = Some (of_int (signed_code v), s\<lparr>offset := bitSize w'\<rparr>)"
    using UExpGolomb_round [OF assms(1,2) u assms(4)] by metis
  have "appendExpGolomb w v = Some w'"
    using w'(1) assms(3) by (auto simp: appendExpGolomb_def Let_def signed_code_def)
  moreover have "getExpGolomb s = Some (v, s\<lparr>offset := bitSize w'\<rparr>)" if "data s = bw_str w'"
    using w'(3) [OF that] golomb_signed_code [OF assms(3)]
    by (auto simp: getUExpGolomb_def getExpGolomb_def algebra_simps split: prod.splits option.splits Option.bind_splits)
  ultimately show ?thesis using w'(2) by blast
qed

theorem ExpGolomb_round_trip_witness:
  "\<exists>w'. appendExpGolomb bw_new (-3) = Some w' \<and> bw_ok w' \<and>
    (data (reader_of []) = bw_str w' \<longrightarrow>
      getExpGolomb (reader_of []) = Some (-3, (reader_of [])\<lparr>offset := bitSize w'\<rparr>))"
  using ExpGolomb_round_trip [OF bw_new_ok(1), of "-3" "reader_of []"]
  by (simp add: bw_new_def reader_of_def)

text \<open>C37: \<open>appendPreventEmulation\<close> removes exactly the bytes that emulation prevention puts into a
  payload: whatever the payload, its escaped form is appended as the payload itself.\<close>

theorem appendPreventEmulation_payload:
  assumes "n = length (data s) + length (escape 0 payload)" "n < 2 ^ 32" "can n"
  shows "map_option data (appendPreventEmulation can s (escape 0 payload)) = Some (data s @ payload)"
proof -
  have p: "prevented (escape 0 payload) 0 = payload"
    using prevented_drop [of "escape 0 payload" 0] unescape_escape by simp
  have "length payload \<le> length (escape 0 payload)"
    using length_unescape [of "escape 0 payload"] unescape_escape [of payload] by simp
  then show ?thesis using assms(2,3) unfolding assms(1)
    by (auto simp: appendPreventEmulation_def checkBufferSize_def Let_def p)
qed

theorem appendPreventEmulation_payload_witness:
  "map_option data (appendPreventEmulation (\<lambda>_. True) (reader_of [9]) (escape 0 [0, 0, 1])) =
     Some ([9] @ [0, 0, 1])"
  using appendPreventEmulation_payload
    [of "1 + length (escape 0 [0, 0, 1])" "reader_of [9]" "[0, 0, 1]" "\<lambda>_. True"]
  by (simp add: reader_of_def)

text \<open>With one byte appended, \<open>bitstreamLSBF\<close> reads behind its string: the loop that fills the
  read buffer never runs out of data.\<close>

theorem lsbf_append_overread: "lsbf_append (lsbf_clear s) [c] = None"
  by (simp add: lsbf_append_def lsbf_clear_def fixData_def fixData_loop.simps rd_def)

text \<open>\<open>bitSizeUExpGolomb\<close> agrees with \<open>UExpGolombEncodedSize\<close> for values below 2^63, and never
  returns for the largest value.\<close>

theorem bitSize_agrees:
  "(v < 2 ^ 63 - 1 \<longrightarrow> bitSizeUExpGolomb 64 v = UExpGolombEncodedSize v) \<and>
   bitSizeUExpGolomb fuel (- 1) = None"
proof (intro conjI impI)
  assume "v < 2 ^ 63 - 1"
  then have v: "unat v < 2 ^ 63 - 1" by (simp add: word_less_nat_alt)
  then have u: "unat (v + 1) = unat v + 1" by (simp add: unat_word_ariths)
  obtain k where k: "bit_len k (unat v + 1)" using bit_len_ex [of "unat v + 1"] by auto
  have "k \<le> 63" using bit_len_le [OF k, of 63] v by simp
  moreover have "1 \<le> k" using k by (simp add: bit_len_def)
  ultimately have "bitSizeUExpGolomb 64 v = Some (2 * k - 1)"
    using bitSize_loop_eq [OF k, of 1 64] by (simp add: bitSizeUExpGolomb_def)
  then show "bitSizeUExpGolomb 64 v = UExpGolombEncodedSize v"
    using encodedSize_eq [of k v] k u by simp
qed (simp add: bitSizeUExpGolomb_def bitSize_loop_max)

theorem bitSize_agrees_witness:
  "bitSizeUExpGolomb 64 1000 = UExpGolombEncodedSize 1000 \<and> bitSizeUExpGolomb 64 (- 1) = None"
  using bitSize_agrees [of 1000 64] by simp

end
