(* ===== verification/RelAccX.thy ===== *)
theory RelAccX
  imports Bits Strings
begin

text \<open>
  \<open>Util::RelAccX\<close> and \<open>Util::FieldAccX\<close> (\<open>lib/util.cpp\<close>, \<open>lib/util.h\<close>): records in shared memory
  behind a header that names the fields, used as a ring buffer. The header's numbers are in host
  byte order, which is little endian here; 24-bit numbers are in network byte order. A null
  pointer gets a constant area of zeroes for its header (\<open>backed = False\<close>); \<open>live\<close> says that \<open>p\<close> is
  not null. \<open>None\<close> is an access outside the area, or a write to the constant one.
\<close>

section \<open>Memory in host byte order\<close>

definition ld :: "nat \<Rightarrow> bytes \<Rightarrow> nat \<Rightarrow> 'a::len word option" where
  "ld n m i = map_option (\<lambda>bs. be_val (rev bs)) (rdn m i n)"

definition st :: "nat \<Rightarrow> bytes \<Rightarrow> nat \<Rightarrow> 'a::len word \<Rightarrow> bytes option" where
  "st n m i v = wrn m i (rev (be_bytes n v))"

text \<open>The string that starts at a position and ends with a zero byte, and \<open>strnlen\<close>.\<close>

definition c_str :: "bytes \<Rightarrow> nat \<Rightarrow> bytes option" where
  "c_str m i = (if 0 \<in> set (drop i m) then Some (takeWhile (\<lambda>c. c \<noteq> 0) (drop i m)) else None)"

definition c_strnlen :: "bytes \<Rightarrow> nat \<Rightarrow> nat \<Rightarrow> nat option" where
  "c_strnlen m i n =
     (let s = takeWhile (\<lambda>c. c \<noteq> 0) (take n (drop i m)) in
      if i + length s < length m \<or> length s = n then Some (length s) else None)"

section \<open>The class\<close>

record fieldData =
  ftype :: byte
  fsize :: u32
  foffset :: u32

text \<open>\<open>std::map\<close> with strings as keys: an association list in the order of the keys, which is the
  order of iteration.\<close>

fun str_less :: "bytes \<Rightarrow> bytes \<Rightarrow> bool" where
  "str_less s [] = False"
| "str_less [] (b # bs) = True"
| "str_less (a # as) (b # bs) = (a < b \<or> a = b \<and> str_less as bs)"

fun map_set :: "bytes \<Rightarrow> 'v \<Rightarrow> (bytes \<times> 'v) list \<Rightarrow> (bytes \<times> 'v) list" where
  "map_set k v [] = [(k, v)]"
| "map_set k v ((k', v') # m) =
     (if k = k' then (k, v) # m
      else if str_less k k' then (k, v) # (k', v') # m
      else (k', v') # map_set k v m)"

record relAccX =
  live :: bool
  backed :: bool
  mem :: bytes
  fieldMap :: "(bytes \<times> fieldData) list"

definition RAX_UINT :: byte where [simp]: "RAX_UINT = 0x10"
definition RAX_INT :: byte where [simp]: "RAX_INT = 0x20"
definition RAX_STRING :: byte where [simp]: "RAX_STRING = 0x30"
definition RAX_RAW :: byte where [simp]: "RAX_RAW = 0x40"
definition RAX_REQDFIELDS_LEN :: u16 where [simp]: "RAX_REQDFIELDS_LEN = 36"

section \<open>The header\<close>

definition getRCount :: "relAccX \<Rightarrow> u32 option" where "getRCount r = ld 4 (mem r) 2"
definition getRSize :: "relAccX \<Rightarrow> u32 option" where "getRSize r = ld 4 (mem r) 6"
definition getStartPos :: "relAccX \<Rightarrow> u32 option" where "getStartPos r = ld 4 (mem r) 10"
definition getDeleted :: "relAccX \<Rightarrow> u64 option" where "getDeleted r = ld 8 (mem r) 14"
definition getPresent :: "relAccX \<Rightarrow> u32 option" where "getPresent r = ld 4 (mem r) 22"
definition getOffset :: "relAccX \<Rightarrow> u16 option" where "getOffset r = ld 2 (mem r) 26"
definition getEndPos :: "relAccX \<Rightarrow> u64 option" where "getEndPos r = ld 8 (mem r) 28"

definition getFieldCount :: "relAccX \<Rightarrow> nat" where "getFieldCount r = length (fieldMap r)"

text \<open>The status bits; an area without \<open>p\<close> is never ready and always to be left.\<close>

definition isReady :: "relAccX \<Rightarrow> bool option" where
  "isReady r = (if live r then do { b \<leftarrow> rd (mem r) 0; Some (b AND 1 \<noteq> 0) } else Some False)"

definition isExit :: "relAccX \<Rightarrow> bool option" where
  "isExit r = (if live r then do { b \<leftarrow> rd (mem r) 0; Some (b AND 2 \<noteq> 0) } else Some True)"

definition isReload :: "relAccX \<Rightarrow> bool option" where
  "isReload r = (if live r then do { b \<leftarrow> rd (mem r) 0; Some (b AND 4 \<noteq> 0) } else Some True)"

definition isRecordAvailable :: "relAccX \<Rightarrow> u64 \<Rightarrow> bool option" where
  "isRecordAvailable r recordNo =
     do { d \<leftarrow> getDeleted r;
          if d > recordNo then Some False
          else do { e \<leftarrow> getEndPos r; Some (\<not> recordNo \<ge> e) } }"

definition hasField :: "relAccX \<Rightarrow> bytes \<Rightarrow> bool" where
  "hasField r name = (map_of (fieldMap r) name \<noteq> None)"

text \<open>Writing the header: \<open>backed\<close> is needed, \<open>p\<close> is not.\<close>

definition hdr_put :: "nat \<Rightarrow> nat \<Rightarrow> 'a::len word \<Rightarrow> relAccX \<Rightarrow> relAccX option" where
  "hdr_put n i v r =
     (if backed r then do { m \<leftarrow> st n (mem r) i v; Some (r\<lparr>mem := m\<rparr>) } else None)"

definition setRCount :: "relAccX \<Rightarrow> u32 \<Rightarrow> relAccX option" where "setRCount r n = hdr_put 4 2 n r"
definition setRSize :: "relAccX \<Rightarrow> u32 \<Rightarrow> relAccX option" where "setRSize r n = hdr_put 4 6 n r"
definition setStartPos :: "relAccX \<Rightarrow> u32 \<Rightarrow> relAccX option" where "setStartPos r n = hdr_put 4 10 n r"
definition setDeleted :: "relAccX \<Rightarrow> u64 \<Rightarrow> relAccX option" where "setDeleted r n = hdr_put 8 14 n r"
definition setPresent :: "relAccX \<Rightarrow> u32 \<Rightarrow> relAccX option" where "setPresent r n = hdr_put 4 22 n r"
definition setOffset :: "relAccX \<Rightarrow> u16 \<Rightarrow> relAccX option" where "setOffset r n = hdr_put 2 26 n r"
definition setEndPos :: "relAccX \<Rightarrow> u64 \<Rightarrow> relAccX option" where "setEndPos r n = hdr_put 8 28 n r"

text \<open>Setting status bits dereferences \<open>p\<close>.\<close>

definition set_status :: "relAccX \<Rightarrow> byte \<Rightarrow> relAccX option" where
  "set_status r flag =
     (if live r \<and> backed r
      then do { b \<leftarrow> rd (mem r) 0; m \<leftarrow> wrn (mem r) 0 [b OR flag]; Some (r\<lparr>mem := m\<rparr>) }
      else None)"

text \<open>Is there any status at all?\<close>

definition has_status :: "relAccX \<Rightarrow> bool option" where
  "has_status r = do { e \<leftarrow> isExit r; l \<leftarrow> isReload r; y \<leftarrow> isReady r; Some (e \<or> l \<or> y) }"

definition setReady :: "relAccX \<Rightarrow> relAccX option" where
  "setReady r = do { s \<leftarrow> has_status r; if s then Some r else set_status r 1 }"

definition setExit :: "relAccX \<Rightarrow> relAccX option" where "setExit r = set_status r 2"
definition setReload :: "relAccX \<Rightarrow> relAccX option" where "setReload r = set_status r 4"

section \<open>Opening an area\<close>

text \<open>The size of a field, from its description at a position.\<close>

definition getDefaultSize :: "byte \<Rightarrow> u32" where
  "getDefaultSize fType =
     (if fType AND 0xF0 = RAX_INT \<or> fType AND 0xF0 = RAX_UINT then ucast (fType AND 0x0F) + 1
      else if fType AND 0xF0 = RAX_STRING \<or> fType AND 0xF0 = RAX_RAW
      then push_bit (unat (fType AND 0x0F)) 16 else 0)"

definition typeSize :: "byte \<Rightarrow> u32" where
  "typeSize fieldType =
     (if fieldType AND 0xF0 = RAX_UINT \<or> fieldType AND 0xF0 = RAX_INT
      then ucast (fieldType AND 0x0F) + 1
      else if fieldType AND 0xF0 = RAX_STRING \<or> fieldType AND 0xF0 = RAX_RAW
      then push_bit (unat (fieldType AND 0x0F)) 16 else 0)"

definition fieldSize :: "bytes \<Rightarrow> nat \<Rightarrow> byte \<Rightarrow> byte \<Rightarrow> u32 option" where
  "fieldSize m pos typeLen fieldType =
     (if typeLen = 1 then Some (typeSize fieldType)
      else if typeLen = 2 then map_option ucast (rd m pos)
      else if typeLen = 3 then map_option (ucast :: u16 \<Rightarrow> u32) (ld 2 m pos)
      else if typeLen = 4 then map_option ucast (btoh24 m pos)
      else if typeLen = 5 then ld 4 m pos
      else Some 0)"

text \<open>One description: the name, what is stored for it, and the length of the description.\<close>

definition parse_field :: "bytes \<Rightarrow> u16 \<Rightarrow> u64 \<Rightarrow> (bytes \<times> fieldData \<times> u16) option" where
  "parse_field m offset dataOffset =
     do { sizeByte \<leftarrow> rd m (unat offset);
          let nameLen = drop_bit 3 sizeByte; typeLen = sizeByte AND 7 in
          do { fieldType \<leftarrow> rd m (unat offset + 1 + unat nameLen);
               fieldName \<leftarrow> rdn m (unat offset + 1) (unat nameLen);
               sz \<leftarrow> fieldSize m (unat offset + 1 + unat nameLen + 1) typeLen fieldType;
               Some (fieldName, \<lparr>ftype = fieldType, fsize = sz, foffset = ucast dataOffset\<rparr>,
                     ucast nameLen + ucast typeLen + 1) } }"

text \<open>The loop over the descriptions. The offset is a 16-bit number; after 65536 rounds it has been
  at some position twice, and the loop does not end.\<close>

fun parse_fields :: "nat \<Rightarrow> bytes \<Rightarrow> u16 \<Rightarrow> u16 \<Rightarrow> u64 \<Rightarrow> (bytes \<times> fieldData) list
    \<Rightarrow> (bytes \<times> fieldData) list option" where
  "parse_fields 0 m stop offset dataOffset fs = None"
| "parse_fields (Suc fuel) m stop offset dataOffset fs =
     (if offset < stop then
        do { (name, fd, len) \<leftarrow> parse_field m offset dataOffset;
             parse_fields fuel m stop (offset + len) (dataOffset + ucast (fsize fd)) (map_set name fd fs) }
      else Some fs)"

text \<open>Waiting for the ready flag: the polls before the deadline see the area as in the list.\<close>

fun wait_ready :: "bytes \<Rightarrow> bytes list \<Rightarrow> (bool \<times> bytes) option" where
  "wait_ready m polls =
     do { b \<leftarrow> rd m 0;
          if b AND 1 \<noteq> 0 then Some (True, m)
          else (case polls of [] \<Rightarrow> Some (False, m) | m' # ms \<Rightarrow> wait_ready m' ms) }"

definition null_area :: bytes where "null_area = replicate 4096 0"

definition RelAccX_null :: relAccX where
  "RelAccX_null = \<lparr>live = False, backed = False, mem = null_area, fieldMap = []\<rparr>"

definition RelAccX_open :: "bytes \<Rightarrow> relAccX option" where
  "RelAccX_open m =
     (let r = \<lparr>live = True, backed = True, mem = m, fieldMap = []\<rparr> in
      do { ready \<leftarrow> isReady r;
           if ready then
             do { offset \<leftarrow> map_option ucast (rd m 1); stop \<leftarrow> getOffset r;
                  if offset < 11 \<or> offset \<ge> stop then Some (r\<lparr>live := False\<rparr>)
                  else do { fs \<leftarrow> parse_fields 65537 m stop offset 0 []; Some (r\<lparr>fieldMap := fs\<rparr>) } }
           else Some r })"

definition RelAccX_new :: "bytes option \<Rightarrow> bool \<Rightarrow> bytes list \<Rightarrow> relAccX option" where
  "RelAccX_new data waitReady polls =
     (case data of
        None \<Rightarrow> Some RelAccX_null
      | Some m \<Rightarrow>
          if waitReady then
            do { (ready, m) \<leftarrow> wait_ready m polls;
                 if ready then RelAccX_open m
                 else Some \<lparr>live = False, backed = True, mem = m, fieldMap = []\<rparr> }
          else RelAccX_open m)"

section \<open>Adding fields\<close>

definition typeLenOf :: "byte \<Rightarrow> u32 \<Rightarrow> byte" where
  "typeLenOf fType fLen =
     (if getDefaultSize fType \<noteq> fLen
      then (if fLen < 0x100 then 2 else if fLen < 0x10000 then 3 else 5) else 1)"

definition sizeBytes :: "byte \<Rightarrow> u32 \<Rightarrow> bytes" where
  "sizeBytes typeLen fLen =
     (if typeLen = 2 then [ucast fLen]
      else if typeLen = 3 then rev (be_bytes 2 fLen)
      else if typeLen = 5 then rev (be_bytes 4 fLen) else [])"

text \<open>The first field starts the description and the records.\<close>

definition first_field :: "relAccX \<Rightarrow> relAccX option" where
  "first_field r =
     (if fieldMap r = [] then
        do { r \<leftarrow> setRSize r 0; r \<leftarrow> setOffset r RAX_REQDFIELDS_LEN; off \<leftarrow> getOffset r;
             m \<leftarrow> wrn (mem r) 1 [ucast off]; Some (r\<lparr>mem := m\<rparr>) }
      else Some r)"

definition write_field :: "relAccX \<Rightarrow> bytes \<Rightarrow> byte \<Rightarrow> u32 \<Rightarrow> relAccX option" where
  "write_field r name fType fLen =
     (let typeLen = typeLenOf fType fLen in
      do { rsize \<leftarrow> getRSize r; off \<leftarrow> getOffset r;
           m \<leftarrow> wrn (mem r) (unat off) [push_bit 3 (of_nat (length name)) OR (typeLen AND 7)];
           m \<leftarrow> wrn m (unat off + 1) name;
           m \<leftarrow> wrn m (unat off + 1 + length name) [fType];
           m \<leftarrow> wrn m (unat off + 2 + length name) (sizeBytes typeLen fLen);
           r \<leftarrow> setOffset (r\<lparr>mem := m, fieldMap :=
                  map_set name \<lparr>ftype = fType, fsize = fLen, foffset = rsize\<rparr> (fieldMap r)\<rparr>)
                  (off + (1 + of_nat (length name) + ucast typeLen));
           rsize \<leftarrow> getRSize r;
           setRSize r (rsize + fLen) })"

definition addField :: "relAccX \<Rightarrow> bytes \<Rightarrow> byte \<Rightarrow> u32 \<Rightarrow> relAccX option" where
  "addField r name fType fLen =
     do { s \<leftarrow> has_status r;
          if s then Some r
          else if length name = 0 \<or> length name > 31 then Some r
          else
            let fLen = (if fLen = 0 then getDefaultSize fType else fLen) in
            if fLen = 0 then Some r
            else do { r \<leftarrow> first_field r; write_field r name fType fLen } }"

section \<open>Records\<close>

definition record_pointer :: "relAccX \<Rightarrow> fieldData \<Rightarrow> u64 \<Rightarrow> nat option" where
  "record_pointer r fd recordNo =
     do { off \<leftarrow> getOffset r; cnt \<leftarrow> getRCount r; sz \<leftarrow> getRSize r;
          Some (unat off + unat ((if cnt \<noteq> 0 then recordNo mod ucast cnt else recordNo) * ucast sz) +
                unat (foffset fd)) }"

text \<open>A pointer into the area, into the zeroes, or null.\<close>

datatype pointer = Area nat | Zeroes | Null

definition getPointer_fd :: "relAccX \<Rightarrow> fieldData \<Rightarrow> u64 \<Rightarrow> pointer option" where
  "getPointer_fd r fd recordNo =
     (if live r then map_option Area (record_pointer r fd recordNo) else Some Zeroes)"

definition getPointer :: "relAccX \<Rightarrow> bytes \<Rightarrow> u64 \<Rightarrow> pointer option" where
  "getPointer r name recordNo =
     (case map_of (fieldMap r) name of None \<Rightarrow> Some Null | Some fd \<Rightarrow> getPointer_fd r fd recordNo)"

text \<open>The memory a pointer points to, and where.\<close>

fun target :: "relAccX \<Rightarrow> pointer \<Rightarrow> (bytes \<times> nat) option" where
  "target r (Area i) = Some (mem r, i)"
| "target r Zeroes = Some (null_area, 0)"
| "target r Null = None"

definition getSize :: "relAccX \<Rightarrow> bytes \<Rightarrow> u64 \<Rightarrow> u32 option" where
  "getSize r name recordNo =
     do { a \<leftarrow> isRecordAvailable r recordNo;
          if \<not> a then Some 0
          else (case map_of (fieldMap r) name of
              None \<Rightarrow> Some 0
            | Some fd \<Rightarrow>
                if ftype fd AND 0xF0 = RAX_STRING then
                  do { i \<leftarrow> record_pointer r fd recordNo;
                       n \<leftarrow> c_strnlen (mem r) i (unat (fsize fd)); Some (of_nat n) }
                else Some (fsize fd)) }"

text \<open>Integers. The signed ones are extended to 64 bits, except those of 24 bits.\<close>

definition load_uint :: "bytes \<Rightarrow> nat \<Rightarrow> u32 \<Rightarrow> u64 option" where
  "load_uint m i sz =
     (if sz = 1 then map_option ucast (rd m i)
      else if sz = 2 then map_option (ucast :: u16 \<Rightarrow> u64) (ld 2 m i)
      else if sz = 3 then btoh24 m i
      else if sz = 4 then map_option (ucast :: u32 \<Rightarrow> u64) (ld 4 m i)
      else if sz = 8 then ld 8 m i
      else Some 0)"

definition load_int :: "bytes \<Rightarrow> nat \<Rightarrow> u32 \<Rightarrow> u64 option" where
  "load_int m i sz =
     (if sz = 1 then map_option scast (rd m i)
      else if sz = 2 then map_option (scast :: u16 \<Rightarrow> u64) (ld 2 m i)
      else if sz = 3 then btoh24 m i
      else if sz = 4 then map_option (scast :: u32 \<Rightarrow> u64) (ld 4 m i)
      else if sz = 8 then ld 8 m i
      else Some 0)"

definition getInt_fd :: "relAccX \<Rightarrow> fieldData \<Rightarrow> u64 \<Rightarrow> u64 option" where
  "getInt_fd r fd recordNo =
     (if live r then
        do { i \<leftarrow> record_pointer r fd recordNo;
             if ftype fd AND 0xF0 = RAX_UINT then load_uint (mem r) i (fsize fd)
             else if ftype fd AND 0xF0 = RAX_INT then load_int (mem r) i (fsize fd)
             else Some 0 }
      else Some 0)"

definition getInt :: "relAccX \<Rightarrow> bytes \<Rightarrow> u64 \<Rightarrow> u64 option" where
  "getInt r name recordNo =
     (case map_of (fieldMap r) name of None \<Rightarrow> Some 0 | Some fd \<Rightarrow> getInt_fd r fd recordNo)"

definition store_int :: "bytes \<Rightarrow> nat \<Rightarrow> u32 \<Rightarrow> u64 \<Rightarrow> bytes option" where
  "store_int m i sz val =
     (if sz = 1 then wrn m i [ucast val]
      else if sz = 2 then st 2 m i (ucast val :: u16)
      else if sz = 3 then htob24 m i val
      else if sz = 4 then st 4 m i (ucast val :: u32)
      else if sz = 8 then st 8 m i val
      else Some m)"

definition setInt_fd :: "relAccX \<Rightarrow> fieldData \<Rightarrow> u64 \<Rightarrow> u64 \<Rightarrow> relAccX option" where
  "setInt_fd r fd val recordNo =
     (if live r then
        do { i \<leftarrow> record_pointer r fd recordNo;
             if ftype fd AND 0xF0 = RAX_UINT \<or> ftype fd AND 0xF0 = RAX_INT
             then do { m \<leftarrow> store_int (mem r) i (fsize fd) val; Some (r\<lparr>mem := m\<rparr>) }
             else Some r }
      else Some r)"

definition setInt :: "relAccX \<Rightarrow> bytes \<Rightarrow> u64 \<Rightarrow> u64 \<Rightarrow> relAccX option" where
  "setInt r name val recordNo =
     (case map_of (fieldMap r) name of None \<Rightarrow> Some r | Some fd \<Rightarrow> setInt_fd r fd val recordNo)"

fun setInts_loop :: "relAccX \<Rightarrow> fieldData \<Rightarrow> u64 list \<Rightarrow> nat \<Rightarrow> relAccX option" where
  "setInts_loop r fd [] recordNo = Some r"
| "setInts_loop r fd (v # vs) recordNo =
     do { r \<leftarrow> setInt_fd r fd v (of_nat recordNo); setInts_loop r fd vs (recordNo + 1) }"

definition setInts :: "relAccX \<Rightarrow> bytes \<Rightarrow> u64 list \<Rightarrow> relAccX option" where
  "setInts r name values =
     (case map_of (fieldMap r) name of None \<Rightarrow> Some r | Some fd \<Rightarrow> setInts_loop r fd values 0)"

text \<open>Strings. Lengths are cut to 32 bits.\<close>

definition setString_fd :: "relAccX \<Rightarrow> fieldData \<Rightarrow> bytes \<Rightarrow> u64 \<Rightarrow> relAccX option" where
  "setString_fd r fd val recordNo =
     (if ftype fd AND 0xF0 \<noteq> RAX_STRING \<and> ftype fd AND 0xF0 \<noteq> RAX_RAW then Some r
      else if \<not> live r then Some r
      else
        let len = (of_nat (length val) :: u32) in
        do { i \<leftarrow> record_pointer r fd recordNo;
             m \<leftarrow> wrn (mem r) i (take (unat (min len (fsize fd))) val);
             m \<leftarrow> (if ftype fd AND 0xF0 = RAX_STRING
                  then wrn m (i + unat (min len (fsize fd - 1))) [0] else Some m);
             Some (r\<lparr>mem := m\<rparr>) })"

definition setString :: "relAccX \<Rightarrow> bytes \<Rightarrow> bytes \<Rightarrow> u64 \<Rightarrow> relAccX option" where
  "setString r name val recordNo =
     (case map_of (fieldMap r) name of None \<Rightarrow> Some r | Some fd \<Rightarrow> setString_fd r fd val recordNo)"

section \<open>The ring buffer\<close>

text \<open>Deleting more records than are present ends the process, after the counters have moved.\<close>

datatype 'a outcome = Goes_on 'a | Exits 'a

definition deleteRecords :: "relAccX \<Rightarrow> u32 \<Rightarrow> relAccX outcome option" where
  "deleteRecords r amount =
     do { s \<leftarrow> getStartPos r; r \<leftarrow> setStartPos r (s + amount);
          d \<leftarrow> getDeleted r; r \<leftarrow> setDeleted r (d + ucast amount);
          n \<leftarrow> getPresent r;
          if n \<ge> amount then do { r \<leftarrow> setPresent r (n - amount); Some (Goes_on r) }
          else Some (Exits r) }"

definition addRecords :: "relAccX \<Rightarrow> u32 \<Rightarrow> relAccX option" where
  "addRecords r amount =
     do { e \<leftarrow> getEndPos r; d \<leftarrow> getDeleted r; c \<leftarrow> getRCount r;
          r \<leftarrow> (if e + ucast amount - d > ucast c then setPresent r 0
               else do { n \<leftarrow> getPresent r; setPresent r (n + amount) });
          e \<leftarrow> getEndPos r;
          setEndPos r (e + ucast amount) }"

section \<open>Field accessors\<close>

text \<open>A \<open>FieldAccX\<close> is a description with the structure it belongs to.\<close>

definition acc_ptr :: "relAccX \<Rightarrow> fieldData \<Rightarrow> u64 \<Rightarrow> pointer option" where
  "acc_ptr src field recordNo = getPointer_fd src field recordNo"

definition acc_uint :: "relAccX \<Rightarrow> fieldData \<Rightarrow> u64 \<Rightarrow> u64 option" where
  "acc_uint src field recordNo = getInt_fd src field recordNo"

definition acc_string :: "relAccX \<Rightarrow> fieldData \<Rightarrow> u64 \<Rightarrow> bytes option" where
  "acc_string src field recordNo =
     do { p \<leftarrow> getPointer_fd src field recordNo; (m, i) \<leftarrow> target src p; c_str m i }"

definition acc_set_int :: "relAccX \<Rightarrow> fieldData \<Rightarrow> u64 \<Rightarrow> u64 \<Rightarrow> relAccX option" where
  "acc_set_int src field val recordNo = setInt_fd src field val recordNo"

text \<open>The pointer of a structure without \<open>p\<close> is constant memory, which cannot be written.\<close>

definition acc_set_string :: "relAccX \<Rightarrow> fieldData \<Rightarrow> bytes \<Rightarrow> u64 \<Rightarrow> relAccX option" where
  "acc_set_string src field val recordNo =
     (if live src then
        do { i \<leftarrow> record_pointer src field recordNo;
             m \<leftarrow> wrn (mem src) i (take (min (unat (fsize field)) (length val)) val);
             m \<leftarrow> (if ftype field AND 0xF0 = RAX_STRING
                  then (if fsize field = 0 then wrn m (i + length val) [0]
                        else wrn m (i + min (unat (fsize field) - 1) (length val)) [0])
                  else Some m);
             Some (src\<lparr>mem := m\<rparr>) }
      else None)"

definition getFieldData :: "relAccX \<Rightarrow> bytes \<Rightarrow> fieldData" where
  "getFieldData r fName =
     (case map_of (fieldMap r) fName of
        None \<Rightarrow> \<lparr>ftype = 0, fsize = 0, foffset = 0\<rparr> | Some fd \<Rightarrow> fd)"

definition getFieldAccX :: "relAccX \<Rightarrow> bytes \<Rightarrow> (relAccX \<times> fieldData) option" where
  "getFieldAccX r fName = map_option (\<lambda>fd. (r, fd)) (map_of (fieldMap r) fName)"

section \<open>Copying structures\<close>

text \<open>A nested structure: opened where the pointer points.\<close>

definition open_at :: "relAccX \<Rightarrow> pointer \<Rightarrow> relAccX option" where
  "open_at r ptr =
     (case ptr of
        Area i \<Rightarrow> if i \<le> length (mem r) then RelAccX_open (drop i (mem r)) else None
      | Zeroes \<Rightarrow> map_option (\<lambda>c. c\<lparr>backed := False\<rparr>) (RelAccX_open null_area)
      | Null \<Rightarrow> Some RelAccX_null)"

text \<open>Copying one field of one record; \<open>child\<close> copies a nested structure. The nested structure of
  the target is part of the target's memory.\<close>

definition flow_raw :: "relAccX \<Rightarrow> relAccX \<Rightarrow> bytes \<Rightarrow> u64 \<Rightarrow> nat \<Rightarrow> relAccX option" where
  "flow_raw r src name i n =
     do { pd \<leftarrow> getPointer r name i; ps \<leftarrow> getPointer src name i; (ms, is) \<leftarrow> target src ps;
          (case pd of
             Area k \<Rightarrow> do { bs \<leftarrow> rdn ms is n; m \<leftarrow> wrn (mem r) k bs; Some (r\<lparr>mem := m\<rparr>) }
           | _ \<Rightarrow> None) }"

definition flow_field :: "(relAccX \<Rightarrow> relAccX \<Rightarrow> relAccX option) \<Rightarrow> relAccX \<Rightarrow> u64 \<Rightarrow> relAccX
    \<Rightarrow> bytes \<times> fieldData \<Rightarrow> relAccX option" where
  "flow_field child src i r nf =
     (let (name, fd) = nf; t = ftype fd AND 0xF0 in
      case map_of (fieldMap r) name of
        None \<Rightarrow> Some r
      | Some fd' \<Rightarrow>
          if t = RAX_RAW then flow_raw r src name i (unat (min (fsize fd) (fsize fd')))
          else if t = RAX_INT \<or> t = RAX_UINT then
            do { v \<leftarrow> getInt src name i; setInt r name v i }
          else if t = RAX_STRING then
            do { p \<leftarrow> getPointer src name i; (m, k) \<leftarrow> target src p; s \<leftarrow> c_str m k; setString r name s i }
          else if t = 0 then
            do { ps \<leftarrow> getPointer src name i; c \<leftarrow> open_at src ps;
                 pd \<leftarrow> getPointer r name i; d \<leftarrow> open_at r pd;
                 d \<leftarrow> child d c;
                 (case pd of Area k \<Rightarrow> Some (r\<lparr>mem := take k (mem r) @ mem d\<rparr>) | _ \<Rightarrow> Some r) }
          else Some r)"

fun fold_opt :: "('s \<Rightarrow> 'a \<Rightarrow> 's option) \<Rightarrow> 's \<Rightarrow> 'a list \<Rightarrow> 's option" where
  "fold_opt f s [] = Some s"
| "fold_opt f s (x # xs) = do { s \<leftarrow> f s x; fold_opt f s xs }"

text \<open>The fuel bounds the depth of the nesting.\<close>

fun flowFrom :: "nat \<Rightarrow> relAccX \<Rightarrow> relAccX \<Rightarrow> relAccX option" where
  "flowFrom 0 r src = None"
| "flowFrom (Suc fuel) r src =
     do { rCount \<leftarrow> getPresent src; c \<leftarrow> getRCount r;
          r \<leftarrow> (if c = 0 then setRCount r rCount else Some r);
          c \<leftarrow> getRCount r;
          if rCount > c then Some r
          else do { n \<leftarrow> getPresent r; r \<leftarrow> addRecords r (rCount - n);
                    fold_opt (\<lambda>r i. fold_opt (flow_field (flowFrom fuel) src (of_nat i)) r (fieldMap src))
                      r [0..<unat rCount] } }"

text \<open>The space for a nested structure is that of the largest one. Each is measured by copying it to
  new memory, whose contents \<open>junk\<close> gives: they are whatever was there before.\<close>

fun minimalFrom :: "(nat \<Rightarrow> bytes) \<Rightarrow> nat \<Rightarrow> relAccX \<Rightarrow> relAccX \<Rightarrow> relAccX option"
  and copyFields_nested :: "(nat \<Rightarrow> bytes) \<Rightarrow> nat \<Rightarrow> relAccX \<Rightarrow> bytes \<Rightarrow> nat list \<Rightarrow> u64 \<Rightarrow> u64 option"
  and copyFields_loop :: "(nat \<Rightarrow> bytes) \<Rightarrow> nat \<Rightarrow> relAccX \<Rightarrow> bool \<Rightarrow> relAccX \<Rightarrow> (bytes \<times> fieldData) list
    \<Rightarrow> relAccX option" where
  "minimalFrom junk 0 r src = None"
| "minimalFrom junk (Suc fuel) r src =
     do { r \<leftarrow> copyFields_loop junk fuel (r\<lparr>fieldMap := []\<rparr>) True src (fieldMap src);
          rCount \<leftarrow> getPresent src; r \<leftarrow> setRCount r rCount; r \<leftarrow> setReady r;
          r \<leftarrow> addRecords r rCount; flowFrom (Suc fuel) r src }"
| "copyFields_nested junk fuel src name [] maxSize = Some maxSize"
| "copyFields_nested junk 0 src name (i # is) maxSize = None"
| "copyFields_nested junk (Suc fuel) src name (i # is) maxSize =
     do { p \<leftarrow> getPointer src name (of_nat i); child \<leftarrow> open_at src p;
          off \<leftarrow> getOffset src; c \<leftarrow> getRCount src; sz \<leftarrow> getRSize src;
          tmp \<leftarrow> RelAccX_open (junk (unat (ucast off + c * sz :: u32)));
          tmp \<leftarrow> minimalFrom junk fuel tmp child;
          off \<leftarrow> getOffset tmp; sz \<leftarrow> getRSize tmp; n \<leftarrow> getPresent tmp;
          copyFields_nested junk (Suc fuel) src name is (max (ucast off + ucast sz * ucast n) maxSize) }"
| "copyFields_loop junk fuel r minimal src [] = Some r"
| "copyFields_loop junk fuel r minimal src ((name, fd) # fs) =
     do { len \<leftarrow> (if minimal \<and> ftype fd AND 0xF0 = 0 then
                    do { n \<leftarrow> getPresent src;
                         m \<leftarrow> copyFields_nested junk fuel src name [0..<unat n] 0; Some (ucast m) }
                  else Some (fsize fd));
          r \<leftarrow> addField r name (ftype fd) len;
          copyFields_loop junk fuel r minimal src fs }"

definition copyFieldsFrom :: "(nat \<Rightarrow> bytes) \<Rightarrow> nat \<Rightarrow> relAccX \<Rightarrow> relAccX \<Rightarrow> bool \<Rightarrow> relAccX option" where
  "copyFieldsFrom junk fuel r src minimal =
     copyFields_loop junk fuel (r\<lparr>fieldMap := []\<rparr>) minimal src (fieldMap src)"

section \<open>Loads, stores and the header\<close>

lemma ld_st_same:
  "st n m i (v :: 'a::len word) = Some m' \<Longrightarrow> LENGTH('a) \<le> 8 * n \<Longrightarrow> ld n m' i = Some v"
proof -
  assume "st n m i v = Some m'" "LENGTH('a) \<le> 8 * n"
  moreover have "take_bit (8 * n) v = v" if "LENGTH('a) \<le> 8 * n"
    using that by (intro bit_word_eqI) (auto simp: bit_simps)
  ultimately show ?thesis
    using rdn_wrn_same [of m i "rev (be_bytes n v)" m'] by (simp add: st_def ld_def be_val_be_bytes)
qed

lemma ld_st_other:
  "st n m i v = Some m' \<Longrightarrow> k + l \<le> i \<or> i + n \<le> k \<Longrightarrow> ld l m' k = ld l m k"
  using rdn_wrn_other [of m i "rev (be_bytes n v)" m' k l] by (simp add: st_def ld_def)

lemma rd_st_other: "st n m i v = Some m' \<Longrightarrow> k < i \<or> i + n \<le> k \<Longrightarrow> rd m' k = rd m k"
  using rd_wrn_other [of m i "rev (be_bytes n v)" m' k] by (simp add: st_def)

lemma st_length: "st n m i v = Some m' \<Longrightarrow> length m' = length m"
  by (auto simp: st_def dest: wrn_length)

lemma st_drop: "st n m i v = Some m' \<Longrightarrow> i + n \<le> k \<Longrightarrow> drop k m' = drop k m"
proof -
  assume "st n m i v = Some m'" "i + n \<le> k"
  then have "drop (i + n) m' = drop (i + n) m"
    using wrn_drop [of m i "rev (be_bytes n v)" m'] by (simp add: st_def)
  then have "drop (k - (i + n)) (drop (i + n) m') = drop (k - (i + n)) (drop (i + n) m)" by simp
  then show ?thesis using \<open>i + n \<le> k\<close> by simp
qed

lemma st_ok: "i + n \<le> length m \<Longrightarrow> \<exists>m'. st n m i v = Some m'"
  by (simp add: st_def wrn_def)

lemma ld_ok: "i + n \<le> length m \<Longrightarrow> \<exists>v. ld n m i = Some v"
  by (simp add: ld_def rdn_def)

text \<open>An area whose header can be read and written.\<close>

definition hdr_ok :: "relAccX \<Rightarrow> bool" where
  "hdr_ok r \<longleftrightarrow> backed r \<and> 36 \<le> length (mem r)"

text \<open>The area after a store that succeeds. A store to the header changes nothing else.\<close>

definition stored :: "nat \<Rightarrow> bytes \<Rightarrow> nat \<Rightarrow> 'a::len word \<Rightarrow> bytes" where
  "stored n m i v = take i m @ rev (be_bytes n v) @ drop (i + n) m"

lemma st_stored: "i + n \<le> length m \<Longrightarrow> st n m i v = Some (stored n m i v)"
  by (simp add: st_def wrn_def stored_def)

lemma stored_simps [simp]:
  assumes "i + n \<le> length m"
  shows "length (stored n m i v) = length m"
    and "LENGTH('a) \<le> 8 * n \<Longrightarrow> ld n (stored n m i (v :: 'a::len word)) i = Some v"
    and "k + l \<le> i \<or> i + n \<le> k \<Longrightarrow> ld l (stored n m i v) k = (ld l m k :: 'b::len word option)"
    and "k < i \<or> i + n \<le> k \<Longrightarrow> rd (stored n m i v) k = rd m k"
    and "i + n \<le> k \<Longrightarrow> drop k (stored n m i v) = drop k m"
  using st_length [OF st_stored [OF assms]] ld_st_same [OF st_stored [OF assms]]
    ld_st_other [OF st_stored [OF assms]] rd_st_other [OF st_stored [OF assms]]
    st_drop [OF st_stored [OF assms]]
  by blast+

lemma hdr_put_ok:
  "hdr_ok r \<Longrightarrow> i + n \<le> 36 \<Longrightarrow> hdr_put n i v r = Some (r\<lparr>mem := stored n (mem r) i v\<rparr>)"
  by (simp add: hdr_put_def hdr_ok_def st_stored)

lemma hdr_ok_mem [simp]: "hdr_ok (r\<lparr>mem := m\<rparr>) \<longleftrightarrow> backed r \<and> 36 \<le> length m"
  by (simp add: hdr_ok_def)

lemmas hdr_defs = getRCount_def getRSize_def getStartPos_def getDeleted_def getPresent_def
  getOffset_def getEndPos_def setRCount_def setRSize_def setStartPos_def setDeleted_def
  setPresent_def setOffset_def setEndPos_def

section \<open>The ring buffer\<close>

text \<open>The numbers of a ring buffer in order: the records from \<open>d\<close> up to \<open>e\<close> are there, \<open>n\<close> of at
  most \<open>c\<close>.\<close>

definition ring :: "relAccX \<Rightarrow> u64 \<Rightarrow> u64 \<Rightarrow> u32 \<Rightarrow> u32 \<Rightarrow> bool" where
  "ring r d e c n \<longleftrightarrow> hdr_ok r \<and> getDeleted r = Some d \<and> getEndPos r = Some e \<and>
     getRCount r = Some c \<and> getPresent r = Some n \<and> unat d + unat n = unat e \<and> unat n \<le> unat c"

lemma ring_available: "ring r d e c n \<Longrightarrow> isRecordAvailable r k = Some (d \<le> k \<and> k < e)"
  by (auto simp: ring_def isRecordAvailable_def)

lemma unat_u64_add: "unat a + unat b < 2 ^ 64 \<Longrightarrow> unat (a + b :: u64) = unat a + unat b"
  by (simp add: unat_word_ariths)

lemma unat_u32_add: "unat a + unat b < 2 ^ 32 \<Longrightarrow> unat (a + b :: u32) = unat a + unat b"
  by (simp add: unat_word_ariths)

lemma unat_ucast_32_64 [simp]: "unat (ucast (a :: u32) :: u64) = unat a"
  using unsigned_less [of a, where ?'a = nat] by (simp add: unsigned_ucast_eq take_bit_nat_eq_self)

lemma addRecords_add:
  assumes r: "ring r d e c n" and a: "unat n + unat a \<le> unat c" "unat e + unat a < 2 ^ 64"
  obtains m where "addRecords r a = Some (r\<lparr>mem := m\<rparr>)" "ring (r\<lparr>mem := m\<rparr>) d (e + ucast a) c (n + a)"
    "drop 36 m = drop 36 (mem r)" "getOffset (r\<lparr>mem := m\<rparr>) = getOffset r"
    "getRSize (r\<lparr>mem := m\<rparr>) = getRSize r"
proof -
  have h: "hdr_ok r" "36 \<le> length (mem r)" "backed r" and dn: "unat d + unat n = unat e"
    using r by (auto simp: ring_def hdr_ok_def)
  have en: "unat (e + ucast a) = unat e + unat a" using a(2) by (subst unat_u64_add) simp_all
  have na: "unat (n + a) = unat n + unat a"
    using a(1) unsigned_less [of c, where ?'a = nat] by (subst unat_u32_add) simp_all
  have "d \<le> e + ucast a" using dn en by (simp add: word_le_nat_alt)
  then have "unat (e + ucast a - d) = unat n + unat a" using en dn by (simp add: unat_sub)
  then have full: "\<not> ucast c < e + ucast a - d" using a(1) by (simp add: word_less_nat_alt)
  let ?m = "stored 8 (stored 4 (mem r) 22 (n + a)) 28 (e + ucast a)"
  have "addRecords r a = Some (r\<lparr>mem := ?m\<rparr>)"
    using r full h by (simp add: addRecords_def ring_def hdr_defs hdr_put_ok)
  moreover have "ring (r\<lparr>mem := ?m\<rparr>) d (e + ucast a) c (n + a)"
    using r h en na dn a(1) by (simp add: ring_def hdr_defs)
  ultimately show ?thesis using that h by (simp add: hdr_defs)
qed

lemma addRecords_full:
  assumes r: "ring r d e c n" and a: "unat c < unat n + unat a" "unat e + unat a < 2 ^ 64"
  obtains m where "addRecords r a = Some (r\<lparr>mem := m\<rparr>)" "getPresent (r\<lparr>mem := m\<rparr>) = Some 0"
    "getEndPos (r\<lparr>mem := m\<rparr>) = Some (e + ucast a)" "getDeleted (r\<lparr>mem := m\<rparr>) = Some d"
proof -
  have h: "hdr_ok r" "36 \<le> length (mem r)" "backed r" and dn: "unat d + unat n = unat e"
    using r by (auto simp: ring_def hdr_ok_def)
  have en: "unat (e + ucast a) = unat e + unat a" using a(2) by (subst unat_u64_add) simp_all
  have "d \<le> e + ucast a" using dn en by (simp add: word_le_nat_alt)
  then have "unat (e + ucast a - d) = unat n + unat a" using en dn by (simp add: unat_sub)
  then have full: "ucast c < e + ucast a - d" using a(1) by (simp add: word_less_nat_alt)
  let ?m = "stored 8 (stored 4 (mem r) 22 (0 :: u32)) 28 (e + ucast a)"
  have "addRecords r a = Some (r\<lparr>mem := ?m\<rparr>)"
    using r full h by (simp add: addRecords_def ring_def hdr_defs hdr_put_ok)
  then show ?thesis using that [of ?m] h r by (simp add: ring_def hdr_defs)
qed

lemma deleteRecords_del:
  assumes r: "ring r d e c n" and a: "unat a \<le> unat n" and s: "getStartPos r = Some s"
  obtains m where "deleteRecords r a = Some (Goes_on (r\<lparr>mem := m\<rparr>))"
    "ring (r\<lparr>mem := m\<rparr>) (d + ucast a) e c (n - a)" "getStartPos (r\<lparr>mem := m\<rparr>) = Some (s + a)"
    "drop 36 m = drop 36 (mem r)" "getOffset (r\<lparr>mem := m\<rparr>) = getOffset r"
    "getRSize (r\<lparr>mem := m\<rparr>) = getRSize r"
proof -
  have h: "hdr_ok r" "36 \<le> length (mem r)" "backed r" and dn: "unat d + unat n = unat e"
    using r by (auto simp: ring_def hdr_ok_def)
  have "unat d + unat a < 2 ^ 64" using dn a unsigned_less [of e, where ?'a = nat] by simp
  then have da: "unat (d + ucast a) = unat d + unat a" by (subst unat_u64_add) simp_all
  have le: "a \<le> n" using a by (simp add: word_le_nat_alt)
  then have na: "unat (n - a) = unat n - unat a" by (simp add: unat_sub)
  let ?m = "stored 4 (stored 8 (stored 4 (mem r) 10 (s + a)) 14 (d + ucast a)) 22 (n - a)"
  have "deleteRecords r a = Some (Goes_on (r\<lparr>mem := ?m\<rparr>))"
    using r s le h by (simp add: deleteRecords_def ring_def hdr_defs hdr_put_ok)
  moreover have "unat n - unat a \<le> unat c" using r unfolding ring_def by linarith
  then have "ring (r\<lparr>mem := ?m\<rparr>) (d + ucast a) e c (n - a)"
    using r h da na dn a by (simp add: ring_def hdr_defs)
  ultimately show ?thesis using that h by (simp add: hdr_defs)
qed

text \<open>Records that are available at the same time have their bytes apart.\<close>

definition field_span :: "relAccX \<Rightarrow> fieldData \<Rightarrow> u64 \<Rightarrow> nat set" where
  "field_span r fd k =
     (case record_pointer r fd k of Some i \<Rightarrow> {i..<i + unat (fsize fd)} | None \<Rightarrow> {})"

lemma record_pointer_eq:
  assumes "getOffset r = Some off" "getRCount r = Some c" "getRSize r = Some sz" "c \<noteq> 0"
    and fits: "unat c * unat sz < 2 ^ 64"
  shows "record_pointer r fd k = Some (unat off + (unat k mod unat c) * unat sz + unat (foffset fd))"
proof -
  have "unat k mod unat c < unat c" using assms(4) by (simp add: unat_gt_0)
  then have b: "(unat k mod unat c) * unat sz < 2 ^ 64"
    using fits by (meson le_less_trans less_imp_le mult_le_mono1)
  then have "unat ((k mod ucast c) * ucast sz) = (unat k mod unat c) * unat sz"
  proof -
    have "unat (k mod ucast c) = unat k mod unat c" by (simp add: unat_mod_distrib)
    then show ?thesis using b by (simp add: unat_word_ariths(2))
  qed
  then show ?thesis using assms by (simp add: record_pointer_def)
qed

lemma mod_apart:
  assumes "(i :: nat) < j" "j < i + c"
  shows "i mod c \<noteq> j mod c"
proof
  assume "i mod c = j mod c"
  then have "c dvd j - i" using assms(1) by (metis less_imp_le mod_eq_dvd_iff_nat)
  then show False using assms by (auto dest!: dvd_imp_le)
qed

lemma slots_apart:
  assumes "(a :: nat) \<noteq> b" "p + s \<le> z" "q + t \<le> z"
  shows "{x + a * z + p..<x + a * z + p + s} \<inter> {x + b * z + q..<x + b * z + q + t} = {}"
proof -
  have "a * z + z \<le> b * z \<or> b * z + z \<le> a * z"
    using assms(1) mult_le_mono1 [of "Suc a" b z] mult_le_mono1 [of "Suc b" a z] by (cases "a < b") auto
  then show ?thesis using assms(2,3) by auto
qed

lemma available_apart:
  assumes r: "ring r d e c n" "getOffset r = Some off" "getRSize r = Some sz"
    and fits: "unat c * unat sz < 2 ^ 64"
    and fd: "unat (foffset fd) + unat (fsize fd) \<le> unat sz"
      "unat (foffset fd') + unat (fsize fd') \<le> unat sz"
    and k: "d \<le> i" "i < e" "d \<le> j" "j < e" "i \<noteq> j"
  shows "field_span r fd i \<inter> field_span r fd' j = {}"
proof -
  have u: "unat d \<le> unat i" "unat i < unat e" "unat d \<le> unat j" "unat j < unat e" "unat i \<noteq> unat j"
    using k by (auto simp: word_le_nat_alt word_less_nat_alt word_unat_eq_iff)
  have w: "unat e \<le> unat d + unat c" using r(1) unfolding ring_def by linarith
  then have "unat i mod unat c \<noteq> unat j mod unat c"
  proof (cases "unat i < unat j")
    case True
    moreover have "unat j < unat i + unat c" using u w by linarith
    ultimately show ?thesis by (rule mod_apart)
  next
    case False
    then have "unat j < unat i" "unat i < unat j + unat c" using u w by linarith+
    then show ?thesis using mod_apart [of "unat j" "unat i" "unat c"] by simp
  qed
  moreover have "c \<noteq> 0" using w u by auto
  ultimately show ?thesis
    using slots_apart [OF _ fd] r fits unfolding ring_def
    by (simp add: field_span_def record_pointer_eq)
qed

section \<open>Integers and strings in records\<close>

text \<open>What an integer field of a size keeps of a value.\<close>

definition kept_uint :: "u32 \<Rightarrow> u64 \<Rightarrow> u64" where
  "kept_uint sz v = (if sz \<in> {1, 2, 3, 4, 8} then take_bit (8 * unat sz) v else 0)"

definition kept_int :: "u32 \<Rightarrow> u64 \<Rightarrow> u64" where
  "kept_int sz v =
     (if sz = 3 then take_bit 24 v
      else if sz \<in> {1, 2, 4, 8} then signed_take_bit (8 * unat sz - 1) v else 0)"

lemma rd_wrn_one: "wrn m i [b] = Some m' \<Longrightarrow> rd m' i = Some b"
  by (auto simp: wrn_def rd_def nth_append split: if_splits)

lemma load_store_uint:
  assumes "store_int m i sz v = Some m'" "sz \<in> {1, 2, 3, 4, 8}"
  shows "load_uint m' i sz = Some (kept_uint sz v)"
proof -
  have c: "ucast (ucast v :: byte) = take_bit 8 v" "ucast (ucast v :: u16) = take_bit 16 v"
    "ucast (ucast v :: u32) = take_bit 32 v"
    by (auto intro!: bit_word_eqI simp: bit_simps)
  have "load_uint m' i 3 = Some (take_bit 24 v)" if "htob24 m i v = Some m'"
    using that rdn_wrn_same [of m i "be_bytes 3 v" m']
    by (simp add: load_uint_def htob24_eq btoh24_eq be_val_be_bytes_take)
  then show ?thesis
    using assms by (auto simp: store_int_def load_uint_def kept_uint_def c dest!: ld_st_same rd_wrn_one split: if_splits)
qed

lemma scast_kept:
  "(scast (ucast v :: byte) :: u64) = signed_take_bit 7 v"
  "(scast (ucast v :: u16) :: u64) = signed_take_bit 15 v"
  "(scast (ucast v :: u32) :: u64) = signed_take_bit 31 v"
  for v :: u64
  by (auto intro!: bit_word_eqI simp: bit_simps min_def)

lemma load_store_int:
  assumes "store_int m i sz v = Some m'" "sz \<in> {1, 2, 3, 4, 8}"
  shows "load_int m' i sz = Some (kept_int sz v)"
proof -
  have "load_int m' i 3 = Some (take_bit 24 v)" if "htob24 m i v = Some m'"
    using that rdn_wrn_same [of m i "be_bytes 3 v" m']
    by (simp add: load_int_def htob24_eq btoh24_eq be_val_be_bytes_take)
  moreover have "signed_take_bit 63 v = v"
  proof (rule bit_word_eqI)
    fix n assume "n < LENGTH(64)"
    then have "n = 63 \<or> n < 63" by auto
    then show "bit (signed_take_bit 63 v) n = bit v n" by (auto simp: bit_simps min_def)
  qed
  ultimately show ?thesis
    using assms by (auto simp: store_int_def load_int_def kept_int_def scast_kept dest!: ld_st_same rd_wrn_one split: if_splits)
qed

text \<open>A store touches its own bytes only, and a load depends on its own bytes only.\<close>

lemma store_int_frame:
  assumes "store_int m i sz v = Some m'"
  shows "length m' = length m" "k < i \<or> i + unat sz \<le> k \<Longrightarrow> rd m' k = rd m k"
  using assms by (auto simp: store_int_def htob24_eq st_def dest: wrn_length rd_wrn_other split: if_splits)

lemma load_cong:
  assumes "\<And>k. i \<le> k \<Longrightarrow> k < i + unat sz \<Longrightarrow> rd m k = rd m' k" "sz \<in> {1, 2, 3, 4, 8}"
  shows "load_uint m i sz = load_uint m' i sz" "load_int m i sz = load_int m' i sz"
proof -
  have r: "rdn m i n = rdn m' i n" if "n = unat sz" for n
    using assms that by (intro rdn_cong) auto
  have "rd m i = rd m' i" using assms by (intro assms(1)) auto
  then show "load_uint m i sz = load_uint m' i sz" "load_int m i sz = load_int m' i sz"
    using r assms(2) by (auto simp: load_uint_def load_int_def ld_def btoh24_eq)
qed

text \<open>An open structure whose records lie behind the header.\<close>

definition placed :: "relAccX \<Rightarrow> bool" where
  "placed r \<longleftrightarrow> live r \<and> hdr_ok r \<and> (\<exists>off. getOffset r = Some off \<and> 36 \<le> unat off)"

lemma placed_pointer: "placed r \<Longrightarrow> record_pointer r fd k = Some i \<Longrightarrow> 36 \<le> i"
  by (auto simp: placed_def record_pointer_def split: Option.bind_splits)

definition int_field :: "fieldData \<Rightarrow> bool" where
  "int_field fd \<longleftrightarrow> ftype fd AND 0xF0 \<in> {RAX_UINT, RAX_INT} \<and> fsize fd \<in> {1, 2, 3, 4, 8}"

definition kept :: "fieldData \<Rightarrow> u64 \<Rightarrow> u64" where
  "kept fd v = (if ftype fd AND 0xF0 = RAX_UINT then kept_uint (fsize fd) v else kept_int (fsize fd) v)"

lemma header_same:
  assumes "length m' = length m" "\<And>k. k < 36 \<Longrightarrow> rd m' k = rd m k" "i + n \<le> 36" "0 < n"
  shows "ld n m' i = ld n m i"
  using rdn_cong [of n m' i m i] assms by (simp add: ld_def)

lemma header_kept:
  assumes "length m' = length (mem r)" "\<And>k. k < 36 \<Longrightarrow> rd m' k = rd (mem r) k"
  shows "record_pointer (r\<lparr>mem := m'\<rparr>) fd k = record_pointer r fd k"
    "placed (r\<lparr>mem := m'\<rparr>) \<longleftrightarrow> placed r" "ring (r\<lparr>mem := m'\<rparr>) d e c n \<longleftrightarrow> ring r d e c n"
  using assms(1)
  by (simp_all add: record_pointer_def placed_def ring_def hdr_defs hdr_ok_def header_same [OF assms])

lemma setInt_ok:
  assumes r: "placed r" "int_field fd" and p: "record_pointer r fd k = Some i" "i + unat (fsize fd) \<le> length (mem r)"
  obtains m where "setInt_fd r fd v k = Some (r\<lparr>mem := m\<rparr>)" "store_int (mem r) i (fsize fd) v = Some m"
proof -
  have "\<exists>m. store_int (mem r) i (fsize fd) v = Some m"
    using p(2) r(2) by (auto simp: int_field_def store_int_def st_def wrn_def htob24_eq)
  then show ?thesis using that r p(1) by (auto simp: setInt_fd_def placed_def int_field_def)
qed

lemma setInt_all:
  assumes r: "placed r" "int_field fd" and s: "setInt_fd r fd v k = Some r'"
    and p: "record_pointer r fd k = Some i"
  shows "getInt_fd r' fd k = Some (kept fd v)" "placed r'" "ring r' d e c n \<longleftrightarrow> ring r d e c n"
    "int_field fd' \<Longrightarrow> field_span r fd k \<inter> field_span r fd' k' = {} \<Longrightarrow>
       getInt_fd r' fd' k' = getInt_fd r fd' k'"
proof -
  obtain m where m: "store_int (mem r) i (fsize fd) v = Some m" "r' = r\<lparr>mem := m\<rparr>"
    using r s p by (auto simp: setInt_fd_def placed_def int_field_def split: Option.bind_splits)
  have i: "36 \<le> i" by (rule placed_pointer [OF r(1) p])
  have f: "length m = length (mem r)" "\<And>j. j < 36 \<Longrightarrow> rd m j = rd (mem r) j"
    using store_int_frame [OF m(1)] i by auto
  note hk = header_kept [OF f]
  show "placed r'" "ring r' d e c n \<longleftrightarrow> ring r d e c n" using hk r(1) m(2) by simp_all
  show "getInt_fd r' fd k = Some (kept fd v)"
    using m r p hk(1) load_store_uint [OF m(1)] load_store_int [OF m(1)]
    by (auto simp: getInt_fd_def placed_def int_field_def kept_def)
  assume o: "int_field fd'" "field_span r fd k \<inter> field_span r fd' k' = {}"
  show "getInt_fd r' fd' k' = getInt_fd r fd' k'"
  proof (cases "record_pointer r fd' k'")
    case None
    then show ?thesis using m(2) hk(1) by (simp add: getInt_fd_def)
  next
    case (Some i')
    have "rd m j = rd (mem r) j" if "i' \<le> j" "j < i' + unat (fsize fd')" for j
    proof -
      have "j \<in> field_span r fd' k'" using that Some by (simp add: field_span_def)
      then have "j \<notin> field_span r fd k" using o(2) by blast
      then have "j < i \<or> i + unat (fsize fd) \<le> j" using p by (auto simp: field_span_def)
      then show ?thesis by (rule store_int_frame(2) [OF m(1)])
    qed
    then have "load_uint m i' (fsize fd') = load_uint (mem r) i' (fsize fd')"
      "load_int m i' (fsize fd') = load_int (mem r) i' (fsize fd')"
      using load_cong [of i' "fsize fd'" m "mem r"] o(1) by (auto simp: int_field_def)
    then show ?thesis using Some m(2) hk(1) by (simp add: getInt_fd_def)
  qed
qed

lemma wrn_at: "wrn m i bs = Some m' \<Longrightarrow> drop i m' = bs @ drop (i + length bs) m"
  by (auto simp: wrn_def split: if_splits)

lemma wrn_later: "wrn m (i + n) bs = Some m' \<Longrightarrow> drop i m' = take n (drop i m) @ bs @ drop (i + n + length bs) m"
  by (auto simp: wrn_def drop_take split: if_splits)

lemma setString_reads:
  assumes r: "placed r" "ftype fd AND 0xF0 = RAX_STRING" "fsize fd \<noteq> 0"
    and v: "length val < 2 ^ 32" "0 \<notin> set val"
    and s: "setString_fd r fd val k = Some r'"
  shows "acc_string r' fd k = Some (take (unat (fsize fd) - 1) val)" "placed r'"
    "ring r' d e c n \<longleftrightarrow> ring r d e c n"
proof -
  let ?n = "unat (fsize fd)"
  have len: "unat (of_nat (length val) :: u32) = length val"
    using v(1) by (simp add: unsigned_of_nat take_bit_nat_eq_self)
  have n: "0 < ?n" using r(3) by (simp add: unat_gt_0)
  then have s1: "unat (fsize fd - 1) = ?n - 1"
    using unat_sub [of 1 "fsize fd"] by (simp add: word_le_nat_alt)
  have mn: "unat (min a b) = min (unat a) (unat b)" for a b :: u32
    by (simp add: min_def word_le_nat_alt)
  obtain i m1 m2 where p: "record_pointer r fd k = Some i"
    and m1: "wrn (mem r) i (take (min (length val) ?n) val) = Some m1"
    and m2: "wrn m1 (i + min (length val) (?n - 1)) [0] = Some m2" "r' = r\<lparr>mem := m2\<rparr>"
    using s r by (auto simp: setString_fd_def placed_def Let_def mn len s1 split: Option.bind_splits)
  have i: "36 \<le> i" by (rule placed_pointer [OF r(1) p])
  have "length m2 = length (mem r)" using wrn_length [OF m1] wrn_length [OF m2(1)] by simp
  moreover have "rd m2 j = rd (mem r) j" if "j < 36" for j
    using rd_wrn_other [OF m1, of j] rd_wrn_other [OF m2(1), of j] that i by simp
  ultimately have hk: "record_pointer r' fd k = Some i" "placed r'" "ring r' d e c n \<longleftrightarrow> ring r d e c n"
    using header_kept [of m2 r] m2(2) p r(1) by simp_all
  then show "placed r'" "ring r' d e c n \<longleftrightarrow> ring r d e c n" by blast+
  let ?s = "take (?n - 1) val"
  have "take (min (length val) (?n - 1)) (take (min (length val) ?n) val @ xs) = ?s" for xs
    using n by (simp add: min_def)
  then have d: "drop i m2 = ?s @ 0 # drop (i + min (length val) (?n - 1) + 1) m1"
    using wrn_at [OF m1] wrn_later [OF m2(1)] by simp
  have "0 \<notin> set ?s" using v(2) by (meson in_set_takeD)
  then have "takeWhile (\<lambda>c. c \<noteq> 0) (drop i m2) = ?s" unfolding d
    by (subst takeWhile_append2) auto
  then have "c_str m2 i = Some ?s" unfolding c_str_def by (simp add: d)
  then show "acc_string r' fd k = Some ?s"
    using hk(1) m2(2) r(1) by (simp add: acc_string_def getPointer_fd_def placed_def)
qed

section \<open>A written description is read\<close>

definition enc_field :: "bytes \<times> byte \<times> u32 \<Rightarrow> bytes" where
  "enc_field f =
     (case f of (name, t, sz) \<Rightarrow>
        [push_bit 3 (of_nat (length name)) OR (typeLenOf t sz AND 7)] @ name @ [t] @
        sizeBytes (typeLenOf t sz) sz)"

definition named_field :: "bytes \<times> byte \<times> u32 \<Rightarrow> bool" where
  "named_field f \<longleftrightarrow> 0 < length (fst f) \<and> length (fst f) \<le> 31 \<and> snd (snd f) \<noteq> 0"

fun fold_fields :: "u64 \<Rightarrow> (bytes \<times> byte \<times> u32) list \<Rightarrow> (bytes \<times> fieldData) list \<Rightarrow> (bytes \<times> fieldData) list" where
  "fold_fields off [] acc = acc"
| "fold_fields off ((name, t, sz) # fs) acc =
     fold_fields (off + ucast sz) fs (map_set name \<lparr>ftype = t, fsize = sz, foffset = ucast off\<rparr> acc)"

lemma typeLen_cases: "typeLenOf t sz \<in> {1, 2, 3, 5}"
  by (simp add: typeLenOf_def)

lemma length_enc_field: "length (enc_field (name, t, sz)) = 1 + length name + unat (typeLenOf t sz)"
  using typeLen_cases [of t sz] by (auto simp: enc_field_def sizeBytes_def)

lemma size_byte:
  assumes "n \<le> 31" "ty \<in> {1, 2, 3, 5}"
  defines "b \<equiv> push_bit 3 (of_nat n) OR (ty AND 7) :: byte"
  shows "unat (drop_bit 3 b) = n" "b AND 7 = ty"
proof -
  have "n = take_bit 5 n" using assms(1) by (simp add: take_bit_nat_eq_self)
  then have n: "bit n k \<Longrightarrow> k < 5" for k by (metis bit_take_bit_iff)
  have t: "ty AND 7 = ty" "take_bit 3 ty = ty" using assms(2) by auto
  then have tb: "bit ty k \<Longrightarrow> k < 3" for k by (metis bit_take_bit_iff)
  have "drop_bit 3 b = of_nat n"
    unfolding b_def t(1) by (rule bit_word_eqI) (auto simp: bit_simps dest: n tb)
  then show "unat (drop_bit 3 b) = n"
    using assms(1) by (simp add: unsigned_of_nat take_bit_nat_eq_self)
  have "b AND 7 = take_bit 3 b" by (simp add: take_bit_eq_mask mask_eq_exp_minus_1)
  also have "\<dots> = ty" unfolding b_def t(1) by (rule bit_word_eqI) (auto simp: bit_simps dest: tb)
  finally show "b AND 7 = ty" .
qed

lemma getDefaultSize_typeSize: "getDefaultSize t = typeSize t"
  by (auto simp: getDefaultSize_def typeSize_def)

lemma ld_at: "ld n (xs @ ys) (length xs + k) = ld n ys k"
  by (simp add: ld_def rdn_def)

lemma ld_at0: "ld n (xs @ ys) (length xs) = ld n ys 0"
  using ld_at [of n xs ys 0] by simp

lemma fieldSize_enc:
  "fieldSize (xs @ sizeBytes (typeLenOf t sz) sz @ ys) (length xs) (typeLenOf t sz) t = Some sz"
proof -
  have "ld 2 (rev (be_bytes 2 sz) @ ys) 0 = Some (ucast sz :: u16)"
    by (simp add: ld_def rdn_def be_val_def be_bytes_def numeral_2_eq_2) (rule bit_word_eqI, auto simp: bit_simps)
  moreover have "ld 4 (rev (be_bytes 4 sz) @ ys) 0 = Some sz"
    by (simp add: ld_def rdn_def be_val_be_bytes)
  moreover have "ucast (ucast sz :: byte) = sz" if "sz < 0x100"
    using that by (simp add: word_less_nat_alt word_unat_eq_iff unsigned_ucast_eq unsigned_take_bit_eq take_bit_nat_eq_self)
  moreover have "ucast (ucast sz :: u16) = sz" if "sz < 0x10000"
    using that by (simp add: word_less_nat_alt word_unat_eq_iff unsigned_ucast_eq unsigned_take_bit_eq take_bit_nat_eq_self)
  ultimately show ?thesis
    by (auto simp: fieldSize_def typeLenOf_def sizeBytes_def getDefaultSize_typeSize ld_at0)
qed

lemma parse_enc:
  assumes m: "m = pre @ enc_field (name, t, sz) @ post" and n: "named_field (name, t, sz)"
    and o: "length pre + length (enc_field (name, t, sz)) < 2 ^ 16"
  shows "parse_field m (of_nat (length pre)) off =
    Some (name, \<lparr>ftype = t, fsize = sz, foffset = ucast off\<rparr>, of_nat (length (enc_field (name, t, sz))))"
proof -
  let ?ty = "typeLenOf t sz"
  define b where "b = push_bit 3 (of_nat (length name)) OR (?ty AND 7)"
  have u: "unat (of_nat (length pre) :: u16) = length pre"
    using o by (simp add: unsigned_of_nat take_bit_nat_eq_self)
  have nl: "length name \<le> 31" using n by (simp add: named_field_def)
  note sb = size_byte [OF nl typeLen_cases [of t sz], folded b_def]
  have m1: "m = (pre @ [b]) @ name @ ([t] @ sizeBytes ?ty sz @ post)"
    by (simp add: m enc_field_def b_def)
  have "rdn m (length (pre @ [b])) (length name) = Some name"
    by (simp only: m1 rdn_append_at)
  then have nm1: "rdn m (length pre + 1) (length name) = Some name" by simp
  have "m = (pre @ [b] @ name) @ [t] @ sizeBytes ?ty sz @ post"
    "m = (pre @ [b] @ name @ [t]) @ sizeBytes ?ty sz @ post" "m = pre @ [b] @ name @ [t] @ sizeBytes ?ty sz @ post"
    by (simp_all add: m enc_field_def b_def)
  then have "rd m (length pre) = Some b"
    "rd m (length pre + 1 + length name) = Some t"
    "fieldSize m (length pre + 1 + length name + 1) ?ty t = Some sz"
    using fieldSize_enc [of "pre @ [b] @ name @ [t]" t sz post]
    by (simp_all add: rd_def nth_append)
  moreover note nm1
  moreover have "(ucast (drop_bit 3 b) + ucast ?ty + 1 :: u16) = of_nat (length (enc_field (name, t, sz)))"
  proof -
    have "ucast x = (of_nat (unat x) :: u16)" for x :: byte by (simp only: of_nat_unat)
    then show ?thesis unfolding length_enc_field sb(1)
      by (simp only: sb(1) of_nat_add of_nat_1 add_ac)
  qed
  ultimately show ?thesis
    unfolding parse_field_def Let_def u by (simp add: sb)
qed

lemma enc_field_pos: "3 \<le> length (enc_field f) \<or> \<not> named_field f"
  using typeLen_cases [of "fst (snd f)" "snd (snd f)"]
  by (cases f) (auto simp: length_enc_field named_field_def Suc_le_eq)

abbreviation encs :: "(bytes \<times> byte \<times> u32) list \<Rightarrow> bytes" where
  "encs fs \<equiv> concat (map enc_field fs)"

lemma u16_less: "a < b \<Longrightarrow> b < 2 ^ 16 \<Longrightarrow> (of_nat a :: u16) < of_nat b"
  by (simp add: word_less_nat_alt unsigned_of_nat take_bit_nat_eq_self)

lemma parse_encs:
  assumes "list_all named_field fs" "m = pre @ encs fs @ post" "length pre + length (encs fs) < 2 ^ 16"
    "length fs < fuel"
  shows "parse_fields fuel m (of_nat (length pre + length (encs fs))) (of_nat (length pre)) off acc =
    Some (fold_fields off fs acc)"
  using assms
proof (induction fs arbitrary: pre off acc fuel)
  case Nil
  then show ?case by (cases fuel) auto
next
  case (Cons f fs)
  obtain name t sz where f: "f = (name, t, sz)" by (cases f)
  obtain fu where fu: "fuel = Suc fu" using Cons.prems(4) by (cases fuel) auto
  have nf: "named_field (name, t, sz)" "list_all named_field fs" using Cons.prems(1) f by auto
  have l3: "3 \<le> length (enc_field f)" using enc_field_pos [of f] nf f by auto
  have m1: "m = pre @ enc_field (name, t, sz) @ (encs fs @ post)"
    "m = (pre @ enc_field f) @ encs fs @ post" using Cons.prems(2) f by simp_all
  have o: "length pre + length (enc_field (name, t, sz)) < 2 ^ 16" using Cons.prems(3) f by simp
  have lt: "(of_nat (length pre) :: u16) < of_nat (length pre + length (encs (f # fs)))"
  proof (rule u16_less)
    have "length (encs (f # fs)) = length (enc_field f) + length (encs fs)" by simp
    then show "length pre < length pre + length (encs (f # fs))" using l3 by linarith
  qed (rule Cons.prems(3))
  have "parse_fields fu m (of_nat (length (pre @ enc_field f) + length (encs fs)))
      (of_nat (length (pre @ enc_field f))) (off + ucast sz)
      (map_set name \<lparr>ftype = t, fsize = sz, foffset = ucast off\<rparr> acc) =
    Some (fold_fields (off + ucast sz) fs (map_set name \<lparr>ftype = t, fsize = sz, foffset = ucast off\<rparr> acc))"
    using Cons.prems(3,4) fu by (intro Cons.IH nf(2) m1(2)) auto
  then show ?case
    using lt parse_enc [OF m1(1) nf(1) o, of off] f fu by (simp add: add.assoc)
qed

text \<open>What the writer has written after adding fields.\<close>

definition described :: "relAccX \<Rightarrow> (bytes \<times> byte \<times> u32) list \<Rightarrow> bool" where
  "described r fs \<longleftrightarrow> live r \<and> hdr_ok r \<and> rd (mem r) 0 = Some 0 \<and>
     fieldMap r = fold_fields 0 fs [] \<and>
     (fs \<noteq> [] \<longrightarrow> rd (mem r) 1 = Some 36 \<and> getOffset r = Some (of_nat (36 + length (encs fs))) \<and>
        getRSize r = Some (sum_list (map (snd \<circ> snd) fs)) \<and> take (length (encs fs)) (drop 36 (mem r)) = encs fs \<and>
        36 + length (encs fs) \<le> length (mem r) \<and> 36 + length (encs fs) < 2 ^ 16)"

lemma fold_fields_snoc:
  "fold_fields off (fs @ [(name, t, sz)]) acc =
   map_set name \<lparr>ftype = t, fsize = sz, foffset = ucast off + sum_list (map (snd \<circ> snd) fs)\<rparr> (fold_fields off fs acc)"
proof (induction off fs acc rule: fold_fields.induct)
  case (2 off n t' s fs acc)
  have "ucast (off + ucast s :: u64) = (ucast off + s :: u32)"
    by (simp add: word_unat_eq_iff unsigned_ucast_eq take_bit_eq_mod unat_word_ariths mod_simps mod_mod_cancel)
  then show ?case using 2 by (simp add: add.assoc)
qed simp

lemma map_set_ne: "map_set k v m \<noteq> []"
  by (cases "(k, v, m)" rule: map_set.cases) auto

lemma fold_fields_ne: "fold_fields off fs acc = [] \<longleftrightarrow> fs = [] \<and> acc = []"
  by (induction off fs acc rule: fold_fields.induct) (auto simp: map_set_ne)

lemma has_status_0: "live r \<Longrightarrow> rd (mem r) 0 = Some 0 \<Longrightarrow> has_status r = Some False"
  by (simp add: has_status_def isExit_def isReload_def isReady_def)

definition put_at :: "bytes \<Rightarrow> nat \<Rightarrow> bytes \<Rightarrow> bytes" where
  "put_at m i bs = take i m @ bs @ drop (i + length bs) m"

lemma wrn_put_at: "i + length bs \<le> length m \<Longrightarrow> wrn m i bs = Some (put_at m i bs)"
  by (simp add: wrn_def put_at_def)

lemma wrn_append: "do { m \<leftarrow> wrn m i a; wrn m (i + length a) b } = wrn m i (a @ b)" for m :: bytes
proof (cases "i + length a + length b \<le> length m")
  case True
  then have "wrn m i a = Some (put_at m i a)" by (intro wrn_put_at) simp
  moreover have "length (put_at m i a) = length m" using True by (simp add: put_at_def)
  moreover have "take (i + length a) (put_at m i a) = take i m @ a"
    using True by (simp add: put_at_def)
  moreover have "drop (i + length a + length b) (put_at m i a) = drop (i + length a + length b) m"
    using True by (simp add: put_at_def add.commute)
  ultimately show ?thesis using True by (simp add: wrn_def add.assoc)
next
  case False
  then show ?thesis by (auto simp: wrn_def add.assoc split: Option.bind_splits)
qed

lemma wrn_field:
  "do { m \<leftarrow> wrn m q [x]; m \<leftarrow> wrn m (q + 1) name; m \<leftarrow> wrn m (q + 1 + length name) [t];
        wrn m (q + 2 + length name) sb } = wrn m q ([x] @ name @ [t] @ sb)" for m :: bytes
proof -
  have "wrn m q ([x] @ name @ [t] @ sb) = do { m \<leftarrow> wrn m q ([x] @ name @ [t]); wrn m (q + length ([x] @ name @ [t])) sb }"
    using wrn_append [of m q "[x] @ name @ [t]" sb] by simp
  also have "wrn m q ([x] @ name @ [t]) = do { m \<leftarrow> wrn m q ([x] @ name); wrn m (q + length ([x] @ name)) [t] }"
    using wrn_append [of m q "[x] @ name" "[t]"] by simp
  also have "wrn m q ([x] @ name) = do { m \<leftarrow> wrn m q [x]; wrn m (q + length [x]) name }"
    using wrn_append [of m q "[x]" name] by simp
  finally show ?thesis by (simp add: add.assoc)
qed

lemma put_at_simps:
  assumes "i + length bs \<le> length m" "36 \<le> i"
  shows "length (put_at m i bs) = length m"
    and "k + n \<le> 36 \<Longrightarrow> ld n (put_at m i bs) k = (ld n m k :: 'a::len word option)"
    and "k < 36 \<Longrightarrow> rd (put_at m i bs) k = rd m k"
    and "drop 36 (put_at m i bs) = take (i - 36) (drop 36 m) @ bs @ drop (i + length bs) m"
  using rdn_wrn_other [OF wrn_put_at [OF assms(1)], of k n] rd_wrn_other [OF wrn_put_at [OF assms(1)], of k] assms
  by (auto simp: put_at_def ld_def drop_take)

lemma write_field_ok:
  assumes r: "live r" "hdr_ok r" and h: "getRSize r = Some S" "getOffset r = Some off" "36 \<le> unat off"
    and n: "named_field (name, t, sz)" and room: "unat off + length (enc_field (name, t, sz)) \<le> length (mem r)"
  defines "e \<equiv> enc_field (name, t, sz)"
  obtains m where "write_field r name t sz =
      Some (r\<lparr>mem := m, fieldMap := map_set name \<lparr>ftype = t, fsize = sz, foffset = S\<rparr> (fieldMap r)\<rparr>)"
    "length m = length (mem r)" "ld 4 m 6 = Some (S + sz)" "ld 2 m 26 = Some (off + of_nat (length e))"
    "\<And>k. k < 2 \<Longrightarrow> rd m k = rd (mem r) k"
    "drop 36 m = take (unat off - 36) (drop 36 (mem r)) @ e @ drop (unat off + length e) (mem r)"
proof -
  let ?fm = "map_set name \<lparr>ftype = t, fsize = sz, foffset = S\<rparr> (fieldMap r)"
  let ?ty = "typeLenOf t sz"
  have ee: "e = [push_bit 3 (of_nat (length name)) OR (?ty AND 7)] @ name @ [t] @ sizeBytes ?ty sz"
    by (simp add: e_def enc_field_def)
  define m1 where "m1 = put_at (mem r) (unat off) e"
  have w: "wrn (mem r) (unat off) e = Some m1" using room by (simp add: m1_def e_def wrn_put_at)
  note ps = put_at_simps [OF room [folded e_def] h(3), folded m1_def]
  have len: "off + (1 + of_nat (length name) + ucast ?ty) = (off + of_nat (length e) :: u16)"
    unfolding e_def length_enc_field by (simp add: of_nat_unat)
  let ?m2 = "stored 2 m1 26 (off + of_nat (length e))" and ?m3 = "\<lambda>m. stored 4 m 6 (S + sz)"
  have l: "36 \<le> length m1" "backed r" using r(2) ps(1) by (simp_all add: hdr_ok_def)
  have "write_field r name t sz = do { rsize \<leftarrow> getRSize r; off \<leftarrow> getOffset r;
      m \<leftarrow> wrn (mem r) (unat off) e;
      r \<leftarrow> setOffset (r\<lparr>mem := m, fieldMap :=
                  map_set name \<lparr>ftype = t, fsize = sz, foffset = rsize\<rparr> (fieldMap r)\<rparr>)
                  (off + (1 + of_nat (length name) + ucast ?ty));
      rsize \<leftarrow> getRSize r; setRSize r (rsize + sz) }"
    unfolding ee wrn_field [symmetric] write_field_def Let_def by simp
  also have "\<dots> = Some (r\<lparr>mem := ?m3 ?m2, fieldMap := ?fm\<rparr>)"
    using h w l len by (simp add: hdr_defs hdr_put_ok hdr_ok_def ps(2))
  finally have "write_field r name t sz = Some (r\<lparr>mem := ?m3 ?m2, fieldMap := ?fm\<rparr>)" .
  moreover have "drop 36 (?m3 ?m2) = drop 36 m1" using l by simp
  ultimately show ?thesis using that [of "?m3 ?m2"] l ps by simp
qed

lemma ld_wrn_other: "wrn m i bs = Some m' \<Longrightarrow> k + l \<le> i \<or> i + length bs \<le> k \<Longrightarrow> ld l m' k = ld l m k"
  by (simp add: ld_def rdn_wrn_other)

lemma first_field_ok:
  assumes r: "described r fs"
  obtains m S off where "first_field r = Some (r\<lparr>mem := m\<rparr>)" "length m = length (mem r)"
    "ld 4 m 6 = Some S" "ld 2 m 26 = Some (off :: u16)" "S = sum_list (map (snd \<circ> snd) fs)"
    "unat off = 36 + length (encs fs)" "rd m 0 = Some 0" "rd m 1 = Some 36"
    "take (length (encs fs)) (drop 36 m) = encs fs" "36 + length (encs fs) \<le> length m"
    "drop 36 m = drop 36 (mem r)"
proof (cases "fs = []")
  case False
  then have "fieldMap r \<noteq> []" using r by (simp add: described_def fold_fields_ne)
  moreover have "unat (of_nat (36 + length (encs fs)) :: u16) = 36 + length (encs fs)"
    using r False by (simp add: described_def unsigned_of_nat take_bit_nat_eq_self del: of_nat_add)
  ultimately show ?thesis
    using that [of "mem r" "sum_list (map (snd \<circ> snd) fs)" "of_nat (36 + length (encs fs))"] r False
    by (simp add: described_def first_field_def hdr_defs)
next
  case True
  let ?m2 = "stored 2 (stored 4 (mem r) 6 (0 :: u32)) 26 (36 :: u16)"
  have h: "backed r" "36 \<le> length (mem r)" "fieldMap r = []" "rd (mem r) 0 = Some 0"
    using r True by (auto simp: described_def hdr_ok_def)
  obtain m where w: "wrn ?m2 1 [36] = Some m" using h by (simp add: wrn_def)
  have "first_field r = Some (r\<lparr>mem := m\<rparr>)"
    using h w by (simp add: first_field_def hdr_defs hdr_put_ok hdr_ok_def)
  moreover have "length m = length (mem r)" using h wrn_length [OF w] by simp
  moreover have "ld 4 m 6 = Some (0 :: u32)" "ld 2 m 26 = Some (36 :: u16)"
    using h by (simp_all add: ld_wrn_other [OF w])
  moreover have "rd m 0 = Some 0" "rd m 1 = Some 36"
    using h rd_wrn_other [OF w, of 0] rd_wrn_one [OF w] by simp_all
  moreover have "drop 36 m = drop 36 (mem r)"
  proof -
    have "drop 2 m = drop 2 ?m2" using wrn_drop [OF w] by (simp add: numeral_2_eq_2)
    then have "drop 34 (drop 2 m) = drop 34 (drop 2 ?m2)" by (rule arg_cong)
    then have "drop 36 m = drop 36 ?m2" by (simp only: drop_drop) simp
    then show ?thesis using h by simp
  qed
  ultimately show ?thesis using that [of m 0 36] True h by simp
qed

definition eff_size :: "byte \<Rightarrow> u32 \<Rightarrow> u32" where
  "eff_size t fLen = (if fLen = 0 then getDefaultSize t else fLen)"

lemma addField_described:
  assumes r: "described r fs" and n: "named_field (name, t, eff_size t fLen)"
    and room: "36 + length (encs fs) + length (enc_field (name, t, eff_size t fLen)) \<le> length (mem r)"
      "36 + length (encs fs) + length (enc_field (name, t, eff_size t fLen)) < 2 ^ 16"
  obtains r' where "addField r name t fLen = Some r'" "described r' (fs @ [(name, t, eff_size t fLen)])"
    "length (mem r') = length (mem r)"
proof -
  let ?sz = "eff_size t fLen" let ?f = "(name, t, ?sz)" let ?e = "enc_field ?f"
  obtain m S off where ff: "first_field r = Some (r\<lparr>mem := m\<rparr>)" "length m = length (mem r)"
    "ld 4 m 6 = Some S" "ld 2 m 26 = Some (off :: u16)" "S = sum_list (map (snd \<circ> snd) fs)"
    "unat off = 36 + length (encs fs)" "rd m 0 = Some 0" "rd m 1 = Some 36"
    "take (length (encs fs)) (drop 36 m) = encs fs" "36 + length (encs fs) \<le> length m"
    "drop 36 m = drop 36 (mem r)"
    by (rule first_field_ok [OF r]) (rule that)
  let ?r = "r\<lparr>mem := m\<rparr>"
  have lr: "live r" "hdr_ok r" "rd (mem r) 0 = Some 0" "fieldMap r = fold_fields 0 fs []"
    using r by (simp_all add: described_def)
  obtain m' where w: "write_field ?r name t ?sz =
      Some (?r\<lparr>mem := m', fieldMap := map_set name \<lparr>ftype = t, fsize = ?sz, foffset = S\<rparr> (fieldMap ?r)\<rparr>)"
    "length m' = length m" "ld 4 m' 6 = Some (S + ?sz)" "ld 2 m' 26 = Some (off + of_nat (length ?e))"
    "\<And>k. k < 2 \<Longrightarrow> rd m' k = rd m k"
    "drop 36 m' = take (unat off - 36) (drop 36 m) @ ?e @ drop (unat off + length ?e) m"
  proof (rule write_field_ok [of ?r S off name t ?sz])
    show "live ?r" "hdr_ok ?r" "getRSize ?r = Some S" "getOffset ?r = Some off" "36 \<le> unat off"
      "named_field (name, t, ?sz)" "unat off + length (enc_field (name, t, ?sz)) \<le> length (mem ?r)"
      using lr ff n room by (simp_all add: hdr_ok_def hdr_defs)
  qed (rule that, simp_all)
  let ?r' = "r\<lparr>mem := m', fieldMap := map_set name \<lparr>ftype = t, fsize = ?sz, foffset = S\<rparr> (fieldMap r)\<rparr>"
  have "addField r name t fLen = Some ?r'"
    using n ff(1) w(1) lr has_status_0 [of r]
    by (auto simp: addField_def named_field_def eff_size_def Let_def split: if_splits)
  moreover have "off = of_nat (36 + length (encs fs))"
    using ff(6) by (metis of_nat_unat ucast_id)
  then have "off + of_nat (length ?e) = of_nat (36 + length (encs (fs @ [?f])))" by simp
  then have "described ?r' (fs @ [?f])"
    using lr w ff room unfolding described_def
    by (simp add: hdr_ok_def hdr_defs fold_fields_snoc)
  ultimately show ?thesis using that w(2) ff(2) by simp
qed

text \<open>Adding fields one after the other, and setting the area ready.\<close>

definition add_fields :: "relAccX \<Rightarrow> (bytes \<times> byte \<times> u32) list \<Rightarrow> relAccX option" where
  "add_fields r fs = fold_opt (\<lambda>r (name, t, len). addField r name t len) r fs"

definition eff :: "bytes \<times> byte \<times> u32 \<Rightarrow> bytes \<times> byte \<times> u32" where
  "eff f = (fst f, fst (snd f), eff_size (fst (snd f)) (snd (snd f)))"

lemma add_fields_described:
  assumes "described r gs" "list_all (named_field \<circ> eff) fs"
    "36 + length (encs gs) + length (encs (map eff fs)) \<le> length (mem r)"
    "36 + length (encs gs) + length (encs (map eff fs)) < 2 ^ 16"
  shows "\<exists>r'. add_fields r fs = Some r' \<and> described r' (gs @ map eff fs)"
  using assms
proof (induction fs arbitrary: r gs)
  case (Cons f fs)
  obtain name t len where f: "f = (name, t, len)" by (cases f)
  let ?e = "eff f"
  have e: "?e = (name, t, eff_size t len)" by (simp add: f eff_def)
  obtain r1 where r1: "addField r name t len = Some r1" "described r1 (gs @ [?e])"
    "length (mem r1) = length (mem r)"
    using addField_described [OF Cons.prems(1), of name t len] Cons.prems(2-4) e by auto
  have "\<exists>r'. add_fields r1 fs = Some r' \<and> described r' ((gs @ [?e]) @ map eff fs)"
    using Cons.prems(2-4) r1(3) by (intro Cons.IH r1(2)) auto
  then show ?case using r1(1) f by (simp add: add_fields_def)
qed (simp add: add_fields_def)

lemma encs_length: "list_all named_field fs \<Longrightarrow> length fs \<le> length (encs fs)"
proof (induction fs)
  case (Cons f fs)
  then show ?case using enc_field_pos [of f] by simp
qed simp

lemma ready_described:
  assumes r: "described r fs" "fs \<noteq> []" "list_all named_field fs" "0 < length (encs fs)"
  obtains m where "setReady r = Some (r\<lparr>mem := m\<rparr>)" "RelAccX_open m = Some (r\<lparr>mem := m\<rparr>)"
    "getRSize (r\<lparr>mem := m\<rparr>) = Some (sum_list (map (snd \<circ> snd) fs))"
proof -
  have h: "live r" "backed r" "36 \<le> length (mem r)" "rd (mem r) 0 = Some 0"
    "fieldMap r = fold_fields 0 fs []" "rd (mem r) 1 = Some 36"
    "getOffset r = Some (of_nat (36 + length (encs fs)))" "getRSize r = Some (sum_list (map (snd \<circ> snd) fs))"
    "take (length (encs fs)) (drop 36 (mem r)) = encs fs" "36 + length (encs fs) < 2 ^ 16"
    using r(1,2) by (simp_all add: described_def hdr_ok_def)
  obtain m where w: "wrn (mem r) 0 [1] = Some m" using h(3) by (simp add: wrn_def)
  have l: "length m = length (mem r)" by (rule wrn_length [OF w])
  have sr: "setReady r = Some (r\<lparr>mem := m\<rparr>)"
    using h w has_status_0 [of r] by (simp add: setReady_def set_status_def)
  have rdm: "rd m 0 = Some 1" "rd m 1 = Some 36"
    using rd_wrn_other [OF w, of 1] h(6) rd_wrn_one [OF w] by simp_all
  have ldm: "ld 2 m 26 = Some (of_nat (36 + length (encs fs)) :: u16)"
    "ld 4 m 6 = Some (sum_list (map (snd \<circ> snd) fs))"
    using h(7,8) by (simp_all add: ld_wrn_other [OF w] hdr_defs)
  have "drop 1 m = drop 1 (mem r)" using wrn_drop [OF w] by simp
  then have "drop 35 (drop 1 m) = drop 35 (drop 1 (mem r))" by (rule arg_cong)
  then have "drop 36 m = drop 36 (mem r)" by (simp only: drop_drop) simp
  then have "m = take 36 m @ encs fs @ drop (length (encs fs)) (drop 36 (mem r))"
    using h(9) by (metis append_take_drop_id)
  moreover have lt: "length (take 36 m) = 36" using h(3) l by simp
  moreover have "length fs \<le> length (encs fs)"
    by (rule encs_length) (rule r(3))
  ultimately have "parse_fields 65537 m (of_nat (length (take 36 m) + length (encs fs)))
      (of_nat (length (take 36 m))) 0 [] = Some (fold_fields 0 fs [])"
    using h(10) by (intro parse_encs [OF r(3)]) auto
  then have p: "parse_fields 65537 m (of_nat (36 + length (encs fs))) 36 0 [] = Some (fold_fields 0 fs [])"
    unfolding lt by simp
  have "(36 :: u16) < of_nat (36 + length (encs fs))"
    using u16_less [of 36 "36 + length (encs fs)"] h(10) r(4) by simp
  then have "RelAccX_open m = Some \<lparr>live = True, backed = True, mem = m, fieldMap = fold_fields 0 fs []\<rparr>"
    using rdm ldm p
    by (simp add: RelAccX_open_def isReady_def hdr_defs Let_def not_le del: of_nat_add parse_fields.simps)
  also have "\<dots> = Some (r\<lparr>mem := m\<rparr>)" using h(1,2,5) by simp
  finally show ?thesis using that [of m] sr ldm by (simp add: hdr_defs)
qed

section \<open>Properties\<close>

text \<open>C13: what a writer describes with \<open>addField\<close> is what a reader finds: when the fields have
  been added to an area without status and the area is set ready, opening the area gives the same
  structure again, with every field at the sum of the sizes before it and records as long as all
  sizes together. A size of 0 stands for the default size of the type.\<close>

theorem writer_reader_agree:
  assumes "described r []" "fs \<noteq> []" "list_all (named_field \<circ> eff) fs"
    "36 + length (encs (map eff fs)) \<le> length (mem r)" "36 + length (encs (map eff fs)) < 2 ^ 16"
  shows "\<exists>w m. add_fields r fs = Some w \<and> setReady w = Some (w\<lparr>mem := m\<rparr>) \<and>
    RelAccX_open m = Some (w\<lparr>mem := m\<rparr>) \<and> fieldMap w = fold_fields 0 (map eff fs) [] \<and>
    getRSize (w\<lparr>mem := m\<rparr>) = Some (sum_list (map (snd \<circ> snd) (map eff fs)))"
proof -
  obtain w where w: "add_fields r fs = Some w" "described w (map eff fs)"
    using add_fields_described [OF assms(1,3)] assms(4,5) by auto
  have n: "list_all named_field (map eff fs)" using assms(3) by (simp add: list_all_iff)
  have "0 < length (map eff fs)" using assms(2) by simp
  then have "0 < length (encs (map eff fs))" using encs_length [OF n] by (rule order.strict_trans2)
  then show ?thesis
    using ready_described [OF w(2) _ n] w assms(2) unfolding described_def by (metis map_is_Nil_conv)
qed

definition blank :: relAccX where
  "blank = \<lparr>live = True, backed = True, mem = replicate 128 0, fieldMap = []\<rparr>"

lemma blank_described: "described blank []"
  by (simp add: described_def blank_def hdr_ok_def rd_def)

definition sample_fields :: "(bytes \<times> byte \<times> u32) list" where
  "sample_fields = [(str ''pid'', 0x13, 0), (str ''name'', 0x30, 100), (str ''n'', 0x10, 0)]"

theorem writer_reader_agree_witness:
  "\<exists>w m. add_fields blank sample_fields = Some w \<and> setReady w = Some (w\<lparr>mem := m\<rparr>) \<and>
    RelAccX_open m = Some (w\<lparr>mem := m\<rparr>) \<and> fieldMap w = fold_fields 0 (map eff sample_fields) [] \<and>
    getRSize (w\<lparr>mem := m\<rparr>) = Some (sum_list (map (snd \<circ> snd) (map eff sample_fields)))"
proof -
  have "length (encs (map eff sample_fields)) = 15" by code_simp
  moreover have "list_all (named_field \<circ> eff) sample_fields" by code_simp
  moreover have "sample_fields \<noteq> []" by (simp add: sample_fields_def)
  ultimately show ?thesis
    using writer_reader_agree [OF blank_described, of sample_fields] by (simp add: blank_def)
qed

text \<open>C21: within its capacity the ring buffer keeps its order: adding makes exactly the next records
  available, deleting takes exactly the oldest away, and neither touches the fields' descriptions or
  the records.\<close>

theorem ring_steps:
  assumes "ring r d e c n" "unat e + unat a < 2 ^ 64"
  shows "(unat n + unat a \<le> unat c \<longrightarrow>
      (\<exists>m. addRecords r a = Some (r\<lparr>mem := m\<rparr>) \<and> ring (r\<lparr>mem := m\<rparr>) d (e + ucast a) c (n + a) \<and>
        drop 36 m = drop 36 (mem r) \<and>
        (\<forall>k. isRecordAvailable (r\<lparr>mem := m\<rparr>) k = Some (d \<le> k \<and> k < e + ucast a)))) \<and>
    (unat a \<le> unat n \<longrightarrow>
      (\<exists>m. deleteRecords r a = Some (Goes_on (r\<lparr>mem := m\<rparr>)) \<and>
        ring (r\<lparr>mem := m\<rparr>) (d + ucast a) e c (n - a) \<and> drop 36 m = drop 36 (mem r) \<and>
        (\<forall>k. isRecordAvailable (r\<lparr>mem := m\<rparr>) k = Some (d + ucast a \<le> k \<and> k < e))))"
proof (intro conjI impI)
  assume "unat n + unat a \<le> unat c"
  then show "\<exists>m. addRecords r a = Some (r\<lparr>mem := m\<rparr>) \<and> ring (r\<lparr>mem := m\<rparr>) d (e + ucast a) c (n + a) \<and>
      drop 36 m = drop 36 (mem r) \<and>
      (\<forall>k. isRecordAvailable (r\<lparr>mem := m\<rparr>) k = Some (d \<le> k \<and> k < e + ucast a))"
    by (elim addRecords_add [OF assms(1) _ assms(2)]) (intro exI conjI allI, (assumption | erule ring_available)+)
next
  have "10 + 4 \<le> length (mem r)" using assms(1) by (simp add: ring_def hdr_ok_def)
  then obtain s where st: "getStartPos r = Some s" using ld_ok [of 10 4 "mem r"] by (auto simp: getStartPos_def)
  assume le: "unat a \<le> unat n"
  show "\<exists>m. deleteRecords r a = Some (Goes_on (r\<lparr>mem := m\<rparr>)) \<and>
      ring (r\<lparr>mem := m\<rparr>) (d + ucast a) e c (n - a) \<and> drop 36 m = drop 36 (mem r) \<and>
      (\<forall>k. isRecordAvailable (r\<lparr>mem := m\<rparr>) k = Some (d + ucast a \<le> k \<and> k < e))"
    by (rule deleteRecords_del [OF assms(1) le st]) (intro exI conjI allI, (assumption | erule ring_available)+)
qed

text \<open>A ring of four records with one in it, written by the operations of the model.\<close>

definition sample_ring :: relAccX where
  "sample_ring = blank\<lparr>mem := stored 8 (stored 4 (stored 4 (mem blank) 2 (4 :: u32)) 22 (1 :: u32)) 28 (1 :: u64)\<rparr>"

lemma sample_ring: "ring sample_ring 0 1 4 1"
proof -
  have "ld 8 (mem blank) 14 = Some (0 :: u64)" by code_simp
  then show ?thesis
    by (simp add: sample_ring_def ring_def hdr_defs hdr_ok_def blank_def)
qed

theorem ring_steps_witness:
  "(\<exists>m. addRecords sample_ring 2 = Some (sample_ring\<lparr>mem := m\<rparr>) \<and>
     ring (sample_ring\<lparr>mem := m\<rparr>) 0 3 4 3) \<and>
   (\<exists>m. deleteRecords sample_ring 1 = Some (Goes_on (sample_ring\<lparr>mem := m\<rparr>)) \<and>
     ring (sample_ring\<lparr>mem := m\<rparr>) 1 1 4 0)"
  using ring_steps [OF sample_ring, of 2] ring_steps [OF sample_ring, of 1] by auto

text \<open>C24: fields of two different records that are available at the same time never share a byte, as
  long as the fields lie within the record and the records within the address space.\<close>

theorem available_records_apart:
  assumes "ring r d e c n" "getOffset r = Some off" "getRSize r = Some sz" "unat c * unat sz < 2 ^ 64"
    "unat (foffset fd) + unat (fsize fd) \<le> unat sz" "unat (foffset fd') + unat (fsize fd') \<le> unat sz"
    "isRecordAvailable r i = Some True" "isRecordAvailable r j = Some True" "i \<noteq> j"
  shows "field_span r fd i \<inter> field_span r fd' j = {}"
  using available_apart [OF assms(1-6)] assms(7-9) ring_available [OF assms(1)] by auto

definition two_records :: relAccX where
  "two_records = sample_ring\<lparr>mem := stored 2 (stored 4 (stored 8 (mem sample_ring) 28 (2 :: u64)) 6 (8 :: u32)) 26 (36 :: u16)\<rparr>"

theorem available_records_apart_witness:
  "field_span (two_records\<lparr>mem := stored 4 (mem two_records) 22 (2 :: u32)\<rparr>) \<lparr>ftype = 0x17, fsize = 8, foffset = 0\<rparr> 0 \<inter>
   field_span (two_records\<lparr>mem := stored 4 (mem two_records) 22 (2 :: u32)\<rparr>) \<lparr>ftype = 0x17, fsize = 8, foffset = 0\<rparr> 1 = {}"
proof -
  let ?r = "two_records\<lparr>mem := stored 4 (mem two_records) 22 (2 :: u32)\<rparr>"
  have s: "ld 8 (mem sample_ring) 14 = Some (0 :: u64)" "ld 4 (mem sample_ring) 2 = Some (4 :: u32)"
    "backed sample_ring" "36 \<le> length (mem sample_ring)"
    using sample_ring by (simp_all add: ring_def hdr_defs hdr_ok_def)
  then have r: "ring ?r 0 2 4 2" "getOffset ?r = Some 36" "getRSize ?r = Some 8"
    by (simp_all add: two_records_def ring_def hdr_defs hdr_ok_def)
  show ?thesis
    using available_records_apart [OF r] ring_available [OF r(1)] by simp
qed

text \<open>An integer field reads what was last written to it, cut to its size and extended by its
  sign, and a write to it leaves every integer field with other bytes, the ring and the structure as
  they were.\<close>

theorem setInt_getInt:
  assumes "placed r" "int_field fd" "setInt_fd r fd v k = Some r'" "record_pointer r fd k = Some i"
  shows "getInt_fd r' fd k = Some (kept fd v) \<and> placed r' \<and> (ring r' d e c n \<longleftrightarrow> ring r d e c n) \<and>
    (int_field fd' \<and> field_span r fd k \<inter> field_span r fd' k' = {} \<longrightarrow>
       getInt_fd r' fd' k' = getInt_fd r fd' k')"
  using setInt_all [OF assms] by blast

definition fd64 :: fieldData where "fd64 = \<lparr>ftype = 0x17, fsize = 8, foffset = 0\<rparr>"
definition fd24 :: fieldData where "fd24 = \<lparr>ftype = 0x22, fsize = 3, foffset = 1\<rparr>"
definition fdstr :: fieldData where "fdstr = \<lparr>ftype = 0x30, fsize = 5, foffset = 2\<rparr>"

lemma two_records:
  "placed two_records" "length (mem two_records) = 128"
  "record_pointer two_records fd k = Some (36 + (unat k mod 4) * 8 + unat (foffset fd))"
proof -
  have l: "length (mem sample_ring) = 128" by (simp add: sample_ring_def blank_def)
  have s: "ld 4 (mem sample_ring) 2 = Some (4 :: u32)" "backed sample_ring" "live sample_ring"
    using sample_ring by (simp_all add: ring_def hdr_defs hdr_ok_def sample_ring_def blank_def)
  show "placed two_records" "length (mem two_records) = 128"
    using s l by (simp_all add: two_records_def placed_def hdr_ok_def hdr_defs)
  have "getOffset two_records = Some 36" "getRCount two_records = Some 4" "getRSize two_records = Some 8"
    using s l by (simp_all add: two_records_def hdr_defs)
  then show "record_pointer two_records fd k = Some (36 + (unat k mod 4) * 8 + unat (foffset fd))"
    using record_pointer_eq [of two_records 36 4 8 fd k] by simp
qed

theorem setInt_getInt_witness:
  "\<exists>r'. setInt_fd two_records fd64 5 1 = Some r' \<and> getInt_fd r' fd64 1 = Some 5"
proof -
  have p: "record_pointer two_records fd64 1 = Some 44" by (simp add: two_records fd64_def)
  have f: "int_field fd64" by (simp add: int_field_def fd64_def)
  obtain m where "setInt_fd two_records fd64 5 1 = Some (two_records\<lparr>mem := m\<rparr>)"
    using setInt_ok [OF two_records(1) f p, of 5] two_records(2) by (auto simp: fd64_def)
  moreover have "kept fd64 5 = 5" by (simp add: kept_def kept_uint_def fd64_def)
  ultimately show ?thesis using setInt_getInt [OF two_records(1) f _ p] by metis
qed

text \<open>A signed field of 24 bits loses its sign: -1 is read back as 16777215.\<close>

theorem signed24_unsigned:
  "\<exists>r'. setInt_fd two_records fd24 (- 1) 0 = Some r' \<and> getInt_fd r' fd24 0 = Some 0xFFFFFF"
proof -
  have p: "record_pointer two_records fd24 0 = Some 37" by (simp add: two_records fd24_def)
  have f: "int_field fd24" by (simp add: int_field_def fd24_def)
  obtain m where "setInt_fd two_records fd24 (- 1) 0 = Some (two_records\<lparr>mem := m\<rparr>)"
    using setInt_ok [OF two_records(1) f p, of "- 1"] two_records(2) by (auto simp: fd24_def)
  moreover have "kept fd24 (- 1) = 0xFFFFFF"
    by (simp add: kept_def kept_int_def fd24_def take_bit_minus_one_eq_mask mask_eq_exp_minus_1)
  ultimately show ?thesis using setInt_all(1) [OF two_records(1) f _ p] by metis
qed

text \<open>A string field reads the string that was written, cut to one byte less than the field; it
  always ends within the field.\<close>

theorem setString_getString:
  assumes "placed r" "ftype fd AND 0xF0 = RAX_STRING" "fsize fd \<noteq> 0" "length val < 2 ^ 32"
    "0 \<notin> set val" "setString_fd r fd val k = Some r'"
  shows "acc_string r' fd k = Some (take (unat (fsize fd) - 1) val) \<and> placed r' \<and>
    (ring r' d e c n \<longleftrightarrow> ring r d e c n)"
  using setString_reads [OF assms] by blast

theorem setString_getString_witness:
  "\<exists>r'. setString_fd two_records fdstr (str ''stream'') 2 = Some r' \<and>
     acc_string r' fdstr 2 = Some (str ''stre'')"
proof -
  have p: "record_pointer two_records fdstr 2 = Some 54" by (simp add: two_records fdstr_def)
  have "\<exists>r'. setString_fd two_records fdstr (str ''stream'') 2 = Some r'"
    using two_records(1,2) p
    by (simp add: setString_fd_def fdstr_def Let_def placed_def wrn_def min_def)
  then obtain r' where "setString_fd two_records fdstr (str ''stream'') 2 = Some r'" by blast
  moreover have "take 4 (str ''stream'') = str ''stre''" "0 \<notin> set (str ''stream'')"
    by (simp_all add: byte_simps)
  ultimately show ?thesis
    using setString_getString [OF two_records(1), of fdstr "str ''stream''" 2 r']
    by (simp add: fdstr_def)
qed

text \<open>Adding more records than there is room for is only reported: the end still moves, the
  number of records that are present becomes 0, and more records count as available than exist.\<close>

theorem addRecords_overfull:
  assumes "ring r d e c n" "unat c < unat n + unat a" "unat e + unat a < 2 ^ 64"
  shows "\<exists>m. addRecords r a = Some (r\<lparr>mem := m\<rparr>) \<and> getPresent (r\<lparr>mem := m\<rparr>) = Some 0 \<and>
    (\<forall>k. isRecordAvailable (r\<lparr>mem := m\<rparr>) k = Some (d \<le> k \<and> k < e + ucast a))"
proof -
  obtain m where m: "addRecords r a = Some (r\<lparr>mem := m\<rparr>)" "getPresent (r\<lparr>mem := m\<rparr>) = Some 0"
    "getEndPos (r\<lparr>mem := m\<rparr>) = Some (e + ucast a)" "getDeleted (r\<lparr>mem := m\<rparr>) = Some d"
    by (rule addRecords_full [OF assms])
  then have "isRecordAvailable (r\<lparr>mem := m\<rparr>) k = Some (d \<le> k \<and> k < e + ucast a)" for k
    by (auto simp: isRecordAvailable_def)
  then show ?thesis using m(1,2) by blast
qed

theorem addRecords_overfull_witness:
  "\<exists>m. addRecords sample_ring 9 = Some (sample_ring\<lparr>mem := m\<rparr>) \<and>
     isRecordAvailable (sample_ring\<lparr>mem := m\<rparr>) 7 = Some True"
  using addRecords_overfull [OF sample_ring, of 9] by auto

end
