(* ===== verification/JsonText.thy ===== *)
theory JsonText
  imports Json
begin

text \<open>
  The text form of JSON values (\<open>lib/json.cpp\<close>): escaping and reading strings, printing
  (\<open>toString\<close>) and parsing (\<open>fromString\<close>). The bytes from a pointer on are a list, and offsets
  into them count the bytes that were read. The arithmetic on doubles in the parser is a
  parameter, and so is how the stream library prints a double. A signed overflow is \<open>None\<close>.
\<close>

section \<open>Characters\<close>

definition c2hex :: "byte \<Rightarrow> byte" where
  "c2hex c =
     (if 0x30 \<le> c \<and> c \<le> 0x39 then c - 0x30
      else if 0x61 \<le> c \<and> c \<le> 0x66 then c - 0x61 + 10
      else if 0x41 \<le> c \<and> c \<le> 0x46 then c - 0x41 + 10
      else 0)"

definition hex2c :: "byte \<Rightarrow> byte" where
  "hex2c c = (if c < 10 then 0x30 + c else if c < 16 then 0x41 + (c - 10) else 0x30)"

definition UTF8 :: "u32 \<Rightarrow> bytes" where
  "UTF8 c =
     (if c \<le> 0x7F then [ucast c]
      else if c \<le> 0x7FF then
        [ucast (0xC0 OR drop_bit 6 c), ucast (0x80 OR (c AND 0x3F))]
      else if c \<le> 0xFFFF then
        [ucast (0xC0 OR drop_bit 12 c), ucast (0x80 OR (drop_bit 6 c AND 0x3F)),
         ucast (0x80 OR (c AND 0x3F))]
      else
        (let c = push_bit 10 (drop_bit 16 c AND 0x3FF) + (c AND 0xFFFF AND 0x3FF) + 0x10000
         in [ucast (0xF0 OR (drop_bit 18 c AND 0x07)), ucast (0x80 OR (drop_bit 12 c AND 0x3F)),
             ucast (0x80 OR (drop_bit 6 c AND 0x3F)), ucast (0x80 OR (c AND 0x3F))]))"

definition UTF16_unit :: "u32 \<Rightarrow> bytes" where
  "UTF16_unit c = [0x5C, 0x75, hex2c (ucast (drop_bit 12 c AND 0xF)), hex2c (ucast (drop_bit 8 c AND 0xF)),
     hex2c (ucast (drop_bit 4 c AND 0xF)), hex2c (ucast (c AND 0xF))]"

definition UTF16 :: "u32 \<Rightarrow> bytes" where
  "UTF16 c =
     (if c > 0xFFFF then
        (let c = c - 0x10000
         in UTF16_unit (0xD800 + (drop_bit 10 c AND 0x3FF)) @ UTF16_unit (0xDC00 + (c AND 0x3FF)))
      else UTF16_unit c)"

section \<open>Escaping\<close>

definition is_tail :: "byte \<Rightarrow> bool" where
  "is_tail c \<longleftrightarrow> c AND 0xC0 = 0x80"

text \<open>The UTF-8 sequence that starts with \<open>c\<close>, if there is one: its character, and how many bytes
  follow.\<close>

definition utf8_seq :: "byte \<Rightarrow> bytes \<Rightarrow> (u32 \<times> nat) option" where
  "utf8_seq c cs =
     (if c AND 0xC0 = 0xC0 then
        (if c AND 0xE0 = 0xC0 \<and> 1 \<le> length cs \<and> is_tail (cs ! 0)
         then Some (push_bit 6 (ucast c AND 0x1F) OR (ucast (cs ! 0) AND 0x3F), 1)
         else if c AND 0xF0 = 0xE0 \<and> 2 \<le> length cs \<and> is_tail (cs ! 0) \<and> is_tail (cs ! 1)
         then Some (push_bit 12 (ucast c AND 0x1F) OR push_bit 6 (ucast (cs ! 0) AND 0x3F) OR
                    (ucast (cs ! 1) AND 0x3F), 2)
         else if c AND 0xF8 = 0xF0 \<and> 3 \<le> length cs \<and> is_tail (cs ! 0) \<and> is_tail (cs ! 1) \<and> is_tail (cs ! 2)
         then Some (push_bit 18 (ucast c AND 0x1F) OR push_bit 12 (ucast (cs ! 0) AND 0x3F) OR
                    push_bit 6 (ucast (cs ! 1) AND 0x3F) OR (ucast (cs ! 2) AND 0x3F), 3)
         else None)
      else None)"

fun escape_loop :: "bool \<Rightarrow> bytes \<Rightarrow> bytes" where
  "escape_loop isRaw [] = []"
| "escape_loop isRaw (c # cs) =
     (if c = 0x22 then [0x5C, 0x22] @ escape_loop isRaw cs
      else if c = 0x5C then [0x5C, 0x5C] @ escape_loop isRaw cs
      else if c = 0x0A then [0x5C, 0x6E] @ escape_loop isRaw cs
      else if c = 0x08 then [0x5C, 0x62] @ escape_loop isRaw cs
      else if c = 0x0C then [0x5C, 0x66] @ escape_loop isRaw cs
      else if c = 0x0D then [0x5C, 0x72] @ escape_loop isRaw cs
      else if c = 0x09 then [0x5C, 0x74] @ escape_loop isRaw cs
      else if c < 32 \<or> c > 126 then
        (case if isRaw then None else utf8_seq c cs of
           Some (u, n) \<Rightarrow> UTF16 u @ escape_loop isRaw (drop n cs)
         | None \<Rightarrow> [0x5C, 0x75, 0x30, 0x30, hex2c (drop_bit 4 c AND 0xF), hex2c (c AND 0xF)]
                   @ escape_loop isRaw cs)
      else c # escape_loop isRaw cs)"

definition string_escape :: "bytes \<Rightarrow> bool \<Rightarrow> bytes" where
  "string_escape val isRaw = 0x22 # escape_loop isRaw val @ [0x22]"

section \<open>Reading strings\<close>

text \<open>The characters of the escapes that stand for one byte.\<close>

definition unescaped :: "byte \<Rightarrow> byte" where
  "unescaped c =
     (if c = 0x62 then 0x08 else if c = 0x5C then 0x5C else if c = 0x66 then 0x0C
      else if c = 0x6E then 0x0A else if c = 0x72 then 0x0D else if c = 0x74 then 0x09 else c)"

definition tmpChar :: "bytes \<Rightarrow> u32" where
  "tmpChar cs = ucast (c2hex (cs ! 3)) + push_bit 4 (ucast (c2hex (cs ! 2))) +
     push_bit 8 (ucast (c2hex (cs ! 1))) + push_bit 12 (ucast (c2hex (cs ! 0)))"

text \<open>A character that waits for the second half of its pair.\<close>

definition pending :: "u32 \<Rightarrow> bytes" where
  "pending fullChar = (if fullChar \<noteq> 0 then UTF8 (drop_bit 16 fullChar) else [])"

text \<open>What \<open>\u\<close> adds to the string, and the character that then waits.\<close>

definition add_unit :: "u32 \<Rightarrow> u32 \<Rightarrow> bytes \<times> u32" where
  "add_unit fullChar t =
     (let (out, fullChar) =
            (if fullChar \<noteq> 0 \<and> (t < 0xDC00 \<or> t > 0xDFFF) then (pending fullChar, 0) else ([], fullChar));
          fullChar = fullChar OR t
      in if fullChar \<ge> 0xD800 \<and> fullChar \<le> 0xDBFF then (out, push_bit 16 fullChar)
         else (out @ UTF8 fullChar, 0))"

text \<open>The loop: the bytes from \<open>offset\<close> on, the offset, and the loop's variables.\<close>

fun read_loop :: "byte \<Rightarrow> bytes \<Rightarrow> nat \<Rightarrow> bool \<Rightarrow> u32 \<Rightarrow> bytes \<Rightarrow> nat \<times> bytes" where
  "read_loop separator [] offset escaped fullChar out = (offset, out @ pending fullChar)"
| "read_loop separator (c # cs) offset escaped fullChar out =
     (if \<not> escaped \<and> c = 0x5C then read_loop separator cs (offset + 1) True fullChar out
      else if escaped then
        (let (out, fullChar) =
               (if fullChar \<noteq> 0 \<and> c \<noteq> 0x75 then (out @ pending fullChar, 0) else (out, fullChar))
         in if c = 0x78 then
              (if length cs < 2 then (offset + length (c # cs), out @ pending fullChar)
               else if cs ! 0 = separator then (offset + 2, out @ pending fullChar)
               else if cs ! 1 = separator then (offset + 3, out @ pending fullChar)
               else read_loop separator (drop 2 cs) (offset + 3) False fullChar
                      (out @ [c2hex (cs ! 1) + push_bit 4 (c2hex (cs ! 0))]))
            else if c = 0x75 then
              (if length cs < 4 then (offset + length (c # cs), out @ pending fullChar)
               else if cs ! 0 = separator then (offset + 2, out @ pending fullChar)
               else if cs ! 1 = separator then (offset + 3, out @ pending fullChar)
               else if cs ! 2 = separator then (offset + 4, out @ pending fullChar)
               else if cs ! 3 = separator then (offset + 5, out @ pending fullChar)
               else
                 (let (more, fullChar) = add_unit fullChar (tmpChar cs)
                  in read_loop separator (drop 4 cs) (offset + 5) False fullChar (out @ more)))
            else read_loop separator cs (offset + 1) False fullChar (out @ [unescaped c]))
      else
        (let out = out @ pending fullChar
         in if c = separator then (offset + 1, out)
            else read_loop separator cs (offset + 1) False 0 (out @ [c])))"

definition read_string :: "bytes \<Rightarrow> nat \<times> bytes" where
  "read_string s = (case s of [] \<Rightarrow> (0, []) | separator # cs \<Rightarrow> read_loop separator cs 1 False 0 [])"

section \<open>Escaped strings are read back\<close>

lemma hex2c_simps: "unat d < 16 \<Longrightarrow> c2hex (hex2c d) = d" 
  and hex2c_not_quote: "unat d < 16 \<Longrightarrow> hex2c d \<noteq> 0x22"
  by (drule nibble_cases, elim insertE emptyE; simp add: c2hex_def hex2c_def)+

lemma nibbles_sum: "take_bit 4 x + push_bit 4 (take_bit 4 (drop_bit 4 x)) +
     push_bit 8 (take_bit 4 (drop_bit 8 x)) + push_bit 12 (take_bit 4 (drop_bit 12 x)) = take_bit 16 (x :: u32)"
  using take_bit_split [of 4 x 4] take_bit_split [of 8 x 4] take_bit_split [of 12 x 4]  by simp

lemma nibble_byte:
  "ucast (c2hex (hex2c (ucast (take_bit 4 (x :: u32))))) = take_bit 4 x"
  "hex2c (ucast (take_bit 4 x)) \<noteq> 0x22"
proof -
  have e: "ucast (take_bit 4 x) = take_bit 4 (ucast x :: byte)"
    by (rule bit_word_eqI) (auto simp: bit_simps)
  then have l: "unat (ucast (take_bit 4 x) :: byte) < 16" 
   using take_bit_nat_less_exp [of 4 "unat (ucast x :: byte)"] by (simp add: unsigned_take_bit_eq)
  show "hex2c (ucast (take_bit 4 x)) \<noteq> 0x22" by (rule hex2c_not_quote [OF l])
  have "ucast (take_bit 4 (ucast x :: byte)) = take_bit 4 (x :: u32)"
    by (rule bit_word_eqI) (auto simp: bit_simps)
  then show "ucast (c2hex (hex2c (ucast (take_bit 4 x)))) = take_bit 4 x"
    unfolding hex2c_simps [OF l] by (simp only: e)
qed

lemma read_u:
  "d1 \<noteq> sep \<Longrightarrow> d2 \<noteq> sep \<Longrightarrow> d3 \<noteq> sep \<Longrightarrow> d4 \<noteq> sep \<Longrightarrow>
   read_loop sep (0x5C # 0x75 # d1 # d2 # d3 # d4 # s) n False fullChar out =
    (let (more, f) = add_unit fullChar (tmpChar (d1 # d2 # d3 # d4 # s))
     in read_loop sep s (n + 6) False f (out @ more))"
  by (simp add: Let_def case_prod_unfold) (simp add: add.commute)

declare read_loop.simps [simp del]

lemma read_unit:
  assumes "c < 2 ^ 16"
  shows "read_loop 0x22 (UTF16_unit c @ s) n False fullChar out =
    (let (more, f) = add_unit fullChar c in read_loop 0x22 s (n + 6) False f (out @ more))"
proof -
  have "tmpChar (hex2c (ucast (take_bit 4 (drop_bit 12 c))) # hex2c (ucast (take_bit 4 (drop_bit 8 c))) #
     hex2c (ucast (take_bit 4 (drop_bit 4 c))) # hex2c (ucast (take_bit 4 c)) # s) = c"
    using nibbles_sum [of c] take_bit_lt [OF assms] by (simp add: tmpChar_def nibble_byte)
  then show ?thesis
    unfolding UTF16_unit_def and_masks append_Cons append_Nil
    by (subst read_u) (simp_all add: nibble_byte)
qed

text \<open>The UTF-8 form of a character.\<close>

definition utf8 :: "u32 \<Rightarrow> bytes" where
  "utf8 u =
     (if u < 0x80 then [ucast u]
      else if u < 0x800 then [ucast (0xC0 OR drop_bit 6 u), ucast (0x80 OR take_bit 6 u)]
      else if u < 0x10000 then
        [ucast (0xE0 OR drop_bit 12 u), ucast (0x80 OR take_bit 6 (drop_bit 6 u)), ucast (0x80 OR take_bit 6 u)]
      else [ucast (0xF0 OR drop_bit 18 u), ucast (0x80 OR take_bit 6 (drop_bit 12 u)),
            ucast (0x80 OR take_bit 6 (drop_bit 6 u)), ucast (0x80 OR take_bit 6 u)])"

lemma is_tail_tail: "is_tail (ucast (0x80 OR take_bit 6 (u :: u32)))"
  unfolding is_tail_def by (rule byte_bits_eqI; simp add: bit_simps)

lemma bit_lead:
  "bit (0x80 :: int) n \<longleftrightarrow> n = 7" "bit (0xC0 :: int) n \<longleftrightarrow> n = 6 \<or> n = 7"
  "bit (0xE0 :: int) n \<longleftrightarrow> n = 5 \<or> n = 6 \<or> n = 7"
  "bit (0xF0 :: int) n \<longleftrightarrow> n = 4 \<or> n = 5 \<or> n = 6 \<or> n = 7" "bit (0x10 :: int) n \<longleftrightarrow> n = 4"
proof -
  have c: "(0x80 :: int) = push_bit 7 (mask 1)" "(0xC0 :: int) = push_bit 6 (mask 2)"
    "(0xE0 :: int) = push_bit 5 (mask 3)" "(0xF0 :: int) = push_bit 4 (mask 4)"
    "(0x10 :: int) = push_bit 4 (mask 1)"
    by (simp_all add: mask_eq_exp_minus_1)
  show "bit (0x80 :: int) n \<longleftrightarrow> n = 7" "bit (0xC0 :: int) n \<longleftrightarrow> n = 6 \<or> n = 7"
    "bit (0xE0 :: int) n \<longleftrightarrow> n = 5 \<or> n = 6 \<or> n = 7"
    "bit (0xF0 :: int) n \<longleftrightarrow> n = 4 \<or> n = 5 \<or> n = 6 \<or> n = 7" "bit (0x10 :: int) n \<longleftrightarrow> n = 4"
    unfolding c bit_push_bit_iff bit_mask_iff by (auto simp: possible_bit_def)
qed

lemma bit_lt: "x < 2 ^ n \<Longrightarrow> bit (x :: 'a::len word) k \<Longrightarrow> k < n"
  using not_bit_lt not_le by blast

lemma tail_bits: "take_bit 6 (ucast (ucast (0x80 OR take_bit 6 (u :: u32)) :: byte)) = (take_bit 6 u :: u32)"
  by (rule bit_word_eqI) (auto simp: bit_simps bit_lead)

lemma utf8_seq_2:
  assumes "u < 0x800"
  shows "utf8_seq (ucast (0xC0 OR drop_bit 6 u)) (ucast (0x80 OR take_bit 6 u) # s) = Some (u, 1)"
proof -
  have u: "u < 2 ^ 11" using assms by simp
  note b = not_bit_lt [OF u, of 11] not_bit_lt [OF u, of 12] not_bit_lt [OF u, of 13]
  let ?c = "ucast (0xC0 OR drop_bit 6 u) :: byte"
  have "?c AND 0xC0 = 0xC0" "?c AND 0xE0 = 0xC0"
    using b by (intro byte_bits_eqI; simp add: bit_simps)+
  moreover have "push_bit 6 (take_bit 5 (ucast ?c)) OR take_bit 6 u = u"
    by (rule bit_word_eqI) (auto simp: bit_simps bit_lead dest: bit_lt [OF u])
  ultimately show ?thesis by (simp add: utf8_seq_def and_masks is_tail_tail tail_bits)
qed

lemma utf8_seq_3:
  assumes "u < 0x10000"
  shows "utf8_seq (ucast (0xE0 OR drop_bit 12 u))
    (ucast (0x80 OR take_bit 6 (drop_bit 6 u)) # ucast (0x80 OR take_bit 6 u) # s) = Some (u, 2)"
proof -
  have u: "u < 2 ^ 16" using assms by simp
  note b = not_bit_lt [OF u, of 16] not_bit_lt [OF u, of 17] not_bit_lt [OF u, of 18] not_bit_lt [OF u, of 19]
  let ?c = "ucast (0xE0 OR drop_bit 12 u) :: byte"
  have "?c AND 0xC0 = 0xC0" "?c AND 0xF0 = 0xE0"
    using b by (intro byte_bits_eqI; simp add: bit_simps)+
  moreover have "?c AND 0xE0 \<noteq> 0xC0"
    by (rule notI, drule arg_cong [where f = "\<lambda>x. bit x 5"]) (simp add: bit_simps)
  moreover have "push_bit 12 (take_bit 5 (ucast ?c)) OR push_bit 6 (take_bit 6 (drop_bit 6 u)) OR take_bit 6 u = u"
    by (rule bit_word_eqI) (auto simp: bit_simps bit_lead dest: bit_lt [OF u])
  ultimately show ?thesis by (simp add: utf8_seq_def and_masks is_tail_tail tail_bits)
qed

lemma take_bit_join:
  "push_bit k (take_bit j (drop_bit k x)) OR take_bit k x = take_bit (k + j) (x :: 'a::len word)"
  by (rule bit_word_eqI) (auto simp: bit_simps)

lemma utf8_seq_4:
  assumes "u < 0x200000"
  shows "utf8_seq (ucast (0xF0 OR drop_bit 18 u))
    (ucast (0x80 OR take_bit 6 (drop_bit 12 u)) # ucast (0x80 OR take_bit 6 (drop_bit 6 u)) #
     ucast (0x80 OR take_bit 6 u) # s) = Some (push_bit 22 1 OR u, 3)"
proof -
  have u: "u < 2 ^ 21" using assms by simp
  note b = not_bit_lt [OF u, of 21] not_bit_lt [OF u, of 22] not_bit_lt [OF u, of 23]
    not_bit_lt [OF u, of 24] not_bit_lt [OF u, of 25]
  define c where "c = (ucast (0xF0 OR drop_bit 18 u) :: byte)"
  have c1: "c AND 0xC0 = 0xC0" "c AND 0xF8 = 0xF0"
    using b unfolding c_def by (intro byte_bits_eqI; simp add: bit_simps)+
  have c2: "c AND 0xE0 \<noteq> 0xC0" "c AND 0xF0 \<noteq> 0xE0" unfolding c_def
    by (rule notI, drule arg_cong [where f = "\<lambda>x. bit x 5"], simp add: bit_simps)
       (rule notI, drule arg_cong [where f = "\<lambda>x. bit x 4"], simp add: bit_simps)
  have "take_bit 5 (ucast c) = push_bit 4 1 OR take_bit 3 (drop_bit 18 u)" unfolding c_def
    by (rule bit_word_eqI) (auto simp: bit_simps bit_lead dest: bit_lt [OF u])
  then have e: "push_bit 18 (take_bit 5 (ucast c)) = push_bit 22 1 OR push_bit 18 (take_bit 3 (drop_bit 18 u))"
    by (simp add: push_bit_or)
  have "push_bit 18 (take_bit 5 (ucast c)) OR (push_bit 12 (take_bit 6 (drop_bit 12 u)) OR
      (push_bit 6 (take_bit 6 (drop_bit 6 u)) OR take_bit 6 u)) = push_bit 22 1 OR u"
    unfolding e or.assoc take_bit_join using take_bit_lt [OF u] 
    by (simp add: take_bit_join del: push_bit_of_1)
  then show ?thesis unfolding c_def [symmetric]
    by (simp add: utf8_seq_def and_masks is_tail_tail tail_bits c1 c2 or.assoc)
qed

lemma u32_sum: "unat (a :: u32) + unat b < 2 ^ 32 \<Longrightarrow> unat (a + b) = unat a + unat b"
  by (simp add: unat_word_ariths)

lemma lt_unat: "(x :: u32) < 2 ^ n \<Longrightarrow> n < 32 \<Longrightarrow> unat x < 2 ^ n"
  using take_bit_lt [of x n] take_bit_nat_less_exp [of n "unat x"] by (metis unsigned_take_bit_eq)

lemma UTF16_high:
  assumes "v < 2 ^ 20"
  shows "UTF16 (push_bit 22 1 OR (0x10000 + v)) =
    UTF16_unit (0xD800 + drop_bit 10 v) @ UTF16_unit (0xDC00 + take_bit 10 v)"
proof -
  have v: "unat v < 2 ^ 20" using lt_unat [OF assms] by simp
  have l: "0x10000 + v < 2 ^ 21" using v by (simp add: word_less_nat_alt u32_sum)
  have "push_bit 22 1 AND (0x10000 + v) = 0"
    by (intro bit_word_eqI) (auto simp: bit_simps simp del: push_bit_of_1 dest: bit_lt [OF l])
  then have u: "push_bit 22 1 OR (0x10000 + v) = 0x10000 + v + 0x400000"
    by (simp add: disjunctive_add_eq_or [symmetric])
  have "push_bit 22 1 AND v = 0"
    by (intro bit_word_eqI) (auto simp: bit_simps simp del: push_bit_of_1 dest: bit_lt [OF assms])
  then have c: "v + 0x400000 = push_bit 22 1 OR v" by (simp add: disjunctive_add_eq_or [symmetric])
  have "0x10000 + v + 0x400000 > 0xFFFF" using v by (simp add: word_less_nat_alt u32_sum)
  moreover have "take_bit 10 (drop_bit 10 (v + 0x400000)) = drop_bit 10 v"
    "take_bit 10 (v + 0x400000) = take_bit 10 v" unfolding c
    by (rule bit_word_eqI, auto simp: bit_simps simp del: push_bit_of_1 dest: bit_lt [OF assms])+
  moreover have "0x10000 + v + 0x400000 - 0x10000 = v + 0x400000" by simp
  ultimately show ?thesis unfolding u UTF16_def and_masks Let_def by (simp only: if_True)
qed

lemma add_unit_high: "h < 2 ^ 10 \<Longrightarrow> add_unit 0 (0xD800 + h) = ([], push_bit 16 (0xD800 + h))"
  using lt_unat [of h 10]
  by (simp add: add_unit_def word_le_nat_alt u32_sum)

lemma add_unit_single:
  assumes "u < 0x800"
  shows "add_unit 0 u = (utf8 u, 0)"
proof -
  have "unat u < 0x800" using assms by (simp add: word_less_nat_alt)
  then show ?thesis
  by (auto simp: add_unit_def word_le_nat_alt word_less_nat_alt UTF8_def utf8_def and_masks)
qed
lemma add_unit_pair:
  assumes "h < 2 ^ 10" "l < 2 ^ 10"
  shows "add_unit (push_bit 16 (0xD800 + h)) (0xDC00 + l) = (utf8 (push_bit 10 h + l + 0x10000), 0)"
proof -
  have u: "unat h < 2 ^ 10" "unat l < 2 ^ 10" using lt_unat [of h 10] lt_unat [of l 10] assms by simp_all
  let ?hi = "0xD800 + h" and ?lo = "0xDC00 + l"
  have hi: "?hi < 2 ^ 16" and lo: "?lo < 2 ^ 16" using u by (simp_all add: word_less_nat_alt u32_sum)
  define f where "f = push_bit 16 ?hi OR ?lo"
  have p: "drop_bit 16 f = ?hi" "take_bit 16 f = ?lo" unfolding f_def
    by (rule bit_word_eqI, auto simp: bit_simps dest: bit_lt [OF hi] bit_lt [OF lo])+
  have h: "unat ?hi = 0xD800 + unat h" and l: "unat ?lo = 0xDC00 + unat l"
    using u by (simp_all add: u32_sum)
  have "unat f div 2 ^ 16 = 0xD800 + unat h" using p(1) h by (metis unat_drop_bit_eq drop_bit_eq_div)
  then have big: "unat f \<ge> 0x10000" by (intro leI notI) simp
  have low: "take_bit 10 ?hi = h" "take_bit 10 ?lo = l"
    using u h l mod_mult_self3 [of 54 1024 "unat h"] mod_mult_self3 [of 55 1024 "unat l"]
    by (simp_all add: word_unat_eq_iff unsigned_take_bit_eq take_bit_eq_mod unat_mod_distrib)
  define v where "v = push_bit 10 h + l + 0x10000"
  have "unat (push_bit 10 h) = 1024 * unat h"
    using u by (simp add: push_bit_eq_mult unat_word_ariths)
  then have un: "unat v = 1024 * unat h + unat l + 0x10000" using u by (simp add: v_def u32_sum)
  then have v: "v < 2 ^ 21" using u by (simp add: word_less_nat_alt)
  have t: "take_bit 3 (drop_bit 18 v) = drop_bit 18 v"
    by (intro bit_word_eqI) (auto simp: bit_simps dest: bit_lt [OF v])
  have "push_bit 10 (take_bit 10 (drop_bit 16 f)) + take_bit 10 (take_bit 16 f) + 0x10000 = v"
    by (simp only: p low v_def)
  then have U: "UTF8 f = utf8 v"
    using big un t by (simp add: UTF8_def utf8_def and_masks Let_def word_le_nat_alt word_less_nat_alt)
  have "push_bit 16 ?hi \<noteq> 0"
  proof
    assume "push_bit 16 ?hi = 0"
    then have "f = ?lo" by (simp only: f_def or.left_neutral)
    then show False using big u l by simp
  qed
  moreover have "\<not> f \<le> 0xDBFF" "\<not> ?lo < 0xDC00" "\<not> ?lo > 0xDFFF"
    using big u l by (simp_all add: word_less_nat_alt word_le_nat_alt)
  ultimately show ?thesis
    unfolding add_unit_def f_def [symmetric] Let_def using U by (simp add: f_def [symmetric] v_def)
qed

lemma read_pending_0 [simp]: "pending 0 = []"
  by (simp add: pending_def)

lemma length_UTF16_unit [simp]: "length (UTF16_unit c) = 6"
  by (simp add: UTF16_unit_def)

text \<open>What reading makes of the escaped form of one character.\<close>

definition reads_as :: "bytes \<Rightarrow> bytes \<Rightarrow> bool" where
  "reads_as e s \<longleftrightarrow>
     (\<forall>r n out. read_loop 0x22 (e @ r) n False 0 out = read_loop 0x22 r (n + length e) False 0 (out @ s))"

lemma reads_as_single: "u < 0x800 \<Longrightarrow> reads_as (UTF16_unit u) (utf8 u)"
  using read_unit [of u] by (simp add: reads_as_def add_unit_single word_less_nat_alt)

lemma reads_as_pair:
  assumes "0x10000 \<le> u" "u < 0x110000"
  shows "reads_as (UTF16 (push_bit 22 1 OR u)) (utf8 u)"
proof -
  define v where "v = u - 0x10000"
  have v: "v < 2 ^ 20" using assms by (simp add: v_def word_less_nat_alt word_le_nat_alt unat_sub)
  have d: "unat (drop_bit 10 v) = unat v div 2 ^ 10" by (metis unat_drop_bit_eq drop_bit_eq_div)
  have m: "unat (take_bit 10 v) = unat v mod 2 ^ 10" by (simp add: unsigned_take_bit_eq take_bit_eq_mod unat_mod_distrib)
  have h: "drop_bit 10 v < 2 ^ 10"
    using lt_unat [OF v] d by (simp add: word_less_nat_alt less_mult_imp_div_less)
  have l: "take_bit 10 v < 2 ^ 10" using m by (simp add: word_less_nat_alt)
  have b: "0xD800 + drop_bit 10 v < 2 ^ 16" "0xDC00 + take_bit 10 v < 2 ^ 16"
    using lt_unat [OF h] lt_unat [OF l] by (simp_all add: word_less_nat_alt u32_sum)
  have u: "u = 0x10000 + v" by (simp add: v_def)
  have "take_bit 10 v + push_bit 10 (take_bit 22 (drop_bit 10 v)) = v"
    unfolding take_bit_split by (simp add: take_bit_word_eq_self)
  moreover have "take_bit 22 (drop_bit 10 v) = drop_bit 10 v"
    by (intro bit_word_eqI) (auto simp: bit_simps dest: bit_lt [OF v])
  ultimately have e: "push_bit 10 (drop_bit 10 v) + take_bit 10 v + 0x10000 = u"
    by (simp add: u add.commute)
  show ?thesis unfolding reads_as_def u UTF16_high [OF v]
    using e by (simp add: read_unit [OF b(1)] read_unit [OF b(2)] add_unit_high [OF h] add_unit_pair [OF h l] u)
      (simp add: add.commute)
qed

lemma reads_as_plain: "c \<noteq> 0x5C \<Longrightarrow> c \<noteq> 0x22 \<Longrightarrow> reads_as [c] [c]"
  by (simp add: reads_as_def read_loop.simps)

lemma reads_as_escape: "c \<noteq> 0x78 \<Longrightarrow> c \<noteq> 0x75 \<Longrightarrow> reads_as [0x5C, c] [unescaped c]"
  by (simp add: reads_as_def read_loop.simps)

lemma escape_control:
  assumes "u < 0x80"
  shows "[0x5C, 0x75, 0x30, 0x30, hex2c (drop_bit 4 (ucast u) AND 0xF), hex2c (ucast u AND 0xF)] = UTF16_unit u"
proof -
  have u: "u < 2 ^ 7" using assms by simp
  have "ucast (drop_bit 12 u AND 0xF) = (0 :: byte)" "ucast (drop_bit 8 u AND 0xF) = (0 :: byte)"
    "ucast (drop_bit 4 u AND 0xF) = drop_bit 4 (ucast u :: byte) AND 0xF" 
    "ucast (u AND 0xF) = (ucast u :: byte) AND 0xF" unfolding and_masks
    by (rule bit_word_eqI, auto simp: bit_simps dest: bit_lt [OF u])+
  then show ?thesis by (simp add: UTF16_unit_def hex2c_def)
qed

lemma escape_seq:
  assumes "utf8_seq c cs = Some (w, n)"
  shows "escape_loop False (c # cs) = UTF16 w @ escape_loop False (drop n cs)"
proof -
  have e: "c AND 0xC0 = 0xC0" using assms by (simp add: utf8_seq_def split: if_splits)
  have "bit c 7" using arg_cong [OF e, of "\<lambda>x. bit x 7"] by (simp add: bit_simps)
  then have "\<not> c < 128" using not_bit_lt [of c 7 7] by auto
  then have "c > 126" by (simp add: word_less_nat_alt)
  then show ?thesis using assms by auto
qed

lemma escape_char:
  assumes "u < 0x800 \<or> 0x10000 \<le> u \<and> u < 0x110000"
  shows "\<exists>e. escape_loop False (utf8 u @ s) = e @ escape_loop False s \<and> reads_as e (utf8 u)"
proof -
  consider "u < 0x80" | "0x80 \<le> u" "u < 0x800" | "0x10000 \<le> u" "u < 0x110000" using assms by fastforce
  then show ?thesis
  proof cases
    case 1
    define c where "c = (ucast u :: byte)"
    have u: "utf8 u = [c]" using 1 by (simp add: utf8_def c_def)
    have b: "\<not> bit c 7" using not_bit_lt [of u 7 7] 1 by (simp add: c_def bit_simps)
    have "c AND 0xC0 \<noteq> 0xC0"
      by (rule notI, drule arg_cong [where f = "\<lambda>x. bit x 7"]) (use b in \<open>simp add: bit_simps\<close>)
    then have n: "utf8_seq c s = None" by (simp add: utf8_seq_def)
    have ex: "(\<exists>x. escape_loop False (c # s) = [0x5C, x] @ escape_loop False s \<and> unescaped x = c \<and> x \<noteq> 0x78 \<and> x \<noteq> 0x75)
      \<or> escape_loop False (c # s) = UTF16_unit u @ escape_loop False s
      \<or> escape_loop False (c # s) = [c] @ escape_loop False s \<and> c \<noteq> 0x5C \<and> c \<noteq> 0x22"
      using n escape_control [OF 1] by (simp add: c_def [symmetric] unescaped_def)
    have r: "reads_as (UTF16_unit u) [c]"
      using reads_as_single [of u] 1 u by (auto simp: word_less_nat_alt)
    from ex consider x where "escape_loop False (c # s) = [0x5C, x] @ escape_loop False s" "unescaped x = c"
        "x \<noteq> 0x78" "x \<noteq> 0x75"
      | "escape_loop False (c # s) = UTF16_unit u @ escape_loop False s"
      | "escape_loop False (c # s) = [c] @ escape_loop False s" "c \<noteq> 0x5C" "c \<noteq> 0x22" by blast
    then have "\<exists>e. escape_loop False (c # s) = e @ escape_loop False s \<and> reads_as e [c]"
    proof cases
      case (1 x)
      then show ?thesis using reads_as_escape [of x]
        by (intro exI [of _ "[0x5C, x]"] conjI) (simp_all del: escape_loop.simps)
    next
      case 2
      then show ?thesis using r by (intro exI [of _ "UTF16_unit u"] conjI)
    next
      case 3
      then show ?thesis using reads_as_plain [of c]
        by (intro exI [of _ "[c]"] conjI) (simp_all del: escape_loop.simps)
    qed
    then show ?thesis by (simp add: u del: escape_loop.simps)
  next
    case 2
    have "\<not> u < 0x80" "\<not> u > 0xFFFF" using 2 by (simp_all add: word_less_nat_alt word_le_nat_alt)
    then have "escape_loop False (utf8 u @ s) = UTF16_unit u @ escape_loop False s"
      using escape_seq [OF utf8_seq_2 [OF 2(2)]] 2 by (simp add: utf8_def UTF16_def del: escape_loop.simps)
    then show ?thesis using reads_as_single [of u] 2 by auto
  next
    case 3
    have "\<not> u < 0x80" "\<not> u < 0x800" "\<not> u < 0x10000" "u < 0x200000" using 3 
      by (simp_all add: word_less_nat_alt word_le_nat_alt)
    then have "escape_loop False (utf8 u @ s) = UTF16 (push_bit 22 1 OR u) @ escape_loop False s"
      using escape_seq [OF utf8_seq_4 [of u s]] by (simp add: utf8_def numeral_3_eq_3 del: escape_loop.simps)
    then show ?thesis using reads_as_pair [of u] 3 by auto
  qed
qed

text \<open>The characters that survive: all but those of three bytes, see below.\<close>

definition utf8s :: "u32 list \<Rightarrow> bytes" where
  "utf8s us = concat (map utf8 us)"

definition kept_chars :: "u32 list \<Rightarrow> bool" where
  "kept_chars us \<longleftrightarrow> (\<forall>u \<in> set us. u < 0x800 \<or> 0x10000 \<le> u \<and> u < 0x110000)"

lemma read_escaped:
  "kept_chars us \<Longrightarrow> read_loop 0x22 (escape_loop False (utf8s us) @ 0x22 # r) n False 0 out =
     (n + length (escape_loop False (utf8s us)) + 1, out @ utf8s us)"
proof (induction us arbitrary: n out)
  case Nil
  then show ?case by (simp add: utf8s_def read_loop.simps)
next
  case (Cons u us)
  then obtain e where "escape_loop False (utf8 u @ utf8s us) = e @ escape_loop False (utf8s us)"
      "reads_as e (utf8 u)"
    using escape_char [of u "utf8s us"] by (auto simp: kept_chars_def)
  moreover have "utf8s (u # us) = utf8 u @ utf8s us" by (simp add: utf8s_def)
  moreover have "kept_chars us" using Cons.prems by (simp add: kept_chars_def)
  ultimately show ?case using Cons.IH by (simp add: reads_as_def del: escape_loop.simps)
qed

lemma read_string_escape:
  "kept_chars us \<Longrightarrow> read_string (string_escape (utf8s us) False @ r) =
     (length (string_escape (utf8s us) False), utf8s us)"
  by (simp add: read_string_def string_escape_def read_escaped del: escape_loop.simps)

lemma three_bytes_read:
  assumes "0x800 \<le> u" "u < 0x10000" "u < 0xD800 \<or> 0xDFFF < u"
  shows "read_string (string_escape (utf8 u) False) = (8, UTF8 u)"
proof -
  have l: "u < 2 ^ 16" using assms by simp
  have n: "\<not> u < 0x80" "\<not> u < 0x800" "\<not> u > 0xFFFF" "\<not> (u \<ge> 0xD800 \<and> u \<le> 0xDBFF)" using assms
    by (auto simp: word_less_nat_alt word_le_nat_alt)
  have "escape_loop False (utf8 u) = UTF16_unit u"
    using escape_seq [OF utf8_seq_3 [OF assms(2), of "[]"]] n assms(2)
    by (simp add: utf8_def UTF16_def numeral_2_eq_2 del: escape_loop.simps) simp
  moreover have "add_unit 0 u = (UTF8 u, 0)" using n(4) by (auto simp: add_unit_def)
  ultimately show ?thesis
    using read_unit [OF l, of "[0x22]" 1 0 "[]"]
    by (simp add: read_string_def string_escape_def read_loop.simps del: escape_loop.simps)
qed

lemma three_bytes_broken:
  assumes "0x800 \<le> u" "u < 0x10000"
  shows "UTF8 u \<noteq> utf8 u"
proof -
  have n: "\<not> u < 0x80" "\<not> u < 0x800" "u \<le> 0xFFFF" using assms
    by (auto simp: word_less_nat_alt word_le_nat_alt)
  have "\<not> bit u 17" using not_bit_lt [of u 16 17] assms(2) by simp
  then have "(ucast (0xC0 OR drop_bit 12 u) :: byte) \<noteq> ucast (0xE0 OR drop_bit 12 u)"
    by (intro notI) (drule arg_cong [where f = "\<lambda>x. bit x 5"], simp add: bit_simps)
  then show ?thesis using n by (auto simp: UTF8_def utf8_def)
qed

section \<open>Properties\<close>

text \<open>\<open>read_string\<close> reads back what \<open>string_escape\<close> writes, and stops behind the closing quote, for
  UTF-8 text of characters of one, two and four bytes: control characters, quotes and surrogate
  pairs included.\<close>

theorem escaped_string_read:
  assumes "kept_chars us"
  shows "read_string (string_escape (utf8s us) False @ r) =
    (length (string_escape (utf8s us) False), utf8s us)"
  using assms by (rule read_string_escape)

lemma sample_text_length: "length (string_escape (utf8s [0x22, 0x1F, 0xE9, 0x1F600]) False) = 28"
  by code_simp

theorem escaped_string_read_witness:
  "read_string (string_escape (utf8s [0x22, 0x1F, 0xE9, 0x1F600]) False @ [0x5D]) =
     (28, utf8s [0x22, 0x1F, 0xE9, 0x1F600])"
  using escaped_string_read [of "[0x22, 0x1F, 0xE9, 0x1F600]" "[0x5D]"] sample_text_length
  by (simp add: kept_chars_def)

text \<open>A character of three bytes does not survive: it is escaped as \<open>\u\<close> and four digits, and
  \<open>UTF8\<close> gives it the first byte of a two-byte sequence.\<close>

theorem three_byte_characters_lost:
  assumes "0x800 \<le> u" "u < 0x10000" "u < 0xD800 \<or> 0xDFFF < u"
  shows "snd (read_string (string_escape (utf8 u) False)) \<noteq> utf8 u"
  using three_bytes_read [OF assms] three_bytes_broken [OF assms(1,2)] by simp

theorem three_byte_characters_lost_witness:
  "snd (read_string (string_escape (utf8 0x20AC) False)) \<noteq> utf8 0x20AC"
  by (rule three_byte_characters_lost) simp_all

end
