(* ===== verification/JsonParse.thy ===== *)
theory JsonParse
  imports JsonText
begin

text \<open>
  Printing and parsing JSON values (\<open>JSON::Value::toString\<close>, \<open>JSON::Value::fromString\<close> and
  \<open>skipToEnd\<close> in \<open>lib/json.cpp\<close>), and the proof that printing and parsing agree.

  The parser keeps its state in the value itself, as the code does: the type, the number read so
  far and the divider of its fraction. The functions on doubles it uses are the fields of an
  \<open>fp_ops\<close>, how a double prints is the argument \<open>sd\<close>: both are the floating point unit's and
  the stream library's. A signed overflow, undefined in the code, is \<open>None\<close>.
\<close>

section \<open>Printing\<close>

definition show_int :: "u64 \<Rightarrow> bytes" where
  "show_int n = (if sint n < 0 then 0x2D # to_dec (nat (- sint n)) else to_dec (nat (sint n)))"

text \<open>The items with commas between them.\<close>

fun commas :: "bytes list \<Rightarrow> bytes" where
  "commas [] = []"
| "commas [x] = x"
| "commas (x # y # xs) = x @ 0x2C # commas (y # xs)"

definition or_null :: "bytes \<Rightarrow> bytes" where
  "or_null s = (if s = [] then str ''null'' else s)"

function toString :: "(u64 \<Rightarrow> bytes) \<Rightarrow> jval \<Rightarrow> bytes" where
  "toString sd v =
     (if myType v = INTEGER then show_int (intVal v)
      else if myType v = DOUBLE then sd (dblVal v)
      else if myType v = BOOL then (if intVal v \<noteq> 0 then str ''true'' else str ''false'')
      else if myType v = STRING then string_escape (strVal v) False
      else if myType v = RAWSTRING then string_escape (strVal v) True
      else if myType v = ARRAY then
        0x5B # commas (map (\<lambda>x. or_null (toString sd x)) (arrVal v)) @ [0x5D]
      else if myType v = OBJECT then
        0x7B # commas (map (\<lambda>(k, x). string_escape k False @ 0x3A # or_null (toString sd x)) (objVal v)) @ [0x7D]
      else if myType v = UNSET then []
      else str ''null'')"
  by pat_completeness auto
termination
  by (relation "measure (size \<circ> snd)") auto

declare toString.simps [simp del]

definition asString :: "(u64 \<Rightarrow> bytes) \<Rightarrow> jval \<Rightarrow> bytes" where
  "asString sd v =
     (if myType v = STRING \<or> myType v = RAWSTRING then strVal v
      else if myType v = EMPTY \<or> myType v = UNSET then []
      else toString sd v)"

section \<open>Parsing\<close>

record fp_ops =
  fp_int :: "u64 \<Rightarrow> u64"
  fp_add :: "u64 \<Rightarrow> u64 \<Rightarrow> u64"
  fp_mul :: "u64 \<Rightarrow> u64 \<Rightarrow> u64"
  fp_div :: "u64 \<Rightarrow> u64 \<Rightarrow> u64"

definition dbl_m1 :: u64 where "dbl_m1 = 0xBFF0000000000000"
definition dbl_10 :: u64 where "dbl_10 = 0x4024000000000000"

definition with_type :: "jval \<Rightarrow> ValueType \<Rightarrow> jval" where
  "with_type v t = Value t (intVal v) (strVal v) (dblVal v) (dblDivider v) (arrVal v) (objVal v)"

definition with_int :: "jval \<Rightarrow> u64 \<Rightarrow> jval" where
  "with_int v n = Value (myType v) n (strVal v) (dblVal v) (dblDivider v) (arrVal v) (objVal v)"

definition with_str :: "jval \<Rightarrow> bytes \<Rightarrow> jval" where
  "with_str v s = Value (myType v) (intVal v) s (dblVal v) (dblDivider v) (arrVal v) (objVal v)"

definition with_dbl :: "jval \<Rightarrow> u64 \<Rightarrow> u64 \<Rightarrow> jval" where
  "with_dbl v d q = Value (myType v) (intVal v) (strVal v) d q (arrVal v) (objVal v)"

definition skipToEnd :: "bytes \<Rightarrow> nat" where
  "skipToEnd s = length (takeWhile (\<lambda>c. c \<notin> {0x2C, 0x5D, 0x7D}) s)"

definition negated :: "bool \<Rightarrow> jval \<Rightarrow> jval option" where
  "negated negative v =
     (if negative then
        (if sint (intVal v) = - (2 ^ 63) then None else Some (with_int v (- intVal v)))
      else Some v)"

definition add_digit :: "fp_ops \<Rightarrow> jval \<Rightarrow> byte \<Rightarrow> jval option" where
  "add_digit fp v c =
     (let v = (if myType v \<noteq> INTEGER \<and> myType v \<noteq> DOUBLE then with_type v INTEGER else v)
      in if myType v = INTEGER then
           (let n = sint (intVal v) * 10; m = n + int (unat (c - 0x30))
            in if - (2 ^ 63) \<le> n \<and> m < 2 ^ 63 then Some (with_int v (of_int m)) else None)
         else
           (let q = fp_mul fp (dblDivider v) dbl_10
            in Some (with_dbl v (fp_add fp (dblVal v) (fp_div fp (fp_int fp (ucast (c - 0x30))) q)) q)))"

definition add_point :: "fp_ops \<Rightarrow> bool \<Rightarrow> jval \<Rightarrow> jval" where
  "add_point fp negative v =
     (let v = with_type v DOUBLE
      in if negative then with_dbl v (fp_int fp (- intVal v)) dbl_m1
         else with_dbl v (fp_int fp (intVal v)) dbl_1)"

lemma read_loop_ge: "n \<le> fst (read_loop sep cs n escaped fullChar out)"
proof (induction "length cs" arbitrary: cs n escaped fullChar out rule: less_induct)
  case less
  show ?case
  proof (cases cs)
    case Nil
    then show ?thesis by (simp add: read_loop.simps)
  next
    case (Cons c r)
    have step: "n \<le> fst (read_loop sep r' (n + k) e f o')" if "length r' \<le> length r" for r' k e f o'
      using less.hyps [of r' "n + k" e f o'] that Cons by simp
    have "n \<le> fst (read_loop sep r (Suc n) e f o')" for e f o' using step [of r 1] by simp
    then show ?thesis unfolding Cons read_loop.simps Let_def case_prod_unfold
      by (simp add: step)
  qed
qed

lemma read_string_pos: "s \<noteq> [] \<Longrightarrow> 0 < fst (read_string s)"
  using read_loop_ge [of 1 "hd s" "tl s"] by (cases s) (auto simp: read_string_def Suc_le_eq)

lemma read_string_advances: "(n, t) = read_string (c # cs) \<Longrightarrow> 0 < n"
  using read_string_pos [of "c # cs"] by (metis fst_conv list.discI)

text \<open>The loop of \<open>fromString\<close> over the bytes from \<open>offset\<close> on. The child of a container is parsed from
  where the parent is, and the parent goes on behind it.\<close>

function parse_loop ::
  "fp_ops \<Rightarrow> bool \<Rightarrow> bool \<Rightarrow> bool \<Rightarrow> jval \<Rightarrow> bytes \<Rightarrow> nat \<Rightarrow> (nat \<times> jval) option" where
  "parse_loop fp reading_object reading_array negative v s offset =
     (case s of
        [] \<Rightarrow> do { v \<leftarrow> negated negative v; Some (offset, v) }
      | c # cs \<Rightarrow>
          if c = 0x7B then
            parse_loop fp True reading_array negative (with_type v OBJECT) cs (offset + 1)
          else if c = 0x5B then
            do { (n, child) \<leftarrow> parse_loop fp False False False junset cs 0;
                 parse_loop fp reading_object True negative
                   (if myType child = UNSET then with_type v ARRAY else append (with_type v ARRAY) child)
                   (drop n cs) (offset + 1 + n) }
          else if c = 0x27 \<or> c = 0x22 then
            (let (n, tmpstr) = read_string s
             in if \<not> reading_object then Some (offset + n, with_str (with_type v STRING) tmpstr)
                else
                  do { (k, child) \<leftarrow> parse_loop fp False False False junset (drop n s) 0;
                       parse_loop fp reading_object reading_array negative (put_member v tmpstr child)
                         (drop k (drop n s)) (offset + n + k) })
          else if c = 0x2D then parse_loop fp reading_object reading_array True v cs (offset + 1)
          else if 0x30 \<le> c \<and> c \<le> 0x39 then
            do { v \<leftarrow> add_digit fp v c;
                 parse_loop fp reading_object reading_array negative v cs (offset + 1) }
          else if c = 0x2E then
            parse_loop fp reading_object reading_array negative (add_point fp negative v) cs (offset + 1)
          else if c = 0x2C then
            do { v \<leftarrow> negated negative v;
                 if \<not> reading_object \<and> \<not> reading_array then Some (offset, v)
                 else if reading_array then
                   do { (n, child) \<leftarrow> parse_loop fp False False False junset cs 0;
                        parse_loop fp reading_object reading_array negative (append v child)
                          (drop n cs) (offset + 1 + n) }
                 else parse_loop fp reading_object reading_array negative v cs (offset + 1) }
          else if c = 0x7D then
            do { v \<leftarrow> negated negative v; Some (if reading_object then offset + 1 else offset, v) }
          else if c = 0x5D then
            do { v \<leftarrow> negated negative v; Some (if reading_array then offset + 1 else offset, v) }
          else if c = 0x74 \<or> c = 0x54 then
            Some (offset + skipToEnd s, with_int (with_type v BOOL) 1)
          else if c = 0x66 \<or> c = 0x46 then
            Some (offset + skipToEnd s, with_int (with_type v BOOL) 0)
          else if c = 0x6E \<or> c = 0x4E then Some (offset + skipToEnd s, with_type v EMPTY)
          else parse_loop fp reading_object reading_array negative v cs (offset + 1))"
  by pat_completeness auto
termination
  by (relation "measure (\<lambda>(fp, ro, ra, neg, v, s, offset). length s)") (auto dest!: read_string_advances)

declare parse_loop.simps [simp del]

definition fromString :: "fp_ops \<Rightarrow> bytes \<Rightarrow> (nat \<times> jval) option" where
  "fromString fp s = parse_loop fp False False False junset s 0"

section \<open>Printed values are read back\<close>

definition readable :: "bytes \<Rightarrow> bool" where
  "readable s \<longleftrightarrow> (\<exists>us. kept_chars us \<and> s = utf8s us)"

lemma read_readable:
  "readable s \<Longrightarrow> read_string (string_escape s False @ r) = (length (string_escape s False), s)"
  using read_string_escape by (auto simp: readable_def)

inductive plain :: "jval \<Rightarrow> bool" where
  plain_int: "sint n \<noteq> - (2 ^ 63) \<Longrightarrow> plain (set_int n)"
| plain_bool: "plain (set_bool b)"
| plain_null: "plain jnull"
| plain_string: "readable s \<Longrightarrow> plain (set_string s)"
| plain_array: "(\<And>x. x \<in> set xs \<Longrightarrow> plain x) \<Longrightarrow> plain (Value ARRAY 0 [] 0 dbl_1 xs [])"
| plain_object: "(\<And>k x. (k, x) \<in> set kvs \<Longrightarrow> readable k \<and> plain x) \<Longrightarrow> sorted_wrt (<) (map fst kvs) \<Longrightarrow>
    plain (Value OBJECT 0 [] 0 dbl_1 [] kvs)"

definition ends :: "bytes \<Rightarrow> bool" where
  "ends r \<longleftrightarrow> r = [] \<or> hd r \<in> {0x2C, 0x5D, 0x7D}"

lemmas parse_Nil = parse_loop.simps [where s = "[]", unfolded list.case]
lemmas parse_Cons = parse_loop.simps [where s = "c # cs" for c cs, unfolded list.case]

lemma parse_ends:
  "ends r \<Longrightarrow> parse_loop fp False False negative v r n = do { v \<leftarrow> negated negative v; Some (n, v) }"
  by (cases r) (auto simp: ends_def parse_Nil parse_Cons)

lemma negated_False [simp]: "negated False v = Some v"
  by (simp add: negated_def)

lemma skipToEnd_word:
  assumes "ends r" "\<forall>c \<in> set s. c \<notin> {0x2C, 0x5D, 0x7D}"
  shows "skipToEnd (s @ r) = length s"
proof -
  have "takeWhile (\<lambda>c. c \<notin> {0x2C, 0x5D, 0x7D}) r = []"
    using assms(1) by (cases r) (simp_all add: ends_def del: insert_iff)
  then show ?thesis using assms(2) by (simp add: skipToEnd_def takeWhile_append2 del: insert_iff)
qed

definition ival :: "nat \<Rightarrow> jval" where
  "ival m = Value INTEGER (of_nat m) [] 0 dbl_1 [] []"

lemma sint_of_nat: "m < 2 ^ 63 \<Longrightarrow> sint (of_nat m :: u64) = int m"
  using signed_take_bit_int_eq_self [of 63 "int m"] by (simp add: sint_uint take_bit_nat_eq_self unsigned_of_nat signed_take_bit_take_bit)

lemma is_digit_range: "is_digit c \<longleftrightarrow> 0x30 \<le> c \<and> c \<le> 0x39"
  by (simp add: is_digit_def)

lemma unat_digit: "is_digit c \<Longrightarrow> unat (c - 0x30) = unat c - 48"
  by (simp add: is_digit_def unat_sub word_le_nat_alt)

lemma add_digit_ival:
  "is_digit c \<Longrightarrow> m * 10 + (unat c - 48) < 2 ^ 63 \<Longrightarrow> add_digit fp (ival m) c = Some (ival (m * 10 + (unat c - 48)))"
  by (simp add: add_digit_def ival_def Let_def sint_of_nat unat_digit with_int_def)

lemma parse_digit:
  "is_digit c \<Longrightarrow> parse_loop fp ro ra negative v (c # cs) n =
     do { v \<leftarrow> add_digit fp v c; parse_loop fp ro ra negative v cs (n + 1) }"
  by (subst parse_loop.simps) (auto simp: is_digit_range)

abbreviation dval :: "nat \<Rightarrow> bytes \<Rightarrow> nat" where
  "dval \<equiv> foldl (\<lambda>n c. n * 10 + (unat c - 48))"

lemma dval_ge: "m \<le> dval m ds"
proof (induction ds arbitrary: m)
  case (Cons c ds)
  show ?case using Cons [of "m * 10 + (unat c - 48)"] by simp
qed simp

lemma parse_digits:
  "list_all is_digit ds \<Longrightarrow> dval m ds < 2 ^ 63 \<Longrightarrow>
   parse_loop fp False False negative (ival m) (ds @ r) n =
     parse_loop fp False False negative (ival (dval m ds)) r (n + length ds)"
proof (induction ds arbitrary: m n)
  case (Cons c ds)
  then show ?case using dval_ge [of "m * 10 + (unat c - 48)" ds]
    by (simp add: parse_digit add_digit_ival)
qed simp

lemma add_digit_first: "add_digit fp junset c = add_digit fp (ival 0) c"
  by (simp add: add_digit_def junset_def ival_def with_type_def Let_def)

lemma parse_number:
  assumes "k < 2 ^ 63" "ends r"
  shows "parse_loop fp False False negative junset (to_dec k @ r) n =
    do { v \<leftarrow> negated negative (ival k); Some (n + length (to_dec k), v) }"
proof -
  obtain c ds where cs: "to_dec k = c # ds" using to_dec_ne [of k] by (cases "to_dec k") auto
  have d: "is_digit c" "list_all is_digit ds" using to_dec_digits [of k] cs by auto
  have v: "dval (unat c - 48) ds = k" using dec_val_to_dec [of k] cs by (simp add: dec_val_def)
  have "add_digit fp junset c = Some (ival (unat c - 48))"
    using add_digit_ival [of c 0 fp] d(1) dval_ge [of "unat c - 48" ds] v assms(1)
    by (simp add: add_digit_first)
  then show ?thesis
    using parse_digits [OF d(2), of "unat c - 48"] v assms d(1)
    by (simp add: cs parse_digit parse_ends)
qed


lemma show_int_cases:
  assumes "sint n \<noteq> - (2 ^ 63)"
  obtains k where "k < 2 ^ 63" "sint n = int k" "n = of_nat k" "show_int n = to_dec k"
    | k where "k < 2 ^ 63" "sint n = - int k" "n = - of_nat k" "show_int n = 0x2D # to_dec k"
proof (cases "sint n < 0")
  case True
  define k where "k = nat (- sint n)"
  have s: "sint n = - int k" using True by (simp add: k_def)
  have "- sint n < 2 ^ 63" using sint_ge [of n] assms by simp
  then have "k < 2 ^ 63" using s by simp
  moreover have "of_int (sint n) = n" by simp
  then have "n = - of_nat k" unfolding s by simp
  moreover have "show_int n = 0x2D # to_dec k" using True by (simp only: show_int_def k_def if_True)
  ultimately show ?thesis using that(2) s by blast
next
  case False
  define k where "k = nat (sint n)"
  have s: "sint n = int k" using False by (simp add: k_def)
  then have "k < 2 ^ 63" using sint_lt [of n] by simp
  moreover have "of_int (sint n) = n" by simp
  then have "n = of_nat k" unfolding s by simp
  moreover have "show_int n = to_dec k" using False by (simp only: show_int_def k_def if_False)
  ultimately show ?thesis using that(1) s by blast
qed

lemma parse_int:
  assumes "sint n \<noteq> - (2 ^ 63)" "ends r"
  shows "parse_loop fp False False False junset (show_int n @ r) i = Some (i + length (show_int n), set_int n)"
  using assms(1)
proof (cases rule: show_int_cases)
  case (1 k)
  then show ?thesis using parse_number [OF 1(1) assms(2)] by (simp add: ival_def set_int_def)
next
  case (2 k)
  have "parse_loop fp False False False junset (0x2D # to_dec k @ r) i =
      parse_loop fp False False True junset (to_dec k @ r) (i + 1)"
    by (simp add: parse_Cons)
  moreover have "negated True (ival k) = Some (set_int n)"
    using 2 by (simp add: negated_def ival_def set_int_def with_int_def sint_of_nat)
  ultimately show ?thesis using parse_number [OF 2(1) assms(2)] 2(4) by simp
qed

definition aval :: "jval list \<Rightarrow> jval" where "aval xs = Value ARRAY 0 [] 0 dbl_1 xs []"
definition oval :: "(bytes \<times> jval) list \<Rightarrow> jval" where "oval kvs = Value OBJECT 0 [] 0 dbl_1 [] kvs"

definition reads_back :: "(u64 \<Rightarrow> bytes) \<Rightarrow> fp_ops \<Rightarrow> jval \<Rightarrow> bool" where
  "reads_back sd fp v \<longleftrightarrow> toString sd v \<noteq> [] \<and> myType v \<noteq> UNSET \<and>
     (\<forall>r n. ends r \<longrightarrow> parse_loop fp False False False junset (toString sd v @ r) n =
        Some (n + length (toString sd v), v))"

lemma reads_back_int: "sint n \<noteq> - (2 ^ 63) \<Longrightarrow> reads_back sd fp (set_int n)"
  using parse_int [of n] to_dec_ne by (simp add: reads_back_def toString.simps set_int_def show_int_def)

lemma reads_back_bool: "reads_back sd fp (set_bool b)"
proof -
  have "parse_loop fp False False False junset (str ''true'' @ r) n = Some (n + 4, set_bool True)"
    "parse_loop fp False False False junset (str ''false'' @ r) n = Some (n + 5, set_bool False)"
    if "ends r" for r n
    using skipToEnd_word [OF that, of "str ''true''"] skipToEnd_word [OF that, of "str ''false''"]
    by (simp_all add: byte_simps parse_Cons set_bool_def junset_def with_int_def with_type_def)
  then show ?thesis by (cases b) (simp_all add: reads_back_def toString.simps set_bool_def str_def)
qed

lemma reads_back_null: "reads_back sd fp jnull"
proof -
  have "parse_loop fp False False False junset (str ''null'' @ r) n = Some (n + 4, jnull)" if "ends r" for r n
    using skipToEnd_word [OF that, of "str ''null''"]
    by (simp add: byte_simps parse_Cons jnull_def junset_def with_type_def)
  then show ?thesis by (simp add: reads_back_def toString.simps jnull_def str_def)
qed

lemma reads_back_string: "readable s \<Longrightarrow> reads_back sd fp (set_string s)"
  using read_readable [of s]
  by (simp add: reads_back_def toString.simps set_string_def string_escape_def parse_Cons with_str_def with_type_def junset_def)


lemma parse_comma:
  "parse_loop fp True False negative v (0x2C # cs) n =
     do { v \<leftarrow> negated negative v; parse_loop fp True False negative v cs (n + 1) }"
  "parse_loop fp False True negative v (0x2C # cs) n =
     do { v \<leftarrow> negated negative v; (k, child) \<leftarrow> parse_loop fp False False False junset cs 0;
          parse_loop fp False True negative (append v child) (drop k cs) (n + 1 + k) }"
  by (simp_all add: parse_Cons)

lemma with_type_container [simp]: "with_type junset ARRAY = aval []" "with_type junset OBJECT = oval []"
  by (simp_all add: with_type_def junset_def aval_def oval_def)

lemma toString_container:
  "toString sd (aval xs) = 0x5B # commas (map (\<lambda>x. or_null (toString sd x)) xs) @ [0x5D]"
  "toString sd (oval kvs) =
     0x7B # commas (map (\<lambda>(k, x). string_escape k False @ 0x3A # or_null (toString sd x)) kvs) @ [0x7D]"
  by (subst toString.simps, simp add: aval_def oval_def)+

lemma parse_open:
  "parse_loop fp False False False junset (0x5B # cs) n =
     do { (k, child) \<leftarrow> parse_loop fp False False False junset cs 0;
          parse_loop fp False True False (if myType child = UNSET then aval [] else append (aval []) child)
            (drop k cs) (n + 1 + k) }"
  "parse_loop fp False False False junset (0x7B # cs) n = parse_loop fp True False False (oval []) cs (n + 1)"
  by (simp_all add: parse_Cons cong: if_cong)

lemma parse_close:
  "parse_loop fp False True False v (0x5D # r) n = Some (n + 1, v)"
  "parse_loop fp True False False v (0x7D # r) n = Some (n + 1, v)"
  "parse_loop fp False False False v (0x5D # r) n = Some (n, v)"
  by (simp_all add: parse_Cons)

lemma append_aval [simp]: "append (aval xs) x = aval (xs @ [x])"
  by (simp add: append_def aval_def to_container_def with_arrVal_def Let_def)

lemma ends_simps [simp]: "ends (0x2C # r)" "ends (0x5D # r)" "ends (0x7D # r)"
  by (simp_all add: ends_def)

lemma reads_backD:
  "reads_back sd fp v \<Longrightarrow> ends r \<Longrightarrow>
     parse_loop fp False False False junset (toString sd v @ r) n = Some (n + length (toString sd v), v)"
  by (simp add: reads_back_def)

definition rest :: "bytes list \<Rightarrow> bytes" where
  "rest ss = concat (map (\<lambda>s. 0x2C # s) ss)"

lemma commas_rest: "commas (s # ss) = s @ rest ss"
  by (induction ss arbitrary: s) (simp_all add: rest_def)

lemma parse_elements:
  "(\<And>x. x \<in> set xs \<Longrightarrow> reads_back sd fp x) \<Longrightarrow>
   parse_loop fp False True False (aval ys) (rest (map (toString sd) xs) @ 0x5D # r) n =
     Some (n + length (rest (map (toString sd) xs)) + 1, aval (ys @ xs))"
proof (induction xs arbitrary: ys n)
  case Nil
  then show ?case by (simp add: rest_def parse_close)
next
  case (Cons x xs)
  let ?r = "rest (map (toString sd) xs) @ 0x5D # r"
  have "ends ?r" by (cases xs) (simp_all add: rest_def)
  then show ?case
    using Cons.IH [of "ys @ [x]"] Cons.prems reads_backD [of sd fp x ?r 0]
    by (simp add: rest_def parse_comma)
qed

lemma reads_back_array:
  assumes "\<And>x. x \<in> set xs \<Longrightarrow> reads_back sd fp x"
  shows "reads_back sd fp (aval xs)"
proof -
  have t: "map (\<lambda>x. or_null (toString sd x)) xs = map (toString sd) xs"
    using assms by (auto simp: or_null_def reads_back_def)
  have p: "parse_loop fp False False False junset (0x5B # commas (map (toString sd) xs) @ 0x5D # r) n =
     Some (n + length (commas (map (toString sd) xs)) + 2, aval xs)" for r n
  proof (cases xs)
    case Nil
    have "myType junset = UNSET" by (simp add: junset_def)
    then show ?thesis using Nil by (simp add: parse_open parse_close)
  next
    case (Cons x ys)
    let ?r = "rest (map (toString sd) ys) @ 0x5D # r"
    have "ends ?r" by (cases ys) (simp_all add: rest_def)
    then show ?thesis
      using assms reads_backD [of sd fp x ?r 0] parse_elements [of ys sd fp "[x]" r]
      by (simp add: Cons commas_rest parse_open reads_back_def)
  qed
  then show ?thesis unfolding reads_back_def toString_container t by (simp add: aval_def)
qed

lemma less_map_oput: "(\<And>k' x'. (k', x') \<in> set kvs \<Longrightarrow> k' < k) \<Longrightarrow> oput k x kvs = kvs @ [(k, x)]"
proof (induction kvs)
  case (Cons y kvs)
  obtain k' x' where y: "y = (k', x')" by (cases y)
  have "k' < k" using Cons.prems y by auto
  then show ?case using Cons y by (auto simp: less_imp_neq dest: less_asym)
qed simp

lemma put_member_oval: "(\<And>k' x'. (k', x') \<in> set kvs \<Longrightarrow> k' < k) \<Longrightarrow> put_member (oval kvs) k x = oval (kvs @ [(k, x)])"
  by (simp add: put_member_def oval_def to_container_def with_objVal_def Let_def less_map_oput)

definition print_member :: "(u64 \<Rightarrow> bytes) \<Rightarrow> bytes \<times> jval \<Rightarrow> bytes" where
  "print_member sd kx = string_escape (fst kx) False @ 0x3A # toString sd (snd kx)"

lemma parse_member:
  assumes "readable k" "reads_back sd fp x" "ends r" "\<And>k' x'. (k', x') \<in> set kvs \<Longrightarrow> k' < k"
  shows "parse_loop fp True False False (oval kvs) (print_member sd (k, x) @ r) n =
    parse_loop fp True False False (oval (kvs @ [(k, x)])) r (n + length (print_member sd (k, x)))"
proof -
  let ?s = "string_escape k False @ 0x3A # toString sd x @ r"
  obtain cs where cs: "?s = 0x22 # cs" by (simp add: string_escape_def)
  have "parse_loop fp False False False junset (0x3A # toString sd x @ r) 0 = Some (Suc (length (toString sd x)), x)"
    using reads_backD [OF assms(2,3), of 1] by (simp add: parse_Cons)
  moreover have "read_string ?s = (length (string_escape k False), k)" using read_readable [OF assms(1)] .
  moreover have "put_member (oval kvs) k x = oval (kvs @ [(k, x)])" using assms(4) by (rule put_member_oval)
  ultimately show ?thesis
   using parse_Cons [of fp True False False "oval kvs" "0x22" cs n] by (simp add: print_member_def cs [symmetric] add.assoc)
qed


lemma parse_members:
  assumes "\<And>k x. (k, x) \<in> set kvs \<Longrightarrow> readable k \<and> reads_back sd fp x" "sorted_wrt (<) (map fst (acc @ kvs))"
  shows "parse_loop fp True False False (oval acc) (rest (map (print_member sd) kvs) @ 0x7D # r) n =
    Some (n + length (rest (map (print_member sd) kvs)) + 1, oval (acc @ kvs))"
  using assms
proof (induction kvs arbitrary: acc n)
  case Nil
  then show ?case by (simp add: rest_def parse_close)
next
  case (Cons y kvs)
  obtain k x where y: "y = (k, x)" by (cases y)
  let ?r = "rest (map (print_member sd) kvs) @ 0x7D # r"
  have e: "ends ?r" by (cases kvs) (simp_all add: rest_def)
  have k: "\<And>k' x'. (k', x') \<in> set acc \<Longrightarrow> k' < k"
    using Cons.prems(2) by (force simp: y sorted_wrt_append)
  have m: "readable k" "reads_back sd fp x" using Cons.prems(1) y by auto
  have "rest (map (print_member sd) (y # kvs)) = 0x2C # print_member sd (k, x) @ rest (map (print_member sd) kvs)"
    by (simp add: rest_def y)
  moreover have "parse_loop fp True False False (oval (acc @ [(k, x)])) ?r i =
      Some (i + length (rest (map (print_member sd) kvs)) + 1, oval ((acc @ [(k, x)]) @ kvs))" for i
    by (rule Cons.IH) (use Cons.prems y in auto)
  ultimately show ?case
    using parse_member [where kvs = acc and n = "n + 1", OF m e k] by (simp add: y parse_comma)
qed

lemma reads_back_object:
  assumes "\<And>k x. (k, x) \<in> set kvs \<Longrightarrow> readable k \<and> reads_back sd fp x" "sorted_wrt (<) (map fst kvs)"
  shows "reads_back sd fp (oval kvs)"
proof -
  have t: "map (\<lambda>(k, x). string_escape k False @ 0x3A # or_null (toString sd x)) kvs = map (print_member sd) kvs"
    using assms(1) by (fastforce simp: print_member_def or_null_def reads_back_def)
  have p: "parse_loop fp False False False junset (0x7B # commas (map (print_member sd) kvs) @ 0x7D # r) n =
     Some (n + length (commas (map (print_member sd) kvs)) + 2, oval kvs)" for r n
  proof (cases kvs)
    case Nil
    then show ?thesis by (simp add: parse_open parse_close)
  next
    case (Cons y ys)
    obtain k x where y: "y = (k, x)" by (cases y)
    let ?r = "rest (map (print_member sd) ys) @ 0x7D # r"
    have e: "ends ?r" by (cases ys) (simp_all add: rest_def)
    have m: "readable k" "reads_back sd fp x" using assms(1) Cons y by auto
    have "parse_loop fp True False False (oval [(k, x)]) ?r i =
        Some (i + length (rest (map (print_member sd) ys)) + 1, oval ([(k, x)] @ ys))" for i
      by (rule parse_members) (use assms Cons y in auto)
    then show ?thesis
      using parse_member [where kvs = "[]" and n = "n + 1", OF m e]
      by (simp add: Cons y commas_rest parse_open)
  qed
  then show ?thesis unfolding reads_back_def toString_container t by (simp add: oval_def)
qed

lemma plain_reads_back: "plain v \<Longrightarrow> reads_back sd fp v"
proof (induction rule: plain.induct)
  case (plain_array xs)
  then show ?case using reads_back_array [of xs] by (simp add: aval_def)
next
  case (plain_object kvs)
  then show ?case using reads_back_object [of kvs] by (simp add: oval_def)
qed (simp_all add: reads_back_int reads_back_bool reads_back_null reads_back_string)

lemma fromString_plain: "plain v \<Longrightarrow> fromString fp (toString sd v) = Some (length (toString sd v), v)"
  using reads_backD [OF plain_reads_back, of v "[]" fp sd 0] by (simp add: fromString_def ends_def)

lemma add_digit_overflows:
  "is_digit c \<Longrightarrow> m < 2 ^ 63 \<Longrightarrow> 2 ^ 63 \<le> m * 10 + (unat c - 48) \<Longrightarrow> add_digit fp (ival m) c = None"
  by (simp add: add_digit_def ival_def Let_def sint_of_nat unat_digit with_int_def)

lemma to_dec_smallest: "to_dec (2 ^ 63) = str ''9223372036854775808''"
  by (simp add: to_dec.simps byte_simps)

lemma show_smallest: "show_int 0x8000000000000000 = str ''-9223372036854775808''"
  using to_dec_smallest by (simp add: show_int_def byte_simps)

lemma parse_smallest:
  "parse_loop fp False False False junset (str ''-9223372036854775808'') 0 = None"
  by (simp add: byte_simps parse_Cons [where c = "0x2D"] parse_digit is_digit_def add_digit_first
       add_digit_ival add_digit_overflows)

lemma readable_ascii: "(\<forall>c \<in> set s. c < 0x80) \<Longrightarrow> readable s"
proof -
  assume a: "\<forall>c \<in> set s. c < 0x80"
  have u: "(ucast c :: u32) < 0x80" if "c < 0x80" for c :: byte
    using that unsigned_less [of c, where ?'a = nat]
    by (simp add: word_less_nat_alt unsigned_ucast_eq take_bit_nat_eq_self)
  have "utf8s (map ucast s) = s" using a
  proof (induction s)
    case (Cons c s)
    have "ucast (ucast c :: u32) = c" by (rule bit_word_eqI) (auto simp: bit_simps)
    then show ?case using u [of c] Cons by (simp add: utf8s_def utf8_def)
  qed (simp add: utf8s_def)
  moreover have "kept_chars (map ucast s)" using a u by (fastforce simp: kept_chars_def word_less_nat_alt)
  ultimately show "readable s" unfolding readable_def by metis
qed

section \<open>Properties\<close>

text \<open>C5: a value that \<open>toString\<close> prints is what \<open>fromString\<close> reads, and all of the text is read: for
  every nesting of arrays and objects of numbers, truth values, nulls and strings, with any key
  order a \<open>std::map\<close> can have; strings are UTF-8 without characters of three bytes, numbers are not
  the smallest one.\<close>

theorem fromString_toString:
  assumes "plain v"
  shows "fromString fp (toString sd v) = Some (length (toString sd v), v)"
  using assms by (rule fromString_plain)

definition sample_json :: jval where
  "sample_json = oval [(str ''a'', aval [set_int 1, set_int (- 5), jnull]), (str ''b'', set_string (str ''x''))]"

theorem fromString_toString_witness:
  "\<forall>fp sd. fromString fp (toString sd sample_json) = Some (length (toString sd sample_json), sample_json)"
proof (intro allI fromString_toString)
  have "plain (aval [set_int 1, set_int (- 5), jnull])"
    unfolding aval_def by (rule plain_array) (auto intro!: plain.intros)
  moreover have "plain (set_string (str ''x''))"
    by (intro plain_string readable_ascii) (simp add: byte_simps)
  ultimately show "plain sample_json" unfolding sample_json_def oval_def
    by (intro plain_object) (auto intro!: readable_ascii simp: byte_simps)
qed

text \<open>The smallest integer is printed as its digits behind a minus sign; reading them back
  overflows before the sign is applied.\<close>

theorem smallest_int_overflows:
  "toString sd (set_int 0x8000000000000000) = str ''-9223372036854775808'' \<and>
   fromString fp (toString sd (set_int 0x8000000000000000)) = None"
  using show_smallest parse_smallest
  by (simp add: toString.simps [of sd "set_int 0x8000000000000000"] fromString_def) (simp add: set_int_def)

end
