(* ===== verification/JsonPack.thy ===== *)
theory JsonPack
  imports JsonParse
begin

text \<open>
  The packed form of JSON values, which the stream container carries (\<open>lib/json.cpp\<close>): writing it
  (\<open>toPacked\<close>, \<open>packedSize\<close>, \<open>sendTo\<close>, \<open>netPrepare\<close>, \<open>toNetPacked\<close>) and reading it (\<open>fromDTMI\<close>,
  \<open>fromDTMI2\<close>).

  \<open>fromDTMI\<close> need not return: its value is \<open>None\<close> when it does not, and \<open>Some None\<close> when it reads
  outside of the memory area it is given.
\<close>

section \<open>Writing\<close>

definition packed_num :: "byte \<Rightarrow> u64 \<Rightarrow> bytes" where
  "packed_num t n = the (htobll (t # str ''12345678'') 1 n)"

definition packed_str :: "bytes \<Rightarrow> bytes" where
  "packed_str s = the (htobl (0x02 # str ''1234'') 1 (of_nat (length s))) @ s"

definition packed_key :: "bytes \<Rightarrow> bytes" where
  "packed_key k = [of_nat (length k div 256), of_nat (length k mod 256)] @ k"

function toPacked :: "jval \<Rightarrow> bytes" where
  "toPacked v =
     (if isInt v \<or> isBool v then packed_num 0x01 (intVal v)
      else if isString v then packed_str (strVal v)
      else if isDouble v then packed_num 0x04 (dblVal v)
      else if isNull v then [0x03]
      else if isObject v then
        0xE0 # concat (map (\<lambda>(k, x). if 0 < length k then packed_key k @ toPacked x else []) (objVal v))
        @ [0x00, 0x00, 0xEE]
      else if isArray v then 0x0A # concat (map toPacked (arrVal v)) @ [0x00, 0x00, 0xEE]
      else [])"
  by pat_completeness auto
termination
  by (relation "measure size") auto

declare toPacked.simps [simp del]

function packedSize :: "jval \<Rightarrow> u64" where
  "packedSize v =
     (if isInt v \<or> isBool v then 9
      else if isNull v then 1
      else if isDouble v then 9
      else if isString v then 5 + of_nat (length (strVal v))
      else if isObject v then
        4 + sum_list (map (\<lambda>(k, x). if 0 < length k then 2 + of_nat (length k) + packedSize x else 0) (objVal v))
      else if isArray v then 4 + sum_list (map packedSize (arrVal v))
      else 0)"
  by pat_completeness auto
termination
  by (relation "measure size") auto

declare packedSize.simps [simp del]

text \<open>The keys that \<open>sendTo\<close> puts into the header of a packet.\<close>

definition header_keys :: "bytes list" where
  "header_keys = [str ''trackid'', str ''time'', str ''datatype'']"

definition sizebuffer :: "bytes \<Rightarrow> bytes" where
  "sizebuffer k = [of_nat (length k div 256) AND 0xFF, of_nat (length k) AND 0xFF]"

definition halves :: "u64 \<Rightarrow> bytes" where
  "halves t = be_bytes 4 (ucast (drop_bit 32 t) :: u32) @ be_bytes 4 (ucast (t AND 0xFFFFFFFF) :: u32)"

text \<open>What \<open>sendTo\<close> writes to the socket.\<close>

function sendTo :: "jval \<Rightarrow> bytes option" where
  "sendTo v =
     (if isObject v then
        (if isMember v (str ''trackid'') \<and> isMember v (str ''time'') then
           do { trackid \<leftarrow> asInt (const_member v (str ''trackid''));
                time \<leftarrow> asInt (const_member v (str ''time''));
                parts \<leftarrow> those (map (\<lambda>(k, x).
                    if 0 < length k \<and> k \<notin> set header_keys
                    then do { b \<leftarrow> sendTo x; Some (sizebuffer k @ k @ b) } else Some []) (objVal v));
                Some (str ''DTP2''
                  @ be_bytes 4 (16 + sum_list (map (\<lambda>(k, x).
                      if 0 < length k \<and> k \<notin> set header_keys
                      then 2 + of_nat (length k) + ucast (packedSize x) else 0) (objVal v)) :: u32)
                  @ be_bytes 4 (ucast trackid :: u32) @ halves time
                  @ 0xE0 # concat parts @ [0x00, 0x00, 0xEE]) }
         else
           do { parts \<leftarrow> those (map (\<lambda>(k, x).
                    if 0 < length k then do { b \<leftarrow> sendTo x; Some (sizebuffer k @ k @ b) } else Some []) (objVal v));
                Some ((if isMember v (str ''tracks'')
                       then str ''DTSC'' @ be_bytes 4 (ucast (packedSize v) :: u32) else [])
                  @ 0xE0 # concat parts @ [0x00, 0x00, 0xEE]) })
      else if isArray v then
        do { parts \<leftarrow> those (map sendTo (arrVal v)); Some (0x0A # concat parts @ [0x00, 0x00, 0xEE]) }
      else Some (toPacked v))"
  by pat_completeness auto
termination
  by (relation "measure size") auto

declare sendTo.simps [simp del]

definition str_resize :: "bytes \<Rightarrow> nat \<Rightarrow> bytes" where
  "str_resize s n = take n s @ replicate (n - length s) 0"

text \<open>The packet number of \<open>netPrepare\<close>, and the value with the members it looked at.\<close>

definition pack_id :: "jval \<Rightarrow> bytes \<Rightarrow> (jval \<times> u32) option" where
  "pack_id v dataType =
     (if isMember v (str ''trackid'') then
        do { n \<leftarrow> asInt (snd (get_member v (str ''trackid''))); Some (v, ucast n) }
      else
        Some (v, if dataType = str ''video'' then 1 else if dataType = str ''audio'' then 2
                 else if dataType = str ''meta'' then 3 else 0))"

definition netPrepare :: "(u64 \<Rightarrow> bytes) \<Rightarrow> jval \<Rightarrow> jval option" where
  "netPrepare sd v =
     (if myType v \<noteq> OBJECT then Some v
      else
        do { let packed = toPacked v;
             let (v, tm) = get_member v (str ''time'');
             time \<leftarrow> asInt tm;
             (v, packID, packed, s) \<leftarrow>
               (if isMember v (str ''datatype'') \<or> isMember v (str ''trackid'') then
                  do { let (v, dt) = get_member v (str ''datatype'');
                       let dataType = asString sd dt;
                       (v, packID) \<leftarrow> pack_id v dataType;
                       let v = removeMember v (str ''time'');
                       let v = (if packID \<noteq> 0 then removeMember v (str ''datatype'') else v);
                       let v = removeMember v (str ''trackid'');
                       let packed = toPacked v;
                       let v = put_member v (str ''time'') (set_int time);
                       let v = put_member v (str ''datatype'') (set_string dataType);
                       let v = put_member v (str ''trackid'') (set_int (scast packID));
                       s \<leftarrow> wrn (str_resize (strVal v) (length packed + 20)) 0 (str ''DTP2'');
                       Some (v, packID, packed, s) }
                else
                  do { s \<leftarrow> wrn (str_resize (strVal v) (length packed + 8)) 0 (str ''DTSC'');
                       Some (v, - 1, packed, s) });
             let sz = (of_nat (length packed) + (if packID \<noteq> - 1 then 12 else 0) :: u32);
             s \<leftarrow> wrn s 4 (be_bytes 4 sz);
             s \<leftarrow> (if packID = - 1 then wrn s 8 packed
                  else do { s \<leftarrow> wrn s 8 (be_bytes 4 packID);
                            s \<leftarrow> wrn s 12 (halves time);
                            wrn s 20 packed });
             Some (with_str v s) })"

definition toNetPacked :: "(u64 \<Rightarrow> bytes) \<Rightarrow> jval \<Rightarrow> (jval \<times> bytes) option" where
  "toNetPacked sd v =
     (if myType v \<noteq> OBJECT then Some (v, [])
      else if take 2 (strVal v) \<noteq> str ''DT'' then
        do { v \<leftarrow> netPrepare sd v; Some (v, strVal v) }
      else Some (v, strVal v))"

section \<open>Reading\<close>

text \<open>Where the reader is: at a value, in the loop over the members of an object, or in the loop over
  the elements of an array, with what it has so far.\<close>

datatype dtmi_at = At_value | At_members jval | At_elements jval

partial_function (option) from_dtmi ::
  "bytes \<Rightarrow> u64 \<Rightarrow> dtmi_at \<Rightarrow> u32 \<Rightarrow> (u32 \<times> jval) option option" where
  "from_dtmi dat len w i =
     (case w of
        At_value \<Rightarrow>
          if len \<le> ucast i then Some (Some (i, junset))
          else
            (case rd dat (unat i) of
               None \<Rightarrow> Some None
             | Some c \<Rightarrow>
                 if c = 0x01 then
                   (if len \<le> ucast (i + 8) then Some (Some (i, junset))
                    else Some (do { n \<leftarrow> btohll dat (unat i + 1); Some (i + 9, set_int n) }))
                 else if c = 0x02 then
                   (if len \<le> ucast (i + 4) then Some (Some (i, junset))
                    else Some (do { tmpi \<leftarrow> btohl dat (unat i + 1);
                                    tmpstr \<leftarrow> rdn dat (unat i + 5) (unat tmpi);
                                    if len \<le> ucast (i + 4 + tmpi) then Some (i, junset)
                                    else Some (i + tmpi + 5, set_string tmpstr) }))
                 else if c = 0x03 then Some (Some (i + 1, jnull))
                 else if c = 0x04 then
                   (if len \<le> ucast (i + 8) then Some (Some (i, junset))
                    else Some (do { d \<leftarrow> btohd dat (unat i + 1); Some (i + 9, set_double d) }))
                 else if c = 0xFF \<or> c = 0xE0 then from_dtmi dat len (At_members junset) (i + 1)
                 else if c = 0x0A then from_dtmi dat len (At_elements junset) (i + 1)
                 else Some (Some (i + 1, junset)))
      | At_members ret \<Rightarrow>
          (case (rd dat (unat i), rd dat (unat (i + 1))) of
             (Some a, Some b) \<Rightarrow>
               if (a \<noteq> 0 \<or> b \<noteq> 0) \<and> ucast i < len then
                 (if len \<le> ucast (i + 2) then Some (Some (i, ret))
                  else
                    (case do { tmpi \<leftarrow> btohs dat (unat i); tmpstr \<leftarrow> rdn dat (unat i + 2) (unat tmpi);
                               Some (tmpi, tmpstr) } of
                       None \<Rightarrow> Some None
                     | Some (tmpi, tmpstr) \<Rightarrow>
                         do { r \<leftarrow> from_dtmi dat len At_value (i + (ucast tmpi + 2));
                              case r of
                                None \<Rightarrow> Some None
                              | Some (i, v) \<Rightarrow> from_dtmi dat len (At_members (put_member ret tmpstr v)) i }))
               else Some (Some (i + 3, ret))
           | _ \<Rightarrow> Some None)
      | At_elements ret \<Rightarrow>
          (case (rd dat (unat i), rd dat (unat (i + 1))) of
             (Some a, Some b) \<Rightarrow>
               if (a \<noteq> 0 \<or> b \<noteq> 0) \<and> ucast i < len then
                 do { r \<leftarrow> from_dtmi dat len At_value i;
                      case r of
                        None \<Rightarrow> Some None
                      | Some (i, tval) \<Rightarrow> from_dtmi dat len (At_elements (append ret tval)) i }
               else Some (Some (i + 3, ret))
           | _ \<Rightarrow> Some None))"

definition fromDTMI :: "bytes \<Rightarrow> u64 \<Rightarrow> u32 \<Rightarrow> (u32 \<times> jval) option option" where
  "fromDTMI dat len i = from_dtmi dat len At_value i"

definition fromDTMI2 :: "bytes \<Rightarrow> u64 \<Rightarrow> u32 \<Rightarrow> jval \<Rightarrow> (u32 \<times> jval) option option" where
  "fromDTMI2 dat len i ret =
     (if len < 20 then Some (Some (i, ret))
      else
        (case do { tid \<leftarrow> btohl dat (unat i); time \<leftarrow> btohll dat (unat i + 4); Some (tid, time) } of
           None \<Rightarrow> Some None
         | Some (tid, time) \<Rightarrow>
             do { r \<leftarrow> fromDTMI dat len (i + 12);
                  Some (do { (i, ret) \<leftarrow> r;
                             Some (i, put_member (put_member ret (str ''time'') (set_int time))
                                        (str ''trackid'') (set_int (ucast tid))) }) }))"

section \<open>Sizes\<close>

lemma packed_num_eq: "packed_num t n = t # be_bytes 8 n"
  by (simp add: packed_num_def htobll_eq wrn_def str_def)

lemma packed_str_eq: "packed_str s = 0x02 # be_bytes 4 (of_nat (length s) :: u32) @ s"
  by (simp add: packed_str_def htobl_eq wrn_def str_def)

lemma length_packed_key [simp]: "length (packed_key k) = length k + 2"
  by (simp add: packed_key_def)

lemma toPacked_object:
  "myType v = OBJECT \<Longrightarrow> toPacked v =
     0xE0 # concat (map (\<lambda>(k, x). if 0 < length k then packed_key k @ toPacked x else []) (objVal v))
     @ [0x00, 0x00, 0xEE]"
  and toPacked_array:
  "myType v = ARRAY \<Longrightarrow> toPacked v = 0x0A # concat (map toPacked (arrVal v)) @ [0x00, 0x00, 0xEE]"
  by (subst toPacked.simps, simp add: type_tests)+

lemma toPacked_leaf:
  "toPacked (set_int n) = 0x01 # be_bytes 8 n"
  "toPacked (set_double d) = 0x04 # be_bytes 8 d"
  "toPacked (set_string s) = 0x02 # be_bytes 4 (of_nat (length s) :: u32) @ s"
  "toPacked jnull = [0x03]"
  by (subst toPacked.simps, simp add: type_tests set_int_def set_double_def set_string_def jnull_def
      packed_num_eq packed_str_eq)+

lemma sum_list_lengths:
  "(\<And>x. x \<in> set xs \<Longrightarrow> f x = of_nat (length (g x))) \<Longrightarrow> sum_list (map f xs) = (of_nat (length (concat (map g xs))) :: u64)"
  by (induction xs) simp_all

lemma packedSize_length: "packedSize v = of_nat (length (toPacked v))"
proof (induction v rule: packedSize.induct)
  case (1 v)
  consider "isInt v \<or> isBool v" | "isNull v" | "isDouble v" | "isString v" | "isObject v" | "isArray v"
    by (cases "myType v") (auto simp: type_tests)
  then show ?case
  proof cases
    case 5
    have "sum_list (map (\<lambda>(k, x). if 0 < length k then 2 + of_nat (length k) + packedSize x else 0) (objVal v))
       = (of_nat (length (concat (map (\<lambda>(k, x). if 0 < length k then packed_key k @ toPacked x else []) (objVal v)))) :: u64)"
      by (rule sum_list_lengths) (use "1.IH"(1) 5 in \<open>auto simp: type_tests\<close>)
    then show ?thesis using 5
      by (subst packedSize.simps, subst toPacked.simps) (simp add: type_tests)
  next
    case 6
    have "sum_list (map packedSize (arrVal v)) = (of_nat (length (concat (map toPacked (arrVal v)))) :: u64)"
      by (rule sum_list_lengths) (use "1.IH"(2) 6 in \<open>auto simp: type_tests\<close>)
    then show ?thesis using 6
      by (subst packedSize.simps, subst toPacked.simps) (simp add: type_tests)
  qed (subst packedSize.simps, subst toPacked.simps, auto simp: type_tests packed_num_eq packed_str_eq)+
qed

lemma sizebuffer_eq: "sizebuffer k @ k = packed_key k"
proof -
  have m: "x AND 0xFF = (x :: byte)" for x by (rule byte_bits_eqI) (simp_all add: bit_simps)
  have "(of_nat (length k) :: byte) = of_nat (length k mod 256)" 
    by (simp add: word_unat_eq_iff unat_of_nat)
  then show ?thesis by (simp add: sizebuffer_def packed_key_def m)
qed

inductive bare :: "jval \<Rightarrow> bool" where
  bare_array: "myType v = ARRAY \<Longrightarrow> (\<And>x. x \<in> set (arrVal v) \<Longrightarrow> bare x) \<Longrightarrow> bare v"
| bare_object: "myType v = OBJECT \<Longrightarrow> (\<And>k x. (k, x) \<in> set (objVal v) \<Longrightarrow> bare x) \<Longrightarrow>
    \<not> (isMember v (str ''trackid'') \<and> isMember v (str ''time'')) \<Longrightarrow> \<not> isMember v (str ''tracks'') \<Longrightarrow> bare v"
| bare_other: "myType v \<noteq> ARRAY \<Longrightarrow> myType v \<noteq> OBJECT \<Longrightarrow> bare v"

lemma those_Some: "(\<And>x. x \<in> set xs \<Longrightarrow> f x = Some (g x)) \<Longrightarrow> those (map f xs) = Some (map g xs)"
  by (induction xs) auto

lemma sendTo_bare: "bare v \<Longrightarrow> sendTo v = Some (toPacked v)"
proof (induction rule: bare.induct)
  case (bare_array v)
  then show ?case using those_Some [of "arrVal v" sendTo toPacked]
    by (subst sendTo.simps) (simp add: type_tests toPacked_array)
next
  case (bare_object v)
  have "those (map (\<lambda>(k, x). if 0 < length k then do { b \<leftarrow> sendTo x; Some (sizebuffer k @ k @ b) } else Some []) (objVal v))
    = Some (map (\<lambda>(k, x). if 0 < length k then packed_key k @ toPacked x else []) (objVal v))"
    by (rule those_Some) (use bare_object in \<open>auto simp flip: sizebuffer_eq\<close>)
  then show ?case using bare_object(1,3,4)
    by (subst sendTo.simps) (simp add: type_tests toPacked_object del: de_Morgan_conj)
next
  case (bare_other v)
  then show ?case by (subst sendTo.simps) (simp add: type_tests)
qed


section \<open>Packed values are read back\<close>

inductive packable :: "jval \<Rightarrow> bool" where
  packable_int: "packable (set_int n)"
| packable_double: "packable (set_double d)"
| packable_null: "packable jnull"
| packable_string: "packable (set_string s)"
| packable_array: "xs \<noteq> [] \<Longrightarrow> (\<And>x. x \<in> set xs \<Longrightarrow> packable x) \<Longrightarrow> packable (aval xs)"
| packable_object: "kvs \<noteq> [] \<Longrightarrow> (\<And>k x. (k, x) \<in> set kvs \<Longrightarrow> 0 < length k \<and> length k < 65536 \<and> packable x) \<Longrightarrow>
    sorted_wrt (<) (map fst kvs) \<Longrightarrow> packable (oval kvs)"

definition unpacks :: "jval \<Rightarrow> bool" where
  "unpacks v \<longleftrightarrow> toPacked v \<noteq> [] \<and> hd (toPacked v) \<noteq> 0 \<and>
     (\<forall>pre post len i. unat i = length pre \<longrightarrow> length pre + length (toPacked v) \<le> unat len \<longrightarrow>
        unat len \<le> length (pre @ toPacked v @ post) \<longrightarrow> length (pre @ toPacked v @ post) < 2 ^ 31 \<longrightarrow>
        from_dtmi (pre @ toPacked v @ post) len At_value i = Some (Some (i + of_nat (length (toPacked v)), v)))"

lemma u64_le_u32: "len \<le> ucast (i :: u32) \<longleftrightarrow> unat (len :: u64) \<le> unat i"
  by (simp add: word_le_nat_alt unsigned_ucast_eq take_bit_nat_eq_self order.strict_trans [OF unsigned_less [of i, where ?'a = nat]])

lemma u32_add: "unat (i :: u32) + n < 2 ^ 32 \<Longrightarrow> unat (i + of_nat n) = unat i + n"
  by (simp add: unat_word_ariths unat_of_nat mod_add_right_eq)

lemma btohll_at: "length pre = n \<Longrightarrow> btohll (pre @ t # be_bytes 8 v @ post) (Suc n) = Some v"
  by (simp add: btohll_eq rdn_def be_val_be_bytes)

lemma btohl_at: "length pre = n \<Longrightarrow> btohl (pre @ t # be_bytes 4 v @ post) (Suc n) = Some v"
  by (simp add: btohl_eq rdn_def be_val_be_bytes)

lemma unpacks_int: "unpacks (set_int n)"
  unfolding unpacks_def toPacked_leaf
  using u32_add [of _ 8]
  by (auto simp: from_dtmi.simps u64_le_u32 btohll_at)


lemma btohd_at: "length pre = n \<Longrightarrow> btohd (pre @ t # be_bytes 8 v @ post) (Suc n) = Some v"
  by (simp add: btohd_def btohll_at)

lemma unpacks_double: "unpacks (set_double n)"
  unfolding unpacks_def toPacked_leaf
  using u32_add [of _ 8]
  by (auto simp: from_dtmi.simps u64_le_u32 btohd_at)

lemma unpacks_null: "unpacks jnull"
  unfolding unpacks_def toPacked_leaf
  by (auto simp: from_dtmi.simps u64_le_u32)

lemma unpacks_string: "unpacks (set_string s)"
  unfolding unpacks_def toPacked_leaf
proof (intro conjI allI impI)
  fix pre post and len :: u64 and i :: u32
  let ?b = "0x02 # be_bytes 4 (of_nat (length s) :: u32) @ s"
  let ?dat = "pre @ ?b @ post"
  assume a: "unat i = length pre" "length pre + length ?b \<le> unat len" "unat len \<le> length ?dat"
    "length ?dat < 2 ^ 31"
  have l: "unat (of_nat (length s) :: u32) = length s" using a(4) by (simp add: unat_of_nat)
  have "btohl ?dat (Suc (unat i)) = Some (of_nat (length s))"
    using btohl_at [of pre "length pre" "0x02" "of_nat (length s)" "s @ post"] a(1) by simp
  moreover have "rdn ?dat (unat i + 5) (length s) = Some s"
    using a(1) by (simp add: rdn_def)
  moreover have "unat (i + 4) = length pre + 4" "unat (i + 4 + of_nat (length s)) = length pre + 4 + length s"
    using u32_add [of i 4] u32_add [of i "4 + length s"] a by (simp_all add: add.assoc)
  ultimately show "from_dtmi ?dat len At_value i = Some (Some (i + of_nat (length ?b), set_string s))"
    using a l by (simp add: from_dtmi.simps u64_le_u32 algebra_simps)
qed simp_all

lemma unpacksD:
  assumes "unpacks v" "unat i = length pre" "length pre + length (toPacked v) \<le> unat len"
    "unat len \<le> length (pre @ toPacked v @ post)" "length (pre @ toPacked v @ post) < 2 ^ 31"
  shows "from_dtmi (pre @ toPacked v @ post) len At_value i = Some (Some (i + of_nat (length (toPacked v)), v))"
  using assms by (simp add: unpacks_def)

lemma element_step:
  assumes "rd dat (unat i) = Some a" "rd dat (unat (i + 1)) = Some b" "a \<noteq> 0 \<or> b \<noteq> 0" "ucast i < len"
    "from_dtmi dat len At_value i = Some (Some (j, v))"
  shows "from_dtmi dat len (At_elements acc) i = from_dtmi dat len (At_elements (append acc v)) j"
  using assms by (simp add: from_dtmi.simps [of dat len "At_elements acc"])

lemma member_step:
  assumes "rd dat (unat i) = Some a" "rd dat (unat (i + 1)) = Some b" "a \<noteq> 0 \<or> b \<noteq> 0" "ucast i < len"
    "\<not> len \<le> ucast (i + 2)" "btohs dat (unat i) = Some n" "rdn dat (unat i + 2) (unat n) = Some k"
    "from_dtmi dat len At_value (i + (ucast n + 2)) = Some (Some (j, v))"
  shows "from_dtmi dat len (At_members acc) i = from_dtmi dat len (At_members (put_member acc k v)) j"
  using assms by (simp add: from_dtmi.simps [of dat len "At_members acc"])

lemma rd_append_Suc: "rd (xs @ y # ys) (Suc (length xs)) = rd ys 0"
  by (simp add: rd_def nth_append)

lemma unpack_elements:
  assumes "\<And>x. x \<in> set xs \<Longrightarrow> unpacks x"
    and "unat i = length pre" "length pre + length (concat (map toPacked xs)) + 3 \<le> unat len"
    and "unat len \<le> length (pre @ concat (map toPacked xs) @ [0, 0, 0xEE] @ post)"
    and "length (pre @ concat (map toPacked xs) @ [0, 0, 0xEE] @ post) < 2 ^ 31"
  shows "from_dtmi (pre @ concat (map toPacked xs) @ [0, 0, 0xEE] @ post) len (At_elements acc) i =
    Some (Some (i + of_nat (length (concat (map toPacked xs)) + 3), foldl append acc xs))"
  using assms
proof (induction xs arbitrary: pre i acc)
  case Nil
  then show ?case using u32_add [of i 1] by (simp add: from_dtmi.simps [of _ _ "At_elements acc"] rd_append_Suc)
next
  case (Cons x xs)
  let ?q = "concat (map toPacked xs) @ [0, 0, 0xEE] @ post"
  let ?dat = "pre @ toPacked x @ ?q"
  have x: "unpacks x" using Cons.prems(1) by simp
  obtain c cs where c: "toPacked x = c # cs" "c \<noteq> 0" using x by (cases "toPacked x") (auto simp: unpacks_def)
  have v: "from_dtmi ?dat len At_value i = Some (Some (i + of_nat (length (toPacked x)), x))"
    by (rule unpacksD [OF x]) (use Cons.prems in auto)
  have i: "unat (i + of_nat (length (toPacked x))) = length (pre @ toPacked x)"
    using u32_add [of i "length (toPacked x)"] Cons.prems by simp
  have r: "rd ?dat (unat i) = Some c" using Cons.prems(2) c by simp
  have "unat (i + 1) = length pre + 1" using u32_add [of i 1] Cons.prems by simp
  then obtain d where d: "rd ?dat (unat (i + 1)) = Some d" by (auto simp: rd_def c)
  have lt: "ucast i < len" using Cons.prems(2,3) c(1) by (simp add: not_le [symmetric] u64_le_u32)
  have "from_dtmi ((pre @ toPacked x) @ ?q) len (At_elements (append acc x)) (i + of_nat (length (toPacked x))) =
      Some (Some (i + of_nat (length (toPacked x)) + of_nat (length (concat (map toPacked xs)) + 3),
        foldl append (append acc x) xs))"
    by (rule Cons.IH) (use Cons.prems i in auto)
  then show ?case using element_step [OF r d _ lt v, of acc] c(2) by (simp add: add.assoc)
qed


definition packed_member :: "bytes \<times> jval \<Rightarrow> bytes" where
  "packed_member kx = packed_key (fst kx) @ toPacked (snd kx)"

lemma packed_key_at:
  assumes "0 < length k" "length k < 65536"
  obtains a b where "packed_key k = a # b # k" "a \<noteq> 0 \<or> b \<noteq> 0"
    "\<And>pre r. btohs (pre @ a # b # r) (length pre) = Some (of_nat (length k))"
proof -
  define a b where "a = (of_nat (length k div 256) :: byte)" and "b = (of_nat (length k mod 256) :: byte)"
  have u: "unat a = length k div 256" "unat b = length k mod 256" using assms(2)
    by (simp_all add: a_def b_def unat_of_nat)
  have "length k = 256 * unat a + unat b" using u by simp
  then have ne: "a \<noteq> 0 \<or> b \<noteq> 0" using assms(1) by auto
  have "[a, b] = be_bytes 2 (of_nat (length k) :: u16)"
  proof -
    have "ucast (of_nat (length k) :: u16) = b" "ucast (drop_bit 8 (of_nat (length k) :: u16)) = a"
      using assms(2) u by (simp_all add: word_unat_eq_iff unsigned_ucast_eq unat_of_nat unat_drop_bit_eq
          take_bit_eq_mod drop_bit_eq_div unat_div_distrib)
    then show ?thesis by (simp add: be_bytes_Suc numeral_2_eq_2)
  qed
  then have "be_val [a, b] = (of_nat (length k) :: u16)" by (simp add: be_val_be_bytes)
  then have "btohs (pre @ a # b # r) (length pre) = Some (of_nat (length k))" for pre r
    by (simp add: btohs_eq rdn_def)
  then show ?thesis using that [of a b] ne by (simp add: packed_key_def a_def b_def)
qed

text \<open>The name of a member as a reader at its position sees it.\<close>

lemma packed_name:
  fixes pre k rest
  defines "m \<equiv> pre @ packed_key k @ rest"
  assumes "0 < length k" "length k < 65536"
  obtains a b where "rd m (length pre) = Some a" "rd m (length pre + 1) = Some b" "a \<noteq> 0 \<or> b \<noteq> 0"
    "btohs m (length pre) = Some (of_nat (length k))" "unat (of_nat (length k) :: u16) = length k"
    "rdn m (length pre + 2) (length k) = Some k"
proof -
  obtain a b where ab: "packed_key k = a # b # k" "a \<noteq> 0 \<or> b \<noteq> 0"
    "\<And>pre r. btohs (pre @ a # b # r) (length pre) = Some (of_nat (length k))"
    using packed_key_at [OF assms(2,3)] by blast
  show ?thesis
    by (rule that [OF _ _ ab(2)]) (use ab(1,3) assms(3) in \<open>simp_all add: m_def rd_append_Suc unat_of_nat rdn_def\<close>)
qed

lemma unpack_members:
  assumes "\<And>k x. (k, x) \<in> set kvs \<Longrightarrow> 0 < length k \<and> length k < 65536 \<and> unpacks x"
    and "unat i = length pre" "length pre + length (concat (map packed_member kvs)) + 3 \<le> unat len"
    and "unat len \<le> length (pre @ concat (map packed_member kvs) @ [0, 0, 0xEE] @ post)"
    and "length (pre @ concat (map packed_member kvs) @ [0, 0, 0xEE] @ post) < 2 ^ 31"
  shows "from_dtmi (pre @ concat (map packed_member kvs) @ [0, 0, 0xEE] @ post) len (At_members acc) i =
    Some (Some (i + of_nat (length (concat (map packed_member kvs)) + 3),
      foldl (\<lambda>v (k, x). put_member v k x) acc kvs))"
  using assms
proof (induction kvs arbitrary: pre i acc)
  case Nil
  then show ?case using u32_add [of i 1] by (simp add: from_dtmi.simps [of _ _ "At_members acc"] rd_append_Suc)
next
  case (Cons kx kvs)
  obtain k x where kx: "kx = (k, x)" by (cases kx)
  let ?q = "concat (map packed_member kvs) @ [0, 0, 0xEE] @ post"
  let ?dat = "pre @ packed_key k @ toPacked x @ ?q"
  have k: "0 < length k" "length k < 65536" and x: "unpacks x" using Cons.prems(1) kx by auto
  obtain a b where ab: "rd ?dat (length pre) = Some a" "rd ?dat (length pre + 1) = Some b" "a \<noteq> 0 \<or> b \<noteq> 0"
    "btohs ?dat (length pre) = Some (of_nat (length k))" "unat (of_nat (length k) :: u16) = length k"
    "rdn ?dat (length pre + 2) (length k) = Some k"
    by (rule packed_name [OF k])
  have m: "packed_member kx = packed_key k @ toPacked x" by (simp add: kx packed_member_def)
  define j where "j = i + (ucast (of_nat (length k) :: u16) + 2)"
  have "ucast (of_nat (length k) :: u16) = (of_nat (length k) :: u32)"
    using k(2) by (simp add: word_unat_eq_iff unsigned_ucast_eq unat_of_nat take_bit_nat_eq_self)
  then have j0: "j = i + of_nat (length (packed_key k))" by (simp add: j_def add.commute)
  then have j: "unat j = length (pre @ packed_key k)"
    using u32_add [of i "length (packed_key k)"] Cons.prems m by simp
  have v: "from_dtmi ?dat len At_value j = Some (Some (j + of_nat (length (toPacked x)), x))"
    using unpacksD [OF x j, of len ?q] Cons.prems m by simp
  have i': "unat (j + of_nat (length (toPacked x))) = length (pre @ packed_key k @ toPacked x)"
    using u32_add [of j "length (toPacked x)"] j Cons.prems m by simp
  have rest: "from_dtmi ((pre @ packed_key k @ toPacked x) @ ?q) len (At_members (put_member acc k x)) (j + of_nat (length (toPacked x))) =
      Some (Some (j + of_nat (length (toPacked x)) + of_nat (length (concat (map packed_member kvs)) + 3),
        foldl (\<lambda>v (k, x). put_member v k x) (put_member acc k x) kvs))"
    by (rule Cons.IH) (use Cons.prems i' m in auto)
  have i1: "unat (i + 1) = length pre + 1" "unat (i + 2) = length pre + 2"
    using u32_add [of i 1] u32_add [of i 2] Cons.prems by simp_all
  have r: "rd ?dat (unat i) = Some a" "rd ?dat (unat (i + 1)) = Some b"
    using Cons.prems(2) ab(1,2) i1 by simp_all
  have s: "btohs ?dat (unat i) = Some (of_nat (length k))" using ab(4) Cons.prems(2) by simp
  have t: "rdn ?dat (unat i + 2) (unat (of_nat (length k) :: u16)) = Some k"
    unfolding ab(5) using ab(6) Cons.prems(2) by simp
  have lt: "ucast i < len" "\<not> len \<le> ucast (i + 2)" using Cons.prems(2,3) i1(2) m
    by (simp_all add: not_le [symmetric] u64_le_u32)
  have "from_dtmi ?dat len (At_members acc) i =
      from_dtmi ?dat len (At_members (put_member acc k x)) (j + of_nat (length (toPacked x)))"
    by (rule member_step [OF r ab(3) lt s t]) (simp only: j_def [symmetric] v)
  then show ?case using rest by (simp add: m [unfolded kx] kx j0 algebra_simps)
qed


lemma append_junset: "append junset x = aval [x]" 
  by (simp add: append_def junset_def aval_def to_container_def with_arrVal_def)

lemma foldl_append: "foldl append (aval xs) ys = aval (xs @ ys)"
  by (induction ys arbitrary: xs) simp_all

lemma foldl_put_member:
  "sorted_wrt (<) (map fst (acc @ kvs)) \<Longrightarrow> foldl (\<lambda>v (k, x). put_member v k x) (oval acc) kvs = oval (acc @ kvs)"
proof (induction kvs arbitrary: acc)
  case (Cons kx kvs)
  obtain k x where kx: "kx = (k, x)" by (cases kx)
  have "k' < k" if "(k', x') \<in> set acc" for k' x'
    using Cons.prems that by (force simp: kx sorted_wrt_append)
  then have "put_member (oval acc) k x = oval (acc @ [kx])" by (simp add: put_member_oval kx)
  then show ?case using Cons.IH [of "acc @ [kx]"] Cons.prems kx by simp
qed simp

lemma put_member_junset: "put_member junset k x = put_member (oval []) k x"
  by (simp add: put_member_def junset_def oval_def to_container_def)

lemma foldl_containers:
  "xs \<noteq> [] \<Longrightarrow> foldl append junset xs = aval xs"
  "kvs \<noteq> [] \<Longrightarrow> sorted_wrt (<) (map fst kvs) \<Longrightarrow> foldl (\<lambda>v (k, x). put_member v k x) junset kvs = oval kvs"
proof -
  show "foldl append junset xs = aval xs" if "xs \<noteq> []"
    using that foldl_append [of "[hd xs]" "tl xs"] by (cases xs) (simp_all add: append_junset)
  show "foldl (\<lambda>v (k, x). put_member v k x) junset kvs = oval kvs" if "kvs \<noteq> []" "sorted_wrt (<) (map fst kvs)"
    using that foldl_put_member [of "[]" kvs] by (cases kvs) (auto simp: put_member_junset)
qed

lemma value_array:
  "rd dat (unat i) = Some 0x0A \<Longrightarrow> \<not> len \<le> ucast i \<Longrightarrow>
     from_dtmi dat len At_value i = from_dtmi dat len (At_elements junset) (i + 1)"
  and value_object:
  "rd dat (unat i) = Some 0xE0 \<Longrightarrow> \<not> len \<le> ucast i \<Longrightarrow>
     from_dtmi dat len At_value i = from_dtmi dat len (At_members junset) (i + 1)"
  by (subst from_dtmi.simps, simp)+

lemma unpacks_array:
  assumes "xs \<noteq> []" "\<And>x. x \<in> set xs \<Longrightarrow> unpacks x"
  shows "unpacks (aval xs)"
proof -
  have e: "toPacked (aval xs) = 0x0A # concat (map toPacked xs) @ [0, 0, 0xEE]"
    by (simp add: toPacked_array aval_def)
  show ?thesis unfolding unpacks_def e
  proof (intro conjI allI impI)
    fix pre post and len :: u64 and i :: u32
    let ?b = "0x0A # concat (map toPacked xs) @ [0, 0, 0xEE]"
    assume a: "unat i = length pre" "length pre + length ?b \<le> unat len" "unat len \<le> length (pre @ ?b @ post)"
      "length (pre @ ?b @ post) < 2 ^ 31"
    have i: "unat (i + 1) = length (pre @ [0x0A])" "\<not> len \<le> ucast i"
      using u32_add [of i 1] a by (simp_all add: u64_le_u32)
    have "from_dtmi ((pre @ [0x0A]) @ concat (map toPacked xs) @ [0, 0, 0xEE] @ post) len (At_elements junset) (i + 1) =
      Some (Some (i + 1 + of_nat (length (concat (map toPacked xs)) + 3), foldl append junset xs))"
      by (rule unpack_elements) (use assms i a in auto)
    then show "from_dtmi (pre @ ?b @ post) len At_value i = Some (Some (i + of_nat (length ?b), aval xs))"
      using value_array [of "pre @ ?b @ post" i len] a(1) i(2) assms(1)
      by (simp add: foldl_containers add.assoc)
  qed simp_all
qed

lemma unpacks_object:
  assumes "kvs \<noteq> []" "\<And>k x. (k, x) \<in> set kvs \<Longrightarrow> 0 < length k \<and> length k < 65536 \<and> unpacks x"
    "sorted_wrt (<) (map fst kvs)"
  shows "unpacks (oval kvs)"
proof -
  have c: "map (\<lambda>(k, x). if k \<noteq> [] then packed_key k @ toPacked x else []) kvs = map packed_member kvs"
    using assms(2) by (fastforce simp: packed_member_def)
  have e: "toPacked (oval kvs) = 0xE0 # concat (map packed_member kvs) @ [0, 0, 0xEE]"
    by (simp add: toPacked_object oval_def flip: c)
  show ?thesis unfolding unpacks_def e
  proof (intro conjI allI impI)
    fix pre post and len :: u64 and i :: u32
    let ?b = "0xE0 # concat (map packed_member kvs) @ [0, 0, 0xEE]"
    assume a: "unat i = length pre" "length pre + length ?b \<le> unat len" "unat len \<le> length (pre @ ?b @ post)"
      "length (pre @ ?b @ post) < 2 ^ 31"
    have i: "unat (i + 1) = length (pre @ [0xE0])" "\<not> len \<le> ucast i"
      using u32_add [of i 1] a by (simp_all add: u64_le_u32)
    have "from_dtmi ((pre @ [0xE0]) @ concat (map packed_member kvs) @ [0, 0, 0xEE] @ post) len (At_members junset) (i + 1) =
      Some (Some (i + 1 + of_nat (length (concat (map packed_member kvs)) + 3),
        foldl (\<lambda>v (k, x). put_member v k x) junset kvs))"
      by (rule unpack_members) (use assms i a in auto)
    then show "from_dtmi (pre @ ?b @ post) len At_value i = Some (Some (i + of_nat (length ?b), oval kvs))"
      using value_object [of "pre @ ?b @ post" i len] a(1) i(2) assms(1,3)
      by (simp add: foldl_containers add.assoc)
  qed simp_all
qed

lemma packable_unpacks: "packable v \<Longrightarrow> unpacks v"
  by (induction rule: packable.induct)
    (auto intro!: unpacks_array unpacks_object simp: unpacks_int unpacks_double unpacks_null unpacks_string)

section \<open>Reading that never ends\<close>

lemma elements_stuck:
  assumes "rd dat (unat i) = Some 0x01" "rd dat (unat (i + 1)) = Some b" "ucast i < len" "len \<le> ucast (i + 8)"
  shows "from_dtmi dat len (At_elements acc) i = None"
proof -
  have "d = dat \<longrightarrow> l = len \<longrightarrow> j = i \<longrightarrow>
      (case w of At_value \<Rightarrow> y = Some (i, junset) | At_elements acc \<Rightarrow> False | At_members acc \<Rightarrow> True)"
    if "from_dtmi d l w j = Some y" for d l w j y
  proof (rule from_dtmi.raw_induct [OF _ that], goal_cases)
    case (1 f d l w j y)
    show ?case
    proof (intro impI)
      assume e: "d = dat" "l = len" "j = i"
      show "case w of At_value \<Rightarrow> y = Some (i, junset) | At_elements acc \<Rightarrow> False | At_members acc \<Rightarrow> True"
      proof (cases w)
        case At_value
        then show ?thesis using 1(2) e assms by (simp add: not_le [symmetric])
      next
        case (At_elements acc)
        have "y' = Some (i, junset)" if "f dat len At_value i = Some y'" for y'
          using 1(1) [OF that] by simp
        moreover have "f dat len (At_elements acc') i \<noteq> Some y'" for acc' y'
          using 1(1) [of dat len "At_elements acc'" i y'] by auto
        ultimately show ?thesis
          using 1(2) e assms At_elements by (auto split: Option.bind_splits)
      qed simp
    qed
  qed
  from this [of dat len "At_elements acc" i] show ?thesis by (cases "from_dtmi dat len (At_elements acc) i") auto
qed

section \<open>Properties\<close>

text \<open>C14: \<open>fromDTMI\<close> reads the value that \<open>toPacked\<close> wrote, and moves exactly behind it: for values of
  numbers, doubles, strings and nulls nested in non-empty arrays and objects, below 2 GB.\<close>

theorem fromDTMI_toPacked:
  assumes "packable v" "length (toPacked v) < 2 ^ 31"
  shows "fromDTMI (toPacked v) (of_nat (length (toPacked v))) 0 = Some (Some (of_nat (length (toPacked v)), v))"
proof -
  have "unat (of_nat (length (toPacked v)) :: u64) = length (toPacked v)"
    using assms(2) by (simp add: unat_of_nat)
  then show ?thesis
    using unpacksD [OF packable_unpacks [OF assms(1)], of 0 "[]" "of_nat (length (toPacked v))" "[]"] assms(2)
    by (simp add: fromDTMI_def)
qed

definition sample_packed :: jval where
  "sample_packed = oval [(str ''a'', aval [set_int 1, jnull]), (str ''b'', set_string (str ''x''))]"

lemma sample_packed_bytes: "toPacked sample_packed =
  [0xE0, 0, 1, 0x61, 0x0A, 1, 0, 0, 0, 0, 0, 0, 0, 1, 3, 0, 0, 0xEE, 0, 1, 0x62, 2, 0, 0, 0, 1, 0x78, 0, 0, 0xEE]"
  by code_simp

theorem fromDTMI_toPacked_witness:
  "fromDTMI (toPacked sample_packed) 30 0 = Some (Some (30, sample_packed))"
proof -
  have "packable (aval [set_int 1, jnull])" by (rule packable_array) (auto intro: packable.intros)
  then have "packable sample_packed" unfolding sample_packed_def
    by (intro packable_object) (auto intro: packable.intros simp: str_def)
  then show ?thesis using fromDTMI_toPacked [of sample_packed] by (simp add: sample_packed_bytes)
qed

text \<open>\<open>packedSize\<close> is the length of what \<open>toPacked\<close> writes, for every value.\<close>

theorem packedSize_exact: "packedSize v = of_nat (length (toPacked v))"
  by (rule packedSize_length)

text \<open>\<open>sendTo\<close> sends the bytes of \<open>toPacked\<close> when no object in the value has the members that make it
  send a header.\<close>

theorem sendTo_toPacked:
  assumes "bare v"
  shows "sendTo v = Some (toPacked v)"
  using assms by (rule sendTo_bare)

theorem sendTo_toPacked_witness: "sendTo sample_packed = Some (toPacked sample_packed)"
proof (rule sendTo_toPacked)
  have "bare (aval [set_int 1, jnull])"
    by (rule bare_array) (auto simp: aval_def set_int_def jnull_def intro: bare_other)
  moreover have "bare (set_string (str ''x''))" by (rule bare_other) (simp_all add: set_string_def)
  ultimately have "bare x" if "(k, x) \<in> set (objVal sample_packed)" for k x
    using that by (auto simp: sample_packed_def oval_def)
  moreover have "\<not> isMember sample_packed (str ''trackid'')" "\<not> isMember sample_packed (str ''tracks'')"
    by code_simp+
  moreover have "myType sample_packed = OBJECT" by code_simp
  ultimately show "bare sample_packed" by (metis bare_object)
qed

text \<open>When the last number of an array is cut off by the end of the data, \<open>fromDTMI\<close> never returns: the
  element is not skipped, so the loop appends empty values until memory runs out.\<close>

theorem truncated_array_never_ends:
  assumes "rd dat (unat i) = Some 0x01" "rd dat (unat (i + 1)) = Some b" "ucast i < len" "len \<le> ucast (i + 8)"
  shows "from_dtmi dat len (At_elements acc) i = None"
  using assms by (rule elements_stuck)

theorem truncated_array_never_ends_witness: "fromDTMI [0x0A, 0x01, 0x00] 3 0 = None"
  using truncated_array_never_ends [of "[0x0A, 0x01, 0x00]" 1 0 3 junset] value_array [of "[0x0A, 0x01, 0x00]" 0 3]
  by (simp add: fromDTMI_def)

end
