(* ===== verification/DtscScan.thy ===== *)
theory DtscScan
  imports JsonPack
begin

text \<open>
  The packed data of the stream container read in place (\<open>lib/dtsc.cpp\<close>, \<open>lib/dtsc.h\<close>): \<open>skipDTSC\<close> and the
  class \<open>DTSC::Scan\<close>. Memory is a list of bytes and a pointer into it is an index; the value of an
  operation is \<open>None\<close> when the code reads or writes outside of the block. The properties show that
  \<open>skipDTSC\<close> moves over exactly one value of \<open>toPacked\<close> and that \<open>getMember\<close> finds the members of a packed
  object.
\<close>

section \<open>Scanning packed data\<close>

definition DTSC_INT :: byte where "DTSC_INT = 0x01"
definition DTSC_STR :: byte where "DTSC_STR = 0x02"
definition DTSC_NULL :: byte where "DTSC_NULL = 0x03"
definition DTSC_DOUBLE :: byte where "DTSC_DOUBLE = 0x04"
definition DTSC_OBJ :: byte where "DTSC_OBJ = 0xE0"
definition DTSC_ARR :: byte where "DTSC_ARR = 0x0A"
definition DTSC_CON :: byte where "DTSC_CON = 0xFF"

lemmas dtsc_codes = DTSC_INT_def DTSC_STR_def DTSC_NULL_def DTSC_DOUBLE_def DTSC_OBJ_def DTSC_ARR_def
  DTSC_CON_def

text \<open>\<open>skipDTSC\<close> and its two loops; \<open>Some None\<close> is the null pointer.\<close>

datatype skip_at = Skip_value | Skip_members | Skip_elements

function skip :: "bytes \<Rightarrow> nat \<Rightarrow> skip_at \<Rightarrow> nat \<Rightarrow> nat option option" where
  "skip m mx w p =
     (case w of
        Skip_value \<Rightarrow>
          if mx \<le> p + 1 then Some None
          else
            do { c \<leftarrow> rd m p;
                 if c = 0x00 then Some None
                 else if c = DTSC_INT \<or> c = DTSC_DOUBLE then Some (Some (p + 9))
                 else if c = DTSC_NULL then Some (Some (p + 1))
                 else if c = DTSC_STR then
                   (if mx \<le> p + 4 then Some None
                    else do { n \<leftarrow> btohl m (p + 1); Some (Some (p + 5 + unat n)) })
                 else if c = DTSC_OBJ \<or> c = DTSC_CON then skip m mx Skip_members (p + 1)
                 else if c = DTSC_ARR then skip m mx Skip_elements (p + 1)
                 else Some None }
      | Skip_members \<Rightarrow>
          if mx \<le> p then Some (Some (p + 3))
          else
            do { a \<leftarrow> rd m p; b \<leftarrow> rd m (p + 1);
                 if a = 0 \<and> b = 0 then Some (Some (p + 3))
                 else if mx \<le> p + 2 then Some None
                 else do { n \<leftarrow> btohs m p;
                           r \<leftarrow> skip m mx Skip_value (p + (2 + unat n));
                           case r of
                             None \<Rightarrow> Some None
                           | Some q \<Rightarrow> skip m mx Skip_members q } }
      | Skip_elements \<Rightarrow>
          if mx \<le> p then Some (Some (p + 3))
          else
            do { a \<leftarrow> rd m p; b \<leftarrow> rd m (p + 1);
                 if a = 0 \<and> b = 0 then Some (Some (p + 3))
                 else do { r \<leftarrow> skip m mx Skip_value p;
                           case r of
                             None \<Rightarrow> Some None
                           | Some q \<Rightarrow> skip m mx Skip_elements q } })"
  by pat_completeness auto
text \<open>Skipping always moves on, so the loops end.\<close>

lemma skip_moves: "skip_dom (m, mx, w, p) \<Longrightarrow> skip m mx w p = Some (Some q) \<Longrightarrow> p < q"
proof (induction arbitrary: q rule: skip.pinduct)
  case (1 m mx w p)
  show ?case
  proof (cases w)
    case Skip_value
    then show ?thesis using "1.prems" [unfolded skip.psimps [OF "1.hyps"]] "1.IH"(1,2) [of _ q]
      by (fastforce split: if_splits Option.bind_splits)
  next
    case Skip_members
    show ?thesis
      using "1.prems" [unfolded skip.psimps [OF "1.hyps"]] "1.IH"(3,4) Skip_members
      apply (simp split: if_splits Option.bind_splits option.splits)
      subgoal premises prems for a b n v r
        using prems(1) [of a b n r] prems(2) [of a b n r v q] prems(3-) by simp
      done
  next
    case Skip_elements
    show ?thesis 
      using "1.prems" [unfolded skip.psimps [OF "1.hyps"]] "1.IH"(5,6) Skip_elements
      apply (simp split: if_splits Option.bind_splits option.splits)
      subgoal premises prems for a b v r
        using prems(1) [of a b r] prems(2) [of a b r v q] prems(3-) by simp
      done
  qed
qed

lemma skip_total: "All skip_dom"
  by (relation "measure (\<lambda>(m, mx, w, p). 2 * (mx - p) + (case w of Skip_value \<Rightarrow> 0 | _ \<Rightarrow> 1))")
    (auto dest!: skip_moves)

termination skip
  by (rule skip_total)

declare skip.simps [simp del]

definition skipDTSC :: "bytes \<Rightarrow> nat \<Rightarrow> nat \<Rightarrow> nat option option" where
  "skipDTSC m mx p = skip m mx Skip_value p"

lemma skipDTSC_moves: "skipDTSC m mx p = Some (Some q) \<Longrightarrow> p < q"
  using skip_moves skip_total by (auto simp: skipDTSC_def)

text \<open>The loops of the accessors of \<open>Scan\<close> over the members of an object and over the elements of an
  array. The body gets the position of the name and its length, or of the value; \<open>Inl\<close> returns from
  the accessor. How a loop ends matters to some accessors.\<close>

datatype ('r, 's) loop_end = Returned 'r | At_end 's | Out_of_packet 's | Skip_failed 's

function obj_loop ::
  "bytes \<Rightarrow> nat \<Rightarrow> (nat \<Rightarrow> nat \<Rightarrow> 's \<Rightarrow> ('r + 's) option) \<Rightarrow> nat \<Rightarrow> 's \<Rightarrow> ('r, 's) loop_end option" where
  "obj_loop m mx body i st =
     do { a \<leftarrow> rd m i; b \<leftarrow> rd m (i + 1);
          if (a \<noteq> 0 \<or> b \<noteq> 0) \<and> i < mx then
            (if mx \<le> i + 2 then Some (Out_of_packet st)
             else do { strlen \<leftarrow> btohs m i;
                       r \<leftarrow> body (i + 2) (unat strlen) st;
                       case r of
                         Inl x \<Rightarrow> Some (Returned x)
                       | Inr st \<Rightarrow>
                           do { j \<leftarrow> skipDTSC m mx (i + 2 + unat strlen);
                                case j of
                                  None \<Rightarrow> Some (Skip_failed st)
                                | Some j \<Rightarrow> obj_loop m mx body j st } })
          else Some (At_end st) }"
  by pat_completeness auto
termination
  by (relation "measure (\<lambda>(m, mx, body, i, st). mx - i)") (auto dest: skipDTSC_moves)

function arr_loop ::
  "bytes \<Rightarrow> nat \<Rightarrow> (nat \<Rightarrow> 's \<Rightarrow> ('r + 's) option) \<Rightarrow> nat \<Rightarrow> 's \<Rightarrow> ('r, 's) loop_end option" where
  "arr_loop m mx body i st =
     do { a \<leftarrow> rd m i; b \<leftarrow> rd m (i + 1);
          if (a \<noteq> 0 \<or> b \<noteq> 0) \<and> i < mx then
            do { r \<leftarrow> body i st;
                 case r of
                   Inl x \<Rightarrow> Some (Returned x)
                 | Inr st \<Rightarrow>
                     do { j \<leftarrow> skipDTSC m mx i;
                          case j of
                            None \<Rightarrow> Some (Skip_failed st)
                          | Some j \<Rightarrow> arr_loop m mx body j st } }
          else Some (At_end st) }"
  by pat_completeness auto
termination
  by (relation "measure (\<lambda>(m, mx, body, i, st). mx - i)") (auto dest: skipDTSC_moves)

declare obj_loop.simps [simp del] arr_loop.simps [simp del]

text \<open>A \<open>Scan\<close>: the null pointer is \<open>None\<close>.\<close>

record scan =
  sc_p :: "nat option"
  sc_len :: nat

definition Scan :: scan where
  "Scan = \<lparr>sc_p = None, sc_len = 0\<rparr>"

definition Scan_at :: "nat \<Rightarrow> nat \<Rightarrow> scan" where
  "Scan_at p len = \<lparr>sc_p = Some p, sc_len = len\<rparr>"

definition sc_valid :: "scan \<Rightarrow> bool" where
  "sc_valid s \<longleftrightarrow> sc_p s \<noteq> None \<and> sc_len s \<noteq> 0"

definition getType :: "bytes \<Rightarrow> scan \<Rightarrow> byte option" where
  "getType m s = (case sc_p s of None \<Rightarrow> Some 0 | Some p \<Rightarrow> rd m p)"

text \<open>\<open>strncmp\<close> of the C string \<open>a\<close> with the bytes at \<open>i\<close>: whether the first \<open>n\<close> characters are equal.\<close>

fun strncmp_at :: "bytes \<Rightarrow> bytes \<Rightarrow> nat \<Rightarrow> nat \<Rightarrow> bool option" where
  "strncmp_at a m i 0 = Some True"
| "strncmp_at a m i (Suc n) =
     do { y \<leftarrow> rd m i;
          let x = (case a of [] \<Rightarrow> 0 | c # cs \<Rightarrow> c);
          if x \<noteq> y then Some False
          else if x = 0 then Some True
          else strncmp_at (drop 1 a) m (i + 1) n }"

definition same_name :: "bytes \<Rightarrow> bytes \<Rightarrow> nat \<Rightarrow> nat \<Rightarrow> bool option" where
  "same_name m indice i strlen =
     (if length indice = strlen then strncmp_at indice m i strlen else Some False)"

definition getMember :: "bytes \<Rightarrow> scan \<Rightarrow> bytes \<Rightarrow> scan option" where
  "getMember m s indice =
     do { t \<leftarrow> getType m s;
          case sc_p s of
            Some p \<Rightarrow>
              if t \<noteq> DTSC_OBJ \<and> t \<noteq> DTSC_CON then Some Scan
              else
                do { e \<leftarrow> obj_loop m (p + sc_len s)
                            (\<lambda>i strlen st.
                               do { same \<leftarrow> same_name m indice i strlen;
                                    Some (if same then Inl (Scan_at (i + strlen) (sc_len s - (i - p)))
                                          else Inr st) })
                            (p + 1) ();
                     Some (case e of Returned x \<Rightarrow> x | _ \<Rightarrow> Scan) }
          | None \<Rightarrow> Some Scan }"

definition sc_nullMember :: "bytes \<Rightarrow> scan \<Rightarrow> bytes \<Rightarrow> bytes option" where
  "sc_nullMember m s indice =
     do { t \<leftarrow> getType m s;
          case sc_p s of
            Some p \<Rightarrow>
              if t \<noteq> DTSC_OBJ \<and> t \<noteq> DTSC_CON then Some m
              else
                do { e \<leftarrow> obj_loop m (p + sc_len s)
                            (\<lambda>i strlen st.
                               do { same \<leftarrow> same_name m indice i strlen;
                                    if same then do { m \<leftarrow> wrn m i (replicate strlen 0); Some (Inl m) }
                                    else Some (Inr st) })
                            (p + 1) ();
                     Some (case e of Returned x \<Rightarrow> x | _ \<Rightarrow> m) }
          | None \<Rightarrow> Some m }"

definition sc_hasMember :: "bytes \<Rightarrow> scan \<Rightarrow> bytes \<Rightarrow> bool option" where
  "sc_hasMember m s indice = do { r \<leftarrow> getMember m s indice; Some (sc_valid r) }"

text \<open>The number of members or elements is counted before the value behind it is skipped.\<close>

definition getSize :: "bytes \<Rightarrow> scan \<Rightarrow> u32 option" where
  "getSize m s =
     do { t \<leftarrow> getType m s;
          case sc_p s of
            Some p \<Rightarrow>
              if t = DTSC_ARR then
                do { e \<leftarrow> arr_loop m (p + sc_len s) (\<lambda>i n. Some (Inr (n + 1) :: unit + u32)) (p + 1) 0;
                     Some (case e of At_end n \<Rightarrow> n | Skip_failed n \<Rightarrow> n | _ \<Rightarrow> 0) }
              else if t = DTSC_OBJ \<or> t = DTSC_CON then
                do { e \<leftarrow> obj_loop m (p + sc_len s) (\<lambda>i strlen n. Some (Inr (n + 1) :: unit + u32)) (p + 1) 0;
                     Some (case e of At_end n \<Rightarrow> n | Skip_failed n \<Rightarrow> n | _ \<Rightarrow> 0) }
              else Some 0
          | None \<Rightarrow> Some 0 }"

text \<open>The callback of \<open>forEachMember\<close> with the state it changes.\<close>

definition forEachMember :: "bytes \<Rightarrow> scan \<Rightarrow> (scan \<Rightarrow> bytes \<Rightarrow> 's \<Rightarrow> 's) \<Rightarrow> 's \<Rightarrow> 's option" where
  "forEachMember m s cb st =
     do { t \<leftarrow> getType m s;
          case sc_p s of
            Some p \<Rightarrow>
              if t = DTSC_ARR then
                do { e \<leftarrow> arr_loop m (p + sc_len s)
                            (\<lambda>i st. Some (Inr (cb (Scan_at i (sc_len s - (i - p))) [] st) :: unit + 's)) (p + 1) st;
                     Some (case e of At_end st \<Rightarrow> st | Out_of_packet st \<Rightarrow> st | Skip_failed st \<Rightarrow> st) }
              else if t = DTSC_OBJ \<or> t = DTSC_CON then
                do { e \<leftarrow> obj_loop m (p + sc_len s)
                            (\<lambda>i strlen st.
                               do { name \<leftarrow> rdn m i strlen;
                                    Some (Inr (cb (Scan_at (i + strlen) (sc_len s - (i - p))) name st) :: unit + 's) })
                            (p + 1) st;
                     Some (case e of At_end st \<Rightarrow> st | Out_of_packet st \<Rightarrow> st | Skip_failed st \<Rightarrow> st) }
              else Some st
          | None \<Rightarrow> Some st }"

definition getIndice :: "bytes \<Rightarrow> scan \<Rightarrow> u64 \<Rightarrow> scan option" where
  "getIndice m s num =
     do { t \<leftarrow> getType m s;
          case sc_p s of
            Some p \<Rightarrow>
              if t = DTSC_ARR then
                do { e \<leftarrow> arr_loop m (p + sc_len s)
                            (\<lambda>i arr_indice :: u32.
                               Some (if ucast arr_indice = num then Inl (Scan_at i (sc_len s - (i - p)))
                                     else Inr (arr_indice + 1)))
                            (p + 1) 0;
                     Some (case e of Returned x \<Rightarrow> x | _ \<Rightarrow> Scan) }
              else if t = DTSC_OBJ \<or> t = DTSC_CON then
                do { e \<leftarrow> obj_loop m (p + sc_len s)
                            (\<lambda>i strlen (arr_indice :: u32).
                               Some (if ucast arr_indice = num
                                     then Inl (Scan_at (i + strlen) (sc_len s - (i - p)))
                                     else Inr (arr_indice + 1)))
                            (p + 1) 0;
                     Some (case e of Returned x \<Rightarrow> x | _ \<Rightarrow> Scan) }
              else Some Scan
          | None \<Rightarrow> Some Scan }"

definition getIndiceName :: "bytes \<Rightarrow> scan \<Rightarrow> u64 \<Rightarrow> bytes option" where
  "getIndiceName m s num =
     do { t \<leftarrow> getType m s;
          case sc_p s of
            Some p \<Rightarrow>
              if t = DTSC_OBJ \<or> t = DTSC_CON then
                do { e \<leftarrow> obj_loop m (p + sc_len s)
                            (\<lambda>i strlen (arr_indice :: u32).
                               if ucast arr_indice = num
                               then do { name \<leftarrow> rdn m i strlen; Some (Inl name) }
                               else Some (Inr (arr_indice + 1)))
                            (p + 1) 0;
                     Some (case e of Returned x \<Rightarrow> x | _ \<Rightarrow> []) }
              else Some []
          | None \<Rightarrow> Some [] }"

section \<open>Values in place\<close>

definition sc_isString :: "bytes \<Rightarrow> scan \<Rightarrow> bool option" where
  "sc_isString m s = map_option (\<lambda>t. t = DTSC_STR) (getType m s)"

definition sc_isInt :: "bytes \<Rightarrow> scan \<Rightarrow> bool option" where
  "sc_isInt m s = map_option (\<lambda>t. t = DTSC_INT) (getType m s)"

definition sc_isDouble :: "bytes \<Rightarrow> scan \<Rightarrow> bool option" where
  "sc_isDouble m s = map_option (\<lambda>t. t = DTSC_DOUBLE) (getType m s)"

definition sc_isArray :: "bytes \<Rightarrow> scan \<Rightarrow> bool option" where
  "sc_isArray m s = map_option (\<lambda>t. t = DTSC_ARR) (getType m s)"

definition sc_isObject :: "bytes \<Rightarrow> scan \<Rightarrow> bool option" where
  "sc_isObject m s = map_option (\<lambda>t. t = DTSC_OBJ) (getType m s)"

definition sc_isNull :: "bytes \<Rightarrow> scan \<Rightarrow> bool option" where
  "sc_isNull m s = map_option (\<lambda>t. t = DTSC_NULL) (getType m s)"

text \<open>The pointer and the length that \<open>getString\<close> returns; no pointer when this is no string.\<close>

definition sc_getString :: "bytes \<Rightarrow> scan \<Rightarrow> (nat option \<times> nat) option" where
  "sc_getString m s =
     do { t \<leftarrow> getType m s;
          case sc_p s of
            Some p \<Rightarrow> if t = DTSC_STR then do { n \<leftarrow> btohl m (p + 1); Some (Some (p + 5), unat n) }
                      else Some (None, 0)
          | None \<Rightarrow> Some (None, 0) }"

text \<open>\<open>strtoll\<close> with base 0 on the memory at \<open>i\<close>: it reads until a character that is no digit.\<close>

function rd_while :: "(byte \<Rightarrow> bool) \<Rightarrow> bytes \<Rightarrow> nat \<Rightarrow> bytes option" where
  "rd_while P m i =
     do { c \<leftarrow> rd m i; if P c then do { cs \<leftarrow> rd_while P m (i + 1); Some (c # cs) } else Some [] }"
  by pat_completeness auto
termination
  by (relation "measure (\<lambda>(P, m, i). length m - i)") (auto simp: rd_Some_iff)

definition hex_digit_chr :: "byte \<Rightarrow> bool" where
  "hex_digit_chr c \<longleftrightarrow> is_digit c \<or> 0x61 \<le> c \<and> c \<le> 0x66 \<or> 0x41 \<le> c \<and> c \<le> 0x46"

definition clamped :: "bool \<Rightarrow> nat \<Rightarrow> bytes \<Rightarrow> u64" where
  "clamped neg base ds =
     (let v = int (foldl (\<lambda>n c. n * base + unat (c2hex c)) 0 ds);
          v = (if neg then - v else v)
      in of_int (max (- (2 ^ 63)) (min (2 ^ 63 - 1) v)))"

definition strtoll :: "bytes \<Rightarrow> nat \<Rightarrow> u64 option" where
  "strtoll m i =
     do { ws \<leftarrow> rd_while is_space m i;
          let i = i + length ws;
          c \<leftarrow> rd m i;
          let neg = (c = 0x2D);
          let i = (if c = 0x2D \<or> c = 0x2B then i + 1 else i);
          c \<leftarrow> rd m i;
          if c = 0x30 then
            do { x \<leftarrow> rd m (i + 1);
                 if x = 0x78 \<or> x = 0x58 then
                   do { ds \<leftarrow> rd_while hex_digit_chr m (i + 2); Some (clamped neg 16 ds) }
                 else
                   do { ds \<leftarrow> rd_while (\<lambda>c. 0x30 \<le> c \<and> c \<le> 0x37) m i; Some (clamped neg 8 ds) } }
          else do { ds \<leftarrow> rd_while is_digit m i; Some (clamped neg 10 ds) } }"

definition sc_asInt :: "bytes \<Rightarrow> scan \<Rightarrow> u64 option" where
  "sc_asInt m s =
     do { t \<leftarrow> getType m s;
          case sc_p s of
            Some p \<Rightarrow>
              if t = DTSC_INT then btohll m (p + 1)
              else if t = DTSC_NULL then Some 0
              else if t = DTSC_DOUBLE then
                do { d \<leftarrow> btohd m (p + 1); n \<leftarrow> dbl_to_int d;
                     if - (2 ^ 63) \<le> n \<and> n < 2 ^ 63 then Some (of_int n) else None }
              else if t = DTSC_STR then
                do { (str, strlen) \<leftarrow> sc_getString m s;
                     if strlen = 0 then Some 0
                     else do { i \<leftarrow> str; strtoll m i } }
              else Some 0
          | None \<Rightarrow> Some 0 }"

text \<open>The conversions of unsigned and of signed integers to doubles are parameters.\<close>

definition sc_asDouble :: "(u64 \<Rightarrow> u64) \<Rightarrow> (u64 \<Rightarrow> u64) \<Rightarrow> bytes \<Rightarrow> scan \<Rightarrow> u64 option" where
  "sc_asDouble u2d i2d m s =
     do { t \<leftarrow> getType m s;
          case sc_p s of
            Some p \<Rightarrow>
              if t = DTSC_INT then do { n \<leftarrow> btohll m (p + 1); Some (u2d n) }
              else if t = DTSC_NULL then Some 0
              else if t = DTSC_DOUBLE then btohd m (p + 1)
              else if t = DTSC_STR then
                do { (str, strlen) \<leftarrow> sc_getString m s;
                     if strlen = 0 then Some 0
                     else do { i \<leftarrow> str; n \<leftarrow> strtoll m i; Some (i2d n) } }
              else Some 0
          | None \<Rightarrow> Some 0 }"

definition sc_asBool :: "bytes \<Rightarrow> scan \<Rightarrow> bool option" where
  "sc_asBool m s =
     do { t \<leftarrow> getType m s;
          case sc_p s of
            Some p \<Rightarrow>
              if t = DTSC_STR then
                do { a \<leftarrow> rd m (p + 1); b \<leftarrow> rd m (p + 2); c \<leftarrow> rd m (p + 3); d \<leftarrow> rd m (p + 4);
                     Some (a OR b OR c OR d \<noteq> 0) }
              else if t = DTSC_INT then do { n \<leftarrow> sc_asInt m s; Some (n \<noteq> 0) }
              else if t = DTSC_NULL then Some False
              else if t = DTSC_DOUBLE then do { d \<leftarrow> btohd m (p + 1); Some (dbl_nonzero d) }
              else if t = DTSC_OBJ \<or> t = DTSC_CON \<or> t = DTSC_ARR then
                do { a \<leftarrow> rd m (p + 1); b \<leftarrow> rd m (p + 2); Some (a OR b \<noteq> 0) }
              else Some False
          | None \<Rightarrow> Some False }"

definition sc_asString :: "(u64 \<Rightarrow> bytes) \<Rightarrow> bytes \<Rightarrow> scan \<Rightarrow> bytes option" where
  "sc_asString sd m s =
     do { t \<leftarrow> getType m s;
          case sc_p s of
            Some p \<Rightarrow>
              if t = DTSC_INT then do { n \<leftarrow> sc_asInt m s; Some (show_int n) }
              else if t = DTSC_DOUBLE then do { d \<leftarrow> btohd m (p + 1); Some (sd d) }
              else if t = DTSC_NULL then Some (str ''null'')
              else if t = DTSC_STR then
                do { (str, strlen) \<leftarrow> sc_getString m s; i \<leftarrow> str; rdn m i strlen }
              else Some []
          | None \<Rightarrow> Some [] }"

definition asJSON :: "bytes \<Rightarrow> scan \<Rightarrow> jval option option" where
  "asJSON m s =
     (case sc_p s of
        Some p \<Rightarrow> map_option (map_option snd) (fromDTMI (drop p m) (of_nat (sc_len s)) 0)
      | None \<Rightarrow> Some (Some junset))"

section \<open>Packed values are skipped and found\<close>

inductive scannable :: "jval \<Rightarrow> bool" where
  scannable_int: "scannable (set_int n)"
| scannable_double: "scannable (set_double d)"
| scannable_null: "scannable jnull"
| scannable_string: "scannable (set_string s)"
| scannable_array: "(\<And>x. x \<in> set xs \<Longrightarrow> scannable x) \<Longrightarrow> scannable (aval xs)"
| scannable_object: "(\<And>k x. (k, x) \<in> set kvs \<Longrightarrow> 0 < length k \<and> length k < 65536 \<and> scannable x) \<Longrightarrow>
    scannable (oval kvs)"

lemma toPacked_oval:
  assumes "\<And>k x. (k, x) \<in> set kvs \<Longrightarrow> 0 < length k"
  shows "toPacked (oval kvs) = 0xE0 # concat (map packed_member kvs) @ [0, 0, 0xEE]"
proof -
  have c: "map (\<lambda>(k, x). if k \<noteq> [] then packed_key k @ toPacked x else []) kvs = map packed_member kvs"
    using assms by (fastforce simp: packed_member_def)
  show ?thesis by (simp add: toPacked_object oval_def flip: c)
qed

lemma toPacked_aval: "toPacked (aval xs) = 0x0A # concat (map toPacked xs) @ [0, 0, 0xEE]"
  by (simp add: toPacked_array aval_def)

definition skips :: "jval \<Rightarrow> bool" where
  "skips v \<longleftrightarrow> toPacked v \<noteq> [] \<and> hd (toPacked v) \<noteq> 0 \<and>
     (\<forall>pre post mx. length pre + length (toPacked v) < mx \<longrightarrow> length (toPacked v) < 2 ^ 32 \<longrightarrow>
        skip (pre @ toPacked v @ post) mx Skip_value (length pre) = Some (Some (length pre + length (toPacked v))))"

lemma skipsD:
  "skips v \<Longrightarrow> length pre + length (toPacked v) < mx \<Longrightarrow> length (toPacked v) < 2 ^ 32 \<Longrightarrow>
   skip (pre @ toPacked v @ post) mx Skip_value (length pre) = Some (Some (length pre + length (toPacked v)))"
  by (simp add: skips_def)

lemma skips_int: "skips (set_int n)"
  by (auto simp: skips_def toPacked_leaf skip.simps dtsc_codes)

lemma skips_double: "skips (set_double n)"
  by (auto simp: skips_def toPacked_leaf skip.simps dtsc_codes)

lemma skips_null: "skips jnull"
  by (auto simp: skips_def toPacked_leaf skip.simps dtsc_codes)

lemma skips_string: "skips (set_string s)"
  by (auto simp: skips_def toPacked_leaf skip.simps dtsc_codes btohl_at unat_of_nat)

lemma skip_elements_step:
  assumes "rd m p = Some a" "rd m (p + 1) = Some b" "a \<noteq> 0 \<or> b \<noteq> 0" "p < mx"
    "skip m mx Skip_value p = Some (Some q)"
  shows "skip m mx Skip_elements p = skip m mx Skip_elements q"
  using assms by (subst skip.simps) auto

lemma skip_members_step:
  assumes "rd m p = Some a" "rd m (p + 1) = Some b" "a \<noteq> 0 \<or> b \<noteq> 0" "p + 2 < mx" "btohs m p = Some n"
    "skip m mx Skip_value (p + (2 + unat n)) = Some (Some q)"
  shows "skip m mx Skip_members p = skip m mx Skip_members q"
  using assms by (subst skip.simps) auto

lemma skip_end:
  assumes "w = Skip_members \<or> w = Skip_elements"
  shows "skip (pre @ 0 # 0 # post) mx w (length pre) = Some (Some (length pre + 3))"
  using assms by (subst skip.simps) (auto simp: rd_append_Suc)

lemma skip_elements:
  assumes "\<And>x. x \<in> set xs \<Longrightarrow> skips x" "length pre + length (concat (map toPacked xs)) + 2 < mx"
    "length (concat (map toPacked xs)) < 2 ^ 32"
  shows "skip (pre @ concat (map toPacked xs) @ [0, 0, 0xEE] @ post) mx Skip_elements (length pre) =
    Some (Some (length pre + length (concat (map toPacked xs)) + 3))"
  using assms
proof (induction xs arbitrary: pre)
  case Nil
  then show ?case using skip_end [of Skip_elements pre "0xEE # post"] by simp
next
  case (Cons x xs)
  let ?q = "concat (map toPacked xs) @ [0, 0, 0xEE] @ post"
  let ?m = "pre @ toPacked x @ ?q"
  have x: "skips x" using Cons.prems(1) by simp
  obtain c cs where c: "toPacked x = c # cs" "c \<noteq> 0" using x by (cases "toPacked x") (auto simp: skips_def)
  have v: "skip ?m mx Skip_value (length pre) = Some (Some (length (pre @ toPacked x)))"
    using x Cons.prems(2,3) by (simp add: skips_def)
  obtain d where d: "rd ?m (length pre + 1) = Some d" by (cases cs) (auto simp: c rd_append_Suc rd_def)
  have r: "rd ?m (length pre) = Some c" using c by simp
  have "skip ((pre @ toPacked x) @ ?q) mx Skip_elements (length (pre @ toPacked x)) =
      Some (Some (length (pre @ toPacked x) + length (concat (map toPacked xs)) + 3))"
    by (rule Cons.IH) (use Cons.prems in auto)
  then show ?case using skip_elements_step [OF r d _ _ v] c(2) Cons.prems(2) by simp
qed

lemma skip_members:
  assumes "\<And>k x. (k, x) \<in> set kvs \<Longrightarrow> 0 < length k \<and> length k < 65536 \<and> skips x"
    "length pre + length (concat (map packed_member kvs)) + 2 < mx"
    "length (concat (map packed_member kvs)) < 2 ^ 32"
  shows "skip (pre @ concat (map packed_member kvs) @ [0, 0, 0xEE] @ post) mx Skip_members (length pre) =
    Some (Some (length pre + length (concat (map packed_member kvs)) + 3))"
  using assms
proof (induction kvs arbitrary: pre)
  case Nil
  then show ?case using skip_end [of Skip_members pre "0xEE # post"] by simp
next
  case (Cons kx kvs)
  obtain k x where kx: "kx = (k, x)" by (cases kx)
  let ?q = "concat (map packed_member kvs) @ [0, 0, 0xEE] @ post"
  let ?m = "pre @ packed_key k @ toPacked x @ ?q"
  have k: "0 < length k" "length k < 65536" and x: "skips x" using Cons.prems(1) kx by auto
  obtain a b where r: "rd ?m (length pre) = Some a" "rd ?m (length pre + 1) = Some b" "a \<noteq> 0 \<or> b \<noteq> 0"
    and s: "btohs ?m (length pre) = Some (of_nat (length k))" and u: "unat (of_nat (length k) :: u16) = length k"
    and K: "rdn ?m (length pre + 2) (length k) = Some k"
    by (rule packed_name [OF k])
  have m: "packed_member kx = packed_key k @ toPacked x" by (simp add: kx packed_member_def)
  have "skip ((pre @ packed_key k) @ toPacked x @ ?q) mx Skip_value (length (pre @ packed_key k)) =
      Some (Some (length (pre @ packed_key k) + length (toPacked x)))"
    by (rule skipsD [OF x]) (use Cons.prems m in auto)
  then have v: "skip ?m mx Skip_value (length pre + (2 + unat (of_nat (length k) :: u16))) =
      Some (Some (length (pre @ packed_key k @ toPacked x)))"
    unfolding u by (simp add: add.commute)
  have "skip ((pre @ packed_key k @ toPacked x) @ ?q) mx Skip_members (length (pre @ packed_key k @ toPacked x)) =
      Some (Some (length (pre @ packed_key k @ toPacked x) + length (concat (map packed_member kvs)) + 3))"
    by (rule Cons.IH) (use Cons.prems m in auto)
  then show ?case using skip_members_step [OF r _ s v] Cons.prems(2) m k by (simp add: m [unfolded kx] kx)
qed

lemma skips_array: "(\<And>x. x \<in> set xs \<Longrightarrow> skips x) \<Longrightarrow> skips (aval xs)"
  unfolding skips_def [of "aval xs"] toPacked_aval
proof (intro conjI allI impI, goal_cases)
  case (3 pre post mx)
  have "skip ((pre @ [0x0A]) @ concat (map toPacked xs) @ [0, 0, 0xEE] @ post) mx Skip_elements (length (pre @ [0x0A])) =
    Some (Some (length (pre @ [0x0A]) + length (concat (map toPacked xs)) + 3))"
    by (rule skip_elements) (use 3 in auto)
  then show ?case using 3(2) by (subst skip.simps) (simp add: dtsc_codes)
qed simp_all

lemma skips_object:
  "(\<And>k x. (k, x) \<in> set kvs \<Longrightarrow> 0 < length k \<and> length k < 65536 \<and> skips x) \<Longrightarrow> skips (oval kvs)"
proof -
  assume a: "\<And>k x. (k, x) \<in> set kvs \<Longrightarrow> 0 < length k \<and> length k < 65536 \<and> skips x"
  have e: "toPacked (oval kvs) = 0xE0 # concat (map packed_member kvs) @ [0, 0, 0xEE]"
    by (rule toPacked_oval) (use a in blast)
  show ?thesis unfolding skips_def [of "oval kvs"] e
  proof (intro conjI allI impI, goal_cases)
    case (3 pre post mx)
    have "skip ((pre @ [0xE0]) @ concat (map packed_member kvs) @ [0, 0, 0xEE] @ post) mx Skip_members (length (pre @ [0xE0])) =
      Some (Some (length (pre @ [0xE0]) + length (concat (map packed_member kvs)) + 3))"
      by (rule skip_members) (use 3 a in auto)
    then show ?case using 3(1) by (subst skip.simps) (simp add: dtsc_codes)
  qed simp_all
qed

lemma scannable_skips: "scannable v \<Longrightarrow> skips v"
  by (induction rule: scannable.induct)
    (auto intro!: skips_array skips_object simp: skips_int skips_double skips_null skips_string)

lemma skipDTSC_packed:
  "scannable v \<Longrightarrow> length pre + length (toPacked v) < mx \<Longrightarrow> length (toPacked v) < 2 ^ 32 \<Longrightarrow>
   skipDTSC (pre @ toPacked v @ post) mx (length pre) = Some (Some (length pre + length (toPacked v)))"
  using scannable_skips [of v] by (simp add: skips_def skipDTSC_def)

lemma strncmp_at_eq:
  "rdn m i (length k) = Some k' \<Longrightarrow> 0 \<notin> set k \<Longrightarrow> strncmp_at k m i (length k) = Some (k = k')"
proof (induction k arbitrary: i k')
  case (Cons c k)
  then obtain y ys where y: "rd m i = Some y" "rdn m (Suc i) (length k) = Some ys" "k' = y # ys"
    by (auto simp: rdn_Suc split: bind_splits)
  then show ?case using Cons.IH [OF y(2)] Cons.prems(2) by auto
qed (auto simp: rdn_0 split: if_splits)

lemma same_name_eq:
  assumes "rdn m i (length k) = Some k" "0 \<notin> set n"
  shows "same_name m n i (length k) = Some (n = k)"
  using assms strncmp_at_eq [of m i n k] by (auto simp: same_name_def)

lemma obj_loop_return:
  assumes "rd m i = Some a" "rd m (i + 1) = Some b" "a \<noteq> 0 \<or> b \<noteq> 0" "i + 2 < mx" "btohs m i = Some n"
    "body (i + 2) (unat n) st = Some (Inl r)"
  shows "obj_loop m mx body i st = Some (Returned r)"
  using assms by (subst obj_loop.simps) auto

lemma obj_loop_step:
  assumes "rd m i = Some a" "rd m (i + 1) = Some b" "a \<noteq> 0 \<or> b \<noteq> 0" "i + 2 < mx" "btohs m i = Some n"
    "body (i + 2) (unat n) st = Some (Inr st')" "skipDTSC m mx (i + 2 + unat n) = Some (Some j)"
  shows "obj_loop m mx body i st = obj_loop m mx body j st'"
  using assms by (subst obj_loop.simps) auto

lemma obj_loop_end: "obj_loop (pre @ 0 # 0 # post) mx body (length pre) st = Some (At_end st)"
  by (subst obj_loop.simps) (simp add: rd_append_Suc)

text \<open>The search for a name among packed members stops at its first member.\<close>

lemma member_loop:
  fixes name :: bytes and f :: "nat \<Rightarrow> nat \<Rightarrow> scan"
  defines "body \<equiv> \<lambda>m i strlen st. do { same \<leftarrow> same_name m name i strlen;
      Some (if same then Inl (f i strlen) else Inr st) }"
  assumes "\<And>k x. (k, x) \<in> set kvs \<Longrightarrow> 0 < length k \<and> length k < 65536 \<and> skips x"
    "length pre + length (concat (map packed_member kvs)) + 2 < mx"
    "length (concat (map packed_member kvs)) < 2 ^ 32" "0 \<notin> set name"
  shows "(map_of kvs name = None \<longrightarrow>
       obj_loop (pre @ concat (map packed_member kvs) @ [0, 0, 0xEE] @ post) mx
         (body (pre @ concat (map packed_member kvs) @ [0, 0, 0xEE] @ post)) (length pre) st = Some (At_end st)) \<and>
     (\<forall>x. map_of kvs name = Some x \<longrightarrow> (\<exists>bef aft. concat (map packed_member kvs) = bef @ packed_member (name, x) @ aft \<and>
       obj_loop (pre @ concat (map packed_member kvs) @ [0, 0, 0xEE] @ post) mx
         (body (pre @ concat (map packed_member kvs) @ [0, 0, 0xEE] @ post)) (length pre) st =
         Some (Returned (f (length pre + length bef + 2) (length name)))))"
  using assms(2-)
proof (induction kvs arbitrary: pre)
  case Nil
  then show ?case using obj_loop_end [of pre "0xEE # post"] by simp
next
  case (Cons kx kvs)
  obtain k x where kx: "kx = (k, x)" by (cases kx)
  let ?q = "concat (map packed_member kvs) @ [0, 0, 0xEE] @ post"
  let ?m = "pre @ packed_key k @ toPacked x @ ?q"
  have k: "0 < length k" "length k < 65536" and x: "skips x" using Cons.prems(1) kx by auto
  obtain a b where r: "rd ?m (length pre) = Some a" "rd ?m (length pre + 1) = Some b" "a \<noteq> 0 \<or> b \<noteq> 0"
    and s: "btohs ?m (length pre) = Some (of_nat (length k))" and u: "unat (of_nat (length k) :: u16) = length k"
    and K: "rdn ?m (length pre + 2) (length k) = Some k"
    by (rule packed_name [OF k])
  have m: "packed_member kx = packed_key k @ toPacked x" by (simp add: kx packed_member_def)
  have n: "same_name ?m name (length pre + 2) (length k) = Some (name = k)"
    using K Cons.prems(4) by (rule same_name_eq)
  have lt: "length pre + 2 < mx" using Cons.prems by simp
  have M: "pre @ concat (map packed_member (kx # kvs)) @ [0, 0, 0xEE] @ post = ?m" by (simp add: m)
  show ?case
  proof (cases "name = k")
    case True
    have "obj_loop ?m mx (body ?m) (length pre) st = Some (Returned (f (length pre + 2) (length k)))"
      by (rule obj_loop_return [OF r lt s]) (use n True in \<open>simp add: body_def u\<close>)
    then show ?thesis unfolding M by (fastforce simp: kx True intro: exI [of _ "[]"])
  next
    case False
    have b: "body ?m (length pre + 2) (unat (of_nat (length k) :: u16)) st = Some (Inr st)"
      using n False by (simp add: body_def u)
    have "skip ((pre @ packed_key k) @ toPacked x @ ?q) mx Skip_value (length (pre @ packed_key k)) =
        Some (Some (length (pre @ packed_key k) + length (toPacked x)))"
      by (rule skipsD [OF x]) (use Cons.prems m in auto)
    then have v: "skipDTSC ?m mx (length pre + 2 + unat (of_nat (length k) :: u16)) =
        Some (Some (length (pre @ packed_key k @ toPacked x)))"
      unfolding u skipDTSC_def by (simp add: add.commute)
    have e: "obj_loop ?m mx (body ?m) (length pre) st =
        obj_loop ?m mx (body ?m) (length (pre @ packed_key k @ toPacked x)) st"
      by (rule obj_loop_step [where body = "body ?m", OF r lt s b v])
    let ?pre = "pre @ packed_key k @ toPacked x"
    have IH: "(map_of kvs name = None \<longrightarrow> obj_loop (?pre @ ?q) mx (body (?pre @ ?q)) (length ?pre) st = Some (At_end st)) \<and>
      (\<forall>x. map_of kvs name = Some x \<longrightarrow> (\<exists>bef aft. concat (map packed_member kvs) = bef @ packed_member (name, x) @ aft \<and>
       obj_loop (?pre @ ?q) mx (body (?pre @ ?q)) (length ?pre) st =
         Some (Returned (f (length ?pre + length bef + 2) (length name)))))"
      by (rule Cons.IH) (use Cons.prems m in auto)
    show ?thesis
    proof (intro conjI impI allI, goal_cases)
      case 1
      then show ?case using IH False unfolding M e by (simp add: kx)
    next
      case (2 y)
      then obtain bef aft where "concat (map packed_member kvs) = bef @ packed_member (name, y) @ aft"
        "obj_loop (?pre @ ?q) mx (body (?pre @ ?q)) (length ?pre) st =
          Some (Returned (f (length ?pre + length bef + 2) (length name)))"
        using IH False by (auto simp: kx)
      then show ?case unfolding M e
        by - (rule exI [where x = "packed_member kx @ bef"], rule exI [where x = aft], simp add: m add.assoc)
    qed
  qed
qed

lemma scannable_members:
  "scannable (oval kvs) \<Longrightarrow> (k, x) \<in> set kvs \<Longrightarrow> 0 < length k \<and> length k < 65536 \<and> scannable x"
  by (cases rule: scannable.cases, assumption)
    (simp_all add: oval_def aval_def set_int_def set_double_def jnull_def set_string_def)

lemma getMember_packed_at:
  fixes kvs name pre post
  defines "m \<equiv> pre @ toPacked (oval kvs) @ post"
  assumes "scannable (oval kvs)" "0 \<notin> set name" "length (toPacked (oval kvs)) \<le> len" "length (toPacked (oval kvs)) < 2 ^ 32"
  shows "case map_of kvs name of
      None \<Rightarrow> getMember m (Scan_at (length pre) len) name = Some Scan
    | Some x \<Rightarrow> \<exists>bef aft. toPacked (oval kvs) = bef @ toPacked x @ aft \<and>
        getMember m (Scan_at (length pre) len) name = Some (Scan_at (length pre + length bef) (len - (length bef - length name)))"
proof -
  have k: "0 < length k \<and> length k < 65536 \<and> skips x" if "(k, x) \<in> set kvs" for k x
    using scannable_members [OF assms(2) that] scannable_skips by blast
  have e: "toPacked (oval kvs) = 0xE0 # concat (map packed_member kvs) @ [0, 0, 0xEE]"
    by (rule toPacked_oval) (use k in blast)
  let ?f = "\<lambda>i strlen. Scan_at (i + strlen) (len - (i - length pre))"
  have g: "getMember m (Scan_at (length pre) len) name =
      do { e \<leftarrow> obj_loop m (length pre + len) (\<lambda>i strlen st. do { same \<leftarrow> same_name m name i strlen;
             Some (if same then Inl (?f i strlen) else Inr st) }) (length (pre @ [0xE0])) ();
           Some (case e of Returned x \<Rightarrow> x | _ \<Rightarrow> Scan) }"
    by (simp add: getMember_def getType_def Scan_at_def m_def e dtsc_codes cong: if_cong)
  have M: "m = (pre @ [0xE0]) @ concat (map packed_member kvs) @ [0, 0, 0xEE] @ post" by (simp add: m_def e)
  note loop = member_loop [of kvs "pre @ [0xE0]" "length pre + len" name post ?f "()", OF k, folded M]
  show ?thesis
  proof (cases "map_of kvs name")
    case None
    then show ?thesis using loop assms(3-5) by (simp add: g e)
  next
    case (Some x)
    then obtain bef aft where "concat (map packed_member kvs) = bef @ packed_member (name, x) @ aft"
      "getMember m (Scan_at (length pre) len) name = Some (?f (length (pre @ [0xE0]) + length bef + 2) (length name))"
      using loop assms(3-5) by (auto simp add: g e)
    then show ?thesis unfolding Some option.case
      by - (rule exI [where x = "0xE0 # bef @ packed_key name"], rule exI [where x = "aft @ [0, 0, 0xEE]"],
        simp add: e packed_member_def add.assoc)
  qed
qed

text \<open>C30: \<open>getMember\<close> on a packed object finds the value of the first member of that name, in place, and
  gives an empty \<open>Scan\<close> when there is none. The length it hands on still counts the name.\<close>

theorem getMember_packed:
  fixes kvs name pre post
  defines "m \<equiv> pre @ toPacked (oval kvs) @ post"
  assumes "scannable (oval kvs)" "0 \<notin> set name" "length (toPacked (oval kvs)) \<le> len" "length (toPacked (oval kvs)) < 2 ^ 32"
  shows "case map_of kvs name of
      None \<Rightarrow> getMember m (Scan_at (length pre) len) name = Some Scan
    | Some x \<Rightarrow> \<exists>bef aft. toPacked (oval kvs) = bef @ toPacked x @ aft \<and>
        getMember m (Scan_at (length pre) len) name = Some (Scan_at (length pre + length bef) (len - (length bef - length name)))"
  unfolding m_def using assms(2-5) by (rule getMember_packed_at)

theorem getMember_packed_witness:
  "\<exists>bef aft. toPacked (oval [(str ''a'', jnull), (str ''b'', set_int 7)]) = bef @ toPacked (set_int 7) @ aft \<and>
     getMember (1 # toPacked (oval [(str ''a'', jnull), (str ''b'', set_int 7)])) (Scan_at 1 22) (str ''b'') =
       Some (Scan_at (1 + length bef) (22 - (length bef - 1)))"
proof -
  let ?kvs = "[(str ''a'', jnull), (str ''b'', set_int 7)]"
  have e: "toPacked (oval ?kvs) =
      [0xE0, 0, 1, 0x61, 3, 0, 1, 0x62, 1, 0, 0, 0, 0, 0, 0, 0, 7, 0, 0, 0xEE]" by code_simp
  have s: "scannable (oval ?kvs)"
    by (rule scannable_object) (auto simp: str_def intro: scannable.intros)
  have "map_of ?kvs (str ''b'') = Some (set_int 7)" by (simp add: str_def)
  with getMember_packed [OF s, of "str ''b''" 22 "[1]" "[]"] show ?thesis
    unfolding e by (simp add: str_def)
qed

end
