(* ===== verification/DtscPacket.thy ===== *)
theory DtscPacket
  imports DtscScan ByteBuffer
begin

text \<open>
  Packets of the stream container (\<open>lib/dtsc.cpp\<close>, \<open>lib/dtsc.h\<close>): the class \<open>DTSC::Packet\<close>, which
  holds and edits one packet. A \<open>Packet\<close> either owns the block its data pointer points to or refers
  to one of somebody else. The value of an operation is \<open>None\<close> when the code reads or writes outside
  of the block, or frees a block it does not own. \<open>realloc\<close> is the argument \<open>ra\<close>, as in \<open>ByteBuffer\<close>.
\<close>

section \<open>Packets\<close>

datatype packType = DTSC_INVALID | DTSC_HEAD | DTSC_V1 | DTSC_V2 | DTCM

text \<open>The data pointer: null, a block of its own from \<open>realloc\<close>, or one of somebody else.\<close>

datatype buf = Null | Own bytes | Ref bytes

record packet =
  pk_master :: bool
  pk_version :: packType
  pk_data :: buf
  pk_bufferLen :: u32
  pk_dataLen :: u32
  pk_prevNalSize :: u64

definition Packet :: packet where
  "Packet = \<lparr>pk_master = False, pk_version = DTSC_INVALID, pk_data = Null, pk_bufferLen = 0,
     pk_dataLen = 0, pk_prevNalSize = 0\<rparr>"

definition pk_mem :: "packet \<Rightarrow> bytes option" where
  "pk_mem p = (case pk_data p of Null \<Rightarrow> None | Own m \<Rightarrow> Some m | Ref m \<Rightarrow> Some m)"

definition set_mem :: "packet \<Rightarrow> bytes \<Rightarrow> packet" where
  "set_mem p m = p\<lparr>pk_data := (case pk_data p of Null \<Rightarrow> Null | Own _ \<Rightarrow> Own m | Ref _ \<Rightarrow> Ref m)\<rparr>"

definition pk_null :: "packet \<Rightarrow> packet option" where
  "pk_null p =
     (if pk_master p \<and> (case pk_data p of Ref _ \<Rightarrow> True | _ \<Rightarrow> False) then None
      else Some (p\<lparr>pk_master := False, pk_data := Null, pk_bufferLen := 0, pk_dataLen := 0,
                   pk_version := DTSC_INVALID\<rparr>))"

definition pk_resize :: "allocator \<Rightarrow> packet \<Rightarrow> nat \<Rightarrow> packet option" where
  "pk_resize ra p len =
     (if pk_master p \<and> unat (pk_bufferLen p) < len then
        (case pk_data p of
           Ref m \<Rightarrow> None
         | Null \<Rightarrow> Some (case ra [] len of Some m \<Rightarrow> p\<lparr>pk_data := Own m, pk_bufferLen := of_nat len\<rparr> | None \<Rightarrow> p)
         | Own b \<Rightarrow> Some (case ra b len of Some m \<Rightarrow> p\<lparr>pk_data := Own m, pk_bufferLen := of_nat len\<rparr> | None \<Rightarrow> p))
      else Some p)"

definition pk_store :: "packet \<Rightarrow> nat \<Rightarrow> bytes \<Rightarrow> packet option" where
  "pk_store p i bs = do { m \<leftarrow> pk_mem p; m \<leftarrow> wrn m i bs; Some (set_mem p m) }"

text \<open>Whether one of the first four bytes is zero, looking no further than the first zero.\<close>

definition zero_in_magic :: "bytes \<Rightarrow> bool option" where
  "zero_in_magic d =
     do { a \<leftarrow> rd d 0;
          if a = 0 then Some True else do { b \<leftarrow> rd d 1;
          if b = 0 then Some True else do { c \<leftarrow> rd d 2;
          if c = 0 then Some True else do { e \<leftarrow> rd d 3; Some (e = 0) } } } }"

definition version_of :: "bytes \<Rightarrow> packType" where
  "version_of magic =
     (if magic = str ''DTCM'' then DTCM
      else if magic = str ''DTSC'' then DTSC_HEAD
      else if magic = str ''DTPD'' then DTSC_V1
      else if magic = str ''DTP2'' then DTSC_V2
      else DTSC_INVALID)"

text \<open>\<open>reInit\<close> from a pointer; the null pointer is \<open>None\<close>.\<close>

definition reInit :: "allocator \<Rightarrow> packet \<Rightarrow> bytes option \<Rightarrow> u32 \<Rightarrow> bool \<Rightarrow> packet option" where
  "reInit ra p d len noCopy =
     (case d of
        None \<Rightarrow> pk_null p
      | Some d \<Rightarrow>
          do { z \<leftarrow> zero_in_magic d;
               if z then pk_null p
               else if d ! 0 \<noteq> 0x44 \<or> d ! 1 \<noteq> 0x54 then
                 do { _ \<leftarrow> rdn d 0 (min (unat len) 20); pk_null p }
               else
                 do { len \<leftarrow> (if len = 0 then map_option (\<lambda>n. n + 8) (btohl d 4) else Some len);
                      p \<leftarrow> (if pk_master p \<and> noCopy then pk_null p else Some p);
                      let p = p\<lparr>pk_master := \<not> noCopy\<rparr>;
                      p \<leftarrow> (if noCopy then Some (p\<lparr>pk_data := Ref d\<rparr>)
                           else do { p \<leftarrow> pk_resize ra p (unat len);
                                     bs \<leftarrow> rdn d 0 (unat len);
                                     pk_store p 0 bs });
                      let p = p\<lparr>pk_dataLen := len, pk_version := DTSC_INVALID\<rparr>;
                      if len < 4 then Some p
                      else do { m \<leftarrow> pk_mem p; magic \<leftarrow> rdn m 0 4;
                                Some (p\<lparr>pk_version := version_of magic\<rparr>) } } })"

text \<open>\<open>operator bool\<close>: the sum in the length check is one of 32 bits.\<close>

definition pk_valid :: "packet \<Rightarrow> bool option" where
  "pk_valid p =
     (if pk_data p = Null then Some False
      else if pk_dataLen p < 8 then Some False
      else if pk_version p = DTSC_INVALID then Some False
      else do { m \<leftarrow> pk_mem p; n \<leftarrow> btohl m 4; Some (\<not> n + 8 > pk_dataLen p) })"

definition INVALID_TRACK_ID :: u64 where
  "INVALID_TRACK_ID = 0xFFFFFFFF"

text \<open>The copy constructor does not set \<open>prevNalSize\<close>: the argument \<open>junk\<close> is what is there.\<close>

definition Packet_copy :: "allocator \<Rightarrow> u64 \<Rightarrow> packet \<Rightarrow> u64 \<Rightarrow> packet option" where
  "Packet_copy ra junk rhs idx =
     (let p = Packet\<lparr>pk_prevNalSize := junk\<rparr>
      in if pk_data rhs \<noteq> Null \<and> pk_dataLen rhs \<noteq> 0 then
           do { p \<leftarrow> reInit ra p (pk_mem rhs) (pk_dataLen rhs) False;
                if idx \<noteq> INVALID_TRACK_ID then pk_store p 8 (be_bytes 4 (ucast idx :: u32)) else Some p }
         else pk_null p)"

definition pk_assign :: "allocator \<Rightarrow> packet \<Rightarrow> packet \<Rightarrow> packet option" where
  "pk_assign ra p rhs =
     do { p \<leftarrow> (if pk_master p \<and> \<not> pk_master rhs then pk_null p else Some p);
          ok \<leftarrow> pk_valid rhs;
          if ok \<and> pk_data rhs \<noteq> Null \<and> pk_dataLen rhs \<noteq> 0
          then reInit ra p (pk_mem rhs) (pk_dataLen rhs) (\<not> pk_master rhs)
          else pk_null p }"

text \<open>\<open>genericFill\<close>; \<open>packData\<close> is the memory a pointer points to.\<close>

definition genericFill ::
  "allocator \<Rightarrow> packet \<Rightarrow> u64 \<Rightarrow> u64 \<Rightarrow> u32 \<Rightarrow> bytes option \<Rightarrow> nat \<Rightarrow> u64 \<Rightarrow> bool \<Rightarrow> packet option" where
  "genericFill ra p packTime packOffset packTrack packData packDataSize packBytePos isKeyframe =
     do { p \<leftarrow> pk_null p;
          let p = p\<lparr>pk_master := True\<rparr>;
          if packData \<noteq> None \<and> packDataSize < 1 then Some p
          else
            do { let sendLen = (24 + (if packOffset \<noteq> 0 then 17 else 0) + (if packBytePos \<noteq> 0 then 15 else 0)
                        + (if isKeyframe then 19 else 0) + of_nat packDataSize + 11 :: u32);
                 p \<leftarrow> pk_resize ra p (unat sendLen);
                 let p = p\<lparr>pk_version := DTSC_V2, pk_dataLen := sendLen\<rparr>;
                 p \<leftarrow> pk_store p 0 (str ''DTP2'');
                 p \<leftarrow> pk_store p 4 (be_bytes 4 (sendLen - 8));
                 p \<leftarrow> pk_store p 8 (be_bytes 4 packTrack);
                 p \<leftarrow> pk_store p 12 (be_bytes 8 packTime);
                 p \<leftarrow> pk_store p 20 [0xE0];
                 let offset = 21;
                 (p, offset) \<leftarrow>
                   (if packOffset \<noteq> 0 then
                      do { p \<leftarrow> pk_store p offset ([0, 6] @ str ''offset'' @ [1]);
                           p \<leftarrow> pk_store p (offset + 9) (be_bytes 8 packOffset);
                           Some (p, offset + 17) }
                    else Some (p, offset));
                 (p, offset) \<leftarrow>
                   (if packBytePos \<noteq> 0 then
                      do { p \<leftarrow> pk_store p offset ([0, 4] @ str ''bpos'' @ [1]);
                           p \<leftarrow> pk_store p (offset + 7) (be_bytes 8 packBytePos);
                           Some (p, offset + 15) }
                    else Some (p, offset));
                 (p, offset) \<leftarrow>
                   (if isKeyframe then
                      do { p \<leftarrow> pk_store p offset ([0, 8] @ str ''keyframe'' @ [1, 0, 0, 0, 0, 0, 0, 0, 1]);
                           Some (p, offset + 19) }
                    else Some (p, offset));
                 p \<leftarrow> pk_store p offset ([0, 4] @ str ''data'' @ [2]);
                 p \<leftarrow> pk_store p (offset + 7) (be_bytes 4 (of_nat packDataSize :: u32));
                 bs \<leftarrow> (case packData of
                          Some d \<Rightarrow> rdn d 0 packDataSize
                        | None \<Rightarrow> if packDataSize = 0 then Some [] else None);
                 p \<leftarrow> pk_store p (offset + 11) bs;
                 pk_store p (offset + 11 + packDataSize) [0, 0, 0xEE] } }"

text \<open>The search of \<open>setKeyFrame\<close> for the field; it does not return when it meets an unknown one.\<close>

partial_function (option) key_offset :: "bytes \<Rightarrow> u32 \<Rightarrow> u32 option option" where
  "key_offset m offset =
     (case rd m (unat offset) of
        None \<Rightarrow> Some None
      | Some c \<Rightarrow>
          if c \<noteq> 0x64 \<and> c \<noteq> 0x6B \<and> c \<noteq> 0x4B then
            (if c = 0x6F then key_offset m (offset + 17)
             else if c = 0x62 then key_offset m (offset + 15)
             else key_offset m offset)
          else Some (Some offset))"

definition setKeyFrame :: "packet \<Rightarrow> bool \<Rightarrow> packet option option" where
  "setKeyFrame p kf =
     (case pk_mem p of
        None \<Rightarrow> Some None
      | Some m \<Rightarrow>
          do { r \<leftarrow> key_offset m 23;
               Some (do { offset \<leftarrow> r;
                          c \<leftarrow> rd m (unat offset);
                          if c = 0x6B \<or> c = 0x4B then
                            do { p \<leftarrow> pk_store p (unat offset) [if kf then 0x6B else 0x4B];
                                 pk_store p (unat (offset + 16)) [if kf then 1 else 0] }
                          else Some p }) })"

text \<open>The offset of the length of the data; all ones for an unknown field.\<close>

function data_len_offset :: "bytes \<Rightarrow> nat \<Rightarrow> u64 option" where
  "data_len_offset m offset =
     do { c \<leftarrow> rd m offset;
          if c \<noteq> 0x64 then
            (if c = 0x6F then data_len_offset m (offset + 17)
             else if c = 0x62 then data_len_offset m (offset + 15)
             else if c = 0x6B \<or> c = 0x4B then data_len_offset m (offset + 19)
             else Some (- 1))
          else Some (of_nat (offset + 5)) }"
  by pat_completeness auto
termination
  by (relation "measure (\<lambda>(m, offset). length m - offset)") (auto simp: rd_Some_iff)

declare data_len_offset.simps [simp del]

definition getDataStringLenOffset :: "packet \<Rightarrow> u64 option" where
  "getDataStringLenOffset p = do { m \<leftarrow> pk_mem p; data_len_offset m 23 }"

definition getDataStringLen :: "packet \<Rightarrow> u32 option" where
  "getDataStringLen p = do { off \<leftarrow> getDataStringLenOffset p; m \<leftarrow> pk_mem p; btohl m (unat off) }"

text \<open>Adding to the two length fields, of the packet and of its data.\<close>

definition add_length :: "packet \<Rightarrow> nat \<Rightarrow> u32 \<Rightarrow> packet option" where
  "add_length p i n = do { m \<leftarrow> pk_mem p; l \<leftarrow> btohl m i; pk_store p i (be_bytes 4 (l + n)) }"

definition add_lengths :: "packet \<Rightarrow> u32 \<Rightarrow> packet option" where
  "add_lengths p n =
     do { p \<leftarrow> add_length p 4 n;
          off \<leftarrow> getDataStringLenOffset p;
          add_length p (unat (ucast off :: u32)) n }"

text \<open>The end of the data, where a container ends with three bytes.\<close>

definition data_end :: "packet \<Rightarrow> nat option" where
  "data_end p = (if pk_dataLen p < 3 then None else Some (unat (pk_dataLen p) - 3))"

definition appendData :: "allocator \<Rightarrow> packet \<Rightarrow> bytes \<Rightarrow> u32 \<Rightarrow> packet option" where
  "appendData ra p d appendLen =
     do { p \<leftarrow> pk_resize ra p (unat (pk_dataLen p + appendLen));
          e \<leftarrow> data_end p;
          bs \<leftarrow> rdn d 0 (unat appendLen);
          p \<leftarrow> pk_store p e bs;
          p \<leftarrow> pk_store p (e + unat appendLen) [0, 0, 0xEE];
          let p = p\<lparr>pk_dataLen := pk_dataLen p + appendLen\<rparr>;
          add_lengths p appendLen }"

definition appendNal :: "allocator \<Rightarrow> packet \<Rightarrow> bytes \<Rightarrow> u32 \<Rightarrow> packet option" where
  "appendNal ra p d appendLen =
     (if appendLen = 0 then Some p
      else
        do { p \<leftarrow> pk_resize ra p (unat (pk_dataLen p + appendLen + 4));
             e \<leftarrow> data_end p;
             p \<leftarrow> pk_store p e (be_bytes 4 appendLen);
             bs \<leftarrow> rdn d 0 (unat appendLen);
             p \<leftarrow> pk_store p (e + 4) bs;
             p \<leftarrow> pk_store p (e + 4 + unat appendLen) [0, 0, 0xEE];
             let p = p\<lparr>pk_dataLen := pk_dataLen p + (appendLen + 4)\<rparr>;
             p \<leftarrow> add_lengths p (appendLen + 4);
             Some (p\<lparr>pk_prevNalSize := ucast appendLen\<rparr>) })"

text \<open>In \<open>upgradeNal\<close> the offset of the size of the last unit is a 64-bit number; \<open>data\<close> plus an offset
  that went below zero is outside of the block.\<close>

definition upgradeNal :: "allocator \<Rightarrow> packet \<Rightarrow> bytes \<Rightarrow> u32 \<Rightarrow> packet option" where
  "upgradeNal ra p d appendLen =
     (if appendLen = 0 then Some p
      else
        do { let sizeOffset = ucast (pk_dataLen p - 3 - 4) - pk_prevNalSize p;
             m \<leftarrow> pk_mem p;
             n \<leftarrow> btohl m (unat sizeOffset);
             if ucast n \<noteq> pk_prevNalSize p then Some p
             else
               do { p \<leftarrow> pk_resize ra p (unat (pk_dataLen p + appendLen));
                    p \<leftarrow> pk_store p (unat sizeOffset) (be_bytes 4 (ucast (pk_prevNalSize p + ucast appendLen) :: u32));
                    let p = p\<lparr>pk_prevNalSize := pk_prevNalSize p + ucast appendLen\<rparr>;
                    e \<leftarrow> data_end p;
                    bs \<leftarrow> rdn d 0 (unat appendLen);
                    p \<leftarrow> pk_store p e bs;
                    p \<leftarrow> pk_store p (e + unat appendLen) [0, 0, 0xEE];
                    let p = p\<lparr>pk_dataLen := pk_dataLen p + appendLen\<rparr>;
                    add_lengths p appendLen } })"

section \<open>Reading packets\<close>

definition getPayloadLen :: "packet \<Rightarrow> u32" where
  "getPayloadLen p = (if pk_version p = DTSC_V2 then pk_dataLen p - 20 else pk_dataLen p - 8)"

definition getScan :: "packet \<Rightarrow> scan option" where
  "getScan p =
     do { ok \<leftarrow> pk_valid p;
          if \<not> ok \<or> pk_dataLen p = 0 \<or> getPayloadLen p = 0 \<or> pk_dataLen p \<le> getPayloadLen p then Some Scan
          else Some (Scan_at (unat (pk_dataLen p - getPayloadLen p)) (unat (getPayloadLen p))) }"

text \<open>A value of the packet by its name, and the memory it is in.\<close>

definition pk_member :: "packet \<Rightarrow> bytes \<Rightarrow> (bytes \<times> scan) option" where
  "pk_member p identifier =
     do { s \<leftarrow> getScan p;
          let m = (case pk_mem p of Some m \<Rightarrow> m | None \<Rightarrow> []);
          r \<leftarrow> getMember m s identifier;
          Some (m, r) }"

definition pk_getString :: "packet \<Rightarrow> bytes \<Rightarrow> (nat option \<times> nat) option" where
  "pk_getString p identifier = do { (m, s) \<leftarrow> pk_member p identifier; sc_getString m s }"

definition pk_getString_copy :: "(u64 \<Rightarrow> bytes) \<Rightarrow> packet \<Rightarrow> bytes \<Rightarrow> bytes option" where
  "pk_getString_copy sd p identifier = do { (m, s) \<leftarrow> pk_member p identifier; sc_asString sd m s }"

definition pk_getInt :: "packet \<Rightarrow> bytes \<Rightarrow> u64 option" where
  "pk_getInt p identifier = do { (m, s) \<leftarrow> pk_member p identifier; sc_asInt m s }"

definition pk_getFlag :: "packet \<Rightarrow> bytes \<Rightarrow> bool option" where
  "pk_getFlag p identifier = do { n \<leftarrow> pk_getInt p identifier; Some (n \<noteq> 0) }"

definition pk_hasMember :: "packet \<Rightarrow> bytes \<Rightarrow> bool option" where
  "pk_hasMember p identifier = do { (m, s) \<leftarrow> pk_member p identifier; t \<leftarrow> getType m s; Some (t > 0) }"

definition getTime :: "packet \<Rightarrow> u64 option" where
  "getTime p =
     (if pk_version p \<noteq> DTSC_V2 then
        (if pk_data p = Null then Some 0 else pk_getInt p (str ''time''))
      else do { m \<leftarrow> pk_mem p; btohll m 12 })"

definition setTime :: "packet \<Rightarrow> u64 \<Rightarrow> packet option" where
  "setTime p t = (if \<not> pk_master p then Some p else pk_store p 12 (be_bytes 8 t))"

definition pk_nullMember :: "packet \<Rightarrow> bytes \<Rightarrow> packet option" where
  "pk_nullMember p memb =
     (if \<not> pk_master p then Some p
      else
        do { s \<leftarrow> getScan p;
             case pk_mem p of
               Some m \<Rightarrow> do { m \<leftarrow> sc_nullMember m s memb; Some (set_mem p m) }
             | None \<Rightarrow> Some p })"

definition getTrackId :: "packet \<Rightarrow> u64 option" where
  "getTrackId p =
     (if pk_version p \<noteq> DTSC_V2 then pk_getInt p (str ''trackid'')
      else do { m \<leftarrow> pk_mem p; n \<leftarrow> btohl m 8; Some (ucast n) })"

definition pk_toJSON :: "packet \<Rightarrow> jval option option" where
  "pk_toJSON p =
     (case pk_mem p of
        None \<Rightarrow> Some (Some junset)
      | Some m \<Rightarrow>
          if pk_version p = DTSC_V1 then map_option (map_option snd) (fromDTMI m (ucast (pk_dataLen p)) 8)
          else if pk_version p = DTSC_V2 then map_option (map_option snd) (fromDTMI2 m (ucast (pk_dataLen p)) 8 junset)
          else Some (Some junset))"

definition toSummary :: "packet \<Rightarrow> bytes option" where
  "toSummary p =
     do { (res, len) \<leftarrow> pk_getString p (str ''data'');
          track \<leftarrow> getTrackId p;
          time \<leftarrow> getTime p;
          key \<leftarrow> pk_hasMember p (str ''keyframe'');
          Some (to_dec (unat track) @ str ''@'' @ to_dec (unat time) @ str '': '' @ to_dec len @ str '' bytes''
                @ (if key then str '' (keyframe)'' else [])) }"

section \<open>The packet a writer means\<close>

definition data_members :: "u64 \<Rightarrow> u64 \<Rightarrow> bool \<Rightarrow> bytes \<Rightarrow> (bytes \<times> jval) list" where
  "data_members packOffset bytePos kf d =
     (if packOffset \<noteq> 0 then [(str ''offset'', set_int packOffset)] else []) @
     (if bytePos \<noteq> 0 then [(str ''bpos'', set_int bytePos)] else []) @
     (if kf then [(str ''keyframe'', set_int 1)] else []) @
     [(str ''data'', set_string d)]"

record media =
  md_track :: u32
  md_time :: u64
  md_offset :: u64
  md_bpos :: u64
  md_key :: bool
  md_data :: bytes

definition members_of :: "media \<Rightarrow> (bytes \<times> jval) list" where
  "members_of a = data_members (md_offset a) (md_bpos a) (md_key a) (md_data a)"

definition packet_image :: "media \<Rightarrow> bytes" where
  "packet_image a =
     (let obj = toPacked (oval (members_of a))
      in str ''DTP2'' @ be_bytes 4 (of_nat (12 + length obj) :: u32) @ be_bytes 4 (md_track a) @
         be_bytes 8 (md_time a) @ obj)"

definition opt_len :: "u64 \<Rightarrow> u64 \<Rightarrow> bool \<Rightarrow> nat" where
  "opt_len packOffset bytePos kf = (if packOffset \<noteq> 0 then 17 else 0) + (if bytePos \<noteq> 0 then 15 else 0) + (if kf then 19 else 0)"

definition opt_bytes :: "media \<Rightarrow> bytes" where
  "opt_bytes a =
     (if md_offset a \<noteq> 0 then [0, 6] @ str ''offset'' @ [1] @ be_bytes 8 (md_offset a) else []) @
     (if md_bpos a \<noteq> 0 then [0, 4] @ str ''bpos'' @ [1] @ be_bytes 8 (md_bpos a) else []) @
     (if md_key a then [0, 8] @ str ''keyframe'' @ [1, 0, 0, 0, 0, 0, 0, 0, 1] else [])"

lemma be_bytes_8_1: "be_bytes 8 (1 :: u64) = [0, 0, 0, 0, 0, 0, 0, 1]"
  by (simp add: be_bytes_def upt_rec)

lemma packed_names:
  "packed_key (str ''offset'') = [0, 6] @ str ''offset''" "packed_key (str ''bpos'') = [0, 4] @ str ''bpos''"
  "packed_key (str ''keyframe'') = [0, 8] @ str ''keyframe''" "packed_key (str ''data'') = [0, 4] @ str ''data''"
  by (simp_all add: packed_key_def)

lemma members_names: "(k, x) \<in> set (members_of a) \<Longrightarrow> 0 < length k \<and> length k < 65536 \<and> scannable x"
  by (auto simp: members_of_def data_members_def str_def intro: scannable.intros split: if_splits)

lemma members_scannable: "scannable (oval (members_of a))"
  by (rule scannable_object) (rule members_names)

lemma packed_members: "toPacked (oval (members_of a)) =
    0xE0 # opt_bytes a @ [0, 4] @ str ''data'' @ [2] @ be_bytes 4 (of_nat (length (md_data a)) :: u32) @ md_data a @ [0, 0, 0xEE]"
proof -
  have "toPacked (oval (members_of a)) = 0xE0 # concat (map packed_member (members_of a)) @ [0, 0, 0xEE]"
    by (rule toPacked_oval) (use members_names in blast)
  then show ?thesis
    by (simp add: members_of_def data_members_def packed_member_def packed_names toPacked_leaf opt_bytes_def be_bytes_8_1)
qed

lemma length_opt_bytes: "length (opt_bytes a) = opt_len (md_offset a) (md_bpos a) (md_key a)"
  by (simp add: opt_bytes_def opt_len_def)

lemma length_image: "length (packet_image a) = 35 + length (opt_bytes a) + length (md_data a)"
  by (simp add: packet_image_def packed_members)

lemma image_eq: "packet_image a = str ''DTP2'' @ be_bytes 4 (of_nat (27 + length (opt_bytes a) + length (md_data a)) :: u32) @
    be_bytes 4 (md_track a) @ be_bytes 8 (md_time a) @ 0xE0 # opt_bytes a @ [0, 4] @ str ''data'' @ [2] @
    be_bytes 4 (of_nat (length (md_data a)) :: u32) @ md_data a @ [0, 0, 0xEE]"
  by (simp add: packet_image_def packed_members add.assoc)

section \<open>Filling a packet\<close>

text \<open>A packet whose own block is written up to a point.\<close>

definition filled :: "packet \<Rightarrow> bytes \<Rightarrow> bytes \<Rightarrow> packet" where
  "filled p xs ys = p\<lparr>pk_data := Own (xs @ ys)\<rparr>"

lemma pk_store_filled:
  "length xs = i \<Longrightarrow> length bs \<le> length ys \<Longrightarrow>
   pk_store (filled p xs ys) i bs = Some (filled p (xs @ bs) (drop (length bs) ys))"
  by (simp add: pk_store_def pk_mem_def wrn_def set_mem_def filled_def)

lemma genericFill_image:
  assumes ra: "alloc_total ra" and own: "\<not> (pk_master p \<and> (\<exists>m. pk_data p = Ref m))"
    and a: "a = \<lparr>md_track = trk, md_time = tim, md_offset = packOffset, md_bpos = bytePos, md_key = kf, md_data = d\<rparr>"
    and d: "d \<noteq> []" "length (packet_image a) < 2 ^ 32"
  shows "genericFill ra p tim packOffset trk (Some (d @ beyond)) (length d) bytePos kf =
    Some (p\<lparr>pk_master := True, pk_data := Own (packet_image a), pk_bufferLen := of_nat (length (packet_image a)),
       pk_dataLen := of_nat (length (packet_image a)), pk_version := DTSC_V2\<rparr>)"
proof -
  let ?L = "length (packet_image a)"
  define sl where "sl = (24 + (if packOffset \<noteq> 0 then 17 else 0) + (if bytePos \<noteq> 0 then 15 else 0)
                        + (if kf then 19 else 0) + of_nat (length d) + 11 :: u32)"
  have sl: "sl = of_nat ?L" by (simp add: sl_def length_image length_opt_bytes opt_len_def a)
  have L: "unat sl = ?L" using d(2) by (simp add: sl unat_of_nat)
  obtain m where m: "ra [] ?L = Some m" "length m = ?L"
    using ra unfolding realloc_ok_def alloc_total_def by (metis (no_types, lifting) option.exhaust)
  define q where "q = p\<lparr>pk_master := True, pk_bufferLen := sl, pk_dataLen := sl, pk_version := DTSC_V2\<rparr>"
  define n where "n = p\<lparr>pk_master := False, pk_data := Null, pk_bufferLen := 0, pk_dataLen := 0, pk_version := DTSC_INVALID\<rparr>"
  have null: "pk_null p = Some n" using own by (auto simp: pk_null_def n_def split: buf.splits)
  have "0 < ?L" by (simp add: length_image)
  then have resize: "pk_resize ra (n\<lparr>pk_master := True\<rparr>) (unat sl) =
      Some (n\<lparr>pk_master := True, pk_data := Own m, pk_bufferLen := sl\<rparr>)"
    unfolding L using m by (simp add: pk_resize_def n_def sl)
  have q0: "n\<lparr>pk_master := True, pk_data := Own m, pk_bufferLen := sl, pk_version := DTSC_V2, pk_dataLen := sl\<rparr> = filled q [] m"
    by (simp add: q_def filled_def n_def)
  have len: "length m = 35 + opt_len packOffset bytePos kf + length d"
    using m(2) by (simp add: length_image length_opt_bytes a)
  have c: "of_nat (27 + opt_len packOffset bytePos kf + length d) = sl - 8"
    by (simp add: sl length_image length_opt_bytes a)
  have r: "rdn (d @ beyond) 0 (length d) = Some d" by (simp add: rdn_def)
  have "genericFill ra p tim packOffset trk (Some (d @ beyond)) (length d) bytePos kf = Some (filled q (packet_image a) [])"
    unfolding genericFill_def sl_def [symmetric] Let_def using d(1)
    apply (simp add: null resize q0 image_eq length_opt_bytes a c r del: of_nat_add)
    apply (cases "packOffset = 0"; cases "bytePos = 0"; cases kf)
    apply (simp_all add: pk_store_filled opt_bytes_def opt_len_def a len)
    done
  then show ?thesis by (simp add: q_def filled_def sl)
qed


section \<open>Packets that hold media data\<close>

text \<open>The bytes of such a packet with its two length fields left open.\<close>

definition frame :: "u32 \<Rightarrow> media \<Rightarrow> u32 \<Rightarrow> bytes \<Rightarrow> bytes" where
  "frame h a l b = str ''DTP2'' @ be_bytes 4 h @ be_bytes 4 (md_track a) @ be_bytes 8 (md_time a) @
     0xE0 # opt_bytes a @ [0, 4] @ str ''data'' @ [2] @ be_bytes 4 l @ b"

definition len_at :: "media \<Rightarrow> nat" where
  "len_at a = 28 + length (opt_bytes a)"

lemma image_frame: "packet_image a = frame (of_nat (27 + length (opt_bytes a) + length (md_data a))) a
    (of_nat (length (md_data a))) (md_data a @ [0, 0, 0xEE])"
  by (simp add: image_eq frame_def)

lemma length_frame [simp]: "length (frame h a l b) = len_at a + 4 + length b"
  by (simp add: frame_def len_at_def)

lemma frame_append: "frame h a l b @ c = frame h a l (b @ c)"
  by (simp add: frame_def)

lemma frame_cong: "opt_bytes a' = opt_bytes a \<Longrightarrow> md_track a' = md_track a \<Longrightarrow> md_time a' = md_time a \<Longrightarrow> frame h a' l b = frame h a l b"
  by (simp add: frame_def)

lemma btohl_be: "length xs = i \<Longrightarrow> btohl (xs @ be_bytes 4 v @ ys) i = Some v"
  by (simp add: btohl_eq rdn_def be_val_be_bytes)

lemma btohll_be: "length xs = i \<Longrightarrow> btohll (xs @ be_bytes 8 v @ ys) i = Some v"
  by (simp add: btohll_eq rdn_def be_val_be_bytes)

lemma frame_len:
  "btohl (frame h a l b) 4 = Some h" "wrn (frame h a l b) 4 (be_bytes 4 h') = Some (frame h' a l b)"
  by (simp_all add: frame_def btohl_be wrn_append_at)

lemma frame_track: "btohl (frame h a l b) 8 = Some (md_track a)"
  using btohl_be [of "str ''DTP2'' @ be_bytes 4 h" 8 "md_track a"] by (simp add: frame_def)

lemma frame_time: "btohll (frame h a l b) 12 = Some (md_time a)"
  using btohll_be [of "str ''DTP2'' @ be_bytes 4 h @ be_bytes 4 (md_track a)" 12 "md_time a"] by (simp add: frame_def)

lemma frame_data_len:
  "btohl (frame h a l b) (len_at a) = Some l" "wrn (frame h a l b) (len_at a) (be_bytes 4 l') = Some (frame h a l' b)"
proof -
  let ?x = "str ''DTP2'' @ be_bytes 4 h @ be_bytes 4 (md_track a) @ be_bytes 8 (md_time a) @
     0xE0 # opt_bytes a @ [0, 4] @ str ''data'' @ [2]"
  have x: "length ?x = len_at a" by (simp add: len_at_def)
  show "btohl (frame h a l b) (len_at a) = Some l" using btohl_be [OF x, of l b] by (simp add: frame_def)
  show "wrn (frame h a l b) (len_at a) (be_bytes 4 l') = Some (frame h a l' b)"
    using wrn_append_at [OF x, of "be_bytes 4 l" "be_bytes 4 l'" b] by (simp add: frame_def)
qed

lemma frame_store:
  "length ys = length bs \<Longrightarrow> i = len_at a + 4 + length xs \<Longrightarrow> wrn (frame h a l (xs @ ys @ zs)) i bs = Some (frame h a l (xs @ bs @ zs))"
  using wrn_append_at [of "frame h a l xs" i ys bs zs] by (simp add: frame_append)

lemma data_len_offset_steps:
  "rd m i = Some 0x64 \<Longrightarrow> data_len_offset m i = Some (of_nat (i + 5))"
  "rd m i = Some 0x6F \<Longrightarrow> data_len_offset m i = data_len_offset m (i + 17)"
  "rd m i = Some 0x62 \<Longrightarrow> data_len_offset m i = data_len_offset m (i + 15)"
  "rd m i = Some 0x6B \<Longrightarrow> data_len_offset m i = data_len_offset m (i + 19)"
  by (subst data_len_offset.simps, simp)+

lemma data_offset_frame: "data_len_offset (frame h a l b) 23 = Some (of_nat (len_at a))"
  by (cases "md_offset a = 0"; cases "md_bpos a = 0"; cases "md_key a")
    (simp_all add: frame_def len_at_def opt_bytes_def data_len_offset_steps rd_append_left rd_append_right str_def)

lemma add_lengths_frame:
  assumes "pk_data p = Own (frame h a l b)"
  shows "add_lengths p n = Some (p\<lparr>pk_data := Own (frame (h + n) a (l + n) b)\<rparr>)"
proof -
  have "len_at a \<le> 79" by (simp add: len_at_def length_opt_bytes opt_len_def)
  then have "unat (ucast (of_nat (len_at a) :: u64) :: u32) = len_at a"
    by (simp add: unsigned_ucast_eq unat_of_nat take_bit_nat_eq_self)
  then show ?thesis using assms
    by (simp add: add_lengths_def add_length_def pk_mem_def frame_len frame_data_len pk_store_def set_mem_def
        getDataStringLenOffset_def data_offset_frame)
qed


definition holds :: "packet \<Rightarrow> media \<Rightarrow> bool" where
  "holds p a \<longleftrightarrow> pk_master p \<and> pk_version p = DTSC_V2 \<and> length (packet_image a) < 2 ^ 32 \<and>
     pk_dataLen p = of_nat (length (packet_image a)) \<and>
     (\<exists>rest. pk_data p = Own (packet_image a @ rest) \<and> unat (pk_bufferLen p) = length (packet_image a @ rest))"

subsection \<open>Reading it\<close>

lemma getScan_holds:
  assumes "holds p a"
  shows "getScan p = Some (Scan_at 20 (length (packet_image a) - 20))"
proof -
  obtain rest where r: "pk_data p = Own (packet_image a @ rest)" using assms by (auto simp: holds_def)
  have L: "unat (pk_dataLen p) = length (packet_image a)" using assms by (simp add: holds_def unat_of_nat)
  have d: "pk_dataLen p = of_nat (27 + length (opt_bytes a) + length (md_data a)) + 8"
    using assms by (simp add: holds_def length_image)
  have l: "35 \<le> length (packet_image a)" by (simp add: length_image)
  have "btohl (packet_image a @ rest) 4 = Some (pk_dataLen p - 8)"
    unfolding image_frame frame_append frame_len d by simp
  then have v: "pk_valid p = Some True"
    using assms L l by (simp add: pk_valid_def r pk_mem_def holds_def word_less_nat_alt)
  have "unat (pk_dataLen p - 20) = length (packet_image a) - 20" "pk_dataLen p - (pk_dataLen p - 20) = 20"
    using L l by (simp_all add: unat_sub_if')
  moreover have "pk_version p = DTSC_V2" using assms by (simp add: holds_def)
  ultimately show ?thesis using L l
    by (auto simp: getScan_def v getPayloadLen_def word_le_nat_alt unat_gt_0 word_unat_eq_iff [of _ 0])
qed

lemma image_parts: "packet_image a = (str ''DTP2'' @ be_bytes 4 (of_nat (12 + length (toPacked (oval (members_of a)))) :: u32) @
    be_bytes 4 (md_track a) @ be_bytes 8 (md_time a)) @ toPacked (oval (members_of a))"
  by (simp add: packet_image_def Let_def)

lemma pk_member_holds:
  assumes "holds p a" "0 \<notin> set name"
  shows "case map_of (members_of a) name of
      None \<Rightarrow> \<exists>m. pk_member p name = Some (m, Scan)
    | Some x \<Rightarrow> \<exists>bef aft l. pk_member p name = Some (bef @ toPacked x @ aft, Scan_at (length bef) l)"
proof -
  obtain rest where r: "pk_data p = Own (packet_image a @ rest)" using assms by (auto simp: holds_def)
  let ?h = "str ''DTP2'' @ be_bytes 4 (of_nat (12 + length (toPacked (oval (members_of a)))) :: u32) @
    be_bytes 4 (md_track a) @ be_bytes 8 (md_time a)"
  have h: "length ?h = 20" by simp
  have "length (packet_image a) = 20 + length (toPacked (oval (members_of a)))"
    unfolding image_parts length_append h by simp
  then have len: "length (toPacked (oval (members_of a))) < 2 ^ 32"
    "length (packet_image a) - 20 = length (toPacked (oval (members_of a)))"
    using assms(1) by (auto simp: holds_def)
  have m: "packet_image a @ rest = ?h @ toPacked (oval (members_of a)) @ rest" unfolding image_parts by simp
  have pm: "pk_member p name = do { s \<leftarrow> getMember (?h @ toPacked (oval (members_of a)) @ rest)
      (Scan_at (length ?h) (length (toPacked (oval (members_of a))))) name; Some (packet_image a @ rest, s) }"
    unfolding h pk_member_def getScan_holds [OF assms(1)] len(2) m [symmetric] by (simp add: r pk_mem_def Let_def)
  note g = getMember_packed_at [OF members_scannable assms(2) order_refl len(1), of ?h rest]
  show ?thesis
  proof (cases "map_of (members_of a) name")
    case None
    then show ?thesis using g unfolding pm by simp
  next
    case (Some x)
    then obtain bef aft l where b: "toPacked (oval (members_of a)) = bef @ toPacked x @ aft"
      "getMember (?h @ toPacked (oval (members_of a)) @ rest)
        (Scan_at (length ?h) (length (toPacked (oval (members_of a))))) name = Some (Scan_at (length ?h + length bef) l)"
      using g by auto
    have "packet_image a @ rest = (?h @ bef) @ toPacked x @ (aft @ rest)" unfolding m b(1) by simp
    then have "pk_member p name = Some ((?h @ bef) @ toPacked x @ (aft @ rest), Scan_at (length (?h @ bef)) l)"
      unfolding pm b(2) by simp
    then show ?thesis unfolding Some option.case by blast
  qed
qed

lemma asInt_packed:
  "sc_asInt (bef @ toPacked (set_int n) @ aft) (Scan_at (length bef) l) = Some n"
  by (simp add: sc_asInt_def getType_def Scan_at_def toPacked_leaf dtsc_codes btohll_at)

lemma asInt_missing: "sc_asInt m Scan = Some 0"
  by (simp add: sc_asInt_def getType_def Scan_def)

lemma getString_packed:
  assumes "length s < 2 ^ 32"
  shows "sc_getString (bef @ toPacked (set_string s) @ aft) (Scan_at (length bef) l) = Some (Some (length bef + 5), length s)"
  using assms by (simp add: sc_getString_def getType_def Scan_at_def toPacked_leaf dtsc_codes btohl_at unat_of_nat)

lemma asString_packed:
  assumes "length s < 2 ^ 32"
  shows "sc_asString sd (bef @ toPacked (set_string s) @ aft) (Scan_at (length bef) l) = Some s"
proof -
  have "rdn (bef @ toPacked (set_string s) @ aft) (length bef + 5) (length s) = Some s"
    by (simp add: rdn_def toPacked_leaf)
  then show ?thesis using getString_packed [OF assms, of bef aft l]
    by (simp add: sc_asString_def getType_def Scan_at_def toPacked_leaf dtsc_codes)
qed

lemma member_int:
  assumes "holds p a" "0 \<notin> set name" "map_of (members_of a) name = (if n = 0 then None else Some (set_int n))"
  shows "pk_getInt p name = Some n"
  using pk_member_holds [OF assms(1,2)] assms(3)
  by (auto simp: pk_getInt_def asInt_packed asInt_missing split: if_splits)

lemma holds_reads:
  assumes "holds p a"
  shows "getTime p = Some (md_time a)" "getTrackId p = Some (ucast (md_track a))"
    "pk_getInt p (str ''offset'') = Some (md_offset a)" "pk_getInt p (str ''bpos'') = Some (md_bpos a)"
    "pk_getFlag p (str ''keyframe'') = Some (md_key a)" "pk_getString_copy sd p (str ''data'') = Some (md_data a)"
proof -
  obtain rest where r: "pk_mem p = Some (packet_image a @ rest)" using assms by (auto simp: holds_def pk_mem_def)
  have v: "pk_version p = DTSC_V2" using assms by (simp add: holds_def)
  show "getTime p = Some (md_time a)" "getTrackId p = Some (ucast (md_track a))"
    by (simp_all add: getTime_def getTrackId_def v r image_frame frame_append frame_time frame_track)
  show "pk_getInt p (str ''offset'') = Some (md_offset a)" "pk_getInt p (str ''bpos'') = Some (md_bpos a)"
    by (rule member_int [OF assms]; simp add: members_of_def data_members_def str_def)+
  have "pk_getInt p (str ''keyframe'') = Some (of_bool (md_key a))"
    by (rule member_int [OF assms]) (simp_all add: members_of_def data_members_def str_def)
  then show "pk_getFlag p (str ''keyframe'') = Some (md_key a)" by (simp add: pk_getFlag_def)
  have "length (md_data a) < 2 ^ 32" using assms by (simp add: holds_def length_image)
  moreover have "map_of (members_of a) (str ''data'') = Some (set_string (md_data a))"
    by (simp add: members_of_def data_members_def str_def)
  ultimately show "pk_getString_copy sd p (str ''data'') = Some (md_data a)"
    using pk_member_holds [OF assms, of "str ''data''"] by (auto simp: pk_getString_copy_def asString_packed str_def)
qed


subsection \<open>Appending to it\<close>

lemma resize_holds:
  assumes ra: "alloc_total ra" and p: "holds p a" and l: "length (packet_image a) \<le> unat (len :: u32)"
  obtains p1 where "pk_resize ra p (unat len) = Some p1" "holds p1 a" "unat len \<le> unat (pk_bufferLen p1)"
    "pk_prevNalSize p1 = pk_prevNalSize p"
proof -
  obtain rest where r: "pk_master p" "pk_data p = Own (packet_image a @ rest)" "unat (pk_bufferLen p) = length (packet_image a @ rest)"
    using p by (auto simp: holds_def)
  show ?thesis
  proof (cases "unat (pk_bufferLen p) < unat len")
    case True
    obtain m where m: "ra (packet_image a @ rest) (unat len) = Some m" "length m = unat len"
      "take (length (packet_image a @ rest)) m = packet_image a @ rest"
      using ra True r(3) unfolding realloc_ok_def alloc_total_def by (metis (no_types, lifting) option.exhaust less_imp_le take_all)
    have "take (length (packet_image a)) m = packet_image a"
      using arg_cong [OF m(3), of "take (length (packet_image a))"] by (simp add: min_def split: if_splits)
    then have e: "packet_image a @ drop (length (packet_image a)) m = m" by (metis append_take_drop_id)
    show ?thesis
    proof (rule that)
      show "pk_resize ra p (unat len) = Some (p\<lparr>pk_data := Own m, pk_bufferLen := len\<rparr>)"
        using True r m(1) by (simp add: pk_resize_def)
      have "\<exists>rest. m = packet_image a @ rest \<and> length m = length (packet_image a @ rest)" using e by metis
      then show "holds (p\<lparr>pk_data := Own m, pk_bufferLen := len\<rparr>) a"
        using p m(2) by (simp add: holds_def)
    qed simp_all
  next
    case False
    then show ?thesis using that [of p] p by (simp add: pk_resize_def not_less)
  qed
qed

text \<open>A longer piece of data behind the old one, with the end of the container.\<close>

definition extend_data :: "media \<Rightarrow> bytes \<Rightarrow> media" where
  "extend_data a d = a\<lparr>md_data := md_data a @ d\<rparr>"

lemma opt_bytes_extend [simp]: "opt_bytes (extend_data a d) = opt_bytes a"
  and len_at_extend [simp]: "len_at (extend_data a d) = len_at a"
  by (simp_all add: extend_data_def opt_bytes_def len_at_def)

lemma frame_extend [simp]: "frame h (extend_data a d) l b = frame h a l b"
  by (rule frame_cong) (simp_all, simp_all add: extend_data_def)

lemma length_image_extend [simp]: "length (packet_image (extend_data a d)) = length (packet_image a) + length d"
  by (simp add: length_image) (simp add: extend_data_def)

lemma image_extend: "packet_image (extend_data a d) =
   frame (of_nat (27 + length (opt_bytes a) + length (md_data a)) + of_nat (length d)) a
     (of_nat (length (md_data a)) + of_nat (length d)) (md_data a @ d @ [0, 0, 0xEE])"
proof -
  have "md_data (extend_data a d) = md_data a @ d" by (simp add: extend_data_def)
  then show ?thesis unfolding image_frame by (simp add: add.assoc)
qed

lemma end_at: "length (packet_image a) - 3 = len_at a + 4 + length (md_data a)"
  by (simp add: length_image len_at_def)

lemma dataLen_holds: "holds p a \<Longrightarrow> unat (pk_dataLen p) = length (packet_image a)"
  by (simp add: holds_def unat_of_nat)

lemma data_end_holds: "holds p a \<Longrightarrow> data_end p = Some (len_at a + 4 + length (md_data a))"
  using dataLen_holds [of p a] end_at [of a] length_image [of a] by (simp add: data_end_def word_less_nat_alt)

lemma dataLen_add:
  "holds p a \<Longrightarrow> length (packet_image a) + unat k < 2 ^ 32 \<Longrightarrow> unat (pk_dataLen p + k) = length (packet_image a) + unat k"
  using dataLen_holds [of p a] by (simp add: unat_word_ariths)

text \<open>Two stores in a row are one.\<close>

lemma pk_store_store:
  "pk_store p i xs \<bind> (\<lambda>p. pk_store p (i + length xs) ys \<bind> f) = pk_store p i (xs @ ys) \<bind> f"
proof (cases "pk_mem p")
  case (Some m)
  show ?thesis
  proof (cases "i + length (xs @ ys) \<le> length m")
    case True
    then have "wrn (take i m @ xs @ drop (i + length xs) m) (i + length xs) ys =
        Some (take i m @ xs @ ys @ drop (i + length xs + length ys) m)"
      by (simp add: wrn_def add.commute add.left_commute)
    then show ?thesis using Some True
      by (cases "pk_data p") (auto simp: pk_store_def pk_mem_def set_mem_def wrn_def [of m] add.assoc)
  next
    case False
    then show ?thesis using Some
      by (cases "pk_data p") (auto simp: pk_store_def pk_mem_def set_mem_def wrn_def)
  qed
qed (simp add: pk_store_def)

lemma pk_store_len:
  "pk_store p i (be_bytes 4 v) \<bind> (\<lambda>p. pk_store p (i + 4) ys \<bind> f) = pk_store p i (be_bytes 4 v @ ys) \<bind> f"
  using pk_store_store [of p i "be_bytes 4 v" ys f] by simp

text \<open>What all appending operations end with, once there is room.\<close>

lemma tail_holds:
  assumes p: "holds p a" and n: "length (packet_image a) + length d \<le> unat (pk_bufferLen p)" and k: "unat k = length d"
  obtains q r where "pk_store p (len_at a + 4 + length (md_data a)) (d @ [0, 0, 0xEE]) = Some q"
    "pk_dataLen q = pk_dataLen p"
    "add_lengths (q\<lparr>pk_dataLen := pk_dataLen p + k\<rparr>) k = Some r" "holds r (extend_data a d)"
    "pk_prevNalSize r = pk_prevNalSize p"
proof -
  let ?h = "of_nat (27 + length (opt_bytes a) + length (md_data a)) :: u32" and ?l = "of_nat (length (md_data a)) :: u32"
  obtain b where b: "pk_data p = Own (packet_image a @ b)" "unat (pk_bufferLen p) = length (packet_image a @ b)"
    using p by (auto simp: holds_def)
  have d: "length d \<le> length b" "length (packet_image a) + length d < 2 ^ 32" "k = of_nat (length d)"
    using b n unsigned_less [of "pk_bufferLen p", where ?'a = nat] by (auto simp flip: k)
  let ?ys = "[0, 0, 0xEE] @ b"
  let ?b = "drop (length d + 3) ?ys"
  have ys: "?ys = take (length d + 3) ?ys @ ?b" by simp
  have "wrn (frame ?h a ?l (md_data a @ ?ys)) (len_at a + 4 + length (md_data a)) (d @ [0, 0, 0xEE]) =
      Some (frame ?h a ?l (md_data a @ (d @ [0, 0, 0xEE]) @ ?b))"
    by (subst ys, rule frame_store) (use d(1) in auto)
  then have st: "pk_store p (len_at a + 4 + length (md_data a)) (d @ [0, 0, 0xEE]) =
      Some (p\<lparr>pk_data := Own (frame ?h a ?l (md_data a @ (d @ [0, 0, 0xEE]) @ ?b))\<rparr>)"
    by (simp add: pk_store_def pk_mem_def set_mem_def b image_frame frame_append)
  let ?r = "p\<lparr>pk_data := Own (packet_image (extend_data a d) @ ?b), pk_dataLen := pk_dataLen p + k\<rparr>"
  show ?thesis
  proof (rule that [OF st])
    show "add_lengths (p\<lparr>pk_data := Own (frame ?h a ?l (md_data a @ (d @ [0, 0, 0xEE]) @ ?b)), pk_dataLen := pk_dataLen p + k\<rparr>) k = Some ?r"
      by (subst add_lengths_frame [where h = ?h and a = a and l = ?l and b = "md_data a @ (d @ [0, 0, 0xEE]) @ ?b"])
        (simp_all add: image_extend frame_append d(3))
    show "holds ?r (extend_data a d)"
      using p b(2) d by (simp add: holds_def)
  qed simp_all
qed

lemma appendData_holds:
  assumes ra: "alloc_total ra" and p: "holds p a" and n: "length (packet_image a) + length d < 2 ^ 32"
  shows "\<exists>p'. appendData ra p (d @ beyond) (of_nat (length d)) = Some p' \<and> holds p' (extend_data a d)"
proof -
  have k: "unat (of_nat (length d) :: u32) = length d" using n by (simp add: unat_of_nat)
  have u: "unat (pk_dataLen p + of_nat (length d)) = length (packet_image a) + length d"
    using dataLen_add [OF p, of "of_nat (length d)"] n by (simp add: k)
  obtain p1 where p1: "pk_resize ra p (unat (pk_dataLen p + of_nat (length d))) = Some p1" "holds p1 a"
    "unat (pk_dataLen p + of_nat (length d)) \<le> unat (pk_bufferLen p1)"
    using resize_holds [OF ra p, of "pk_dataLen p + of_nat (length d)"] u by auto
  obtain q r where q: "pk_store p1 (len_at a + 4 + length (md_data a)) (d @ [0, 0, 0xEE]) = Some q"
    "pk_dataLen q = pk_dataLen p1" "add_lengths (q\<lparr>pk_dataLen := pk_dataLen p1 + of_nat (length d)\<rparr>) (of_nat (length d)) = Some r"
    "holds r (extend_data a d)"
    using tail_holds [OF p1(2) _ k] p1(3) unfolding u by blast
  have "rdn (d @ beyond) 0 (length d) = Some d" by (simp add: rdn_def)
  then have "appendData ra p (d @ beyond) (of_nat (length d)) = Some r"
    using q by (simp add: appendData_def p1(1) data_end_holds [OF p1(2)] k pk_store_store)
  then show ?thesis using q(4) by blast
qed


text \<open>A sequence of network abstraction layer units, each behind its size.\<close>

definition nals_bytes :: "bytes list \<Rightarrow> bytes" where
  "nals_bytes ns = concat (map (\<lambda>n. be_bytes 4 (of_nat (length n) :: u32) @ n) ns)"

lemma appendNal_holds:
  assumes ra: "alloc_total ra" and p: "holds p a" and d: "d \<noteq> []" and n: "length (packet_image a) + length d + 4 < 2 ^ 32"
  shows "\<exists>p'. appendNal ra p (d @ beyond) (of_nat (length d)) = Some p' \<and>
    holds p' (extend_data a (nals_bytes [d])) \<and> pk_prevNalSize p' = of_nat (length d)"
proof -
  let ?k = "of_nat (length d) :: u32"
  let ?d = "be_bytes 4 ?k @ d"
  have k: "unat ?k = length d" using n by (simp add: unat_of_nat)
  then have k4: "unat (?k + 4) = length ?d" using n by (simp add: unat_word_ariths)
  have nz: "?k \<noteq> 0" using k d by (metis length_0_conv unat_0)
  have u: "unat (pk_dataLen p + ?k + 4) = length (packet_image a) + length ?d"
    using dataLen_add [OF p, of "?k + 4"] n by (simp add: k4 add.assoc)
  obtain p1 where p1: "pk_resize ra p (unat (pk_dataLen p + ?k + 4)) = Some p1" "holds p1 a"
    "unat (pk_dataLen p + ?k + 4) \<le> unat (pk_bufferLen p1)"
    using resize_holds [OF ra p, of "pk_dataLen p + ?k + 4"] u by auto
  define e where "e = len_at a + 4 + length (md_data a)"
  have e: "data_end p1 = Some e" using data_end_holds [OF p1(2)] by (simp add: e_def)
  obtain q r where q: "pk_store p1 e (?d @ [0, 0, 0xEE]) = Some q"
    "pk_dataLen q = pk_dataLen p1" "add_lengths (q\<lparr>pk_dataLen := pk_dataLen p1 + (?k + 4)\<rparr>) (?k + 4) = Some r"
    "holds r (extend_data a ?d)"
    using tail_holds [OF p1(2) _ k4] p1(3) unfolding u e_def by blast
  have "rdn (d @ beyond) 0 (length d) = Some d" by (simp add: rdn_def)
  then have "appendNal ra p (d @ beyond) ?k = Some (r\<lparr>pk_prevNalSize := ucast ?k\<rparr>)"
    using q by (simp add: appendNal_def p1(1) e k nz pk_store_store pk_store_len)
  moreover have "holds (r\<lparr>pk_prevNalSize := ucast ?k\<rparr>) (extend_data a (nals_bytes [d]))"
    using q(4) by (simp add: holds_def nals_bytes_def)
  moreover have "(ucast ?k :: u64) = of_nat (length d)"
    using k by (simp add: word_unat_eq_iff unsigned_ucast_eq unat_of_nat take_bit_nat_eq_self)
  ultimately show ?thesis by simp
qed


lemma store_in_data:
  assumes p: "holds p a" and x: "md_data a = xs @ ys @ zs" "length bs = length ys"
  obtains q where "pk_store p (len_at a + 4 + length xs) bs = Some q" "holds q (a\<lparr>md_data := xs @ bs @ zs\<rparr>)"
    "pk_bufferLen q = pk_bufferLen p" "pk_dataLen q = pk_dataLen p" "pk_prevNalSize q = pk_prevNalSize p"
proof -
  let ?h = "of_nat (27 + length (opt_bytes a) + length (md_data a)) :: u32" and ?l = "of_nat (length (md_data a)) :: u32"
  let ?a = "a\<lparr>md_data := xs @ bs @ zs\<rparr>"
  have o: "opt_bytes ?a = opt_bytes a" by (simp add: opt_bytes_def)
  have f: "frame h ?a l b = frame h a l b" for h l b by (rule frame_cong [OF o]) simp_all
  have L: "length (packet_image ?a) = length (packet_image a)" using x by (simp add: length_image o)
  obtain b where b: "pk_data p = Own (packet_image a @ b)" "unat (pk_bufferLen p) = length (packet_image a @ b)"
    using p by (auto simp: holds_def)
  have ia: "packet_image a @ b = frame ?h a ?l (xs @ ys @ zs @ [0, 0, 0xEE] @ b)"
    by (simp add: image_frame frame_append) (simp add: x)
  have ib: "packet_image ?a @ b = frame ?h a ?l (xs @ bs @ zs @ [0, 0, 0xEE] @ b)"
    unfolding image_frame o f frame_append using x by simp
  have st: "pk_store p (len_at a + 4 + length xs) bs = Some (p\<lparr>pk_data := Own (packet_image ?a @ b)\<rparr>)"
    using frame_store [of ys bs _ a xs ?h ?l "zs @ [0, 0, 0xEE] @ b", OF _ refl] x(2)
    by (simp add: pk_store_def pk_mem_def b(1) ia ib set_mem_def del: append_assoc)
  show ?thesis
    by (rule that [OF st]) (use p b(2) L in \<open>simp_all add: holds_def\<close>)
qed

lemma ucast_of_nat_u64: "n < 2 ^ 32 \<Longrightarrow> (ucast (of_nat n :: u32) :: u64) = of_nat n"
  by (simp add: word_unat_eq_iff unsigned_ucast_eq unat_of_nat take_bit_nat_eq_self)

lemma ucast_of_nat_u32: "(ucast (of_nat n :: u64) :: u32) = of_nat n"
  by (rule bit_word_eqI) (simp add: bit_simps)

lemma upgradeNal_holds:
  assumes ra: "alloc_total ra" and p: "holds p a" and a: "md_data a = xs @ nals_bytes [x]"
    and prev: "pk_prevNalSize p = of_nat (length x)"
    and d: "d \<noteq> []" and n: "length (packet_image a) + length d < 2 ^ 32"
  shows "\<exists>p'. upgradeNal ra p (d @ beyond) (of_nat (length d)) = Some p' \<and>
    holds p' (a\<lparr>md_data := xs @ nals_bytes [x @ d]\<rparr>) \<and> pk_prevNalSize p' = of_nat (length (x @ d))"
proof -
  let ?k = "of_nat (length d) :: u32" and ?x = "of_nat (length x) :: u32"
  define s where "s = len_at a + 4 + length xs"
  have L: "length (packet_image a) = s + 7 + length x" by (simp add: length_image len_at_def s_def a nals_bytes_def)
  have k: "unat ?k = length d" using n by (simp add: unat_of_nat)
  have nz: "?k \<noteq> 0" using k d by (metis length_0_conv unat_0)
  have u: "unat (pk_dataLen p + ?k) = length (packet_image a) + length d"
    using dataLen_add [OF p, of ?k] n by (simp add: k)
  have dl: "pk_dataLen p - 7 = of_nat (s + length x)" using p by (simp add: holds_def L)
  have so: "ucast (pk_dataLen p - 7) - pk_prevNalSize p = (of_nat s :: u64)"
    unfolding dl prev using n L by (subst ucast_of_nat_u64) simp_all
  have us: "unat (of_nat s :: u64) = s" using n L by (simp add: unat_of_nat)
  obtain b where b: "pk_mem p = Some (packet_image a @ b)" using p by (auto simp: holds_def pk_mem_def)
  have "btohl (packet_image a @ b) s = Some ?x"
    using btohl_be [of "frame (of_nat (27 + length (opt_bytes a) + length (md_data a))) a (of_nat (length (md_data a))) xs" s ?x
        "x @ [0, 0, 0xEE] @ b"]
    by (simp add: image_frame frame_append s_def a nals_bytes_def)
  moreover obtain p1 where p1: "pk_resize ra p (unat (pk_dataLen p + ?k)) = Some p1" "holds p1 a"
    "unat (pk_dataLen p + ?k) \<le> unat (pk_bufferLen p1)" "pk_prevNalSize p1 = pk_prevNalSize p"
    using resize_holds [OF ra p, of "pk_dataLen p + ?k"] u by auto
  let ?a = "a\<lparr>md_data := xs @ be_bytes 4 (?x + ?k) @ x\<rparr>"
  obtain p2 where p2: "pk_store p1 s (be_bytes 4 (?x + ?k)) = Some p2" "holds p2 ?a" "pk_bufferLen p2 = pk_bufferLen p1"
    "pk_dataLen p2 = pk_dataLen p1" "pk_prevNalSize p2 = pk_prevNalSize p1"
    using store_in_data [OF p1(2), of xs "be_bytes 4 ?x" x "be_bytes 4 (?x + ?k)"] a unfolding s_def
    by (auto simp: nals_bytes_def)
  let ?p = "p2\<lparr>pk_prevNalSize := pk_prevNalSize p + of_nat (length d)\<rparr>"
  have p3: "holds ?p ?a" using p2(2) by (simp add: holds_def)
  define e where "e = len_at ?a + 4 + length (md_data ?a)"
  have "length (packet_image ?a) = length (packet_image a)" by (simp add: length_image opt_bytes_def a nals_bytes_def)
  then obtain q r where q: "pk_store ?p e (d @ [0, 0, 0xEE]) = Some q" "pk_dataLen q = pk_dataLen ?p"
    "add_lengths (q\<lparr>pk_dataLen := pk_dataLen ?p + ?k\<rparr>) ?k = Some r"
    "holds r (extend_data ?a d)" "pk_prevNalSize r = pk_prevNalSize ?p"
    using tail_holds [OF p3 _ k] p1(3) p2(3) unfolding u e_def by auto
  have "rdn (d @ beyond) 0 (length d) = Some d" by (simp add: rdn_def)
  moreover have w: "(ucast ?k :: u64) = of_nat (length d)" "(ucast ?x :: u64) = of_nat (length x)"
    by (rule ucast_of_nat_u64; use n L in simp)+
  moreover have "(ucast (pk_prevNalSize p + ucast ?k) :: u32) = ?x + ?k"
    unfolding w prev of_nat_add [symmetric] by (rule ucast_of_nat_u32)
  ultimately have "upgradeNal ra p (d @ beyond) ?k = Some r"
    using q p1(1,4) p2(1,5) data_end_holds [OF p3, folded e_def] so
    by (simp add: upgradeNal_def nz us b k prev pk_store_store Let_def)
  moreover have "extend_data ?a d = a\<lparr>md_data := xs @ nals_bytes [x @ d]\<rparr>"
    by (simp add: extend_data_def nals_bytes_def)
  ultimately show ?thesis using q(4,5) prev by simp
qed


section \<open>Properties\<close>

text \<open>C7: what \<open>genericFill\<close> writes is read back by the accessors of the packet: time, track, offset, byte
  position, key frame flag and data, with the members that have their default value left out of the
  bytes.\<close>

theorem genericFill_reads:
  assumes "alloc_total ra" "\<not> (pk_master p \<and> (\<exists>m. pk_data p = Ref m))" "d \<noteq> []" "length d + 86 < 2 ^ 32"
  shows "\<exists>p'. genericFill ra p tim packOffset trk (Some (d @ beyond)) (length d) bytePos kf = Some p' \<and>
    getTime p' = Some tim \<and> getTrackId p' = Some (ucast trk) \<and>
    pk_getInt p' (str ''offset'') = Some packOffset \<and> pk_getInt p' (str ''bpos'') = Some bytePos \<and>
    pk_getFlag p' (str ''keyframe'') = Some kf \<and> pk_getString_copy sd p' (str ''data'') = Some d"
proof -
  define a where a: "a = \<lparr>md_track = trk, md_time = tim, md_offset = packOffset, md_bpos = bytePos, md_key = kf, md_data = d\<rparr>"
  have L: "length (packet_image a) < 2 ^ 32"
    using assms(4) by (simp add: length_image length_opt_bytes opt_len_def a)
  from genericFill_image [OF assms(1,2) a assms(3) L] obtain p' where
    f: "genericFill ra p tim packOffset trk (Some (d @ beyond)) (length d) bytePos kf = Some p'" and h: "holds p' a"
    using L by (auto simp: holds_def unat_of_nat)
  show ?thesis using f holds_reads [OF h] by (auto simp: a)
qed

theorem genericFill_reads_witness:
  "\<exists>p'. genericFill realloc_zero Packet 5 0 3 (Some [1, 2]) 2 9 True = Some p' \<and>
    getTime p' = Some 5 \<and> getTrackId p' = Some 3 \<and>
    pk_getInt p' (str ''offset'') = Some 0 \<and> pk_getInt p' (str ''bpos'') = Some 9 \<and>
    pk_getFlag p' (str ''keyframe'') = Some True \<and> pk_getString_copy (\<lambda>d. []) p' (str ''data'') = Some [1, 2]"
proof -
  have "\<not> (pk_master Packet \<and> (\<exists>m. pk_data Packet = Ref m))" by (simp add: Packet_def)
  moreover have "length ([1, 2] :: bytes) = 2" by simp
  ultimately show ?thesis
    using genericFill_reads [OF alloc_total_zero, of Packet "[1, 2]" 5 0 3 "[]" 9 True "\<lambda>d. []"]
    by (simp only: append_Nil2) simp
qed

text \<open>Operations on a packet with units, and what they mean for the sequence of units.\<close>

datatype nal_op = Add_nal bytes | Grow_nal bytes

fun nal_step :: "allocator \<Rightarrow> nal_op \<Rightarrow> packet \<Rightarrow> packet option" where
  "nal_step ra (Add_nal d) p = appendNal ra p d (of_nat (length d))"
| "nal_step ra (Grow_nal d) p = upgradeNal ra p d (of_nat (length d))"

fun nal_spec :: "bytes list \<Rightarrow> nal_op \<Rightarrow> bytes list" where
  "nal_spec ns (Add_nal d) = (if d = [] then ns else ns @ [d])"
| "nal_spec ns (Grow_nal d) = butlast ns @ [last ns @ d]"

fun nal_run :: "allocator \<Rightarrow> nal_op list \<Rightarrow> packet \<Rightarrow> packet option" where
  "nal_run ra [] p = Some p"
| "nal_run ra (op # ops) p = do { p \<leftarrow> nal_step ra op p; nal_run ra ops p }"

fun op_len :: "nal_op \<Rightarrow> nat" where
  "op_len (Add_nal d) = length d + 4"
| "op_len (Grow_nal d) = length d"

definition holds_nals :: "packet \<Rightarrow> media \<Rightarrow> bytes list \<Rightarrow> bool" where
  "holds_nals p a ns \<longleftrightarrow> ns \<noteq> [] \<and> md_data a = nals_bytes ns \<and> holds p a \<and> pk_prevNalSize p = of_nat (length (last ns))"

lemma nals_bytes_append: "nals_bytes (ns @ ms) = nals_bytes ns @ nals_bytes ms"
  by (simp add: nals_bytes_def)

lemma image_len_cong: "md_offset a' = md_offset a \<Longrightarrow> md_bpos a' = md_bpos a \<Longrightarrow> md_key a' = md_key a \<Longrightarrow>
   length (packet_image a') + length (md_data a) = length (packet_image a) + length (md_data a')"
  by (simp add: length_image length_opt_bytes)

lemma nal_step_holds:
  assumes ra: "alloc_total ra" and p: "holds_nals p a ns" and n: "length (packet_image a) + op_len op < 2 ^ 32"
  shows "\<exists>p' a'. nal_step ra op p = Some p' \<and> holds_nals p' a' (nal_spec ns op) \<and>
    length (packet_image a') \<le> length (packet_image a) + op_len op"
proof (cases op)
  case (Add_nal d)
  show ?thesis
  proof (cases "d = []")
    case True
    then show ?thesis using p Add_nal by (auto simp: appendNal_def)
  next
    case False
    have "length (packet_image (extend_data a (nals_bytes [d]))) = length (packet_image a) + op_len op"
      by (simp add: Add_nal nals_bytes_def)
    moreover have "md_data (extend_data a (nals_bytes [d])) = nals_bytes (ns @ [d])"
      using p by (simp add: holds_nals_def extend_data_def nals_bytes_append)
    ultimately show ?thesis
      using appendNal_holds [OF ra _ False, of p a "[]"] p n Add_nal False
      by (auto simp: holds_nals_def intro!: exI [of _ "extend_data a (nals_bytes [d])"])
  qed
next
  case (Grow_nal d)
  show ?thesis
  proof (cases "d = []")
    case True
    then show ?thesis using p Grow_nal by (auto simp: upgradeNal_def holds_nals_def)
  next
    case False
    let ?a = "a\<lparr>md_data := nals_bytes (butlast ns) @ nals_bytes [last ns @ d]\<rparr>"
    have e: "ns = butlast ns @ [last ns]" and q: "holds p a" "pk_prevNalSize p = of_nat (length (last ns))" and md: "md_data a = nals_bytes ns"
      using p by (simp_all add: holds_nals_def)
    have x: "md_data a = nals_bytes (butlast ns) @ nals_bytes [last ns]"
      unfolding md nals_bytes_append [symmetric] e [symmetric] by (rule refl)
    have "length (packet_image ?a) = length (packet_image a) + op_len op"
      using image_len_cong [of ?a a] by (simp add: x Grow_nal) (simp add: nals_bytes_def)
    moreover have "md_data ?a = nals_bytes (butlast ns @ [last ns @ d])"
      by (simp add: nals_bytes_append)
    ultimately show ?thesis
      using upgradeNal_holds [OF ra q(1) x q(2) False, of "[]"] n Grow_nal
      by (auto simp: holds_nals_def intro!: exI [of _ ?a])
  qed
qed

lemma nal_run_holds:
  "alloc_total ra \<Longrightarrow> holds_nals p a ns \<Longrightarrow> length (packet_image a) + sum_list (map op_len ops) < 2 ^ 32 \<Longrightarrow>
   \<exists>p' a'. nal_run ra ops p = Some p' \<and> holds_nals p' a' (foldl nal_spec ns ops)"
proof (induction ops arbitrary: p a ns)
  case (Cons op ops)
  obtain p1 a1 where "nal_step ra op p = Some p1" "holds_nals p1 a1 (nal_spec ns op)"
    "length (packet_image a1) \<le> length (packet_image a) + op_len op"
    using nal_step_holds [OF Cons.prems(1,2), of op] Cons.prems(3) by auto
  then show ?case using Cons.IH [OF Cons.prems(1), of p1 a1 "nal_spec ns op"] Cons.prems(3) by auto
qed auto

text \<open>C9: \<open>appendNal\<close> and \<open>upgradeNal\<close> implement a list of units: after any sequence of the two on a packet
  with units, its data are the units of the list, each behind its size.\<close>

theorem nal_ops_refine:
  assumes "alloc_total ra" "holds_nals p a ns" "length (packet_image a) + sum_list (map op_len ops) < 2 ^ 32"
  shows "\<exists>p'. nal_run ra ops p = Some p' \<and>
    pk_getString_copy sd p' (str ''data'') = Some (nals_bytes (foldl nal_spec ns ops))"
proof -
  obtain p' a' where p': "nal_run ra ops p = Some p'" "holds_nals p' a' (foldl nal_spec ns ops)"
    using nal_run_holds [OF assms] by blast
  then have "holds p' a'" "md_data a' = nals_bytes (foldl nal_spec ns ops)" by (simp_all add: holds_nals_def)
  then show ?thesis using p'(1) holds_reads(6) by fastforce
qed

theorem nal_ops_refine_witness:
  "\<exists>p p'. genericFill realloc_zero (Packet\<lparr>pk_prevNalSize := 1\<rparr>) 5 0 3 (Some [0, 0, 0, 1, 9]) 5 0 False = Some p \<and>
     nal_run realloc_zero [Grow_nal [8], Add_nal [7]] p = Some p' \<and>
     pk_getString_copy (\<lambda>d. []) p' (str ''data'') = Some (nals_bytes [[9, 8], [7]])"
proof -
  let ?d = "[0, 0, 0, 1, 9] :: bytes" and ?p = "Packet\<lparr>pk_prevNalSize := 1\<rparr>"
  define a where a: "a = \<lparr>md_track = 3, md_time = 5, md_offset = 0, md_bpos = 0, md_key = False, md_data = ?d\<rparr>"
  have L: "length (packet_image a) = 40" by (simp add: length_image length_opt_bytes opt_len_def a)
  have "\<not> (pk_master ?p \<and> (\<exists>m. pk_data ?p = Ref m))" by (simp add: Packet_def)
  moreover have "length ?d = 5" by simp
  moreover have "?d \<noteq> []" "length (packet_image a) < 2 ^ 32" using L by simp_all
  ultimately have f: "genericFill realloc_zero ?p 5 0 3 (Some ?d) 5 0 False =
      Some (?p\<lparr>pk_master := True, pk_data := Own (packet_image a), pk_bufferLen := 40, pk_dataLen := 40, pk_version := DTSC_V2\<rparr>)"
    using genericFill_image [OF alloc_total_zero _ a, of ?p "[]"] L by (simp only: append_Nil2) simp
  then obtain p where p: "genericFill realloc_zero ?p 5 0 3 (Some ?d) 5 0 False = Some p" "holds p a" "pk_prevNalSize p = 1"
    using L by (simp add: holds_def)
  have "nals_bytes [[9]] = ?d" by code_simp
  then have "holds_nals p a [[9]]" using p(2,3) by (simp add: holds_nals_def a)
  from nal_ops_refine [OF alloc_total_zero this, of "[Grow_nal [8], Add_nal [7]]" "\<lambda>d. []"] p(1)
  show ?thesis by (auto simp: L)
qed

text \<open>A packet that refers to somebody else's memory cannot be made to hold a copy: \<open>reInit\<close> drops the
  borrowed pointer only when it is going to borrow again, so \<open>resize\<close> hands it to \<open>realloc\<close>.\<close>

theorem reInit_reallocs_borrowed:
  assumes "pk_data p = Ref b" "pk_bufferLen p < len" "take 4 d = str ''DTP2''"
  shows "reInit ra p (Some d) len False = None"
proof -
  obtain r where d: "d = 0x44 # 0x54 # 0x50 # 0x32 # r"
    using append_take_drop_id [of 4 d] unfolding assms(3) by (simp add: str_def) metis
  have "zero_in_magic d = Some False" "len \<noteq> 0"
    using assms(2) by (auto simp: zero_in_magic_def d)
  then show ?thesis using assms(1,2)
    by (simp add: reInit_def d pk_resize_def word_less_nat_alt)
qed

theorem reInit_reallocs_borrowed_witness:
  "\<exists>p. reInit realloc_zero Packet (Some (str ''DTP2ABCDEFGHIJKLMNOP'')) 20 True = Some p \<and>
     reInit realloc_zero p (Some (str ''DTP2ABCDEFGHIJKLMNOP'')) 20 False = None"
proof -
  let ?d = "str ''DTP2ABCDEFGHIJKLMNOP''"
  let ?p = "Packet\<lparr>pk_data := Ref ?d, pk_dataLen := 20, pk_version := DTSC_V2\<rparr>"
  have "reInit realloc_zero Packet (Some ?d) 20 True = Some ?p" by code_simp
  moreover have "reInit realloc_zero ?p (Some ?d) 20 False = None"
    by (rule reInit_reallocs_borrowed [of _ ?d]) (simp_all add: Packet_def str_def)
  ultimately show ?thesis by blast
qed

lemma key_offset_stuck:
  assumes "rd m (unat i) = Some c" "c \<notin> {0x64, 0x6B, 0x4B, 0x6F, 0x62}"
  shows "key_offset m i = None"
proof -
  have "j = i \<longrightarrow> n = m \<longrightarrow> False" if "key_offset n j = Some y" for n j y
  proof (rule key_offset.raw_induct [OF _ that], goal_cases)
    case (1 f n j y)
    then show ?case using assms by (auto split: option.splits if_splits)
  qed
  then show ?thesis by (cases "key_offset m i") auto
qed

text \<open>C38: \<open>setKeyFrame\<close> never returns on a packet whose first member is none of the five names that
  \<open>genericFill\<close> writes: the loop moves on for \<open>offset\<close> and \<open>bpos\<close> only.\<close>

theorem setKeyFrame_never_returns:
  assumes "pk_mem p = Some m" "rd m 23 = Some c" "c \<notin> {0x64, 0x6B, 0x4B, 0x6F, 0x62}"
  shows "setKeyFrame p kf = None"
  using key_offset_stuck [of m 23 c] assms by (simp add: setKeyFrame_def)

theorem setKeyFrame_never_returns_witness:
  "setKeyFrame (Packet\<lparr>pk_data := Own (replicate 21 0 @ [0, 4] @ str ''time'')\<rparr>) True = None"
  using setKeyFrame_never_returns [of "Packet\<lparr>pk_data := Own (replicate 21 0 @ [0, 4] @ str ''time'')\<rparr>"
      "replicate 21 0 @ [0, 4] @ str ''time''" "0x74" True]
  by (simp add: pk_mem_def Packet_def rd_append_right str_def)

text \<open>\<open>null\<close> keeps the size of the last unit, so a packet that is filled again starts with the old one: here
  \<open>upgradeNal\<close> adds a byte to the data and counts it twice.\<close>

lemma stale_unit_size:
  "do { p \<leftarrow> genericFill realloc_zero (Packet\<lparr>pk_prevNalSize := 1\<rparr>) 0 0 1 (Some [7]) 1 0 False;
        p \<leftarrow> upgradeNal realloc_zero p [8] 1; getDataStringLen p } = Some 3"
  by code_simp

end
