(* ===== verification/Http.thy ===== *)
theory Http
  imports ByteBuffer Encode Strings Url Json Auth
begin

text \<open>
  HTTP (\<open>lib/http_parser.cpp\<close>, \<open>lib/http_parser.h\<close>): the class \<open>HTTP::Parser\<close>, which reads requests and
  responses from a string or from the buffer of a connection and writes them, and the encoding of
  variables. \<open>None\<close> is undefined behaviour or an exception. A header or variable map is a list sorted
  by key, as \<open>std::map\<close> is. A callback that takes the body is represented by whether it is set
  (\<open>has_cb\<close>) and what it was given (\<open>given\<close>).
\<close>

section \<open>Maps of strings\<close>

type_synonym smap = "(bytes \<times> bytes) list"

fun mput :: "bytes \<Rightarrow> bytes \<Rightarrow> smap \<Rightarrow> smap" where
  "mput k v [] = [(k, v)]"
| "mput k v ((k', v') # m) =
     (if k = k' then (k, v) # m else if k < k' then (k, v) # (k', v') # m else (k', v') # mput k v m)"

definition merase :: "bytes \<Rightarrow> smap \<Rightarrow> smap" where
  "merase k m = filter (\<lambda>(k', v). k' \<noteq> k) m"

definition tolower :: "byte \<Rightarrow> byte" where
  "tolower c = (if 0x41 \<le> c \<and> c \<le> 0x5A then c + 32 else c)"

text \<open>\<open>strncasecmp(a, b, n) == 0\<close> for strings of length \<open>n\<close>, and \<open>strcasecmp(a, b) == 0\<close>.\<close>

fun strncasecmp_eq :: "bytes \<Rightarrow> bytes \<Rightarrow> bool" where
  "strncasecmp_eq (a # as) (b # bs) \<longleftrightarrow> tolower a = tolower b \<and> (a = 0 \<or> strncasecmp_eq as bs)"
| "strncasecmp_eq as bs \<longleftrightarrow> True"

definition strcasecmp_eq :: "bytes \<Rightarrow> bytes \<Rightarrow> bool" where
  "strcasecmp_eq a b \<longleftrightarrow> map tolower (takeWhile (\<lambda>c. c \<noteq> 0) a) = map tolower (takeWhile (\<lambda>c. c \<noteq> 0) b)"

section \<open>Variables\<close>

function parseVars_loop :: "bytes \<Rightarrow> bytes \<Rightarrow> bool \<Rightarrow> nat \<Rightarrow> smap \<Rightarrow> smap" where
  "parseVars_loop data separator queryStr pos storage =
     (if separator \<noteq> [] \<and> pos < length data then
        let nextpos = (case sfind data separator pos of Some n \<Rightarrow> n | None \<Rightarrow> length data);
            (varname, varval) =
              (case find_chr data 0x3D pos of
                 Some eq_pos \<Rightarrow>
                   if eq_pos < nextpos
                   then (take (eq_pos - pos) (drop pos data), take (nextpos - eq_pos - 1) (drop (eq_pos + 1) data))
                   else (take (nextpos - pos) (drop pos data), [])
               | None \<Rightarrow> (take (nextpos - pos) (drop pos data), []));
            storage = (if varname \<noteq> [] then mput (URL_decode varname queryStr) (URL_decode varval queryStr) storage
                       else storage)
        in parseVars_loop data separator queryStr (nextpos + length separator) storage
      else storage)"
  by pat_completeness auto
termination
proof (relation "measure (\<lambda>(data, separator, queryStr, pos, storage). length data - pos)", goal_cases)
  case (2 data separator queryStr pos storage nextpos)
  then have "pos \<le> nextpos" using sfind_Some [of data separator pos] by (auto split: option.splits)
  moreover obtain c cs where "separator = c # cs" using 2(1) by (cases separator) auto
  ultimately show ?case using 2(1) by auto
qed simp

declare parseVars_loop.simps [simp del]

text \<open>An empty separator is found everywhere, and the loop does not end.\<close>

definition parseVars :: "bytes \<Rightarrow> smap \<Rightarrow> bytes \<Rightarrow> bool \<Rightarrow> smap option" where
  "parseVars data storage separator queryStr =
     (if separator = [] \<and> data \<noteq> [] then None else Some (parseVars_loop data separator queryStr 0 storage))"

definition argStr_step :: "bool \<Rightarrow> bytes \<Rightarrow> bytes \<times> bytes \<Rightarrow> bytes" where
  "argStr_step withQuestionMark ret it =
     (if fst it = [] then ret
      else ret @ (if length ret > 1 then str ''&'' else if withQuestionMark then str ''?'' else []) @
           URL_encode (fst it) [] False @ str ''='' @ URL_encode (snd it) [] False)"

definition argStr :: "smap \<Rightarrow> bool \<Rightarrow> bytes" where
  "argStr vars withQuestionMark = foldl (argStr_step withQuestionMark) [] vars"

section \<open>The parser's state\<close>

record parser =
  body :: bytes
  hmethod :: bytes
  url :: bytes
  urlEncoded :: bool
  proto :: bytes
  plength :: u64
  knownLength :: bool
  currentLength :: u64
  headerOnly :: bool
  bufferChunks :: bool
  sendingChunks :: bool
  has_cb :: bool
  given :: "bytes list"
  cnonce :: bytes
  seenHeaders :: bool
  seenReq :: bool
  getChunks :: bool
  possiblyComplete :: bool
  responseKeepAlive :: bool
  responseBodyAllowed :: bool
  responseContentLengthAllowed :: bool
  doingChunk :: u32
  headers :: smap
  vars :: smap

definition CleanPreserveHeaders :: "parser \<Rightarrow> parser" where
  "CleanPreserveHeaders p = p\<lparr>
     seenHeaders := False, seenReq := False, possiblyComplete := False, responseKeepAlive := False,
     responseBodyAllowed := True, responseContentLengthAllowed := True, getChunks := False,
     sendingChunks := False, doingChunk := 0, bufferChunks := False, hmethod := str ''GET'', url := str ''/'',
     urlEncoded := False, proto := str ''HTTP/1.1'', body := [], plength := 0, knownLength := False, vars := []\<rparr>"

definition Clean :: "parser \<Rightarrow> parser" where
  "Clean p = (CleanPreserveHeaders p)\<lparr>headers := []\<rparr>"

text \<open>The constructor leaves \<open>currentLength\<close> uninitialised (\<open>junk\<close>); the nonce is the clock in hexadecimal.\<close>

definition Parser :: "bytes \<Rightarrow> u64 \<Rightarrow> parser" where
  "Parser nonce junk = Clean \<lparr>body = [], hmethod = [], url = [], urlEncoded = False, proto = [],
     plength = 0, knownLength = False, currentLength = junk, headerOnly = False, bufferChunks = False,
     sendingChunks = False, has_cb = False, given = [], cnonce = nonce, seenHeaders = False, seenReq = False,
     getChunks = False, possiblyComplete = False, responseKeepAlive = False, responseBodyAllowed = False,
     responseContentLengthAllowed = False, doingChunk = 0, headers = [], vars = []\<rparr>"

section \<open>Headers\<close>

definition is_blank :: "byte \<Rightarrow> bool" where
  "is_blank c \<longleftrightarrow> c = 0x20 \<or> c = 0x09"

definition Trim :: "bytes \<Rightarrow> bytes" where
  "Trim s = rev (dropWhile is_blank (rev (dropWhile is_blank s)))"

definition SetHeader :: "bytes \<Rightarrow> bytes \<Rightarrow> parser \<Rightarrow> parser" where
  "SetHeader i v p = p\<lparr>headers := mput (Trim i) (Trim v) (headers p)\<rparr>"

definition SetHeader_int :: "bytes \<Rightarrow> nat \<Rightarrow> parser \<Rightarrow> parser" where
  "SetHeader_int i v p = p\<lparr>headers := mput (Trim i) (to_dec v) (headers p)\<rparr>"

definition clearHeader :: "bytes \<Rightarrow> parser \<Rightarrow> parser" where
  "clearHeader i p = p\<lparr>headers := merase i (headers p)\<rparr>"

definition same_name_nocase :: "bytes \<Rightarrow> bytes \<times> bytes \<Rightarrow> bool" where
  "same_name_nocase i h \<longleftrightarrow> length (fst h) = length i \<and> strncasecmp_eq (fst h) i"

definition find_header :: "smap \<Rightarrow> bytes \<Rightarrow> bytes option" where
  "find_header m i =
     (case map_of m i of Some v \<Rightarrow> Some v | None \<Rightarrow> map_option snd (find (same_name_nocase i) m))"

definition GetHeader :: "parser \<Rightarrow> bytes \<Rightarrow> bytes" where
  "GetHeader p i = (case find_header (headers p) i of Some v \<Rightarrow> v | None \<Rightarrow> [])"

definition hasHeader :: "parser \<Rightarrow> bytes \<Rightarrow> bool" where
  "hasHeader p i \<longleftrightarrow> find_header (headers p) i \<noteq> None"

definition getBearerToken :: "parser \<Rightarrow> bytes" where
  "getBearerToken p =
     (let auth = GetHeader p (str ''Authorization'')
      in if length auth \<le> 7 \<or> take 7 auth \<noteq> str ''Bearer '' then [] else drop 7 auth)"

definition SetVar :: "bytes \<Rightarrow> bytes \<Rightarrow> parser \<Rightarrow> parser" where
  "SetVar i v p = (if Trim i \<noteq> [] then p\<lparr>vars := mput (Trim i) (Trim v) (vars p)\<rparr> else p)"

definition GetVar :: "parser \<Rightarrow> bytes \<Rightarrow> bytes" where
  "GetVar p i = (case map_of (vars p) i of Some v \<Rightarrow> v | None \<Rightarrow> [])"

definition allVars :: "parser \<Rightarrow> bytes" where
  "allVars p = argStr (vars p) True"

definition SetBody :: "bytes \<Rightarrow> parser \<Rightarrow> parser" where
  "SetBody s p = SetHeader_int (str ''Content-Length'') (length s) (p\<lparr>body := s\<rparr>)"

definition getUrl :: "parser \<Rightarrow> bytes" where
  "getUrl p = (case find_chr (url p) 0x3F 0 of Some q \<Rightarrow> take q (url p) | None \<Rightarrow> url p)"

definition setCORSHeaders :: "parser \<Rightarrow> parser" where
  "setCORSHeaders p = foldl (\<lambda>p (i, v). SetHeader (str i) (str v) p) p [
     (''Access-Control-Allow-Origin'', ''*''),
     (''Access-Control-Allow-Credentials'', ''true''),
     (''Access-Control-Expose-Headers'', ''*''),
     (''Access-Control-Max-Age'', ''600''),
     (''Access-Control-Allow-Methods'', ''GET, POST, OPTIONS, HEAD''),
     (''Access-Control-Allow-Headers'', ''*''),
     (''Access-Control-Request-Method'', ''GET''),
     (''Access-Control-Request-Headers'', ''*''),
     (''Cache-Control'', ''no-cache, no-store, must-revalidate''),
     (''Pragma'', ''no-cache''),
     (''Expires'', ''0'')]"

section \<open>Reading\<close>

text \<open>The next line, cut at its first carriage return (\<open>erase\<close> with one argument erases to the end), and
  what follows it.\<close>

definition cut_cr :: "bytes \<Rightarrow> bytes" where
  "cut_cr s = (case find_chr s 0x0D 0 of Some f \<Rightarrow> take f s | None \<Rightarrow> s)"

definition next_line :: "bytes \<Rightarrow> (bytes \<times> bytes) option" where
  "next_line buf = (case find_chr buf 0x0A 0 of Some f \<Rightarrow> Some (cut_cr (take f buf), drop (f + 1) buf) | None \<Rightarrow> None)"

definition set_url :: "bytes \<Rightarrow> parser \<Rightarrow> parser option" where
  "set_url u p =
     (case find_chr u 0x3F 0 of
        Some q \<Rightarrow> do { v \<leftarrow> parseVars (drop (q + 1) u) (vars p) (str ''&'') True;
                        Some (p\<lparr>vars := v, url := URL_decode (take q u) False\<rparr>) }
      | None \<Rightarrow> Some (p\<lparr>url := URL_decode u False\<rparr>))"

definition parse_start :: "bytes \<Rightarrow> parser \<Rightarrow> parser option" where
  "parse_start l p =
     (let p = p\<lparr>seenReq := True\<rparr> in
      case find_chr l 0x20 0 of
        None \<Rightarrow> Some (p\<lparr>seenReq := False\<rparr>)
      | Some f \<Rightarrow>
          let a = take f l; l' = drop (f + 1) l; http = (take 4 l = str ''HTTP'');
              p = (if http then p\<lparr>proto := a\<rparr> else p\<lparr>hmethod := a\<rparr>)
          in case find_chr l' 0x20 0 of
               None \<Rightarrow> Some (p\<lparr>seenReq := False\<rparr>)
             | Some f \<Rightarrow>
                 let c = drop (f + 1) l'
                 in set_url (take f l') (if http then p\<lparr>hmethod := c\<rparr> else p\<lparr>proto := c\<rparr>))"

text \<open>The empty line after the headers. \<open>reserve\<close> throws when the length cannot be that of a string.\<close>

definition max_size :: nat where
  "max_size = 2 ^ 63 - 1"

definition end_headers :: "parser \<Rightarrow> parser option" where
  "end_headers p = do {
     let p = p\<lparr>seenHeaders := True, currentLength := 0, body := [], knownLength := False, plength := 0\<rparr>;
     p \<leftarrow> (if GetHeader p (str ''Content-Length'') \<noteq> [] then do {
             n \<leftarrow> atoi (GetHeader p (str ''Content-Length''));
             let p = p\<lparr>plength := of_int n\<rparr>;
             if \<not> has_cb p \<and> max_size < unat (plength p) then None
             else Some (p\<lparr>knownLength := True\<rparr>) }
           else Some p);
     Some (if GetHeader p (str ''Transfer-Encoding'') = str ''chunked'' then p\<lparr>getChunks := True, doingChunk := 0\<rparr> else p) }"

definition parse_header :: "bytes \<Rightarrow> parser \<Rightarrow> parser" where
  "parse_header l p =
     (case find_chr l 0x3A 0 of
        None \<Rightarrow> p
      | Some f \<Rightarrow> SetHeader (take f l) (drop (f + 1) l) p)"

definition parse_line :: "bytes \<Rightarrow> parser \<Rightarrow> parser option" where
  "parse_line l p =
     (if \<not> seenReq p then parse_start l p
      else if l = [] then end_headers p
      else Some (parse_header l p))"

definition take_body :: "bytes \<Rightarrow> parser \<Rightarrow> parser" where
  "take_body d p = (if has_cb p then p\<lparr>given := given p @ [d]\<rparr> else p\<lparr>body := body p @ d\<rparr>)"

definition bodyless_code :: "bytes \<Rightarrow> bool option" where
  "bodyless_code u =
     (if u \<noteq> [] \<and> 0x30 \<le> u ! 0 \<and> u ! 0 \<le> 0x39
      then do { n \<leftarrow> atoi u; Some (100 \<le> n \<and> n < 200 \<or> n = 204 \<or> n = 304) }
      else Some False)"

definition known_body :: "parser \<Rightarrow> bytes \<Rightarrow> (bool option \<times> parser \<times> bytes) option" where
  "known_body p buf = do {
     let n = min (unat (ucast (plength p - currentLength p) :: u32)) (length buf);
     let (p, buf) = (if 0 < n then ((take_body (take n buf) p)\<lparr>currentLength := currentLength p + of_nat n\<rparr>, drop n buf)
                     else (p, buf));
     if plength p = currentLength p then
       if hmethod p = str ''POST'' \<and> GetHeader p (str ''Content-Type'') = str ''application/x-www-form-urlencoded''
       then do { v \<leftarrow> parseVars (body p) (vars p) (str ''&'') True; Some (Some True, p\<lparr>vars := v\<rparr>, buf) }
       else Some (Some True, p, buf)
     else Some (Some False, p, buf) }"

definition chunk_len :: "bytes \<Rightarrow> u32" where
  "chunk_len l = foldl (\<lambda>n c. push_bit 4 n OR ucast (Hex_ord c)) 0 l"

definition chunk_body :: "parser \<Rightarrow> bytes \<Rightarrow> bool option \<times> parser \<times> bytes" where
  "chunk_body p buf =
     (let p = p\<lparr>currentLength := currentLength p + of_nat (length buf)\<rparr> in
      if doingChunk p \<noteq> 0 then
        let n = min (unat (of_nat (length buf) :: u32)) (unat (doingChunk p));
            p = (take_body (take n buf) p)\<lparr>doingChunk := doingChunk p - of_nat n\<rparr>
        in (if n = 0 then Some False else None, p, drop n buf)
      else case next_line buf of
             None \<Rightarrow> (Some False, p, buf)
           | Some (l, buf') \<Rightarrow>
               if l \<noteq> [] \<and> chunk_len l = 0 then (Some True, p\<lparr>getChunks := False\<rparr>, buf)
               else (None, if l \<noteq> [] then p\<lparr>doingChunk := chunk_len l\<rparr> else p, buf'))"

definition rest_body :: "parser \<Rightarrow> bytes \<Rightarrow> bool option \<times> parser \<times> bytes" where
  "rest_body p buf =
     (if take 4 (proto p) = str ''RTSP'' \<or> take 4 (hmethod p) = str ''RTSP'' then (Some True, p, buf)
      else let n = unat (of_nat (length buf) :: u32)
           in (Some True, (take_body (take n buf) p)\<lparr>possiblyComplete := True\<rparr>, drop n buf))"

definition parse_body :: "parser \<Rightarrow> bytes \<Rightarrow> (bool option \<times> parser \<times> bytes) option" where
  "parse_body p buf =
     (if headerOnly p then
        Some (Some True, if plength p = 0 \<and> \<not> getChunks p then p\<lparr>possiblyComplete := True\<rparr> else p, buf)
      else do {
        none \<leftarrow> bodyless_code (url p);
        if none then Some (Some True, p, buf)
        else if knownLength p \<and> \<not> getChunks p then known_body p buf
        else if getChunks p then Some (chunk_body p buf)
        else Some (rest_body p buf) })"

text \<open>One turn of the loop of \<open>parse\<close>, on a buffer that is not empty: the value it returns, or \<open>None\<close> to go on.\<close>

definition parse_step :: "parser \<Rightarrow> bytes \<Rightarrow> (bool option \<times> parser \<times> bytes) option" where
  "parse_step p buf =
     (if seenHeaders p then parse_body p buf
      else case next_line buf of
             None \<Rightarrow> Some (Some False, p, buf)
           | Some (l, buf) \<Rightarrow> do {
               p \<leftarrow> parse_line l p;
               if seenHeaders p then parse_body p buf else Some (None, p, buf) })"

lemma next_line_shrinks: "next_line buf = Some (l, buf') \<Longrightarrow> length buf' < length buf"
  by (auto simp: next_line_def find_chr_def at_pos_chr dest!: sfind_Some split: option.splits)

lemma taken_shrinks: "0 < unat (of_nat (length buf) :: u32) \<Longrightarrow> 0 < k \<Longrightarrow>
    length buf - min (unat (of_nat (length buf) :: u32)) k < length buf"
  by (cases buf) (auto intro!: diff_less)

lemma chunk_body_shrinks: "chunk_body p buf = (None, p', buf') \<Longrightarrow> length buf' < length buf"
  by (auto simp: chunk_body_def Let_def dest: next_line_shrinks intro!: taken_shrinks
      split: if_splits option.splits)

lemma parse_body_shrinks: "parse_body p buf = Some (None, p', buf') \<Longrightarrow> length buf' < length buf"
  by (auto simp: parse_body_def known_body_def rest_body_def Let_def dest!: chunk_body_shrinks
      split: if_splits option.splits Option.bind_splits)

lemma http_step_shrinks: "parse_step p buf = Some (None, p', buf') \<Longrightarrow> length buf' < length buf"
  by (fastforce simp: parse_step_def dest: parse_body_shrinks next_line_shrinks
      split: if_splits option.splits Option.bind_splits)

function parse :: "parser \<Rightarrow> bytes \<Rightarrow> (bool \<times> parser \<times> bytes) option" where
  "parse p buf =
     (if buf = [] then Some (possiblyComplete p, p, [])
      else case parse_step p buf of
             None \<Rightarrow> None
           | Some (Some r, p, buf) \<Rightarrow> Some (r, p, buf)
           | Some (None, p, buf) \<Rightarrow> parse p buf)"
  by pat_completeness auto
termination parse
  by (relation "measure (\<lambda>(p, buf). length buf)") (auto dest: http_step_shrinks)

declare parse.simps [simp del]

text \<open>\<open>Read\<close> from a string, and from a connection. Before every turn of \<open>parse\<close> on a line, the second
  string of the buffer is joined to the first until it ends with a line feed. (If all strings after the first are
  empty, the code moves the first into a variable shared by all buffers: undefined here.) The value \<open>None\<close> of
  \<open>Read_loop\<close> is that it does not return; undefined behaviour is \<open>Some None\<close>.\<close>

definition Read :: "parser \<Rightarrow> bytes \<Rightarrow> (bool \<times> parser \<times> bytes) option" where
  "Read p strbuf = parse p strbuf"

definition read_ok :: "bool \<Rightarrow> bool \<Rightarrow> parser \<Rightarrow> bool option" where
  "read_ok connected r p =
     (if \<not> r then Some False
      else if \<not> possiblyComplete p \<or> \<not> connected then Some True
      else map_option (\<lambda>n. n = 0) (asInt (set_string (url p))))"

text \<open>The strings of the buffer, the one to be read first first, without empty strings in front.\<close>

fun join_line :: "parser \<Rightarrow> bytes list \<Rightarrow> (bool \<times> bytes list) option" where
  "join_line p [] = Some (True, [])"
| "join_line p (c # cs) =
     (if (\<not> seenHeaders p \<or> getChunks p \<and> doingChunk p = 0) \<and> c \<noteq> [] \<and> last c \<noteq> 0x0A then
        (case cs of
           [] \<Rightarrow> Some (False, [c])
         | d # ds \<Rightarrow> if d = [] \<and> ds = [] then None else join_line p ((c @ d) # ds))
      else Some (True, c # cs))"

partial_function (option) Read_loop ::
  "bool \<Rightarrow> parser \<Rightarrow> bytes list \<Rightarrow> (bool \<times> parser \<times> bytes list) option option" where
  "Read_loop connected p cs =
     (case dropWhile (\<lambda>c. c = []) cs of
        [] \<Rightarrow> Some (Some (False, p, []))
      | c # cs \<Rightarrow>
          (case join_line p (c # cs) of
             None \<Rightarrow> Some None
           | Some (full, cs) \<Rightarrow>
               if \<not> full then Some (Some (False, p, cs))
               else
                 (case do { (r, p, c) \<leftarrow> parse p (hd cs); ok \<leftarrow> read_ok connected r p; Some (ok, p, c) } of
                    None \<Rightarrow> Some None
                  | Some (ok, p, c) \<Rightarrow>
                      if ok then Some (Some (True, p, c # tl cs)) else Read_loop connected p (c # tl cs))))"

definition Read_conn :: "bool \<Rightarrow> parser \<Rightarrow> sbuf \<Rightarrow> (bool \<times> parser \<times> sbuf) option option" where
  "Read_conn connected p b =
     (case rev (chunks (snd (sb_size b))) of
        [] \<Rightarrow> Some (do { (r, p, _) \<leftarrow> parse p []; ok \<leftarrow> read_ok connected r p; Some (ok, p, b\<lparr>chunks := []\<rparr>) })
      | cs \<Rightarrow> map_option (map_option (\<lambda>(r, p, cs). (r, p, b\<lparr>chunks := rev cs\<rparr>))) (Read_loop connected p cs))"

definition getPercentage :: "parser \<Rightarrow> byte" where
  "getPercentage p =
     (if \<not> seenHeaders p \<or> plength p < 1 then 0 else ucast (currentLength p * 100 div plength p))"

section \<open>Writing\<close>

definition encodeRequestTarget :: "bytes \<Rightarrow> bytes" where
  "encodeRequestTarget u =
     (case find_chr u 0x3F 0 of
        None \<Rightarrow> URL_encode u (str ''/:=@[]'') False
      | Some q \<Rightarrow> URL_encode (take q u) (str ''/:=@[]'') False @ drop q u)"

definition requestTarget :: "bytes \<Rightarrow> bool \<Rightarrow> bytes" where
  "requestTarget u encoded = (if encoded then u else encodeRequestTarget u)"

definition crlf :: bytes where
  "crlf = [0x0D, 0x0A]"

definition fix_protocol :: "parser \<Rightarrow> parser" where
  "fix_protocol p = (if length (proto p) < 5 \<or> proto p ! 4 \<noteq> 0x2F then p\<lparr>proto := str ''HTTP/1.0''\<rparr> else p)"

definition header_line :: "bytes \<times> bytes \<Rightarrow> bytes" where
  "header_line h = (if fst h \<noteq> [] \<and> snd h \<noteq> [] then fst h @ str '': '' @ snd h @ crlf else [])"

definition header_lines :: "smap \<Rightarrow> bytes" where
  "header_lines hs = concat (map header_line hs)"

definition request_line :: "parser \<Rightarrow> bytes" where
  "request_line p =
     (let target = requestTarget (url p) (urlEncoded p);
          form = (hmethod p = str ''POST'' \<and>
            GetHeader p (str ''Content-Type'') = str ''application/x-www-form-urlencoded'')
      in hmethod p @ str '' '' @ target @
         (if \<not> form \<and> vars p \<noteq> [] \<and> find_chr (url p) 0x3F 0 = None then allVars p else []) @
         str '' '' @ proto p @ crlf)"

definition BuildRequest :: "parser \<Rightarrow> bytes \<times> parser" where
  "BuildRequest p =
     (let p = fix_protocol p in (request_line p @ header_lines (headers p) @ crlf @ body p, p))"

definition status_line :: "bytes \<Rightarrow> bytes \<Rightarrow> parser \<Rightarrow> bytes" where
  "status_line code message p = proto p @ str '' '' @ code @ str '' '' @ message @ crlf"

definition BuildResponse :: "bytes \<Rightarrow> bytes \<Rightarrow> parser \<Rightarrow> bytes \<times> parser" where
  "BuildResponse code message p =
     (let p = fix_protocol p in (status_line code message p @ header_lines (headers p) @ crlf @ body p, p))"

text \<open>A connection: what was sent over it, whether it writes chunks, whether it was closed. All that is
  sent arrives, at once or from the buffer of the connection.\<close>

record conn =
  sent :: bytes
  chunkedMode :: bool
  closed :: bool

definition send :: "bytes \<Rightarrow> conn \<Rightarrow> conn" where
  "send d c = (if closed c then c else c\<lparr>sent := sent c @ d\<rparr>)"

text \<open>The hexadecimal digits are written from the right into \<open>lenChars\<close>, which has room for eight;
  the loop does not notice when it leaves them, and no length makes it stop before.\<close>

fun len_chars :: "nat \<Rightarrow> nat \<Rightarrow> bytes \<Rightarrow> bytes option" where
  "len_chars offset t_size acc =
     (if t_size = 0 then Some acc
      else if offset = 0 then None
      else len_chars (offset - 1) (t_size div 16) (hex_digit (of_nat (t_size mod 16)) # acc))"

declare len_chars.simps [simp del]

text \<open>\<open>SendNow(data, len)\<close>: \<open>None\<close> for \<open>data\<close> is the null pointer.\<close>

definition SendNow :: "bytes option \<Rightarrow> conn \<Rightarrow> conn option" where
  "SendNow data c =
     (let d = (case data of Some d \<Rightarrow> d | None \<Rightarrow> []) in
      if chunkedMode c then
        if d = [] then
          Some (if data \<noteq> None then c else (send (str ''0'' @ crlf @ crlf) c)\<lparr>chunkedMode := False\<rparr>)
        else do { l \<leftarrow> len_chars 8 (length d) []; Some (send crlf (send d (send (l @ crlf) c))) }
      else Some (send d c))"

definition close :: "conn \<Rightarrow> conn" where
  "close c = c\<lparr>closed := True\<rparr>"

definition send_headers :: "smap \<Rightarrow> conn \<Rightarrow> conn option" where
  "send_headers hs c =
     foldl (\<lambda>c h. do { c \<leftarrow> c; if fst h \<noteq> [] \<and> snd h \<noteq> [] then SendNow (Some (header_line h)) c else Some c }) (Some c) hs"

definition SendResponse :: "bytes \<Rightarrow> bytes \<Rightarrow> parser \<Rightarrow> conn \<Rightarrow> (parser \<times> conn) option" where
  "SendResponse code message p c = do {
     let p = fix_protocol p;
     c \<leftarrow> SendNow (Some (status_line code message p)) c;
     c \<leftarrow> send_headers (headers p) c;
     c \<leftarrow> SendNow (Some crlf) c;
     c \<leftarrow> SendNow (Some (body p)) c;
     Some (p, c) }"

text \<open>\<open>Chunkify(data, size)\<close>: a part of the body, or its end when the part is empty. The size is an
  \<open>unsigned int\<close>; \<open>Chunkify_str\<close> is the overload for a string, which cuts its length to that.\<close>

definition Chunkify :: "bytes option \<Rightarrow> parser \<Rightarrow> conn \<Rightarrow> (parser \<times> conn) option" where
  "Chunkify data p c =
     (let d = (case data of Some d \<Rightarrow> d | None \<Rightarrow> []) in
      if bufferChunks p then
        if d \<noteq> [] then Some (p\<lparr>body := body p @ d\<rparr>, c)
        else do {
          let p = (if responseContentLengthAllowed p then SetHeader_int (str ''Content-Length'') (length (body p)) p else p);
          let p = (if \<not> responseBodyAllowed p then p\<lparr>body := []\<rparr> else p);
          (p, c) \<leftarrow> SendResponse (url p) (hmethod p) p c;
          Some (Clean p, if \<not> responseKeepAlive p then close c else c) }
      else if \<not> responseBodyAllowed p then
        Some (if d = [] then (Clean p, if \<not> responseKeepAlive p then close c else c) else (p, c))
      else if sendingChunks p then do {
        c \<leftarrow> SendNow (if d \<noteq> [] then data else None) (c\<lparr>chunkedMode := True\<rparr>);
        Some (if d = [] then Clean p else p, c) }
      else do {
        c \<leftarrow> SendNow data c;
        Some (if d = [] then (Clean p, if \<not> responseKeepAlive p then close c else c) else (p, c)) })"

definition Chunkify_str :: "bytes \<Rightarrow> parser \<Rightarrow> conn \<Rightarrow> (parser \<times> conn) option" where
  "Chunkify_str d = Chunkify (Some (take (unat (of_nat (length d) :: u32)) d))"

definition sendRequest :: "bytes option \<Rightarrow> bool \<Rightarrow> parser \<Rightarrow> conn \<Rightarrow> (parser \<times> conn) option" where
  "sendRequest reqbody allAtOnce p c =
     (let p = fix_protocol p; line = request_line p;
          n = (case reqbody of Some b \<Rightarrow> length b | None \<Rightarrow> 0);
          p = (if n \<noteq> 0 then SetHeader_int (str ''Content-Length'') n p else p);
          d = (if n \<noteq> 0 then the reqbody else body p)
      in if allAtOnce then do {
           c \<leftarrow> SendNow (Some (line @ header_lines (headers p) @ crlf @ d)) c;
           Some (p, c) }
         else do {
           c \<leftarrow> SendNow (Some line) c;
           c \<leftarrow> send_headers (headers p) c;
           c \<leftarrow> SendNow (Some crlf) c;
           let p = p\<lparr>sendingChunks := (map_of (headers p) (str ''Transfer-Encoding'') = Some (str ''chunked''))\<rparr>;
           (p, c) \<leftarrow> (if d \<noteq> [] then Chunkify_str d p c else Some (p, c));
           if sendingChunks p \<and> (n \<noteq> 0 \<or> body p \<noteq> []) then Chunkify None p c else Some (p, c) })"

text \<open>\<open>strtoul\<close> in base 10, cut to 32 bits.\<close>

definition strtoul32 :: "bytes \<Rightarrow> u32" where
  "strtoul32 s =
     (let s = dropWhile is_space s;
          neg = (s \<noteq> [] \<and> s ! 0 = 45);
          s = (if s \<noteq> [] \<and> s ! 0 \<in> {43, 45} then drop 1 s else s);
          v = dec_val (takeWhile is_digit s)
      in if 2 ^ 64 \<le> v then - 1 else if neg then - of_nat v else of_nat v)"

definition StartResponse :: "bytes \<Rightarrow> bytes \<Rightarrow> parser \<Rightarrow> bool \<Rightarrow> parser \<Rightarrow> conn \<Rightarrow> (parser \<times> conn) option" where
  "StartResponse code message request bufferAllChunks p c = do {
     let prot = proto request;
     let requestConnection = GetHeader request (str ''Connection'');
     let responseConnection = GetHeader p (str ''Connection'');
     let requestKeepAlive = (if proto request = str ''HTTP/1.1'' then \<not> strcasecmp_eq requestConnection (str ''close'')
       else strcasecmp_eq requestConnection (str ''keep-alive''));
     let persistent = (requestKeepAlive \<and> \<not> strcasecmp_eq responseConnection (str ''close''));
     let status = strtoul32 code;
     let responseToHead = (hmethod request = str ''HEAD'');
     let statusForbidsBody = (100 \<le> status \<and> status < 200 \<or> status = 204 \<or> status = 304);
     let connectTunnel = (hmethod request = str ''CONNECT'' \<and> 200 \<le> status \<and> status < 300);
     let bodyAllowed = (\<not> responseToHead \<and> \<not> statusForbidsBody \<and> \<not> connectTunnel);
     let contentLengthAllowed = (\<not> (100 \<le> status \<and> status < 200) \<and> status \<noteq> 204 \<and> \<not> connectTunnel);
     let willSendChunks = (bodyAllowed \<and> \<not> bufferAllChunks \<and> proto request = str ''HTTP/1.1'' \<and> persistent);
     let p = (CleanPreserveHeaders p)\<lparr>sendingChunks := willSendChunks, responseKeepAlive := persistent,
       responseBodyAllowed := bodyAllowed, responseContentLengthAllowed := contentLengthAllowed,
       url := code, hmethod := message, proto := prot\<rparr>;
     p \<leftarrow> (if willSendChunks then do {
            let p = SetHeader (str ''Transfer-Encoding'') (str ''chunked'') p;
            case map_of (headers p) (str ''Content-Length'') of
              None \<Rightarrow> Some p
            | Some l \<Rightarrow> do {
                n \<leftarrow> atoi l;
                let len = (of_int n :: u32);
                let p = (if len \<noteq> 0 \<and> map_of (headers p) (str ''Content-Range'') = None
                  then SetHeader (str ''Content-Range'')
                    (str ''bytes 0-'' @ to_dec (unat (len - 1)) @ str ''/'' @ to_dec (unat len)) p else p);
                Some (clearHeader (str ''Content-Length'') p) } }
          else do {
            let p = clearHeader (str ''Transfer-Encoding'') p;
            let p = (if \<not> contentLengthAllowed then clearHeader (str ''Content-Length'') p else p);
            let hasResponseLength = (\<not> bodyAllowed \<or> hasHeader p (str ''Content-Length'') \<or> bufferAllChunks);
            let p = p\<lparr>responseKeepAlive := responseKeepAlive p \<and> hasResponseLength\<rparr>;
            Some (if \<not> responseKeepAlive p then SetHeader (str ''Connection'') (str ''close'') p
                  else if proto request = str ''HTTP/1.0'' then SetHeader (str ''Connection'') (str ''keep-alive'') p
                  else p) });
     let p = p\<lparr>bufferChunks := bufferAllChunks\<rparr>;
     if \<not> bufferAllChunks then SendResponse code message p c else Some (p, c) }"

section \<open>Authentication\<close>

definition findValIn :: "bytes \<Rightarrow> bytes \<Rightarrow> bytes" where
  "findValIn list val =
     (case sfind list (val @ str ''='') 0 of
        None \<Rightarrow> []
      | Some pos \<Rightarrow>
          let pos = pos + length val + 1 in
          if length list \<le> pos then []
          else if list ! pos = 0x22 then
            (case find_chr list 0x22 (pos + 1) of
               None \<Rightarrow> []
             | Some ePos \<Rightarrow> take (ePos - (pos + 1)) (drop (pos + 1) list))
          else (case find_chr list 0x2C pos of
                  None \<Rightarrow> drop pos list
                | Some ePos \<Rightarrow> take (ePos - pos) (drop pos list)))"

definition digest_response ::
  "parser \<Rightarrow> u32 \<Rightarrow> bytes \<Rightarrow> bytes \<Rightarrow> bytes \<Rightarrow> bytes \<Rightarrow> bytes \<times> u32 \<times> bytes" where
  "digest_response p nc A1 nonce qop A2 =
     (if qop \<noteq> [] then
        let nc = nc + 1; ncStr = stream_hex (be_bytes 4 nc)
        in (md5 (A1 @ str '':'' @ nonce @ str '':'' @ ncStr @ str '':'' @ cnonce p @ str '':auth:'' @ A2), nc, ncStr)
      else (md5 (A1 @ str '':'' @ nonce @ str '':'' @ A2), nc, []))"

text \<open>The function's static counter \<open>nc\<close> is an argument and a result.\<close>

definition auth :: "bytes \<Rightarrow> bytes \<Rightarrow> bytes \<Rightarrow> bytes \<Rightarrow> u32 \<Rightarrow> parser \<Rightarrow> u32 \<times> parser" where
  "auth usr pwd authReq headerName nc p =
     (case find_chr authReq 0x20 0 of
        None \<Rightarrow> (nc, p)
      | Some space \<Rightarrow>
          if usr = [] \<or> pwd = [] then (nc, p)
          else let meth = (let m = take space authReq in map tolower (takeWhile (\<lambda>c. c \<noteq> 0) m) @ dropWhile (\<lambda>c. c \<noteq> 0) m) in
          if meth = str ''basic'' then
            (nc, SetHeader headerName (str ''Basic '' @ Base64_encode (usr @ str '':'' @ pwd) False) p)
          else if meth = str ''digest'' then
            let realm = findValIn authReq (str ''realm''); nonce = findValIn authReq (str ''nonce'');
                opaque = findValIn authReq (str ''opaque''); qop = findValIn authReq (str ''qop'');
                algo = findValIn authReq (str ''algorithm'');
                A1 = md5 (usr @ str '':'' @ realm @ str '':'' @ pwd)
            in if algo \<noteq> [] \<and> algo \<noteq> str ''MD5'' then (nc, p)
               else
                 let urlPart = (if sfind (url p) (str ''://'') 0 \<noteq> None \<and> take 4 (url p) \<noteq> str ''rtsp''
                       then str ''/'' @ path (URL (url p)) else url p);
                     A2 = md5 (hmethod p @ str '':'' @ urlPart);
                     (response, nc, ncStr) = digest_response p nc A1 nonce qop A2;
                     q = [0x22];
                     rep = str ''Digest username='' @ q @ usr @ q @ str '', realm='' @ q @ realm @ q @
                       str '', nonce='' @ q @ nonce @ q @ str '', uri='' @ q @ urlPart @ q @
                       str '', response='' @ q @ response @ q @
                       (if algo \<noteq> [] then str '', algorithm='' @ algo else []) @
                       (if qop \<noteq> [] then str '', cnonce='' @ q @ cnonce p @ q else []) @
                       (if opaque \<noteq> [] then str '', opaque='' @ q @ opaque @ q else []) @
                       (if qop \<noteq> [] then str '', qop=auth, nc='' @ ncStr else [])
                 in (nc, SetHeader headerName rep p)
          else (nc, p))"

end
