(* ===== verification/HttpProps.thy ===== *)
theory HttpProps imports Http begin

section \<open>Lines\<close>

lemma find_chr_from: "c \<notin> set a \<Longrightarrow> find_chr (pre @ a @ c # b) c (length pre) = Some (length pre + length a)"
proof -
  assume c: "c \<notin> set a"
  have "(pre @ a @ c # b) ! j \<noteq> c" if "length pre \<le> j" "j < length pre + length a" for j
    using that c nth_mem [of "j - length pre" a] by (auto simp: nth_append)
  then show ?thesis unfolding find_chr_def by (intro sfind_eqI) (simp_all add: at_pos_chr)
qed

lemma find_chr_from_None: "c \<notin> set a \<Longrightarrow> find_chr (pre @ a) c (length pre) = None"
  using nth_mem unfolding find_chr_def by (intro sfind_NoneI) (auto simp: at_pos_chr nth_append)

definition plain_line :: "bytes \<Rightarrow> bool" where
  "plain_line l \<longleftrightarrow> 0x0A \<notin> set l \<and> 0x0D \<notin> set l"

lemma plain_line_simps [simp]:
  "plain_line []" "plain_line (a @ b) \<longleftrightarrow> plain_line a \<and> plain_line b"
  "plain_line (c # a) \<longleftrightarrow> c \<noteq> 0x0A \<and> c \<noteq> 0x0D \<and> plain_line a"
  by (auto simp: plain_line_def)

lemma next_line_crlf: "plain_line l \<Longrightarrow> next_line (l @ crlf @ rest) = Some (l, rest)"
proof -
  assume l: "plain_line l"
  have "find_chr ((l @ [0x0D]) @ 0x0A # rest) 0x0A 0 = Some (length (l @ [0x0D]))"
    using l by (intro find_chr_append) (auto simp: plain_line_def)
  moreover have "cut_cr (l @ [0x0D]) = l"
    using l find_chr_append [of "0x0D" l "[]"] by (simp add: cut_cr_def plain_line_def)
  ultimately show ?thesis by (simp add: next_line_def crlf_def)
qed

lemma next_line_append: "next_line a = Some (l, a') \<Longrightarrow> next_line (a @ b) = Some (l, a' @ b)"
proof -
  assume n: "next_line a = Some (l, a')"
  then obtain f where f: "find_chr a 0x0A 0 = Some f" "l = cut_cr (take f a)" "a' = drop (f + 1) a"
    by (auto simp: next_line_def split: option.splits)
  then have at: "f < length a" "a ! f = 0x0A" "\<And>j. j < f \<Longrightarrow> a ! j \<noteq> 0x0A"
    using sfind_Some [of a "[0x0A]" 0 f] by (auto simp: find_chr_def at_pos_chr)
  have "find_chr (a @ b) 0x0A 0 = Some f"
    unfolding find_chr_def using at by (intro sfind_eqI) (auto simp: at_pos_chr nth_append)
  then show ?thesis using f at by (simp add: next_line_def)
qed

lemma next_line_None: "next_line a = None \<longleftrightarrow> 0x0A \<notin> set a"
proof -
  have "next_line a = None \<longleftrightarrow> find_chr a 0x0A 0 = None" by (simp add: next_line_def split: option.splits)
  then show ?thesis by (simp add: find_chr_None)
qed

lemma next_line_suffix: "next_line a = Some (l, a') \<Longrightarrow> \<exists>x. a = x @ a' \<and> x \<noteq> []"
proof -
  assume "next_line a = Some (l, a')"
  then obtain f where f: "find_chr a 0x0A 0 = Some f" "a' = drop (f + 1) a"
    by (auto simp: next_line_def split: option.splits)
  then have "f < length a" using sfind_Some [of a "[0x0A]" 0 f] by (auto simp: find_chr_def at_pos_chr)
  then show ?thesis using f(2) by (intro exI [of _ "take (f + 1) a"]) auto
qed

section \<open>Maps\<close>

definition is_map :: "smap \<Rightarrow> bool" where
  "is_map m \<longleftrightarrow> sorted_wrt (<) (map fst m)"

lemma mput_snoc: "is_map (m @ [(k, v)]) \<Longrightarrow> mput k v m = m @ [(k, v)]"
  by (induction m) (auto simp: is_map_def)

lemma mput_keys: "fst ` set (mput k v m) = insert k (fst ` set m)"
  by (induction k v m rule: mput.induct) (simp_all add: insert_commute)

lemma is_map_mput: "is_map m \<Longrightarrow> is_map (mput k v m)"
proof (induction m)
  case (Cons h m)
  obtain k' v' where h: "h = (k', v')" by (cases h)
  show ?case using Cons mput_keys [of k v m] by (auto simp: is_map_def h not_less_iff_gr_or_eq)
qed (simp add: is_map_def)

lemma mput_entries: "set (mput k v m) \<subseteq> insert (k, v) (set m)"
  by (induction m) (auto split: if_splits)

lemma map_of_mput: "map_of (mput k v m) = (map_of m)(k \<mapsto> v)"
  by (induction m) auto

lemma foldl_mput: "is_map (done @ m) \<Longrightarrow> foldl (\<lambda>s (k, v). mput k v s) done m = done @ m"
proof (induction m arbitrary: "done")
  case (Cons h m)
  obtain k v where h: "h = (k, v)" by (cases h)
  have "is_map (done @ [(k, v)])" using Cons.prems by (auto simp: is_map_def sorted_wrt_append h)
  then show ?case using Cons.IH [of "done @ [h]"] Cons.prems by (simp add: mput_snoc h)
qed simp

section \<open>Variables are read back\<close>

lemma url_clean:
  assumes "c \<in> set (URL_encode s [] False)"
  shows "c \<notin> {0x26, 0x3D, 0x3F, 0x20, 0x0A, 0x0D}"
  using URL_encode_chars [OF assms] by (auto simp: url_plain_def byte_simps)

definition var_text :: "bytes \<times> bytes \<Rightarrow> bytes" where
  "var_text h = URL_encode (fst h) [] False @ 0x3D # URL_encode (snd h) [] False"

lemma argStr_rest:
  "1 < length ret \<Longrightarrow> \<forall>h \<in> set m. fst h \<noteq> [] \<Longrightarrow>
     foldl (argStr_step q) ret m = ret @ concat (map (\<lambda>h. 0x26 # var_text h) m)"
proof (induction m arbitrary: ret)
  case (Cons h m)
  then have "argStr_step q ret h = ret @ 0x26 # var_text h" by (simp add: argStr_step_def var_text_def str_def)
  then show ?case using Cons.IH [of "ret @ 0x26 # var_text h"] Cons.prems by (cases "ret = []") simp_all
qed simp

lemma argStr_text:
  assumes "\<forall>h \<in> set (h0 # m). fst h \<noteq> []"
  shows "argStr (h0 # m) q = (if q then [0x3F] else []) @ var_text h0 @ concat (map (\<lambda>h. 0x26 # var_text h) m)"
proof -
  have "URL_encode (fst h0) [] False \<noteq> []" using assms URL_encode_Nil by auto
  then have "1 < length (var_text h0)" by (cases "URL_encode (fst h0) [] False") (simp_all add: var_text_def)
  moreover have "argStr_step q [] h0 = (if q then [0x3F] else []) @ var_text h0"
    using assms by (simp add: argStr_step_def var_text_def str_def)
  ultimately show ?thesis using assms argStr_rest [of "(if q then [0x3F] else []) @ var_text h0" m q]
    by (simp add: argStr_def)
qed

lemma parseVars_entry:
  assumes "data = pre @ var_text h @ rest" "rest = [] \<or> hd rest = 0x26" "fst h \<noteq> []"
  shows "parseVars_loop data [0x26] True (length pre) st =
    parseVars_loop data [0x26] True (length pre + length (var_text h) + 1) (mput (fst h) (snd h) st)"
proof -
  let ?k = "URL_encode (fst h) [] False" and ?v = "URL_encode (snd h) [] False"
  have ne: "?k \<noteq> []" using assms(3) URL_encode_Nil by auto
  have eq: "find_chr data 0x3D (length pre) = Some (length pre + length ?k)"
    using find_chr_from [of "0x3D" ?k pre "?v @ rest"] url_clean by (auto simp: assms(1) var_text_def)
  have amp: "0x26 \<notin> set (var_text h)" using url_clean by (auto simp: var_text_def)
  have nxt: "(case sfind data [0x26] (length pre) of Some n \<Rightarrow> n | None \<Rightarrow> length data) = length pre + length (var_text h)"
    using assms(2) find_chr_from [OF amp, of pre "tl rest"] find_chr_from_None [OF amp, of pre]
    by (cases rest) (auto simp: assms(1) find_chr_def)
  have lt: "length pre < length data" using ne by (simp add: assms(1) var_text_def)
  show ?thesis
    using lt eq nxt ne
    by (subst parseVars_loop.simps)
      (simp add: Let_def, simp add: assms(1) var_text_def URL_round_trip)
qed

lemma parseVars_text:
  "\<forall>h \<in> set m. fst h \<noteq> [] \<Longrightarrow>
     parseVars_loop (pre @ concat (map (\<lambda>h. 0x26 # var_text h) m)) [0x26] True (length pre + 1) st =
     foldl (\<lambda>s (k, v). mput k v s) st m"
proof (induction m arbitrary: pre st)
  case Nil
  then show ?case by (subst parseVars_loop.simps) simp
next
  case (Cons h m)
  let ?rest = "concat (map (\<lambda>h. 0x26 # var_text h) m)"
  have r: "?rest = [] \<or> hd ?rest = 0x26" by (cases m) simp_all
  show ?case
    using parseVars_entry [OF _ r, of "pre @ 0x26 # var_text h @ ?rest" "pre @ [0x26]" h st]
      Cons.IH [of "pre @ 0x26 # var_text h" "mput (fst h) (snd h) st"] Cons.prems
    by (cases h) (simp add: add_ac)
qed

lemma parseVars_argStr:
  assumes "is_map m" "\<forall>h \<in> set m. fst h \<noteq> []"
  shows "parseVars (argStr m False) [] (str ''&'') True = Some m"
proof (cases m)
  case Nil
  then show ?thesis by (simp add: parseVars_def argStr_def str_def parseVars_loop.simps)
next
  case (Cons h m')
  let ?rest = "concat (map (\<lambda>h. 0x26 # var_text h) m')"
  have r: "?rest = [] \<or> hd ?rest = 0x26" by (cases m') simp_all
  have "parseVars_loop (var_text h @ ?rest) [0x26] True 0 [] = foldl (\<lambda>s (k, v). mput k v s) (mput (fst h) (snd h) []) m'"
    using parseVars_entry [OF _ r, of _ "[]" h "[]"] parseVars_text [of m' "var_text h"] assms(2) Cons by simp
  also have "\<dots> = foldl (\<lambda>s (k, v). mput k v s) [] m" by (simp add: Cons split: prod.split)
  also have "\<dots> = m" using foldl_mput [of "[]" m] assms(1) by simp
  finally show ?thesis using argStr_text [of h m' False] assms(2) Cons by (simp add: parseVars_def str_def)
qed

section \<open>Headers are read back\<close>

definition header_ok :: "bytes \<times> bytes \<Rightarrow> bool" where
  "header_ok h \<longleftrightarrow> fst h \<noteq> [] \<and> snd h \<noteq> [] \<and> 0x3A \<notin> set (fst h) \<and> plain_line (fst h) \<and> plain_line (snd h) \<and>
     Trim (fst h) = fst h \<and> Trim (snd h) = snd h"

definition headers_ok :: "smap \<Rightarrow> bool" where
  "headers_ok m \<longleftrightarrow> is_map m \<and> (\<forall>h \<in> set m. header_ok h)"

lemma Trim_blank: "Trim (0x20 # s) = Trim s"
  by (simp add: Trim_def is_blank_def)

lemma parse_line_next:
  assumes "\<not> seenHeaders p" "plain_line l" "parse_line l p = Some p'" "\<not> seenHeaders p'"
  shows "parse p (l @ crlf @ rest) = parse p' rest"
  using assms next_line_crlf [OF assms(2), of rest]
  by (subst parse.simps) (simp add: parse_step_def crlf_def)

lemma parse_headers:
  "\<not> seenHeaders p \<Longrightarrow> seenReq p \<Longrightarrow> \<forall>h \<in> set hs. header_ok h \<Longrightarrow>
     parse p (header_lines hs @ rest) = parse (p\<lparr>headers := foldl (\<lambda>m (k, v). mput k v m) (headers p) hs\<rparr>) rest"
proof (induction hs arbitrary: p)
  case Nil
  then show ?case by (simp add: header_lines_def)
next
  case (Cons h hs)
  obtain k v where h: "h = (k, v)" by (cases h)
  have ok: "k \<noteq> []" "v \<noteq> []" "0x3A \<notin> set k" "plain_line k" "plain_line v" "Trim k = k" "Trim v = v"
    using Cons.prems(3) by (auto simp: h header_ok_def)
  let ?l = "k @ 0x3A # 0x20 # v"
  have "parse_line ?l p = Some (p\<lparr>headers := mput k v (headers p)\<rparr>)"
    using Cons.prems ok find_chr_append [of "0x3A" k "0x20 # v"]
    by (simp add: parse_line_def parse_header_def SetHeader_def Trim_blank)
  then have "parse p (?l @ crlf @ header_lines hs @ rest) =
      parse (p\<lparr>headers := mput k v (headers p)\<rparr>) (header_lines hs @ rest)"
    using Cons.prems ok by (intro parse_line_next) simp_all
  moreover have "header_lines (h # hs) @ rest = ?l @ crlf @ header_lines hs @ rest"
    using ok by (simp add: header_lines_def header_line_def h str_def)
  ultimately show ?case using Cons.IH [of "p\<lparr>headers := mput k v (headers p)\<rparr>"] Cons.prems by (simp add: h)
qed

text \<open>The empty line and the body behind it.\<close>

lemma parse_empty_line:
  assumes "\<not> seenHeaders p" "seenReq p" "end_headers p = Some p'"
  shows "parse p (crlf @ rest) = (case parse_body p' rest of
      None \<Rightarrow> None | Some (Some r, q, b) \<Rightarrow> Some (r, q, b) | Some (None, q, b) \<Rightarrow> parse q b)"
proof -
  have "seenHeaders p'" using assms(3) by (auto simp: end_headers_def Let_def split: if_splits Option.bind_splits)
  then show ?thesis using assms next_line_crlf [of "[]" rest]
    by (subst parse.simps) (simp add: parse_step_def parse_line_def crlf_def)
qed

section \<open>The first line\<close>

lemma encode_clean:
  assumes "c \<in> set (URL_encode u (str ''/:=@[]'') False)"
  shows "c \<notin> {0x20, 0x3F, 0x0A, 0x0D}"
  using URL_encode_chars [OF assms] by (auto simp: url_plain_def byte_simps)

lemma var_clean: "c \<in> set (var_text h) \<Longrightarrow> c \<notin> {0x20, 0x0A, 0x0D}"
  using url_clean by (auto simp: var_text_def)

lemma allVars_clean:
  assumes "\<forall>h \<in> set m. fst h \<noteq> []" "m \<noteq> []"
  shows "\<exists>a. argStr m True = 0x3F # a \<and> argStr m False = a \<and> (\<forall>c \<in> set a. c \<notin> {0x20, 0x0A, 0x0D})"
proof -
  obtain h m' where m: "m = h # m'" using assms(2) by (cases m) auto
  define a where "a = var_text h @ concat (map (\<lambda>h. 0x26 # var_text h) m')"
  have "\<forall>c \<in> set a. c \<notin> {0x20, 0x0A, 0x0D}"
  proof
    fix c assume "c \<in> set a"
    then have "\<exists>h. c \<in> set (var_text h) \<or> c = 0x26" by (auto simp: a_def simp del: split_paired_Ex split: if_splits)
    then obtain h where "c \<in> set (var_text h) \<or> c = 0x26" by (elim exE)
    then show "c \<notin> {0x20, 0x0A, 0x0D}" using var_clean [of c h] by auto
  qed
  then show ?thesis using argStr_text [of h m'] assms by (auto simp: m a_def)
qed

definition method_ok :: "bytes \<Rightarrow> bool" where
  "method_ok m \<longleftrightarrow> 0x20 \<notin> set m \<and> plain_line m \<and> take 4 m \<noteq> str ''HTTP''"

lemma method_not_http: "method_ok m \<Longrightarrow> take 4 (m @ 0x20 # l) \<noteq> str ''HTTP''"
proof
  assume m: "method_ok m" and t: "take 4 (m @ 0x20 # l) = str ''HTTP''"
  show False
  proof (cases "4 \<le> length m")
    case True
    then show False using m t by (simp add: method_ok_def)
  next
    case False
    have "(0x20 :: byte) \<in> set (take 4 (m @ 0x20 # l))"
      using False by (simp add: take_Cons')
    then show False unfolding t by (simp add: byte_simps)
  qed
qed

lemma parse_start_request:
  assumes m: "method_ok m" and t: "0x20 \<notin> set t" and u: "set_url t (p\<lparr>seenReq := True, hmethod := m, proto := c\<rparr>) = Some p'"
  shows "parse_start (m @ 0x20 # t @ 0x20 # c) p = Some p'"
  using find_chr_append [of "0x20" m "t @ 0x20 # c"] find_chr_append [of "0x20" t c] m t u method_not_http [OF m, of "t @ 0x20 # c"]
  by (simp add: parse_start_def Let_def method_ok_def)


definition target_text :: "parser \<Rightarrow> bytes" where
  "target_text p = URL_encode (url p) (str ''/:=@[]'') False @ (if vars p \<noteq> [] then argStr (vars p) True else [])"

definition vars_ok :: "smap \<Rightarrow> bool" where
  "vars_ok m \<longleftrightarrow> is_map m \<and> (\<forall>h \<in> set m. fst h \<noteq> [])"

lemma target_clean: "vars_ok (vars p) \<Longrightarrow> c \<in> set (target_text p) \<Longrightarrow> c \<notin> {0x20, 0x0A, 0x0D}"
  using encode_clean [of c "url p"] allVars_clean [of "vars p"]
  by (auto simp: target_text_def vars_ok_def split: if_splits)

lemma set_url_target:
  assumes "vars_ok (vars p)" "vars q = []"
  shows "set_url (target_text p) q = Some (q\<lparr>vars := vars p, url := url p\<rparr>)"
proof -
  let ?e = "URL_encode (url p) (str ''/:=@[]'') False"
  have e: "0x3F \<notin> set ?e" using encode_clean by fastforce
  have d: "URL_decode ?e False = url p"
    by (rule URL_round_trip) (simp_all add: byte_simps)
  show ?thesis
  proof (cases "vars p = []")
    case True
    have "q\<lparr>url := u\<rparr> = q\<lparr>vars := [], url := u\<rparr>" for u using assms(2) by (cases q) simp
    then show ?thesis using True e d find_chr_None [of ?e "0x3F"]
      by (simp add: set_url_def target_text_def)
  next
    case False
    then obtain a where a: "argStr (vars p) True = 0x3F # a" "argStr (vars p) False = a"
      using allVars_clean [of "vars p"] assms(1) by (auto simp: vars_ok_def)
    then show ?thesis using False d find_chr_append [OF e, of a] parseVars_argStr [of "vars p"] assms
      by (simp add: set_url_def target_text_def vars_ok_def)
  qed
qed

section \<open>A request is read back\<close>

definition request_ok :: "parser \<Rightarrow> bool" where
  "request_ok p \<longleftrightarrow>
     method_ok (hmethod p) \<and> 0x3F \<notin> set (url p) \<and> (url p \<noteq> [] \<longrightarrow> \<not> is_digit (hd (url p))) \<and> \<not> urlEncoded p \<and>
     5 \<le> length (proto p) \<and> proto p ! 4 = 0x2F \<and> plain_line (proto p) \<and>
     headers_ok (headers p) \<and> vars_ok (vars p) \<and>
     \<not> (hmethod p = str ''POST'' \<and> GetHeader p (str ''Content-Type'') = str ''application/x-www-form-urlencoded'') \<and>
     length (body p) < 2 ^ 31 \<and> map_of (headers p) (str ''Content-Length'') = Some (to_dec (length (body p))) \<and>
     GetHeader p (str ''Transfer-Encoding'') \<noteq> str ''chunked''"

lemma request_line_text:
  assumes "request_ok p"
  shows "request_line p = (hmethod p @ 0x20 # target_text p @ 0x20 # proto p) @ crlf"
proof -
  have "0x3F \<notin> set (url p)" using assms by (simp add: request_ok_def)
  then have "find_chr (url p) 0x3F 0 = None" by (simp add: find_chr_None)
  then show ?thesis using assms
    by (auto simp: request_ok_def request_line_def requestTarget_def encodeRequestTarget_def target_text_def
        allVars_def str_def Let_def)
qed

lemma GetHeader_headers: "headers p = headers q \<Longrightarrow> GetHeader p = GetHeader q"
  by (simp add: GetHeader_def fun_eq_iff)

lemma unat_small: "n < 2 ^ 32 \<Longrightarrow> unat (of_nat n :: u64) = n" "n < 2 ^ 32 \<Longrightarrow> unat (of_nat n :: u32) = n"
  by (simp_all add: unat_of_nat)

lemma known_body_exact:
  assumes "\<not> has_cb p" "plength p = of_nat (length d)" "currentLength p = 0" "body p = []" "length d < 2 ^ 31"
    and "\<not> (hmethod p = str ''POST'' \<and> GetHeader p (str ''Content-Type'') = str ''application/x-www-form-urlencoded'')"
  shows "known_body p (d @ rest) = Some (Some True, p\<lparr>body := d, currentLength := of_nat (length d)\<rparr>, rest)"
proof -
  have "(ucast (of_nat (length d) :: u64) :: u32) = of_nat (length d)"
    using assms(5) by (simp add: unsigned_of_nat take_bit_nat_eq_self)
  moreover have "p\<lparr>body := [], currentLength := 0\<rparr> = p" using assms(3,4) by (cases p) simp
  ultimately show ?thesis using assms
    by (cases "d = []"; cases "hmethod p = str ''POST''") (simp_all add: known_body_def GetHeader_def take_body_def unat_small Let_def)
qed

lemma request_read:
  assumes p: "request_ok p" and q: "\<not> headerOnly q" "\<not> has_cb q"
  shows "\<exists>q'. Read (Clean q) (fst (BuildRequest p) @ rest) = Some (True, q', rest) \<and>
    hmethod q' = hmethod p \<and> url q' = url p \<and> proto q' = proto p \<and> headers q' = headers p \<and>
    vars q' = vars p \<and> body q' = body p \<and> \<not> possiblyComplete q'"
proof -
  define q1 where "q1 = (Clean q)\<lparr>seenReq := True, hmethod := hmethod p, proto := proto p, vars := vars p, url := url p\<rparr>"
  define q2 where "q2 = q1\<lparr>headers := headers p\<rparr>"
  define q3 where "q3 = q2\<lparr>seenHeaders := True, currentLength := 0, body := [], knownLength := True,
    plength := of_nat (length (body p))\<rparr>"
  have ok: "method_ok (hmethod p)" "vars_ok (vars p)" "plain_line (proto p)" "headers_ok (headers p)"
    using p by (simp_all add: request_ok_def)
  have t: "0x20 \<notin> set (target_text p)" "plain_line (target_text p)"
    using target_clean [OF ok(2)] by (auto simp: plain_line_def)
  let ?l = "hmethod p @ 0x20 # target_text p @ 0x20 # proto p"
  have built: "fst (BuildRequest p) @ rest = ?l @ crlf @ header_lines (headers p) @ crlf @ body p @ rest"
    using p request_line_text [OF p] by (simp add: BuildRequest_def fix_protocol_def request_ok_def Let_def)
  have "parse_line ?l (Clean q) = Some q1"
    using set_url_target [OF ok(2)] parse_start_request [OF ok(1) t(1)]
    by (simp add: parse_line_def q1_def Clean_def CleanPreserveHeaders_def)
  then have "parse (Clean q) (fst (BuildRequest p) @ rest) = parse q1 (header_lines (headers p) @ crlf @ body p @ rest)"
    unfolding built using t ok
    by (intro parse_line_next) (simp_all add: method_ok_def q1_def Clean_def CleanPreserveHeaders_def)
  also have "\<dots> = parse q2 (crlf @ body p @ rest)"
    using ok(4) foldl_mput [of "[]" "headers p"] parse_headers [of q1 "headers p"]
    by (simp add: headers_ok_def q2_def q1_def Clean_def CleanPreserveHeaders_def)
  also have "\<dots> = (case parse_body q3 (body p @ rest) of
      None \<Rightarrow> None | Some (Some r, q, b) \<Rightarrow> Some (r, q, b) | Some (None, q, b) \<Rightarrow> parse q b)"
  proof (rule parse_empty_line)
    have small: "unat (of_nat (length (body p)) :: u64) = length (body p)"
      using p by (intro unat_small) (simp add: request_ok_def)
    have len: "find_header (headers p) (str ''Content-Length'') = Some (to_dec (length (body p)))"
      using p by (simp add: find_header_def request_ok_def)
    have "(case find_header (headers p) (str ''Transfer-Encoding'') of Some v \<Rightarrow> v | None \<Rightarrow> []) \<noteq> str ''chunked''"
      using p by (simp add: GetHeader_def request_ok_def)
    then show "end_headers q2 = Some q3"
      using p small atoi_to_dec [of "length (body p)"] to_dec_ne
      by (simp add: end_headers_def GetHeader_def len q2_def q3_def request_ok_def max_size_def Let_def)
  qed (simp_all add: q2_def q1_def Clean_def CleanPreserveHeaders_def)
  also have "parse_body q3 (body p @ rest) =
      Some (Some True, q3\<lparr>body := body p, currentLength := of_nat (length (body p))\<rparr>, rest)"
  proof -
    have n: "length (body p) < 2 ^ 31" using p by (simp add: request_ok_def)
    have "bodyless_code (url p) = Some False"
      using p by (cases "url p") (auto simp: bodyless_code_def request_ok_def is_digit_def)
    then have "parse_body q3 (body p @ rest) = known_body q3 (body p @ rest)"
      using q by (simp add: parse_body_def q3_def q2_def q1_def Clean_def CleanPreserveHeaders_def)
    also have "\<dots> = Some (Some True, q3\<lparr>body := body p, currentLength := of_nat (length (body p))\<rparr>, rest)"
      using p q n by (intro known_body_exact)
        (simp_all add: request_ok_def GetHeader_def q3_def q2_def q1_def Clean_def CleanPreserveHeaders_def)
    finally show ?thesis .
  qed
  finally show ?thesis by (simp add: Read_def q3_def q2_def q1_def Clean_def CleanPreserveHeaders_def)
qed

section \<open>Reading in pieces\<close>

text \<open>In the middle of a chunked body \<open>currentLength\<close> counts what was in the buffer at every turn, so it
  depends on how the data came in; nothing reads it there. \<open>result\<close> leaves it out.\<close>

definition no_len :: "parser \<Rightarrow> parser" where
  "no_len p = p\<lparr>currentLength := 0\<rparr>"

definition result :: "(bool \<times> parser \<times> bytes) option \<Rightarrow> (bool \<times> parser \<times> bytes) option" where
  "result = map_option (\<lambda>(r, p, b). (r, no_len p, b))"

lemma result_simps [simp]:
  "result None = None" "result (Some (r, p, b)) = Some (r, no_len p, b)"
  "result x = None \<longleftrightarrow> x = None"
  by (simp_all add: result_def)

lemma result_Some: "result x = Some (r, q, b) \<longleftrightarrow> (\<exists>p. x = Some (r, p, b) \<and> no_len p = q)"
  by (auto simp: result_def)

text \<open>What \<open>parse\<close> does once the headers are read.\<close>

definition go_on :: "(bool option \<times> parser \<times> bytes) option \<Rightarrow> (bool \<times> parser \<times> bytes) option" where
  "go_on x = (case x of None \<Rightarrow> None | Some (Some r, q, b) \<Rightarrow> Some (r, q, b) | Some (None, q, b) \<Rightarrow> parse q b)"

lemma parse_Nil [simp]: "parse p [] = Some (possiblyComplete p, p, [])"
  by (simp add: parse.simps)

lemma parse_seen: "seenHeaders p \<Longrightarrow> a \<noteq> [] \<Longrightarrow> parse p a = go_on (parse_body p a)"
  by (simp add: parse.simps [of p a] parse_step_def go_on_def)

lemma parse_unseen:
  "\<not> seenHeaders p \<Longrightarrow> parse p a =
     (if a = [] then Some (possiblyComplete p, p, [])
      else case next_line a of
        None \<Rightarrow> Some (False, p, a)
      | Some (l, a') \<Rightarrow>
          (case parse_line l p of
             None \<Rightarrow> None
           | Some q \<Rightarrow> if seenHeaders q then go_on (parse_body q a') else parse q a'))"
  by (simp add: parse.simps [of p a] parse_step_def go_on_def split: option.splits)

lemma no_len_body: "no_len p = no_len q \<Longrightarrow> seenHeaders p = seenHeaders q \<and> getChunks p = getChunks q \<and>
    headerOnly p = headerOnly q \<and> url p = url q \<and> doingChunk p = doingChunk q \<and> plength p = plength q \<and>
    possiblyComplete p = possiblyComplete q \<and> knownLength p = knownLength q \<and> has_cb p = has_cb q"
  by (cases p; cases q) (simp add: no_len_def)

lemma chunk_body_no_len:
  "no_len p = no_len q \<Longrightarrow> \<exists>x p' b'. chunk_body p a = (x, p', b') \<and>
     (\<exists>q'. chunk_body q a = (x, q', b') \<and> no_len p' = no_len q' \<and> seenHeaders p' = seenHeaders p \<and>
       (x = None \<longrightarrow> getChunks p' = getChunks p))"
  by (cases p; cases q)
    (auto simp: no_len_def chunk_body_def take_body_def Let_def split: option.splits prod.splits)

lemma parse_body_chunks:
  assumes "no_len p = no_len q" "getChunks p"
  shows "(parse_body p a = None \<and> parse_body q a = None) \<or>
    (\<exists>x p' q' b'. parse_body p a = Some (x, p', b') \<and> parse_body q a = Some (x, q', b') \<and>
      no_len p' = no_len q' \<and> seenHeaders p' = seenHeaders p \<and> (x = None \<longrightarrow> getChunks p'))"
proof -
  have s: "headerOnly p = headerOnly q" "url p = url q" "getChunks p = getChunks q"
    "getChunks q" "plength p = plength q"
    using no_len_body [OF assms(1)] assms(2) by simp_all
  consider "headerOnly q" | "\<not> headerOnly q" "bodyless_code (url q) = None"
    | "\<not> headerOnly q" "bodyless_code (url q) = Some True" | "\<not> headerOnly q" "bodyless_code (url q) = Some False"
    by (cases "bodyless_code (url q)") auto
  then show ?thesis
    using s assms chunk_body_no_len [OF assms(1), of a] by cases (auto simp: parse_body_def)
qed

lemma parse_chunks:
  "no_len p = no_len q \<Longrightarrow> seenHeaders p \<Longrightarrow> getChunks p \<Longrightarrow> result (parse p a) = result (parse q a)"
proof (induction a arbitrary: p q rule: length_induct)
  case (1 a)
  note s = no_len_body [OF "1.prems"(1)]
  show ?case
  proof (cases "a = []")
    case True
    then show ?thesis using s "1.prems"(1) by simp
  next
    case False
    consider "parse_body p a = None \<and> parse_body q a = None"
      | x p' q' b' where "parse_body p a = Some (x, p', b')" "parse_body q a = Some (x, q', b')"
          "no_len p' = no_len q'" "seenHeaders p'" "x = None \<longrightarrow> getChunks p'"
      using parse_body_chunks [OF "1.prems"(1,3), of a] "1.prems"(2) by blast
    then show ?thesis
    proof cases
      case 1
      then show ?thesis using False s "1.prems" by (simp add: parse_seen go_on_def)
    next
      case 2
      then show ?thesis using False s "1.prems" "1.IH" parse_body_shrinks [of p a p' b']
        by (cases x) (simp_all add: parse_seen go_on_def)
    qed
  qed
qed

lemma go_on_chunks:
  "no_len p = no_len q \<Longrightarrow> seenHeaders p \<Longrightarrow> getChunks p \<Longrightarrow>
     result (go_on (parse_body p a)) = result (go_on (parse_body q a))"
  using parse_body_chunks [of p q a] parse_chunks by (fastforce simp: go_on_def split: option.splits)

text \<open>The parser's counters are consistent: no callback is set, what is missing of a body of known length is
  below 2 to the power of 31.\<close>

definition ok :: "parser \<Rightarrow> bool" where
  "ok p \<longleftrightarrow> \<not> has_cb p \<and> \<not> possiblyComplete p \<and>
     (seenHeaders p \<and> knownLength p \<and> \<not> getChunks p \<longrightarrow>
        unat (currentLength p) \<le> unat (plength p) \<and> unat (plength p) < 2 ^ 31)"

definition known_end :: "parser \<Rightarrow> bytes \<Rightarrow> (bool option \<times> parser \<times> bytes) option" where
  "known_end p buf =
     (if hmethod p = str ''POST'' \<and> GetHeader p (str ''Content-Type'') = str ''application/x-www-form-urlencoded''
      then Some (Some True, p\<lparr>vars := parseVars_loop (body p) (str ''&'') True 0 (vars p)\<rparr>, buf)
      else Some (Some True, p, buf))"

definition missing :: "parser \<Rightarrow> nat" where
  "missing p = unat (plength p) - unat (currentLength p)"

definition fed :: "bytes \<Rightarrow> parser \<Rightarrow> parser" where
  "fed d p = p\<lparr>body := body p @ d, currentLength := currentLength p + of_nat (length d)\<rparr>"

lemma fed_Nil: "fed [] p = p"
  by (cases p) (simp add: fed_def)

lemma fed_fed: "fed b (fed a p) = fed (a @ b) p"
  by (cases p) (simp add: fed_def)

lemma known_body_ok:
  assumes "ok p" "seenHeaders p" "knownLength p" "\<not> getChunks p"
  shows "known_body p a =
    (if missing p \<le> length a then known_end (fed (take (missing p) a) p) (drop (missing p) a)
     else Some (Some False, fed a p, []))"
proof -
  have le: "unat (currentLength p) \<le> unat (plength p)" and small: "unat (plength p) < 2 ^ 31" and cb: "\<not> has_cb p"
    using assms by (simp_all add: ok_def)
  have sub: "unat (plength p - currentLength p) = missing p"
    using le by (simp add: missing_def unat_sub word_le_nat_alt)
  then have m: "unat (ucast (plength p - currentLength p) :: u32) = missing p"
    using small by (simp add: unsigned_ucast_eq take_bit_nat_eq_self missing_def)
  have eq: "plength p = currentLength p + of_nat n \<longleftrightarrow> n = missing p" if "n \<le> missing p" for n
  proof -
    have n: "unat (of_nat n :: u64) = n" using that small by (intro unat_small) (simp add: missing_def)
    then have "unat (currentLength p + of_nat n) = unat (currentLength p) + n"
      using that le small by (simp add: unat_word_ariths missing_def)
    then show ?thesis using le by (auto simp: word_unat_eq_iff missing_def)
  qed
  have v: "parseVars d st (str ''&'') True = Some (parseVars_loop d (str ''&'') True 0 st)" for d st
    by (simp add: parseVars_def str_def)
  show ?thesis
  proof (cases "missing p \<le> length a")
    case True
    define n where "n = missing p"
    have e: "plength p = currentLength p + of_nat n" using eq [of n] by (simp add: n_def)
    show ?thesis using True cb fed_Nil [of p]
      unfolding known_body_def m n_def [symmetric]
      by (cases "n = 0"; cases "hmethod p = str ''POST''") (simp_all add: e v known_end_def take_body_def fed_def min_def Let_def)
  next
    case False
    have e: "plength p \<noteq> currentLength p + of_nat (length a)" using eq [of "length a"] False by simp
    show ?thesis using False cb fed_Nil [of p] e
      unfolding known_body_def m
      by (cases "a = []") (simp_all add: take_body_def fed_def min_def Let_def)
  qed
qed

lemma missing_fed:
  assumes "ok p" "seenHeaders p" "knownLength p" "\<not> getChunks p" "length a < missing p"
  shows "missing (fed a p) = missing p - length a" "ok (fed a p)"
proof -
  have le: "unat (currentLength p) \<le> unat (plength p)" and small: "unat (plength p) < 2 ^ 31"
    using assms by (simp_all add: ok_def)
  have n: "unat (of_nat (length a) :: u64) = length a" using assms(5) small by (intro unat_small) (simp add: missing_def)
  then have "unat (currentLength p + of_nat (length a)) = unat (currentLength p) + length a"
    using assms(5) le small by (simp add: unat_word_ariths missing_def)
  then show "missing (fed a p) = missing p - length a" "ok (fed a p)"
    using assms by (simp_all add: missing_def ok_def fed_def)
qed

definition appends :: "parser \<Rightarrow> bytes \<Rightarrow> bytes \<Rightarrow> bool" where
  "appends p a b \<longleftrightarrow>
     (case parse_body p a of
        None \<Rightarrow> parse_body p (a @ b) = None
      | Some (x, p1, a1) \<Rightarrow>
          if x = Some True then
            (if possiblyComplete p1 then \<exists>q c. parse_body p (a @ b) = Some (Some True, q, c) \<and> possiblyComplete q
             else \<exists>q. parse_body p (a @ b) = Some (Some True, q, a1 @ b) \<and> no_len q = no_len p1)
          else ok p1 \<and> seenHeaders p1 \<and> result (go_on (parse_body p (a @ b))) = result (parse p1 (a1 @ b)))"

lemma known_appends:
  assumes p: "ok p" "seenHeaders p" "knownLength p" "\<not> getChunks p" "\<not> headerOnly p" "bodyless_code (url p) = Some False"
  shows "appends p a b"
proof -
  have pb: "parse_body p x = known_body p x" for x using p by (simp add: parse_body_def)
  show ?thesis
  proof (cases "missing p \<le> length a")
    case True
    then show ?thesis using known_body_ok [OF p(1-4)] p(1)
      by (auto simp: appends_def pb known_end_def fed_def no_len_def ok_def)
  next
    case False
    let ?q = "fed a p"
    have q: "ok ?q" "missing ?q = missing p - length a" using missing_fed [OF p(1-4)] False by auto
    have f: "seenHeaders ?q" "knownLength ?q" "\<not> getChunks ?q" "\<not> headerOnly ?q" "bodyless_code (url ?q) = Some False"
      using p by (simp_all add: fed_def)
    have "known_body p (a @ b) = known_body ?q b"
    proof (cases "missing p \<le> length a + length b")
      case True
      then have "missing p - length a \<le> length b" by simp
      then show ?thesis using True False unfolding known_body_ok [OF p(1-4)] known_body_ok [OF q(1) f(1-3)] q(2)
        by (simp add: fed_fed)
    next
      case more: False
      then have "\<not> missing p - length a \<le> length b" using False by simp
      then show ?thesis using more False unfolding known_body_ok [OF p(1-4)] known_body_ok [OF q(1) f(1-3)] q(2)
        by (simp add: fed_fed)
    qed
    moreover have "go_on (known_body ?q b) = parse ?q b"
    proof (cases "b = []")
      case True
      then show ?thesis using known_body_ok [OF q(1) f(1-3), of "[]"] q False
        by (simp add: go_on_def fed_Nil ok_def)
    next
      case False
      then show ?thesis using f by (simp add: parse_seen parse_body_def)
    qed
    ultimately show ?thesis using known_body_ok [OF p(1-4)] False q f by (simp add: appends_def pb)
  qed
qed

definition chunk_data :: "nat \<Rightarrow> bytes \<Rightarrow> parser \<Rightarrow> parser" where
  "chunk_data len d p = p\<lparr>currentLength := currentLength p + of_nat len, body := body p @ d,
     doingChunk := doingChunk p - of_nat (length d)\<rparr>"

lemma chunk_body_data:
  assumes "doingChunk p \<noteq> 0" "\<not> has_cb p" "length a < 2 ^ 32"
  shows "chunk_body p a = (let n = min (length a) (unat (doingChunk p))
    in (if n = 0 then Some False else None, chunk_data (length a) (take n a) p, drop n a))"
  using assms by (cases p) (simp add: chunk_body_def chunk_data_def take_body_def unat_small Let_def min_def)

lemma no_len_chunk_data:
  "no_len (chunk_data x d p) = no_len (chunk_data y d p)"
  "no_len (chunk_data x (d @ e) p) = no_len (chunk_data y e (chunk_data z d p))"
  by (cases p; simp add: chunk_data_def no_len_def)+

lemma chunk_appends_data:
  assumes p: "ok p" "seenHeaders p" "getChunks p" "\<not> headerOnly p" "bodyless_code (url p) = Some False"
    and len: "length (a @ b) < 2 ^ 32" and doing: "doingChunk p \<noteq> 0"
  shows "appends p a b"
proof -
  let ?k = "unat (doingChunk p)" and ?n = "min (length a) (unat (doingChunk p))"
  let ?q = "chunk_data (length a) (take ?n a) p"
  have pb: "parse_body q x = Some (chunk_body q x)" if "headerOnly q = headerOnly p" "url q = url p" "getChunks q" for q x
    using that p by (simp add: parse_body_def)
  have k: "0 < ?k" using doing by (simp add: unat_gt_0)
  have cb: "\<not> has_cb p" using p by (simp add: ok_def)
  have q: "ok ?q" "seenHeaders ?q" "getChunks ?q" "headerOnly ?q = headerOnly p" "url ?q = url p" "\<not> has_cb ?q"
    "\<not> possiblyComplete ?q"
    using p by (simp_all add: chunk_data_def ok_def)
  have cl: "no_len ?q = no_len p" if "a = []"
    using that by (cases p) (simp add: chunk_data_def no_len_def)
  note one = chunk_body_data [OF doing cb]
  have "result (go_on (parse_body p (a @ b))) = result (parse ?q (drop ?n a @ b))"
  proof -
    consider "a = []" "b = []" | "a = []" "b \<noteq> []" | "a \<noteq> []" "?k \<le> length a" | "a \<noteq> []" "length a < ?k" "b = []"
      | "a \<noteq> []" "length a < ?k" "b \<noteq> []" by linarith
    then show ?thesis
    proof cases
      case 1
      then show ?thesis using q cl pb [of p "[]"] one [of "[]"] p
        by (simp add: go_on_def Let_def)
    next
      case 2
      then show ?thesis using q cl p go_on_chunks [of p ?q b] by (simp add: parse_seen)
    next
      case 3
      then have "min (length (a @ b)) ?k = ?k" by simp
      then have "parse_body p (a @ b) = Some (None, chunk_data (length (a @ b)) (take ?k a) p, drop ?k a @ b)"
        using pb [of p "a @ b"] one [of "a @ b"] p len k 3 by (simp add: Let_def)
      moreover have "?n = ?k" using 3 by simp
      moreover have "result (parse (chunk_data (length (a @ b)) (take ?k a) p) (drop ?k a @ b)) =
          result (parse (chunk_data (length a) (take ?k a) p) (drop ?k a @ b))"
        using p by (intro parse_chunks no_len_chunk_data) (simp_all add: chunk_data_def)
      ultimately show ?thesis by (simp add: go_on_def)
    next
      case 4
      then show ?thesis using pb [of p a] one [of a] p len by (simp add: go_on_def Let_def)
    next
      case 5
      let ?m = "min (length b) (?k - length a)"
      have d: "doingChunk ?q = doingChunk p - of_nat (length a)" "unat (doingChunk ?q) = ?k - length a"
        using 5 len unat_small(2) [of "length a"] by (simp_all add: chunk_data_def unat_sub word_le_nat_alt)
      have "doingChunk ?q \<noteq> 0" using d(2) 5 by auto
      then have two: "parse_body ?q b = Some (None, chunk_data (length b) (take ?m b) ?q, drop ?m b)"
        using chunk_body_data [of ?q b] q pb [of ?q b] len d 5 by (simp add: Let_def)
      have "min (length (a @ b)) ?k = length a + ?m" using 5 by simp
      then have "parse_body p (a @ b) = Some (None, chunk_data (length (a @ b)) (a @ take ?m b) p, drop ?m b)"
        using pb [of p "a @ b"] one [of "a @ b"] p len 5 by (simp add: Let_def)
      moreover have "result (parse (chunk_data (length (a @ b)) (a @ take ?m b) p) (drop ?m b)) =
          result (parse (chunk_data (length b) (take ?m b) (chunk_data (length a) a p)) (drop ?m b))"
        using p by (intro parse_chunks no_len_chunk_data) (simp_all add: chunk_data_def)
      ultimately show ?thesis using two 5 q by (simp add: go_on_def parse_seen)
    qed
  qed
  then show ?thesis using pb [of p a] one [of a] p q len by (simp add: appends_def Let_def)
qed

lemma chunk_appends_line:
  assumes p: "ok p" "seenHeaders p" "getChunks p" "\<not> headerOnly p" "bodyless_code (url p) = Some False"
    and doing: "doingChunk p = 0"
  shows "appends p a b"
proof -
  have pb: "parse_body p x = Some (chunk_body p x)" for x using p by (simp add: parse_body_def)
  show ?thesis
  proof (cases "next_line a")
    case None
    let ?q = "p\<lparr>currentLength := currentLength p + of_nat (length a)\<rparr>"
    have q: "no_len ?q = no_len p" "seenHeaders ?q" "getChunks ?q" "ok ?q"
      using p by (simp_all add: no_len_def ok_def)
    have "result (go_on (parse_body p (a @ b))) = result (parse ?q (a @ b))"
    proof (cases "a @ b = []")
      case True
      then show ?thesis using p doing None by (simp add: go_on_def pb chunk_body_def Let_def ok_def)
    next
      case False
      then show ?thesis using q p go_on_chunks [of p ?q "a @ b"] parse_seen [of ?q "a @ b"] by simp
    qed
    then show ?thesis using None doing q by (simp add: appends_def pb chunk_body_def Let_def)
  next
    case (Some la)
    obtain l a1 where la: "la = (l, a1)" by (cases la)
    then have ab: "next_line (a @ b) = Some (l, a1 @ b)" using Some next_line_append by simp
    show ?thesis
    proof (cases "l \<noteq> [] \<and> chunk_len l = 0")
      case True
      then show ?thesis using Some la ab doing p(1)
        by (simp add: appends_def pb chunk_body_def Let_def no_len_def ok_def)
    next
      case False
      define q where "q n = (let p = p\<lparr>currentLength := currentLength p + of_nat n\<rparr> in
        if l \<noteq> [] then p\<lparr>doingChunk := chunk_len l\<rparr> else p)" for n :: nat
      have q: "no_len (q m) = no_len (q n)" "seenHeaders (q n)" "getChunks (q n)" "ok (q n)" for m n
        using p by (simp_all add: q_def no_len_def ok_def Let_def)
      have "parse_body p a = Some (None, q (length a), a1)" "parse_body p (a @ b) = Some (None, q (length (a @ b)), a1 @ b)"
        using False Some la ab doing by (auto simp: pb chunk_body_def q_def Let_def)
      moreover have "result (parse (q (length (a @ b))) (a1 @ b)) = result (parse (q (length a)) (a1 @ b))"
        using q by (intro parse_chunks) simp_all
      ultimately show ?thesis using q by (simp add: appends_def go_on_def)
    qed
  qed
qed

lemma body_appends:
  assumes p: "ok p" "seenHeaders p" and len: "length (a @ b) < 2 ^ 32"
  shows "appends p a b"
proof -
  have cb: "\<not> possiblyComplete p" "\<not> has_cb p" using p by (simp_all add: ok_def)
  consider "headerOnly p" | "\<not> headerOnly p" "bodyless_code (url p) = None" | "\<not> headerOnly p" "bodyless_code (url p) = Some True"
    | "\<not> headerOnly p" "bodyless_code (url p) = Some False" "getChunks p"
    | "\<not> headerOnly p" "bodyless_code (url p) = Some False" "\<not> getChunks p" "knownLength p"
    | "\<not> headerOnly p" "bodyless_code (url p) = Some False" "\<not> getChunks p" "\<not> knownLength p"
    by (cases "bodyless_code (url p)") auto
  then show ?thesis
  proof cases
    case 4
    then show ?thesis using p len chunk_appends_line [of p a b] chunk_appends_data [of p a b] by blast
  next
    case 5
    then show ?thesis using p known_appends by blast
  next
    case 6
    then show ?thesis using cb by (simp add: appends_def parse_body_def rest_body_def Let_def)
  qed (use cb in \<open>simp_all add: appends_def parse_body_def\<close>)
qed

lemma parse_start_state:
  "parse_start l p = Some q \<Longrightarrow> seenHeaders q = seenHeaders p \<and> has_cb q = has_cb p \<and> possiblyComplete q = possiblyComplete p"
  by (auto simp: parse_start_def set_url_def Let_def split: option.splits if_splits Option.bind_splits)

lemma end_headers_ok:
  assumes "end_headers p = Some q" "\<not> has_cb p" "\<not> possiblyComplete p"
  shows "ok q"
proof -
  have small: "unat (of_int n :: u64) < 2 ^ 31"
    if "atoi v = Some n" "\<not> max_size < unat (of_int n :: u64)" for v n
  proof -
    have n: "- (2 ^ 31) \<le> n" "n < 2 ^ 31" using that(1) by (auto simp: atoi_def Let_def split: if_splits)
    have "0 \<le> n"
    proof (rule ccontr)
      assume "\<not> 0 \<le> n"
      have "uint (of_int n :: u64) = (n + 2 ^ 64) mod 2 ^ 64" by (simp add: uint_word_of_int_eq take_bit_eq_mod)
      also have "\<dots> = n + 2 ^ 64" using n \<open>\<not> 0 \<le> n\<close> by (intro mod_pos_pos_trivial) auto
      finally have "int max_size < int (unat (of_int n :: u64))" using n by (simp add: max_size_def)
      then have "max_size < unat (of_int n :: u64)" by (simp only: of_nat_less_iff)
      then show False using that(2) by simp
    qed
    then have "uint (of_int n :: u64) = n" using n by (simp add: uint_word_of_int_eq take_bit_int_eq_self)
    then show ?thesis using n by (simp add: nat_uint_eq [symmetric] nat_less_iff)
  qed
  show ?thesis using assms small
    by (auto simp: end_headers_def ok_def Let_def split: if_splits Option.bind_splits)
qed

lemma parse_line_ok: "ok p \<Longrightarrow> \<not> seenHeaders p \<Longrightarrow> parse_line l p = Some q \<Longrightarrow> ok q"
  using parse_start_state [of l p q] end_headers_ok [of p q]
  by (auto simp: parse_line_def parse_header_def SetHeader_def ok_def split: if_splits option.splits)

text \<open>What the result \<open>x\<close> on the first part of the input says of the result \<open>y\<close> on that part with \<open>b\<close> behind it.\<close>

definition agrees :: "bytes \<Rightarrow> (bool \<times> parser \<times> bytes) option \<Rightarrow> (bool \<times> parser \<times> bytes) option \<Rightarrow> bool" where
  "agrees b x y \<longleftrightarrow>
     (case x of
        None \<Rightarrow> y = None
      | Some (r, p1, a1) \<Rightarrow>
          if r then
            (if possiblyComplete p1 then \<exists>q c. y = Some (True, q, c) \<and> possiblyComplete q
             else \<exists>q. y = Some (True, q, a1 @ b) \<and> no_len q = no_len p1)
          else ok p1 \<and> result y = result (parse p1 (a1 @ b)))"

lemma agrees_result: "agrees b x y' \<Longrightarrow> result y = result y' \<Longrightarrow> agrees b x y"
proof -
  assume a: "agrees b x y'" and r: "result y = result y'"
  have t: "\<exists>q'. y = Some (True, q', c) \<and> no_len q' = no_len q" if "y' = Some (True, q, c)" for q c
    using r that result_Some [of y True "no_len q" c] by simp
  show ?thesis
  proof (cases x)
    case None
    then have "y' = None" using a by (simp add: agrees_def)
    then have "y = None" using r by (metis result_simps(1,3))
    then show ?thesis using None by (simp add: agrees_def)
  next
    case (Some z)
    obtain f p1 a1 where z: "z = (f, p1, a1)" by (cases z)
    consider "\<not> f" | "f" "possiblyComplete p1" | "f" "\<not> possiblyComplete p1" by blast
    then show ?thesis
    proof cases
      case 1
      then show ?thesis using a r Some z by (simp add: agrees_def)
    next
      case 2
      then obtain q c where q: "y' = Some (True, q, c)" "possiblyComplete q" using a Some z by (auto simp: agrees_def)
      then obtain q' where "y = Some (True, q', c)" "no_len q' = no_len q" using t by blast
      then show ?thesis using 2 Some z q(2) no_len_body [of q' q] by (simp add: agrees_def)
    next
      case 3
      then obtain q where q: "y' = Some (True, q, a1 @ b)" "no_len q = no_len p1" using a Some z by (auto simp: agrees_def)
      then obtain q' where "y = Some (True, q', a1 @ b)" "no_len q' = no_len q" using t by blast
      then show ?thesis using 3 Some z q(2) by (simp add: agrees_def)
    qed
  qed
qed

lemma parse_append: "ok p \<Longrightarrow> length (a @ b) < 2 ^ 32 \<Longrightarrow> agrees b (parse p a) (parse p (a @ b))"
proof (induction a arbitrary: p rule: length_induct)
  case (1 a)
  have body: "agrees b (go_on (parse_body q c)) (go_on (parse_body q (c @ b)))"
    if q: "ok q" "seenHeaders q" "length c \<le> length a" for q c
  proof -
    have ap: "appends q c b" using q "1.prems" by (intro body_appends) auto
    show ?thesis
    proof (cases "parse_body q c")
      case None
      then show ?thesis using ap by (simp add: appends_def agrees_def go_on_def)
    next
      case (Some z)
      obtain x p1 a1 where z: "z = (x, p1, a1)" by (cases z)
      show ?thesis
      proof (cases x)
        case None
        have ok: "ok p1" "result (go_on (parse_body q (c @ b))) = result (parse p1 (a1 @ b))"
          using ap Some z None by (simp_all add: appends_def)
        have "length a1 < length a" using parse_body_shrinks [of q c p1 a1] Some z None q(3) by simp
        then have "agrees b (parse p1 a1) (parse p1 (a1 @ b))" using "1.IH" "1.prems" ok(1) by simp
        then have "agrees b (parse p1 a1) (go_on (parse_body q (c @ b)))" using ok(2) by (rule agrees_result)
        then show ?thesis using Some z None by (simp add: go_on_def)
      next
        case (Some r)
        then show ?thesis using ap \<open>parse_body q c = Some z\<close> z
          by (cases r) (auto simp: appends_def agrees_def go_on_def split: if_splits)
      qed
    qed
  qed
  show ?case
  proof (cases "a = []")
    case True
    then show ?thesis using "1.prems" by (simp add: agrees_def ok_def)
  next
    case ne: False
    show ?thesis
    proof (cases "seenHeaders p")
      case True
      then show ?thesis using ne body [of p a] "1.prems" by (simp add: parse_seen)
    next
      case False
      show ?thesis
      proof (cases "next_line a")
        case None
        then show ?thesis using ne False "1.prems" parse_unseen [OF False, of a] by (simp add: agrees_def)
      next
        case (Some la)
        obtain l a1 where la: "la = (l, a1)" by (cases la)
        then have ab: "next_line (a @ b) = Some (l, a1 @ b)" using Some next_line_append by simp
        have short: "length a1 < length a" using Some la next_line_shrinks by simp
        show ?thesis
        proof (cases "parse_line l p")
          case None
          then show ?thesis using ne Some la ab by (simp add: parse_unseen [OF False] agrees_def)
        next
          case q: (Some q)
          have ok: "ok q" using parse_line_ok [OF "1.prems"(1) False q] .
          show ?thesis
          proof (cases "seenHeaders q")
            case True
            then show ?thesis using ne Some la ab q body [OF ok True, of a1] short
              by (simp add: parse_unseen [OF False])
          next
            case unseen: False
            have "agrees b (parse q a1) (parse q (a1 @ b))" using "1.IH" "1.prems" short ok by simp
            then show ?thesis using ne Some la ab q unseen by (simp add: parse_unseen [OF False])
          qed
        qed
      qed
    qed
  qed
qed

section \<open>Reading from a connection\<close>

text \<open>When \<open>Read\<close> waits for the end of a line.\<close>

definition wants_line :: "parser \<Rightarrow> bool" where
  "wants_line p \<longleftrightarrow> \<not> seenHeaders p \<or> getChunks p \<and> doingChunk p = 0"

lemma body_stops:
  assumes "ok p" "seenHeaders p" "length a < 2 ^ 32" "parse_body p a = Some (Some False, p1, a1)"
  shows "(a1 = [] \<or> a1 = a \<and> 0x0A \<notin> set a \<and> wants_line p1) \<and> (a1 = a \<longrightarrow> a \<noteq> [] \<longrightarrow> wants_line p)"
proof -
  have b: "\<not> headerOnly p" "bodyless_code (url p) = Some False"
    using assms(4) by (auto simp: parse_body_def split: if_splits Option.bind_splits)
  consider "getChunks p" "doingChunk p = 0" | "getChunks p" "doingChunk p \<noteq> 0" | "\<not> getChunks p" "knownLength p"
    | "\<not> getChunks p" "\<not> knownLength p" by blast
  then show ?thesis
  proof cases
    case 1
    then show ?thesis using assms b next_line_None [of a]
      by (auto simp: parse_body_def chunk_body_def wants_line_def Let_def split: option.splits if_splits)
  next
    case 2
    then have "0 < unat (doingChunk p)" by (simp add: unat_gt_0)
    then have "min (length a) (unat (doingChunk p)) = 0 \<Longrightarrow> a = []" by (auto simp: min_def split: if_splits)
    with 2 have "a = []" "a1 = []"
      using assms b chunk_body_data [OF 2(2), of a]
      by (auto simp: parse_body_def ok_def Let_def unat_gt_0 split: if_splits)
    then show ?thesis by simp
  next
    case 3
    then show ?thesis using assms b known_body_ok [of p a]
      by (auto simp: parse_body_def known_end_def split: if_splits)
  next
    case 4
    then show ?thesis using assms b by (auto simp: parse_body_def rest_body_def Let_def split: if_splits)
  qed
qed

lemma body_suffix:
  "parse_body p a = Some (x, p1, a1) \<Longrightarrow> \<exists>y. a = y @ a1"
proof -
  assume p: "parse_body p a = Some (x, p1, a1)"
  have d: "\<exists>y. a = y @ drop n a" for n by (rule exI [of _ "take n a"]) simp
  show ?thesis using p d next_line_suffix
    by (fastforce simp: parse_body_def known_body_def chunk_body_def rest_body_def Let_def
        split: if_splits Option.bind_splits option.splits)
qed

lemma parse_stops:
  "ok p \<Longrightarrow> length a < 2 ^ 32 \<Longrightarrow> parse p a = Some (False, p1, a1) \<Longrightarrow>
     (\<exists>y. a = y @ a1) \<and> (a1 \<noteq> [] \<longrightarrow> 0x0A \<notin> set a1 \<and> wants_line p1) \<and> (a1 = a \<longrightarrow> a \<noteq> [] \<longrightarrow> wants_line p)"
proof (induction a arbitrary: p rule: length_induct)
  case (1 a)
  have body: "(\<exists>y. c = y @ a1) \<and> (a1 \<noteq> [] \<longrightarrow> 0x0A \<notin> set a1 \<and> wants_line p1) \<and> (a1 = c \<longrightarrow> c \<noteq> [] \<longrightarrow> wants_line q)"
    if q: "ok q" "seenHeaders q" "length c \<le> length a" "go_on (parse_body q c) = Some (False, p1, a1)" for q c
  proof -
    have len: "length c < 2 ^ 32" using q "1.prems" by simp
    obtain x p2 a2 where pb: "parse_body q c = Some (x, p2, a2)"
      using q(4) by (auto simp: go_on_def split: option.splits)
    obtain y where y: "c = y @ a2" using body_suffix [OF pb] by blast
    show ?thesis
    proof (cases x)
      case None
      have short: "length a2 < length c" using parse_body_shrinks pb None by simp
      have "appends q c []" using q len by (intro body_appends) simp_all
      then have "ok p2" using pb None by (simp add: appends_def)
      moreover have "parse p2 a2 = Some (False, p1, a1)" using q(4) pb None by (simp add: go_on_def)
      ultimately have "(\<exists>y. a2 = y @ a1) \<and> (a1 \<noteq> [] \<longrightarrow> 0x0A \<notin> set a1 \<and> wants_line p1)"
        using "1.IH" [rule_format, of a2 p2] short q(3) "1.prems"(2) by auto
      then show ?thesis using y short by auto
    next
      case (Some r)
      then have "x = Some False" "p2 = p1" "a2 = a1" using q(4) pb by (auto simp: go_on_def)
      then show ?thesis using body_stops [OF q(1,2) len] pb y by auto
    qed
  qed
  show ?case
  proof (cases "a = []")
    case True
    then show ?thesis using "1.prems" by simp
  next
    case ne: False
    show ?thesis
    proof (cases "seenHeaders p")
      case True
      then show ?thesis using ne body [of p a] "1.prems" by (simp add: parse_seen)
    next
      case False
      show ?thesis
      proof (cases "next_line a")
        case None
        then show ?thesis using ne False "1.prems" parse_unseen [OF False, of a] next_line_None [of a]
          by (auto simp: wants_line_def)
      next
        case (Some la)
        obtain l c where la: "next_line a = Some (l, c)" using Some by (cases la) simp
        obtain y where y: "a = y @ c" "y \<noteq> []" using next_line_suffix [OF la] by blast
        obtain q where q: "parse_line l p = Some q"
          using "1.prems"(3) ne la by (auto simp: parse_unseen [OF False] split: option.splits)
        have "ok q" using parse_line_ok [OF "1.prems"(1) False q] .
        moreover have "(if seenHeaders q then go_on (parse_body q c) else parse q c) = Some (False, p1, a1)"
          using "1.prems"(3) ne la q by (simp add: parse_unseen [OF False])
        ultimately have "(\<exists>y. c = y @ a1) \<and> (a1 \<noteq> [] \<longrightarrow> 0x0A \<notin> set a1 \<and> wants_line p1)"
          using body [of q c] "1.IH" [rule_format, of c q] "1.prems"(2) y by (auto split: if_splits)
        then show ?thesis using y by auto
      qed
    qed
  qed
qed

text \<open>Strings that are lines or pieces of lines, the way \<open>Socket::Buffer\<close> cuts its input.\<close>

definition pieces :: "bytes list \<Rightarrow> bool" where
  "pieces cs \<longleftrightarrow> (\<forall>c \<in> set cs. 0x0A \<notin> set (butlast c)) \<and> (\<forall>c \<in> set (tl cs). c \<noteq> [])"

lemma join_line_pieces:
  "pieces (c # cs) \<Longrightarrow> c \<noteq> [] \<Longrightarrow> \<exists>full c' cs'. join_line p (c # cs) = Some (full, c' # cs') \<and>
     c' @ concat cs' = c @ concat cs \<and> pieces (c' # cs') \<and> c' \<noteq> [] \<and>
     (if full then wants_line p \<longrightarrow> last c' = 0x0A else cs' = [] \<and> wants_line p \<and> 0x0A \<notin> set c')"
proof (induction cs arbitrary: c)
  case Nil
  show ?case
  proof (cases "wants_line p \<and> last c \<noteq> 0x0A")
    case True
    then have "0x0A \<notin> set c" using Nil by (cases c rule: rev_cases) (auto simp: pieces_def)
    then show ?thesis using True Nil by (auto simp: wants_line_def)
  next
    case False
    then show ?thesis using Nil by (auto simp: wants_line_def)
  qed
next
  case (Cons d cs)
  show ?case
  proof (cases "wants_line p \<and> last c \<noteq> 0x0A")
    case True
    then have "0x0A \<notin> set c" using Cons.prems by (cases c rule: rev_cases) (auto simp: pieces_def)
    moreover have "d \<noteq> []" using Cons.prems by (simp add: pieces_def)
    ultimately have "pieces ((c @ d) # cs)" using Cons.prems by (auto simp: pieces_def butlast_append)
    then show ?thesis using Cons.IH [of "c @ d"] True Cons.prems \<open>d \<noteq> []\<close> by (simp add: wants_line_def)
  next
    case False
    then show ?thesis using Cons.prems by (auto simp: wants_line_def)
  qed
qed

text \<open>Once the headers are read, there is a body to wait for.\<close>

definition has_body :: "parser \<Rightarrow> bool" where
  "has_body p \<longleftrightarrow> (seenHeaders p \<longrightarrow> \<not> headerOnly p \<and> bodyless_code (url p) = Some False)"

lemma wants_line_waits:
  assumes "wants_line p" "0x0A \<notin> set c" "c \<noteq> []" "has_body p"
  shows "\<exists>p1. parse p c = Some (False, p1, c) \<and> no_len p1 = no_len p"
proof (cases "seenHeaders p")
  case False
  then show ?thesis using assms next_line_None [of c] parse_unseen [OF False, of c] by simp
next
  case True
  then show ?thesis using assms next_line_None [of c]
    by (auto simp: parse_seen go_on_def parse_body_def chunk_body_def no_len_def wants_line_def has_body_def Let_def)
qed

lemma body_has_body: "parse_body q c = Some (x, p1, a1) \<Longrightarrow> x \<noteq> Some True \<Longrightarrow> has_body p1"
  by (auto simp: parse_body_def known_body_def chunk_body_def rest_body_def take_body_def has_body_def Let_def
      split: if_splits Option.bind_splits option.splits)

lemma parse_has_body: "has_body p \<Longrightarrow> parse p a = Some (False, p1, a1) \<Longrightarrow> has_body p1"
proof (induction a arbitrary: p rule: length_induct)
  case (1 a)
  have body: "has_body p1" if q: "length c \<le> length a" "go_on (parse_body q c) = Some (False, p1, a1)" for q c
  proof -
    obtain x p2 a2 where pb: "parse_body q c = Some (x, p2, a2)"
      using q(2) by (auto simp: go_on_def split: option.splits)
    show ?thesis
    proof (cases x)
      case None
      then show ?thesis
        using parse_body_shrinks [of q c p2 a2] body_has_body [OF pb] "1.IH" [rule_format, of a2 p2] pb q
        by (auto simp: go_on_def)
    next
      case (Some r)
      then show ?thesis using body_has_body [OF pb] pb q(2) by (auto simp: go_on_def)
    qed
  qed
  show ?case
  proof (cases "a = [] \<or> seenHeaders p")
    case True
    then show ?thesis using body [of a p] "1.prems" by (cases "a = []") (auto simp: parse_seen)
  next
    case False
    then have u: "\<not> seenHeaders p" "a \<noteq> []" by auto
    show ?thesis
    proof (cases "next_line a")
      case None
      then show ?thesis using u "1.prems" by (simp add: parse_unseen)
    next
      case (Some la)
      obtain l c where la: "next_line a = Some (l, c)" using Some by (cases la) simp
      obtain q where "parse_line l p = Some q"
        "(if seenHeaders q then go_on (parse_body q c) else parse q c) = Some (False, p1, a1)"
        using "1.prems"(2) u la by (auto simp: parse_unseen split: option.splits)
      then show ?thesis using body [of c q] "1.IH" [rule_format, of c q] next_line_shrinks [OF la]
        by (auto simp: has_body_def split: if_splits)
    qed
  qed
qed

text \<open>\<open>Read\<close> on the strings \<open>cs\<close>, when \<open>b\<close> is still to come: it has the result of \<open>parse\<close> on all of it, or
  it stops where \<open>parse\<close> can go on.\<close>

lemma Read_loop_parse:
  "ok p \<Longrightarrow> has_body p \<Longrightarrow> pieces cs \<Longrightarrow> length (concat cs @ b) < 2 ^ 32 \<Longrightarrow>
     parse p (concat cs @ b) = Some (r, p', rest) \<Longrightarrow> \<not> possiblyComplete p' \<Longrightarrow>
     \<exists>f q cs'. Read_loop connected p cs = Some (Some (f, q, cs')) \<and>
       (if f then r \<and> no_len q = no_len p' \<and> concat cs' @ b = rest
        else ok q \<and> has_body q \<and> length (concat cs') \<le> length (concat cs) \<and> (cs' = [] \<or> (\<exists>c. cs' = [c] \<and> c \<noteq> [] \<and> 0x0A \<notin> set c \<and> wants_line q)) \<and>
          result (parse q (concat cs' @ b)) = Some (r, no_len p', rest))"
proof (induction "length (concat cs)" arbitrary: p p' cs rule: less_induct)
  case less
  note ok = less.prems(1)
  show ?case
  proof (cases "dropWhile (\<lambda>c. c = []) cs")
    case Nil
    then have e: "concat cs = []" by (metis concat_dropWhile_empty concat.simps(1))
    have "parse p b = Some (r, p', rest)" using less.prems(5) by (simp only: e append.simps)
    moreover have "Read_loop connected p cs = Some (Some (False, p, []))"
      by (simp add: Nil Read_loop.simps [of connected p cs])
    ultimately show ?thesis using ok less.prems(2)
      by (intro exI [of _ False] exI [of _ p] exI [of _ "[]"]) simp
  next
    case (Cons c ds)
    have c: "c \<noteq> []" using Cons hd_dropWhile [of "\<lambda>c. c = []" cs] by auto
    have cat: "concat cs = c @ concat ds" by (metis Cons concat_dropWhile_empty concat.simps(2))
    have pc: "pieces (c # ds)"
    proof -
      obtain n where "c # ds = drop n cs" using Cons by (metis dropWhile_eq_drop)
      then show ?thesis using less.prems(3) unfolding pieces_def
        by (metis in_set_dropD tl_drop)
    qed
    obtain full c' ds' where j: "join_line p (c # ds) = Some (full, c' # ds')"
      "c' @ concat ds' = concat cs" "pieces (c' # ds')" "c' \<noteq> []"
      "if full then wants_line p \<longrightarrow> last c' = 0x0A else ds' = [] \<and> wants_line p \<and> 0x0A \<notin> set c'"
      using join_line_pieces [OF pc c, of p] cat by auto
    show ?thesis
    proof (cases full)
      case False
      then have "Read_loop connected p cs = Some (Some (False, p, [c']))" "concat cs = c'" "0x0A \<notin> set c'" "wants_line p"
        using j by (simp_all add: Cons Read_loop.simps [of connected p cs])
      then show ?thesis using ok less.prems(2,5) j(4) by auto
    next
      case True
      have ag: "agrees (concat ds' @ b) (parse p c') (Some (r, p', rest))"
        using parse_append [OF ok, of c' "concat ds' @ b"] less.prems(4,5) by (simp flip: j(2))
      show ?thesis
      proof (cases "parse p c'")
        case None
        then show ?thesis using ag by (simp add: agrees_def)
      next
        case (Some z)
        obtain f p1 a1 where z: "parse p c' = Some (f, p1, a1)" using Some by (cases z) simp
        show ?thesis
        proof (cases f)
          case True
          then have "\<not> possiblyComplete p1" "r" "rest = a1 @ concat ds' @ b" "no_len p' = no_len p1"
            using ag z less.prems(6) by (auto simp: agrees_def split: if_splits)
          moreover from this have "Read_loop connected p cs = Some (Some (True, p1, a1 # ds'))"
            using True \<open>full\<close> j(1) z by (simp add: Cons read_ok_def Read_loop.simps [of connected p cs] del: join_line.simps)
          ultimately show ?thesis by (intro exI [of _ True] exI [of _ p1] exI [of _ "a1 # ds'"]) simp
        next
          case False
          then have p1: "ok p1" "result (parse p1 (a1 @ concat ds' @ b)) = Some (r, no_len p', rest)"
            using ag z by (simp_all add: agrees_def)
          then obtain p2 where p2: "parse p1 (concat (a1 # ds') @ b) = Some (r, p2, rest)" "no_len p2 = no_len p'"
            by (auto simp: result_Some)
          have len': "length c' < 2 ^ 32" using less.prems(4) by (simp flip: j(2))
          have st: "(\<exists>y. c' = y @ a1)" "a1 \<noteq> [] \<longrightarrow> 0x0A \<notin> set a1" "a1 = c' \<longrightarrow> wants_line p"
            using parse_stops [OF ok len', of p1 a1] z False j(4) by simp_all
          have "a1 \<noteq> c'" using st(2,3) j(4,5) \<open>full\<close> last_in_set by metis
          then have short: "length a1 < length c'" using st(1) by (cases "length a1 = length c'") auto
          have "pieces (a1 # ds')" using j(3) st(2) by (auto simp: pieces_def dest: in_set_butlastD)
          moreover have "length (concat (a1 # ds')) < length (concat cs)" using short by (simp flip: j(2))
          moreover have "has_body p1" using parse_has_body [OF less.prems(2), of c' p1 a1] z False by simp
          moreover have "\<not> possiblyComplete p2" using p2(2) no_len_body less.prems(6) by blast
          moreover have "length (concat (a1 # ds') @ b) < 2 ^ 32" using short less.prems(4) by (simp flip: j(2))
          ultimately have "\<exists>f q cs'. Read_loop connected p1 (a1 # ds') = Some (Some (f, q, cs')) \<and>
             (if f then r \<and> no_len q = no_len p2 \<and> concat cs' @ b = rest
              else ok q \<and> has_body q \<and> length (concat cs') \<le> length (concat (a1 # ds')) \<and> (cs' = [] \<or> (\<exists>c. cs' = [c] \<and> c \<noteq> [] \<and> 0x0A \<notin> set c \<and> wants_line q)) \<and>
                result (parse q (concat cs' @ b)) = Some (r, no_len p2, rest))"
            using p1(1) p2(1) by (intro less.hyps) simp_all
          moreover have "Read_loop connected p cs = Read_loop connected p1 (a1 # ds')"
            using False \<open>full\<close> j z by (subst Read_loop.simps) (simp add: Cons read_ok_def)
          ultimately obtain f q cs' where "Read_loop connected p cs = Some (Some (f, q, cs'))"
             "if f then r \<and> no_len q = no_len p2 \<and> concat cs' @ b = rest
              else ok q \<and> has_body q \<and> length (concat cs') \<le> length (concat (a1 # ds')) \<and> (cs' = [] \<or> (\<exists>c. cs' = [c] \<and> c \<noteq> [] \<and> 0x0A \<notin> set c \<and> wants_line q)) \<and>
                result (parse q (concat cs' @ b)) = Some (r, no_len p2, rest)" by auto
          then show ?thesis using p2(2) \<open>length (concat (a1 # ds')) < length (concat cs)\<close>
            by (intro exI [of _ f] exI [of _ q] exI [of _ cs']) (cases f; simp)
        qed
      qed
    qed
  qed
qed

section \<open>However the bytes come in\<close>

text \<open>What a server does: it adds what comes in to the buffer and calls \<open>Read\<close>, until that returns true.\<close>

fun serve :: "bool \<Rightarrow> parser \<Rightarrow> sbuf \<Rightarrow> bytes list \<Rightarrow> (bool \<times> parser \<times> sbuf \<times> bytes list) option option" where
  "serve connected p b [] = Some (Some (False, p, b, []))"
| "serve connected p b (d # ds) =
     (case Read_conn connected p (sb_append b d) of
        None \<Rightarrow> None
      | Some None \<Rightarrow> Some None
      | Some (Some (r, p, b)) \<Rightarrow> if r then Some (Some (True, p, b, ds)) else serve connected p b ds)"

lemma append_loop_nonempty: "[] \<notin> set cs \<Longrightarrow> [] \<notin> set (append_loop spl nd i cs)"
proof (induction spl nd i cs rule: append_loop.induct)
  case (1 spl nd i cs)
  show ?case
  proof (cases "i < length nd \<and> block_len spl nd i \<noteq> 0")
    case True
    then have "[] \<notin> set (take (block_len spl nd i) (drop i nd) # cs)" using "1.prems" by auto
    then have "[] \<notin> set (append_loop spl nd (i + block_len spl nd i) (take (block_len spl nd i) (drop i nd) # cs))"
      using True by (intro "1.IH") simp_all
    then show ?thesis using True by (subst append_loop.simps) (simp add: Let_def)
  next
    case False
    then show ?thesis using "1.prems" by (subst append_loop.simps) (auto simp: Let_def)
  qed
qed

definition waiting :: "parser \<Rightarrow> sbuf \<Rightarrow> bool" where
  "waiting p b \<longleftrightarrow> ok p \<and> has_body p \<and> splitter b = [0x0A] \<and>
     (chunks b = [] \<or> (\<exists>c. chunks b = [c] \<and> c \<noteq> [] \<and> 0x0A \<notin> set c \<and> wants_line p))"

lemma waiting_parse:
  assumes "waiting p b"
  shows "\<exists>p1. parse p (sb_abs b) = Some (False, p1, sb_abs b) \<and> no_len p1 = no_len p"
  using assms wants_line_waits [of p] by (auto simp: waiting_def sb_abs_def ok_def)

lemma waiting_pieces:
  assumes "waiting p b"
  shows "pieces (rev (chunks (sb_append b d)))" "[] \<notin> set (chunks (sb_append b d))"
    "concat (rev (chunks (sb_append b d))) = sb_abs b @ d" "splitter (sb_append b d) = [0x0A]"
proof -
  have "framed 0x0A b" using assms by (auto simp: framed_def waiting_def dest: in_set_butlastD)
  then have f: "framed 0x0A (sb_append b d)" by (rule framed_append)
  have ne: "[] \<notin> set (chunks b)" using assms by (auto simp: waiting_def)
  show n: "[] \<notin> set (chunks (sb_append b d))"
    using append_loop_nonempty [OF ne] by (simp add: sb_append_def)
  have "c \<noteq> []" if "c \<in> set (tl (rev (chunks (sb_append b d))))" for c
    using that n by (metis list.set_sel(2) list.sel(2) set_rev)
  then show "pieces (rev (chunks (sb_append b d)))" using f by (auto simp: pieces_def framed_def)
  show "concat (rev (chunks (sb_append b d))) = sb_abs b @ d"
    by (simp add: sb_append_def append_loop_abs sb_abs_def)
  show "splitter (sb_append b d) = [0x0A]" using f by (simp add: framed_def)
qed

lemma pop_nonempty: "[] \<notin> set cs \<Longrightarrow> pop_empty cs = cs"
  by (cases cs rule: rev_cases) (auto simp: pop_empty_def)

lemma Read_conn_parse:
  assumes w: "waiting p b" and len: "length (sb_abs b @ d @ e) < 2 ^ 32"
    and run: "parse p (sb_abs b @ d @ e) = Some (r, p', rest)" "\<not> possiblyComplete p'"
  shows "\<exists>f q b'. Read_conn connected p (sb_append b d) = Some (Some (f, q, b')) \<and>
    (if f then r \<and> no_len q = no_len p' \<and> sb_abs b' @ e = rest
     else waiting q b' \<and> length (sb_abs b') \<le> length (sb_abs b @ d) \<and>
       result (parse q (sb_abs b' @ e)) = Some (r, no_len p', rest))"
proof -
  let ?b = "sb_append b d"
  note b = waiting_pieces [OF w, of d]
  have p: "ok p" "has_body p" "\<not> possiblyComplete p" using w by (simp_all add: waiting_def ok_def)
  have size: "chunks (snd (sb_size ?b)) = chunks ?b" "snd (sb_size ?b) = ?b"
    using pop_nonempty [OF b(2)] by (simp_all add: sb_size_def Let_def)
  show ?thesis
  proof (cases "chunks ?b = []")
    case True
    then have "sb_abs b @ d = []" using b(3) by simp
    then have e: "sb_abs b = []" "d = []" by simp_all
    have "Read_conn connected p ?b = Some (Some (False, p, ?b\<lparr>chunks := []\<rparr>))"
      using True p size by (simp add: Read_conn_def read_ok_def)
    moreover have "waiting p (?b\<lparr>chunks := []\<rparr>)" "sb_abs (?b\<lparr>chunks := []\<rparr>) = []"
      using p b(4) by (simp_all add: waiting_def sb_abs_def)
    moreover have "parse p e = Some (r, p', rest)" using run(1) by (simp only: e append.simps)
    ultimately show ?thesis by (intro exI [of _ False] exI [of _ p] exI [of _ "?b\<lparr>chunks := []\<rparr>"]) simp
  next
    case False
    then obtain x xs where cs: "rev (chunks ?b) = x # xs" by (cases "rev (chunks ?b)") auto
    have "\<exists>f q cs'. Read_loop connected p (rev (chunks ?b)) = Some (Some (f, q, cs')) \<and>
       (if f then r \<and> no_len q = no_len p' \<and> concat cs' @ e = rest
        else ok q \<and> has_body q \<and> length (concat cs') \<le> length (sb_abs b @ d) \<and> (cs' = [] \<or> (\<exists>c. cs' = [c] \<and> c \<noteq> [] \<and> 0x0A \<notin> set c \<and> wants_line q)) \<and>
          result (parse q (concat cs' @ e)) = Some (r, no_len p', rest))"
      unfolding b(3) [symmetric] by (rule Read_loop_parse) (use p b run len in simp_all)
    then obtain f q cs' where "Read_loop connected p (rev (chunks ?b)) = Some (Some (f, q, cs'))"
      "if f then r \<and> no_len q = no_len p' \<and> concat cs' @ e = rest
       else ok q \<and> has_body q \<and> length (concat cs') \<le> length (sb_abs b @ d) \<and> (cs' = [] \<or> (\<exists>c. cs' = [c] \<and> c \<noteq> [] \<and> 0x0A \<notin> set c \<and> wants_line q)) \<and>
         result (parse q (concat cs' @ e)) = Some (r, no_len p', rest)" by blast
    moreover from this have "Read_conn connected p ?b = Some (Some (f, q, ?b\<lparr>chunks := rev cs'\<rparr>))"
      using cs size by (simp add: Read_conn_def)
    ultimately show ?thesis using b(4) by (auto simp: waiting_def sb_abs_def split: if_splits)
  qed
qed

lemma serve_parse:
  "waiting p b \<Longrightarrow> length (sb_abs b @ concat ds) < 2 ^ 32 \<Longrightarrow>
     parse p (sb_abs b @ concat ds) = Some (r, p', rest) \<Longrightarrow> \<not> possiblyComplete p' \<Longrightarrow>
     \<exists>q b' ds'. serve connected p b ds = Some (Some (r, q, b', ds')) \<and> no_len q = no_len p' \<and>
       sb_abs b' @ concat ds' = rest"
proof (induction ds arbitrary: p b p')
  case Nil
  then show ?case using waiting_parse [of p b] by auto
next
  case (Cons d ds)
  obtain f q b' where r: "Read_conn connected p (sb_append b d) = Some (Some (f, q, b'))"
    "if f then r \<and> no_len q = no_len p' \<and> sb_abs b' @ concat ds = rest
     else waiting q b' \<and> length (sb_abs b') \<le> length (sb_abs b @ d) \<and>
       result (parse q (sb_abs b' @ concat ds)) = Some (r, no_len p', rest)"
    using Read_conn_parse [of p b d "concat ds" r p' rest connected] Cons.prems by auto
  show ?case
  proof (cases f)
    case True
    then show ?thesis using r by auto
  next
    case False
    then obtain p2 where p2: "parse q (sb_abs b' @ concat ds) = Some (r, p2, rest)" "no_len p2 = no_len p'"
      using r by (auto simp: result_Some)
    moreover have "\<not> possiblyComplete p2" using p2(2) no_len_body Cons.prems(4) by blast
    moreover have "length (sb_abs b' @ concat ds) < 2 ^ 32" using r(2) False Cons.prems(2) by simp
    ultimately show ?thesis using Cons.IH [of q b' p2] r False by simp
  qed
qed

end
