(* ===== verification/HttpChunks.thy ===== *)
theory HttpChunks
  imports HttpProps
begin

text \<open>
  A response that \<open>StartResponse\<close> begins and \<open>Chunkify\<close> continues (\<open>lib/http_parser.cpp\<close>,
  \<open>Connection::SendNow\<close> of \<open>lib/socket.cpp\<close>) is read back by \<open>Parser::Read\<close>; the properties of the HTTP parser.
\<close>

section \<open>A chunked response is read back\<close>

lemma or_low_nibble:
  fixes n :: u32
  assumes "unat v < 16"
  shows "push_bit 4 n OR ucast (v :: byte) = 16 * n + ucast v"
proof -
  have low: "\<not> bit v k" if "4 \<le> k" for k
  proof -
    have "unat (drop_bit 4 v) = 0" using assms by (subst unat_drop_bit_eq) (simp add: drop_bit_eq_div)
    then have "\<not> bit (drop_bit 4 v) (k - 4)" by (simp add: unat_eq_zero)
    then show ?thesis using that by (simp add: bit_drop_bit_eq)
  qed
  have "push_bit 4 n + ucast v = push_bit 4 n OR ucast v"
    by (rule disjunctive_add) (use low in \<open>auto simp: bit_simps\<close>)
  then show ?thesis by (simp add: push_bit_eq_mult mult.commute)
qed

lemma chunk_len_snoc: "unat v < 16 \<Longrightarrow> chunk_len (ds @ [hex_digit v]) = 16 * chunk_len ds + ucast v"
  by (simp add: chunk_len_def Hex_ord_digit or_low_nibble)

lemma hex_digit_plain_line: "unat v < 16 \<Longrightarrow> plain_line [hex_digit v]"
  using hex_digit_plain [of v] by (auto simp: url_plain_def byte_simps)

lemma len_chars_read:
  "t < 16 ^ off \<Longrightarrow> \<exists>ds. len_chars off t acc = Some (ds @ acc) \<and> chunk_len ds = of_nat t \<and> plain_line ds \<and>
     (t \<noteq> 0 \<longrightarrow> ds \<noteq> [])"
proof (induction off t acc rule: len_chars.induct)
  case (1 off t acc)
  show ?case
  proof (cases "t = 0")
    case True
    then show ?thesis by (subst len_chars.simps) (simp add: chunk_len_def)
  next
    case False
    then have off: "off \<noteq> 0" using "1.prems" by (cases off) auto
    let ?v = "of_nat (t mod 16) :: byte"
    have v: "unat ?v = t mod 16" by (simp add: unat_of_nat)
    then have small: "unat ?v < 16" by simp
    have "t div 16 < 16 ^ (off - 1)" using "1.prems" off by (cases off) (auto simp: less_mult_imp_div_less)
    then obtain ds where ds: "len_chars (off - 1) (t div 16) (hex_digit ?v # acc) = Some (ds @ hex_digit ?v # acc)"
      "chunk_len ds = of_nat (t div 16)" "plain_line ds"
      using "1.IH" [OF False off] by blast
    have "chunk_len (ds @ [hex_digit ?v]) = 16 * of_nat (t div 16) + ucast ?v"
      using chunk_len_snoc [OF small] ds(2) by simp
    also have "ucast ?v = (of_nat (t mod 16) :: u32)" by (simp add: unsigned_of_nat take_bit_nat_eq_self)
    also have "16 * of_nat (t div 16) + (of_nat (t mod 16) :: u32) = of_nat (16 * (t div 16) + t mod 16)"
      by (simp only: of_nat_add of_nat_mult of_nat_numeral)
    finally have "chunk_len (ds @ [hex_digit ?v]) = of_nat t" by (simp only: mult_div_mod_eq)
    moreover have "len_chars off t acc = Some ((ds @ [hex_digit ?v]) @ acc)"
      using False off ds(1) by (subst len_chars.simps) simp
    moreover have "plain_line (ds @ [hex_digit ?v])" using ds(3) hex_digit_plain_line [OF small] by simp
    ultimately show ?thesis by blast
  qed
qed

definition chunk_text :: "bytes \<Rightarrow> bytes" where
  "chunk_text d = the (len_chars 8 (length d) []) @ crlf @ d @ crlf"

definition last_chunk :: bytes where
  "last_chunk = str ''0'' @ crlf @ crlf"

definition in_chunks :: "parser \<Rightarrow> bool" where
  "in_chunks p \<longleftrightarrow> seenHeaders p \<and> getChunks p \<and> doingChunk p = 0 \<and> \<not> headerOnly p \<and> \<not> has_cb p \<and>
     bodyless_code (url p) = Some False"

lemma in_chunks_body: "in_chunks p \<Longrightarrow> a \<noteq> [] \<Longrightarrow> parse p a = go_on (Some (chunk_body p a))"
  by (simp add: in_chunks_def parse_seen parse_body_def)

lemma in_chunks_line:
  assumes "in_chunks p" "plain_line l" "l = [] \<or> chunk_len l \<noteq> 0"
  shows "result (parse p (l @ crlf @ Y)) = result (parse (if l \<noteq> [] then p\<lparr>doingChunk := chunk_len l\<rparr> else p) Y)"
proof -
  let ?q = "p\<lparr>currentLength := currentLength p + of_nat (length (l @ crlf @ Y))\<rparr>"
  have "parse p (l @ crlf @ Y) = parse (if l \<noteq> [] then ?q\<lparr>doingChunk := chunk_len l\<rparr> else ?q) Y"
    using assms next_line_crlf [OF assms(2), of Y]
    by (subst in_chunks_body) (auto simp: crlf_def go_on_def chunk_body_def in_chunks_def Let_def)
  moreover have "result (parse (if l \<noteq> [] then ?q\<lparr>doingChunk := chunk_len l\<rparr> else ?q) Y) =
      result (parse (if l \<noteq> [] then p\<lparr>doingChunk := chunk_len l\<rparr> else p) Y)"
    using assms(1) by (intro parse_chunks) (simp_all add: in_chunks_def no_len_def)
  ultimately show ?thesis by simp
qed

lemma in_chunks_data:
  assumes p: "in_chunks p" and d: "d \<noteq> []" "length (d @ Y) < 2 ^ 32" and n: "n = (of_nat (length d) :: u32)"
  shows "result (parse (p\<lparr>doingChunk := n\<rparr>) (d @ Y)) = result (parse (p\<lparr>body := body p @ d\<rparr>) Y)"
proof -
  let ?p = "p\<lparr>doingChunk := n\<rparr>"
  have u: "unat n = length d" using d(2) n unat_small(2) [of "length d"] by simp
  then have n0: "doingChunk ?p \<noteq> 0" using d(1) by auto
  have "parse_body ?p (d @ Y) = Some (chunk_body ?p (d @ Y))"
    using p by (simp add: in_chunks_def parse_body_def)
  also have "\<dots> = Some (None, chunk_data (length (d @ Y)) d ?p, Y)"
    using chunk_body_data [OF n0, of "d @ Y"] p d u by (simp add: in_chunks_def Let_def)
  finally have "parse ?p (d @ Y) = parse (chunk_data (length (d @ Y)) d ?p) Y"
    using p d(1) by (simp add: parse_seen in_chunks_def go_on_def)
  moreover have "result (parse (chunk_data (length (d @ Y)) d ?p) Y) = result (parse (p\<lparr>body := body p @ d\<rparr>) Y)"
    using p n by (intro parse_chunks) (simp_all add: in_chunks_def chunk_data_def no_len_def)
  ultimately show ?thesis by simp
qed

lemma in_chunks_chunk:
  assumes p: "in_chunks p" and d: "d \<noteq> []" "length (chunk_text d @ Y) < 2 ^ 32"
  shows "result (parse p (chunk_text d @ Y)) = result (parse (p\<lparr>body := body p @ d\<rparr>) Y)"
proof -
  have len: "length d < 2 ^ 32" using d(2) by (simp add: chunk_text_def)
  then obtain l where l: "len_chars 8 (length d) [] = Some l" "chunk_len l = of_nat (length d)" "plain_line l" "l \<noteq> []"
    using len_chars_read [of "length d" 8 "[]"] d(1) by auto
  have "unat (of_nat (length d) :: u32) = length d" using len by (rule unat_small)
  then have "(of_nat (length d) :: u32) \<noteq> 0" using d(1) by auto
  then have "result (parse p (l @ crlf @ d @ crlf @ Y)) = result (parse (p\<lparr>doingChunk := of_nat (length d)\<rparr>) (d @ crlf @ Y))"
    using in_chunks_line [OF p l(3), of "d @ crlf @ Y"] l by simp
  also have "\<dots> = result (parse (p\<lparr>body := body p @ d\<rparr>) (crlf @ Y))"
    using d by (intro in_chunks_data [OF p]) (simp_all add: chunk_text_def)
  also have "\<dots> = result (parse (p\<lparr>body := body p @ d\<rparr>) Y)"
    using in_chunks_line [of "p\<lparr>body := body p @ d\<rparr>" "[]" Y] p by (simp add: in_chunks_def)
  finally show ?thesis by (simp add: chunk_text_def l(1))
qed

lemma in_chunks_end:
  assumes "in_chunks p"
  shows "result (parse p (last_chunk @ rest)) = Some (True, no_len (p\<lparr>getChunks := False\<rparr>), last_chunk @ rest)"
proof -
  have "next_line (last_chunk @ rest) = Some (str ''0'', crlf @ rest)"
    using next_line_crlf [of "str ''0''" "crlf @ rest"] by (simp add: last_chunk_def str_def)
  moreover have "chunk_len (str ''0'') = 0" by (simp add: chunk_len_def str_def Hex_ord_def)
  ultimately show ?thesis using assms
    by (subst in_chunks_body) (simp_all add: in_chunks_def last_chunk_def str_def go_on_def chunk_body_def no_len_def Let_def)
qed

lemma in_chunks_all:
  "in_chunks p \<Longrightarrow> [] \<notin> set ds \<Longrightarrow> length (concat (map chunk_text ds) @ last_chunk @ rest) < 2 ^ 32 \<Longrightarrow>
     result (parse p (concat (map chunk_text ds) @ last_chunk @ rest)) =
       Some (True, no_len (p\<lparr>body := body p @ concat ds, getChunks := False\<rparr>), last_chunk @ rest)"
proof (induction ds arbitrary: p)
  case Nil
  have "p\<lparr>body := body p, getChunks := False\<rparr> = p\<lparr>getChunks := False\<rparr>" by (cases p) simp
  then show ?case using in_chunks_end [OF Nil(1), of rest] by simp
next
  case (Cons d ds)
  have "result (parse p (chunk_text d @ concat (map chunk_text ds) @ last_chunk @ rest)) =
      result (parse (p\<lparr>body := body p @ d\<rparr>) (concat (map chunk_text ds) @ last_chunk @ rest))"
    using Cons.prems by (intro in_chunks_chunk) auto
  then show ?case using Cons.IH [of "p\<lparr>body := body p @ d\<rparr>"] Cons.prems by (simp add: in_chunks_def)
qed

text \<open>The last chunk stays in the buffer; the parser of the next message passes over it.\<close>

lemma last_chunk_skipped: "parse (Clean p) (last_chunk @ rest) = parse (Clean p) rest"
proof -
  have start: "parse_start l (Clean p) = Some (Clean p)" if "0x20 \<notin> set l" for l
    using that by (simp add: parse_start_def find_chr_None [THEN iffD2] Clean_def CleanPreserveHeaders_def Let_def)
  have "\<not> seenReq (Clean p)" by (simp add: Clean_def CleanPreserveHeaders_def)
  then have "parse_line (str ''0'') (Clean p) = Some (Clean p)" "parse_line [] (Clean p) = Some (Clean p)"
    using start [of "str ''0''"] start [of "[]"] by (simp_all add: parse_line_def str_def)
  moreover have "\<not> seenHeaders (Clean p)" by (simp add: Clean_def CleanPreserveHeaders_def)
  ultimately show ?thesis
    using parse_line_next [of "Clean p" "str ''0''" "Clean p" "crlf @ rest"] parse_line_next [of "Clean p" "[]" "Clean p" rest]
    by (simp add: last_chunk_def str_def)
qed

section \<open>A response is written in chunks\<close>

definition respond :: "bytes \<Rightarrow> bytes \<Rightarrow> parser \<Rightarrow> bytes list \<Rightarrow> parser \<Rightarrow> conn \<Rightarrow> (parser \<times> conn) option" where
  "respond code message request parts p c = do {
     s \<leftarrow> StartResponse code message request False p c;
     (p, c) \<leftarrow> foldl (\<lambda>s d. do { (p, c) \<leftarrow> s; Chunkify (Some d) p c }) (Some s) parts;
     Chunkify None p c }"

lemma SendNow_plain: "\<not> chunkedMode c \<Longrightarrow> \<not> closed c \<Longrightarrow> SendNow (Some d) c = Some (c\<lparr>sent := sent c @ d\<rparr>)"
  by (simp add: SendNow_def send_def)

lemma send_headers_plain:
  "\<not> chunkedMode c \<Longrightarrow> \<not> closed c \<Longrightarrow> send_headers hs c = Some (c\<lparr>sent := sent c @ header_lines hs\<rparr>)"
proof (induction hs arbitrary: c)
  case Nil
  then show ?case by (simp add: send_headers_def header_lines_def)
next
  case (Cons h hs)
  then show ?case
    using Cons.IH [of "c\<lparr>sent := sent c @ header_line h\<rparr>"] Cons.IH [of c]
    by (auto simp: send_headers_def header_lines_def SendNow_plain header_line_def)
qed

definition sending :: "parser \<Rightarrow> bool" where
  "sending p \<longleftrightarrow> sendingChunks p \<and> \<not> bufferChunks p \<and> responseBodyAllowed p"

lemma Chunkify_part:
  assumes "sending p" "\<not> closed c" "d \<noteq> []" "length d < 2 ^ 32"
  shows "Chunkify (Some d) p c = Some (p, c\<lparr>sent := sent c @ chunk_text d, chunkedMode := True\<rparr>)"
  using assms len_chars_read [of "length d" 8 "[]"]
  by (auto simp: Chunkify_def SendNow_def send_def sending_def chunk_text_def)

lemma Chunkify_end:
  "sending p \<Longrightarrow> \<not> closed c \<Longrightarrow>
     Chunkify None p c = Some (Clean p, c\<lparr>sent := sent c @ last_chunk, chunkedMode := False\<rparr>)"
  by (simp add: Chunkify_def SendNow_def send_def sending_def last_chunk_def)

lemma Chunkify_parts:
  "sending p \<Longrightarrow> \<not> closed c \<Longrightarrow> [] \<notin> set ds \<Longrightarrow> length (concat ds) < 2 ^ 32 \<Longrightarrow>
     \<exists>m. foldl (\<lambda>s d. do { (p, c) \<leftarrow> s; Chunkify (Some d) p c }) (Some (p, c)) ds =
       Some (p, c\<lparr>sent := sent c @ concat (map chunk_text ds), chunkedMode := m\<rparr>)"
proof (induction ds arbitrary: c)
  case Nil
  have "c\<lparr>sent := sent c, chunkedMode := chunkedMode c\<rparr> = c" by (cases c) simp
  then show ?case by (intro exI [of _ "chunkedMode c"]) simp
next
  case (Cons d ds)
  have "Chunkify (Some d) p c = Some (p, c\<lparr>sent := sent c @ chunk_text d, chunkedMode := True\<rparr>)"
    using Cons.prems by (intro Chunkify_part) auto
  then show ?case using Cons.IH [of "c\<lparr>sent := sent c @ chunk_text d, chunkedMode := True\<rparr>"] Cons.prems by simp
qed

definition chunked_headers :: "smap \<Rightarrow> smap" where
  "chunked_headers m = mput (str ''Transfer-Encoding'') (str ''chunked'') m"

definition response_ok :: "nat \<Rightarrow> bytes \<Rightarrow> parser \<Rightarrow> parser \<Rightarrow> bool" where
  "response_ok n message request p \<longleftrightarrow>
     200 \<le> n \<and> n < 1000 \<and> n \<noteq> 204 \<and> n \<noteq> 304 \<and> plain_line message \<and>
     proto request = str ''HTTP/1.1'' \<and> hmethod request \<noteq> str ''HEAD'' \<and> hmethod request \<noteq> str ''CONNECT'' \<and>
     \<not> strcasecmp_eq (GetHeader request (str ''Connection'')) (str ''close'') \<and>
     \<not> strcasecmp_eq (GetHeader p (str ''Connection'')) (str ''close'') \<and>
     headers_ok (headers p) \<and> find_header (headers p) (str ''Content-Length'') = None"

lemma no_length_chunked:
  assumes "find_header m (str ''Content-Length'') = None"
  shows "find_header (chunked_headers m) (str ''Content-Length'') = None"
proof -
  have "\<not> same_name_nocase (str ''Content-Length'') h" if "h \<in> set (chunked_headers m)" for h
  proof -
    have "\<forall>h \<in> set m. \<not> same_name_nocase (str ''Content-Length'') h"
      using assms by (auto simp: find_header_def find_None_iff simp del: split_paired_Ex split_paired_All split: option.splits)
    moreover have "\<not> same_name_nocase (str ''Content-Length'') (str ''Transfer-Encoding'', str ''chunked'')"
      by (simp add: same_name_nocase_def str_def)
    ultimately show ?thesis using that mput_entries [of "str ''Transfer-Encoding''" "str ''chunked''" m]
      by (auto simp: chunked_headers_def simp del: split_paired_Ex split_paired_All)
  qed
  then have "find (same_name_nocase (str ''Content-Length'')) (chunked_headers m) = None"
    by (simp add: find_None_iff)
  moreover have "map_of (chunked_headers m) (str ''Content-Length'') = None"
    using assms by (auto simp: chunked_headers_def map_of_mput find_header_def str_def split: option.splits)
  ultimately show ?thesis by (simp add: find_header_def)
qed

lemma chunked_headers_ok: "headers_ok m \<Longrightarrow> headers_ok (chunked_headers m)"
proof -
  assume m: "headers_ok m"
  have "header_ok (str ''Transfer-Encoding'', str ''chunked'')"
    by (simp add: header_ok_def plain_line_def Trim_def is_blank_def str_def)
  then show ?thesis using m mput_entries [of "str ''Transfer-Encoding''" "str ''chunked''" m]
    by (auto simp: headers_ok_def chunked_headers_def is_map_mput)
qed

lemma strtoul32_to_dec: "n < 2 ^ 32 \<Longrightarrow> strtoul32 (to_dec n) = of_nat n"
proof -
  assume n: "n < 2 ^ 32"
  obtain c cs where d: "to_dec n = c # cs" using to_dec_ne by (cases "to_dec n") auto
  have a: "list_all is_digit (c # cs)" using to_dec_digits [of n] d by simp
  then have "\<not> is_space c" "c \<noteq> 43" "c \<noteq> 45" using digit_not_space [of c] by simp_all
  moreover have "takeWhile is_digit (c # cs) = c # cs" using a by (intro takeWhile_eq_all_conv [THEN iffD2]) (simp add: list_all_iff)
  moreover have "dec_val (c # cs) = n" using dec_val_to_dec [of n] d by simp
  ultimately show ?thesis using n by (simp add: strtoul32_def d Let_def)
qed

definition response_head :: "nat \<Rightarrow> bytes \<Rightarrow> smap \<Rightarrow> bytes" where
  "response_head n message m = str ''HTTP/1.1 '' @ to_dec n @ str '' '' @ message @ crlf @ header_lines (chunked_headers m) @ crlf"

definition started :: "nat \<Rightarrow> bytes \<Rightarrow> parser \<Rightarrow> parser" where
  "started n message p = (CleanPreserveHeaders p)\<lparr>sendingChunks := True, responseKeepAlive := True,
     responseBodyAllowed := True, responseContentLengthAllowed := True, url := to_dec n, hmethod := message,
     proto := str ''HTTP/1.1'', headers := chunked_headers (headers p)\<rparr>"

lemma StartResponse_chunked:
  assumes ok: "response_ok n message request p" and c: "\<not> chunkedMode c" "\<not> closed c"
  shows "StartResponse (to_dec n) message request False p c =
    Some (started n message p, c\<lparr>sent := sent c @ response_head n message (headers p)\<rparr>)"
proof -
  have n: "200 \<le> n" "n < 1000" "n \<noteq> 204" "n \<noteq> 304" using ok by (simp_all add: response_ok_def)
  define st :: u32 where "st = of_nat n"
  have status: "strtoul32 (to_dec n) = st" using n by (simp add: strtoul32_to_dec st_def)
  have u: "unat st = n" using n by (simp add: st_def unat_of_nat)
  have nobody: "\<not> (100 \<le> st \<and> st < 200 \<or> st = 204 \<or> st = 304)"
    using u n by (auto simp: word_le_nat_alt word_less_nat_alt word_unat_eq_iff)
  have cl: "map_of (chunked_headers (headers p)) (str ''Content-Length'') = None"
    using no_length_chunked [of "headers p"] ok by (auto simp: response_ok_def find_header_def split: option.splits)
  have te: "SetHeader (str ''Transfer-Encoding'') (str ''chunked'') x = x\<lparr>headers := chunked_headers (headers x)\<rparr>" for x
    by (simp add: SetHeader_def Trim_def is_blank_def str_def chunked_headers_def)
  have sent: "SendResponse (to_dec n) message (started n message p) c =
      Some (started n message p, c\<lparr>sent := sent c @ response_head n message (headers p)\<rparr>)"
  proof -
    have "fix_protocol (started n message p) = started n message p"
      by (simp add: fix_protocol_def started_def str_def byte_simps)
    moreover have "body (started n message p) = []" "headers (started n message p) = chunked_headers (headers p)"
      "proto (started n message p) = str ''HTTP/1.1''"
      by (simp_all add: started_def CleanPreserveHeaders_def)
    ultimately show ?thesis
      using c by (simp add: SendResponse_def SendNow_plain send_headers_plain status_line_def response_head_def str_def)
  qed
  have "started n message p = (CleanPreserveHeaders p)\<lparr>sendingChunks := True, responseKeepAlive := True,
       responseBodyAllowed := True, responseContentLengthAllowed := True, url := to_dec n, hmethod := message,
       proto := str ''HTTP/1.1'', headers := chunked_headers (headers p), bufferChunks := False\<rparr>"
    by (simp add: started_def CleanPreserveHeaders_def)
  moreover have "headers (CleanPreserveHeaders p) = headers p" by (simp add: CleanPreserveHeaders_def)
  moreover have "proto request = str ''HTTP/1.1''" "hmethod request \<noteq> str ''HEAD''" "hmethod request \<noteq> str ''CONNECT''"
    "\<not> strcasecmp_eq (GetHeader request (str ''Connection'')) (str ''close'')"
    "\<not> strcasecmp_eq (GetHeader p (str ''Connection'')) (str ''close'')"
    using ok by (simp_all add: response_ok_def)
  ultimately show ?thesis
    using nobody sent cl by (simp add: StartResponse_def status te Let_def)
qed

lemma respond_sent:
  assumes ok: "response_ok n message request p" and c: "\<not> chunkedMode c" "\<not> closed c"
    and parts: "[] \<notin> set parts" "length (concat parts) < 2 ^ 32"
  shows "respond (to_dec n) message request parts p c = Some (Clean p, c\<lparr>sent := sent c @
    response_head n message (headers p) @ concat (map chunk_text parts) @ last_chunk, chunkedMode := False\<rparr>)"
proof -
  let ?c = "c\<lparr>sent := sent c @ response_head n message (headers p)\<rparr>"
  have s: "sending (started n message p)" by (simp add: sending_def started_def CleanPreserveHeaders_def)
  obtain m where m: "foldl (\<lambda>s d. do { (p, c) \<leftarrow> s; Chunkify (Some d) p c }) (Some (started n message p, ?c)) parts =
      Some (started n message p, ?c\<lparr>sent := sent ?c @ concat (map chunk_text parts), chunkedMode := m\<rparr>)"
    using Chunkify_parts [OF s, of ?c parts] c parts by auto
  let ?d = "?c\<lparr>sent := sent ?c @ concat (map chunk_text parts), chunkedMode := m\<rparr>"
  have "Chunkify None (started n message p) ?d =
      Some (Clean (started n message p), ?d\<lparr>sent := sent ?d @ last_chunk, chunkedMode := False\<rparr>)"
    using s c by (intro Chunkify_end) simp_all
  moreover have "Clean (started n message p) = Clean p"
    by (simp add: started_def Clean_def CleanPreserveHeaders_def)
  ultimately show ?thesis unfolding respond_def StartResponse_chunked [OF ok c] by (simp add: m)
qed

lemma URL_decode_plain: "0x25 \<notin> set s \<Longrightarrow> URL_decode s False = s"
  by (induction s) auto

lemma digits_free: "c \<in> {0x20, 0x25, 0x3F} \<Longrightarrow> c \<notin> set (to_dec n)"
proof -
  assume "c \<in> {0x20, 0x25, 0x3F}"
  then have "\<not> is_digit c" by (auto simp: is_digit_def)
  then show ?thesis using to_dec_digits [of n] by (auto simp: list_all_iff)
qed

text \<open>The first line and the headers of the response.\<close>

lemma parse_response_start:
  assumes "\<not> seenReq q"
  shows "parse_line (str ''HTTP/1.1'' @ 0x20 # to_dec n @ 0x20 # message) q =
    Some (q\<lparr>seenReq := True, proto := str ''HTTP/1.1'', hmethod := message, url := to_dec n\<rparr>)"
proof -
  have "find_chr (to_dec n) 0x3F 0 = None" using digits_free [of "0x3F" n] by (simp add: find_chr_None)
  then have "set_url (to_dec n) x = Some (x\<lparr>url := to_dec n\<rparr>)" for x
    using digits_free [of "0x25" n] by (simp add: set_url_def URL_decode_plain)
  moreover have "find_chr (str ''HTTP/1.1'' @ 0x20 # l) 0x20 0 = Some 8" for l
    using find_chr_append [of "0x20" "str ''HTTP/1.1''" l] by (simp add: str_def byte_simps)
  moreover have "find_chr (to_dec n @ 0x20 # message) 0x20 0 = Some (length (to_dec n))"
    using digits_free [of "0x20" n] by (intro find_chr_append) simp
  moreover have "take 4 (str ''HTTP/1.1'' @ l) = str ''HTTP''" "take 8 (str ''HTTP/1.1'' @ l) = str ''HTTP/1.1''"
     "drop 9 (str ''HTTP/1.1'' @ 0x20 # l) = l" for l
    by (simp_all add: str_def)
  ultimately show ?thesis using assms by (simp add: parse_line_def parse_start_def Let_def)
qed

definition client_chunks :: "nat \<Rightarrow> bytes \<Rightarrow> smap \<Rightarrow> parser \<Rightarrow> parser" where
  "client_chunks n message m q = (Clean q)\<lparr>seenReq := True, proto := str ''HTTP/1.1'', hmethod := message, url := to_dec n,
     headers := chunked_headers m, seenHeaders := True, currentLength := 0, body := [], knownLength := False, plength := 0,
     getChunks := True, doingChunk := 0\<rparr>"

lemma response_head_read:
  assumes m: "headers_ok m" "find_header m (str ''Content-Length'') = None" and msg: "plain_line message" and r: "rest \<noteq> []"
  shows "parse (Clean q) (response_head n message m @ rest) = parse (client_chunks n message m q) rest"
proof -
  let ?l = "str ''HTTP/1.1'' @ 0x20 # to_dec n @ 0x20 # message"
  define q1 where "q1 = (Clean q)\<lparr>seenReq := True, proto := str ''HTTP/1.1'', hmethod := message, url := to_dec n\<rparr>"
  define q2 where "q2 = q1\<lparr>headers := chunked_headers m\<rparr>"
  have hs: "headers_ok (chunked_headers m)" using m(1) by (rule chunked_headers_ok)
  have clean: "\<not> seenHeaders (Clean q)" "\<not> seenReq (Clean q)" "headers (Clean q) = []"
    by (simp_all add: Clean_def CleanPreserveHeaders_def)
  have "response_head n message m @ rest = ?l @ crlf @ header_lines (chunked_headers m) @ crlf @ rest"
    by (simp add: response_head_def str_def)
  moreover have "plain_line ?l"
    using msg to_dec_digits [of n] by (auto simp: plain_line_def str_def list_all_iff is_digit_def)
  ultimately have "parse (Clean q) (response_head n message m @ rest) =
      parse q1 (header_lines (chunked_headers m) @ crlf @ rest)"
    using parse_response_start [OF clean(2), of n message] parse_line_next [OF clean(1), of ?l q1 "header_lines (chunked_headers m) @ crlf @ rest"]
      clean by (simp add: q1_def)
  also have "\<dots> = parse q2 (crlf @ rest)"
    using hs foldl_mput [of "[]" "chunked_headers m"] parse_headers [of q1 "chunked_headers m"] clean
    by (simp add: headers_ok_def q2_def q1_def)
  also have "\<dots> = go_on (parse_body (client_chunks n message m q) rest)"
  proof -
    have "find_header (chunked_headers m) (str ''Transfer-Encoding'') = Some (str ''chunked'')"
      by (simp add: find_header_def chunked_headers_def map_of_mput)
    then have "end_headers q2 = Some (client_chunks n message m q)"
      using no_length_chunked [OF m(2)]
      by (simp add: end_headers_def GetHeader_def q2_def q1_def client_chunks_def)
    then show ?thesis using parse_empty_line [of q2 "client_chunks n message m q" rest] clean
      by (simp add: q2_def q1_def go_on_def)
  qed
  also have "\<dots> = parse (client_chunks n message m q) rest"
    using r by (simp add: parse_seen client_chunks_def)
  finally show ?thesis .
qed

lemma client_chunks_in: "\<not> headerOnly q \<Longrightarrow> \<not> has_cb q \<Longrightarrow> 200 \<le> n \<Longrightarrow> n < 1000 \<Longrightarrow> n \<noteq> 204 \<Longrightarrow> n \<noteq> 304 \<Longrightarrow>
    in_chunks (client_chunks n message m q)"
proof -
  assume a: "\<not> headerOnly q" "\<not> has_cb q" "200 \<le> n" "n < 1000" "n \<noteq> 204" "n \<noteq> 304"
  have "bodyless_code (to_dec n) = Some False"
    using a atoi_to_dec [of n] by (simp add: bodyless_code_def)
  then show ?thesis using a by (simp add: in_chunks_def client_chunks_def Clean_def CleanPreserveHeaders_def)
qed

lemma response_read:
  assumes ok: "response_ok n message request p" and c: "\<not> chunkedMode c" "\<not> closed c"
    and parts: "[] \<notin> set parts" "length (concat (map chunk_text parts) @ last_chunk @ rest) < 2 ^ 32"
    and q: "\<not> headerOnly q" "\<not> has_cb q"
  shows "\<exists>c' d q'. respond (to_dec n) message request parts p c = Some (Clean p, c') \<and> sent c' = sent c @ d \<and>
    Read (Clean q) (d @ rest) = Some (True, q', last_chunk @ rest) \<and>
    url q' = to_dec n \<and> hmethod q' = message \<and> headers q' = chunked_headers (headers p) \<and> body q' = concat parts \<and>
    Read (Clean q') (last_chunk @ rest) = Read (Clean q') rest"
proof -
  have n: "200 \<le> n" "n < 1000" "n \<noteq> 204" "n \<noteq> 304" "headers_ok (headers p)"
    "find_header (headers p) (str ''Content-Length'') = None" "plain_line message"
    using ok by (simp_all add: response_ok_def)
  let ?d = "response_head n message (headers p) @ concat (map chunk_text parts) @ last_chunk"
  let ?q = "client_chunks n message (headers p) q"
  have "length (concat ds) \<le> length (concat (map chunk_text ds))" for ds
    by (induction ds) (simp_all add: chunk_text_def)
  from this [of parts] have "length (concat parts) < 2 ^ 32" using parts(2) by simp
  then have "respond (to_dec n) message request parts p c = Some (Clean p, c\<lparr>sent := sent c @ ?d, chunkedMode := False\<rparr>)"
    using respond_sent [OF ok c parts(1)] by simp
  moreover have "parse (Clean q) (?d @ rest) = parse ?q (concat (map chunk_text parts) @ last_chunk @ rest)"
    using response_head_read [OF n(5,6,7), of "concat (map chunk_text parts) @ last_chunk @ rest" q n]
    by (simp add: last_chunk_def crlf_def)
  moreover have "result (parse ?q (concat (map chunk_text parts) @ last_chunk @ rest)) =
      Some (True, no_len (?q\<lparr>body := body ?q @ concat parts, getChunks := False\<rparr>), last_chunk @ rest)"
    using client_chunks_in [OF q n(1-4)] parts by (rule in_chunks_all)
  ultimately obtain q' where q': "Read (Clean q) (?d @ rest) = Some (True, q', last_chunk @ rest)"
    "no_len q' = no_len (?q\<lparr>body := body ?q @ concat parts, getChunks := False\<rparr>)"
    by (auto simp: Read_def result_Some)
  have "url q' = url (no_len q') \<and> hmethod q' = hmethod (no_len q') \<and> headers q' = headers (no_len q') \<and> body q' = body (no_len q')"
    by (simp add: no_len_def)
  then have "url q' = to_dec n \<and> hmethod q' = message \<and> headers q' = chunked_headers (headers p) \<and> body q' = concat parts"
    unfolding q'(2) by (simp add: no_len_def client_chunks_def)
  then show ?thesis using q' last_chunk_skipped [of q' rest]
    \<open>respond (to_dec n) message request parts p c = _\<close>
    by (intro exI [of _ "c\<lparr>sent := sent c @ ?d, chunkedMode := False\<rparr>"] exI [of _ ?d] exI [of _ q']) (simp add: Read_def)
qed

section \<open>Properties\<close>

text \<open>C6: A request that \<open>BuildRequest\<close> writes is read by \<open>Read\<close> as the request it was: method, path, protocol,
  headers, variables and body are those of the sender, and what follows the request is left in the
  buffer. The path must not contain a question mark or start with a digit (it would be taken for the code of a
  response), and the length header must be that of the body, as \<open>SetBody\<close> sets it.\<close>

theorem BuildRequest_Read:
  assumes "request_ok p" "\<not> headerOnly q" "\<not> has_cb q"
  shows "\<exists>q'. Read (Clean q) (fst (BuildRequest p) @ rest) = Some (True, q', rest) \<and>
    hmethod q' = hmethod p \<and> url q' = url p \<and> proto q' = proto p \<and> headers q' = headers p \<and>
    vars q' = vars p \<and> body q' = body p"
  using request_read [OF assms, of rest] by blast

definition sample_request :: parser where
  "sample_request = SetBody (str ''hello'') ((Parser [] 0)\<lparr>hmethod := str ''PUT'', url := str ''/a b'',
     vars := [(str ''k'', str ''v&w'')], headers := [(str ''Accept'', str ''*/*'')]\<rparr>)"

lemma sample_request_ok: "request_ok sample_request"
  by (simp add: sample_request_def request_ok_def method_ok_def headers_ok_def header_ok_def vars_ok_def is_map_def
      plain_line_def Trim_def is_blank_def is_digit_def GetHeader_def find_header_def same_name_nocase_def
      SetBody_def SetHeader_int_def Parser_def Clean_def CleanPreserveHeaders_def to_dec.simps str_def)

lemma length_URL_encode: "length (URL_encode s ign q) \<le> 3 * length s"
  by (induction s) (auto simp: URL_encode_def url_chr_def Hex_chr_def)

lemma sample_request_length: "length (fst (BuildRequest sample_request)) < 200"
proof -
  have t: "target_text sample_request = URL_encode (str ''/a b'') (str ''/:=@[]'') False @ 0x3F # var_text (str ''k'', str ''v&w'')"
    using argStr_text [of "(str ''k'', str ''v&w'')" "[]" True]
    by (simp add: target_text_def sample_request_def SetBody_def SetHeader_int_def str_def)
  have "length (target_text sample_request) \<le> 30"
    using length_URL_encode [of "str ''/a b''" "str ''/:=@[]''" False] length_URL_encode [of "str ''k''" "[]" False]
      length_URL_encode [of "str ''v&w''" "[]" False]
    by (simp add: t var_text_def)
  then show ?thesis
    using request_line_text [OF sample_request_ok] sample_request_ok
    by (simp add: BuildRequest_def fix_protocol_def request_ok_def Let_def, simp add: sample_request_def
      SetBody_def SetHeader_int_def Parser_def Clean_def CleanPreserveHeaders_def Trim_def is_blank_def to_dec.simps
      header_lines_def header_line_def crlf_def str_def)
qed

theorem BuildRequest_Read_witness:
  "\<exists>q'. Read (Clean (Parser [] 0)) (fst (BuildRequest sample_request) @ str ''GET'') = Some (True, q', str ''GET'') \<and>
    hmethod q' = hmethod sample_request \<and> url q' = url sample_request \<and> proto q' = proto sample_request \<and>
    headers q' = headers sample_request \<and> vars q' = vars sample_request \<and> body q' = body sample_request"
  by (rule BuildRequest_Read [OF sample_request_ok]) (simp_all add: Parser_def Clean_def CleanPreserveHeaders_def)

text \<open>C15: A response that is begun by \<open>StartResponse\<close> on a connection that stays open, and written by one call of
  \<open>Chunkify\<close> for each part and one for the end, is read by \<open>Read\<close> as one response: its code, its message, its
  headers with the transfer encoding added, and as its body all the parts. \<open>Read\<close> leaves the last chunk in
  the buffer, and the parser of the next message passes over it.\<close>

theorem StartResponse_Read:
  assumes "response_ok n message request p" "\<not> chunkedMode c" "\<not> closed c"
    and "[] \<notin> set parts" "length (concat (map chunk_text parts) @ last_chunk @ rest) < 2 ^ 32"
    and "\<not> headerOnly q" "\<not> has_cb q"
  shows "\<exists>c' d q'. respond (to_dec n) message request parts p c = Some (Clean p, c') \<and> sent c' = sent c @ d \<and>
    Read (Clean q) (d @ rest) = Some (True, q', last_chunk @ rest) \<and>
    url q' = to_dec n \<and> hmethod q' = message \<and> headers q' = chunked_headers (headers p) \<and> body q' = concat parts \<and>
    Read (Clean q') (last_chunk @ rest) = Read (Clean q') rest"
  by (rule response_read [OF assms])

lemma sample_response_ok: "response_ok 200 (str ''OK'') (Parser [] 0) ((Parser [] 0)\<lparr>headers := [(str ''Server'', str ''Mist'')]\<rparr>)"
  by (simp add: response_ok_def headers_ok_def header_ok_def is_map_def strcasecmp_eq_def
      plain_line_def Trim_def is_blank_def GetHeader_def find_header_def same_name_nocase_def
      Parser_def Clean_def CleanPreserveHeaders_def str_def)

theorem StartResponse_Read_witness:
  "\<exists>c' d q'. respond (to_dec 200) (str ''OK'') (Parser [] 0) [str ''Hello'', str '' world''] ((Parser [] 0)\<lparr>headers := [(str ''Server'', str ''Mist'')]\<rparr>)
      \<lparr>sent = [], chunkedMode = False, closed = False\<rparr> = Some (Clean ((Parser [] 0)\<lparr>headers := [(str ''Server'', str ''Mist'')]\<rparr>), c') \<and>
    sent c' = [] @ d \<and> Read (Clean (Parser [] 0)) (d @ []) = Some (True, q', last_chunk @ []) \<and>
    url q' = to_dec 200 \<and> hmethod q' = str ''OK'' \<and> headers q' = chunked_headers [(str ''Server'', str ''Mist'')] \<and>
    body q' = concat [str ''Hello'', str '' world''] \<and> Read (Clean q') (last_chunk @ []) = Read (Clean q') []"
  using StartResponse_Read [OF sample_response_ok, of "\<lparr>sent = [], chunkedMode = False, closed = False\<rparr>" "[str ''Hello'', str '' world'']" "[]" "Parser [] 0"]
  by (simp add: Parser_def Clean_def CleanPreserveHeaders_def chunk_text_def crlf_def last_chunk_def str_def len_chars.simps)

text \<open>C2: However a message is cut into pieces as it comes in, \<open>Read\<close> on the buffer of the connection ends with the
  result that it has on a string with the whole message: the same parser (but for the counter
  \<open>currentLength\<close>) and the same data left over, or false when the message is not complete. This does not
  cover messages whose end is that of the connection.\<close>

theorem Read_in_pieces:
  assumes "\<not> has_cb p" "length (concat ds) < 2 ^ 32"
    and "Read (Clean p) (concat ds) = Some (r, p', rest)" "\<not> possiblyComplete p'"
  shows "\<exists>q b ds'. serve connected (Clean p) sb_new ds = Some (Some (r, q, b, ds')) \<and>
    q\<lparr>currentLength := 0\<rparr> = p'\<lparr>currentLength := 0\<rparr> \<and> sb_abs b @ concat ds' = rest"
proof -
  have "waiting (Clean p) sb_new"
    using assms(1) by (simp add: waiting_def sb_new_def ok_def has_body_def Clean_def CleanPreserveHeaders_def)
  from serve_parse [OF this, of ds r p' rest connected] assms show ?thesis
    by (simp add: sb_new_def sb_abs_def Read_def no_len_def)
qed

definition sample_pieces :: "bytes list" where
  "sample_pieces = (let r = fst (BuildRequest sample_request) in [take 5 r, drop 5 r])"

theorem Read_in_pieces_witness:
  "\<exists>p' q b ds'. Read (Clean (Parser [] 0)) (concat sample_pieces) = Some (True, p', []) \<and>
    serve True (Clean (Parser [] 0)) sb_new sample_pieces = Some (Some (True, q, b, ds')) \<and>
    q\<lparr>currentLength := 0\<rparr> = p'\<lparr>currentLength := 0\<rparr> \<and> sb_abs b @ concat ds' = []"
proof -
  have cb: "\<not> headerOnly (Parser [] 0)" "\<not> has_cb (Parser [] 0)"
    by (simp_all add: Parser_def Clean_def CleanPreserveHeaders_def)
  have c: "concat sample_pieces = fst (BuildRequest sample_request)" by (simp add: sample_pieces_def Let_def)
  obtain p' where p': "Read (Clean (Parser [] 0)) (concat sample_pieces) = Some (True, p', [])" "\<not> possiblyComplete p'"
    using request_read [OF sample_request_ok cb, of "[]"] c by auto
  moreover have "length (concat sample_pieces) < 2 ^ 32"
    unfolding c using sample_request_length by (rule less_trans) simp
  ultimately show ?thesis using Read_in_pieces cb by blast
qed

text \<open>The variables that \<open>argStr\<close> writes after the question mark are read back by \<open>parseVars\<close>, whatever bytes are in
  their names and values, if no name is empty.\<close>

theorem parseVars_allVars:
  assumes "is_map (vars p)" "\<forall>h \<in> set (vars p). fst h \<noteq> []"
  shows "parseVars (drop 1 (allVars p)) [] (str ''&'') True = Some (vars p)"
proof (cases "vars p")
  case Nil
  then show ?thesis by (simp add: allVars_def argStr_def parseVars_def parseVars_loop.simps)
next
  case (Cons h m)
  then have "drop 1 (allVars p) = argStr (vars p) False"
    using argStr_text [of h m] assms(2) by (simp add: allVars_def)
  then show ?thesis using parseVars_argStr [OF assms] by simp
qed

theorem parseVars_allVars_witness:
  "parseVars (drop 1 (allVars ((Parser [] 0)\<lparr>vars := [(str ''a'', str ''&=''), (str ''b'', [])]\<rparr>))) [] (str ''&'') True =
   Some [(str ''a'', str ''&=''), (str ''b'', [])]"
  using parseVars_allVars [of "(Parser [] 0)\<lparr>vars := [(str ''a'', str ''&=''), (str ''b'', [])]\<rparr>"]
  by (simp add: is_map_def str_def)

text \<open>A negative length header makes the parser throw at the end of the headers: the length becomes a number of 64
  bits, above what a string can reserve.\<close>

theorem negative_length_throws:
  assumes "\<not> seenHeaders p" "seenReq p" "\<not> has_cb p"
    and "atoi (GetHeader p (str ''Content-Length'')) = Some n" "n < 0"
  shows "Read p (crlf @ rest) = None"
proof -
  have n: "- (2 ^ 31) \<le> n" using assms(4) by (auto simp: atoi_def Let_def split: if_splits)
  have "GetHeader p (str ''Content-Length'') \<noteq> []" using assms(4,5) by (auto simp: atoi_def dec_val_def)
  moreover have "max_size < unat (of_int n :: u64)"
  proof -
    have "uint (of_int n :: u64) = n mod 2 ^ 64" by (simp only: uint_word_of_int) simp
    also have "\<dots> = (n + 2 ^ 64) mod 2 ^ 64" by simp
    also have "\<dots> = n + 2 ^ 64" using n assms(5) by (intro mod_pos_pos_trivial) simp_all
    finally have "uint (of_int n :: u64) = n + 2 ^ 64" .
    then have "int (unat (of_int n :: u64)) = n + 2 ^ 64" by (simp only: uint_nat)
    moreover have "int max_size < n + 2 ^ 64" using n by (simp add: max_size_def)
    ultimately have "int max_size < int (unat (of_int n :: u64))" by (simp only:)
    then show ?thesis by (simp only: of_nat_less_iff)
  qed
  ultimately have "end_headers p = None"
    using assms by (simp add: end_headers_def GetHeader_def Let_def)
  moreover have "crlf @ rest \<noteq> []" by (simp add: crlf_def)
  ultimately show ?thesis using assms(1,2) next_line_crlf [of "[]" rest]
    by (subst Read_def, subst parse.simps) (simp add: parse_step_def parse_line_def)
qed

theorem negative_length_throws_witness:
  "Read ((Parser [] 0)\<lparr>seenReq := True, headers := [(str ''Content-Length'', str ''-1'')]\<rparr>) (crlf @ []) = None"
  by (rule negative_length_throws [where n = "- 1"])
    (simp_all add: Parser_def Clean_def CleanPreserveHeaders_def GetHeader_def find_header_def str_def atoi_def is_space_def
      is_digit_def dec_val_def)

definition spinning :: "parser \<Rightarrow> bool" where
  "spinning p \<longleftrightarrow> seenHeaders p \<and> headerOnly p \<and> plength p = 0 \<and> \<not> getChunks p \<and>
     (\<exists>n. n \<noteq> 0 \<and> asInt (set_string (url p)) = Some n)"

lemma concat_pop: "concat (rev (pop_empty cs)) = concat (rev cs)"
  by (simp add: pop_empty_def concat_dropWhile_empty)

lemma spinning_parse: "spinning p \<Longrightarrow> c \<noteq> [] \<Longrightarrow> parse p c = Some (True, p\<lparr>possiblyComplete := True\<rparr>, c)"
  by (subst parse.simps) (simp add: spinning_def parse_step_def parse_body_def)

lemma spinning_loop: "spinning p \<Longrightarrow> \<exists>c \<in> set cs. c \<noteq> [] \<Longrightarrow> Read_loop True p cs \<noteq> Some y"
proof
  assume a: "Read_loop True p cs = Some y" "spinning p" "\<exists>c \<in> set cs. c \<noteq> []"
  have "True \<longrightarrow> spinning p \<longrightarrow> (\<exists>c \<in> set cs. c \<noteq> []) \<longrightarrow> False"
  proof (rule Read_loop.raw_induct [OF _ a(1), where P = "\<lambda>k p cs y. k \<longrightarrow> spinning p \<longrightarrow> (\<exists>c \<in> set cs. c \<noteq> []) \<longrightarrow> False"], intro impI, goal_cases)
    case (1 loop k p cs y)
    from 1(5) obtain c cs' where c: "dropWhile (\<lambda>c. c = []) cs = c # cs'" "c \<noteq> []"
      by (metis (mono_tags, lifting) dropWhile_eq_Cons_conv dropWhile_eq_Nil_conv list.exhaust)
    have "join_line p (c # cs') = Some (True, c # cs')" using 1(4) by (simp add: spinning_def)
    moreover have "spinning (p\<lparr>possiblyComplete := True\<rparr>)" using 1(4) by (simp add: spinning_def)
    ultimately show False
      using 1(1) [of k "p\<lparr>possiblyComplete := True\<rparr>" "c # cs'"] 1(2-4) c spinning_parse [OF 1(4) c(2)]
      by (auto simp: read_ok_def spinning_def)
  qed
  then show False using a by simp
qed

text \<open>\<open>Read\<close> on an open connection does not return when only the headers are asked for, the message is a response
  without length, and data is left in the buffer: \<open>parse\<close> returns true, the code of the response keeps
  \<open>Read\<close> from returning, and nothing is taken from the buffer.\<close>

theorem headerOnly_spins:
  assumes "seenHeaders p" "headerOnly p" "plength p = 0" "\<not> getChunks p"
    and "asInt (set_string (url p)) = Some n" "n \<noteq> 0" "sb_abs b \<noteq> []"
  shows "Read_conn True p b = None"
proof -
  have p: "spinning p" using assms by (simp add: spinning_def)
  let ?cs = "rev (chunks (snd (sb_size b)))"
  have "concat ?cs = sb_abs b" by (simp add: sb_size_def sb_abs_def concat_pop Let_def)
  then have ne: "concat ?cs \<noteq> []" using assms(7) by simp
  then have cs: "?cs \<noteq> []" by (intro notI) simp
  have "\<exists>c \<in> set ?cs. c \<noteq> []" using ne by (simp only: concat_eq_Nil_conv simp_thms) blast
  then have "Read_loop True p ?cs = None" using spinning_loop [OF p, of ?cs] by (cases "Read_loop True p ?cs") auto
  moreover obtain x xs where "?cs = x # xs" using cs by (cases ?cs) simp_all
  ultimately show ?thesis by (simp add: Read_conn_def)
qed

theorem headerOnly_spins_witness:
  "Read_conn True ((Parser [] 0)\<lparr>seenReq := True, seenHeaders := True, headerOnly := True, url := str ''200''\<rparr>)
     \<lparr>chunks = [str ''data''], splitter = [0x0A]\<rparr> = None"
  by (rule headerOnly_spins [where n = 200])
    (simp_all add: Parser_def Clean_def CleanPreserveHeaders_def sb_abs_def asInt_def set_string_def str_def atoll_def
      is_space_def is_digit_def dec_val_def)

end
