(* ===== verification/Websocket.thy ===== *)
theory Websocket
  imports HttpProps
begin

text \<open>
  WebSockets (\<open>lib/websocket.cpp\<close>, \<open>lib/websocket.h\<close>): the server's side of the handshake, the frames that
  are sent, and \<open>readFrame\<close>, which takes frames from the buffer of the connection and puts messages
  together. \<open>None\<close> is undefined behaviour. What \<open>spool\<close> gets from the socket is an argument: \<open>None\<close> when it
  gets nothing. SHA-1 is the function of mbedtls, an argument.
\<close>

section \<open>State\<close>

record ws =
  received :: sbuf
  wdata :: rptr
  frameType :: byte
  header :: bytes
  headLen :: nat
  dataCtr :: u64
  maskOut :: bool
  wconn :: conn

text \<open>A connection that already is a WebSocket. The constructor leaves \<open>frameType\<close>, \<open>headLen\<close>, \<open>dataCtr\<close> and the
  14 bytes of \<open>header\<close> uninitialised.\<close>

definition Websocket :: "sbuf \<Rightarrow> conn \<Rightarrow> bool \<Rightarrow> byte \<Rightarrow> bytes \<Rightarrow> nat \<Rightarrow> u64 \<Rightarrow> ws" where
  "Websocket b c client junk_type junk_header junk_len junk_ctr =
     \<lparr>received = b, wdata = rp_new, frameType = junk_type, header = junk_header, headLen = junk_len,
      dataCtr = junk_ctr, maskOut = client, wconn = c\<rparr>"

section \<open>Handshake\<close>

definition calculateKeyAccept :: "(bytes \<Rightarrow> bytes) \<Rightarrow> bytes \<Rightarrow> bytes" where
  "calculateKeyAccept sha1 client_key =
     Base64_encode (sha1 (client_key @ str ''258EAFA5-E914-47DA-95CA-C5AB0DC85B11'')) False"

definition stringToLower :: "bytes \<Rightarrow> bytes" where
  "stringToLower s = map tolower (takeWhile (\<lambda>c. c \<noteq> 0) s) @ dropWhile (\<lambda>c. c \<noteq> 0) s"

definition accept_key :: "parser \<Rightarrow> bytes option" where
  "accept_key req =
     (if sfind (stringToLower (GetHeader req (str ''Connection''))) (str ''upgrade'') 0 = None then None
      else if stringToLower (GetHeader req (str ''Upgrade'')) \<noteq> str ''websocket'' then None
      else if GetHeader req (str ''Sec-WebSocket-Version'') \<noteq> str ''13'' then None
      else if GetHeader req (str ''Sec-WebSocket-Key'') = [] then None
      else Some (GetHeader req (str ''Sec-WebSocket-Key'')))"

definition Websocket_server ::
  "(bytes \<Rightarrow> bytes) \<Rightarrow> sbuf \<Rightarrow> conn \<Rightarrow> parser \<Rightarrow> parser \<Rightarrow> bytes \<Rightarrow> nat \<Rightarrow> u64 \<Rightarrow> (ws \<times> parser) option" where
  "Websocket_server sha1 b c req resp junk_header junk_len junk_ctr =
     (let w = Websocket b c False 0 junk_header junk_len junk_ctr in
      case accept_key req of
        None \<Rightarrow> Some (w\<lparr>wconn := close c\<rparr>, resp)
      | Some key \<Rightarrow> do {
          let resp = SetHeader (str ''Upgrade'') (str ''websocket'') resp;
          let resp = SetHeader (str ''Connection'') (str ''Upgrade'') resp;
          let resp = SetHeader (str ''Sec-WebSocket-Accept'') (calculateKeyAccept sha1 key) resp;
          (resp, c) \<leftarrow> SendResponse (str ''101'') (str ''Websocket away!'') resp c;
          Some (w\<lparr>wconn := c\<rparr>, resp) })"

section \<open>Sending\<close>

definition head_of :: "u32 \<Rightarrow> u32 \<Rightarrow> bytes \<Rightarrow> (nat \<times> bytes) option" where
  "head_of len ft h = do {
     h \<leftarrow> wrn h 0 [ucast (0x80 + ft)];
     if len < 126 then do { h \<leftarrow> wrn h 1 [ucast len]; Some (2, h) }
     else if len \<le> 0xFFFF then do {
       h \<leftarrow> wrn h 1 [126]; h \<leftarrow> htobs h 2 (ucast len); Some (4, h) }
     else do { h \<leftarrow> wrn h 1 [127]; h \<leftarrow> htobll h 2 (ucast len); Some (10, h) } }"

definition sendFrameHead :: "u32 \<Rightarrow> u32 \<Rightarrow> ws \<Rightarrow> ws option" where
  "sendFrameHead len ft w = do {
     (n, h) \<leftarrow> head_of len ft (header w);
     (n, h) \<leftarrow> (if maskOut w then do {
         b \<leftarrow> rd h 1; h \<leftarrow> wrn h 1 [b OR 128]; h \<leftarrow> wrn h n [0, 0, 0, 0]; Some (n + 4, h) }
       else Some (n, h));
     d \<leftarrow> rdn h 0 n;
     c \<leftarrow> SendNow (Some d) (wconn w);
     Some (w\<lparr>header := h, headLen := n, wconn := c, dataCtr := 0\<rparr>) }"

definition sendFrameData :: "bytes \<Rightarrow> ws \<Rightarrow> ws option" where
  "sendFrameData d w = do {
     c \<leftarrow> SendNow (Some d) (wconn w);
     Some (w\<lparr>wconn := c, dataCtr := dataCtr w + of_nat (length d)\<rparr>) }"

text \<open>The length is an \<open>unsigned int\<close>. \<open>sendFrame_str\<close> is the overload for a string; only its data is sent in
  full, the length in the header is cut.\<close>

definition sendFrame :: "bytes \<Rightarrow> u32 \<Rightarrow> u32 \<Rightarrow> ws \<Rightarrow> ws option" where
  "sendFrame d len ft w = do {
     w \<leftarrow> sendFrameHead len ft w;
     d \<leftarrow> rdn d 0 (unat len);
     sendFrameData d w }"

definition sendFrame_str :: "bytes \<Rightarrow> ws \<Rightarrow> ws option" where
  "sendFrame_str d w = sendFrame d (of_nat (length d)) 1 w"

section \<open>Reading\<close>

text \<open>The mask is applied to the memory of \<open>data\<close>; the counter of the loop has 32 bits.\<close>

definition apply_mask :: "bytes \<Rightarrow> nat \<Rightarrow> nat \<Rightarrow> bytes \<Rightarrow> bytes option" where
  "apply_mask key pre n m =
     (if pre + n \<le> length m \<and> n < 2 ^ 32
      then Some (take pre m @ map (\<lambda>i. m ! (pre + i) XOR key ! (i mod 4)) [0..<n] @ drop (pre + n) m)
      else None)"

definition masked_head :: "bytes \<Rightarrow> bool" where
  "masked_head head \<longleftrightarrow> head ! 1 AND 0x80 \<noteq> 0"

definition head_size :: "bytes \<Rightarrow> nat" where
  "head_size head =
     (let payLen = head ! 1 AND 0x7F
      in 2 + (if masked_head head then 4 else 0) + (if payLen = 126 then 2 else 0) + (if payLen = 127 then 8 else 0))"

text \<open>The length of the payload, read from the whole header.\<close>

definition pay_len :: "bytes \<Rightarrow> u64 option" where
  "pay_len head =
     (let payLen = head ! 1 AND 0x7F in
      if payLen = 126 then map_option ucast (btohs head 2)
      else if payLen = 127 then btohll head 2
      else Some (ucast payLen))"

text \<open>The end of a message: the values \<open>readFrame\<close> returns.\<close>

definition finish :: "ws \<Rightarrow> (bool \<times> ws) option" where
  "finish w =
     (if frameType w = 0 then Some (False, w)
      else if frameType w = 8 then Some (False, w\<lparr>wconn := close (wconn w)\<rparr>)
      else if frameType w = 9 then
        map_option (Pair False) (sendFrame (rp_abs (wdata w)) (of_nat (currSize (wdata w))) 0xA w)
      else if frameType w = 0xA then Some (False, w)
      else Some (True, w))"

text \<open>A frame that is in the buffer.\<close>

definition take_frame :: "allocator \<Rightarrow> bytes \<Rightarrow> u64 \<Rightarrow> ws \<Rightarrow> ws option" where
  "take_frame ra head payLen w = do {
     let w = w\<lparr>received := snd (sb_remove (received w) (head_size head))\<rparr>;
     let w = (if head ! 0 AND 0xF \<noteq> 0
              then w\<lparr>frameType := head ! 0 AND 0xF, wdata := rp_truncate (wdata w) 0\<rparr> else w);
     let preSize = currSize (wdata w);
     (d, b) \<leftarrow> sb_remove_ptr ra (received w) (wdata w) (unat payLen);
     d \<leftarrow> (if masked_head head then do {
             m \<leftarrow> apply_mask (drop (head_size head - 4) head) preSize (unat payLen) (rp_mem d);
             Some (d\<lparr>rp_mem := m\<rparr>) }
           else Some d);
     Some (w\<lparr>received := b, wdata := d\<rparr>) }"

text \<open>The header, and its length field, when the whole frame is there; and the buffer.\<close>

definition whole_frame :: "sbuf \<Rightarrow> ((bytes \<times> u64) option \<times> sbuf) option" where
  "whole_frame b =
     (let (ok, b) = sb_available b 2 in
      if \<not> ok then Some (None, b)
      else let (head, b) = sb_copy b 2; n = head_size head; (ok, b) = (if 2 < n then sb_available b n else (True, b)) in
        if \<not> ok then Some (None, b)
        else let (head, b) = (if 2 < n then sb_copy b n else (head, b)) in do {
          payLen \<leftarrow> pay_len head;
          let (ok, b) = sb_available b (unat (of_nat n + payLen));
          Some (if ok then Some (head, payLen) else None, b) })"

text \<open>A turn of the loop of \<open>readFrame\<close>: what it returns, or \<open>None\<close> to go on; and what is left to spool.\<close>

definition frame_step :: "allocator \<Rightarrow> ws \<Rightarrow> bytes option \<Rightarrow> (bool option \<times> ws \<times> bytes option) option" where
  "frame_step ra w inp = do {
     (f, b) \<leftarrow> whole_frame (received w);
     let w = w\<lparr>received := b\<rparr>;
     (case f of
        None \<Rightarrow>
          (case inp of
             Some d \<Rightarrow> Some (None, w\<lparr>received := sb_append (received w) d\<rparr>, None)
           | None \<Rightarrow> Some (Some False, w, None))
      | Some (head, payLen) \<Rightarrow> do {
          w \<leftarrow> take_frame ra head payLen w;
          if head ! 0 AND 0x80 \<noteq> 0
          then do { (r, w) \<leftarrow> finish w; Some (Some r, w, inp) }
          else Some (None, w, inp) }) }"

text \<open>Every turn takes a header from the buffer or uses what \<open>spool\<close> got.\<close>

lemma sb_remove_loop_length: "length (concat (snd (remove_loop count i ret cs))) \<le> length (concat cs)"
  by (induction count i ret cs rule: remove_loop.induct) (auto simp: split_beta)

lemma remove_loop_shrinks:
  "concat cs \<noteq> [] \<Longrightarrow> i < count \<Longrightarrow>
     length (concat (snd (remove_loop count i ret cs))) < length (concat cs)"
proof (induction count i ret cs rule: remove_loop.induct)
  case (2 count i ret c cs)
  show ?case
  proof (cases "i + length c < count \<and> concat cs \<noteq> []")
    case True
    then show ?thesis using "2.IH" by (auto simp: split_beta)
  next
    case False
    then have "i + length c < count \<Longrightarrow> c \<noteq> []" using "2.prems" by auto
    then show ?thesis using False "2.prems" sb_remove_loop_length [of count "i + length c" "ret @ c" cs]
      by (cases "i + length c < count") (simp_all add: split_beta del: concat_eq_Nil_conv)
  qed
qed simp

lemma remove_ptr_loop_shrinks:
  "remove_ptr_loop ra count i r cs = Some (r', cs') \<Longrightarrow> length (concat cs') \<le> length (concat cs)"
proof (induction ra count i r cs arbitrary: r' cs' rule: remove_ptr_loop.induct)
  case (2 ra count i r c cs)
  then show ?case by (fastforce split: if_splits bind_splits)
qed simp

lemma available_nonempty: "available_loop count i cs \<Longrightarrow> i < count \<Longrightarrow> concat cs \<noteq> []"
proof (induction count i cs rule: available_loop.induct)
  case (2 count i c cs)
  show ?case
  proof (cases "c = []")
    case True
    have "u32_add i 0 \<le> i" by (simp add: u32_add_def)
    then show ?thesis using True 2 by (auto simp: Let_def split: if_splits)
  qed simp
qed simp

lemma available_trans: "available_loop count i cs \<Longrightarrow> n \<le> count \<Longrightarrow> available_loop n i cs"
  by (induction count i cs rule: available_loop.induct) (auto simp: Let_def split: if_splits)

lemma sb_size_size [simp]: "snd (sb_size (snd (sb_size b))) = snd (sb_size b)"
  by (cases "rev (chunks b)") (simp_all add: sb_size_def pop_empty_def Let_def)

lemma available_size: "sb_available b n = (available_loop (n mod 2 ^ 32) 0 (chunks (snd (sb_size b))), snd (sb_size b))"
  by (simp add: sb_available_def Let_def)

lemma copy_eq:
  "fst (sb_available b n) \<Longrightarrow> n \<le> 2 ^ 32 \<Longrightarrow> sb_copy b n = (take n (sb_abs b), snd (sb_size b))"
  using sb_copy_available [of b n] by (intro prod_eqI) (simp_all add: sb_copy_def available_size)

lemma head_size_take: "2 \<le> n \<Longrightarrow> head_size (take n a) = head_size a"
  by (simp add: head_size_def masked_head_def)

lemma head_size_bounds: "2 \<le> head_size h" "head_size h \<le> 14"
  by (auto simp: head_size_def Let_def)

definition there :: "sbuf \<Rightarrow> nat \<Rightarrow> bool" where
  "there b n \<longleftrightarrow> available_loop (n mod 2 ^ 32) 0 (chunks (snd (sb_size b)))"

lemma whole_frame_eq:
  "whole_frame b =
     (let n = head_size (sb_abs b); h = take n (sb_abs b) in
      if \<not> there b n then Some (None, snd (sb_size b))
      else do { payLen \<leftarrow> pay_len h;
                Some (if there b (unat (of_nat n + payLen)) then Some (h, payLen) else None, snd (sb_size b)) })"
proof -
  define b' where "b' = snd (sb_size b)"
  have b': "sb_available b n = (there b n, b')" "sb_available b' n = (there b n, b')" "sb_abs b' = sb_abs b" for n
    by (simp_all add: available_size there_def b'_def)
  have c: "there b n \<Longrightarrow> n \<le> 14 \<Longrightarrow> sb_copy b' n = (take n (sb_abs b), b')" for n
    using copy_eq [of b' n] b' by (simp add: b'_def)
  let ?n = "head_size (sb_abs b)"
  have n: "2 \<le> ?n" "?n \<le> 14" by (rule head_size_bounds)+
  have two: "there b ?n \<Longrightarrow> there b 2"
    using n available_trans [of ?n 0 _ 2] by (simp add: there_def)
  show ?thesis
  proof (cases "there b 2")
    case False
    then show ?thesis using two by (auto simp: whole_frame_def b' b'_def [symmetric] Let_def)
  next
    case True
    then show ?thesis using n c [OF True] c [of ?n]
      by (auto simp: whole_frame_def b' b'_def [symmetric] head_size_take Let_def cong: if_cong)
  qed
qed

lemma whole_frame_available:
  assumes "whole_frame b = Some (Some (head, payLen), b')"
  shows "b' = snd (sb_size b)" "there b' (head_size head)" "head = take (head_size head) (sb_abs b)"
  using assms head_size_bounds(1) [of "sb_abs b"] head_size_take [OF head_size_bounds(1), of "sb_abs b" "sb_abs b"]
  by (auto simp: whole_frame_eq there_def Let_def split: if_splits bind_splits)

lemma abs_set_chunks: "sb_abs (b\<lparr>chunks := rev cs\<rparr>) = concat cs"
  by (simp add: sb_abs_def)

lemma remove_shrinks:
  assumes "there b n" "0 < n mod 2 ^ 32" "n < 2 ^ 32"
  shows "length (sb_abs (snd (sb_remove b n))) < length (sb_abs b)"
proof -
  define b' where "b' = snd (sb_size b)"
  have b': "concat (rev (chunks b')) = sb_abs b" by (simp add: b'_def flip: sb_abs_def)
  have a: "available_loop n 0 (chunks b')" using assms by (simp add: there_def b'_def)
  then have "concat (rev (chunks b')) \<noteq> []" using available_nonempty [OF a] assms by auto
  then have "length (concat (snd (remove_loop n 0 [] (rev (chunks b'))))) < length (sb_abs b)"
    using remove_loop_shrinks [of "rev (chunks b')" 0 n "[]"] assms b' by simp
  then show ?thesis using assms(1)
    by (simp add: sb_remove_def available_size there_def b'_def abs_set_chunks split_beta)
qed

lemma remove_ptr_shrinks: "sb_remove_ptr ra b r n = Some (r', b') \<Longrightarrow> length (sb_abs b') \<le> length (sb_abs b)"
proof -
  assume a: "sb_remove_ptr ra b r n = Some (r', b')"
  define c where "c = snd (sb_size b)"
  have c: "concat (rev (chunks c)) = sb_abs b" "sb_abs c = sb_abs b" by (simp_all add: c_def flip: sb_abs_def)
  show ?thesis using a remove_ptr_loop_shrinks [of ra n 0 r "rev (chunks c)"] c
    by (auto simp: sb_remove_ptr_def available_size c_def [symmetric] abs_set_chunks split: if_splits bind_splits)
qed

lemma take_frame_shrinks:
  assumes "take_frame ra head payLen w = Some w'" "there (received w) (head_size head)"
  shows "length (sb_abs (received w')) < length (sb_abs (received w))"
proof -
  have "length (sb_abs (snd (sb_remove (received w) (head_size head)))) < length (sb_abs (received w))"
    using assms(2) head_size_bounds [of head] by (intro remove_shrinks) simp_all
  then show ?thesis using assms(1)
    by (auto simp: take_frame_def Let_def dest!: remove_ptr_shrinks split: bind_splits if_splits)
qed

lemma frame_step_shrinks:
  assumes "frame_step ra w inp = Some (None, w', inp')"
  shows "inp \<noteq> None \<and> inp' = None \<or> inp' = inp \<and> length (sb_abs (received w')) < length (sb_abs (received w))"
proof -
  obtain f b where fb: "whole_frame (received w) = Some (f, b)"
    using assms by (auto simp: frame_step_def split: bind_splits)
  show ?thesis
  proof (cases f)
    case None
    then show ?thesis using assms fb by (auto simp: frame_step_def Let_def split: option.splits)
  next
    case (Some hp)
    obtain head payLen where hp: "hp = (head, payLen)" by (cases hp)
    then obtain w1 where w1: "take_frame ra head payLen (w\<lparr>received := b\<rparr>) = Some w1" "inp' = inp" "w' = w1"
      using assms fb Some by (auto simp: frame_step_def Let_def split: bind_splits if_splits)
    have "sb_abs b = sb_abs (received w)" "there b (head_size head)"
      using whole_frame_available [of "received w" head payLen b] fb Some hp by simp_all
    then show ?thesis using take_frame_shrinks [OF w1(1)] w1 by simp
  qed
qed

function readFrame :: "allocator \<Rightarrow> ws \<Rightarrow> bytes option \<Rightarrow> (bool \<times> ws) option" where
  "readFrame ra w inp =
     (case frame_step ra w inp of
        None \<Rightarrow> None
      | Some (Some r, w, inp) \<Rightarrow> Some (r, w)
      | Some (None, w, inp) \<Rightarrow> readFrame ra w inp)"
  by pat_completeness auto
termination readFrame
  by (relation "measures [\<lambda>(ra, w, inp). if inp = None then 0 else 1, \<lambda>(ra, w, inp). length (sb_abs (received w))]")
    (auto dest!: frame_step_shrinks)

declare readFrame.simps [simp del]

text \<open>\<open>readLoop\<close>: what \<open>spool\<close> gets at every turn, until the connection is lost.\<close>

fun readLoop :: "allocator \<Rightarrow> ws \<Rightarrow> bytes option list \<Rightarrow> (bool \<times> ws \<times> bytes option list) option" where
  "readLoop ra w [] = Some (False, w, [])"
| "readLoop ra w (inp # inps) =
     (if closed (wconn w) then Some (False, w, inp # inps)
      else do { (r, w) \<leftarrow> readFrame ra w inp;
                if r then Some (True, w, inps) else readLoop ra w inps })"
end
