(* ===== verification/WebsocketProps.thy ===== *)
theory WebsocketProps
  imports Websocket
begin

text \<open>
  The frames of the WebSocket protocol, and the lemmas and properties of \<open>Websocket\<close>: what \<open>sendFrame\<close>
  writes is a frame, and \<open>readFrame\<close> puts the frames of a message together.
\<close>

section \<open>Frames\<close>

text \<open>The frames of RFC 6455: whether it is the last of its message, its type, its mask and its payload.\<close>

record frame =
  fin :: bool
  opcode :: byte
  key :: "bytes option"
  payload :: bytes

definition frame_ok :: "frame \<Rightarrow> bool" where
  "frame_ok f \<longleftrightarrow> opcode f < 16 \<and> (case key f of None \<Rightarrow> True | Some k \<Rightarrow> length k = 4)"

definition len_bytes :: "nat \<Rightarrow> byte \<times> bytes" where
  "len_bytes n =
     (if n < 126 then (of_nat n, [])
      else if n \<le> 0xFFFF then (126, be_bytes 2 (of_nat n :: u16))
      else (127, be_bytes 8 (of_nat n :: u64)))"

definition frame_head :: "frame \<Rightarrow> bytes" where
  "frame_head f =
     [(if fin f then 0x80 else 0) OR opcode f,
      (if key f \<noteq> None then 0x80 else 0) OR fst (len_bytes (length (payload f)))] @
     snd (len_bytes (length (payload f))) @ (case key f of None \<Rightarrow> [] | Some k \<Rightarrow> k)"

definition xor_key :: "bytes \<Rightarrow> bytes \<Rightarrow> bytes" where
  "xor_key k d = map (\<lambda>i. d ! i XOR k ! (i mod 4)) [0..<length d]"

definition frame_body :: "frame \<Rightarrow> bytes" where
  "frame_body f = (case key f of None \<Rightarrow> payload f | Some k \<Rightarrow> xor_key k (payload f))"

definition frame_bytes :: "frame \<Rightarrow> bytes" where
  "frame_bytes f = frame_head f @ frame_body f"

lemma length_xor_key [simp]: "length (xor_key k d) = length d"
  by (simp add: xor_key_def)

lemma xor_key_twice: "xor_key k (xor_key k d) = d"
  by (rule nth_equalityI) (simp_all add: xor_key_def xor.assoc)

lemma length_frame_body [simp]: "length (frame_body f) = length (payload f)"
  by (simp add: frame_body_def split: option.split)

lemma high_bit_iff: "h = (0x80 :: byte) \<Longrightarrow> bit h n \<longleftrightarrow> n = 7"
proof -
  assume "h = 0x80"
  then have p: "h = push_bit 7 1" by simp
  show ?thesis unfolding p by (auto simp only: bit_push_bit_iff bit_1_iff) (simp_all add: possible_bit_word)
qed

lemma bit_low: "unat (l :: byte) < 2 ^ k \<Longrightarrow> bit l n \<Longrightarrow> n < k"
proof -
  assume "unat l < 2 ^ k" "bit l n"
  then have "take_bit k l = l" by (simp add: word_unat_eq_iff unsigned_take_bit_eq take_bit_nat_eq_self)
  then show "n < k" using \<open>bit l n\<close> by (metis bit_take_bit_iff)
qed

lemma high_plus_low: "unat (l :: byte) < 2 ^ 7 \<Longrightarrow> 0x80 + l = 0x80 OR l"
proof -
  assume l: "unat l < 2 ^ 7"
  define h where "h = (0x80 :: byte)"
  have "h + l = h OR l"
    by (rule disjunctive_add) (use bit_low [OF l] high_bit_iff [OF h_def] in auto)
  then show ?thesis by (simp only: h_def)
qed

lemma low_bits:
  fixes l :: byte
  assumes "unat l < 2 ^ k" "k \<le> 7"
  shows "((if s then 0x80 else 0) OR l) AND mask k = l" "((if s then 0x80 else 0) OR l) AND 0x80 \<noteq> 0 \<longleftrightarrow> s"
proof -
  note b = bit_low [OF assms(1)]
  define t where "t = (0x80 :: byte)"
  define h where "h = (if s then t else 0)"
  note tb = high_bit_iff [OF t_def]
  then have hb: "bit h n \<longleftrightarrow> s \<and> n = 7" for n by (simp add: h_def)
  have "(h OR l) AND mask k = l"
    by (rule bit_word_eqI) (use b hb assms(2) in \<open>auto simp: bit_and_iff bit_or_iff bit_mask_iff possible_bit_word\<close>)
  then show "((if s then 0x80 else 0) OR l) AND mask k = l" by (simp only: h_def t_def)
  have "(h OR l) AND t = h"
    by (rule bit_word_eqI) (use b [of 7] hb tb assms(2) in \<open>auto simp: bit_and_iff bit_or_iff\<close>)
  then have "(h OR l) AND t \<noteq> 0 \<longleftrightarrow> s" by (simp add: h_def t_def)
  then show "((if s then 0x80 else 0) OR l) AND 0x80 \<noteq> 0 \<longleftrightarrow> s" by (simp only: h_def t_def)
qed

lemma len_bytes_small: "unat (fst (len_bytes n)) < 2 ^ 7"
  by (simp add: len_bytes_def unat_of_nat)

lemma head_bits:
  assumes "frame_ok f"
  shows "(frame_head f @ r) ! 0 AND 0xF = opcode f" "(frame_head f @ r) ! 0 AND 0x80 \<noteq> 0 \<longleftrightarrow> fin f"
    "(frame_head f @ r) ! 1 AND 0x7F = fst (len_bytes (length (payload f)))" "masked_head (frame_head f @ r) \<longleftrightarrow> key f \<noteq> None"
proof -
  have m: "(0xF :: byte) = mask 4" "(0x7F :: byte) = mask 7" by (simp_all add: mask_eq_exp_minus_1)
  have "unat (opcode f) < 2 ^ 4" using assms by (simp add: frame_ok_def word_less_nat_alt)
  then show "(frame_head f @ r) ! 0 AND 0xF = opcode f" "(frame_head f @ r) ! 0 AND 0x80 \<noteq> 0 \<longleftrightarrow> fin f"
    unfolding m using low_bits [of "opcode f" 4 "fin f"] by (simp_all add: frame_head_def)
  show "(frame_head f @ r) ! 1 AND 0x7F = fst (len_bytes (length (payload f)))" "masked_head (frame_head f @ r) \<longleftrightarrow> key f \<noteq> None"
    unfolding m masked_head_def using low_bits [OF len_bytes_small, where s = "key f \<noteq> None"] by (simp_all add: frame_head_def)
qed

lemma small_byte: "n < 126 \<Longrightarrow> (of_nat n :: byte) \<noteq> 126 \<and> (of_nat n :: byte) \<noteq> 127"
  by (simp add: word_unat_eq_iff unat_of_nat)

lemma frame_head_size:
  assumes "frame_ok f"
  shows "head_size (frame_head f @ r) = length (frame_head f)"
  using head_bits [OF assms, of r] assms small_byte [of "length (payload f)"]
  by (auto simp: head_size_def len_bytes_def frame_head_def frame_ok_def split: option.splits)

lemma frame_pay_len:
  assumes "frame_ok f" "length (payload f) < 2 ^ 32"
  shows "pay_len (frame_head f) = Some (of_nat (length (payload f)))"
proof -
  let ?n = "length (payload f)"
  have l: "frame_head f ! 1 AND 0x7F = fst (len_bytes ?n)" using head_bits(3) [OF assms(1), of "[]"] by simp
  consider "?n < 126" | "126 \<le> ?n" "?n \<le> 0xFFFF" | "0xFFFF < ?n" by linarith
  then show ?thesis
  proof cases
    case 1
    then have "(ucast (of_nat ?n :: byte) :: u64) = of_nat ?n" by (simp add: unsigned_of_nat take_bit_nat_eq_self)
    then show ?thesis using 1 l small_byte [of ?n] by (simp add: pay_len_def len_bytes_def)
  next
    case 2
    have "(ucast (of_nat ?n :: u16) :: u64) = of_nat ?n" using 2 by (simp add: unsigned_of_nat take_bit_nat_eq_self)
    moreover have "take 2 (drop 2 (frame_head f)) = be_bytes 2 (of_nat ?n :: u16)" "4 \<le> length (frame_head f)"
      using 2 by (simp_all add: frame_head_def len_bytes_def)
    moreover have "be_val (be_bytes 2 (of_nat ?n :: u16)) = (of_nat ?n :: u16)"
      by (rule be_val_be_bytes) simp
    ultimately show ?thesis using 2 l by (simp add: pay_len_def len_bytes_def btohs_eq rdn_def)
  next
    case 3
    have "take 8 (drop 2 (frame_head f)) = be_bytes 8 (of_nat ?n :: u64)" "10 \<le> length (frame_head f)"
      using 3 by (simp_all add: frame_head_def len_bytes_def)
    moreover have "be_val (be_bytes 8 (of_nat ?n :: u64)) = (of_nat ?n :: u64)"
      by (rule be_val_be_bytes) simp
    ultimately show ?thesis using 3 l by (simp add: pay_len_def len_bytes_def btohll_eq rdn_def)
  qed
qed

lemma frame_key: "frame_ok f \<Longrightarrow> key f = Some k \<Longrightarrow> drop (length (frame_head f) - 4) (frame_head f) = k"
  by (auto simp: frame_head_def frame_ok_def)

lemma there_iff: "length (sb_abs b) < 2 ^ 32 \<Longrightarrow> n < 2 ^ 32 \<Longrightarrow> there b n \<longleftrightarrow> sb_abs b \<noteq> [] \<and> n \<le> length (sb_abs b)"
  using sb_available_eq [of b n] by (simp add: there_def available_size)

section \<open>A frame is read\<close>

lemma remove_ptr_any:
  assumes "alloc_total ra" "rp_wf r" "\<not> ro r" "length (rp_abs r) + n < 2 ^ 32" "length (sb_abs b) < 2 ^ 32" "n \<le> length (sb_abs b)"
  shows "\<exists>r' b'. sb_remove_ptr ra b r n = Some (r', b') \<and>
     rp_wf r' \<and> \<not> ro r' \<and> rp_abs r' = rp_abs r @ take n (sb_abs b) \<and> sb_abs b' = drop n (sb_abs b)"
proof (cases "sb_abs b = []")
  case True
  then have "\<not> fst (sb_available b n)" using assms sb_available_eq [of b n] by simp
  then have "sb_remove_ptr ra b r n = Some (r, snd (sb_size b))"
    by (simp add: sb_remove_ptr_def available_size)
  then show ?thesis using True assms by simp
next
  case False
  then show ?thesis using assms sb_available_eq [of b n] by (intro sb_remove_ptr_total) simp_all
qed

lemma apply_mask_abs:
  assumes "rp_wf d" "rp_abs d = a @ x" "length x < 2 ^ 32"
  shows "\<exists>m. apply_mask k (length a) (length x) (rp_mem d) = Some m \<and> rp_wf (d\<lparr>rp_mem := m\<rparr>) \<and>
    rp_abs (d\<lparr>rp_mem := m\<rparr>) = a @ xor_key k x"
proof -
  have c: "currSize d = length a + length x" using length_rp_abs [OF assms(1)] assms(2) by simp
  have le: "length a + length x \<le> length (rp_mem d)" using assms(1) c by (simp add: rp_wf_def)
  have t: "take (length a + length x) (rp_mem d) = a @ x" using assms(2) c by (simp add: rp_abs_def)
  have a: "take (length a) (rp_mem d) = a"
    using arg_cong [OF t, of "take (length a)"] by (simp add: min_def)
  have "rp_mem d ! (length a + i) = x ! i" if "i < length x" for i
    using arg_cong [OF t, of "\<lambda>l. l ! (length a + i)"] that by simp
  then have "map (\<lambda>i. rp_mem d ! (length a + i) XOR k ! (i mod 4)) [0..<length x] = xor_key k x"
    by (simp add: xor_key_def)
  then have "apply_mask k (length a) (length x) (rp_mem d) = Some (a @ xor_key k x @ drop (length a + length x) (rp_mem d))"
    using le assms(3) by (simp add: apply_mask_def a)
  then show ?thesis using c le by (simp add: rp_wf_def rp_abs_def)
qed

definition next_data :: "frame \<Rightarrow> bytes \<Rightarrow> bytes" where
  "next_data f d = (if opcode f \<noteq> 0 then [] else d) @ payload f"

definition next_type :: "frame \<Rightarrow> byte \<Rightarrow> byte" where
  "next_type f t = (if opcode f \<noteq> 0 then opcode f else t)"

definition ws_ok :: "ws \<Rightarrow> bool" where
  "ws_ok w \<longleftrightarrow> rp_wf (wdata w) \<and> \<not> ro (wdata w)"

lemma take_frame_ok:
  assumes ra: "alloc_total ra" and w: "ws_ok w" and f: "frame_ok f"
    and a: "sb_abs (received w) = frame_bytes f @ rest"
    and len: "length (sb_abs (received w)) < 2 ^ 31" "length (rp_abs (wdata w)) < 2 ^ 31"
  shows "\<exists>b d. take_frame ra (frame_head f) (of_nat (length (payload f))) w =
      Some (w\<lparr>frameType := next_type f (frameType w), received := b, wdata := d\<rparr>) \<and>
    sb_abs b = rest \<and> rp_wf d \<and> \<not> ro d \<and> rp_abs d = next_data f (rp_abs (wdata w))"
proof -
  let ?n = "length (payload f)"
  have n: "?n < 2 ^ 31" using len(1) a by (simp add: frame_bytes_def)
  define b1 where "b1 = snd (sb_remove (received w) (length (frame_head f)))"
  have hs: "head_size (frame_head f) = length (frame_head f)" using frame_head_size [OF f, of "[]"] by simp
  have "there (received w) (length (frame_head f))"
    using a len(1) by (simp add: there_iff frame_bytes_def frame_head_def)
  then have b1: "sb_abs b1 = frame_body f @ rest"
    using sb_remove_available [of "received w" "length (frame_head f)"] a
    by (simp add: b1_def there_def available_size frame_bytes_def)
  define d1 where "d1 = (if opcode f \<noteq> 0 then rp_truncate (wdata w) 0 else wdata w)"
  have d1: "rp_wf d1" "\<not> ro d1" "rp_abs d1 = (if opcode f \<noteq> 0 then [] else rp_abs (wdata w))"
    using w by (auto simp: d1_def ws_ok_def rp_wf_truncate rp_abs_truncate) (simp add: rp_truncate_def split: if_splits)
  have un: "unat (of_nat ?n :: u64) = ?n" using n by (simp add: unat_of_nat)
  have bl: "length (sb_abs b1) < 2 ^ 32" "?n \<le> length (sb_abs b1)" "length (rp_abs d1) + ?n < 2 ^ 32"
    using len n a b1 d1(3) by (simp_all add: frame_bytes_def)
  obtain d2 b2 where d2: "sb_remove_ptr ra b1 d1 ?n = Some (d2, b2)" "rp_wf d2" "\<not> ro d2"
    "rp_abs d2 = rp_abs d1 @ frame_body f" "sb_abs b2 = rest"
    using remove_ptr_any [OF ra d1(1,2) bl(3,1,2)] b1 by auto
  have cs: "currSize d1 = length (rp_abs d1)" using d1(1) by (simp add: length_rp_abs)
  have step: "take_frame ra (frame_head f) (of_nat ?n) w = do {
      d \<leftarrow> (if key f \<noteq> None then do {
             m \<leftarrow> apply_mask (drop (length (frame_head f) - 4) (frame_head f)) (currSize d1) ?n (rp_mem d2);
             Some (d2\<lparr>rp_mem := m\<rparr>) } else Some d2);
      Some (w\<lparr>frameType := next_type f (frameType w), received := b2, wdata := d\<rparr>) }"
    using head_bits [OF f, of "[]"] d2(1)
    by (cases "opcode f = 0") (simp_all add: take_frame_def hs un b1_def [symmetric] d1_def next_type_def Let_def)
  show ?thesis
  proof (cases "key f")
    case None
    then show ?thesis using step d2 d1
      by (intro exI [of _ b2] exI [of _ d2]) (simp add: next_data_def frame_body_def)
  next
    case (Some k)
    have nb: "length (frame_body f) < 2 ^ 32" using n by simp
    obtain m where m: "apply_mask k (length (rp_abs d1)) (length (frame_body f)) (rp_mem d2) = Some m"
      "rp_wf (d2\<lparr>rp_mem := m\<rparr>)" "rp_abs (d2\<lparr>rp_mem := m\<rparr>) = rp_abs d1 @ xor_key k (frame_body f)"
      using apply_mask_abs [OF d2(2,4) nb] by blast
    then show ?thesis using step Some frame_key [OF f Some] d2 d1(3) cs
      by (intro exI [of _ b2] exI [of _ "d2\<lparr>rp_mem := m\<rparr>"]) (simp add: next_data_def frame_body_def xor_key_twice)
  qed
qed

lemma whole_frame_there:
  assumes f: "frame_ok f" and a: "sb_abs b = frame_bytes f @ rest" and len: "length (sb_abs b) < 2 ^ 31"
  shows "whole_frame b = Some (Some (frame_head f, of_nat (length (payload f))), snd (sb_size b))"
proof -
  let ?n = "length (payload f)" and ?h = "length (frame_head f)"
  have n: "?h + ?n \<le> length (sb_abs b)" "?n < 2 ^ 31" using a len by (simp_all add: frame_bytes_def)
  have hs: "head_size (sb_abs b) = ?h" using frame_head_size [OF f, of "frame_body f @ rest"] a by (simp add: frame_bytes_def)
  have u: "unat (of_nat ?h + of_nat ?n :: u64) = ?h + ?n"
  proof -
    have "unat (of_nat (?h + ?n) :: u64) = ?h + ?n" using n(1) len by (subst unat_of_nat) (simp add: mod_less)
    then show ?thesis by simp
  qed
  have "there b ?h" "there b (?h + ?n)"
    using n len a by (simp_all add: there_iff frame_bytes_def frame_head_def)
  moreover have "take ?h (sb_abs b) = frame_head f" using a by (simp add: frame_bytes_def)
  moreover have "pay_len (frame_head f) = Some (of_nat ?n)" using n(2) by (intro frame_pay_len [OF f]) simp
  ultimately show ?thesis by (simp add: whole_frame_eq hs u Let_def)
qed

lemma whole_frame_part:
  assumes f: "frame_ok f" and a: "sb_abs b @ c = frame_bytes f @ rest"
    and len: "length (sb_abs b) < length (frame_bytes f)" "length (frame_bytes f) < 2 ^ 31"
  shows "whole_frame b = Some (None, snd (sb_size b))"
proof -
  let ?n = "length (payload f)" and ?h = "length (frame_head f)"
  have small: "length (sb_abs b) < 2 ^ 31" using len by simp
  have n: "length (sb_abs b) < ?h + ?n" "?h + ?n < 2 ^ 31" using len by (simp_all add: frame_bytes_def)
  have t: "take k (sb_abs b) = take k (frame_bytes f)" if "k \<le> length (sb_abs b)" for k
    using arg_cong [OF a, of "take k"] that len by simp
  show ?thesis
  proof (cases "?h \<le> length (sb_abs b)")
    case False
    have "\<not> there b (head_size (sb_abs b))"
    proof (cases "2 \<le> length (sb_abs b)")
      case True
      have "head_size (sb_abs b) = head_size (take 2 (sb_abs b))" using head_size_take [of 2 "sb_abs b"] by simp
      also have "\<dots> = head_size (take 2 (frame_bytes f))" using t [OF True] by simp
      also have "\<dots> = ?h" using head_size_take [of 2 "frame_bytes f"] frame_head_size [OF f, of "frame_body f"]
        by (simp add: frame_bytes_def)
      finally show ?thesis using False small n there_iff [of b ?h] by simp
    next
      case short: False
      then show ?thesis using head_size_bounds [of "sb_abs b"] small there_iff [of b "head_size (sb_abs b)"] by simp
    qed
    then show ?thesis by (simp add: whole_frame_eq Let_def)
  next
    case True
    have h2: "2 \<le> ?h" by (simp add: frame_head_def)
    have th: "take ?h (sb_abs b) = frame_head f" using t [OF True] by (simp add: frame_bytes_def)
    have "head_size (sb_abs b) = head_size (take ?h (sb_abs b))" using head_size_take [OF h2, of "sb_abs b"] by simp
    then have hs: "head_size (sb_abs b) = ?h" using frame_head_size [OF f, of "[]"] th by simp
    have u: "unat (of_nat ?h + of_nat ?n :: u64) = ?h + ?n"
    proof -
      have "unat (of_nat (?h + ?n) :: u64) = ?h + ?n" using n(2) by (subst unat_of_nat) (simp add: mod_less)
      then show ?thesis by simp
    qed
    have "\<not> there b (?h + ?n)" using n small there_iff [of b "?h + ?n"] by simp
    moreover have "pay_len (frame_head f) = Some (of_nat ?n)" using n(2) by (intro frame_pay_len [OF f]) simp
    ultimately show ?thesis by (simp add: whole_frame_eq hs u th Let_def)
  qed
qed

text \<open>A message is sent in frames, of which only the last is marked as such.\<close>

definition message :: "frame list \<Rightarrow> bool" where
  "message fs \<longleftrightarrow> fs \<noteq> [] \<and> (\<forall>f \<in> set fs. frame_ok f) \<and> fin (last fs) \<and> (\<forall>f \<in> set (butlast fs). \<not> fin f)"

definition wire :: "frame list \<Rightarrow> bytes" where
  "wire fs = concat (map frame_bytes fs)"

definition all_data :: "frame list \<Rightarrow> bytes \<Rightarrow> bytes" where
  "all_data fs d = foldl (\<lambda>d f. next_data f d) d fs"

definition last_type :: "frame list \<Rightarrow> byte \<Rightarrow> byte" where
  "last_type fs t = foldl (\<lambda>t f. next_type f t) t fs"

lemma readFrame_frame:
  assumes ra: "alloc_total ra" and w: "ws_ok w" and f: "frame_ok f"
    and a: "sb_abs (received w) = frame_bytes f @ rest"
    and len: "length (sb_abs (received w)) < 2 ^ 31" "length (rp_abs (wdata w)) < 2 ^ 31"
  shows "\<exists>b d. sb_abs b = rest \<and> rp_wf d \<and> \<not> ro d \<and> rp_abs d = next_data f (rp_abs (wdata w)) \<and>
    readFrame ra w inp =
      (let w' = w\<lparr>frameType := next_type f (frameType w), received := b, wdata := d\<rparr>
       in if fin f then finish w' else readFrame ra w' inp)"
proof -
  let ?w = "w\<lparr>received := snd (sb_size (received w))\<rparr>"
  have "sb_abs (received ?w) = frame_bytes f @ rest" "ws_ok ?w" using a w by (simp_all add: ws_ok_def)
  then obtain b d where bd: "take_frame ra (frame_head f) (of_nat (length (payload f))) ?w =
      Some (?w\<lparr>frameType := next_type f (frameType ?w), received := b, wdata := d\<rparr>)"
    "sb_abs b = rest" "rp_wf d" "\<not> ro d" "rp_abs d = next_data f (rp_abs (wdata ?w))"
    using take_frame_ok [OF ra _ f, of ?w rest] len by auto
  let ?w' = "w\<lparr>frameType := next_type f (frameType w), received := b, wdata := d\<rparr>"
  have "frame_step ra w inp = (if fin f then map_option (\<lambda>(r, w). (Some r, w, inp)) (finish ?w') else Some (None, ?w', inp))"
    using whole_frame_there [OF f a len(1)] bd(1) head_bits(2) [OF f, of "[]"]
    by (cases "finish ?w'") (auto simp: frame_step_def Let_def)
  then have "readFrame ra w inp = (if fin f then finish ?w' else readFrame ra ?w' inp)"
    by (subst readFrame.simps) (auto split: option.splits)
  then show ?thesis using bd by (intro exI [of _ b] exI [of _ d]) (simp add: Let_def)
qed

lemma readFrame_waits:
  assumes f: "frame_ok f" and a: "sb_abs (received w) @ c = frame_bytes f @ rest"
    and len: "length (sb_abs (received w)) < length (frame_bytes f)" "length (frame_bytes f) < 2 ^ 31"
  shows "readFrame ra w None = Some (False, w\<lparr>received := snd (sb_size (received w))\<rparr>)"
    and "readFrame ra w (Some d) = readFrame ra (w\<lparr>received := sb_append (snd (sb_size (received w))) d\<rparr>) None"
  using whole_frame_part [OF assms] by (subst readFrame.simps, simp add: frame_step_def Let_def)+

definition bounded :: "ws \<Rightarrow> bytes \<Rightarrow> bool" where
  "bounded w c \<longleftrightarrow> length (rp_abs (wdata w)) + length (sb_abs (received w) @ c) < 2 ^ 31"

lemma next_data_length: "length (next_data f d) \<le> length d + length (payload f)"
  by (simp add: next_data_def)

lemma message_Cons:
  assumes "message (f # fs)"
  shows "frame_ok f" "fin f \<longleftrightarrow> fs = []" "fs \<noteq> [] \<Longrightarrow> message fs"
  using assms by (auto simp: message_def split: if_splits)

lemma readFrame_frames:
  assumes ra: "alloc_total ra"
  shows "message fs \<Longrightarrow> ws_ok w \<Longrightarrow> bounded w c \<Longrightarrow> sb_abs (received w) @ c = wire fs @ rest \<Longrightarrow>
    (\<exists>b d. sb_abs b @ c = rest \<and> rp_wf d \<and> \<not> ro d \<and> rp_abs d = all_data fs (rp_abs (wdata w)) \<and>
       readFrame ra w None = finish (w\<lparr>frameType := last_type fs (frameType w), received := b, wdata := d\<rparr>)) \<or>
    (\<exists>fs' b d t. let w' = w\<lparr>frameType := t, received := b, wdata := d\<rparr> in
       readFrame ra w None = Some (False, w') \<and> message fs' \<and> ws_ok w' \<and> bounded w' c \<and>
       sb_abs b @ c = wire fs' @ rest \<and> length (sb_abs b) < length (frame_bytes (hd fs')) \<and>
       all_data fs' (rp_abs d) = all_data fs (rp_abs (wdata w)) \<and> last_type fs' t = last_type fs (frameType w))"
proof (induction fs arbitrary: w)
  case Nil
  then show ?case by (simp add: message_def)
next
  case (Cons f fs)
  note m = message_Cons [OF Cons.prems(1)]
  have a: "sb_abs (received w) @ c = frame_bytes f @ wire fs @ rest" using Cons.prems(4) by (simp add: wire_def)
  have small: "length (sb_abs (received w)) < 2 ^ 31" "length (rp_abs (wdata w)) < 2 ^ 31" "length (frame_bytes f) < 2 ^ 31"
  proof -
    have "length (frame_bytes f) \<le> length (sb_abs (received w) @ c)" unfolding a by simp
    then show "length (sb_abs (received w)) < 2 ^ 31" "length (rp_abs (wdata w)) < 2 ^ 31" "length (frame_bytes f) < 2 ^ 31"
      using Cons.prems(3) by (simp_all add: bounded_def)
  qed
  show ?case
  proof (cases "length (sb_abs (received w)) < length (frame_bytes f)")
    case True
    let ?b = "snd (sb_size (received w))"
    have "w\<lparr>received := ?b\<rparr> = w\<lparr>frameType := frameType w, received := ?b, wdata := wdata w\<rparr>" by (cases w) simp
    then have "readFrame ra w None = Some (False, w\<lparr>frameType := frameType w, received := ?b, wdata := wdata w\<rparr>)"
      using readFrame_waits(1) [OF m(1) a True small(3)] by (simp only:)
    then show ?thesis using Cons.prems True
      unfolding Let_def
      by (intro disjI2 exI [of _ "f # fs"] exI [of _ ?b] exI [of _ "wdata w"] exI [of _ "frameType w"] conjI)
        (simp_all add: bounded_def ws_ok_def)
  next
    case False
    let ?n = "length (frame_bytes f)"
    define r where "r = drop ?n (sb_abs (received w))"
    have "take ?n (sb_abs (received w)) = frame_bytes f"
      using arg_cong [OF a, of "take ?n"] False by (simp only: take_append) simp
    then have r: "sb_abs (received w) = frame_bytes f @ r" unfolding r_def by (metis append_take_drop_id)
    then have rc: "r @ c = wire fs @ rest" using a by simp
    obtain b d where bd: "sb_abs b = r" "rp_wf d" "\<not> ro d" "rp_abs d = next_data f (rp_abs (wdata w))"
      "readFrame ra w None = (let w' = w\<lparr>frameType := next_type f (frameType w), received := b, wdata := d\<rparr>
         in if fin f then finish w' else readFrame ra w' None)"
      using readFrame_frame [OF ra Cons.prems(2) m(1) r small(1,2), of None] by blast
    let ?w = "w\<lparr>frameType := next_type f (frameType w), received := b, wdata := d\<rparr>"
    show ?thesis
    proof (cases "fs = []")
      case True
      then show ?thesis using bd m(2) rc
        by (intro disjI1 exI [of _ b] exI [of _ d]) (simp add: all_data_def last_type_def wire_def Let_def)
    next
      case False
      have ok: "ws_ok ?w" "bounded ?w c" "sb_abs (received ?w) @ c = wire fs @ rest"
        using bd Cons.prems(3) r rc next_data_length [of f "rp_abs (wdata w)"]
        by (simp_all add: ws_ok_def bounded_def frame_bytes_def)
      have e: "readFrame ra w None = readFrame ra ?w None" using bd(5) m(2) False by (simp add: Let_def)
      have u: "?w\<lparr>frameType := t, received := b', wdata := d'\<rparr> = w\<lparr>frameType := t, received := b', wdata := d'\<rparr>" for t b' d'
        by (cases w) simp
      from Cons.IH [OF m(3) [OF False] ok] show ?thesis
        unfolding e u by (simp add: bd(4) all_data_def last_type_def)
    qed
  qed
qed

section \<open>However the frames arrive\<close>

lemma finish_data: "frameType w \<notin> {0, 8, 9, 10} \<Longrightarrow> finish w = Some (True, w)"
  by (simp add: finish_def)

lemma readLoop_frames:
  assumes ra: "alloc_total ra"
  shows "message fs \<Longrightarrow> ws_ok w \<Longrightarrow> bounded w (concat ds) \<Longrightarrow> sb_abs (received w) @ concat ds = wire fs @ rest \<Longrightarrow>
    length (sb_abs (received w)) < length (frame_bytes (hd fs)) \<Longrightarrow> \<not> closed (wconn w) \<Longrightarrow>
    last_type fs (frameType w) \<notin> {0, 8, 9, 10} \<Longrightarrow>
    \<exists>w' ds'. readLoop ra w (map Some ds) = Some (True, w', map Some ds') \<and>
      rp_abs (wdata w') = all_data fs (rp_abs (wdata w)) \<and> frameType w' = last_type fs (frameType w) \<and>
      wconn w' = wconn w \<and> ws_ok w' \<and> sb_abs (received w') @ concat ds' = rest"
proof (induction ds arbitrary: fs w)
  case Nil
  obtain f fs' where fs: "fs = f # fs'" using Nil(1) by (cases fs) (auto simp: message_def)
  then have "length (frame_bytes f) \<le> length (sb_abs (received w))" using Nil(4) by (simp add: wire_def)
  then show ?case using Nil(5) fs by simp
next
  case (Cons d ds)
  let ?w = "w\<lparr>received := sb_append (snd (sb_size (received w))) d\<rparr>"
  obtain f fs0 where fs: "fs = f # fs0" using Cons.prems(1) by (cases fs) (auto simp: message_def)
  have a: "sb_abs (received w) @ concat (d # ds) = frame_bytes f @ wire fs0 @ rest" using Cons.prems(4) fs by (simp add: wire_def)
  have "length (frame_bytes f) \<le> length (sb_abs (received w) @ concat (d # ds))" unfolding a by simp
  then have f: "frame_ok f" "length (frame_bytes f) < 2 ^ 31"
    using Cons.prems(1,3) fs by (simp_all add: message_def bounded_def)
  have read: "readFrame ra w (Some d) = readFrame ra ?w None"
    using readFrame_waits(2) [OF f(1) a _ f(2)] Cons.prems(5) fs by simp
  have "sb_abs (received ?w) @ concat ds = sb_abs (received w) @ concat (d # ds)" by (simp add: sb_append_abs)
  then have w: "ws_ok ?w" "bounded ?w (concat ds)" "sb_abs (received ?w) @ concat ds = wire fs @ rest"
    using Cons.prems(2,3,4) by (simp_all only: ws_ok_def bounded_def) simp_all
  from readFrame_frames [OF ra Cons.prems(1) w] show ?case
  proof (elim disjE exE)
    fix b dt assume h: "sb_abs b @ concat ds = rest \<and> rp_wf dt \<and> \<not> ro dt \<and> rp_abs dt = all_data fs (rp_abs (wdata ?w)) \<and>
      readFrame ra ?w None = finish (?w\<lparr>frameType := last_type fs (frameType ?w), received := b, wdata := dt\<rparr>)"
    let ?w' = "?w\<lparr>frameType := last_type fs (frameType ?w), received := b, wdata := dt\<rparr>"
    have "readFrame ra w (Some d) = Some (True, ?w')" using h read Cons.prems(7) by (simp add: finish_data)
    then show ?thesis using h Cons.prems(6)
      by (intro exI [of _ ?w'] exI [of _ ds]) (simp add: ws_ok_def)
  next
    fix fs' b dt t
    let ?w' = "?w\<lparr>frameType := t, received := b, wdata := dt\<rparr>"
    assume "let w' = ?w' in readFrame ra ?w None = Some (False, w') \<and> message fs' \<and> ws_ok w' \<and> bounded w' (concat ds) \<and>
       sb_abs b @ concat ds = wire fs' @ rest \<and> length (sb_abs b) < length (frame_bytes (hd fs')) \<and>
       all_data fs' (rp_abs dt) = all_data fs (rp_abs (wdata ?w)) \<and> last_type fs' t = last_type fs (frameType ?w)"
    then have h: "readFrame ra ?w None = Some (False, ?w')" "message fs'" "ws_ok ?w'" "bounded ?w' (concat ds)"
      "sb_abs b @ concat ds = wire fs' @ rest" "length (sb_abs b) < length (frame_bytes (hd fs'))"
      "all_data fs' (rp_abs dt) = all_data fs (rp_abs (wdata w))" "last_type fs' t = last_type fs (frameType w)"
      by (simp_all add: Let_def)
    then show ?thesis using Cons.IH [of fs' ?w'] read Cons.prems(6,7) by simp
  qed
qed

text \<open>A message of one frame, or whose other frames continue it.\<close>

lemma continued:
  "\<forall>f \<in> set fs. opcode f = 0 \<Longrightarrow> all_data fs d = d @ concat (map payload fs) \<and> last_type fs t = t"
  by (induction fs arbitrary: d) (auto simp: all_data_def last_type_def next_data_def next_type_def)

lemma message_data:
  "opcode f \<noteq> 0 \<Longrightarrow> \<forall>f \<in> set fs. opcode f = 0 \<Longrightarrow>
     all_data (f # fs) d = concat (map payload (f # fs)) \<and> last_type (f # fs) t = opcode f"
  using continued [of fs "payload f" "opcode f"]
  by (simp add: all_data_def last_type_def next_data_def next_type_def)

section \<open>Frames that are sent\<close>

definition sent_frame :: "bytes \<Rightarrow> byte \<Rightarrow> bool \<Rightarrow> frame" where
  "sent_frame d t m = \<lparr>fin = True, opcode = t, key = (if m then Some [0, 0, 0, 0] else None), payload = d\<rparr>"

lemma xor_key_zero: "xor_key [0, 0, 0, 0] d = d"
proof (rule nth_equalityI)
  fix i assume i: "i < length (xor_key [0, 0, 0, 0] d)"
  have "i mod 4 = 0 \<or> i mod 4 = 1 \<or> i mod 4 = 2 \<or> i mod 4 = 3" by auto
  then have "[0, 0, 0, 0 :: byte] ! (i mod 4) = 0" by auto
  then show "xor_key [0, 0, 0, 0] d ! i = d ! i" using i by (simp add: xor_key_def)
qed simp

lemma first_byte: "t < 16 \<Longrightarrow> ucast (0x80 + ucast t :: u32) = 0x80 OR (t :: byte)"
proof -
  assume "t < 16"
  then have t: "unat t < 16" by (simp add: word_less_nat_alt)
  have "unat (0x80 + ucast t :: u32) = 0x80 + unat t" using t by (simp add: unat_word_ariths unsigned_ucast_eq take_bit_eq_mod)
  then have "(ucast (0x80 + ucast t :: u32) :: byte) = 0x80 + t"
    using t by (simp add: word_unat_eq_iff unsigned_ucast_eq take_bit_eq_mod unat_word_ariths)
  then show ?thesis using high_plus_low [of t] t by simp
qed

lemma head_of_frame:
  assumes h: "length h = 14" and n: "n < 2 ^ 32" and t: "t < 16"
  shows "\<exists>r. head_of (of_nat n) (ucast (t :: byte)) h =
    Some (2 + length (snd (len_bytes n)), [0x80 OR t, fst (len_bytes n)] @ snd (len_bytes n) @ r) \<and>
    length (snd (len_bytes n)) + length r = 12"
proof -
  let ?l = "of_nat n :: u32"
  have u: "unat ?l = n" using n by (simp add: unat_of_nat)
  obtain a b r where hr: "h = a # b # r" "length r = 12" using h by (auto simp: numeral_eq_Suc length_Suc_conv)
  note f = first_byte [OF t]
  have small: "?l < 126 \<longleftrightarrow> n < 126" "?l \<le> 0xFFFF \<longleftrightarrow> n \<le> 0xFFFF"
    using u by (simp_all add: word_less_nat_alt word_le_nat_alt)
  consider "n < 126" | "126 \<le> n" "n \<le> 0xFFFF" | "0xFFFF < n" by linarith
  then show ?thesis
  proof cases
    case 1
    have "(ucast ?l :: byte) = of_nat n" using n by (simp add: word_unat_eq_iff unsigned_ucast_eq take_bit_eq_mod u unat_of_nat)
    then show ?thesis using 1 small hr by (simp add: head_of_def wrn_def len_bytes_def f)
  next
    case 2
    have "(ucast ?l :: u16) = of_nat n" using n by (simp add: word_unat_eq_iff unsigned_ucast_eq take_bit_eq_mod u unat_of_nat)
    then show ?thesis using 2 small hr by (simp add: head_of_def wrn_def len_bytes_def f htobs_eq)
  next
    case 3
    have "(ucast ?l :: u64) = of_nat n" using n by (simp add: word_unat_eq_iff unsigned_ucast_eq take_bit_eq_mod u unat_of_nat)
    then show ?thesis using 3 small hr by (simp add: head_of_def wrn_def len_bytes_def f htobll_eq)
  qed
qed

definition can_send :: "ws \<Rightarrow> bool" where
  "can_send w \<longleftrightarrow> length (header w) = 14 \<and> \<not> chunkedMode (wconn w) \<and> \<not> closed (wconn w)"

lemma sendFrame_bytes:
  assumes w: "can_send w" and n: "length d < 2 ^ 32" and t: "t < 16"
  shows "\<exists>w'. sendFrame d (of_nat (length d)) (ucast (t :: byte)) w = Some w' \<and> can_send w' \<and>
    wconn w' = (wconn w)\<lparr>sent := sent (wconn w) @ frame_bytes (sent_frame d t (maskOut w))\<rparr> \<and>
    received w' = received w \<and> wdata w' = wdata w \<and> frameType w' = frameType w \<and> maskOut w' = maskOut w"
proof -
  let ?n = "length d" and ?e = "snd (len_bytes (length d))"
  have u: "unat (of_nat ?n :: u32) = ?n" using n by (simp add: unat_of_nat)
  obtain r where r: "head_of (of_nat ?n) (ucast t) (header w) = Some (2 + length ?e, [0x80 OR t, fst (len_bytes ?n)] @ ?e @ r)"
    "length ?e + length r = 12"
    using head_of_frame [of "header w" ?n t] w n t by (auto simp: can_send_def)
  have e: "length ?e \<le> 8" by (simp add: len_bytes_def)
  have plain: "SendNow (Some x) c = Some (c\<lparr>sent := sent c @ x\<rparr>)" if "\<not> chunkedMode c" "\<not> closed c" for x c
    using that by (simp add: SendNow_def send_def)
  show ?thesis
  proof (cases "maskOut w")
    case False
    have "frame_bytes (sent_frame d t False) = [0x80 OR t, fst (len_bytes ?n)] @ ?e @ d"
      by (simp add: frame_bytes_def frame_head_def frame_body_def sent_frame_def)
    then show ?thesis using r w u False
      by (simp add: sendFrame_def sendFrameHead_def sendFrameData_def rdn_def plain can_send_def)
  next
    case True
    have "frame_bytes (sent_frame d t True) = [0x80 OR t, 0x80 OR fst (len_bytes ?n)] @ ?e @ [0, 0, 0, 0] @ d"
      by (simp add: frame_bytes_def frame_head_def frame_body_def sent_frame_def xor_key_zero)
    moreover have "wrn ([0x80 OR t, y] @ ?e @ r) (2 + length ?e) [0, 0, 0, 0] = Some ([0x80 OR t, y] @ ?e @ [0, 0, 0, 0] @ drop 4 r)" for y
      using r(2) e by (simp add: wrn_def)
    moreover have "take (6 + length ?e) (x # y # ?e @ 0 # 0 # 0 # 0 # z) = x # y # ?e @ [0, 0, 0, 0 :: byte]" for x y z
      using take_append [of "6 + length ?e" "x # y # ?e @ [0, 0, 0, 0]" z] by simp
    ultimately show ?thesis using r w u True e
      by (simp add: sendFrame_def sendFrameHead_def sendFrameData_def rdn_def wrn_def plain can_send_def or.commute)
  qed
qed

section \<open>Properties\<close>

text \<open>C31: A message that \<open>sendFrame\<close> sends, by a server or a client, is read by \<open>readFrame\<close> at the other end: the
  message and its type are those that were sent, and what follows it stays in the buffer.\<close>

theorem sendFrame_readFrame:
  assumes "alloc_total ra" "can_send w" "t < 16" "t \<notin> {0, 8, 9, 10}" "ws_ok v"
    and "wconn w = \<lparr>sent = [], chunkedMode = False, closed = False\<rparr>"
    and "length d + length rest + 14 < 2 ^ 31" "length (rp_abs (wdata v)) < 2 ^ 31"
  shows "\<exists>w'. sendFrame d (of_nat (length d)) (ucast (t :: byte)) w = Some w' \<and>
    (sb_abs (received v) = sent (wconn w') @ rest \<longrightarrow>
      (\<exists>v'. readFrame ra v inp = Some (True, v') \<and> rp_abs (wdata v') = d \<and> frameType v' = t \<and>
        sb_abs (received v') = rest))"
proof -
  let ?f = "sent_frame d t (maskOut w)"
  have n: "length d < 2 ^ 32" using assms(7) by simp
  obtain w' where w': "sendFrame d (of_nat (length d)) (ucast t) w = Some w'" "sent (wconn w') = frame_bytes ?f"
    using sendFrame_bytes [OF assms(2) n assms(3)] assms(6) by auto
  have f: "frame_ok ?f" "fin ?f" "opcode ?f = t" "payload ?f = d" using assms(3) by (auto simp: sent_frame_def frame_ok_def)
  have h: "length (frame_head ?f) \<le> 14" by (simp add: frame_head_def len_bytes_def sent_frame_def)
  have "\<exists>v'. readFrame ra v inp = Some (True, v') \<and> rp_abs (wdata v') = d \<and> frameType v' = t \<and> sb_abs (received v') = rest"
    if a: "sb_abs (received v) = frame_bytes ?f @ rest"
  proof -
    have "length (sb_abs (received v)) < 2 ^ 31" using a h assms(7) f(4) by (simp add: frame_bytes_def)
    from readFrame_frame [OF assms(1,5) f(1) a this assms(8), of inp] show ?thesis
      using f assms(4) by (auto simp: Let_def finish_data next_type_def next_data_def)
  qed
  then show ?thesis using w' by auto
qed

definition fresh_ws :: "bytes \<Rightarrow> bool \<Rightarrow> ws" where
  "fresh_ws inp client =
     Websocket (sb_append sb_new inp) \<lparr>sent = [], chunkedMode = False, closed = False\<rparr> client 0 (replicate 14 0) 0 0"

theorem sendFrame_readFrame_witness:
  "\<exists>w'. sendFrame (str ''Hello'') (of_nat (length (str ''Hello''))) (ucast (1 :: byte)) (fresh_ws [] True) = Some w' \<and>
    (sb_abs (received (fresh_ws (frame_bytes (sent_frame (str ''Hello'') 1 True)) False)) = sent (wconn w') @ [] \<longrightarrow>
      (\<exists>v'. readFrame realloc_zero (fresh_ws (frame_bytes (sent_frame (str ''Hello'') 1 True)) False) None = Some (True, v') \<and>
        rp_abs (wdata v') = str ''Hello'' \<and> frameType v' = 1 \<and> sb_abs (received v') = []))"
  by (rule sendFrame_readFrame [OF alloc_total_zero])
    (simp_all add: fresh_ws_def Websocket_def can_send_def ws_ok_def rp_new_def rp_wf_def rp_abs_def)

text \<open>C22: A message that is split into frames, masked or not, and arrives in pieces of any size, is what \<open>readLoop\<close>
  returns with: the payloads of the frames one after the other, with the type of the first frame. What comes after the
  message is left to read. This is for messages of data: the frames that follow the first are continuations of it.\<close>

theorem readLoop_message:
  assumes "alloc_total ra" "message (f # fs)" "opcode f \<notin> {0, 8, 9, 10}" "\<forall>g \<in> set fs. opcode g = 0"
    and "concat ds = wire (f # fs) @ rest" "length (concat ds) < 2 ^ 31"
    and "w = Websocket sb_new c client t h n k" "\<not> closed c"
  shows "\<exists>w' ds'. readLoop ra w (map Some ds) = Some (True, w', map Some ds') \<and>
    rp_abs (wdata w') = concat (map payload (f # fs)) \<and> frameType w' = opcode f \<and> wconn w' = c \<and>
    sb_abs (received w') @ concat ds' = rest"
proof -
  have w: "ws_ok w" "bounded w (concat ds)" "sb_abs (received w) @ concat ds = wire (f # fs) @ rest" "\<not> closed (wconn w)"
    "wconn w = c" "length (sb_abs (received w)) < length (frame_bytes (hd (f # fs)))"
    using assms by (simp_all add: Websocket_def ws_ok_def bounded_def rp_new_def rp_wf_def rp_abs_def frame_bytes_def frame_head_def)
  have d: "last_type (f # fs) (frameType w) = opcode f" "all_data (f # fs) (rp_abs (wdata w)) = concat (map payload (f # fs))"
    using message_data [of f fs] assms(3,4) by simp_all
  have t: "last_type (f # fs) (frameType w) \<notin> {0, 8, 9, 10}" unfolding d using assms(3) .
  from readLoop_frames [OF assms(1,2) w(1-3,6,4) t] show ?thesis unfolding d w(5) by blast
qed

definition split_message :: "frame list" where
  "split_message = [\<lparr>fin = False, opcode = 1, key = Some [1, 2, 3, 4], payload = str ''Hel''\<rparr>,
    \<lparr>fin = True, opcode = 0, key = None, payload = str ''lo''\<rparr>]"

theorem readLoop_message_witness:
  "\<exists>w' ds'. readLoop realloc_zero (Websocket sb_new \<lparr>sent = [], chunkedMode = False, closed = False\<rparr> False 7 (replicate 14 0) 0 0)
      (map Some [take 5 (wire split_message), drop 5 (wire split_message) @ [0x81]]) = Some (True, w', map Some ds') \<and>
    rp_abs (wdata w') = concat (map payload (hd split_message # tl split_message)) \<and> frameType w' = opcode (hd split_message) \<and>
    wconn w' = \<lparr>sent = [], chunkedMode = False, closed = False\<rparr> \<and> sb_abs (received w') @ concat ds' = [0x81]"
  by (rule readLoop_message [OF alloc_total_zero, where f = "hd split_message" and fs = "tl split_message"])
    (simp_all add: split_message_def message_def frame_ok_def wire_def frame_bytes_def frame_head_def frame_body_def len_bytes_def)

text \<open>A ping between the frames of a message loses the message: the type and the data of the message are overwritten
  by those of the ping, and the last frame of the message is taken for a ping itself, and answered. The
  protocol allows control frames between the frames of a message.\<close>

theorem ping_loses_message:
  assumes "alloc_total ra" "can_send w" "ws_ok w" "\<not> fin f" "opcode f \<noteq> 0" "frame_ok f"
    and "p = \<lparr>fin = True, opcode = 9, key = k, payload = q\<rparr>" "frame_ok p"
    and "g = \<lparr>fin = True, opcode = 0, key = k', payload = e\<rparr>" "frame_ok g"
    and "sb_abs (received w) = wire [f, p, g]" "length (wire [f, p, g]) < 2 ^ 30" "length (rp_abs (wdata w)) < 2 ^ 30"
  shows "\<exists>w' v'. readFrame ra w None = Some (False, w') \<and> sent (wconn w') = sent (wconn w) @ frame_bytes (sent_frame q 10 (maskOut w)) \<and>
    readFrame ra w' None = Some (False, v') \<and>
    sent (wconn v') = sent (wconn w') @ frame_bytes (sent_frame (q @ e) 10 (maskOut w)) \<and> sb_abs (received v') = []"
proof -
  have len: "length (frame_bytes f) + length (frame_bytes p) + length (frame_bytes g) < 2 ^ 30" using assms(12) by (simp add: wire_def)
  then have qe: "length q + length e < 2 ^ 30" "length (payload f) < 2 ^ 30" using assms(7,9) by (simp_all add: frame_bytes_def)
  have pong: "\<exists>u'. finish u = Some (False, u') \<and> can_send u' \<and>
      wconn u' = (wconn u)\<lparr>sent := sent (wconn u) @ frame_bytes (sent_frame (rp_abs (wdata u)) 10 (maskOut u))\<rparr> \<and>
      received u' = received u \<and> wdata u' = wdata u \<and> frameType u' = 9 \<and> maskOut u' = maskOut u"
    if u: "frameType u = 9" "can_send u" "rp_wf (wdata u)" "length (rp_abs (wdata u)) < 2 ^ 31" for u
    using sendFrame_bytes [OF u(2), of "rp_abs (wdata u)" 10] u length_rp_abs [OF u(3)]
    by (auto simp: finish_def)
  obtain b1 d1 where 1: "sb_abs b1 = frame_bytes p @ frame_bytes g" "rp_wf d1" "\<not> ro d1" "rp_abs d1 = payload f"
    "readFrame ra w None = readFrame ra (w\<lparr>frameType := opcode f, received := b1, wdata := d1\<rparr>) None"
    using readFrame_frame [OF assms(1,3,6), of "frame_bytes p @ frame_bytes g" None] assms(4,5,11,13) len
    by (auto simp: wire_def next_data_def next_type_def Let_def)
  let ?w1 = "w\<lparr>frameType := opcode f, received := b1, wdata := d1\<rparr>"
  have "ws_ok ?w1" "sb_abs (received ?w1) = frame_bytes p @ frame_bytes g" using 1 by (simp_all add: ws_ok_def)
  then obtain b2 d2 where 2: "sb_abs b2 = frame_bytes g" "rp_wf d2" "\<not> ro d2" "rp_abs d2 = q"
    "readFrame ra ?w1 None = finish (?w1\<lparr>frameType := 9, received := b2, wdata := d2\<rparr>)"
    using readFrame_frame [OF assms(1) _ assms(8), of ?w1 "frame_bytes g" None] 1 len qe assms(7)
    by (auto simp: next_data_def next_type_def Let_def)
  obtain w' where w': "finish (?w1\<lparr>frameType := 9, received := b2, wdata := d2\<rparr>) = Some (False, w')" "can_send w'"
    "wconn w' = (wconn w)\<lparr>sent := sent (wconn w) @ frame_bytes (sent_frame q 10 (maskOut w))\<rparr>" "received w' = b2"
    "wdata w' = d2" "frameType w' = 9" "maskOut w' = maskOut w"
    using pong [of "?w1\<lparr>frameType := 9, received := b2, wdata := d2\<rparr>"] 2 assms(2) qe by (auto simp: can_send_def)
  have "ws_ok w'" "sb_abs (received w') = frame_bytes g @ []" using w' 2 by (simp_all add: ws_ok_def)
  then obtain b3 d3 where 3: "sb_abs b3 = []" "rp_wf d3" "\<not> ro d3" "rp_abs d3 = q @ e"
    "readFrame ra w' None = finish (w'\<lparr>frameType := 9, received := b3, wdata := d3\<rparr>)"
    using readFrame_frame [OF assms(1) _ assms(10), of w' "[]" None] 2 w' len qe assms(9)
    by (auto simp: next_data_def next_type_def Let_def)
  obtain v' where v': "finish (w'\<lparr>frameType := 9, received := b3, wdata := d3\<rparr>) = Some (False, v')"
    "wconn v' = (wconn w')\<lparr>sent := sent (wconn w') @ frame_bytes (sent_frame (q @ e) 10 (maskOut w))\<rparr>" "received v' = b3"
    using pong [of "w'\<lparr>frameType := 9, received := b3, wdata := d3\<rparr>"] 3 w' qe by (auto simp: can_send_def)
  show ?thesis using 1(5) 2(5) w'(1,3) 3(1,5) v' by auto
qed

definition ping_between :: ws where
  "ping_between = fresh_ws (wire [\<lparr>fin = False, opcode = 1, key = None, payload = str ''Hel''\<rparr>,
     \<lparr>fin = True, opcode = 9, key = None, payload = []\<rparr>, \<lparr>fin = True, opcode = 0, key = None, payload = str ''lo''\<rparr>]) False"

theorem ping_loses_message_witness:
  "\<exists>w' v'. readFrame realloc_zero ping_between None = Some (False, w') \<and>
    sent (wconn w') = sent (wconn ping_between) @ frame_bytes (sent_frame [] 10 (maskOut ping_between)) \<and>
    readFrame realloc_zero w' None = Some (False, v') \<and>
    sent (wconn v') = sent (wconn w') @ frame_bytes (sent_frame ([] @ str ''lo'') 10 (maskOut ping_between)) \<and>
    sb_abs (received v') = []"
  by (rule ping_loses_message [OF alloc_total_zero, where
        f = "\<lparr>fin = False, opcode = 1, key = None, payload = str ''Hel''\<rparr>" and
        p = "\<lparr>fin = True, opcode = 9, key = None, payload = []\<rparr>" and
        g = "\<lparr>fin = True, opcode = 0, key = None, payload = str ''lo''\<rparr>" and k = None and k' = None])
    (simp_all add: ping_between_def fresh_ws_def Websocket_def can_send_def ws_ok_def rp_new_def rp_wf_def rp_abs_def
      sb_append_abs frame_ok_def wire_def frame_bytes_def frame_head_def frame_body_def len_bytes_def)



end
