(* ===== verification/Av1.thy ===== *)
theory Av1
  imports Bits
begin

text \<open>
  AV1 units (\<open>lib/av1.cpp\<close>, \<open>lib/av1.h\<close>): the variable length code and the parser of the head of a unit. A pointer is
  a list that begins where it points, \<open>None\<close> the null pointer; the result \<open>None\<close> is a read out of the memory or a
  shift by more than the width of \<open>int\<close>. Sizes are natural numbers; the sum of a payload and its header does not
  wrap around, since a size has at most five bytes. Descriptions for the log are left out.
\<close>

function leb128 :: "nat \<Rightarrow> bytes" where
  "leb128 i = (if 0x80 \<le> i then of_nat ((i AND 0x7F) OR 0x80) # leb128 (drop_bit 7 i) else [of_nat i])"
  by pat_completeness auto
termination leb128
  by (relation "measure (\<lambda>i. i)") (auto simp: drop_bit_eq_div)

declare leb128.simps [simp del]

record obu =
  optr :: "bytes option"
  ol :: nat
  opl_size :: nat
  ohdr_size :: nat

text \<open>The bytes of the size: \<open>Some None\<close> when they run out.\<close>

function obu_length :: "bytes \<Rightarrow> nat \<Rightarrow> nat \<Rightarrow> u64 \<Rightarrow> nat \<Rightarrow> (nat \<times> u64) option option" where
  "obu_length p len hdr pl i =
     (if len < hdr + 1 then Some None
      else do {
        b \<leftarrow> rd p hdr;
        if 32 \<le> i * 7 then None
        else
          let pl = pl OR scast (push_bit (i * 7) (ucast (b AND 0x7F)) :: u32)
          in if b AND 0x80 \<noteq> 0 then obu_length p len (hdr + 1) pl (i + 1) else Some (Some (hdr + 1, pl)) })"
  by pat_completeness auto
termination obu_length
  by (relation "measure (\<lambda>(p, len, hdr, pl, i). len - hdr)") auto

declare obu_length.simps [simp del]

definition obu_type :: "byte \<Rightarrow> nat" where
  "obu_type b = unat (drop_bit 3 (b AND 0x78))"

definition delimiter :: "byte \<Rightarrow> obu \<Rightarrow> obu" where
  "delimiter b u = (if obu_type b = 2 \<and> opl_size u \<noteq> 0 then u\<lparr>opl_size := 0, ol := ohdr_size u\<rparr> else u)"

definition obu_init :: "bytes option \<Rightarrow> nat \<Rightarrow> obu option" where
  "obu_init ptr len =
     (case ptr of
        None \<Rightarrow> Some \<lparr>optr = None, ol = len, opl_size = 0, ohdr_size = 0\<rparr>
      | Some p \<Rightarrow>
          if len = 0 then Some \<lparr>optr = Some p, ol = 0, opl_size = 0, ohdr_size = 0\<rparr>
          else do {
            b \<leftarrow> rd p 0;
            let hdr = (if b AND 4 \<noteq> 0 then 2 else 1);
            if b AND 2 \<noteq> 0 then do {
              s \<leftarrow> obu_length p len hdr 0 0;
              case s of
                None \<Rightarrow> Some \<lparr>optr = None, ol = 0, opl_size = 0, ohdr_size = hdr\<rparr>
              | Some (hdr, pl) \<Rightarrow>
                  if len < unat pl + hdr then Some \<lparr>optr = None, ol = 0, opl_size = unat pl, ohdr_size = hdr\<rparr>
                  else Some (delimiter b \<lparr>optr = Some p, ol = unat pl + hdr, opl_size = unat pl, ohdr_size = hdr\<rparr>) }
            else Some (delimiter b \<lparr>optr = Some p, ol = len, opl_size = (len + 2 ^ 64 - hdr) mod 2 ^ 64, ohdr_size = hdr\<rparr>) })"

definition obu_isKeyframe :: "obu \<Rightarrow> bool option" where
  "obu_isKeyframe u =
     (case optr u of
        None \<Rightarrow> Some False
      | Some p \<Rightarrow>
          if ol u = 0 then Some False
          else do {
            b \<leftarrow> rd p 0;
            layer \<leftarrow> (if b AND 4 \<noteq> 0 \<and> 1 < ol u then do { c \<leftarrow> rd p 1; Some (c AND 0xE0 \<noteq> 0) } else Some False);
            if layer then Some False
            else if \<not> ohdr_size u < ol u then Some False
            else do {
              c \<leftarrow> rd p (ohdr_size u);
              Some (obu_type b = 1 \<and> c AND 0x08 \<noteq> 0 \<or> obu_type b \<in> {3, 6, 7} \<and> c AND 0xF0 = 0x10) } })"

section \<open>Properties\<close>

lemma leb128_small: "i < 0x80 \<Longrightarrow> leb128 i = [of_nat i]"
  by (subst leb128.simps) simp

lemma length_leb128: "n < 2 ^ (7 * k) \<Longrightarrow> 0 < k \<Longrightarrow> length (leb128 n) \<le> k"
proof (induction n arbitrary: k rule: leb128.induct)
  case (1 n)
  show ?case
  proof (cases "0x80 \<le> n")
    case True
    then obtain j where k: "k = Suc j" "0 < j" using 1(2,3) by (cases k; cases "k - 1") auto
    have "drop_bit 7 n < 2 ^ (7 * j)" using 1(2) k(1) by (simp add: drop_bit_eq_div power_add less_mult_imp_div_less mult.commute)
    then show ?thesis using 1(1) [OF True _ k(2)] True k(1) by (subst leb128.simps) simp
  next
    case False
    then show ?thesis using 1(3) by (subst leb128.simps) simp
  qed
qed

lemma and_7F: "(of_nat v :: byte) AND 0x7F = of_nat (take_bit 7 v)"
proof -
  have "(0x7F :: byte) = mask 7" by (simp add: mask_eq_exp_minus_1)
  then show ?thesis by (simp only: take_bit_eq_mask [symmetric] take_bit_of_nat)
qed

lemma last_byte:
  assumes "v < 128"
  shows "(of_nat v :: byte) AND 0x7F = of_nat v" "(of_nat v :: byte) AND 0x80 = 0"
proof -
  show "(of_nat v :: byte) AND 0x7F = of_nat v" using assms and_7F [of v] by (simp add: take_bit_nat_eq_self)
  then have "(of_nat v :: byte) AND 0x80 = (of_nat v AND 0x7F) AND 0x80" by simp
  then show "(of_nat v :: byte) AND 0x80 = 0" by (simp add: and.assoc)
qed

lemma more_byte:
  "(of_nat ((n AND 0x7F) OR 0x80) :: byte) AND 0x7F = of_nat (n mod 128)"
  "(of_nat ((n AND 0x7F) OR 0x80) :: byte) AND 0x80 \<noteq> 0"
proof -
  have "(0x7F :: nat) = mask 7" by (simp add: mask_eq_exp_minus_1)
  then have n: "n AND 0x7F = n mod 128" by (simp only: take_bit_eq_mask [symmetric]) (simp add: take_bit_eq_mod)
  have o: "(of_nat ((n AND 0x7F) OR 0x80) :: byte) = of_nat (n mod 128) OR 0x80"
    by (simp add: n of_nat_or_eq)
  show "(of_nat ((n AND 0x7F) OR 0x80) :: byte) AND 0x7F = of_nat (n mod 128)"
    using last_byte(1) [of "n mod 128"] by (simp add: o and.commute bit.conj_disj_distrib)
  show "(of_nat ((n AND 0x7F) OR 0x80) :: byte) AND 0x80 \<noteq> 0"
    by (simp add: o and.commute bit.conj_disj_distrib)
qed

lemma leb_byte:
  assumes "v < 128" "i < 4"
  shows "(scast (push_bit (i * 7) (ucast (of_nat v :: byte)) :: u32) :: u64) = of_nat (push_bit (i * 7) v)"
proof -
  have p: "v * 2 ^ (i * 7) < 2 ^ 28"
  proof -
    have "v * 2 ^ (i * 7) < 2 ^ 7 * 2 ^ (i * 7)" using assms(1) by simp
    also have "\<dots> = 2 ^ (7 + i * 7)" by (simp add: power_add)
    also have "\<dots> \<le> 2 ^ 28" using assms(2) by (intro power_increasing) auto
    finally show ?thesis .
  qed
  have "unat (of_nat v :: byte) = v" using assms(1) by (simp add: unat_of_nat)
  moreover have "(ucast (of_nat v :: byte) :: u32) = of_nat (unat (of_nat v :: byte))" by simp
  ultimately have "(ucast (of_nat v :: byte) :: u32) = of_nat v" by (simp only:)
  then have "push_bit (i * 7) (ucast (of_nat v :: byte)) = (of_nat (v * 2 ^ (i * 7)) :: u32)"
    by (simp add: push_bit_eq_mult)
  moreover have "sint (of_nat (v * 2 ^ (i * 7)) :: u32) = int (v * 2 ^ (i * 7))"
  proof -
    have "sint (of_nat w :: u32) = int w" if "w < 2 ^ 28" for w
    proof -
      have "sint (of_nat w :: u32) = signed_take_bit 31 (int w)" by (subst signed_of_nat) simp
      also have "\<dots> = int w" using that by (intro signed_take_bit_int_eq_self) simp_all
      finally show ?thesis .
    qed
    then show ?thesis using p by blast
  qed
  ultimately show ?thesis by (simp add: push_bit_eq_mult scast_eq)
qed

lemma rd_drop:
  assumes "drop i p = x # xs"
  shows "rd p i = Some x \<and> drop (i + 1) p = xs"
proof -
  have "i < length p" using assms by (metis drop_all linorder_not_less list.distinct(1))
  then show ?thesis using assms by (simp add: rd_def) (metis Cons_nth_drop_Suc list.inject)
qed

lemma obu_length_leb128:
  assumes "drop hdr p = leb128 n @ rest" "n * 2 ^ (7 * i) < 2 ^ 28" "a < 2 ^ (7 * i)" "hdr + length (leb128 n) \<le> len" "i < 4"
  shows "obu_length p len hdr (of_nat a) i = Some (Some (hdr + length (leb128 n), of_nat (a + n * 2 ^ (7 * i))))"
  using assms
proof (induction n arbitrary: hdr i a rule: leb128.induct)
  case (1 n)
  have step: "(of_nat a :: u64) OR scast (push_bit (i * 7) (ucast (of_nat v :: byte)) :: u32) = of_nat (a + v * 2 ^ (7 * i))" if "v < 128" for v
  proof -
    have "a OR push_bit (i * 7) v = a + v * 2 ^ (7 * i)"
      using or_shift [OF 1(4), of v] by (simp add: push_bit_eq_mult mult.commute)
    then show ?thesis using leb_byte [OF that 1(6)] by (simp only: of_nat_or_eq [symmetric])
  qed
  show ?case
  proof (cases "0x80 \<le> n")
    case True
    let ?b = "of_nat ((n AND 0x7F) OR 0x80) :: byte"
    have l: "leb128 n = ?b # leb128 (drop_bit 7 n)" using True by (subst leb128.simps) simp
    have d: "drop hdr p = ?b # leb128 (drop_bit 7 n) @ rest" using 1(2) l by simp
    then have r: "rd p hdr = Some ?b" "drop (hdr + 1) p = leb128 (drop_bit 7 n) @ rest"
      using rd_drop [OF d] by auto
    have e: "(drop_bit 7 n) * 2 ^ (7 * (i + 1)) + n mod 128 * 2 ^ (7 * i) = n * 2 ^ (7 * i)"
    proof -
      have "(2 :: nat) ^ (7 * (i + 1)) = 2 ^ (7 * i) * 128" by (simp add: power_add)
      moreover have "drop_bit 7 n = n div 128" by (simp add: drop_bit_eq_div)
      moreover have "q * (P * 128) + r * P = (128 * q + r) * P" for q r P :: nat by (simp add: algebra_simps)
      ultimately have "drop_bit 7 n * 2 ^ (7 * (i + 1)) + n mod 128 * 2 ^ (7 * i) = (128 * (n div 128) + n mod 128) * 2 ^ (7 * i)"
        by (simp only:)
      then show ?thesis by (simp only: mult_div_mod_eq)
    qed
    have i: "i < 3" using 1(3) True by (cases "i = 3") (use 1(6) in auto)
    have "a + n mod 128 * 2 ^ (7 * i) < 2 ^ (7 * (i + 1))"
    proof -
      have "n mod 128 * 2 ^ (7 * i) \<le> 127 * 2 ^ (7 * i)" by (intro mult_right_mono) (auto simp flip: less_Suc_eq_le)
      moreover have "(2 :: nat) ^ (7 * (i + 1)) = 128 * 2 ^ (7 * i)" by (simp add: power_add)
      ultimately show ?thesis using 1(4) by linarith
    qed
    moreover have "drop_bit 7 n * 2 ^ (7 * (i + 1)) < 2 ^ 28" using e 1(3) by linarith
    ultimately have "obu_length p len (hdr + 1) (of_nat (a + n mod 128 * 2 ^ (7 * i))) (i + 1) =
      Some (Some (hdr + 1 + length (leb128 (drop_bit 7 n)), of_nat (a + n mod 128 * 2 ^ (7 * i) + drop_bit 7 n * 2 ^ (7 * (i + 1)))))"
      using 1(5) l i by (intro 1(1) [OF True r(2)]) simp_all
    moreover have "a + n mod 128 * 2 ^ (7 * i) + drop_bit 7 n * 2 ^ (7 * (i + 1)) = a + n * 2 ^ (7 * i)" using e by linarith
    moreover have "obu_length p len hdr (of_nat a) i = obu_length p len (hdr + 1) (of_nat (a + n mod 128 * 2 ^ (7 * i))) (i + 1)"
      using r(1) i 1(5) l more_byte [of n] step [of "n mod 128"] by (subst obu_length.simps) simp
    ultimately show ?thesis by (simp only: l list.size add_Suc_right add_Suc add_0_left) simp
  next
    case False
    then have l: "leb128 n = [of_nat n]" by (simp add: leb128_small)
    then have "drop hdr p = of_nat n # rest" using 1(2) by simp
    then have r: "rd p hdr = Some (of_nat n)" using rd_drop by metis
    have n: "n < 128" using False by simp
    have "\<not> len < hdr + 1" "\<not> 32 \<le> i * 7" using 1(5,6) l by simp_all
    then show ?thesis
      by (subst obu_length.simps) (simp only: r l last_byte [OF n] step [OF n] Option.bind.simps Let_def if_False simp_thms list.size, simp)
  qed
qed


text \<open>C28: a unit that is written with the size of its payload as a \<open>leb128\<close> number is recognised with just that payload,
  whatever follows it: for sizes below 2 to the power of 28, with and without the byte of an extension.\<close>

theorem obu_init_leb128:
  assumes "b AND 2 \<noteq> 0" and "obu_type b \<noteq> 2" and "length ext = (if b AND 4 \<noteq> 0 then 1 else 0)"
    and "length payload < 2 ^ 28" and "u = b # ext @ leb128 (length payload) @ payload" and "len \<le> length (u @ rest)" and "length u \<le> len"
  shows "obu_init (Some (u @ rest)) len =
    Some \<lparr>optr = Some (u @ rest), ol = length u, opl_size = length payload, ohdr_size = length u - length payload\<rparr>"
proof -
  let ?h = "1 + length ext" and ?n = "length payload"
  have u: "unat (of_nat ?n :: u64) = ?n" using assms(4) by (simp add: unat_of_nat)
  have "drop ?h (u @ rest) = leb128 ?n @ payload @ rest" using assms(5) by simp
  then have s: "obu_length (u @ rest) len ?h (of_nat 0) 0 = Some (Some (?h + length (leb128 ?n), of_nat (0 + ?n * 2 ^ (7 * 0))))"
    using assms(4,5,7) by (intro obu_length_leb128) simp_all
  have h: "(if b AND 4 \<noteq> 0 then 2 else 1) = ?h" using assms(3) by simp
  have "rd (u @ rest) 0 = Some b" "len \<noteq> 0" using assms(5,7) by auto
  then show ?thesis using s assms(1,2,5,7) u
    by (simp add: obu_init_def h delimiter_def)
qed

theorem obu_init_leb128_witness:
  "\<exists>u. obu_init (Some (u @ [7])) 304 = Some \<lparr>optr = Some (u @ [7]), ol = 303, opl_size = 300, ohdr_size = 3\<rparr>"
proof -
  have l: "length (leb128 300) = 2" by code_simp
  define u :: bytes where "u = 0x32 # [] @ leb128 (length (replicate 300 (0 :: byte))) @ replicate 300 0"
  have "length u = 303" by (simp add: u_def l)
  then show ?thesis
    using obu_init_leb128 [where b = "0x32" and ext = "[]" and payload = "replicate 300 0" and u = u and len = 304 and rest = "[7]"] u_def by (intro exI [of _ u]) (simp add: obu_type_def)
qed

end
