(* ===== verification/Mpeg.thy ===== *)
theory Mpeg
  imports Bits
begin

text \<open>
  MPEG headers (\<open>lib/mpeg.cpp\<close>, \<open>lib/mpeg.h\<close>): the fields of an MPEG audio header and of the sequence and picture
  headers of MPEG-2 video, and the search for these in the first bytes of a frame. A pointer is the list that begins
  where it points; \<open>None\<close> is a read behind it. The frame rate, a \<open>double\<close>, is represented by its index in the table, the
  products of the table of sample rates with 1000 by their values.
\<close>

record mp2info =
  sampleRate :: u64
  channels :: byte
  layer :: byte

definition sampleRates :: "nat list" where
  "sampleRates = [44100, 48000, 32000, 22050, 24000, 16000]"

definition parseMP2Header :: "bytes \<Rightarrow> mp2info option" where
  "parseMP2Header hdr = do {
     b1 \<leftarrow> rd hdr 1;
     let mpegVersion = 1 - unat (drop_bit 3 b1 AND 1);
     b2 \<leftarrow> rd hdr 2;
     let i = unat (drop_bit 2 b2 AND 3);
     rate \<leftarrow> (if 3 \<le> i then None else rd sampleRates (3 * mpegVersion + i));
     b3 \<leftarrow> rd hdr 3;
     Some \<lparr>sampleRate = of_nat rate, channels = 2 - drop_bit 7 b3, layer = 4 - (drop_bit 1 b1 AND 3)\<rparr> }"

record mpeg2info =
  width :: u64
  height :: u64
  fps_index :: nat
  tempSeq :: u16
  frameType :: byte
  isHeader :: bool

definition mp_clear :: mpeg2info where
  "mp_clear = \<lparr>width = 0, height = 0, fps_index = 0, tempSeq = 0, frameType = 0, isHeader = False\<rparr>"

definition start_code :: "bytes \<Rightarrow> bool option" where
  "start_code hdr = do {
     b0 \<leftarrow> rd hdr 0;
     if b0 \<noteq> 0 then Some False
     else do { b1 \<leftarrow> rd hdr 1; if b1 \<noteq> 0 then Some False else do { b2 \<leftarrow> rd hdr 2; Some (b2 = 1) } } }"

definition parseMPEG2Header :: "bytes \<Rightarrow> mpeg2info \<Rightarrow> (bool \<times> mpeg2info) option" where
  "parseMPEG2Header hdr i = do {
     c \<leftarrow> start_code hdr;
     if \<not> c then Some (False, i)
     else do {
       b3 \<leftarrow> rd hdr 3;
       if b3 = 0xB3 then do {
         b4 \<leftarrow> rd hdr 4;
         b5 \<leftarrow> rd hdr 5;
         b6 \<leftarrow> rd hdr 6;
         b7 \<leftarrow> rd hdr 7;
         Some (True, i\<lparr>isHeader := True, width := push_bit 4 (ucast b4) OR (ucast (drop_bit 4 b5) AND 0x0F),
           height := push_bit 8 (ucast (b5 AND 0x0F)) OR ucast b6, fps_index := unat (b7 AND 0x0F)\<rparr>) }
       else if b3 = 0 then do {
         b4 \<leftarrow> rd hdr 4;
         b5 \<leftarrow> rd hdr 5;
         Some (True, i\<lparr>tempSeq := push_bit 2 (ucast b4) OR ucast (drop_bit 6 b5), frameType := drop_bit 3 (b5 AND 0x38)\<rparr>) }
       else Some (False, i) } }"

text \<open>The search; \<open>maxData\<close> is the distance of the pointer from the beginning.\<close>

function find_headers :: "bytes \<Rightarrow> int \<Rightarrow> nat \<Rightarrow> mpeg2info \<Rightarrow> mpeg2info option" where
  "find_headers hdr maxData k i =
     (if int k < maxData then do {
        b2 \<leftarrow> rd hdr (k + 2);
        if 1 < b2 then find_headers hdr maxData (k + 3) i
        else if b2 = 0 then do {
          b1 \<leftarrow> rd hdr (k + 1);
          find_headers hdr maxData (k + (if b1 \<noteq> 0 then 2 else 1)) i }
        else do {
          b0 \<leftarrow> rd hdr k;
          zero \<leftarrow> (if b0 = 0 then do { b1 \<leftarrow> rd hdr (k + 1); Some (b1 = 0) } else Some False);
          i \<leftarrow> (if zero then map_option snd (parseMPEG2Header (drop k hdr) i) else Some i);
          find_headers hdr maxData (k + 3) i } }
      else Some i)"
  by pat_completeness auto
termination find_headers
  by (relation "measure (\<lambda>(hdr, maxData, k, i). nat (maxData - int k))") auto

declare find_headers.simps [simp del]

definition parseMPEG2Headers :: "bytes \<Rightarrow> nat \<Rightarrow> mpeg2info option" where
  "parseMPEG2Headers hdr len =
     (let maxData = int len - 5
      in find_headers hdr (if 250 < maxData then 250 else maxData) 0 mp_clear)"

section \<open>Properties\<close>

text \<open>The same by looking at every position.\<close>

fun every_header :: "bytes \<Rightarrow> nat \<Rightarrow> nat \<Rightarrow> mpeg2info \<Rightarrow> mpeg2info option" where
  "every_header hdr 0 k i = Some i"
| "every_header hdr (Suc n) k i = do {
     i \<leftarrow> map_option snd (parseMPEG2Header (drop k hdr) i);
     every_header hdr n (k + 1) i }"

lemma no_header:
  assumes "k + 2 < length hdr" "\<not> (hdr ! k = 0 \<and> hdr ! (k + 1) = 0 \<and> hdr ! (k + 2) = 1)"
  shows "parseMPEG2Header (drop k hdr) i = Some (False, i)"
proof -
  have "rd (drop k hdr) 0 = Some (hdr ! k)" "rd (drop k hdr) 1 = Some (hdr ! (k + 1))" "rd (drop k hdr) 2 = Some (hdr ! (k + 2))"
    using assms(1) by (simp_all add: rd_def)
  then show ?thesis using assms(2) by (auto simp: parseMPEG2Header_def start_code_def)
qed

lemma every_skip:
  assumes "\<forall>j < d. k + j + 2 < length hdr \<longrightarrow> \<not> (hdr ! (k + j) = 0 \<and> hdr ! (k + j + 1) = 0 \<and> hdr ! (k + j + 2) = 1)"
    and "k + n + 2 < length hdr + 1"
  shows "every_header hdr n k i = every_header hdr (n - d) (k + d) i"
  using assms
proof (induction d arbitrary: n k)
  case (Suc d)
  show ?case
  proof (cases n)
    case (Suc m)
    have "parseMPEG2Header (drop k hdr) i = Some (False, i)"
      using Suc.prems Suc by (intro no_header) auto
    moreover have "every_header hdr m (k + 1) i = every_header hdr (m - d) (k + 1 + d) i"
      using Suc.prems Suc by (intro Suc.IH) auto
    ultimately show ?thesis using Suc by simp
  qed simp
qed simp

lemma small_cases: "w = 0 \<or> w = 1 \<or> 1 < (w :: byte)"
  by (auto simp: word_less_nat_alt word_unat_eq_iff)

lemma find_every:
  assumes "maxData + 5 \<le> int (length hdr)"
  shows "find_headers hdr maxData k i = every_header hdr (nat (maxData - int k)) k i"
proof (induction "nat (maxData - int k)" arbitrary: k i rule: less_induct)
  case less
  let ?n = "nat (maxData - int k)"
  show ?case
  proof (cases "int k < maxData")
    case True
    have ih: "find_headers hdr maxData (k + d) j = every_header hdr (?n - d) (k + d) j" if "0 < d" for d j
    proof -
      have "nat (maxData - int (k + d)) = ?n - d" "?n - d < ?n" using that True by auto
      then show ?thesis using less [of "k + d" j] by (simp only:)
    qed
    have rd: "rd hdr k = Some (hdr ! k)" "rd hdr (k + 1) = Some (hdr ! (k + 1))" "rd hdr (k + 2) = Some (hdr ! (k + 2))"
      using True assms by (simp_all add: rd_def)
    have n: "k + ?n + 2 < length hdr + 1" using True assms by auto
    note skip = every_skip [where k = k and hdr = hdr and n = ?n and i = i]
    note step = find_headers.simps [of hdr maxData k i]
    consider "1 < hdr ! (k + 2)" | "hdr ! (k + 2) = 0" "hdr ! (k + 1) \<noteq> 0" | "hdr ! (k + 2) = 0" "hdr ! (k + 1) = 0" | "hdr ! (k + 2) = 1"
      using small_cases [of "hdr ! (k + 2)"] by blast
    then show ?thesis
    proof cases
      case 1
      have "every_header hdr ?n k i = every_header hdr (?n - 3) (k + 3) i"
        using 1 n by (intro skip) (auto simp: less_Suc_eq numeral_eq_Suc)
      then show ?thesis using 1 True ih [of 3] unfolding step rd by simp
    next
      case 2
      have "every_header hdr ?n k i = every_header hdr (?n - 2) (k + 2) i"
        using 2 n by (intro skip) (auto simp: less_Suc_eq numeral_eq_Suc)
      then show ?thesis using 2 True ih [of 2] unfolding step rd by simp
    next
      case 3
      have "every_header hdr ?n k i = every_header hdr (?n - 1) (k + 1) i"
        using 3 n by (intro skip) (auto simp: less_Suc_eq numeral_eq_Suc)
      then show ?thesis using 3 True ih [of 1] unfolding step rd by simp
    next
      case 4
      obtain m where m: "?n = Suc m" using True by (cases ?n) auto
      have s2: "every_header hdr m (k + 1) j = every_header hdr (m - 2) (k + 1 + 2) j" for j
        using 4 n m by (intro every_skip) (auto simp: less_Suc_eq numeral_eq_Suc)
      have i3: "find_headers hdr maxData (k + 3) j = every_header hdr m (k + 1) j" for j
        using ih [of 3 j] s2 [of j] m by (simp add: numeral_eq_Suc)
      show ?thesis
      proof (cases "hdr ! k = 0 \<and> hdr ! (k + 1) = 0")
        case zero: True
        have "find_headers hdr maxData (k + 3) = every_header hdr m (k + 1)" by (rule ext) (rule i3)
        then show ?thesis using zero 4 True m unfolding step rd by simp
      next
        case False
        have "parseMPEG2Header (drop k hdr) i = Some (False, i)" using False n True m by (intro no_header) auto
        then show ?thesis using 4 False True m unfolding step rd by (simp add: i3)
      qed
    qed
  next
    case False
    then show ?thesis by (subst find_headers.simps) simp
  qed
qed

text \<open>The search for headers, which jumps over bytes that cannot be in a start code, finds the same as looking at every position of the
  first 250 bytes: the fields are those of the last sequence and picture header there. Both stop five bytes before the end.\<close>

theorem parseMPEG2Headers_every:
  assumes "len \<le> length hdr"
  shows "parseMPEG2Headers hdr len = every_header hdr (min 250 (len - 5)) 0 mp_clear"
proof -
  have "nat (if 250 < int len - 5 then 250 else int len - 5) = min 250 (len - 5)" by auto
  then show ?thesis using find_every [of _ hdr 0 mp_clear] assms by (auto simp: parseMPEG2Headers_def Let_def)
qed

theorem parseMPEG2Headers_every_witness:
  "parseMPEG2Headers [0, 0, 1, 0, 0x12, 0x48, 0, 0, 0] 9 = every_header [0, 0, 1, 0, 0x12, 0x48, 0, 0, 0] 4 0 mp_clear"
  using parseMPEG2Headers_every [of 9 "[0, 0, 1, 0, 0x12, 0x48, 0, 0, 0]"] by simp

end
