(* ===== verification/Adts.thy ===== *)
theory Adts
  imports Bitstream
begin

text \<open>
  AAC headers (\<open>lib/adts.cpp\<close>, \<open>lib/adts.h\<close>): the frames of an ADTS stream and the fields of the \<open>AudioSpecificConfig\<close>.
  The memory of a frame is its list of bytes, \<open>None\<close> the null pointer; the result \<open>None\<close> is a read behind the frame.
\<close>

type_synonym adts = "bytes option"

definition adts_new :: adts where
  "adts_new = None"

definition adts_of :: "bytes \<Rightarrow> adts" where
  "adts_of d = Some d"

definition adts_assign :: "adts \<Rightarrow> adts" where
  "adts_assign rhs = Some (case rhs of Some d \<Rightarrow> d | None \<Rightarrow> [])"

text \<open>\<open>!data || len < n\<close>\<close>

definition shorter :: "adts \<Rightarrow> nat \<Rightarrow> bool" where
  "shorter a n = (case a of None \<Rightarrow> True | Some d \<Rightarrow> length d < n)"

definition at :: "adts \<Rightarrow> nat \<Rightarrow> nat option" where
  "at a i = (case a of None \<Rightarrow> None | Some d \<Rightarrow> map_option unat (rd d i))"

definition getAACProfile :: "adts \<Rightarrow> nat option" where
  "getAACProfile a = (if shorter a 1 then Some 0 else do { b \<leftarrow> at a 2; Some ((drop_bit 6 b AND 3) + 1) })"

definition getFrequencyIndex :: "adts \<Rightarrow> nat option" where
  "getFrequencyIndex a = (if shorter a 1 then Some 0 else do { b \<leftarrow> at a 2; Some (drop_bit 2 b AND 0x0F) })"

definition frequency :: "nat \<Rightarrow> nat" where
  "frequency i =
     (if i = 0 then 96000 else if i = 1 then 88200 else if i = 2 then 64000 else if i = 3 then 48000
      else if i = 4 then 44100 else if i = 5 then 32000 else if i = 6 then 24000 else if i = 7 then 22050
      else if i = 8 then 16000 else if i = 9 then 12000 else if i = 10 then 11025 else if i = 11 then 8000
      else if i = 12 then 7350 else 0)"

definition getFrequency :: "adts \<Rightarrow> nat option" where
  "getFrequency a = (if shorter a 3 then Some 0 else map_option frequency (getFrequencyIndex a))"

definition getChannelConfig :: "adts \<Rightarrow> nat option" where
  "getChannelConfig a =
     (if shorter a 1 then Some 0
      else do { b \<leftarrow> at a 2; c \<leftarrow> at a 3; Some (push_bit 2 (b AND 1) OR (drop_bit 6 c AND 3)) })"

definition getChannelCount :: "adts \<Rightarrow> nat option" where
  "getChannelCount a =
     (if shorter a 1 then Some 0 else do { c \<leftarrow> getChannelConfig a; Some (if c = 7 then 8 else c) })"

definition getHeaderSize :: "adts \<Rightarrow> nat option" where
  "getHeaderSize a = (if shorter a 1 then Some 0 else do { b \<leftarrow> at a 1; Some (if b AND 1 \<noteq> 0 then 7 else 9) })"

definition getCompleteSize :: "adts \<Rightarrow> nat option" where
  "getCompleteSize a =
     (if shorter a 6 then Some 0
      else do {
        b3 \<leftarrow> at a 3; b4 \<leftarrow> at a 4; b5 \<leftarrow> at a 5;
        Some (push_bit 11 (b3 AND 3) OR push_bit 3 b4 OR (drop_bit 5 b5 AND 7)) })"

definition getPayloadSize :: "adts \<Rightarrow> nat option" where
  "getPayloadSize a = do {
     ret \<leftarrow> getCompleteSize a;
     if ret = 0 then Some ret
     else do { h \<leftarrow> getHeaderSize a; Some (if h \<le> ret then ret - h else 0) } }"

definition getSampleCount :: "adts \<Rightarrow> nat option" where
  "getSampleCount a = (if shorter a 7 then Some 0 else do { b \<leftarrow> at a 6; Some (((b AND 3) + 1) * 1024) })"

text \<open>A position in the frame; \<open>None\<close> is the null pointer.\<close>

definition getPayload :: "adts \<Rightarrow> nat option option" where
  "getPayload a = (if shorter a 1 then Some None else map_option Some (getHeaderSize a))"

definition hasSync :: "adts \<Rightarrow> bool option" where
  "hasSync a =
     (if (case a of None \<Rightarrow> True | Some d \<Rightarrow> d = []) then Some False
      else do { b0 \<leftarrow> at a 0; b1 \<leftarrow> at a 1; Some (push_bit 4 b0 OR (drop_bit 4 b1 AND 0x0F) = 0xFFF) })"

definition adts_ok :: "adts \<Rightarrow> bool option" where
  "adts_ok a = do {
     s \<leftarrow> hasSync a;
     if \<not> s then Some False
     else do {
       h \<leftarrow> getHeaderSize a;
       if shorter a h then Some False
       else do {
         f \<leftarrow> getFrequency a;
         if f = 0 then Some False
         else do {
           c \<leftarrow> getChannelCount a;
           if c = 0 then Some False else do { n \<leftarrow> getSampleCount a; Some (n \<noteq> 0) } } } } }"

definition sameHeader :: "adts \<Rightarrow> adts \<Rightarrow> bool option" where
  "sameHeader a rhs = do {
     r \<leftarrow> adts_ok rhs;
     if \<not> r then Some False
     else do {
       l \<leftarrow> adts_ok a;
       if \<not> l then Some False
       else do {
         p \<leftarrow> getAACProfile a; p' \<leftarrow> getAACProfile rhs;
         if p \<noteq> p' then Some False
         else do {
           f \<leftarrow> getFrequencyIndex a; f' \<leftarrow> getFrequencyIndex rhs;
           if f \<noteq> f' then Some False
           else do { c \<leftarrow> getChannelConfig a; c' \<leftarrow> getChannelConfig rhs; Some (c = c') } } } } }"

definition getInit :: "adts \<Rightarrow> bytes option" where
  "getInit a = do {
     p \<leftarrow> getAACProfile a;
     f \<leftarrow> getFrequencyIndex a;
     c \<leftarrow> getChannelConfig a;
     Some [of_nat (push_bit 3 (p AND 0x1F) OR drop_bit 1 (f AND 0x0E)),
           of_nat (push_bit 7 (f AND 1) OR push_bit 3 (c AND 0x0F))] }"

section \<open>AudioSpecificConfig\<close>

text \<open>\<open>can\<close> says which allocations succeed.\<close>

definition conf_stream :: "(nat \<Rightarrow> bool) \<Rightarrow> bytes \<Rightarrow> bitstream option" where
  "conf_stream can conf = bs_append can \<lparr>data = [], offset = 0, bufferSize = 0\<rparr> conf"

definition skip_type :: "bitstream \<Rightarrow> bitstream option" where
  "skip_type s = do { (t, s) \<leftarrow> bs_get s 5; Some (if t = 31 then bs_skip s 6 else s) }"

definition rate :: "(nat \<Rightarrow> bool) \<Rightarrow> bytes \<Rightarrow> u32 option" where
  "rate can conf = do {
     s \<leftarrow> conf_stream can conf;
     s \<leftarrow> skip_type s;
     (f, s) \<leftarrow> bs_get s 4;
     if f = 15 then do { (r, s) \<leftarrow> bs_get s 24; Some (ucast r) } else Some (of_nat (frequency (unat f))) }"

definition skip_frequency :: "bitstream \<Rightarrow> bitstream option" where
  "skip_frequency s = do { (f, s) \<leftarrow> bs_get s 4; Some (if f = 15 then bs_skip s 24 else s) }"

definition channels :: "(nat \<Rightarrow> bool) \<Rightarrow> bytes \<Rightarrow> u16 option" where
  "channels can conf = do {
     s \<leftarrow> conf_stream can conf;
     s \<leftarrow> skip_type s;
     s \<leftarrow> skip_frequency s;
     (c, s) \<leftarrow> bs_get s 4;
     let chanConfig = (ucast c :: byte);
     Some (if chanConfig = 0 then 8 else if chanConfig > 7 then 8 else if chanConfig = 7 then 8 else ucast chanConfig) }"

definition objtype :: "(nat \<Rightarrow> bool) \<Rightarrow> bytes \<Rightarrow> byte option" where
  "objtype can conf = do {
     s \<leftarrow> conf_stream can conf;
     (t, s) \<leftarrow> bs_get s 5;
     if (ucast t :: byte) = 31 then do { (t, s) \<leftarrow> bs_get s 6; Some (ucast (t + 32)) } else Some (ucast t) }"

definition samples :: "(nat \<Rightarrow> bool) \<Rightarrow> bytes \<Rightarrow> u16 option" where
  "samples can conf = do {
     s \<leftarrow> conf_stream can conf;
     s \<leftarrow> skip_type s;
     s \<leftarrow> skip_frequency s;
     (b, s) \<leftarrow> bs_get (bs_skip s 4) 1;
     Some (if b \<noteq> 0 then 960 else 1024) }"


section \<open>The header of a frame\<close>

text \<open>\<open>TS::getAudioHeader\<close>, in \<open>lib/ts_packet.h\<close>, for a length that is not negative.\<close>

definition header_profile :: "bytes \<Rightarrow> byte" where
  "header_profile initData =
     (if initData = [] then 0
      else
        let h = push_bit 6 (drop_bit 3 (initData ! 0) - 1) AND 0xC0
        in if 1 < length initData then
             h OR push_bit 2 (push_bit 1 (initData ! 0 AND 0x07) OR (drop_bit 7 (initData ! 1) AND 0x01)) OR
             drop_bit 5 (initData ! 1 AND 0x20)
           else h)"

definition getAudioHeader :: "nat \<Rightarrow> bytes \<Rightarrow> bytes" where
  "getAudioHeader FrameLen initData =
     (let n = FrameLen + 7;
          c = (if 1 < length initData then push_bit 3 (initData ! 1 AND 0x18) else 0)
      in [0xFF, 0xF1, header_profile initData, c OR of_nat (drop_bit 11 (n AND 0x1800)), of_nat (drop_bit 3 (n AND 0x7F8)),
          0x1F OR of_nat (push_bit 5 (n AND 7)), 0xFC])"

section \<open>Properties\<close>

lemma byte_eqI:
  assumes "bit x 0 = bit y 0" "bit x 1 = bit y 1" "bit x 2 = bit y 2" "bit x 3 = bit y 3"
    "bit x 4 = bit y 4" "bit x 5 = bit y 5" "bit x 6 = bit y 6" "bit x 7 = bit (y :: byte) 7"
  shows "x = y"
proof (rule bit_word_eqI)
  fix n assume "n < LENGTH(8)"
  then have "n = 0 \<or> n = 1 \<or> n = 2 \<or> n = 3 \<or> n = 4 \<or> n = 5 \<or> n = 6 \<or> n = 7" by auto
  then show "bit x n = bit y n" using assms by auto
qed

lemmas byte_bits = bit_and_iff bit_or_iff bit_push_bit_iff bit_drop_bit_eq bit_unsigned_iff bit_of_nat_iff possible_bit_word

lemma bit_twice: "bit (x * 2) n \<longleftrightarrow> 0 < n \<and> n < 8 \<and> bit (x :: byte) (n - 1)"
  using bit_double_iff [of x n] by (auto simp: mult.commute possible_bit_word)

lemma unat_ops:
  "unat (x AND y) = unat x AND unat y" "unat (x OR y) = unat x OR unat y" "unat (drop_bit n x) = drop_bit n (unat x)"
  by (simp_all add: unsigned_and_eq unsigned_or_eq unsigned_drop_bit_eq take_bit_nat_eq_self)

lemma header_profile_bits:
  fixes a b :: byte
  assumes "drop_bit 3 a = c"
  defines "h \<equiv> header_profile [a, b]"
  shows "bit h 0 = bit b 5" "\<not> bit h 1" "bit h 2 = bit b 7" "bit h 3 = bit a 0" "bit h 4 = bit a 1" "bit h 5 = bit a 2"
    "bit h 6 = bit (c - 1) 0" "bit h 7 = bit (c - 1) 1"
  using assms by (simp_all add: header_profile_def byte_bits bit_twice Let_def)


lemma getInit_header:
  fixes a b :: byte
  assumes a: "drop_bit 3 a = of_nat (p + 1)" "p < 4" and b: "b AND 0x47 = 0" and d: "4 \<le> length d" "d ! 2 = header_profile [a, b]"
    and c: "drop_bit 6 (d ! 3) = drop_bit 3 (b AND 0x18)"
  shows "getInit (Some d) = Some [a, b]" "getAACProfile (Some d) = Some (p + 1)"
    "getFrequencyIndex (Some d) = Some (unat (push_bit 1 (a AND 7) OR drop_bit 7 b))"
    "getChannelConfig (Some d) = Some (unat (drop_bit 3 b AND 7))"
proof -
  define h where "h = header_profile [a, b]"
  have pp: "of_nat (p + 1) - 1 = (of_nat p :: byte)" by simp
  note h = header_profile_bits [OF a(1), of b, folded h_def, unfolded pp]
  have bb: "\<not> bit b 0" "\<not> bit b 1" "\<not> bit b 2" "\<not> bit b 6"
    using arg_cong [OF b, of "\<lambda>w. bit w 0"] arg_cong [OF b, of "\<lambda>w. bit w 1"] arg_cong [OF b, of "\<lambda>w. bit w 2"] arg_cong [OF b, of "\<lambda>w. bit w 6"]
    by (simp_all add: byte_bits)
  have c6: "bit (d ! 3) 6 = bit b 3" "bit (d ! 3) 7 = bit b 4"
    using arg_cong [OF c, of "\<lambda>w. bit w 0"] arg_cong [OF c, of "\<lambda>w. bit w 1"] by (simp_all add: byte_bits)
  have high: "\<not> bit (w :: byte) n" if "8 \<le> n" for w n using that bit_imp_le_length [of w n] by auto
  have "p = 0 \<or> p = 1 \<or> p = 2 \<or> p = 3" using a(2) by linarith
  then consider "p = 0" | "p = 1" | "p = 2" | "p = 3" by blast
  then have "drop_bit 6 h = of_nat p"
  proof cases
    case 1
    show ?thesis unfolding 1 by (intro byte_eqI) (simp_all add: byte_bits h high 1)
  next
    case 2
    show ?thesis unfolding 2 by (intro byte_eqI) (simp_all add: byte_bits h high 2)
  next
    case 3
    show ?thesis unfolding 3 by (intro byte_eqI) (simp_all add: byte_bits h high 3)
  next
    case 4
    show ?thesis unfolding 4 by (intro byte_eqI) (simp_all add: byte_bits h high 4)
  qed
  have at: "at (Some d) 2 = Some (unat h)" "at (Some d) 3 = Some (unat (d ! 3))" using d by (simp_all add: at_def rd_def h_def)
  have len: "\<not> shorter (Some d) 1" using d(1) by (cases d) (simp_all add: shorter_def)
  have p: "unat (of_nat p :: byte) = p" using a(2) by (simp add: unat_of_nat)
  have "drop_bit 6 (unat h) AND 3 = unat (drop_bit 6 h AND 3)" by (simp add: unat_ops)
  also have "drop_bit 6 h AND 3 = of_nat p"
  proof -
    consider "p = 0" | "p = 1" | "p = 2" | "p = 3" using a(2) by linarith
    then show ?thesis unfolding \<open>drop_bit 6 h = of_nat p\<close> by cases auto
  qed
  finally show prof: "getAACProfile (Some d) = Some (p + 1)" using at len p by (simp add: getAACProfile_def)
  have "drop_bit 2 (unat h) AND 0x0F = unat (drop_bit 2 h AND 0x0F)" by (simp add: unat_ops)
  also have "drop_bit 2 h AND 0x0F = push_bit 1 (a AND 7) OR drop_bit 7 b"
    by (intro byte_eqI) (simp_all add: byte_bits h bit_twice high)
  finally show freq: "getFrequencyIndex (Some d) = Some (unat (push_bit 1 (a AND 7) OR drop_bit 7 b))"
    using at len by (simp only: getFrequencyIndex_def) simp
  have "push_bit 2 (unat h AND 1) OR (drop_bit 6 (unat (d ! 3)) AND 3) = unat (push_bit 2 (h AND 1) OR (drop_bit 6 (d ! 3) AND 3))"
  proof -
    have u: "unat h AND 1 = unat (h AND 1)" by (simp only: unat_ops) simp
    have "h AND 1 = 0 \<or> h AND 1 = 1" by (simp add: and_one_eq mod_2_eq_odd)
    then have "push_bit 2 (unat (h AND 1)) = unat (push_bit 2 (h AND 1))" by (elim disjE) simp_all
    then show ?thesis by (simp only: u unat_ops) (simp add: unat_ops)
  qed
  also have "push_bit 2 (h AND 1) OR (drop_bit 6 (d ! 3) AND 3) = drop_bit 3 b AND 7"
    by (intro byte_eqI) (simp_all add: byte_bits h c6 bit_twice high)
  finally show chan: "getChannelConfig (Some d) = Some (unat (drop_bit 3 b AND 7))"
    using at len by (simp only: getChannelConfig_def) simp
  let ?F = "push_bit 1 (a AND 7) OR drop_bit 7 b" and ?C = "drop_bit 3 b AND 7"
  define e where "e = p + 1"
  have a37: "bit a 3 = bit (of_nat e :: byte) 0" "bit a 4 = bit (of_nat e :: byte) 1" "bit a 5 = bit (of_nat e :: byte) 2"
    "bit a 6 = bit (of_nat e :: byte) 3" "bit a 7 = bit (of_nat e :: byte) 4"
    unfolding e_def a(1) [symmetric] by (simp_all add: bit_drop_bit_eq)
  have two: "Suc (Suc 0) = 2" by simp
  have "e = 1 \<or> e = 2 \<or> e = 3 \<or> e = 4" using a(2) unfolding e_def by linarith
  then have "of_nat (push_bit 3 (e AND 0x1F) OR drop_bit 1 (unat ?F AND 0x0E)) = a"
    by (elim disjE; intro byte_eqI; simp add: byte_bits bit_twice high a37 bit_Suc_0_iff two)
  moreover have odd: "odd (unat w) = bit w 0" for w :: byte by (simp add: bit_unsigned_iff flip: bit_0)
  have "of_nat (push_bit 7 (unat ?F AND 1) OR push_bit 3 (unat ?C AND 0x0F)) = b"
    by (intro byte_eqI) (simp_all add: byte_bits bb bb [simplified] bit_twice high odd)
  ultimately show "getInit (Some d) = Some [a, b]" by (simp only: getInit_def prof freq chan e_def) simp
qed


definition adts_frame :: "bytes \<Rightarrow> bytes \<Rightarrow> bytes" where
  "adts_frame initData payload = getAudioHeader (length payload) initData @ payload"

lemma adts_frame_bytes:
  fixes a b :: byte
  assumes d_def: "d = adts_frame [a, b] payload"
  shows "length d = 7 + length payload" "d ! 0 = 0xFF" "d ! 1 = 0xF1" "d ! 2 = header_profile [a, b]"
    "d ! 3 = push_bit 3 (b AND 0x18) OR of_nat (drop_bit 11 ((length payload + 7) AND 0x1800))"
    "d ! 4 = of_nat (drop_bit 3 ((length payload + 7) AND 0x7F8))" "d ! 5 = 0x1F OR of_nat (push_bit 5 ((length payload + 7) AND 7))"
    "d ! 6 = 0xFC" "drop 7 d = payload"
  by (simp_all add: d_def adts_frame_def getAudioHeader_def Let_def numeral_eq_Suc)

lemma adts_masks: "n AND 3 = n mod 4" "n AND 7 = n mod 8" "n AND 0xFF = n mod (256 :: nat)"
proof -
  have m: "n AND mask k = n mod 2 ^ k" for k by (simp only: take_bit_eq_mask [symmetric] take_bit_eq_mod)
  have "(3 :: nat) = mask 2" "(7 :: nat) = mask 3" "(0xFF :: nat) = mask 8" by (simp_all add: mask_eq_exp_minus_1)
  then show "n AND 3 = n mod 4" "n AND 7 = n mod 8" "n AND 0xFF = n mod (256 :: nat)" by (simp_all only: m) simp_all
qed

lemma complete_size:
  fixes c :: byte
  assumes n: "n < 2 ^ 13" and c: "\<not> bit c 0" "\<not> bit c 1"
  shows "push_bit 11 (unat (c OR of_nat (drop_bit 11 (n AND 0x1800))) AND 3) OR push_bit 3 (unat (of_nat (drop_bit 3 (n AND 0x7F8)) :: byte)) OR
    (drop_bit 5 (unat (0x1F OR of_nat (push_bit 5 (n AND 7)) :: byte)) AND 7) = n"
proof -
  define x where "x = n div 2048"
  define y where "y = n div 8 mod 256"
  define z where "z = n mod 8"
  have b: "x < 4" "y < 256" "z < 8" using n by (simp_all add: x_def y_def z_def)
  have e: "drop_bit 11 (n AND 0x1800) = x" "drop_bit 3 (n AND 0x7F8) = y" "n AND 7 = z"
  proof -
    have "drop_bit 11 (0x1800 :: nat) = 3" "drop_bit 3 (0x7F8 :: nat) = 0xFF" by simp_all
    then have "drop_bit 11 (n AND 0x1800) = drop_bit 11 n mod 4" "drop_bit 3 (n AND 0x7F8) = drop_bit 3 n mod 256"
      by (simp_all only: drop_bit_and adts_masks)
    then show "drop_bit 11 (n AND 0x1800) = x" "drop_bit 3 (n AND 0x7F8) = y"
      using b(1) by (simp_all only: x_def y_def drop_bit_eq_div) simp_all
    show "n AND 7 = z" by (simp only: z_def adts_masks)
  qed
  have "(c OR of_nat x) AND 3 = of_nat x"
  proof -
    have "x = 0 \<or> x = 1 \<or> x = 2 \<or> x = 3" using b(1) by linarith
    then show ?thesis by (elim disjE; intro byte_eqI; simp add: byte_bits c c [simplified])
  qed
  then have 1: "unat (c OR of_nat x) AND 3 = x" using b(1) unat_ops(1) [of "c OR of_nat x" 3] by (simp add: unat_of_nat)
  have 2: "unat (of_nat y :: byte) = y" using b(2) by (simp add: unat_of_nat)
  have 3: "drop_bit 5 (unat (0x1F OR of_nat (push_bit 5 z) :: byte)) AND 7 = z"
  proof -
    have "z = 0 \<or> z = 1 \<or> z = 2 \<or> z = 3 \<or> z = 4 \<or> z = 5 \<or> z = 6 \<or> z = 7" using b(3) by linarith
    then show ?thesis by (elim disjE) simp_all
  qed
  have "z OR push_bit 3 (y OR push_bit 8 x) = z + push_bit 3 (y + push_bit 8 x)"
    using b or_shift [of y 8 x] or_shift [of z 3] by simp
  also have "\<dots> = z + 8 * y + 2048 * x" by (simp add: push_bit_eq_mult)
  also have "\<dots> = n"
  proof -
    have "n div 8 div 256 = x" by (simp add: x_def flip: div_mult2_eq)
    then show ?thesis using mult_div_mod_eq [of 8 n] mult_div_mod_eq [of 256 "n div 8"] unfolding y_def z_def by linarith
  qed
  finally show ?thesis unfolding e 1 2 3 by (simp add: push_bit_or or.assoc or.commute or.left_commute)
qed


lemma frame_third_byte:
  fixes b :: byte
  assumes "x < 4"
  shows "drop_bit 6 (push_bit 3 (b AND 0x18) OR of_nat x) = drop_bit 3 (b AND 0x18)"
proof -
  have "x = 0 \<or> x = 1 \<or> x = 2 \<or> x = 3" using assms by linarith
  then show ?thesis
    using bit_imp_le_length [of b 8] bit_imp_le_length [of b 9] bit_imp_le_length [of b 10]
    by (elim disjE; intro byte_eqI; simp add: byte_bits)
qed

text \<open>C29: a frame made with \<open>getAudioHeader\<close> from two bytes of init data is read back by \<open>adts\<close>: the init data, the length of the
  payload, and where it begins; the frame is accepted when the frequency is one of the table and there are channels. The
  audio object type is one of 1 to 4, the channel configuration less than 8, and the rest of the init data is zero.\<close>

theorem adts_round_trip:
  assumes "drop_bit 3 a = of_nat (p + 1)" and "p < 4" and "b AND 0x47 = (0 :: byte)" and "length payload + 7 < 2 ^ 13"
  shows "getInit (Some (adts_frame [a, b] payload)) = Some [a, b] \<and>
    getPayloadSize (Some (adts_frame [a, b] payload)) = Some (length payload) \<and>
    getPayload (Some (adts_frame [a, b] payload)) = Some (Some 7) \<and> drop 7 (adts_frame [a, b] payload) = payload \<and>
    getSampleCount (Some (adts_frame [a, b] payload)) = Some 1024 \<and>
    adts_ok (Some (adts_frame [a, b] payload)) =
      Some (frequency (unat (push_bit 1 (a AND 7) OR drop_bit 7 b)) \<noteq> 0 \<and> drop_bit 3 b AND 7 \<noteq> 0)"
proof -
  define d where "d = adts_frame [a, b] payload"
  note fb = adts_frame_bytes [OF d_def]
  have at: "at (Some d) i = Some (unat (d ! i))" if "i < 7" for i using that fb(1) by (simp add: at_def rd_def)
  have sh: "shorter (Some d) i \<longleftrightarrow> False" if "i \<le> 7" for i using that fb(1) by (simp add: shorter_def)
  have x: "drop_bit 11 ((length payload + 7) AND 0x1800) < 4"
  proof -
    have "drop_bit 11 (0x1800 :: nat) = 3" by simp
    then have "drop_bit 11 ((length payload + 7) AND 0x1800) = drop_bit 11 (length payload + 7) mod 4"
      by (simp only: drop_bit_and adts_masks)
    then show ?thesis by simp
  qed
  note i = getInit_header [OF assms(1-3), of d, OF _ fb(4) frame_third_byte [OF x, of b, folded fb(5)]]
  have l: "4 \<le> length d" using fb(1) by simp
  have c: "\<not> bit (push_bit 3 (b AND 0x18)) 0" "\<not> bit (push_bit 3 (b AND 0x18)) 1" by (simp_all add: byte_bits)
  have h: "getHeaderSize (Some d) = Some 7" using at [of 1] sh [of 1] fb(3) by (simp add: getHeaderSize_def)
  have n: "getCompleteSize (Some d) = Some (length payload + 7)"
    using at [of 3] at [of 4] at [of 5] sh [of 6] complete_size [OF assms(4) c]
    by (simp only: getCompleteSize_def fb if_False Option.bind.simps)
  have s: "hasSync (Some d) = Some True"
    using at [of 0] at [of 1] l fb(2,3) by (cases d) (simp_all add: hasSync_def)
  have f: "getFrequency (Some d) = Some (frequency (unat (push_bit 1 (a AND 7) OR drop_bit 7 b)))"
    using sh [of 3] i(3) [OF l] by (simp add: getFrequency_def)
  have k: "getSampleCount (Some d) = Some 1024"
    using at [of 6] sh [of 7] fb(8) by (simp add: getSampleCount_def)
  have cc: "getChannelCount (Some d) = Some (if drop_bit 3 b AND 7 = 7 then 8 else unat (drop_bit 3 b AND 7))"
    using sh [of 1] i(4) [OF l] by (simp add: getChannelCount_def word_unat_eq_iff)
  show ?thesis
    unfolding d_def [symmetric]
    using i(1) [OF l] h n s f k cc sh [of 7] sh [of 1] fb(9)
    by (auto simp: getPayloadSize_def getPayload_def adts_ok_def word_unat_eq_iff)
qed

theorem adts_round_trip_witness:
  "getInit (Some (adts_frame [0x12, 0x10] [1, 2, 3])) = Some [0x12, 0x10] \<and>
    getPayloadSize (Some (adts_frame [0x12, 0x10] [1, 2, 3])) = Some (length [1, 2, 3 :: byte]) \<and>
    getPayload (Some (adts_frame [0x12, 0x10] [1, 2, 3])) = Some (Some 7) \<and> drop 7 (adts_frame [0x12, 0x10] [1, 2, 3]) = [1, 2, 3] \<and>
    getSampleCount (Some (adts_frame [0x12, 0x10] [1, 2, 3])) = Some 1024 \<and>
    adts_ok (Some (adts_frame [0x12, 0x10] [1, 2, 3])) = Some True"
  using adts_round_trip [of "0x12" 1 "0x10" "[1, 2, 3]"] by (simp add: frequency_def)


lemma unat_drop: "unat (drop_bit n w) = unat w div 2 ^ n"
  by (simp only: unat_ops) (simp add: drop_bit_eq_div)

lemma unat_frequency: "unat (push_bit 1 (a AND 7) OR drop_bit 7 (b :: byte)) = 2 * (unat a mod 8) + unat b div 128"
proof -
  have a: "unat (a AND 7) = unat a mod 8" by (simp add: unat_ops adts_masks)
  have "unat (push_bit 1 (a AND 7)) = 2 * (unat a mod 8)"
    by (simp only: unsigned_push_bit_eq a) (simp add: push_bit_eq_mult take_bit_nat_eq_self)
  moreover have "unat b div 128 < 2 ^ 1" using unsigned_less [of b, where ?'a = nat] by simp
  ultimately show ?thesis
    using or_shift [of "unat b div 128" 1 "unat a mod 8"]
    by (simp only: unat_ops(2) unat_drop) (simp add: push_bit_eq_mult or.commute mult.commute)
qed

lemma conf_fields:
  fixes a b :: byte
  assumes "can 2"
  defines "s \<equiv> \<lparr>data = [a, b], offset = 0, bufferSize = 2\<rparr>"
  shows "conf_stream can [a, b] = Some s" "bs_get s 5 = Some (of_nat (unat a div 8), s\<lparr>offset := 5\<rparr>)"
    "bs_get (s\<lparr>offset := 5\<rparr>) 4 = Some (of_nat (2 * (unat a mod 8) + unat b div 128), s\<lparr>offset := 9\<rparr>)"
    "bs_get (s\<lparr>offset := 9\<rparr>) 4 = Some (of_nat (unat b div 8 mod 16), s\<lparr>offset := 13\<rparr>)"
    "bs_get (s\<lparr>offset := 13\<rparr>) 1 = Some (of_nat (unat b div 4 mod 2), s\<lparr>offset := 14\<rparr>)"
proof -
  have "can (Suc (Suc 0))" using assms(1) by (simp add: numeral_2_eq_2)
  then show "conf_stream can [a, b] = Some s" by (simp add: s_def conf_stream_def bs_append_def checkBufferSize_def)
  have t: "take n (drop (8 * q + r) (bits [a, b])) = bl_of n (drop_bit (8 - r - n) (unat ([a, b] ! q)))" if "r + n \<le> 8" "q < 2" for n q r
    using take_drop_bits [OF that(1), of q "[a, b]"] that(2) by simp
  have l: "bits_left (s\<lparr>offset := k\<rparr>) = drop k (bits [a, b])" "bs_size (s\<lparr>offset := k\<rparr>) = 16 - k" for k
    by (simp_all add: bits_left_def bs_size_def s_def)
  have l0: "bits_left s = bits [a, b]" "bs_size s = 16" "offset s = 0" by (simp_all add: bits_left_def bs_size_def s_def)
  have "unat a div 8 < 2 ^ 5" using unsigned_less [of a, where ?'a = nat] by simp
  then show "bs_get s 5 = Some (of_nat (unat a div 8), s\<lparr>offset := 5\<rparr>)"
    using bs_get_eq [of 5 s] t [of 0 5 0] by (simp add: l0 bl_val_bl_of take_bit_eq_mod drop_bit_eq_div)
  show "bs_get (s\<lparr>offset := 5\<rparr>) 4 = Some (of_nat (2 * (unat a mod 8) + unat b div 128), s\<lparr>offset := 9\<rparr>)"
  proof -
    have "take 4 (drop 5 (bits [a, b])) = take 3 (drop 5 (bits [a, b])) @ take 1 (drop 8 (bits [a, b]))"
      using take_add [of 3 1 "drop 5 (bits [a, b])"] by simp
    also have "\<dots> = bl_of 3 (unat a) @ bl_of 1 (unat b div 128)"
      using t [of 5 3 0] t [of 0 1 1] by (simp add: drop_bit_eq_div)
    moreover have "unat b div 128 < 2 ^ 1" using unsigned_less [of b, where ?'a = nat] by simp
    ultimately show ?thesis
      using bs_get_eq [of 4 "s\<lparr>offset := 5\<rparr>"] by (simp add: l bl_val_append bl_val_bl_of take_bit_eq_mod mult.commute)
  qed
  show "bs_get (s\<lparr>offset := 9\<rparr>) 4 = Some (of_nat (unat b div 8 mod 16), s\<lparr>offset := 13\<rparr>)" 
    using bs_get_eq [of 4 "s\<lparr>offset := 9\<rparr>"] t [of 1 4 1] by (simp add: l bl_val_bl_of take_bit_eq_mod drop_bit_eq_div)
  show "bs_get (s\<lparr>offset := 13\<rparr>) 1 = Some (of_nat (unat b div 4 mod 2), s\<lparr>offset := 14\<rparr>)"
    using bs_get_eq [of 1 "s\<lparr>offset := 13\<rparr>"] t [of 5 1 1] by (simp add: l bl_val_bl_of take_bit_eq_mod drop_bit_eq_div)
qed


lemma u64_small: "n < 16 \<Longrightarrow> (of_nat n :: u64) = 15 \<longleftrightarrow> n = 15" "n < 32 \<Longrightarrow> (of_nat n :: u64) = 31 \<longleftrightarrow> n = 31"
  by (simp_all add: word_unat_eq_iff unat_of_nat)

lemma u64_byte: "n < 256 \<Longrightarrow> (ucast (of_nat n :: u64) :: byte) = of_nat n"
  by (simp add: word_unat_eq_iff unsigned_ucast_eq unat_of_nat take_bit_eq_mod)

text \<open>The rate, the number of channels, the object type and the number of samples that \<open>AudSpecConf\<close> reads from the init
  data of a frame are those that \<open>adts\<close> reads from its header; eight channels stand for none. The frequency is one
  with an index other than 15.\<close>

theorem AudSpecConf_adts:
  assumes "drop_bit 3 a = of_nat (p + 1)" and "p < 4" and "b AND 0x47 = (0 :: byte)"
    and "getFrequencyIndex (Some (adts_frame [a, b] payload)) \<noteq> Some 15" and "can 2"
  shows "rate can [a, b] = map_option of_nat (getFrequency (Some (adts_frame [a, b] payload))) \<and>
    channels can [a, b] =
      map_option (\<lambda>c. if c = 0 then 8 else of_nat c) (getChannelCount (Some (adts_frame [a, b] payload))) \<and>
    objtype can [a, b] = map_option of_nat (getAACProfile (Some (adts_frame [a, b] payload))) \<and>
    samples can [a, b] = Some 1024"
proof -
  define d where "d = adts_frame [a, b] payload"
  note fb = adts_frame_bytes [OF d_def]
  have l: "4 \<le> length d" using fb(1) by simp
  have x: "drop_bit 11 ((length payload + 7) AND 0x1800) < 4"
  proof -
    have "drop_bit 11 (0x1800 :: nat) = 3" by simp
    then have "drop_bit 11 ((length payload + 7) AND 0x1800) = drop_bit 11 (length payload + 7) mod 4"
      by (simp only: drop_bit_and adts_masks)
    then show ?thesis by simp
  qed
  note i = getInit_header [OF assms(1-3) l fb(4) frame_third_byte [OF x, of b, folded fb(5)]]
  define F where "F = 2 * (unat a mod 8) + unat b div 128"
  define C where "C = unat b div 8 mod 16"
  have sh: "shorter (Some d) i \<longleftrightarrow> False" if "i \<le> 7" for i using that fb(1) by (simp add: shorter_def)
  have a: "unat a div 8 = p + 1"
  proof -
    have "unat a div 8 = unat (of_nat (p + 1) :: byte)"
      using arg_cong [OF assms(1), of unat] by (simp only: unat_drop) simp
    then show ?thesis using assms(2) by (simp only: unat_of_nat) simp
  qed
  have f: "F < 16" unfolding F_def using unsigned_less [of b, where ?'a = nat] mod_less_divisor [of 8 "unat a"] by simp
  have fi: "getFrequencyIndex (Some d) = Some F" using i(3) by (simp only: unat_frequency F_def)
  then have f15: "F \<noteq> 15" using assms(4) by (simp add: d_def)
  have bb: "\<not> bit b 2" "\<not> bit b 6"
    using arg_cong [OF assms(3), of "\<lambda>w. bit w 2"] arg_cong [OF assms(3), of "\<lambda>w. bit w 6"] by (simp_all add: byte_bits)
  have "unat b div 8 mod 8 = C"
  proof -
    have "even (unat b div 64)" using bb(2) bit_unsigned_iff [of b 6, where ?'a = nat] by (simp add: bit_iff_odd possible_bit_nat)
    moreover have "unat b div 8 div 8 = unat b div 64" by (simp flip: div_mult2_eq)
    ultimately show ?thesis using mod_mult2_eq [of "unat b div 8" 8 2] by (simp add: C_def even_iff_mod_2_eq_zero)
  qed
  moreover have "unat (drop_bit 3 b AND 7) = unat b div 8 mod 8" by (simp only: unat_ops(1) unat_drop) (simp add: adts_masks)
  moreover have "unat b div 8 mod 8 < 8" by simp
  ultimately have c: "unat (drop_bit 3 b AND 7) = C" "C < 8" by (simp_all only:)
  have b4: "unat b div 4 mod 2 = 0"
    using bb(1) bit_unsigned_iff [of b 2, where ?'a = nat] by (simp add: bit_iff_odd possible_bit_nat even_iff_mod_2_eq_zero)
  note cf = conf_fields [of can a b, OF assms(5), folded F_def C_def]
  have a31: "(of_nat (unat a div 8) :: u64) \<noteq> 31" using a assms(2) by (subst u64_small) simp_all
  have t: "skip_type \<lparr>data = [a, b], offset = 0, bufferSize = 2\<rparr> = Some \<lparr>data = [a, b], offset = 5, bufferSize = 2\<rparr>"
    using cf(2) a31 by (simp add: skip_type_def)
  have q: "skip_frequency \<lparr>data = [a, b], offset = 5, bufferSize = 2\<rparr> = Some \<lparr>data = [a, b], offset = 9, bufferSize = 2\<rparr>"
    using cf(3) f f15 by (simp add: skip_frequency_def u64_small)
  have "rate can [a, b] = Some (of_nat (frequency F))"
    using f f15 cf(3) by (simp add: rate_def cf(1) t u64_small unat_of_nat)
  moreover have "getFrequency (Some d) = Some (frequency F)" using sh [of 3] fi by (simp add: getFrequency_def)
  moreover have "channels can [a, b] = Some (if C = 0 \<or> C = 7 then 8 else of_nat C)"
  proof -
    have "(ucast (of_nat C :: u64) :: byte) = of_nat C" using c(2) by (intro u64_byte) simp
    moreover have "(of_nat C :: byte) = 0 \<longleftrightarrow> C = 0" "(of_nat C :: byte) = 7 \<longleftrightarrow> C = 7" "\<not> 7 < (of_nat C :: byte)"
      using c(2) by (simp_all add: word_less_nat_alt word_unat_eq_iff unat_of_nat)
    moreover have "(ucast (of_nat C :: byte) :: u16) = of_nat C"
      using c(2) by (simp add: word_unat_eq_iff unsigned_ucast_eq unat_of_nat take_bit_eq_mod)
    ultimately show ?thesis using cf(4) by (simp add: channels_def cf(1) t q)
  qed
  moreover have "getChannelCount (Some d) = Some (if C = 7 then 8 else C)"
    using sh [of 1] i(4) by (simp add: getChannelCount_def c(1))
  moreover have "objtype can [a, b] = Some (of_nat (p + 1))"
  proof -
    have "(ucast (of_nat (unat a div 8) :: u64) :: byte) = of_nat (p + 1)" using a assms(2) by (simp only: u64_byte)
    moreover have "(of_nat n :: byte) = 31 \<longleftrightarrow> n = 31" if "n < 256" for n
      using that by (simp add: word_unat_eq_iff unat_of_nat)
    then have "(of_nat (p + 1) :: byte) \<noteq> 31" using assms(2) by (simp del: of_nat_add of_nat_Suc)
    ultimately show ?thesis using cf(2) by (simp only: objtype_def cf(1) Option.bind.simps split if_False)
  qed
  moreover have "samples can [a, b] = Some 1024"
    using cf(5) b4 by (simp add: samples_def cf(1) t q bs_skip_def bs_size_def)
  ultimately show ?thesis using i(2) by (simp add: d_def)
qed

theorem AudSpecConf_adts_witness:
  "rate (\<lambda>n. True) [0x12, 0x10] = map_option of_nat (getFrequency (Some (adts_frame [0x12, 0x10] []))) \<and>
    channels (\<lambda>n. True) [0x12, 0x10] =
      map_option (\<lambda>c. if c = 0 then 8 else of_nat c) (getChannelCount (Some (adts_frame [0x12, 0x10] []))) \<and>
    objtype (\<lambda>n. True) [0x12, 0x10] = map_option of_nat (getAACProfile (Some (adts_frame [0x12, 0x10] []))) \<and>
    samples (\<lambda>n. True) [0x12, 0x10] = Some 1024"
proof (rule AudSpecConf_adts [where p = 1])
  show "getFrequencyIndex (Some (adts_frame [0x12, 0x10] [])) \<noteq> Some 15"
    by (simp add: getFrequencyIndex_def shorter_def at_def adts_frame_def getAudioHeader_def header_profile_def rd_def Let_def)
qed simp_all

end
