(* ===== verification/Rtp.thy ===== *)
theory Rtp
  imports Av1 Mpeg
begin

text \<open>
  RTP packets (\<open>lib/rtp.cpp\<close>, \<open>lib/rtp.h\<close>): \<open>RTP::Packet\<close> with its header fields, the splitting of frames into
  packets, forward error correction and the sender report. A packet's memory is a list of bytes, as long as
  \<open>maxDataLen\<close>; the memory a payload pointer points into is a list that begins there and may go on behind the
  payload. Both are below 2 GiB. What is given to the callback is collected. \<open>None\<close> is undefined
  behaviour or a loop that does not end. \<open>MAX_SEND\<close> and the clock are arguments.
\<close>

section \<open>State\<close>

record fecdata =
  fsequence :: u16
  ftimestamp :: u32
  bitstring :: "bytes option"

record fec =
  needsInit :: bool
  isFirst :: bool
  maxIndex :: u16
  columnSN :: u16
  rowSN :: u16
  rows :: byte
  columns :: byte
  index :: u16
  lengthRecovery :: u16
  pktSize :: u32
  rtpBufSize :: u32
  bitstringSize :: u32
  fecBufferRows :: fecdata
  fecBufferColumns :: "byte \<rightharpoonup> fecdata"

record packet =
  pdata :: bytes
  managed :: bool
  sentPackets :: u32
  sentBytes :: u32
  fecEnabled :: bool
  fecContext :: fec

section \<open>Header\<close>

definition getContribCount :: "packet \<Rightarrow> nat option" where
  "getContribCount p = do { b \<leftarrow> rd (pdata p) 0; Some (unat (b AND 0xE)) }"

definition getExtension :: "packet \<Rightarrow> nat option" where
  "getExtension p = do { b \<leftarrow> rd (pdata p) 0; Some (unat (drop_bit 4 b AND 1)) }"

definition getPadding :: "packet \<Rightarrow> nat option" where
  "getPadding p = do { b \<leftarrow> rd (pdata p) 0; Some (unat (drop_bit 5 b AND 1)) }"

definition getVersion :: "packet \<Rightarrow> nat option" where
  "getVersion p = do { b \<leftarrow> rd (pdata p) 0; Some (unat (drop_bit 6 b AND 3)) }"

definition getMarker :: "packet \<Rightarrow> nat option" where
  "getMarker p = do { b \<leftarrow> rd (pdata p) 1; Some (unat (drop_bit 7 b AND 1)) }"

definition getPayloadType :: "packet \<Rightarrow> nat option" where
  "getPayloadType p = do { b \<leftarrow> rd (pdata p) 1; Some (unat (b AND 0x7F)) }"

definition getSequence :: "packet \<Rightarrow> u16 option" where
  "getSequence p = btohs (pdata p) 2"

definition getTimeStamp :: "packet \<Rightarrow> u32 option" where
  "getTimeStamp p = btohl (pdata p) 4"

definition getSSRC :: "packet \<Rightarrow> u32 option" where
  "getSSRC p = btohl (pdata p) 8"

definition getHsize :: "packet \<Rightarrow> nat option" where
  "getHsize p = do {
     cc \<leftarrow> getContribCount p;
     ext \<leftarrow> getExtension p;
     let r = 12 + 4 * cc;
     if ext \<noteq> 0 then do { n \<leftarrow> btohs (pdata p) (r + 2); Some (r + (1 + unat n) * 4) } else Some r }"

definition getPayloadSize :: "packet \<Rightarrow> nat option" where
  "getPayloadSize p = do {
     h \<leftarrow> getHsize p;
     pad \<leftarrow> getPadding p;
     n \<leftarrow> (if pad \<noteq> 0 then map_option unat (rd (pdata p) (length (pdata p) - 1)) else Some 0);
     Some (if length (pdata p) \<le> h + n then 0 else length (pdata p) - h - n) }"

text \<open>\<open>getPayload\<close> and \<open>getData\<close> are pointers: positions in the packet.\<close>

definition getPayload :: "packet \<Rightarrow> nat option" where
  "getPayload p = getHsize p"

definition getData :: "packet \<Rightarrow> nat option" where
  "getData p = do { cc \<leftarrow> getContribCount p; ext \<leftarrow> getExtension p; Some (8 + 4 * cc + ext) }"

definition setTimestamp :: "u32 \<Rightarrow> packet \<Rightarrow> packet option" where
  "setTimestamp t p = do { d \<leftarrow> htobl (pdata p) 4 t; Some (p\<lparr>pdata := d\<rparr>) }"

definition setSequence :: "u16 \<Rightarrow> packet \<Rightarrow> packet option" where
  "setSequence s p = do { d \<leftarrow> htobs (pdata p) 2 s; Some (p\<lparr>pdata := d\<rparr>) }"

definition setSSRC :: "u32 \<Rightarrow> packet \<Rightarrow> packet option" where
  "setSSRC s p = do { d \<leftarrow> htobl (pdata p) 8 s; Some (p\<lparr>pdata := d\<rparr>) }"

definition increaseSequence :: "packet \<Rightarrow> packet option" where
  "increaseSequence p = do { s \<leftarrow> getSequence p; setSequence (s + 1) p }"

section \<open>Construction\<close>

text \<open>The memory that \<open>new\<close> returns is uninitialised: its contents are an argument (\<open>mem\<close>), as are the contents of
  the members that no constructor sets (\<open>junk\<close>).\<close>

definition Packet_new :: "nat \<Rightarrow> bytes \<Rightarrow> fec \<Rightarrow> u32 \<Rightarrow> u32 \<Rightarrow> u64 \<Rightarrow> u32 \<Rightarrow> u32 \<Rightarrow> packet option" where
  "Packet_new max_send mem junk payloadType seq ts ssrc csrcCount = do {
     d \<leftarrow> rdn mem 0 (12 + 4 * unat csrcCount + 2 + max_send);
     d \<leftarrow> wrn d 0 [push_bit 6 2 OR ucast (csrcCount AND 15)];
     d \<leftarrow> wrn d 1 [ucast (payloadType AND 0x7F)];
     let p = \<lparr>pdata = d, managed = True, sentPackets = 0, sentBytes = 0, fecEnabled = False, fecContext = junk\<rparr>;
     p \<leftarrow> setSequence (ucast (seq - 1)) p;
     p \<leftarrow> setTimestamp (ucast ts) p;
     setSSRC ssrc p }"

definition Packet_view :: "fec \<Rightarrow> bytes \<Rightarrow> packet" where
  "Packet_view junk d =
     \<lparr>pdata = d, managed = False, sentPackets = 0, sentBytes = 0, fecEnabled = False, fecContext = junk\<rparr>"

text \<open>Copying, by the constructor and by assignment: neither copies the members of error correction. The
  constructor leaves them uninitialised, the assignment as they were.\<close>

definition copy_data :: "nat \<Rightarrow> packet \<Rightarrow> bytes" where
  "copy_data max_send q = (if pdata q \<noteq> [] then pdata q else replicate (14 + max_send) 0)"

definition Packet_copy :: "nat \<Rightarrow> bool \<Rightarrow> fec \<Rightarrow> packet \<Rightarrow> packet" where
  "Packet_copy max_send junk_enabled junk q =
     \<lparr>pdata = copy_data max_send q, managed = True, sentPackets = sentPackets q, sentBytes = sentBytes q,
      fecEnabled = junk_enabled, fecContext = junk\<rparr>"

definition Packet_assign :: "nat \<Rightarrow> packet \<Rightarrow> packet \<Rightarrow> packet" where
  "Packet_assign max_send p q =
     p\<lparr>pdata := copy_data max_send q, managed := True, sentPackets := sentPackets q, sentBytes := sentBytes q\<rparr>"

section \<open>Sending\<close>

type_synonym sending = "packet \<times> bytes list"

definition upd :: "nat \<Rightarrow> (byte \<Rightarrow> byte) \<Rightarrow> packet \<Rightarrow> packet option" where
  "upd i f p = do { b \<leftarrow> rd (pdata p) i; d \<leftarrow> wrn (pdata p) i [f b]; Some (p\<lparr>pdata := d\<rparr>) }"

definition put :: "nat \<Rightarrow> bytes \<Rightarrow> packet \<Rightarrow> packet option" where
  "put i bs p = do { d \<leftarrow> wrn (pdata p) i bs; Some (p\<lparr>pdata := d\<rparr>) }"

text \<open>What every way of sending ends with: the callback, the counters, the next sequence number.\<close>

definition deliver :: "nat \<Rightarrow> sending \<Rightarrow> sending option" where
  "deliver n s = do {
     let (p, out) = s;
     d \<leftarrow> rdn (pdata p) 0 n;
     p \<leftarrow> increaseSequence (p\<lparr>sentPackets := sentPackets p + 1, sentBytes := sentBytes p + of_nat n\<rparr>);
     Some (p, out @ [d]) }"

definition unmark :: "byte \<Rightarrow> byte" where
  "unmark b = b AND 0x7F"

definition mark :: "byte \<Rightarrow> byte" where
  "mark b = b OR 0x80"

text \<open>\<open>maxDataLen - getHsize() - n\<close> as an \<open>unsigned int\<close>.\<close>

definition room :: "packet \<Rightarrow> nat \<Rightarrow> nat \<Rightarrow> nat" where
  "room p h n = (if h + n \<le> length (pdata p) then length (pdata p) - h - n else length (pdata p) + 2 ^ 32 - h - n)"

function h264_loop :: "nat \<Rightarrow> bytes \<Rightarrow> nat \<Rightarrow> bool \<Rightarrow> nat \<Rightarrow> nat \<Rightarrow> byte \<Rightarrow> sending \<Rightarrow> sending option" where
  "h264_loop h pl payloadlen lastOfAccessUnit sent sending serByte (p, out) =
     (if sent < payloadlen then do {
        let serByte = (if sent = 0 then serByte OR 0x80 else serByte AND 0x7F);
        let fin = (payloadlen \<le> sent + sending);
        let serByte = (if fin then serByte OR 0x40 else serByte);
        let sending = (if fin then payloadlen - sent else sending);
        p \<leftarrow> (if fin \<and> lastOfAccessUnit then upd 1 mark p else Some p);
        p \<leftarrow> put (h + 1) [serByte] p;
        d \<leftarrow> rdn pl (1 + sent) sending;
        p \<leftarrow> put (h + 2) d p;
        s \<leftarrow> deliver (h + 2 + sending) (p, out);
        if sending = 0 then None
        else h264_loop h pl payloadlen lastOfAccessUnit (sent + sending) sending serByte s }
      else Some (p, out))"
  by pat_completeness auto
termination h264_loop
  by (relation "measure (\<lambda>(h, pl, payloadlen, l, sent, sending, b, s). payloadlen - sent)") (auto split: if_splits)

declare h264_loop.simps [simp del]

definition sendH264 :: "bytes \<Rightarrow> nat \<Rightarrow> bool \<Rightarrow> sending \<Rightarrow> sending option" where
  "sendH264 pl payloadlen lastOfAccessUnit s = do {
     let (p, out) = s;
     h \<leftarrow> getHsize p;
     p \<leftarrow> upd 1 unmark p;
     if payloadlen + h + 2 \<le> length (pdata p) then do {
       p \<leftarrow> (if lastOfAccessUnit then upd 1 mark p else Some p);
       b \<leftarrow> rd pl 0;
       let nal_type = b AND 0x1F;
       p \<leftarrow> (if nal_type < 1 \<or> nal_type > 5 then upd 1 unmark p else Some p);
       d \<leftarrow> rdn pl 0 payloadlen;
       p \<leftarrow> put h d p;
       deliver (h + payloadlen) (p, out) }
     else do {
       b \<leftarrow> rd pl 0;
       p \<leftarrow> put h [(b AND 0xE0) OR 0x1C] p;
       h264_loop h pl payloadlen lastOfAccessUnit 0 (room p h 2) (b AND 0x1F) (p, out) } }"

function h265_loop :: "nat \<Rightarrow> bytes \<Rightarrow> nat \<Rightarrow> nat \<Rightarrow> nat \<Rightarrow> byte \<Rightarrow> sending \<Rightarrow> sending option" where
  "h265_loop h pl payloadlen sent sending serByte (p, out) =
     (if sent < payloadlen then do {
        let serByte = (if sent = 0 then serByte OR 0x80 else serByte AND 0x7F);
        let fin = (payloadlen \<le> sent + sending);
        let serByte = (if fin then serByte OR 0x40 else serByte);
        let sending = (if fin then payloadlen - sent else sending);
        p \<leftarrow> (if fin then upd 1 mark p else Some p);
        p \<leftarrow> put (h + 2) [serByte] p;
        d \<leftarrow> rdn pl (2 + sent) sending;
        p \<leftarrow> put (h + 3) d p;
        s \<leftarrow> deliver (h + 3 + sending) (p, out);
        if sending = 0 then None
        else h265_loop h pl payloadlen (sent + sending) sending serByte s }
      else Some (p, out))"
  by pat_completeness auto
termination h265_loop
  by (relation "measure (\<lambda>(h, pl, payloadlen, sent, sending, b, s). payloadlen - sent)") (auto split: if_splits)

declare h265_loop.simps [simp del]

definition sendH265 :: "bytes \<Rightarrow> nat \<Rightarrow> sending \<Rightarrow> sending option" where
  "sendH265 pl payloadlen s = do {
     let (p, out) = s;
     h \<leftarrow> getHsize p;
     if payloadlen + h + 3 \<le> length (pdata p) then do {
       p \<leftarrow> upd 1 mark p;
       d \<leftarrow> rdn pl 0 payloadlen;
       p \<leftarrow> put h d p;
       deliver (h + payloadlen) (p, out) }
     else do {
       p \<leftarrow> upd 1 unmark p;
       a \<leftarrow> rd pl 0;
       b \<leftarrow> rd pl 1;
       p \<leftarrow> put h [(a AND 0x81) OR 0x62] p;
       p \<leftarrow> put (h + 1) [b] p;
       h265_loop h pl payloadlen 0 (room p h 3) (drop_bit 1 (a AND 0x7E)) (p, out) } }"

text \<open>VP8 and VP9: chunks of at most 1200 bytes behind a descriptor of one byte.\<close>

definition send_chunk :: "nat \<Rightarrow> byte \<Rightarrow> bool \<Rightarrow> bytes \<Rightarrow> sending \<Rightarrow> sending option" where
  "send_chunk h descriptor fin d s = do {
     let (p, out) = s;
     p \<leftarrow> upd 1 (if fin then mark else unmark) p;
     p \<leftarrow> put h [descriptor] p;
     p \<leftarrow> put (h + 1) d p;
     deliver (h + 1 + length d) (p, out) }"

definition vp8_descriptor :: "bool \<Rightarrow> bool \<Rightarrow> byte" where
  "vp8_descriptor start key = (if start then 0x10 else 0) OR (if key then 0 else 0x20)"

fun vp8_loop :: "nat \<Rightarrow> bool \<Rightarrow> bool \<Rightarrow> bytes \<Rightarrow> nat \<Rightarrow> sending \<Rightarrow> sending option" where
  "vp8_loop h key start pl payloadlen s =
     (if 0 < payloadlen then do {
        let chunkSize = min 1200 payloadlen;
        d \<leftarrow> rdn pl 0 chunkSize;
        s \<leftarrow> send_chunk h (vp8_descriptor start key) (payloadlen - chunkSize = 0) d s;
        vp8_loop h key False (drop chunkSize pl) (payloadlen - chunkSize) s }
      else Some s)"

declare vp8_loop.simps [simp del]

definition sendVP8 :: "bytes \<Rightarrow> nat \<Rightarrow> sending \<Rightarrow> sending option" where
  "sendVP8 pl payloadlen s = do {
     b \<leftarrow> rd pl 0;
     h \<leftarrow> getHsize (fst s);
     vp8_loop h (b AND 1 = 0) True pl payloadlen s }"

definition vp9_key :: "byte \<Rightarrow> bool" where
  "vp9_key b =
     (if b AND 0x30 = 0x30 then b AND 0x04 = 0 \<and> b AND 0x02 = 0 else b AND 0x08 = 0 \<and> b AND 0x04 = 0)"

definition vp9_descriptor :: "bool \<Rightarrow> bool \<Rightarrow> bool \<Rightarrow> byte" where
  "vp9_descriptor start fin key =
     (if start then 0x08 else 0) OR (if fin then 0x04 else 0) OR (if key then 0 else 0x40)"

fun vp9_loop :: "nat \<Rightarrow> bool \<Rightarrow> bool \<Rightarrow> bytes \<Rightarrow> nat \<Rightarrow> sending \<Rightarrow> sending option" where
  "vp9_loop h key start pl len s =
     (if 0 < len then do {
        let chunkSize = min 1200 len;
        d \<leftarrow> rdn pl 0 chunkSize;
        s \<leftarrow> send_chunk h (vp9_descriptor start (len - chunkSize = 0) key) (len - chunkSize = 0) d s;
        vp9_loop h key False (drop chunkSize pl) (len - chunkSize) s }
      else Some s)"

declare vp9_loop.simps [simp del]

definition sendVP9 :: "bytes \<Rightarrow> nat \<Rightarrow> sending \<Rightarrow> sending option" where
  "sendVP9 pl len s = do {
     b \<leftarrow> rd pl 0;
     h \<leftarrow> getHsize (fst s);
     vp9_loop h (vp9_key b) True pl len s }"

text \<open>The header of MPEG-2 video, at \<open>h\<close> in the packet.\<close>

definition mh_clear :: "nat \<Rightarrow> packet \<Rightarrow> packet option" where
  "mh_clear h p = put h [0, 0, 0, 0] p"

definition mh_setTempRef :: "nat \<Rightarrow> u16 \<Rightarrow> packet \<Rightarrow> packet option" where
  "mh_setTempRef h ref p = do {
     p \<leftarrow> upd h (\<lambda>b. b OR ucast (drop_bit 8 ref AND 3)) p;
     put (h + 1) [ucast ref] p }"

definition mh_setPictureType :: "nat \<Rightarrow> byte \<Rightarrow> packet \<Rightarrow> packet option" where
  "mh_setPictureType h pType p = upd (h + 2) (\<lambda>b. b OR (pType AND 7)) p"

definition mh_setSequence :: "nat \<Rightarrow> packet \<Rightarrow> packet option" where
  "mh_setSequence h p = upd (h + 2) (\<lambda>b. b OR 0x20) p"

definition mh_setBegin :: "nat \<Rightarrow> packet \<Rightarrow> packet option" where
  "mh_setBegin h p = upd (h + 2) (\<lambda>b. b OR 0x10) p"

definition mh_setEnd :: "nat \<Rightarrow> packet \<Rightarrow> packet option" where
  "mh_setEnd h p = upd (h + 2) (\<lambda>b. b OR 0x08) p"

definition mh_getTotalLen :: "bytes \<Rightarrow> u16 option" where
  "mh_getTotalLen d = do {
     a \<leftarrow> rd d 0;
     if a AND 0x08 = 0 then Some 4
     else do {
       b \<leftarrow> rd d 4;
       if b AND 0x40 = 0 then Some 8 else do { c \<leftarrow> rd d 8; Some (8 + ucast c) } } }"

function mpeg2_loop :: "nat \<Rightarrow> bytes \<Rightarrow> nat \<Rightarrow> nat \<Rightarrow> nat \<Rightarrow> sending \<Rightarrow> sending option" where
  "mpeg2_loop h pl payloadlen sent sending (p, out) =
     (if sent < payloadlen then do {
        p \<leftarrow> mh_clear h p;
        let fin = (payloadlen \<le> sent + sending);
        let sending = (if fin then payloadlen - sent else sending);
        p \<leftarrow> (if fin then do { p \<leftarrow> mh_setEnd h p; upd 1 mark p } else Some p);
        mInfo \<leftarrow> parseMPEG2Headers pl (sent + sending);
        p \<leftarrow> mh_setTempRef h (tempSeq mInfo) p;
        p \<leftarrow> mh_setPictureType h (frameType mInfo) p;
        p \<leftarrow> (if sent = 0 then do { p \<leftarrow> (if isHeader mInfo then mh_setSequence h p else Some p); mh_setBegin h p } else Some p);
        d \<leftarrow> rdn pl sent sending;
        p \<leftarrow> put (h + 4) d p;
        s \<leftarrow> deliver (h + 4 + sending) (p, out);
        if sending = 0 then None
        else mpeg2_loop h pl payloadlen (sent + sending) sending s }
      else Some (p, out))"
  by pat_completeness auto
termination mpeg2_loop
  by (relation "measure (\<lambda>(h, pl, payloadlen, sent, sending, s). payloadlen - sent)") (auto split: if_splits)

declare mpeg2_loop.simps [simp del]

definition sendMPEG2 :: "bytes \<Rightarrow> nat \<Rightarrow> sending \<Rightarrow> sending option" where
  "sendMPEG2 pl payloadlen s = do {
     let (p, out) = s;
     h \<leftarrow> getHsize p;
     if payloadlen + h + 4 \<le> length (pdata p) then do {
       p \<leftarrow> upd 1 mark p;
       mInfo \<leftarrow> parseMPEG2Headers pl payloadlen;
       p \<leftarrow> mh_clear h p;
       p \<leftarrow> mh_setTempRef h (tempSeq mInfo) p;
       p \<leftarrow> mh_setPictureType h (frameType mInfo) p;
       p \<leftarrow> (if isHeader mInfo then mh_setSequence h p else Some p);
       p \<leftarrow> mh_setBegin h p;
       p \<leftarrow> mh_setEnd h p;
       d \<leftarrow> rdn pl 0 payloadlen;
       p \<leftarrow> put (h + 4) d p;
       deliver (h + payloadlen + 4) (p, out) }
     else do {
       p \<leftarrow> upd 1 unmark p;
       mpeg2_loop h pl payloadlen 0 (room p h 4) (p, out) } }"

text \<open>AV1: whether one of the units is a keyframe, and the units, each with its length before every part of it. A
  unit of length zero is read over and over again. After a unit that is longer than what is left, the length wraps around and
  the loop runs out of the memory.\<close>

function av1_key :: "bytes \<Rightarrow> nat \<Rightarrow> nat \<Rightarrow> bool option" where
  "av1_key pl payloadlen off =
     (if off < payloadlen then do {
        u \<leftarrow> obu_init (Some (drop off pl)) (payloadlen - off);
        k \<leftarrow> obu_isKeyframe u;
        if k then Some True
        else if ol u = 0 then None
        else av1_key pl payloadlen (off + ol u) }
      else Some False)"
  by pat_completeness auto
termination av1_key
  by (relation "measure (\<lambda>(pl, payloadlen, off). payloadlen - off)") auto

declare av1_key.simps [simp del]

definition av1_flush :: "nat \<Rightarrow> byte \<Rightarrow> nat \<Rightarrow> sending \<Rightarrow> sending option" where
  "av1_flush h aggregation n s = do {
     (p, out) \<leftarrow> deliver n s;
     p \<leftarrow> put h [aggregation] p;
     Some (p, out) }"

text \<open>The parts of a unit; \<open>off\<close> is \<open>payloadOffset\<close> and \<open>n\<close> is \<open>rtpPacketSize\<close>.\<close>

function av1_parts :: "nat \<Rightarrow> bytes \<Rightarrow> nat \<Rightarrow> nat \<Rightarrow> nat \<Rightarrow> sending \<Rightarrow> (nat \<times> nat \<times> sending) option" where
  "av1_parts h pl OBUSize off n (p, out) =
     (if OBUSize \<noteq> 0 then do {
        let fits = (n + OBUSize + 4 \<le> length (pdata p));
        if \<not> fits \<and> length (pdata p) < n + 4 then None
        else do {
          let writeLen = (if fits then OBUSize else length (pdata p) - n - 4);
          p \<leftarrow> put n (leb128 writeLen) p;
          let n' = n + length (leb128 writeLen);
          d \<leftarrow> rdn pl off writeLen;
          p \<leftarrow> put n' d p;
          let n' = n' + writeLen;
          if writeLen \<noteq> OBUSize then do {
            p \<leftarrow> upd h (\<lambda>b. b OR 0x40) p;
            s \<leftarrow> av1_flush h 0x80 n' (p, out);
            if writeLen = 0 \<and> n = h + 1 then None
            else if writeLen = 0 \<and> n < h + 1 then None
            else av1_parts h pl (OBUSize - writeLen) (off + writeLen) (h + 1) s }
          else Some (off + writeLen, n', p, out) } }
      else Some (off, n, p, out))"
  by pat_completeness auto
termination av1_parts
  by (relation "measures [\<lambda>(h, pl, OBUSize, off, n, s). OBUSize, \<lambda>(h, pl, OBUSize, off, n, s). n - (h + 1)]") auto

declare av1_parts.simps [simp del]

function av1_units :: "nat \<Rightarrow> bytes \<Rightarrow> nat \<Rightarrow> nat \<Rightarrow> nat \<Rightarrow> sending \<Rightarrow> (nat \<times> sending) option" where
  "av1_units h pl payloadlen off n (p, out) =
     (if 0 < payloadlen then do {
        u \<leftarrow> obu_init (Some (drop off pl)) payloadlen;
        if ol u = 0 \<or> payloadlen < ol u then None
        else do {
          (n, p, out) \<leftarrow>
            (if length (pdata p) < n + length (pdata p) div 3 \<and> length (pdata p) < n + ol u
             then do { s \<leftarrow> av1_flush h 0 n (p, out); Some (h + 1, s) } else Some (n, p, out));
          (off, n, p, out) \<leftarrow> av1_parts h pl (ol u) off n (p, out);
          av1_units h pl (payloadlen - ol u) off n (p, out) } }
      else Some (n, p, out))"
  by pat_completeness auto
termination av1_units
  by (relation "measure (\<lambda>(h, pl, payloadlen, off, n, s). payloadlen)") auto

declare av1_units.simps [simp del]

definition sendAV1 :: "bytes \<Rightarrow> nat \<Rightarrow> sending \<Rightarrow> sending option" where
  "sendAV1 pl payloadlen s = do {
     let (p, out) = s;
     h \<leftarrow> getHsize p;
     key \<leftarrow> av1_key pl payloadlen 0;
     p \<leftarrow> upd 1 unmark p;
     p \<leftarrow> put h [if key then 0x08 else 0] p;
     (n, p, out) \<leftarrow> av1_units h pl payloadlen 0 (h + 1) (p, out);
     p \<leftarrow> upd 1 mark p;
     deliver n (p, out) }"

text \<open>Packets that carry a transport stream, and packets that are only counted; \<open>now\<close> is the clock.\<close>

definition sendNoPacket :: "u64 \<Rightarrow> nat \<Rightarrow> packet \<Rightarrow> packet option" where
  "sendNoPacket now payloadlen p = do {
     h \<leftarrow> getHsize p;
     p \<leftarrow> setTimestamp (ucast now) (p\<lparr>sentPackets := sentPackets p + 1, sentBytes := sentBytes p + of_nat (payloadlen + h)\<rparr>);
     increaseSequence p }"

definition sendTS :: "u64 \<Rightarrow> bytes \<Rightarrow> nat \<Rightarrow> sending \<Rightarrow> sending option" where
  "sendTS now pl payloadlen s = do {
     let (p, out) = s;
     h \<leftarrow> getHsize p;
     d \<leftarrow> rdn pl 0 payloadlen;
     p \<leftarrow> put h d p;
     p \<leftarrow> setTimestamp (ucast (now * 90)) p;
     deliver (h + payloadlen) (p, out) }"

text \<open>\<open>sendData\<close>. The length of a unit is read as eight bytes, of which four are used.\<close>

definition nal_size :: "bytes \<Rightarrow> nat \<Rightarrow> nat option" where
  "nal_size pl sent = do { d \<leftarrow> rdn pl sent 8; Some (unat (be_val (take 4 d) :: u32)) }"

function h264_units :: "bytes \<Rightarrow> nat \<Rightarrow> nat \<Rightarrow> (bytes \<times> nat) option \<Rightarrow> sending \<Rightarrow> sending option" where
  "h264_units pl payloadlen sent lastPtr s =
     (if sent < payloadlen then do {
        nalSize \<leftarrow> nal_size pl sent;
        b \<leftarrow> rd pl (sent + 4);
        (lastPtr, s) \<leftarrow>
          (if b AND 0x1F \<noteq> 12 then do {
             s \<leftarrow> (case lastPtr of Some (l, n) \<Rightarrow> sendH264 l n False s | None \<Rightarrow> Some s);
             Some (Some (drop (sent + 4) pl, nalSize), s) }
           else Some (lastPtr, s));
        h264_units pl payloadlen (sent + (nalSize + 4)) lastPtr s }
      else (case lastPtr of Some (l, n) \<Rightarrow> sendH264 l n True s | None \<Rightarrow> Some s))"
  by pat_completeness auto
termination h264_units
  by (relation "measure (\<lambda>(pl, payloadlen, sent, l, s). payloadlen - sent)") auto

declare h264_units.simps [simp del]

function h265_units :: "bytes \<Rightarrow> nat \<Rightarrow> nat \<Rightarrow> sending \<Rightarrow> sending option" where
  "h265_units pl payloadlen sent s =
     (if sent < payloadlen then do {
        nalSize \<leftarrow> nal_size pl sent;
        s \<leftarrow> sendH265 (drop (sent + 4) pl) nalSize s;
        h265_units pl payloadlen (sent + (nalSize + 4)) s }
      else Some s)"
  by pat_completeness auto
termination h265_units
  by (relation "measure (\<lambda>(pl, payloadlen, sent, s). payloadlen - sent)") auto

declare h265_units.simps [simp del]

definition grow :: "bytes \<Rightarrow> nat \<Rightarrow> packet \<Rightarrow> packet option option" where
  "grow mem n p =
     (if length (pdata p) < n then
        if \<not> managed p then Some None
        else do { d \<leftarrow> rdn mem 0 n; d \<leftarrow> wrn d 0 (pdata p); Some (Some (p\<lparr>pdata := d\<rparr>)) }
      else Some (Some p))"

definition sendData :: "bytes \<Rightarrow> bytes \<Rightarrow> nat \<Rightarrow> bytes \<Rightarrow> sending \<Rightarrow> sending option" where
  "sendData mem pl payloadlen codec s =
     (if codec = str ''H264'' then h264_units pl payloadlen 0 None s
      else if codec = str ''AV1'' then sendAV1 pl payloadlen s
      else if codec = str ''VP8'' then sendVP8 pl payloadlen s
      else if codec = str ''VP9'' then sendVP9 pl payloadlen s
      else if codec = str ''HEVC'' then h265_units pl payloadlen 0 s
      else if codec = str ''MPEG2'' then sendMPEG2 pl payloadlen s
      else do {
        let (p, out) = s;
        p \<leftarrow> upd 1 mark p;
        h \<leftarrow> getHsize p;
        (offsetLen, p) \<leftarrow>
          (if codec = str ''AAC'' then
             do { p \<leftarrow> put h (be_bytes 4 ((push_bit 3 (of_nat payloadlen) AND 0x0010FFF8 OR 0x00100000) :: u32)) p; Some (4, p) }
           else if codec = str ''MP3'' \<or> codec = str ''MP2'' then
             do { p \<leftarrow> put h [0, 0, 0, 0] p; b \<leftarrow> rd pl 0; Some (4, p) }
           else if codec = str ''AC3'' then do { p \<leftarrow> put h [0, 1] p; Some (2, p) }
           else Some (0, p));
        g \<leftarrow> grow mem (h + offsetLen + payloadlen) p;
        (case g of
           None \<Rightarrow> Some (p, out)
         | Some p \<Rightarrow> do {
             d \<leftarrow> rdn pl 0 payloadlen;
             p \<leftarrow> put (h + offsetLen) d p;
             deliver (h + offsetLen + payloadlen) (p, out) }) })"

definition sendRTCP_SR :: "u64 \<Rightarrow> packet \<Rightarrow> bytes option" where
  "sendRTCP_SR ntp p = do {
     ssrc \<leftarrow> getSSRC p;
     ts \<leftarrow> getTimeStamp p;
     Some ([0x80, 200] @ be_bytes 2 (6 :: u16) @ be_bytes 4 ssrc @ be_bytes 8 ntp @ be_bytes 4 ts @
       be_bytes 4 (sentPackets p) @ be_bytes 4 (sentBytes p)) }"

section \<open>Forward error correction\<close>

definition configureFEC :: "byte \<Rightarrow> byte \<Rightarrow> packet \<Rightarrow> bool \<times> packet" where
  "configureFEC r c p =
     (if r < 4 \<or> r > 20 then (False, p)
      else if c < 1 \<or> c > 20 then (False, p)
      else if unat r * unat c > 100 then (False, p)
      else (True, p\<lparr>fecEnabled := True, fecContext := (fecContext p)\<lparr>
        needsInit := True, rows := r, columns := c, maxIndex := of_nat (unat r * unat c)\<rparr>\<rparr>))"

definition no_fecdata :: fecdata where
  "no_fecdata = \<lparr>fsequence = 0, ftimestamp = 0, bitstring = None\<rparr>"

definition initFEC :: "nat \<Rightarrow> fec \<Rightarrow> fec" where
  "initFEC bufSize c =
     (let len = (of_nat (bufSize - 12) :: u16) in c\<lparr>
        needsInit := False, isFirst := True, index := 0, pktSize := of_nat bufSize, lengthRecovery := len,
        rtpBufSize := ucast len + 28, bitstringSize := ucast len + 8,
        fecBufferRows := (fecBufferRows c)\<lparr>bitstring := None\<rparr>, fecBufferColumns := Map.empty,
        columnSN := 0, rowSN := 0\<rparr>)"

text \<open>\<open>mem\<close> is the memory that \<open>malloc\<close> returned.\<close>

definition generateBitstring :: "packet \<Rightarrow> bytes \<Rightarrow> bytes \<Rightarrow> bytes option" where
  "generateBitstring p pl mem = do {
     h \<leftarrow> rdn (pdata p) 0 8;
     let len = lengthRecovery (fecContext p);
     m \<leftarrow> wrn mem 0 [h ! 0 AND 0x3F, h ! 1, h ! 4, h ! 5, h ! 6, h ! 7, ucast (drop_bit 8 len), ucast len];
     d \<leftarrow> rdn pl 0 (unat len);
     wrn m 8 d }"

definition applyXOR :: "bytes \<Rightarrow> bytes \<Rightarrow> nat \<Rightarrow> bytes option" where
  "applyXOR a b n = do {
     x \<leftarrow> rdn a 0 n;
     y \<leftarrow> rdn b 0 n;
     wrn a 0 (map2 (XOR) x y) }"

definition fec_header :: "fec \<Rightarrow> fecdata \<Rightarrow> bool \<Rightarrow> u16 \<Rightarrow> bytes \<Rightarrow> bytes" where
  "fec_header c f isColumn thisSN d =
     [0x80 OR (d ! 0 AND 0x3F), (d ! 1 AND 0x80) OR 0x60] @ be_bytes 2 thisSN @ be_bytes 4 (ftimestamp f) @
     [0, 0, 0, 0] @ be_bytes 2 (fsequence f) @ [d ! 6, d ! 7, 0x80 OR d ! 1, 0, 0, 0, d ! 2, d ! 3, d ! 4, d ! 5,
       if isColumn then 0 else 0x40, if isColumn then columns c else 1, if isColumn then rows c else columns c, 0]"

text \<open>What is sent goes to the socket of the columns or to that of the rows.\<close>

type_synonym fec_sending = "packet \<times> (bool \<times> bytes) list"

definition sendFec :: "fecdata \<Rightarrow> bool \<Rightarrow> fec_sending \<Rightarrow> fec_sending option" where
  "sendFec f isColumn s = do {
     let (p, out) = s;
     let c = fecContext p;
     let c = (if isColumn then c\<lparr>columnSN := columnSN c + 1\<rparr> else c\<lparr>rowSN := rowSN c + 1\<rparr>);
     b \<leftarrow> bitstring f;
     h \<leftarrow> rdn b 0 8;
     m \<leftarrow> wrn (replicate (unat (rtpBufSize c)) 0) 0 (fec_header c f isColumn (if isColumn then columnSN c else rowSN c) h);
     d \<leftarrow> rdn b 8 (unat (lengthRecovery c));
     m \<leftarrow> wrn m 28 d;
     Some (p\<lparr>fecContext := c, sentPackets := sentPackets p + 1, sentBytes := sentBytes p + rtpBufSize c\<rparr>,
       out @ [(isColumn, m)]) }"

definition set_rows :: "fecdata \<Rightarrow> packet \<Rightarrow> packet" where
  "set_rows f p = p\<lparr>fecContext := (fecContext p)\<lparr>fecBufferRows := f\<rparr>\<rparr>"

definition set_column :: "byte \<Rightarrow> fecdata \<Rightarrow> packet \<Rightarrow> packet" where
  "set_column i f p = p\<lparr>fecContext := (fecContext p)\<lparr>fecBufferColumns := (fecBufferColumns (fecContext p))(i \<mapsto> f)\<rparr>\<rparr>"

definition column :: "byte \<Rightarrow> packet \<Rightarrow> fecdata" where
  "column i p = (case fecBufferColumns (fecContext p) i of Some f \<Rightarrow> f | None \<Rightarrow> no_fecdata)"

definition xor_into :: "fecdata \<Rightarrow> bytes \<Rightarrow> nat \<Rightarrow> fecdata option" where
  "xor_into f b n = do { a \<leftarrow> bitstring f; m \<leftarrow> applyXOR a b n; Some (f\<lparr>bitstring := Some m\<rparr>) }"

text \<open>The row of the packet: a packet in the first column sends what the row before it collected. The bitstring of a
  packet that is in neither the first row nor the first column is not freed.\<close>

definition fec_row :: "byte \<Rightarrow> bytes \<Rightarrow> fec_sending \<Rightarrow> fec_sending option" where
  "fec_row thisColumn b s = do {
     let (p, out) = s;
     let c = fecContext p;
     if thisColumn = 0 then do {
       (p, out) \<leftarrow> (if \<not> isFirst c \<or> 0 < index c then sendFec (fecBufferRows c) False (p, out) else Some (p, out));
       sn \<leftarrow> getSequence p;
       ts \<leftarrow> getTimeStamp p;
       Some (set_rows \<lparr>fsequence = sn - 1, ftimestamp = ts, bitstring = Some b\<rparr> p, out) }
     else do {
       f \<leftarrow> xor_into (fecBufferRows c) b (unat (bitstringSize c));
       Some (set_rows f p, out) } }"

definition fec_column :: "byte \<Rightarrow> byte \<Rightarrow> bytes \<Rightarrow> fec_sending \<Rightarrow> fec_sending option" where
  "fec_column thisColumn thisRow b s = do {
     let (p, out) = s;
     let c = fecContext p;
     p \<leftarrow> (if thisRow = 0 then do {
         sn \<leftarrow> getSequence p;
         ts \<leftarrow> getTimeStamp p;
         Some (set_column thisColumn \<lparr>fsequence = sn - 1, ftimestamp = ts, bitstring = Some b\<rparr> p) }
       else do {
         f \<leftarrow> xor_into (column thisColumn p) b (unat (bitstringSize c));
         Some (set_column thisColumn f p) });
     if thisRow = rows c - 1 then do {
       (p, out) \<leftarrow> sendFec (column thisColumn p) True (p, out);
       Some (set_column thisColumn ((column thisColumn p)\<lparr>bitstring := None\<rparr>) p, out) }
     else Some (p, out) }"

definition fec_next :: "fec \<Rightarrow> fec" where
  "fec_next c =
     (let c = c\<lparr>index := index c + 1\<rparr>
      in if maxIndex c \<le> index c then c\<lparr>isFirst := False, index := 0\<rparr> else c)"

definition parseFEC :: "bytes \<Rightarrow> bytes \<Rightarrow> nat \<Rightarrow> fec_sending \<Rightarrow> fec_sending option" where
  "parseFEC mem pl payloadlen s =
     (let (p, out) = s in
      if \<not> fecEnabled p then Some (p, out)
      else
        let p = (if needsInit (fecContext p) then p\<lparr>fecContext := initFEC (payloadlen + 12) (fecContext p)\<rparr> else p);
            c = fecContext p
        in if payloadlen \<noteq> unat (lengthRecovery c) then Some (p, out)
           else if columns c = 0 \<or> rows c = 0 then None
           else do {
             m \<leftarrow> rdn mem 0 (unat (pktSize c));
             b \<leftarrow> generateBitstring p pl m;
             let thisColumn = ucast (index c mod ucast (columns c));
             let thisRow = ucast ((index c div ucast (columns c)) mod ucast (rows c));
             (p, out) \<leftarrow> fec_row thisColumn b (p, out);
             (p, out) \<leftarrow> fec_column thisColumn thisRow b (p, out);
             Some (p\<lparr>fecContext := fec_next (fecContext p)\<rparr>, out) })"

end
