(* ===== verification/RtpSorter.thy ===== *)
theory RtpSorter
  imports Rtp
begin

text \<open>
  \<open>RTP::Sorter\<close> (\<open>lib/rtp.cpp\<close>, \<open>lib/rtp.h\<close>): puts the packets of a track into the order of their sequence numbers.
  What is given to the callback is collected. \<open>PACKET_DROP_TIMEOUT\<close> (\<open>drop_after\<close>) and \<open>PACKET_REORDER_WAIT\<close>
  (\<open>wait\<close>) are variables of the program, here arguments; \<open>MAX_SEND\<close> and the members that no constructor sets are
  arguments too. \<open>None\<close> is the overflow of a signed counter, or a packet without sequence number.
\<close>

section \<open>State\<close>

type_synonym pmap = "(u16 \<times> packet) list"

fun pput :: "u16 \<Rightarrow> packet \<Rightarrow> pmap \<Rightarrow> pmap" where
  "pput k v [] = [(k, v)]"
| "pput k v ((k', v') # m) =
     (if k = k' then (k, v) # m else if k < k' then (k, v) # (k', v') # m else (k', v') # pput k v m)"

definition perase :: "u16 \<Rightarrow> pmap \<Rightarrow> pmap" where
  "perase k m = filter (\<lambda>e. fst e \<noteq> k) m"

record sorter =
  rtpSeq :: u16
  rtpWSeq :: u16
  first :: bool
  preBuffer :: bool
  lostTotal :: int
  lostCurrent :: int
  packTotal :: u32
  packCurrent :: u32
  wantedSeqs :: "u16 set"
  lastNTP :: u32
  lastBootMS :: u64
  packTrack :: u64
  packBuffer :: pmap

definition Sorter :: "u64 \<Rightarrow> sorter" where
  "Sorter trackId = \<lparr>rtpSeq = 0, rtpWSeq = 0, first = True, preBuffer = True, lostTotal = 0, lostCurrent = 0,
     packTotal = 0, packCurrent = 0, wantedSeqs = {}, lastNTP = 0, lastBootMS = 0, packTrack = trackId,
     packBuffer = []\<rparr>"

definition setCallback :: "u64 \<Rightarrow> sorter \<Rightarrow> sorter" where
  "setCallback track s = s\<lparr>packTrack := track\<rparr>"

section \<open>Adding a packet\<close>

text \<open>The distance of two numbers as an \<open>int16_t\<close>.\<close>

definition ahead :: "u16 \<Rightarrow> u16 \<Rightarrow> int" where
  "ahead a b = sint (a - b)"

lemma sint_Suc: "sint (x :: u16) < 0 \<Longrightarrow> sint (x + 1) = sint x + 1"
proof -
  assume x: "sint x < 0"
  have "- (2 ^ 15) \<le> sint x" using sint_greater_eq [of x] by simp
  have "sint (x + 1) = signed_take_bit 15 (sint x + 1)" by (simp add: sint_word_ariths)
  also have "\<dots> = sint x + 1" using x \<open>- (2 ^ 15) \<le> sint x\<close> by (intro signed_take_bit_int_eq_self) simp_all
  finally show ?thesis .
qed

lemma ahead_Suc: "ahead a b < 0 \<Longrightarrow> ahead (a + 1) b = ahead a b + 1"
  using sint_Suc [of "a - b"] by (simp add: ahead_def algebra_simps)

definition inc32 :: "int \<Rightarrow> int option" where
  "inc32 n = (if n < 2 ^ 31 - 1 then Some (n + 1) else None)"

definition counted :: "sorter \<Rightarrow> sorter" where
  "counted s = s\<lparr>rtpSeq := rtpSeq s + 1, packTotal := packTotal s + 1, packCurrent := packCurrent s + 1\<rparr>"

function give_up :: "nat \<Rightarrow> u16 \<Rightarrow> sorter \<Rightarrow> sorter option" where
  "give_up drop_after pSNo s =
     (if ahead (rtpSeq s) pSNo < - int drop_after then do {
        t \<leftarrow> inc32 (lostTotal s);
        c \<leftarrow> inc32 (lostCurrent s);
        give_up drop_after pSNo (counted (s\<lparr>lostTotal := t, lostCurrent := c\<rparr>)) }
      else Some s)"
  by pat_completeness auto
termination give_up
  by (relation "measure (\<lambda>(n, p, s). nat (- ahead (rtpSeq s) p))") (auto simp: counted_def ahead_Suc)

declare give_up.simps [simp del]

definition catch_up :: "sorter \<Rightarrow> sorter" where
  "catch_up s = (if ahead (rtpWSeq s) (rtpSeq s) < 0 then s\<lparr>rtpWSeq := rtpSeq s\<rparr> else s)"

function want :: "nat \<Rightarrow> u16 \<Rightarrow> sorter \<Rightarrow> sorter" where
  "want wait pSNo s =
     (if ahead (rtpWSeq s) pSNo < - int wait then
        want wait pSNo (s\<lparr>rtpWSeq := rtpWSeq s + 1,
          wantedSeqs := (if map_of (packBuffer s) (rtpWSeq s) = None then insert (rtpWSeq s) (wantedSeqs s) else wantedSeqs s)\<rparr>)
      else s)"
  by pat_completeness auto
termination want
  by (relation "measure (\<lambda>(n, p, s). nat (- ahead (rtpWSeq s) p))") (auto simp: ahead_Suc)

declare want.simps [simp del]

lemma perase_shrinks: "map_of m k = Some v \<Longrightarrow> length (perase k m) < length m"
  by (auto simp: perase_def intro!: length_filter_less dest!: map_of_SomeD)

function flush :: "sorter \<Rightarrow> packet list \<Rightarrow> sorter \<times> packet list" where
  "flush s out =
     (case map_of (packBuffer s) (rtpSeq s) of
        Some p \<Rightarrow> flush (counted (s\<lparr>packBuffer := perase (rtpSeq s) (packBuffer s)\<rparr>)) (out @ [p])
      | None \<Rightarrow> (s, out))"
  by pat_completeness auto
termination flush
  by (relation "measure (\<lambda>(s, out). length (packBuffer s))") (auto simp: counted_def dest: perase_shrinks)

declare flush.simps [simp del]

text \<open>The number of the first packet, and the end of the phase in which packets are only collected. \<open>begin\<close> is the
  smallest number in the buffer.\<close>

definition start :: "nat \<Rightarrow> u16 \<Rightarrow> sorter \<Rightarrow> sorter option" where
  "start drop_after pSNo s =
     (let s = (if first s then s\<lparr>rtpWSeq := pSNo, rtpSeq := pSNo - 5, first := False\<rparr> else s)
      in if preBuffer s then
           Some (if 5 \<le> length (packBuffer s)
             then s\<lparr>preBuffer := False, rtpSeq := fst (hd (packBuffer s)), rtpWSeq := fst (hd (packBuffer s))\<rparr> else s)
         else give_up drop_after pSNo s)"

text \<open>The packet itself: buffered when it is early, given out when it is the next one. In the buffer it is a copy,
  made by assigning to a new packet.\<close>

definition Packet_none :: "fec \<Rightarrow> packet" where
  "Packet_none junk = \<lparr>pdata = [], managed = False, sentPackets = 0, sentBytes = 0, fecEnabled = False, fecContext = junk\<rparr>"

definition place :: "nat \<Rightarrow> fec \<Rightarrow> packet \<Rightarrow> u16 \<Rightarrow> sorter \<times> packet list \<Rightarrow> sorter \<times> packet list" where
  "place max_send junk pack pSNo so =
     (let (s, out) = so;
          old = (case map_of (packBuffer s) pSNo of Some q \<Rightarrow> q | None \<Rightarrow> Packet_none junk);
          s = (if ahead (rtpSeq s) pSNo < 0
               then s\<lparr>packBuffer := pput pSNo (Packet_assign max_send old pack) (packBuffer s)\<rparr> else s)
      in if rtpSeq s = pSNo then (counted s, out @ [pack]) else (s, out))"

definition addPacket :: "nat \<Rightarrow> nat \<Rightarrow> nat \<Rightarrow> fec \<Rightarrow> packet \<Rightarrow> sorter \<times> packet list \<Rightarrow> (sorter \<times> packet list) option" where
  "addPacket drop_after wait max_send junk pack so = do {
     let (s, out) = so;
     pSNo \<leftarrow> getSequence pack;
     s \<leftarrow> start drop_after pSNo s;
     let s = want wait pSNo (catch_up s);
     let (s, out) = place max_send junk pack pSNo (flush s out);
     Some (catch_up s, out) }"

text \<open>The receiver report of a track. The fraction is computed with an \<open>int\<close> product and an unsigned quotient.\<close>

definition sendRTCP_RR :: "u32 \<Rightarrow> u32 \<Rightarrow> sorter \<Rightarrow> (bytes \<times> sorter) option" where
  "sendRTCP_RR mySSRC theirSSRC s = do {
     let s = (if of_int (lostCurrent s) + packCurrent s = 0 then s\<lparr>packCurrent := packCurrent s + 1\<rparr> else s);
     let lost = lostCurrent s * 255;
     if lost < - (2 ^ 31) \<or> 2 ^ 31 \<le> lost then None
     else
       let n = (of_int (lostCurrent s) + packCurrent s :: u32)
       in Some ([0x81, 201] @ be_bytes 2 (7 :: u16) @ be_bytes 4 mySSRC @ be_bytes 4 theirSSRC @
           [ucast ((of_int lost :: u32) div n)] @ be_bytes 3 (of_int (lostTotal s) :: u32) @
           be_bytes 4 (ucast (rtpSeq s) OR (packTotal s AND 0xFFFF0000)) @ replicate 12 0,
         s\<lparr>lostCurrent := 0, packCurrent := 0\<rparr>) }"

end
