(* ===== verification/RtpProps.thy ===== *)
theory RtpProps
  imports RtpSorter
begin

text \<open>
  What \<open>RTP::Sorter\<close> does with packets that arrive out of order, against the packets numbered without wrap-around:
  when none is too early or too late, what is given out is the packets in their order without a gap, from the first on
  (\<open>Sorter_in_order\<close>); and two ways in which packets that have been received are not given out.
\<close>

section \<open>Numbers within a window\<close>

lemma ahead_nat:
  assumes "a < b + 2 ^ 15" "b < a + 2 ^ 15"
  shows "ahead (of_nat a) (of_nat b) = int a - int b"
proof -
  have "(of_nat a - of_nat b :: u16) = of_int (int a - int b)" by simp
  then have "ahead (of_nat a) (of_nat b) = sint (of_int (int a - int b) :: u16)" by (simp only: ahead_def)
  also have "\<dots> = signed_take_bit 15 (int a - int b)" by (subst signed_of_int) simp
  also have "\<dots> = int a - int b" using assms by (intro signed_take_bit_int_eq_self) simp_all
  finally show ?thesis .
qed

lemma of_nat_u16_eq: "a < b + 2 ^ 16 \<Longrightarrow> b < a + 2 ^ 16 \<Longrightarrow> (of_nat a :: u16) = of_nat b \<longleftrightarrow> a = b"
proof
  assume w: "a < b + 2 ^ 16" "b < a + 2 ^ 16" and e: "(of_nat a :: u16) = of_nat b"
  have m: "a mod 65536 = b mod 65536" using arg_cong [OF e, of unat] by (simp add: unat_of_nat)
  show "a = b"
  proof (rule ccontr)
    assume "a \<noteq> b"
    then consider "a < b" | "b < a" by linarith
    then show False
    proof cases
      case 1
      then have "65536 dvd b - a" using m mod_eq_dvd_iff_nat [of a b 65536] by simp
      then show False using 1 w dvd_imp_le [of 65536 "b - a"] by simp
    next
      case 2
      then have "65536 dvd a - b" using m mod_eq_dvd_iff_nat [of b a 65536] by simp
      then show False using 2 w dvd_imp_le [of 65536 "a - b"] by simp
    qed
  qed
qed simp

lemma map_of_pput: "map_of (pput k v m) = (map_of m)(k \<mapsto> v)"
  by (induction k v m rule: pput.induct) (auto simp: fun_eq_iff)

lemma map_of_perase: "map_of (perase k m) = (map_of m)(k := None)"
  by (induction m) (auto simp: perase_def fun_eq_iff)

lemma want_same: "\<exists>q ws. want wait n s = s\<lparr>rtpWSeq := q, wantedSeqs := ws\<rparr>"
proof (induction wait n s rule: want.induct)
  case (1 wait n s)
  show ?case
  proof (cases "ahead (rtpWSeq s) n < - int wait")
    case True
    from 1 [OF True] obtain q ws where "want wait n (s\<lparr>rtpWSeq := rtpWSeq s + 1,
        wantedSeqs := (if map_of (packBuffer s) (rtpWSeq s) = None then insert (rtpWSeq s) (wantedSeqs s) else wantedSeqs s)\<rparr>)
      = s\<lparr>rtpWSeq := q, wantedSeqs := ws\<rparr>" by auto
    then show ?thesis using True by (subst want.simps) auto
  next
    case False
    then show ?thesis by (intro exI [of _ "rtpWSeq s"] exI [of _ "wantedSeqs s"]) (subst want.simps, simp)
  qed
qed

lemma catch_up_same: "\<exists>q. catch_up s = s\<lparr>rtpWSeq := q\<rparr>"
proof -
  show ?thesis
  proof (cases "ahead (rtpWSeq s) (rtpSeq s) < 0")
    case True
    then show ?thesis by (intro exI [of _ "rtpSeq s"]) (simp add: catch_up_def)
  next
    case False
    then show ?thesis by (intro exI [of _ "rtpWSeq s"]) (simp add: catch_up_def)
  qed
qed

section \<open>The sorter against the numbers of the packets\<close>

text \<open>Packets are numbered without wrap-around: packet \<open>n\<close> has the sequence number \<open>n\<close> modulo 2 to the power of 16.\<close>

definition numbered :: "(nat \<Rightarrow> packet) \<Rightarrow> bool" where
  "numbered pk \<longleftrightarrow> (\<forall>n. getSequence (pk n) = Some (of_nat n))"

text \<open>All before \<open>r\<close> has been given out, and of \<open>D\<close> the rest is in the buffer, not further than \<open>W\<close> from \<open>r\<close>.\<close>

definition holds_rest :: "nat \<Rightarrow> (nat \<Rightarrow> packet) \<Rightarrow> sorter \<Rightarrow> nat \<Rightarrow> nat set \<Rightarrow> bool" where
  "holds_rest W pk s r D \<longleftrightarrow> rtpSeq s = of_nat r \<and> \<not> first s \<and> \<not> preBuffer s \<and> (\<forall>m \<in> D. m \<le> r + W) \<and>
     (\<forall>m. r \<le> m \<and> m < r + 2 ^ 15 \<longrightarrow>
        map_option pdata (map_of (packBuffer s) (of_nat m)) = (if m \<in> D then Some (pdata (pk m)) else None)) \<and>
     (\<forall>k. map_of (packBuffer s) k \<noteq> None \<longrightarrow> (\<exists>m. r \<le> m \<and> m \<le> r + W \<and> k = of_nat m))"

lemma holds_rest_fields:
  "holds_rest W pk (s\<lparr>rtpWSeq := q, wantedSeqs := ws\<rparr>) r D = holds_rest W pk s r D"
  "holds_rest W pk (s\<lparr>rtpWSeq := q\<rparr>) r D = holds_rest W pk s r D"
  by (simp_all add: holds_rest_def)

lemma holds_rest_next:
  assumes h: "holds_rest W pk s r D" and W: "W < 2 ^ 15"
  shows "holds_rest W pk (counted (s\<lparr>packBuffer := perase (of_nat r) (packBuffer s)\<rparr>)) (r + 1) D"
  unfolding holds_rest_def
proof (intro conjI allI impI ballI)
  let ?s = "counted (s\<lparr>packBuffer := perase (of_nat r) (packBuffer s)\<rparr>)"
  show "rtpSeq ?s = of_nat (r + 1)" "\<not> first ?s" "\<not> preBuffer ?s"
    using h by (simp_all add: holds_rest_def counted_def add.commute)
  show "m \<le> r + 1 + W" if "m \<in> D" for m using h that by (fastforce simp: holds_rest_def)
  fix m assume m: "r + 1 \<le> m \<and> m < r + 1 + 2 ^ 15"
  have ne: "(of_nat m :: u16) \<noteq> of_nat r" using m of_nat_u16_eq [of m r] by simp
  show "map_option pdata (map_of (packBuffer ?s) (of_nat m)) = (if m \<in> D then Some (pdata (pk m)) else None)"
  proof (cases "m < r + 2 ^ 15")
    case True
    then show ?thesis using h m ne by (simp add: holds_rest_def counted_def map_of_perase)
  next
    case False
    then have m: "m = r + 2 ^ 15" using m by simp
    have "map_of (packBuffer s) (of_nat m) = None"
    proof (rule ccontr)
      assume "map_of (packBuffer s) (of_nat m) \<noteq> None"
      then obtain k where "r \<le> k" "k \<le> r + W" "(of_nat m :: u16) = of_nat k" using h by (auto simp: holds_rest_def)
      then show False using of_nat_u16_eq [of m k] W m by simp
    qed
    moreover have "m \<notin> D" using h W m by (auto simp: holds_rest_def)
    ultimately show ?thesis using ne by (simp add: counted_def map_of_perase)
  qed
next
  let ?s = "counted (s\<lparr>packBuffer := perase (of_nat r) (packBuffer s)\<rparr>)"
  fix k assume "map_of (packBuffer ?s) k \<noteq> None"
  then have k: "map_of (packBuffer s) k \<noteq> None" "k \<noteq> of_nat r" by (simp_all add: counted_def map_of_perase split: if_splits)
  then obtain m where "r \<le> m" "m \<le> r + W" "k = of_nat m" using h by (auto simp: holds_rest_def)
  then show "\<exists>m. r + 1 \<le> m \<and> m \<le> r + 1 + W \<and> k = of_nat m" using k(2) by (intro exI [of _ m]) (auto simp: Suc_le_eq le_less)
qed

lemma flush_rest:
  assumes W: "W < 2 ^ 15"
  shows "holds_rest W pk s r D \<Longrightarrow>
    \<exists>s' r' ps. flush s out = (s', out @ ps) \<and> holds_rest W pk s' r' D \<and> r \<le> r' \<and> r' \<notin> D \<and> {r..<r'} \<subseteq> D \<and>
      map pdata ps = map (\<lambda>m. pdata (pk m)) [r..<r'] \<and> lostTotal s' = lostTotal s"
proof (induction "length (packBuffer s)" arbitrary: s r out rule: less_induct)
  case less
  have seq: "rtpSeq s = of_nat r" using less.prems by (simp add: holds_rest_def)
  have at: "map_option pdata (map_of (packBuffer s) (of_nat r)) = (if r \<in> D then Some (pdata (pk r)) else None)"
    using less.prems by (simp add: holds_rest_def)
  show ?case
  proof (cases "map_of (packBuffer s) (of_nat r)")
    case None
    then show ?thesis using at less.prems seq
      by (subst flush.simps) (auto intro!: exI [of _ s] exI [of _ r] split: if_splits)
  next
    case (Some p)
    let ?s = "counted (s\<lparr>packBuffer := perase (of_nat r) (packBuffer s)\<rparr>)"
    have p: "r \<in> D" "pdata p = pdata (pk r)" using at Some by (auto split: if_splits)
    have "length (packBuffer ?s) < length (packBuffer s)" using perase_shrinks [OF Some] by (simp add: counted_def)
    then obtain s' r' ps where r: "flush ?s (out @ [p]) = (s', (out @ [p]) @ ps)" "holds_rest W pk s' r' D" "r + 1 \<le> r'" "r' \<notin> D"
      "{r + 1..<r'} \<subseteq> D" "map pdata ps = map (\<lambda>m. pdata (pk m)) [r + 1..<r']" "lostTotal s' = lostTotal ?s"
      using less.hyps [of ?s "r + 1" "out @ [p]"] holds_rest_next [OF less.prems W] by blast
    have "{r..<r'} = insert r {r + 1..<r'}" "[r..<r'] = r # [r + 1..<r']" using r(3) by (auto simp: upt_conv_Cons)
    moreover have "flush s out = flush ?s (out @ [p])" using Some seq by (subst flush.simps) simp
    ultimately show ?thesis using r p
      by (intro exI [of _ s'] exI [of _ r'] exI [of _ "p # ps"]) (simp add: counted_def)
  qed
qed

lemma place_rest:
  assumes W: "W < 2 ^ 15" and pk: "numbered pk" and h: "holds_rest W pk s r D" and r: "r \<notin> D"
    and n: "n \<le> r + W" "r < n + 2 ^ 15"
  shows "\<exists>s' r' ps. place max_send junk (pk n) (of_nat n) (s, out) = (s', out @ ps) \<and> holds_rest W pk s' r' (insert n D) \<and>
    r \<le> r' \<and> {r..<r'} \<subseteq> insert n D \<and> map pdata ps = map (\<lambda>m. pdata (pk m)) [r..<r'] \<and> lostTotal s' = lostTotal s"
proof -
  have seq: "rtpSeq s = of_nat r" and D: "\<forall>m \<in> D. m \<le> r + W" using h by (simp_all add: holds_rest_def)
  have a: "ahead (rtpSeq s) (of_nat n) = int r - int n" using n W seq by (simp add: ahead_nat)
  have eq: "rtpSeq s = of_nat n \<longleftrightarrow> r = n" using n W seq of_nat_u16_eq [of r n] by simp
  consider "n < r" | "n = r" | "r < n" by linarith
  then show ?thesis
  proof cases
    case 1
    have "holds_rest W pk s r (insert n D)" using h 1 by (auto simp: holds_rest_def)
    then show ?thesis using 1 a eq by (intro exI [of _ s] exI [of _ r] exI [of _ "[]"]) (auto simp: place_def Let_def)
  next
    case 2
    have "map_option pdata (map_of (packBuffer s) (of_nat r)) = None" using h r by (simp add: holds_rest_def)
    then have "map_of (perase (of_nat r) (packBuffer s)) = map_of (packBuffer s)" by (auto simp: map_of_perase)
    then have "holds_rest W pk (counted s) (r + 1) D"
      using holds_rest_next [OF h W] by (simp add: holds_rest_def counted_def)
    then have "holds_rest W pk (counted s) (r + 1) (insert r D)" by (auto simp: holds_rest_def)
    then show ?thesis using 2 a eq
      by (intro exI [of _ "counted s"] exI [of _ "r + 1"] exI [of _ "[pk n]"]) (auto simp: place_def counted_def Let_def)
  next
    case 3
    have "pdata (pk n) \<noteq> []"
      using pk by (auto simp: numbered_def getSequence_def btohs_def dest!: spec [of _ n])
    then have copy: "pdata (Packet_assign max_send q (pk n)) = pdata (pk n)" for q
      by (simp add: Packet_assign_def copy_data_def)
    define old where "old = (case map_of (packBuffer s) (of_nat n) of Some q \<Rightarrow> q | None \<Rightarrow> Packet_none junk)"
    define s' where "s' = s\<lparr>packBuffer := pput (of_nat n) (Packet_assign max_send old (pk n)) (packBuffer s)\<rparr>"
    have "holds_rest W pk s' r (insert n D)"
      unfolding holds_rest_def
    proof (intro conjI allI impI)
      fix m assume m: "r \<le> m \<and> m < r + 2 ^ 15"
      have "map_option pdata (map_of (packBuffer s) (of_nat m)) = (if m \<in> D then Some (pdata (pk m)) else None)"
        using h m by (simp add: holds_rest_def)
      moreover have "(of_nat m :: u16) = of_nat n \<longleftrightarrow> m = n" using m n W by (intro of_nat_u16_eq) simp_all
      ultimately have old: "map_option pdata (map_of (packBuffer s) (of_nat m)) = (if m \<in> D then Some (pdata (pk m)) else None)"
        "(of_nat m :: u16) = of_nat n \<longleftrightarrow> m = n" by simp_all
      then show "map_option pdata (map_of (packBuffer s') (of_nat m)) = (if m \<in> insert n D then Some (pdata (pk m)) else None)"
        using old copy by (auto simp: s'_def map_of_pput)
    next
      fix k assume k: "map_of (packBuffer s') k \<noteq> None"
      show "\<exists>m. r \<le> m \<and> m \<le> r + W \<and> k = of_nat m"
      proof (cases "k = of_nat n")
        case True
        then show ?thesis using 3 n(1) by (intro exI [of _ n]) simp
      next
        case False
        then show ?thesis using h k by (simp add: holds_rest_def s'_def map_of_pput)
      qed
    qed (use h n in \<open>simp_all add: holds_rest_def s'_def\<close>)
    then show ?thesis using 3 a eq
      by (intro exI [of _ s'] exI [of _ r] exI [of _ "[]"]) (simp add: place_def s'_def old_def seq Let_def)
  qed
qed

fun addPackets :: "nat \<Rightarrow> nat \<Rightarrow> nat \<Rightarrow> fec \<Rightarrow> packet list \<Rightarrow> sorter \<times> packet list \<Rightarrow> (sorter \<times> packet list) option" where
  "addPackets drop_after wait max_send junk [] so = Some so"
| "addPackets drop_after wait max_send junk (p # ps) so = do {
     so \<leftarrow> addPacket drop_after wait max_send junk p so;
     addPackets drop_after wait max_send junk ps so }"

lemma addPackets_append:
  "addPackets d w ms j (ps @ qs) so = do { so \<leftarrow> addPackets d w ms j ps so; addPackets d w ms j qs so }"
  by (induction ps arbitrary: so) (auto split: bind_splits)

text \<open>Packets that arrive in an order the sorter can restore: none more than \<open>W\<close> numbers before one that is still
  missing or came only just before, and none more than 2 to the power of 14 numbers late.\<close>

definition on_time :: "nat \<Rightarrow> nat \<Rightarrow> nat list \<Rightarrow> bool" where
  "on_time W r0 ns \<longleftrightarrow> (\<forall>i < length ns. r0 \<le> ns ! i + 2 ^ 14 \<and> (\<forall>j < i. ns ! j \<le> ns ! i + 2 ^ 14) \<and>
     (\<forall>m. r0 \<le> m \<and> m + W < ns ! i \<longrightarrow> m \<in> set (take (i - 1) ns)))"

lemma on_time_close:
  assumes "\<forall>n \<in> set ns. n \<le> r0 + W \<and> n \<le> 2 ^ 14" "r0 \<le> 2 ^ 14"
  shows "on_time W r0 ns"
  unfolding on_time_def
proof (intro allI impI conjI)
  fix i assume i: "i < length ns"
  have n: "ns ! j \<le> r0 + W \<and> ns ! j \<le> 2 ^ 14" if "j < length ns" for j using assms(1) nth_mem [OF that] by blast
  show "r0 \<le> ns ! i + 2 ^ 14" using assms(2) by simp
  show "ns ! j \<le> ns ! i + 2 ^ 14" if "j < i" for j using n [of j] that i by simp
  show "m \<in> set (take (i - 1) ns)" if "r0 \<le> m \<and> m + W < ns ! i" for m using n [OF i] that by simp
qed

definition started :: "nat \<Rightarrow> sorter \<Rightarrow> bool" where
  "started r0 s \<longleftrightarrow> rtpSeq s = of_nat r0 \<and> \<not> first s \<and> \<not> preBuffer s \<and> packBuffer s = []"

lemma rest_step:
  assumes W: "W < 2 ^ 15" and pk: "numbered pk" and h: "holds_rest W pk s r D"
    and n: "\<forall>m. r \<le> m \<and> m + W < n \<longrightarrow> m \<in> D"
    and late: "r < n + 2 ^ 14 + 2" "\<forall>m \<in> D. m \<le> n + 2 ^ 14"
    and st: "start W (of_nat n) s0 = Some s"
  shows "\<exists>s' r' ps. addPacket W wait max_send junk (pk n) (s0, out) = Some (s', out @ ps) \<and>
    holds_rest W pk s' r' (insert n D) \<and> r \<le> r' \<and> {r..<r'} \<subseteq> insert n D \<and>
    map pdata ps = map (\<lambda>m. pdata (pk m)) [r..<r'] \<and> (\<forall>m. {r..m} \<subseteq> D \<longrightarrow> m < r') \<and> lostTotal s' = lostTotal s"
proof -
  have seq: "getSequence (pk n) = Some (of_nat n)" using pk by (simp add: numbered_def)
  obtain q ws where w: "want wait (of_nat n) (catch_up s) = s\<lparr>rtpWSeq := q, wantedSeqs := ws\<rparr>"
    using catch_up_same [of s] want_same [of wait "of_nat n" "catch_up s"] by auto
  let ?s = "s\<lparr>rtpWSeq := q, wantedSeqs := ws\<rparr>"
  obtain s1 r1 ps1 where 1: "flush ?s out = (s1, out @ ps1)" "holds_rest W pk s1 r1 D" "r \<le> r1" "r1 \<notin> D" "{r..<r1} \<subseteq> D"
    "map pdata ps1 = map (\<lambda>m. pdata (pk m)) [r..<r1]" "lostTotal s1 = lostTotal s"
    using flush_rest [OF W, of pk ?s r D out] h by (auto simp: holds_rest_fields)
  have r1: "r1 < n + 2 ^ 15"
  proof (cases "r = r1")
    case False
    then have "r1 - 1 \<in> D" using 1(3,5) by auto
    then show ?thesis using late(2) by fastforce
  qed (use late in simp)
  have "n \<le> r1 + W" using n 1(3,4) by (meson not_le)
  from place_rest [OF W pk 1(2,4) this r1, of max_send junk "out @ ps1"]
  obtain s2 r2 ps2 where 2: "place max_send junk (pk n) (of_nat n) (s1, out @ ps1) = (s2, (out @ ps1) @ ps2)"
    "holds_rest W pk s2 r2 (insert n D)" "r1 \<le> r2" "{r1..<r2} \<subseteq> insert n D"
    "map pdata ps2 = map (\<lambda>m. pdata (pk m)) [r1..<r2]" "lostTotal s2 = lostTotal s1" by auto
  obtain q2 where c: "catch_up s2 = s2\<lparr>rtpWSeq := q2\<rparr>" using catch_up_same by blast
  have "addPacket W wait max_send junk (pk n) (s0, out) = Some (s2\<lparr>rtpWSeq := q2\<rparr>, out @ (ps1 @ ps2))"
    by (simp add: addPacket_def seq st w 1(1) 2(1) c Let_def)
  moreover have "[r..<r2] = [r..<r1] @ [r1..<r2]" using 1(3) 2(3) by (metis le_add_diff_inverse upt_add_eq_append)
  moreover have "{r..<r2} = {r..<r1} \<union> {r1..<r2}" using 1(3) 2(3) by (simp add: ivl_disj_un)
  moreover have "m < r2" if "{r..m} \<subseteq> D" for m
  proof (rule ccontr)
    assume "\<not> m < r2"
    then have "r1 \<in> {r..m}" using 1(3) 2(3) by simp
    then show False using that 1(4) by blast
  qed
  ultimately show ?thesis using 1 2
    by (intro exI [of _ "s2\<lparr>rtpWSeq := q2\<rparr>"] exI [of _ r2] exI [of _ "ps1 @ ps2"]) (auto simp: holds_rest_fields)
qed

lemma start_rest:
  assumes "holds_rest W pk s r D" "n \<le> r + W" "r < n + 2 ^ 14 + 2" "W < 2 ^ 15"
  shows "start W (of_nat n) s = Some s"
  using assms by (subst start_def, subst give_up.simps) (simp add: holds_rest_def ahead_nat Let_def)

lemma on_time_snoc:
  assumes "on_time W r0 (ns @ [n])"
  shows "on_time W r0 ns" "r0 \<le> n + 2 ^ 14" "\<forall>m \<in> set ns. m \<le> n + 2 ^ 14"
    "r0 \<le> m \<Longrightarrow> m + W < n \<Longrightarrow> m \<in> set (butlast ns)"
proof -
  have at: "i < length (ns @ [n]) \<Longrightarrow> r0 \<le> (ns @ [n]) ! i + 2 ^ 14 \<and> (\<forall>j < i. (ns @ [n]) ! j \<le> (ns @ [n]) ! i + 2 ^ 14) \<and>
     (\<forall>m. r0 \<le> m \<and> m + W < (ns @ [n]) ! i \<longrightarrow> m \<in> set (take (i - 1) (ns @ [n])))" for i
    using assms unfolding on_time_def by blast
  show "on_time W r0 ns"
    unfolding on_time_def
  proof (rule allI, rule impI)
    fix i assume "i < length ns"
    then show "r0 \<le> ns ! i + 2 ^ 14 \<and> (\<forall>j<i. ns ! j \<le> ns ! i + 2 ^ 14) \<and>
      (\<forall>m. r0 \<le> m \<and> m + W < ns ! i \<longrightarrow> m \<in> set (take (i - 1) ns))"
      using at [of i] by (simp add: nth_append)
  qed
  have l: "r0 \<le> n + 2 ^ 14 \<and> (\<forall>j < length ns. ns ! j \<le> n + 2 ^ 14) \<and>
     (\<forall>m. r0 \<le> m \<and> m + W < n \<longrightarrow> m \<in> set (take (length ns - 1) ns))"
    using at [of "length ns"] by (simp add: nth_append)
  then show "r0 \<le> n + 2 ^ 14" "\<forall>m \<in> set ns. m \<le> n + 2 ^ 14" by (auto simp: in_set_conv_nth)
  show "r0 \<le> m \<Longrightarrow> m + W < n \<Longrightarrow> m \<in> set (butlast ns)" using l by (simp add: butlast_conv_take)
qed

text \<open>What holds when the packets \<open>ns\<close> have been added and all before \<open>r\<close> has been given out.\<close>

definition given_out :: "nat \<Rightarrow> (nat \<Rightarrow> packet) \<Rightarrow> nat \<Rightarrow> nat list \<Rightarrow> sorter \<Rightarrow> nat \<Rightarrow> packet list \<Rightarrow> bool" where
  "given_out W pk r0 ns s r ps \<longleftrightarrow> holds_rest W pk s r (set ns) \<and> r0 \<le> r \<and> {r0..<r} \<subseteq> set ns \<and>
     map pdata ps = map (\<lambda>m. pdata (pk m)) [r0..<r]"

definition sorted_to :: "nat \<Rightarrow> (nat \<Rightarrow> packet) \<Rightarrow> nat \<Rightarrow> nat list \<Rightarrow> sorter \<Rightarrow> nat \<Rightarrow> packet list \<Rightarrow> bool" where
  "sorted_to W pk r0 ns s r ps \<longleftrightarrow> given_out W pk r0 ns s r ps \<and> (\<forall>m. {r0..m} \<subseteq> set (butlast ns) \<longrightarrow> m < r)"

lemmas sorted_to_defs = sorted_to_def given_out_def

lemma sorted_to_snoc:
  assumes W: "W < 2 ^ 15" and pk: "numbered pk" and t: "on_time W r0 (ns @ [n])" and i: "given_out W pk r0 ns s r ps"
    and st: "start W (of_nat n) s0 = Some s"
  shows "\<exists>s' r' qs. addPacket W wait max_send junk (pk n) (s0, out) = Some (s', out @ qs) \<and>
    sorted_to W pk r0 (ns @ [n]) s' r' (ps @ qs) \<and> lostTotal s' = lostTotal s"
proof -
  note t = on_time_snoc [OF t]
  note i = i [unfolded given_out_def]
  have n: "\<forall>m. r \<le> m \<and> m + W < n \<longrightarrow> m \<in> set ns"
    using t(4) i in_set_butlastD by (metis le_trans)
  have late: "r < n + 2 ^ 14 + 2"
  proof (cases "r0 = r")
    case False
    then have "r - 1 \<in> {r0..<r}" using i by simp linarith
    then have "r - 1 \<in> set ns" using i by blast
    then show ?thesis using t(3) by fastforce
  qed (use t(2) in simp)
  from rest_step [OF W pk conjunct1 [OF i] n late t(3) st, of wait max_send junk out]
  obtain s2 r2 ps2 where 2: "addPacket W wait max_send junk (pk n) (s0, out) = Some (s2, out @ ps2)"
    "holds_rest W pk s2 r2 (insert n (set ns))" "r \<le> r2" "{r..<r2} \<subseteq> insert n (set ns)"
    "map pdata ps2 = map (\<lambda>m. pdata (pk m)) [r..<r2]" "\<forall>m. {r..m} \<subseteq> set ns \<longrightarrow> m < r2" "lostTotal s2 = lostTotal s"
    by auto
  have "m < r2" if "{r0..m} \<subseteq> set ns" for m
  proof -
    have "{r..m} \<subseteq> {r0..m}" using i by auto
    then show ?thesis using 2(6) that by blast
  qed
  moreover have "[r0..<r2] = [r0..<r] @ [r..<r2]" using i 2(3) by (metis le_add_diff_inverse upt_add_eq_append)
  moreover have "{r0..<r2} = {r0..<r} \<union> {r..<r2}" using i 2(3) by (simp add: ivl_disj_un)
  ultimately have "sorted_to W pk r0 (ns @ [n]) s2 r2 (ps @ ps2)" using i 2 by (auto simp: sorted_to_defs)
  then show ?thesis using 2(1,7) by blast
qed

lemma sorted_to_start:
  assumes i: "sorted_to W pk r0 ns s r ps" and W: "W < 2 ^ 15" and t: "on_time W r0 (ns @ [n])"
  shows "start W (of_nat n) s = Some s"
proof (rule start_rest [OF _ _ _ W])
  note t = on_time_snoc [OF t]
  show "holds_rest W pk s r (set ns)" using i by (simp add: sorted_to_defs)
  show "n \<le> r + W"
  proof (rule ccontr)
    assume "\<not> n \<le> r + W"
    then have "{r0..r} \<subseteq> set (butlast ns)" using t(4) by auto
    then show False using i by (auto simp: sorted_to_defs)
  qed
  show "r < n + 2 ^ 14 + 2"
  proof (cases "r0 = r")
    case False
    then have "r - 1 \<in> {r0..<r}" using i by (simp add: sorted_to_defs) linarith
    then have "r - 1 \<in> set ns" using i by (auto simp: sorted_to_defs)
    then show ?thesis using t(3) by fastforce
  qed (use t(2) in simp)
qed

lemma sorted_to_list:
  assumes W: "W < 2 ^ 15" and pk: "numbered pk" and i: "sorted_to W pk r0 ns0 s r ps"
  shows "on_time W r0 (ns0 @ ns) \<Longrightarrow>
    \<exists>s' r' qs. addPackets W wait max_send junk (map pk ns) (s, out) = Some (s', out @ qs) \<and>
      sorted_to W pk r0 (ns0 @ ns) s' r' (ps @ qs) \<and> lostTotal s' = lostTotal s"
proof (induction ns rule: rev_induct)
  case Nil
  then show ?case using i by auto
next
  case (snoc n ns)
  have t: "on_time W r0 ((ns0 @ ns) @ [n])" using snoc.prems by simp
  obtain s1 r1 qs1 where 1: "addPackets W wait max_send junk (map pk ns) (s, out) = Some (s1, out @ qs1)"
    "sorted_to W pk r0 (ns0 @ ns) s1 r1 (ps @ qs1)" "lostTotal s1 = lostTotal s"
    using snoc.IH [OF on_time_snoc(1) [OF t]] by blast
  from sorted_to_snoc [OF W pk t conjunct1 [OF 1(2) [unfolded sorted_to_def]] sorted_to_start [OF 1(2) W t], of wait max_send junk "out @ qs1"]
  obtain s2 r2 qs2 where "addPacket W wait max_send junk (pk n) (s1, out @ qs1) = Some (s2, (out @ qs1) @ qs2)"
    "sorted_to W pk r0 ((ns0 @ ns) @ [n]) s2 r2 ((ps @ qs1) @ qs2)" "lostTotal s2 = lostTotal s1" by blast
  then show ?case using 1 by (intro exI [of _ s2] exI [of _ r2] exI [of _ "qs1 @ qs2"]) (simp add: addPackets_append)
qed

lemma started_sorted: "started r0 s \<Longrightarrow> sorted_to W pk r0 [] s r0 []"
  by (simp add: sorted_to_defs holds_rest_def started_def)

section \<open>The packets that are only collected\<close>

lemma pput_keys: "set (map fst (pput k v m)) = insert k (set (map fst m))"
  by (induction k v m rule: pput.induct) auto

lemma pput_sorted: "sorted_wrt (<) (map fst m) \<Longrightarrow> sorted_wrt (<) (map fst (pput k v m))"
proof (induction k v m rule: pput.induct)
  case (2 k v k' v' m)
  then show ?case using pput_keys [of k v m] by auto
qed simp

lemma pput_length: "map_of m k = None \<Longrightarrow> length (pput k v m) = length m + 1"
  by (induction k v m rule: pput.induct) (auto split: if_splits)

definition collects :: "(nat \<Rightarrow> packet) \<Rightarrow> sorter \<Rightarrow> nat \<Rightarrow> nat set \<Rightarrow> bool" where
  "collects pk s n0 D \<longleftrightarrow> \<not> first s \<and> preBuffer s \<and> rtpSeq s = of_nat n0 - 5 \<and>
     sorted_wrt (<) (map fst (packBuffer s)) \<and> length (packBuffer s) = card D \<and>
     (\<forall>k. map_option pdata (map_of (packBuffer s) k) = (if unat k \<in> D then Some (pdata (pk (unat k))) else None)) \<and>
     lostTotal s = 0"

definition near :: "nat \<Rightarrow> nat \<Rightarrow> bool" where
  "near n0 m \<longleftrightarrow> n0 < m + 5 \<and> m + 5 < n0 + 2 ^ 15 \<and> m < 2 ^ 16"

lemma near_ahead:
  assumes "near n0 m"
  shows "ahead (of_nat n0 - 5) (of_nat m) < 0" "of_nat n0 - 5 \<noteq> (of_nat m :: u16)"
proof -
  have w: "n0 < m + 5" "m + 5 < n0 + 2 ^ 15" using assms by (simp_all add: near_def)
  have "(of_nat n0 :: u16) - 5 - of_nat m = of_nat n0 - of_nat (m + 5)" by simp
  then have "ahead (of_nat n0 - 5) (of_nat m) = ahead (of_nat n0) (of_nat (m + 5))" by (simp only: ahead_def)
  then show "ahead (of_nat n0 - 5) (of_nat m) < 0" using ahead_nat [of n0 "m + 5"] w by simp
  then show "of_nat n0 - 5 \<noteq> (of_nat m :: u16)" by (auto simp: ahead_def)
qed

lemma copied:
  assumes "numbered pk"
  shows "pdata (Packet_assign max_send q (pk n)) = pdata (pk n)"
proof -
  have "pdata (pk n) \<noteq> []"
    using assms by (auto simp: numbered_def getSequence_def btohs_def dest!: spec [of _ n])
  then show ?thesis by (simp add: Packet_assign_def copy_data_def)
qed

lemma collect_step:
  assumes c: "collects pk s n0 D" and D: "\<forall>m \<in> D. near n0 m" "finite D" and n: "near n0 n" "n \<notin> D"
    and st: "start W (of_nat n) s0 = Some s" and pk: "numbered pk"
  shows "\<exists>s'. addPacket W wait max_send junk (pk n) (s0, out) = Some (s', out) \<and> collects pk s' n0 (insert n D)"
proof -
  have seq: "getSequence (pk n) = Some (of_nat n)" using pk by (simp add: numbered_def)
  have un: "unat (of_nat n :: u16) = n" using n(1) by (simp add: near_def unat_of_nat)
  obtain q ws where w: "want wait (of_nat n) (catch_up s) = s\<lparr>rtpWSeq := q, wantedSeqs := ws\<rparr>"
    using catch_up_same [of s] want_same [of wait "of_nat n" "catch_up s"] by auto
  let ?s = "s\<lparr>rtpWSeq := q, wantedSeqs := ws\<rparr>"
  have "map_of (packBuffer s) (of_nat n0 - 5) = None"
  proof (rule ccontr)
    assume "map_of (packBuffer s) (of_nat n0 - 5) \<noteq> None"
    then have "unat (of_nat n0 - 5 :: u16) \<in> D"
      using c unfolding collects_def by (metis option.map_disc_iff)
    then show False using near_ahead(2) [of n0 "unat (of_nat n0 - 5 :: u16)"] D by simp
  qed
  then have f: "flush ?s out = (?s, out)" using c by (subst flush.simps) (simp add: collects_def)
  let ?p = "Packet_assign max_send (case map_of (packBuffer s) (of_nat n) of Some q \<Rightarrow> q | None \<Rightarrow> Packet_none junk) (pk n)"
  let ?t = "?s\<lparr>packBuffer := pput (of_nat n) ?p (packBuffer s)\<rparr>"
  have p: "place max_send junk (pk n) (of_nat n) (?s, out) = (?t, out)"
    using c near_ahead [OF n(1)] by (simp add: place_def collects_def Let_def)
  obtain q2 where c2: "catch_up ?t = ?t\<lparr>rtpWSeq := q2\<rparr>" using catch_up_same by blast
  have free: "map_of (packBuffer s) (of_nat n) = None"
    using c n(2) un by (auto simp: collects_def dest!: spec [of _ "of_nat n"])
  have "addPacket W wait max_send junk (pk n) (s0, out) = Some (?t\<lparr>rtpWSeq := q2\<rparr>, out)"
    by (simp add: addPacket_def seq st w f p c2 Let_def)
  moreover have "map_option pdata (map_of (pput (of_nat n) ?p (packBuffer s)) k) =
      (if unat k \<in> insert n D then Some (pdata (pk (unat k))) else None)" for k
  proof (cases "k = of_nat n")
    case True
    then show ?thesis using copied [OF pk] un by (simp add: map_of_pput)
  next
    case False
    then have "unat k \<noteq> n" by auto
    then show ?thesis using c False by (simp add: map_of_pput collects_def)
  qed
  then have "collects pk (?t\<lparr>rtpWSeq := q2\<rparr>) n0 (insert n D)"
    using c D(2) n(2) pput_length [OF free] pput_sorted by (simp add: collects_def)
  ultimately show ?thesis by blast
qed

lemma collect_list:
  assumes pk: "numbered pk"
  shows "collects pk s n0 D \<Longrightarrow> \<forall>m \<in> D. near n0 m \<Longrightarrow> finite D \<Longrightarrow> \<forall>n \<in> set ns. near n0 n \<and> n \<notin> D \<Longrightarrow> distinct ns \<Longrightarrow>
    card D + length ns \<le> 5 \<Longrightarrow>
    \<exists>s'. addPackets W wait max_send junk (map pk ns) (s, out) = Some (s', out) \<and> collects pk s' n0 (D \<union> set ns)"
proof (induction ns arbitrary: s D)
  case (Cons n ns)
  have "start W (of_nat n) s = Some s" using Cons.prems by (simp add: start_def collects_def)
  then obtain s1 where 1: "addPacket W wait max_send junk (pk n) (s, out) = Some (s1, out)" "collects pk s1 n0 (insert n D)"
    using collect_step [OF Cons.prems(1-3) _ _ _ pk] Cons.prems by (metis list.set_intros(1))
  obtain s2 where "addPackets W wait max_send junk (map pk ns) (s1, out) = Some (s2, out)" "collects pk s2 n0 (insert n D \<union> set ns)"
    using Cons.IH [OF 1(2)] Cons.prems by auto
  then show ?case using 1 by (intro exI [of _ s2]) simp
qed auto

lemma collect_first:
  assumes pk: "numbered pk" and ns: "length ns = 5" "distinct ns" "\<forall>n \<in> set ns. near (hd ns) n"
  shows "\<exists>s. addPackets W wait max_send junk (map pk ns) (Sorter track, []) = Some (s, []) \<and> collects pk s (hd ns) (set ns)"
proof -
  obtain n ms where n: "ns = n # ms" using ns(1) by (cases ns) auto
  let ?s = "(Sorter track)\<lparr>rtpWSeq := of_nat n, rtpSeq := of_nat n - 5, first := False\<rparr>"
  have st: "start W (of_nat n) (Sorter track) = Some ?s" by (simp add: start_def Sorter_def)
  have c: "collects pk ?s n {}" by (simp add: collects_def Sorter_def)
  obtain s1 where 1: "addPacket W wait max_send junk (pk n) (Sorter track, []) = Some (s1, [])" "collects pk s1 n {n}"
    using collect_step [OF c _ _ _ _ st pk, of wait max_send junk "[]"] ns n by auto
  have ne: "\<forall>m \<in> set ms. m \<noteq> n" using ns(2) n by auto
  obtain s2 where "addPackets W wait max_send junk (map pk ms) (s1, []) = Some (s2, [])" "collects pk s2 n ({n} \<union> set ms)"
    using collect_list [OF pk 1(2), of ms W wait max_send junk "[]"] ns n ne by auto
  then show ?thesis using 1 n by simp
qed

lemma collect_start:
  assumes c: "collects pk s n0 D" and D: "finite D" "card D = 5" "\<forall>m \<in> D. m < 2 ^ 16 \<and> m \<le> Min D + W" and W: "W < 2 ^ 15"
  shows "\<exists>s'. start W pSNo s = Some s' \<and> holds_rest W pk s' (Min D) D \<and> lostTotal s' = 0"
proof -
  have "packBuffer s \<noteq> []" using c D(2) by (auto simp: collects_def)
  then obtain k v m where b: "packBuffer s = (k, v) # m" by (cases "packBuffer s") auto
  let ?s = "s\<lparr>preBuffer := False, rtpSeq := k, rtpWSeq := k\<rparr>"
  have at: "map_option pdata (map_of (packBuffer s) j) = (if unat j \<in> D then Some (pdata (pk (unat j))) else None)" for j
    using c by (simp add: collects_def)
  have inD: "unat j \<in> D \<longleftrightarrow> map_of (packBuffer s) j \<noteq> None" for j using at [of j] by (auto split: if_splits)
  have "unat k = Min D"
  proof (rule Min_eqI [symmetric])
    show "finite D" by fact
    show "unat k \<in> D" using inD [of k] b by simp
    fix m' assume m': "m' \<in> D"
    then have u: "unat (of_nat m' :: u16) = m'" using D(3) by (simp add: unat_of_nat)
    then have "map_of (packBuffer s) (of_nat m') \<noteq> None" using inD m' by metis
    then have "of_nat m' \<in> set (map fst (packBuffer s))" by (simp add: map_of_eq_None_iff)
    then have "k \<le> of_nat m'" using c b by (auto simp: collects_def)
    then show "unat k \<le> m'" using u by (metis word_le_nat_alt)
  qed
  then have "(of_nat (unat k) :: u16) = of_nat (Min D)" by (simp only:)
  then have k: "k = of_nat (Min D)" by simp
  have "start W pSNo s = Some ?s" using c b D(2) by (simp add: start_def collects_def)
  moreover have "holds_rest W pk ?s (Min D) D"
    unfolding holds_rest_def
  proof (intro conjI allI impI)
    fix m' assume m': "Min D \<le> m' \<and> m' < Min D + 2 ^ 15"
    have min: "Min D \<in> D" using D(1,2) by (intro Min_in) auto
    have "unat (of_nat m' :: u16) \<in> D \<longleftrightarrow> m' \<in> D" "m' \<in> D \<Longrightarrow> unat (of_nat m' :: u16) = m'"
    proof -
      show e: "m' \<in> D \<Longrightarrow> unat (of_nat m' :: u16) = m'" using D(3) by (simp add: unat_of_nat)
      show "unat (of_nat m' :: u16) \<in> D \<longleftrightarrow> m' \<in> D"
      proof
        assume u: "unat (of_nat m' :: u16) \<in> D"
        then have "Min D \<le> m' mod 65536" using D(1) by (simp add: unat_of_nat)
        then have "m' < 65536" using m' min D(3) by (cases "m' < 65536") (auto simp: le_mod_geq)
        then show "m' \<in> D" using u by (simp add: unat_of_nat)
      qed (use e in simp)
    qed
    then show "map_option pdata (map_of (packBuffer ?s) (of_nat m')) = (if m' \<in> D then Some (pdata (pk m')) else None)"
      using at [of "of_nat m'"] by simp
  next
    fix j assume "map_of (packBuffer ?s) j \<noteq> None"
    then have "unat j \<in> D" using inD [of j] by simp
    then show "\<exists>m. Min D \<le> m \<and> m \<le> Min D + W \<and> j = of_nat m" using D(1,3) by (intro exI [of _ "unat j"]) auto
  qed (use c D k in \<open>auto simp: collects_def\<close>)
  moreover have "lostTotal ?s = 0" using c by (simp add: collects_def)
  ultimately show ?thesis by blast
qed

lemma Sorter_list:
  assumes W: "W < 2 ^ 14" and pk: "numbered pk" and l: "length ns0 = 5" "distinct ns0" and r0: "r0 = Min (set ns0)"
    and n0: "\<forall>n \<in> set ns0. hd ns0 < n + 5 \<and> n < 2 ^ 16 \<and> n \<le> r0 + W" and t: "on_time W r0 (ns0 @ n # ns)"
  shows "\<exists>s r ps. addPackets W wait max_send junk (map pk (ns0 @ n # ns)) (Sorter track, []) = Some (s, ps) \<and>
    sorted_to W pk r0 (ns0 @ n # ns) s r ps \<and> lostTotal s = 0"
proof -
  have W': "W < 2 ^ 15" using W by simp
  have "hd ns0 \<in> set ns0" using l by (cases ns0) auto
  then have "r0 \<le> hd ns0" using r0 by simp
  then have near: "\<forall>n \<in> set ns0. near (hd ns0) n" using n0 W by (fastforce simp: near_def)
  have card: "card (set ns0) = 5" using l by (simp add: distinct_card)
  obtain s0 where 0: "addPackets W wait max_send junk (map pk ns0) (Sorter track, []) = Some (s0, [])" "collects pk s0 (hd ns0) (set ns0)"
    using collect_first [OF pk l near, of W wait max_send junk track] by blast
  obtain s1 where 1: "start W (of_nat n) s0 = Some s1" "holds_rest W pk s1 r0 (set ns0)" "lostTotal s1 = 0"
    using collect_start [OF 0(2) _ card _ W', of "of_nat n"] n0 r0 by auto
  have t': "on_time W r0 ((ns0 @ [n]) @ ns)" using t by simp
  have "on_time W r0 (ns0 @ [n])" using t'
  proof (induction ns rule: rev_induct)
    case (snoc m ms)
    then show ?case using on_time_snoc(1) [of W r0 "(ns0 @ [n]) @ ms" m] by simp
  qed simp
  have "given_out W pk r0 ns0 s1 r0 []" using 1(2) by (simp add: given_out_def)
  from sorted_to_snoc [OF W' pk \<open>on_time W r0 (ns0 @ [n])\<close> this 1(1), of wait max_send junk "[]"] 1(3)
  obtain s2 r2 ps2 where 2: "addPacket W wait max_send junk (pk n) (s0, []) = Some (s2, ps2)"
    "sorted_to W pk r0 (ns0 @ [n]) s2 r2 ps2" "lostTotal s2 = 0" by auto
  from sorted_to_list [OF W' pk 2(2) t', of wait max_send junk ps2]
  obtain s3 r3 qs where "addPackets W wait max_send junk (map pk ns) (s2, ps2) = Some (s3, ps2 @ qs)"
    "sorted_to W pk r0 ((ns0 @ [n]) @ ns) s3 r3 (ps2 @ qs)" "lostTotal s3 = lostTotal s2" by blast
  then show ?thesis using 0(1) 2 by (auto simp: addPackets_append)
qed
text \<open>The shortest packet with a number.\<close>

definition bare_u16 :: "fec \<Rightarrow> u16 \<Rightarrow> packet" where
  "bare_u16 junk n = Packet_view junk ([0x80, 96] @ be_bytes 2 n)"

definition bare :: "fec \<Rightarrow> nat \<Rightarrow> packet" where
  "bare junk n = bare_u16 junk (of_nat n)"

definition fec0 :: fec where
  "fec0 = \<lparr>needsInit = False, isFirst = False, maxIndex = 0, columnSN = 0, rowSN = 0, rows = 0, columns = 0, index = 0,
     lengthRecovery = 0, pktSize = 0, rtpBufSize = 0, bitstringSize = 0, fecBufferRows = no_fecdata, fecBufferColumns = Map.empty\<rparr>"

lemma numbered_bare: "numbered (bare junk)"
proof -
  have "be_val (be_bytes 2 (w :: u16)) = w" for w by (rule be_val_be_bytes) (simp add: take_bit_word_eq_self)
  then show ?thesis
    by (simp add: numbered_def bare_def bare_u16_def Packet_view_def getSequence_def btohs_eq rdn_def)
qed

definition sorter0 :: "nat \<Rightarrow> sorter" where
  "sorter0 r = (Sorter 1)\<lparr>first := False, preBuffer := False, rtpSeq := of_nat r, rtpWSeq := of_nat r\<rparr>"


section \<open>Properties\<close>

text \<open>C3: a new sorter gives out the packets in the order of their numbers, without a gap, beginning with the smallest
  of the first five, as far as they are complete; the rest is in the buffer, and none is counted as lost. The
  packets may arrive in any order in which none comes more than \<open>drop_after\<close> numbers before one that is still
  missing, nor far too late; numbers wrap around.\<close>

theorem Sorter_in_order:
  assumes "drop_after < 2 ^ 14" and "numbered pk" and "6 \<le> length ns" and "distinct (take 5 ns)"
    and "r0 = Min (set (take 5 ns))"
    and "\<forall>n \<in> set (take 5 ns). hd ns < n + 5 \<and> n < 2 ^ 16 \<and> n \<le> r0 + drop_after" and "on_time drop_after r0 ns"
  shows "\<exists>s r ps. addPackets drop_after wait max_send junk (map pk ns) (Sorter track, []) = Some (s, ps) \<and>
    map pdata ps = map (\<lambda>m. pdata (pk m)) [r0..<r] \<and> {r0..<r} \<subseteq> set ns \<and>
    (\<forall>m. {r0..m} \<subseteq> set (butlast ns) \<longrightarrow> m < r) \<and>
    (\<forall>m. r \<le> m \<and> m < r + 2 ^ 15 \<longrightarrow>
       map_option pdata (map_of (packBuffer s) (of_nat m)) = (if m \<in> set ns then Some (pdata (pk m)) else None)) \<and>
    rtpSeq s = of_nat r \<and> lostTotal s = 0"
proof -
  obtain n ms where n: "ns = take 5 ns @ n # ms" using assms(3) id_take_nth_drop [of 5 ns] by auto
  have "hd (take 5 ns) = hd ns" using assms(3) by (cases ns) auto
  then obtain s r ps where "addPackets drop_after wait max_send junk (map pk ns) (Sorter track, []) = Some (s, ps)"
    "sorted_to drop_after pk r0 ns s r ps" "lostTotal s = 0"
    using Sorter_list [OF assms(1,2) _ assms(4,5), of n ms wait max_send junk track] assms(3,6,7) n by auto
  then show ?thesis unfolding sorted_to_defs holds_rest_def
    by - (elim conjE, intro exI [of _ s] exI [of _ r] exI [of _ ps] conjI, assumption+)
qed

theorem Sorter_in_order_witness:
  "\<exists>s r ps. addPackets 30 5 100 fec0 (map (bare fec0) [3, 2, 5, 4, 6, 7]) (Sorter 1, []) = Some (s, ps) \<and>
    map pdata ps = map (\<lambda>m. pdata (bare fec0 m)) [2..<r] \<and> {2..<r} \<subseteq> set [3, 2, 5, 4, 6, 7] \<and>
    (\<forall>m. {2..m} \<subseteq> set (butlast [3, 2, 5, 4, 6, 7]) \<longrightarrow> m < r) \<and>
    (\<forall>m. r \<le> m \<and> m < r + 2 ^ 15 \<longrightarrow>
       map_option pdata (map_of (packBuffer s) (of_nat m)) =
       (if m \<in> set [3, 2, 5, 4, 6, 7] then Some (pdata (bare fec0 m)) else None)) \<and>
    rtpSeq s = of_nat r \<and> lostTotal s = 0"
proof (rule Sorter_in_order [OF _ numbered_bare])
  show "on_time 30 2 [3, 2, 5, 4, 6, 7]" by (rule on_time_close) simp_all
qed simp_all

text \<open>Packets that were received but are not given out. After packets in the wrong order have been put into the
  buffer, a packet that comes early makes the sorter give up one that is in the buffer, where it stays: with a limit of
  two, packet 1 is lost although all came at most one place late. And a stream whose first packets go past
  the number 65535 begins with the wrong one: the packets before that number are never given out.\<close>

theorem sorter_loses_received:
  "map_option (\<lambda>(s, out). (rtpSeq s, lostTotal s, map fst (packBuffer s), map getSequence out))
     (addPackets 2 1 100 fec0 (map (bare fec0) [1, 2, 0, 4]) (sorter0 0, [])) = Some (3, 1, [1, 4], [Some 0, Some 2]) \<and>
   map_option (\<lambda>(s, out). (rtpSeq s, lostTotal s, map fst (packBuffer s), map getSequence out))
     (addPackets 30 5 100 fec0 (map (bare_u16 fec0) [65533, 65534, 65535, 0, 1, 2]) (Sorter 1, [])) =
     Some (3, 0, [65533, 65534, 65535], [Some 0, Some 1, Some 2])"
  by (intro conjI; code_simp)

end
