(* ===== verification/RtpDepay.thy ===== *)
theory RtpDepay
  imports Rtp ByteBuffer Adts
begin

text \<open>
  \<open>RTP::toDTSC\<close> (\<open>lib/rtp.cpp\<close>, \<open>lib/rtp.h\<close>): frames from the packets of a track. The result of a step is the new state
  and what is given on: for H.264 and HEVC the units given to \<open>handleH264Single\<close> and \<open>handleHEVCSingle\<close>, which change other
  members than those here and are not modelled, for the other codecs the contents of the packets given to the callback.
  \<open>None\<close> is an access out of the memory. The arithmetic with the \<open>double\<close> multiplier is an argument (\<open>to_ms\<close>, \<open>after\<close>), and so are
  the allocator, the clock and which allocations of a bit stream succeed. A payload is the list that begins where it begins
  in the packet, with its size.
\<close>

section \<open>State\<close>

record depay =
  lastSeq :: u32
  packCount :: u64
  wrapArounds :: u32
  recentWrap :: bool
  prevTime :: u32
  firstTime :: u64
  milliSync :: u64
  fuaBuffer :: rptr
  packBuffer :: rptr
  packBufferTime :: u64
  vp8FrameBuffer :: rptr
  vp8BufferHasKeyframe :: bool

text \<open>\<open>prevTime\<close> and \<open>milliSync\<close> are not set by the constructor.\<close>

definition toDTSC :: "u32 \<Rightarrow> u64 \<Rightarrow> depay" where
  "toDTSC junk_time junk_sync = \<lparr>lastSeq = 0, packCount = 0, wrapArounds = 0, recentWrap = False, prevTime = junk_time, firstTime = 0,
     milliSync = junk_sync, fuaBuffer = rp_new, packBuffer = rp_new, packBufferTime = 0, vp8FrameBuffer = rp_new,
     vp8BufferHasKeyframe = False\<rparr>"

type_synonym media = "u64 \<times> bytes \<times> bool"

type_synonym step = "(depay \<times> media list) option"

text \<open>A difference of two sizes as an \<open>unsigned int\<close>.\<close>

definition sub32 :: "nat \<Rightarrow> nat \<Rightarrow> nat" where
  "sub32 a b = (if b \<le> a then a - b else a + 2 ^ 32 - b)"

text \<open>The same as a \<open>size_t\<close>.\<close>

definition sub64 :: "nat \<Rightarrow> nat \<Rightarrow> nat" where
  "sub64 a b = (if b \<le> a then a - b else a + 2 ^ 64 - b)"

section \<open>Times\<close>

text \<open>The time of the packet in ticks since the first one, and the members that follow the time.\<close>

definition wrap_time :: "u32 \<Rightarrow> depay \<Rightarrow> u64 \<times> depay" where
  "wrap_time time d =
     (if recentWrap d then
        (if time > 0x80000000 then ucast time - 0x100000000 else ucast time,
         if time < 0x80000000 \<and> time > 0x40000000 then d\<lparr>recentWrap := False\<rparr> else d)
      else
        (ucast time,
         if time < prevTime d \<and> time < 0x40000000 \<and> 0x80000000 < prevTime d
         then d\<lparr>wrapArounds := wrapArounds d + 1, recentWrap := True\<rparr> else d))"

definition follow_time :: "u64 \<Rightarrow> u32 \<Rightarrow> depay \<Rightarrow> u64 \<times> depay" where
  "follow_time now time d =
     (let (pTime, d) =
        (if firstTime d = 0 then (ucast time, d\<lparr>milliSync := now, firstTime := ucast time + 1\<rparr>) else wrap_time time d);
        d = (if wrapArounds d = 0 \<and> pTime + 1 < firstTime d then d\<lparr>firstTime := pTime + 1\<rparr> else d);
        d = d\<lparr>prevTime := time\<rparr>
      in (pTime - firstTime d + 1 + 0x100000000 * ucast (wrapArounds d), d))"

definition timeSync :: "(u64 \<Rightarrow> u64 \<Rightarrow> u64) \<Rightarrow> u64 \<Rightarrow> u32 \<Rightarrow> u64 \<Rightarrow> depay \<Rightarrow> depay" where
  "timeSync to_ms now rtpTime msDiff d =
     (if firstTime d = 0 then d
      else
        let t = (if recentWrap d \<and> 0x80000000 < rtpTime then ucast rtpTime - 0x100000000 else ucast rtpTime);
            msTime = to_ms (t - firstTime d + 1 + 0x100000000 * ucast (wrapArounds d)) (milliSync d);
            rtpDiff = (ucast (msTime - (now - msDiff)) :: u32)
        in if 25 < sint rtpDiff \<or> sint rtpDiff < -25 then d\<lparr>milliSync := milliSync d - scast rtpDiff\<rparr> else d)"

section \<open>Codecs\<close>

definition handleMP2 :: "u64 \<Rightarrow> bytes \<Rightarrow> nat \<Rightarrow> depay \<Rightarrow> step" where
  "handleMP2 msTime pl plSize d =
     (if plSize < 5 then Some (d, []) else do { b \<leftarrow> rdn pl 4 (plSize - 4); Some (d, [(msTime, b, False)]) })"

definition handleMPEG2 :: "u64 \<Rightarrow> bytes \<Rightarrow> nat \<Rightarrow> depay \<Rightarrow> step" where
  "handleMPEG2 msTime pl plSize d =
     (if plSize < 5 then Some (d, []) else do { b \<leftarrow> rdn pl 4 (plSize - 4); Some (d, [(msTime, b, False)]) })"

text \<open>AAC: one unit, a part of one unit, or several units.\<close>

definition aac_single :: "allocator \<Rightarrow> u64 \<Rightarrow> bytes \<Rightarrow> nat \<Rightarrow> depay \<Rightarrow> step" where
  "aac_single ra msTime pl plSize d = do {
     a \<leftarrow> btohs pl 2;
     let auSize = unat (drop_bit 3 a);
     if auSize + 4 = plSize then do {
       b \<leftarrow> rdn pl 4 auSize;
       Some (d\<lparr>packBuffer := rp_truncate (packBuffer d) 0\<rparr>, [(msTime, b, False)]) }
     else do {
       let d = (if currSize (packBuffer d) = 0 \<or> packBufferTime d \<noteq> msTime
                then d\<lparr>packBufferTime := msTime, packBuffer := snd (rp_allocate ra (packBuffer d) auSize)\<rparr> else d);
       d \<leftarrow> (if (currSize (packBuffer d) + sub64 plSize 4) mod 2 ^ 64 \<le> auSize then do {
               b \<leftarrow> rdn pl 4 (sub64 plSize 4);
               (ok, r) \<leftarrow> rp_append ra (packBuffer d) b;
               Some (d\<lparr>packBuffer := r\<rparr>) }
             else Some d);
       if currSize (packBuffer d) = auSize then do {
         b \<leftarrow> rdn (rp_mem (packBuffer d)) 0 auSize;
         Some (d\<lparr>packBuffer := rp_truncate (packBuffer d) 0\<rparr>, [(msTime, b, False)]) }
       else Some (d, []) } }"

function aac_units :: "(u64 \<Rightarrow> u32 \<Rightarrow> u64) \<Rightarrow> u16 \<Rightarrow> u64 \<Rightarrow> bytes \<Rightarrow> nat \<Rightarrow> nat \<Rightarrow> nat \<Rightarrow> nat \<Rightarrow> u32 \<Rightarrow> media list option" where
  "aac_units after nSamples msTime pl plSize auHeadBytes off unitOffset sampleOffset =
     (if off < auHeadBytes + 2 \<and> off + 2 < plSize then do {
        a \<leftarrow> btohs pl off;
        let auSize = unat (drop_bit 3 a);
        if plSize < auSize + unitOffset then Some []
        else do {
          b \<leftarrow> rdn pl unitOffset auSize;
          ms \<leftarrow> aac_units after nSamples msTime pl plSize auHeadBytes (off + 2) (unitOffset + auSize) (sampleOffset + ucast nSamples);
          Some ((after msTime sampleOffset, b, False) # ms) } }
      else Some [])"
  by pat_completeness auto
termination aac_units
  by (relation "measure (\<lambda>(a, s, t, pl, n, hb, off, u, so). n - off)") auto

declare aac_units.simps [simp del]

definition handleAAC :: "(nat \<Rightarrow> bool) \<Rightarrow> allocator \<Rightarrow> (u64 \<Rightarrow> u32 \<Rightarrow> u64) \<Rightarrow> bytes \<Rightarrow> u64 \<Rightarrow> bytes \<Rightarrow> nat \<Rightarrow> depay \<Rightarrow> step" where
  "handleAAC can ra after init msTime pl plSize d =
     (if plSize \<le> 2 then Some (d, [])
      else do {
        n \<leftarrow> samples can init;
        auHeadBits \<leftarrow> map_option unat (btohs pl 0);
        let auHeadBytes = auHeadBits div 8 + (if auHeadBits mod 8 \<noteq> 0 then 1 else 0);
        if auHeadBytes = 2 then aac_single ra msTime pl plSize d
        else do {
          ms \<leftarrow> aac_units after n msTime pl plSize auHeadBytes 2 (2 + auHeadBytes) 0;
          Some (d, ms) } })"

text \<open>HEVC. \<open>unit_of\<close> is the buffer with the length in front, as it is given on.\<close>

definition hevc_key :: "bytes \<Rightarrow> nat \<Rightarrow> bool option" where
  "hevc_key m len =
     (if len = 0 then Some False
      else do { b \<leftarrow> rd m 0; let t = drop_bit 1 (b AND 0x7E); Some (16 \<le> t \<and> t \<le> 21) })"

definition sized_unit :: "allocator \<Rightarrow> bytes \<Rightarrow> nat \<Rightarrow> nat \<Rightarrow> depay \<Rightarrow> (bytes option \<times> depay) option" where
  "sized_unit ra pl pos len d =
     (let (ok, r) = rp_allocate ra (packBuffer d) (4 + len)
      in if \<not> ok then Some (None, d\<lparr>packBuffer := r\<rparr>)
         else do {
           m \<leftarrow> htobl (rp_mem r) 0 (of_nat len);
           b \<leftarrow> rdn pl pos len;
           m \<leftarrow> wrn m 4 b;
           unit \<leftarrow> rdn m 0 (len + 4);
           Some (Some unit, d\<lparr>packBuffer := r\<lparr>rp_mem := m\<rparr>\<rparr>) })"

function hevc_units :: "allocator \<Rightarrow> u64 \<Rightarrow> bytes \<Rightarrow> nat \<Rightarrow> nat \<Rightarrow> depay \<Rightarrow> step" where
  "hevc_units ra msTime pl plSize pos d =
     (if pos + 2 < plSize then do {
        n \<leftarrow> btohs pl pos;
        (u, d) \<leftarrow> sized_unit ra pl (pos + 2) (unat n) d;
        new \<leftarrow> (case u of None \<Rightarrow> Some []
                | Some b \<Rightarrow> do { k \<leftarrow> hevc_key (drop (pos + 2) pl) (unat n); Some [(msTime, b, k)] });
        (d, ms) \<leftarrow> hevc_units ra msTime pl plSize (pos + (2 + unat n)) d;
        Some (d, new @ ms) }
      else Some (d, []))"
  by pat_completeness auto
termination hevc_units
  by (relation "measure (\<lambda>(ra, t, pl, n, pos, d). n - pos)") auto

declare hevc_units.simps [simp del]

text \<open>A complete fragmentation unit: the length in front is filled in.\<close>

definition fu_done :: "(byte \<Rightarrow> byte) \<Rightarrow> (bytes \<Rightarrow> nat \<Rightarrow> bool option) \<Rightarrow> u64 \<Rightarrow> depay \<Rightarrow> step" where
  "fu_done f iskey msTime d = do {
     let r = fuaBuffer d;
     m \<leftarrow> htobl (rp_mem r) 0 (of_nat (currSize r) - 4);
     b \<leftarrow> rd m 4;
     m \<leftarrow> wrn m 4 [f b];
     unit \<leftarrow> rdn m 0 (currSize r);
     k \<leftarrow> iskey (drop 4 m) (currSize r - 4);
     Some (d\<lparr>fuaBuffer := rp_truncate (r\<lparr>rp_mem := m\<rparr>) 0\<rparr>, [(msTime, unit, k)]) }"

definition hevc_fu :: "allocator \<Rightarrow> u64 \<Rightarrow> bytes \<Rightarrow> nat \<Rightarrow> bool \<Rightarrow> depay \<Rightarrow> step" where
  "hevc_fu ra msTime pl plSize missed d = do {
     fu \<leftarrow> rd pl 2;
     let n = currSize (fuaBuffer d);
     if n = 0 \<and> fu AND 0x80 = 0 then Some (d, [])
     else if n \<noteq> 0 \<and> (fu AND 0x80 \<noteq> 0 \<or> missed) then fu_done (\<lambda>b. b OR 0x80) hevc_key msTime d
     else do {
       let (ok, r) = rp_allocate ra (fuaBuffer d) (n + (sub32 plSize 3 + (if n = 0 then 6 else 0)));
       if \<not> ok then Some (d\<lparr>fuaBuffer := r\<rparr>, [])
       else do {
         b \<leftarrow> rdn pl 3 (sub32 plSize 3);
         r \<leftarrow> (if n = 0 then do {
                 (ok, r) \<leftarrow> rp_append ra r (replicate 6 0);
                 (ok, r) \<leftarrow> rp_append ra r b;
                 b0 \<leftarrow> rd pl 0;
                 b1 \<leftarrow> rd pl 1;
                 m \<leftarrow> wrn (rp_mem r) 4 [push_bit 1 (fu AND 0x3F) OR (b0 AND 0x81), b1];
                 Some (r\<lparr>rp_mem := m\<rparr>) }
               else map_option snd (rp_append ra r b));
         let d = d\<lparr>fuaBuffer := r\<rparr>;
         if fu AND 0x40 \<noteq> 0 then fu_done (\<lambda>b. b) hevc_key msTime d else Some (d, []) } } }"

definition handleHEVC :: "allocator \<Rightarrow> u64 \<Rightarrow> bytes \<Rightarrow> nat \<Rightarrow> bool \<Rightarrow> depay \<Rightarrow> step" where
  "handleHEVC ra msTime pl plSize missed d =
     (if plSize < 2 then Some (d, [])
      else do {
        b \<leftarrow> rd pl 0;
        let nalType = drop_bit 1 (b AND 0x7E);
        if nalType = 48 then hevc_units ra msTime pl plSize 2 d
        else if nalType = 49 then hevc_fu ra msTime pl plSize missed d
        else if nalType = 50 then Some (d, [])
        else do {
          (u, d) \<leftarrow> sized_unit ra pl 0 plSize d;
          (case u of None \<Rightarrow> Some (d, [])
           | Some b \<Rightarrow> do { k \<leftarrow> hevc_key (drop 4 b) plSize; Some (d, [(msTime, b, k)]) }) } })"


text \<open>H.264: \<open>h264::isKeyframe\<close>, units, several units in one packet, fragments, and a fragmented unit that holds several.\<close>

function key_stream :: "(nat \<Rightarrow> bool) \<Rightarrow> bytes \<Rightarrow> nat \<Rightarrow> nat \<Rightarrow> bitstream \<Rightarrow> bitstream option" where
  "key_stream can m len i s =
     (if i < 10 \<and> i < len then do {
        prevent \<leftarrow> (if i + 2 < len then do { b \<leftarrow> rdn m i 3; Some (b = [0, 0, 3]) } else Some False);
        b \<leftarrow> rdn m i (if prevent then 2 else 1);
        s \<leftarrow> bs_append can s b;
        key_stream can m len (i + (if prevent then 3 else 1)) s }
      else Some s)"
  by pat_completeness auto
termination key_stream
  by (relation "measure (\<lambda>(can, m, len, i, s). len - i)") (auto split: if_splits)

declare key_stream.simps [simp del]

definition h264_key :: "(nat \<Rightarrow> bool) \<Rightarrow> bytes \<Rightarrow> nat \<Rightarrow> bool option" where
  "h264_key can m len = do {
     b \<leftarrow> rd m 0;
     let nalType = b AND 0x1F;
     sei \<leftarrow> (if nalType = 6 then do { c \<leftarrow> rd m 1; Some (c = 6) } else Some False);
     if nalType = 5 \<or> sei then Some True
     else if nalType \<noteq> 1 then Some False
     else do {
       s \<leftarrow> key_stream can m len 1 \<lparr>data = [], offset = 0, bufferSize = 0\<rparr>;
       (v, s) \<leftarrow> getExpGolomb s;
       (sliceType, s) \<leftarrow> getUExpGolomb s;
       Some (sliceType = 2 \<or> sliceType = 4 \<or> sliceType = 7 \<or> sliceType = 9) } }"

function h264_nals :: "(nat \<Rightarrow> bool) \<Rightarrow> allocator \<Rightarrow> u64 \<Rightarrow> bytes \<Rightarrow> nat \<Rightarrow> nat \<Rightarrow> depay \<Rightarrow> step" where
  "h264_nals can ra msTime pl plSize pos d =
     (if pos + 1 < plSize then do {
        n \<leftarrow> btohs pl pos;
        (u, d) \<leftarrow> sized_unit ra pl (pos + 2) (unat n) d;
        new \<leftarrow> (case u of None \<Rightarrow> Some []
                | Some b \<Rightarrow> do { k \<leftarrow> h264_key can (drop (pos + 2) pl) (unat n); Some [(msTime, b, k)] });
        (d, ms) \<leftarrow> h264_nals can ra msTime pl plSize (pos + (2 + unat n)) d;
        Some (d, new @ ms) }
      else Some (d, []))"
  by pat_completeness auto
termination h264_nals
  by (relation "measure (\<lambda>(can, ra, t, pl, n, pos, d). n - pos)") auto

declare h264_nals.simps [simp del]

text \<open>One unit of several: at \<open>pos\<close>, with the size \<open>n\<close>. The length in front is written over it.\<close>

definition multi_unit :: "(nat \<Rightarrow> bool) \<Rightarrow> u64 \<Rightarrow> nat \<Rightarrow> nat \<Rightarrow> bytes \<Rightarrow> (bytes \<times> media) option" where
  "multi_unit can ts pos n m = do {
     m \<leftarrow> htobl m pos (of_nat n - 4);
     unit \<leftarrow> rdn m pos n;
     k \<leftarrow> h264_key can (drop (pos + 4) m) (sub32 n 4);
     Some (m, (ts, unit, k)) }"

function multi_loop :: "(nat \<Rightarrow> bool) \<Rightarrow> u64 \<Rightarrow> nat \<Rightarrow> nat \<Rightarrow> nat \<Rightarrow> bytes \<Rightarrow> (bytes \<times> media list) option" where
  "multi_loop can ts len i lastStart m =
     (if i < sub32 len 4 then do {
        code \<leftarrow> rdn m i 4;
        if code = [0, 0, 0, 1] then do {
          (m, e) \<leftarrow> multi_unit can ts lastStart (sub32 i (lastStart + 1)) m;
          (m, ms) \<leftarrow> multi_loop can ts len (i + 1) i m;
          Some (m, e # ms) }
        else multi_loop can ts len (i + 1) lastStart m }
      else do {
        (m, e) \<leftarrow> multi_unit can ts lastStart (len - lastStart) m;
        Some (m, [e]) })"
  by pat_completeness auto
termination multi_loop
  by (relation "measure (\<lambda>(can, ts, len, i, l, m). sub32 len 4 - i)") auto

declare multi_loop.simps [simp del]

definition handleH264Multi :: "(nat \<Rightarrow> bool) \<Rightarrow> u64 \<Rightarrow> nat \<Rightarrow> bytes \<Rightarrow> (bytes \<times> media list) option" where
  "handleH264Multi can ts len m = multi_loop can ts len 0 0 m"

definition h264_fu :: "(nat \<Rightarrow> bool) \<Rightarrow> allocator \<Rightarrow> u64 \<Rightarrow> bytes \<Rightarrow> nat \<Rightarrow> bool \<Rightarrow> depay \<Rightarrow> step" where
  "h264_fu can ra msTime pl plSize missed d = do {
     fu \<leftarrow> rd pl 1;
     let n = currSize (fuaBuffer d);
     if n = 0 \<and> fu AND 0x80 = 0 then Some (d, [])
     else if n \<noteq> 0 \<and> (fu AND 0x80 \<noteq> 0 \<or> missed) then Some (d\<lparr>fuaBuffer := rp_truncate (fuaBuffer d) 0\<rparr>, [])
     else do {
       let (ok, r) = rp_allocate ra (fuaBuffer d) (n + (sub32 plSize 2 + (if n = 0 then 5 else 0)));
       if \<not> ok then Some (d\<lparr>fuaBuffer := r\<rparr>, [])
       else do {
         r \<leftarrow> (if n = 0 then do {
                 (ok, r) \<leftarrow> rp_append ra r (replicate 4 0);
                 b \<leftarrow> rdn pl 1 (plSize - 1);
                 (ok, r) \<leftarrow> rp_append ra r b;
                 x \<leftarrow> rd (rp_mem r) 4;
                 y \<leftarrow> rd pl 0;
                 m \<leftarrow> wrn (rp_mem r) 4 [(x AND 0x1F) OR (y AND 0xE0)];
                 Some (r\<lparr>rp_mem := m\<rparr>) }
               else do { b \<leftarrow> rdn pl 2 (sub32 plSize 2); map_option snd (rp_append ra r b) });
         let d = d\<lparr>fuaBuffer := r\<rparr>;
         if fu AND 0x40 = 0 then Some (d, [])
         else do {
           x \<leftarrow> rd (rp_mem r) 4;
           if x AND 0x1F = 7 \<or> x AND 0x1F = 8 then do {
             (m, ms) \<leftarrow> handleH264Multi can msTime (currSize r) (rp_mem r);
             Some (d\<lparr>fuaBuffer := rp_truncate (r\<lparr>rp_mem := m\<rparr>) 0\<rparr>, ms) }
           else fu_done (\<lambda>b. b) (h264_key can) msTime d } } } }"

definition handleH264 :: "(nat \<Rightarrow> bool) \<Rightarrow> allocator \<Rightarrow> u64 \<Rightarrow> bytes \<Rightarrow> nat \<Rightarrow> bool \<Rightarrow> bool \<Rightarrow> depay \<Rightarrow> step" where
  "handleH264 can ra msTime pl plSize missed hasPadding d =
     (if plSize = 0 then Some (d, [])
      else do {
        pad \<leftarrow> (if hasPadding then map_option unat (rd pl (plSize - 1)) else Some 0);
        if hasPadding \<and> plSize \<le> pad then Some (d, [])
        else do {
          b \<leftarrow> rd pl 0;
          let t = b AND 0x1F;
          if t = 0 then Some (d, [])
          else if t < 24 then do {
            (u, d) \<leftarrow> sized_unit ra pl 0 plSize d;
            (case u of None \<Rightarrow> Some (d, [])
             | Some m \<Rightarrow> do { k \<leftarrow> h264_key can (drop 4 (rp_mem (packBuffer d))) plSize; Some (d, [(msTime, m, k)]) }) }
          else if t = 24 then h264_nals can ra msTime pl plSize 1 d
          else if t = 28 then h264_fu can ra msTime pl plSize missed d
          else Some (d, []) } })"

text \<open>VP8, and VP9 too.\<close>

definition vp8_header :: "bytes \<Rightarrow> nat option" where
  "vp8_header buffer = do {
     b0 \<leftarrow> rd buffer 0;
     if b0 AND 0x80 = 0 then Some 1
     else do {
       b1 \<leftarrow> rd buffer 1;
       ext \<leftarrow> (if b1 AND 0x80 \<noteq> 0 then do { b2 \<leftarrow> rd buffer 2; Some (b2 AND 0x80 \<noteq> 0) } else Some False);
       Some (2 + of_bool (b1 AND 0x80 \<noteq> 0) + of_bool (b1 AND 0x40 \<noteq> 0) + of_bool (b1 AND 0x20 \<noteq> 0 \<or> b1 AND 0x10 \<noteq> 0) +
         of_bool ext) } }"

text \<open>What is in the buffer is given out when a frame begins and nothing was missed.\<close>

definition vp8_begin :: "u64 \<Rightarrow> bool \<Rightarrow> bool \<Rightarrow> depay \<Rightarrow> step" where
  "vp8_begin msTime start_of_frame missed d =
     (if currSize (vp8FrameBuffer d) = 0 then Some (d, [])
      else do {
        out \<leftarrow> (if start_of_frame \<and> \<not> missed
          then do { b \<leftarrow> rdn (rp_mem (vp8FrameBuffer d)) 0 (currSize (vp8FrameBuffer d)); Some [(msTime, b, vp8BufferHasKeyframe d)] }
          else Some []);
        let d = (if out \<noteq> [] then d\<lparr>packCount := packCount d + 1\<rparr> else d);
        Some (if start_of_frame \<or> missed then d\<lparr>vp8FrameBuffer := (vp8FrameBuffer d)\<lparr>currSize := 0\<rparr>, vp8BufferHasKeyframe := False\<rparr> else d,
          out) })"

definition handleVP8 :: "allocator \<Rightarrow> u64 \<Rightarrow> bytes \<Rightarrow> nat \<Rightarrow> bool \<Rightarrow> bool \<Rightarrow> depay \<Rightarrow> step" where
  "handleVP8 ra msTime buffer len missed hasPadding d =
     (if len < 3 then Some (d, [])
      else do {
        pad \<leftarrow> (if hasPadding then map_option unat (rd buffer (len - 1)) else Some 0);
        if hasPadding \<and> len \<le> pad then Some (d, [])
        else do {
          b0 \<leftarrow> rd buffer 0;
          h \<leftarrow> vp8_header buffer;
          if len < h then Some (d, [])
          else
            let start_of_frame = (b0 AND 0x10 \<noteq> 0 \<and> b0 AND 0x07 = 0);
                size = len - h
            in if hasPadding \<and> size < pad then Some (d, [])
               else if hasPadding \<and> size - pad = 0 then Some (d, [])
               else do {
                 let size = size - pad;
                 (d, out) \<leftarrow> vp8_begin msTime start_of_frame missed d;
                 if currSize (vp8FrameBuffer d) = 0 \<and> \<not> start_of_frame then Some (d, out)
                 else do {
                   b \<leftarrow> rdn buffer h size;
                   (ok, r) \<leftarrow> (if currSize (vp8FrameBuffer d) = 0 then rp_assign ra (vp8FrameBuffer d) b
                               else rp_append ra (vp8FrameBuffer d) b);
                   x \<leftarrow> rd buffer h;
                   let d = d\<lparr>vp8FrameBuffer := r\<rparr>;
                   Some (if start_of_frame \<and> x AND 1 = 0 then d\<lparr>vp8BufferHasKeyframe := True\<rparr> else d, out) } } } })"

section \<open>A packet\<close>

text \<open>\<open>addRTP\<close>; the second result says what init data is given out. A packet is missed unless its number is one more
  than the last one, where the number before it is an \<open>int\<close> and that of the last one is unsigned.\<close>

definition missed_packet :: "u32 \<Rightarrow> u16 \<Rightarrow> bool" where
  "missed_packet prev seq \<longleftrightarrow> prev \<noteq> ucast seq - 1"

definition OpusHead :: bytes where
  "OpusHead = str ''OpusHead'' @ [1, 2, 0, 120, 187, 128, 0, 0, 0, 0, 0]"

definition addRTP :: "(nat \<Rightarrow> bool) \<Rightarrow> allocator \<Rightarrow> (u64 \<Rightarrow> u64 \<Rightarrow> u64) \<Rightarrow> (u64 \<Rightarrow> u32 \<Rightarrow> u64) \<Rightarrow> u64 \<Rightarrow> bytes \<Rightarrow> bytes \<Rightarrow> packet \<Rightarrow> depay \<Rightarrow>
    (depay \<times> bytes list \<times> media list) option" where
  "addRTP can ra to_ms after now codec init pkt d = do {
     pt \<leftarrow> getPayloadType pkt;
     if 72 \<le> pt \<and> pt \<le> 76 then Some (d, [], [])
     else if codec = [] then Some (d, [], [])
     else do {
       time \<leftarrow> getTimeStamp pkt;
       let (ticks, d) = follow_time now time d;
       let msTime = to_ms ticks (milliSync d);
       h \<leftarrow> Rtp.getPayload pkt;
       plSize \<leftarrow> Rtp.getPayloadSize pkt;
       let pl = drop h (pdata pkt);
       seq \<leftarrow> getSequence pkt;
       let missed = missed_packet (lastSeq d) seq;
       let d = d\<lparr>lastSeq := ucast seq\<rparr>;
       let give = map_option (\<lambda>(d, ms). (d, [], ms));
       if codec = str ''H264'' then give (handleH264 can ra msTime pl plSize missed False d)
       else if codec = str ''AAC'' then give (handleAAC can ra after init msTime pl plSize d)
       else if codec = str ''MP2'' \<or> codec = str ''MP3'' then give (handleMP2 msTime pl plSize d)
       else if codec = str ''HEVC'' then give (handleHEVC ra msTime pl plSize missed d)
       else if codec = str ''MPEG2'' then give (handleMPEG2 msTime pl plSize d)
       else if codec = str ''VP8'' then give (handleVP8 ra msTime pl plSize missed False d)
       else if codec = str ''VP9'' then give (handleVP8 ra msTime pl plSize missed False d)
       else if codec = str ''ALAW'' \<or> codec = str ''opus'' \<or> codec = str ''PCM'' \<or> codec = str ''ULAW'' then do {
         b \<leftarrow> rdn pl 0 plSize;
         Some (d, if codec = str ''opus'' then [OpusHead] else [], [(msTime, b, False)]) }
       else Some (d, [], []) } }"

end
