(* ===== verification/RtpFrames.thy ===== *)
theory RtpFrames
  imports RtpDepay
begin

text \<open>
  The times and the loss of packets in \<open>RTP::toDTSC\<close>: the state that follows the wrap-arounds of the time is described by
  the times without wrap-around (\<open>follows\<close>).
\<close>

section \<open>Times\<close>

fun all_ticks :: "u64 \<Rightarrow> u32 list \<Rightarrow> depay \<Rightarrow> u64 list" where
  "all_ticks now [] d = []"
| "all_ticks now (t # ts) d = (let (x, d) = follow_time now t d in x # all_ticks now ts d)"

text \<open>Times of packets, without wrap-around, that are close enough: \<open>m\<close> is the latest so far.\<close>

fun close_times :: "nat \<Rightarrow> nat \<Rightarrow> nat \<Rightarrow> nat list \<Rightarrow> bool" where
  "close_times T0 m T [] = True"
| "close_times T0 m T (T' # Ts) = (T0 \<le> T' \<and> T' < T + 2 ^ 30 \<and> m < T' + 2 ^ 30 \<and> T' < 2 ^ 63 \<and> close_times T0 (max m T') T' Ts)"

text \<open>\<open>B\<close> is the true time of tick zero of the current round.\<close>

definition follows :: "nat \<Rightarrow> nat \<Rightarrow> nat \<Rightarrow> depay \<Rightarrow> bool" where
  "follows T0 m T d \<longleftrightarrow>
     (let w = unat (wrapArounds d); B = T0 - T0 mod 2 ^ 32 + 2 ^ 32 * w
      in firstTime d = of_nat (T0 mod 2 ^ 32) + 1 \<and> prevTime d = of_nat T \<and> T \<le> m \<and>
         (if recentWrap d then 0 < w \<and> B \<le> T + 2 ^ 30 \<and> T \<le> B + 2 ^ 30 \<and> B \<le> m
          else B \<le> T \<and> T < B + 2 ^ 32 \<and> (w = 0 \<or> B + 2 ^ 30 \<le> m)))"

lemma u32_of_nat: "unat (of_nat T :: u32) = T mod 2 ^ 32" "(ucast (of_nat T :: u32) :: u64) = of_nat (T mod 2 ^ 32)"
  by (simp_all add: unat_of_nat word_unat_eq_iff unsigned_ucast_eq take_bit_eq_mod)

lemma u32_less:
  "(of_nat a :: u32) < of_nat b \<longleftrightarrow> a mod 4294967296 < b mod 4294967296"
  "(of_nat a :: u32) < 0x40000000 \<longleftrightarrow> a mod 4294967296 < 1073741824"
  "0x40000000 < (of_nat a :: u32) \<longleftrightarrow> 1073741824 < a mod 4294967296"
  "(of_nat a :: u32) < 0x80000000 \<longleftrightarrow> a mod 4294967296 < 2147483648"
  "0x80000000 < (of_nat a :: u32) \<longleftrightarrow> 2147483648 < a mod 4294967296"
  by (simp_all add: word_less_nat_alt unat_of_nat)

lemma mod_round:
  assumes "B mod 2 ^ 32 = 0"
  shows "B \<le> T \<Longrightarrow> T < B + 2 ^ 32 \<Longrightarrow> T mod 2 ^ 32 = T - (B :: nat)"
    "T < B \<Longrightarrow> B \<le> T + 2 ^ 32 \<Longrightarrow> T mod 2 ^ 32 = T + 2 ^ 32 - B"
proof -
  obtain q where q: "B = 2 ^ 32 * q" using assms by auto
  show "B \<le> T \<Longrightarrow> T < B + 2 ^ 32 \<Longrightarrow> T mod 2 ^ 32 = T - B"
  proof -
    assume "B \<le> T" "T < B + 2 ^ 32"
    then obtain t where "T = B + t" "t < 2 ^ 32" by (metis add_less_cancel_left le_iff_add)
    then show ?thesis using q by simp
  qed
  show "T < B \<Longrightarrow> B \<le> T + 2 ^ 32 \<Longrightarrow> T mod 2 ^ 32 = T + 2 ^ 32 - B"
  proof -
    assume a: "T < B" "B \<le> T + 2 ^ 32"
    then obtain r where r: "q = Suc r" using q by (cases q) auto
    then have "T = 2 ^ 32 * r + (T + 2 ^ 32 - B)" "T + 2 ^ 32 - B < 2 ^ 32" using a q by auto
    then show ?thesis by (metis mod_less mod_mult_self4)
  qed
qed

lemma ticks_value:
  assumes "T' = K + 2 ^ 32 * w + t'" "T0 = K + t0" "T0 \<le> T'"
  shows "of_nat t' - (of_nat t0 + 1) + 1 + 0x100000000 * of_nat w = (of_nat (T' - T0) :: u64)"
proof -
  have "(of_nat (T' - T0) :: u64) = of_nat T' - of_nat T0" using assms(3) by (rule of_nat_diff)
  then show ?thesis by (simp add: assms(1,2))
qed

lemma follow_step:
  assumes f: "follows T0 m T d" and c: "T0 \<le> T'" "T' < T + 2 ^ 30" "m < T' + 2 ^ 30" "T' < 2 ^ 63" and n: "T0 \<le> T"
  shows "\<exists>d'. follow_time now (of_nat T') d = (of_nat (T' - T0), d') \<and> follows T0 (max m T') T' d'"
proof -
  define w where "w = unat (wrapArounds d)"
  define t0 where "t0 = T0 mod 2 ^ 32"
  define K where "K = T0 - t0"
  define B where "B = K + 2 ^ 32 * w"
  have K: "K mod 2 ^ 32 = 0" "T0 = K + t0" "t0 < 2 ^ 32" unfolding K_def t0_def by (simp_all add: minus_mod_eq_mult_div)
  have B: "B mod 2 ^ 32 = 0" using K(1) by (simp add: B_def)
  have B': "(B + 2 ^ 32) mod 2 ^ 32 = 0" using B by simp
  have d: "firstTime d = of_nat t0 + 1" "prevTime d = of_nat T" "T \<le> m"
    "recentWrap d \<Longrightarrow> 0 < w \<and> B \<le> T + 2 ^ 30 \<and> T \<le> B + 2 ^ 30 \<and> B \<le> m"
    "\<not> recentWrap d \<Longrightarrow> B \<le> T \<and> T < B + 2 ^ 32 \<and> (w = 0 \<or> B + 2 ^ 30 \<le> m)"
    using f by (simp_all add: follows_def Let_def w_def B_def K_def t0_def split: if_splits)
  have first: "firstTime d \<noteq> 0"
  proof -
    have "of_nat t0 + 1 = (of_nat (t0 + 1) :: u64)" by simp
    then have "unat (firstTime d) = t0 + 1" using K(3) by (simp only: d(1) unat_of_nat) simp
    then show ?thesis by auto
  qed
  have ft: "of_nat t + 1 < firstTime d \<longleftrightarrow> t < t0" if "t < 2 ^ 32" for t
  proof -
    have "of_nat t + 1 = (of_nat (t + 1) :: u64)" "firstTime d = of_nat (t0 + 1)" by (simp_all add: d(1))
    then show ?thesis using that K(3) by (simp only: word_less_nat_alt unat_of_nat) simp
  qed
  have w: "(ucast (wrapArounds d) :: u64) = of_nat w" "wrapArounds d = 0 \<longleftrightarrow> w = 0" by (simp_all add: w_def unat_eq_0)
  have val: "of_nat t' - firstTime d + 1 + 0x100000000 * of_nat v = (of_nat (T' - T0) :: u64)" if "T' = K + 2 ^ 32 * v + t'" for t' v
    using ticks_value [OF that K(2) c(1)] by (simp only: d(1))
  have fol: "follows T0 M X e \<longleftrightarrow> firstTime e = of_nat t0 + 1 \<and> prevTime e = of_nat X \<and> X \<le> M \<and>
      (if recentWrap e then 0 < unat (wrapArounds e) \<and> K + 2 ^ 32 * unat (wrapArounds e) \<le> X + 2 ^ 30 \<and>
         X \<le> K + 2 ^ 32 * unat (wrapArounds e) + 2 ^ 30 \<and> K + 2 ^ 32 * unat (wrapArounds e) \<le> M
       else K + 2 ^ 32 * unat (wrapArounds e) \<le> X \<and> X < K + 2 ^ 32 * unat (wrapArounds e) + 2 ^ 32 \<and>
         (unat (wrapArounds e) = 0 \<or> K + 2 ^ 32 * unat (wrapArounds e) + 2 ^ 30 \<le> M))" for M X e
    by (simp only: follows_def Let_def K_def t0_def)
  note eval = wrap_time_def u32_less u32_of_nat(2) [simplified] d(2)
  have follow: "follow_time now (of_nat T') d =
      (p - firstTime d + 1 + 0x100000000 * of_nat (unat (wrapArounds e)), e\<lparr>prevTime := of_nat T'\<rparr>)"
    if "wrap_time (of_nat T') d = (p, e)" "\<not> (wrapArounds e = 0 \<and> p + 1 < firstTime d)" "firstTime e = firstTime d" for p e
    using that first by (auto simp: follow_time_def)
  show ?thesis
  proof (cases "recentWrap d")
    case False
    then have T: "B \<le> T" "T < B + 2 ^ 32" "w = 0 \<or> B + 2 ^ 30 \<le> m" using d(5) by auto
    have BT: "B \<le> T'" using T(3) c(1,3) K(2) by (auto simp: B_def)
    have t: "T mod 2 ^ 32 = T - B" by (rule mod_round(1) [OF B T(1,2)])
    show ?thesis
    proof (cases "T' < B + 2 ^ 32")
      case True
      then have t': "T' mod 2 ^ 32 = T' - B" by (rule mod_round(1) [OF B BT])
      have no: "(T' - B < T - B \<and> T' - B < 1073741824 \<and> 2147483648 < T - B) = False" using c(3) d(3) by auto
      have adj: "\<not> (w = 0 \<and> of_nat (T' - B) + 1 < firstTime d)"
        using ft [of "T' - B"] True c(1) K(2) by (auto simp: B_def)
      have "follow_time now (of_nat T') d = (of_nat (T' - B) - firstTime d + 1 + 0x100000000 * of_nat w, d\<lparr>prevTime := of_nat T'\<rparr>)"
      proof -
        have "wrap_time (of_nat T') d = (of_nat (T' - B), d)"
          by (simp only: eval t [simplified] t' [simplified] False no if_False)
        from follow [OF this] show ?thesis using adj by (simp only: w(2) w_def [symmetric] simp_thms)
      qed
      moreover have tt: "T' = K + 2 ^ 32 * w + (T' - B)" using BT by (simp add: B_def)
      moreover have "follows T0 (max m T') T' (d\<lparr>prevTime := of_nat T'\<rparr>)"
        using False BT True T(3) d(1) by (auto simp: fol B_def w_def [symmetric])
      ultimately show ?thesis unfolding val [OF tt] by blast
    next
      case wrap: False
      then have t': "T' mod 2 ^ 32 = T' - (B + 2 ^ 32)" using wrap c(2) T(2) by (intro mod_round(1) [OF B']) simp_all
      have w1: "unat (wrapArounds d + 1) = w + 1"
      proof -
        have "2 ^ 32 * w < 2 ^ 63" using wrap c(4) by (simp add: B_def)
        then have "w + 1 < 2 ^ 32" by simp
        then show ?thesis by (simp add: w_def unat_word_ariths)
      qed
      then have w2: "wrapArounds d + 1 \<noteq> 0" by (metis add_is_0 one_neq_zero unat_0)
      have yes: "(T' - (B + 4294967296) < T - B \<and> T' - (B + 4294967296) < 1073741824 \<and> 2147483648 < T - B) = True"
        using wrap c(2) T by auto
      let ?d = "d\<lparr>wrapArounds := wrapArounds d + 1, recentWrap := True, prevTime := of_nat T'\<rparr>"
      have "follow_time now (of_nat T') d = (of_nat (T' - (B + 2 ^ 32)) - firstTime d + 1 + 0x100000000 * of_nat (w + 1), ?d)"
      proof -
        let ?e = "d\<lparr>wrapArounds := wrapArounds d + 1, recentWrap := True\<rparr>"
        have "wrap_time (of_nat T') d = (of_nat (T' - (B + 2 ^ 32)), ?e)"
          by (simp only: eval t [simplified] t' [simplified] False yes if_False if_True) simp
        from follow [OF this] show ?thesis using w1 w2 by simp
      qed
      moreover have tt: "T' = K + 2 ^ 32 * (w + 1) + (T' - (B + 2 ^ 32))" using wrap by (simp add: B_def)
      moreover have "follows T0 (max m T') T' ?d"
        using wrap c(2) T d(1) w1 by (auto simp: fol B_def)
      ultimately show ?thesis unfolding val [OF tt] by blast
    qed
  next
    case True
    then have T: "0 < w" "B \<le> T + 2 ^ 30" "T \<le> B + 2 ^ 30" "B \<le> m" using d(4) by auto
    show ?thesis
    proof (cases "B \<le> T'")
      case True
      then have t': "T' mod 2 ^ 32 = T' - B" using True c(2) T(3) by (intro mod_round(1) [OF B]) simp_all
      have lt: "T' - B < 2147483648" using c(2) T(3) by auto
      let ?d = "if T' - B < 2147483648 \<and> 1073741824 < T' - B then d\<lparr>recentWrap := False, prevTime := of_nat T'\<rparr> else d\<lparr>prevTime := of_nat T'\<rparr>"
      have "follow_time now (of_nat T') d = (of_nat (T' - B) - firstTime d + 1 + 0x100000000 * of_nat w, ?d)"
      proof -
        let ?e = "if T' - B < 2147483648 \<and> 1073741824 < T' - B then d\<lparr>recentWrap := False\<rparr> else d"
        have "(2147483648 < T' - B) = False" using lt by simp
        then have "wrap_time (of_nat T') d = (of_nat (T' - B), ?e)"
          by (simp only: eval t' [simplified] \<open>recentWrap d\<close> if_True if_False)
        moreover have "unat (wrapArounds ?e) = w" "firstTime ?e = firstTime d" "wrapArounds ?e \<noteq> 0"
          using T(1) w(2) by (simp_all add: w_def)
        ultimately have "follow_time now (of_nat T') d = (of_nat (T' - B) - firstTime d + 1 + 0x100000000 * of_nat w, ?e\<lparr>prevTime := of_nat T'\<rparr>)"
          using follow [of "of_nat (T' - B)" ?e] by (simp only: simp_thms)
        then show ?thesis by (simp split: if_split)
      qed
      moreover have tt: "T' = K + 2 ^ 32 * w + (T' - B)" using True by (simp add: B_def)
      moreover have "follows T0 (max m T') T' ?d"
        using lt True T d(1) \<open>recentWrap d\<close> by (auto simp: fol B_def w_def [symmetric])
      ultimately show ?thesis unfolding val [OF tt] by blast
    next
      case False
      then have t': "T' mod 2 ^ 32 = T' + 2 ^ 32 - B" using c(3) T(4) by (intro mod_round(2) [OF B]) simp_all
      have gt: "2147483648 < T' + 4294967296 - B" using c(3) T(4) by auto
      have "follow_time now (of_nat T') d =
          (of_nat (T' + 2 ^ 32 - B) - 0x100000000 - firstTime d + 1 + 0x100000000 * of_nat w, d\<lparr>prevTime := of_nat T'\<rparr>)"
      proof -
        have "(2147483648 < T' + 4294967296 - B) = True" "(T' + 4294967296 - B < 2147483648) = False" using gt by simp_all
        then have "wrap_time (of_nat T') d = (of_nat (T' + 2 ^ 32 - B) - 0x100000000, d)"
          by (simp only: eval t' [simplified] \<open>recentWrap d\<close> if_True if_False simp_thms) simp
        from follow [OF this] show ?thesis using T(1) by (simp only: w(2) w_def [symmetric]) simp
      qed
      moreover have "of_nat (T' + 2 ^ 32 - B) - 0x100000000 - firstTime d + 1 + 0x100000000 * of_nat w = (of_nat (T' - T0) :: u64)"
      proof -
        have "(of_nat (T' + 2 ^ 32 - B) :: u64) + of_nat B = of_nat (T' + 2 ^ 32)"
          using c(3) T(4) by (subst of_nat_add [symmetric]) simp
        then have "(of_nat (T' + 2 ^ 32 - B) :: u64) = of_nat T' + 2 ^ 32 - of_nat B" by (simp add: algebra_simps)
        moreover have "(of_nat (T' - T0) :: u64) = of_nat T' - of_nat T0" using c(1) by (rule of_nat_diff)
        ultimately show ?thesis by (simp add: d(1) K(2) B_def)
      qed
      moreover have "follows T0 (max m T') T' (d\<lparr>prevTime := of_nat T'\<rparr>)"
        using False c(3) T d(1) \<open>recentWrap d\<close> by (auto simp: fol B_def w_def [symmetric])
      ultimately show ?thesis by simp
    qed
  qed
qed

lemma ticks_list:
  "follows T0 m T d \<Longrightarrow> T0 \<le> T \<Longrightarrow> close_times T0 m T Ts \<Longrightarrow>
    all_ticks now (map of_nat Ts) d = map (\<lambda>T. of_nat (T - T0)) Ts"
proof (induction Ts arbitrary: m T d)
  case (Cons T' Ts)
  obtain d' where "follow_time now (of_nat T') d = (of_nat (T' - T0), d')" "follows T0 (max m T') T' d'"
    using follow_step [OF Cons.prems(1), of T' now] Cons.prems(2,3) by auto
  then show ?case using Cons.IH [of "max m T'" T' d'] Cons.prems(3) by simp
qed simp

text \<open>C23: the times of the packets of a track in ticks since the first one are right over any number of wrap-arounds
  of the 32 bits of the RTP time, for packets that are less than 2 to the power of 30 ticks ahead of the last one or
  behind the latest one, and none before the first.\<close>

theorem ticks_unwrap:
  assumes "close_times T0 T0 T0 Ts" and "T0 < 2 ^ 63" and "firstTime d = 0" and "wrapArounds d = 0" and "\<not> recentWrap d"
  shows "all_ticks now (map of_nat (T0 # Ts)) d = map (\<lambda>T. of_nat (T - T0)) (T0 # Ts)"
proof -
  let ?t = "of_nat (T0 mod 2 ^ 32) :: u64"
  let ?d = "d\<lparr>milliSync := now, firstTime := ?t + 1, prevTime := of_nat T0\<rparr>"
  have "follow_time now (of_nat T0) d = (0, ?d)"
    using assms(3-5) by (simp add: follow_time_def u32_of_nat(2) [simplified])
  moreover have "follows T0 T0 T0 ?d"
    using assms(4,5) mod_less_divisor [of "2 ^ 32" T0] mod_less_eq_dividend [of T0 "2 ^ 32"] by (simp add: follows_def Let_def)
  then have "all_ticks now (map of_nat Ts) ?d = map (\<lambda>T. of_nat (T - T0)) Ts" using assms(1) by (intro ticks_list) simp_all
  ultimately show ?thesis by simp
qed

theorem ticks_unwrap_witness:
  "all_ticks 7 (map of_nat (4294967290 # [4294967300, 4294967292])) (toDTSC 0 0) =
    map (\<lambda>T. of_nat (T - 4294967290)) (4294967290 # [4294967300, 4294967292])"
  by (rule ticks_unwrap) (simp_all add: toDTSC_def)

section \<open>Missed packets\<close>

text \<open>A packet with the next sequence number does not count as missed, except that packet 0 after packet 65535
  always does, so that a frame in progress is thrown away.\<close>

theorem missed_at_wrap: "missed_packet (ucast (n :: u16)) (n + 1) \<longleftrightarrow> n = 0xFFFF"
proof -
  have u: "(ucast w :: u32) = of_nat (unat w)" for w :: u16 by simp
  have eq: "(ucast (n + 1) :: u32) = ucast n + 1 \<longleftrightarrow> n \<noteq> 0xFFFF"
  proof (cases "n = 0xFFFF")
    case False
    then have "unat n + 1 < 2 ^ 16"
      using unsigned_less [of n, where ?'a = nat] by (simp add: word_unat_eq_iff)
    then have "unat (n + 1) = unat n + 1" by (simp add: unat_word_ariths)
    then have "(of_nat (unat (n + 1)) :: u32) = of_nat (unat n) + 1" by simp
    then show ?thesis using False by simp
  qed simp
  have "missed_packet (ucast n) (n + 1) \<longleftrightarrow> ucast (n + 1) \<noteq> (ucast n + 1 :: u32)"
    by (auto simp: missed_packet_def algebra_simps)
  then show ?thesis using eq by simp
qed

end
