(* ===== verification/RtpVp8.thy ===== *)
theory RtpVp8
  imports RtpDepay
begin

text \<open>
  VP8 from one end to the other (\<open>lib/rtp.cpp\<close>): frames that \<open>sendVP8\<close> splits into packets, put together again by
  \<open>handleVP8\<close>. While a frame is split, the header of the packet changes only in its second to fourth byte (\<open>like\<close>).
\<close>

section \<open>Packets with the same header\<close>

definition like :: "nat \<Rightarrow> packet \<Rightarrow> packet \<Rightarrow> bool" where
  "like h p q \<longleftrightarrow> length (pdata q) = length (pdata p) \<and> (\<forall>i < h. i \<noteq> 1 \<and> i \<noteq> 2 \<and> i \<noteq> 3 \<longrightarrow> pdata q ! i = pdata p ! i)"

lemma like_refl: "like h p p"
  by (simp add: like_def)

lemma like_trans: "like h p q \<Longrightarrow> like h q r \<Longrightarrow> like h p r"
  by (simp add: like_def)

lemma like_length: "like h p q \<Longrightarrow> length (pdata q) = length (pdata p)"
  by (simp add: like_def)

lemma getHsize_le: "getHsize p = Some h \<Longrightarrow> 12 \<le> h"
  by (auto simp: getHsize_def Let_def split: bind_splits if_splits)

lemma like_rd: "like h p q \<Longrightarrow> i < h \<Longrightarrow> i \<noteq> 1 \<Longrightarrow> i \<noteq> 2 \<Longrightarrow> i \<noteq> 3 \<Longrightarrow> rd (pdata q) i = rd (pdata p) i"
  by (simp add: like_def rd_def)

lemma like_Hsize:
  assumes l: "like h p q" and h: "getHsize p = Some h"
  shows "getHsize q = Some h"
proof -
  have "rd (pdata q) 0 = rd (pdata p) 0" using like_rd [OF l, of 0] getHsize_le [OF h] by simp
  then have c: "getContribCount q = getContribCount p" "getExtension q = getExtension p"
    by (simp_all add: getContribCount_def getExtension_def)
  obtain cc ext where ce: "getContribCount p = Some cc" "getExtension p = Some ext"
    using h by (auto simp: getHsize_def split: bind_splits)
  show ?thesis
  proof (cases "ext = 0")
    case True
    then show ?thesis using h c ce by (simp add: getHsize_def)
  next
    case False
    let ?r = "12 + 4 * cc"
    obtain n where n: "btohs (pdata p) (?r + 2) = Some n" "h = ?r + (1 + unat n) * 4"
      using h ce False by (auto simp: getHsize_def Let_def split: bind_splits)
    have "rd (pdata q) (?r + 2) = rd (pdata p) (?r + 2)" "rd (pdata q) (?r + 2 + 1) = rd (pdata p) (?r + 2 + 1)"
      using n(2) by (auto intro!: like_rd [OF l])
    then have "btohs (pdata q) (?r + 2) = Some n" using n(1) by (simp add: btohs_def)
    then show ?thesis using n(2) c ce False by (simp add: getHsize_def Let_def)
  qed
qed

lemma upd_like: "length (pdata p) > i \<Longrightarrow> i = 1 \<or> h \<le> i \<Longrightarrow> \<exists>q. upd i f p = Some q \<and> like h p q \<and> pdata q = (pdata p)[i := f (pdata p ! i)]"
proof -
  assume i: "length (pdata p) > i" "i = 1 \<or> h \<le> i"
  then have "wrn (pdata p) i [f (pdata p ! i)] = Some ((pdata p)[i := f (pdata p ! i)])"
    by (simp add: wrn_def upd_conv_take_nth_drop)
  then show ?thesis using i by (auto simp: upd_def rd_def like_def)
qed

lemma put_like:
  assumes "h \<le> i" "i + length bs \<le> length (pdata p)"
  shows "\<exists>q. put i bs p = Some q \<and> like h p q \<and> pdata q = take i (pdata p) @ bs @ drop (i + length bs) (pdata p)"
  using assms by (auto simp: put_def wrn_def like_def nth_append)

lemma deliver_like:
  assumes "n \<le> length (pdata p)" "4 \<le> length (pdata p)"
  shows "\<exists>q. deliver n (p, out) = Some (q, out @ [take n (pdata p)]) \<and> like h p q \<and> drop 4 (pdata q) = drop 4 (pdata p)"
proof -
  let ?p = "p\<lparr>sentPackets := sentPackets p + 1, sentBytes := sentBytes p + of_nat n\<rparr>"
  obtain s where s: "getSequence p = Some s" using assms(2) by (auto simp: getSequence_def btohs_eq rdn_def)
  obtain d where d: "wrn (pdata p) 2 (be_bytes 2 (s + 1)) = Some d" using assms(2) by (simp add: wrn_def)
  have "like h p (?p\<lparr>pdata := d\<rparr>)" using d by (auto simp: like_def wrn_def nth_append split: if_splits)
  moreover have "drop 4 d = drop 4 (pdata p)" using d assms(2) by (auto simp: wrn_def split: if_splits)
  moreover have "deliver n (p, out) = Some (?p\<lparr>pdata := d\<rparr>, out @ [take n (pdata p)])"
    using assms s d by (simp add: deliver_def rdn_def increaseSequence_def setSequence_def getSequence_def htobs_eq)
  ultimately show ?thesis by auto
qed

section \<open>VP8\<close>

function vp8_payloads :: "bool \<Rightarrow> bool \<Rightarrow> bytes \<Rightarrow> bytes list" where
  "vp8_payloads key start f =
     (if f = [] then [] else (vp8_descriptor start key # take 1200 f) # vp8_payloads key False (drop 1200 f))"
  by pat_completeness auto
termination vp8_payloads
  by (relation "measure (\<lambda>(k, s, f). length f)") auto

declare vp8_payloads.simps [simp del]

lemma send_chunk_ok:
  assumes h: "getHsize p = Some h" and l: "h + 1 + length d \<le> length (pdata p)"
  shows "\<exists>q x. send_chunk h b fin d (p, out) = Some (q, out @ [x]) \<and> like h p q \<and> drop h x = b # d"
proof -
  have 12: "12 \<le> h" by (rule getHsize_le [OF h])
  obtain p1 where 1: "upd 1 (if fin then mark else unmark) p = Some p1" "like h p p1"
    using upd_like [of 1 p h "if fin then mark else unmark"] l 12 by auto
  obtain p2 where 2: "put h [b] p1 = Some p2" "like h p1 p2" "pdata p2 = take h (pdata p1) @ [b] @ drop (h + 1) (pdata p1)"
    using put_like [of h h "[b]" p1] l like_length [OF 1(2)] by auto
  obtain p3 where 3: "put (h + 1) d p2 = Some p3" "like h p2 p3" "pdata p3 = take (h + 1) (pdata p2) @ d @ drop (h + 1 + length d) (pdata p2)"
    using put_like [of h "h + 1" d p2] l like_length [OF 1(2)] like_length [OF 2(2)] by auto
  have len: "length (pdata p3) = length (pdata p)" using 1(2) 2(2) 3(2) by (simp add: like_def)
  obtain p4 where 4: "deliver (h + 1 + length d) (p3, out) = Some (p4, out @ [take (h + 1 + length d) (pdata p3)])" "like h p3 p4"
    using deliver_like [of "h + 1 + length d" p3 out h] l 12 len by auto
  have "drop h (take (h + 1 + length d) (pdata p3)) = b # d"
    using l like_length [OF 1(2)] by (simp add: 3(3) 2(3))
  moreover have "like h p p4" using 1(2) 2(2) 3(2) 4(2) by (simp add: like_def)
  moreover have "send_chunk h b fin d (p, out) = Some (p4, out @ [take (h + 1 + length d) (pdata p3)])"
    by (simp only: send_chunk_def Let_def split 1(1) 2(1) 3(1) 4(1) Option.bind.simps)
  ultimately show ?thesis by blast
qed

lemma vp8_loop_ok:
  assumes h: "getHsize p = Some h" and l: "h + 1201 \<le> length (pdata p)"
  shows "\<exists>q ds. vp8_loop h key st pl (length pl) (p, out) = Some (q, out @ ds) \<and> like h p q \<and>
    map (drop h) ds = vp8_payloads key st pl"
  using assms
proof (induction key st pl arbitrary: p out rule: vp8_payloads.induct)
  case (1 key st f)
  show ?case
  proof (cases "f = []")
    case True
    then show ?thesis by (subst vp8_loop.simps, subst vp8_payloads.simps) (auto intro: like_refl)
  next
    case False
    let ?n = "min 1200 (length f)"
    have d: "rdn f 0 ?n = Some (take 1200 f)" by (simp add: rdn_def min_def)
    obtain q x where 2: "send_chunk h (vp8_descriptor st key) (length f - ?n = 0) (take 1200 f) (p, out) = Some (q, out @ [x])"
      "like h p q" "drop h x = vp8_descriptor st key # take 1200 f"
    proof -
      have "h + 1 + length (take 1200 f) \<le> length (pdata p)" using 1(3) by simp
      from send_chunk_ok [OF 1(2) this] that show ?thesis by blast
    qed
    obtain r ds where 3: "vp8_loop h key False (drop 1200 f) (length (drop 1200 f)) (q, out @ [x]) = Some (r, (out @ [x]) @ ds)"
      "like h q r" "map (drop h) ds = vp8_payloads key False (drop 1200 f)"
      using 1(1) [OF False like_Hsize [OF 2(2) 1(2)]] 1(3) like_length [OF 2(2)] by fastforce
    have "drop ?n f = drop 1200 f" "length f - ?n = length (drop 1200 f)" by (auto simp: min_def)
    then have "vp8_loop h key st f (length f) (p, out) = Some (r, out @ x # ds)"
      using False 2(1) 3(1) d by (subst vp8_loop.simps) (simp add: Let_def)
    then show ?thesis using 2 3 False like_trans by (subst vp8_payloads.simps) auto
  qed
qed


section \<open>Buffers that grow\<close>

definition grows :: "allocator \<Rightarrow> bool" where
  "grows ra \<longleftrightarrow> realloc_ok ra \<and> (\<forall>m l. ra m l \<noteq> None)"

definition buffered :: "rptr \<Rightarrow> bytes \<Rightarrow> bool" where
  "buffered r b \<longleftrightarrow> rp_wf r \<and> \<not> ro r \<and> rp_abs r = b"

lemma buffered_size: "buffered r b \<Longrightarrow> currSize r = length b"
  by (auto simp: buffered_def rp_wf_def rp_abs_def)

lemma buffered_rdn: "buffered r b \<Longrightarrow> rdn (rp_mem r) 0 (currSize r) = Some b"
  by (auto simp: buffered_def rp_wf_def rp_abs_def rdn_def)

lemma allocate_grows:
  assumes "grows ra" "buffered r b"
  shows "\<exists>r'. rp_allocate ra r n = (True, r') \<and> buffered r' b \<and> n mod 2 ^ 32 \<le> length (rp_mem r')"
proof -
  obtain m where m: "ra (rp_mem r) (n mod 2 ^ 32) = Some m" using assms(1) unfolding grows_def by (cases "ra (rp_mem r) (n mod 2 ^ 32)") blast+
  let ?r = "if length (rp_mem r) < n mod 2 ^ 32 then r\<lparr>rp_mem := m\<rparr> else r"
  have r: "rp_allocate ra r n = (True, ?r)" using m assms(2) by (simp add: rp_allocate_def buffered_def)
  have ok: "realloc_ok ra" using assms(1) by (simp add: grows_def)
  have "n mod 2 ^ 32 \<le> length m" if "length (rp_mem r) < n mod 2 ^ 32" using ok m that by (auto simp: realloc_ok_def)
  moreover have "buffered ?r b"
    using rp_allocate_abs [OF ok r] rp_allocate_cases [OF ok r] assms(2) by (auto simp: buffered_def split: if_splits)
  ultimately show ?thesis using r by auto
qed

lemma append_grows:
  assumes "grows ra" "buffered r b" "length b + length d < 2 ^ 32"
  shows "\<exists>r'. rp_append ra r d = Some (True, r') \<and> buffered r' (b @ d)"
proof -
  obtain r1 where r1: "rp_allocate ra r (length d + currSize r) = (True, r1)" "buffered r1 b" "length d + length b \<le> length (rp_mem r1)"
    using allocate_grows [OF assms(1,2), of "length d + currSize r"] assms(3) buffered_size [OF assms(2)] by auto
  then show ?thesis using buffered_size [OF r1(2)]
    by (auto simp: rp_append_def wrn_def buffered_def rp_wf_def rp_abs_def)
qed

lemma assign_grows:
  assumes "grows ra" "buffered r b" "length d < 2 ^ 32"
  shows "\<exists>r'. rp_assign ra r d = Some (True, r') \<and> buffered r' d"
proof -
  obtain r1 where r1: "rp_allocate ra r (length d) = (True, r1)" "buffered r1 b" "length d \<le> length (rp_mem r1)"
    using allocate_grows [OF assms(1,2), of "length d"] assms(3) by auto
  then show ?thesis by (auto simp: rp_assign_def wrn_def buffered_def rp_wf_def rp_abs_def)
qed

fun vp8_all :: "allocator \<Rightarrow> u64 \<Rightarrow> bytes list \<Rightarrow> depay \<Rightarrow> step" where
  "vp8_all ra ms [] d = Some (d, [])"
| "vp8_all ra ms (p # ps) d = do {
     (d, a) \<leftarrow> handleVP8 ra ms p (length p) False False d;
     (d, b) \<leftarrow> vp8_all ra ms ps d;
     Some (d, a @ b) }"

definition vp8_holds :: "depay \<Rightarrow> bytes \<Rightarrow> bool \<Rightarrow> bool" where
  "vp8_holds d b key \<longleftrightarrow> buffered (vp8FrameBuffer d) b \<and> vp8BufferHasKeyframe d = key"

lemma descriptor:
  "vp8_descriptor st key AND 0x80 = 0" "vp8_descriptor st key AND 0x10 \<noteq> 0 \<longleftrightarrow> st" "vp8_descriptor st key AND 0x07 = 0"
  by (cases st; cases key; simp add: vp8_descriptor_def)+

lemma vp8_first:
  assumes ra: "grows ra" and d: "vp8_holds d b k" and c: "2 \<le> length c" "length c < 2 ^ 32"
  shows "\<exists>d'. handleVP8 ra ms (vp8_descriptor True key # c) (Suc (length c)) False False d =
    Some (d', if b = [] then [] else [(ms, b, k)]) \<and> vp8_holds d' c (hd c AND 1 = 0 \<or> b = [] \<and> k)"
proof -
  note h = d [unfolded vp8_holds_def]
  define e where "e = (if b = [] then d else d\<lparr>packCount := packCount d + 1, vp8FrameBuffer := (vp8FrameBuffer d)\<lparr>currSize := 0\<rparr>, vp8BufferHasKeyframe := False\<rparr>)"
  have b: "vp8_begin ms True False d = Some (e, if b = [] then [] else [(ms, b, k)])"
    using h buffered_size [of "vp8FrameBuffer d" b] buffered_rdn [of "vp8FrameBuffer d" b] by (simp add: vp8_begin_def e_def)
  have e: "buffered (vp8FrameBuffer e) []" "currSize (vp8FrameBuffer e) = 0" "vp8BufferHasKeyframe e = (b = [] \<and> k)"
    using h by (auto simp: e_def buffered_def rp_wf_def rp_abs_def)
  obtain r where r: "rp_assign ra (vp8FrameBuffer e) c = Some (True, r)" "buffered r c" using assign_grows [OF ra e(1) c(2)] by blast
  have "vp8_header (vp8_descriptor True key # c) = Some 1" by (simp add: vp8_header_def descriptor)
  moreover have "rdn (vp8_descriptor True key # c) 1 (length c) = Some c" by (simp add: rdn_def)
  moreover have "rd (vp8_descriptor True key # c) 1 = Some (hd c)" using c(1) by (cases c) (simp_all add: rd_def)
  ultimately show ?thesis using b e r c(1) descriptor [of True key]
    by (auto simp: handleVP8_def Let_def vp8_holds_def)
qed

lemma vp8_next:
  assumes ra: "grows ra" and d: "vp8_holds d b k" "b \<noteq> []" and c: "2 \<le> length c" "length b + length c < 2 ^ 32"
  shows "\<exists>d'. handleVP8 ra ms (vp8_descriptor False key # c) (Suc (length c)) False False d = Some (d', []) \<and> vp8_holds d' (b @ c) k"
proof -
  note h = d(1) [unfolded vp8_holds_def]
  have n: "currSize (vp8FrameBuffer d) \<noteq> 0" using h d(2) buffered_size by auto
  have b: "vp8_begin ms False False d = Some (d, [])" using n by (simp add: vp8_begin_def)
  obtain r where r: "rp_append ra (vp8FrameBuffer d) c = Some (True, r)" "buffered r (b @ c)" using append_grows [OF ra _ c(2)] h by blast
  have "vp8_header (vp8_descriptor False key # c) = Some 1" by (simp add: vp8_header_def descriptor)
  moreover have "rdn (vp8_descriptor False key # c) 1 (length c) = Some c" by (simp add: rdn_def)
  moreover have "rd (vp8_descriptor False key # c) 1 = Some (hd c)" using c(1) by (cases c) (simp_all add: rd_def)
  ultimately show ?thesis using b n r c(1) h descriptor [of False key]
    by (auto simp: handleVP8_def Let_def vp8_holds_def)
qed

section \<open>Frames\<close>

text \<open>The last byte of a frame is lost when it is alone in its packet.\<close>

definition kept :: "bytes \<Rightarrow> bytes" where
  "kept f = (if length f mod 1200 = 1 then butlast f else f)"

lemma kept_split:
  assumes "1200 < length f"
  shows "kept f = take 1200 f @ kept (drop 1200 f)"
proof -
  have "length (drop 1200 f) mod 1200 = length f mod 1200" using assms by (simp add: le_mod_geq)
  moreover have "butlast f = take 1200 f @ butlast (drop 1200 f)"
    using assms butlast_append [of "take 1200 f" "drop 1200 f"] by simp
  ultimately show ?thesis by (simp add: kept_def)
qed

lemma kept_short: "length f \<le> 1200 \<Longrightarrow> length f \<noteq> 1 \<Longrightarrow> kept f = f"
  by (cases "length f = 1200") (auto simp: kept_def)

lemma kept_not_Nil: "2 \<le> length f \<Longrightarrow> kept f \<noteq> []"
  by (cases f rule: rev_cases) (auto simp: kept_def)

lemma handle_short: "handleVP8 ra ms [x, y] 2 False False d = Some (d, [])"
  by (simp add: handleVP8_def)

lemma vp8_rest:
  assumes "grows ra" "vp8_holds d b k" "b \<noteq> []" "length b + length f < 2 ^ 32"
  shows "\<exists>d'. vp8_all ra ms (vp8_payloads key False f) d = Some (d', []) \<and> vp8_holds d' (b @ kept f) k"
  using assms
proof (induction "length f" arbitrary: f b d rule: less_induct)
  case less
  consider "f = []" | "length f = 1" | "2 \<le> length f" by (cases f; cases "tl f") auto
  then show ?case
  proof cases
    case 1
    then show ?thesis using less.prems by (subst vp8_payloads.simps) (simp add: kept_def)
  next
    case 2
    then obtain x where "f = [x]" by (auto simp: length_Suc_conv)
    then show ?thesis using less.prems
      by (subst vp8_payloads.simps, subst vp8_payloads.simps) (simp add: kept_def handle_short [unfolded numeral_2_eq_2])
  next
    case 3
    let ?c = "take 1200 f"
    obtain d1 where 1: "handleVP8 ra ms (vp8_descriptor False key # ?c) (Suc (length ?c)) False False d = Some (d1, [])" "vp8_holds d1 (b @ ?c) k"
    proof -
      have "2 \<le> length ?c" "length b + length ?c < 2 ^ 32" using 3 less.prems(4) by auto
      from vp8_next [OF less.prems(1-3) this, of ms key] that show ?thesis by blast
    qed
    obtain d2 where 2: "vp8_all ra ms (vp8_payloads key False (drop 1200 f)) d1 = Some (d2, [])" "vp8_holds d2 ((b @ ?c) @ kept (drop 1200 f)) k"
    proof -
      have "length (drop 1200 f) < length f" "b @ ?c \<noteq> []" "length (b @ ?c) + length (drop 1200 f) < 2 ^ 32"
        using 3 less.prems(3,4) by auto
      from less.hyps [OF this(1) less.prems(1) 1(2) this(2,3)] that show ?thesis by blast
    qed
    have "kept f = ?c @ kept (drop 1200 f)"
    proof (cases "1200 < length f")
      case False
      then show ?thesis using 3 kept_short [of f] by (simp add: kept_def)
    qed (rule kept_split)
    moreover have "vp8_payloads key False f = (vp8_descriptor False key # ?c) # vp8_payloads key False (drop 1200 f)"
      using 3 by (subst vp8_payloads.simps) auto
    ultimately show ?thesis using 1(1) 2 by simp
  qed
qed

lemma vp8_frame:
  assumes ra: "grows ra" and d: "vp8_holds d b k" and f: "2 \<le> length f" "length f < 2 ^ 32"
  shows "\<exists>d'. vp8_all ra ms (vp8_payloads key True f) d = Some (d', if b = [] then [] else [(ms, b, k)]) \<and>
    vp8_holds d' (kept f) (hd f AND 1 = 0 \<or> b = [] \<and> k)"
proof -
  let ?c = "take 1200 f"
  have c: "2 \<le> length ?c" "length ?c < 2 ^ 32" "hd ?c = hd f" "?c \<noteq> []" using f by (auto simp: hd_take)
  obtain d1 where 1: "handleVP8 ra ms (vp8_descriptor True key # ?c) (Suc (length ?c)) False False d = Some (d1, if b = [] then [] else [(ms, b, k)])"
    "vp8_holds d1 ?c (hd f AND 1 = 0 \<or> b = [] \<and> k)"
    using vp8_first [OF ra d c(1,2), of ms key] c(3) by auto
  obtain d2 where 2: "vp8_all ra ms (vp8_payloads key False (drop 1200 f)) d1 = Some (d2, [])"
    "vp8_holds d2 (?c @ kept (drop 1200 f)) (hd f AND 1 = 0 \<or> b = [] \<and> k)"
  proof -
    have "length ?c + length (drop 1200 f) < 2 ^ 32" using f(2) by auto
    from vp8_rest [OF ra 1(2) c(4) this, of ms key] that show ?thesis by blast
  qed
  have "kept f = ?c @ kept (drop 1200 f)"
  proof (cases "1200 < length f")
    case False
    then show ?thesis using f kept_short [of f] by (simp add: kept_def)
  qed (rule kept_split)
  moreover have "vp8_payloads key True f = (vp8_descriptor True key # ?c) # vp8_payloads key False (drop 1200 f)"
    using f by (subst vp8_payloads.simps) auto
  ultimately show ?thesis using 1(1) 2 by simp
qed

text \<open>Frames that are sent and received one after the other, without the loss of a packet.\<close>

fun vp8_stream :: "allocator \<Rightarrow> nat \<Rightarrow> (u64 \<times> bytes) list \<Rightarrow> packet \<Rightarrow> depay \<Rightarrow> step" where
  "vp8_stream ra h [] p d = Some (d, [])"
| "vp8_stream ra h ((t, f) # fs) p d = do {
     (p, ds) \<leftarrow> sendVP8 f (length f) (p, []);
     (d, a) \<leftarrow> vp8_all ra t (map (drop h) ds) d;
     (d, b) \<leftarrow> vp8_stream ra h fs p d;
     Some (d, a @ b) }"

definition vp8_out :: "bytes \<Rightarrow> bytes \<times> bool" where
  "vp8_out f = (kept f, hd f AND 1 = 0)"

lemma sendVP8_ok:
  assumes "getHsize p = Some h" "h + 1201 \<le> length (pdata p)" "f \<noteq> []"
  shows "\<exists>q ds key. sendVP8 f (length f) (p, out) = Some (q, out @ ds) \<and> getHsize q = Some h \<and> length (pdata q) = length (pdata p) \<and>
    map (drop h) ds = vp8_payloads key True f"
proof -
  obtain x xs where f: "f = x # xs" using assms(3) by (cases f) auto
  obtain q ds where "vp8_loop h (x AND 1 = 0) True f (length f) (p, out) = Some (q, out @ ds)" "like h p q" "map (drop h) ds = vp8_payloads (x AND 1 = 0) True f"
    using vp8_loop_ok [OF assms(1,2)] by blast
  then show ?thesis using f assms(1) like_Hsize like_length by (fastforce simp: sendVP8_def)
qed

lemma vp8_stream_ok:
  assumes "grows ra" "getHsize p = Some h" "h + 1201 \<le> length (pdata p)" "vp8_holds d b k" "b \<noteq> []"
    and "\<forall>(t, f) \<in> set fs. 2 \<le> length f \<and> length f < 2 ^ 32"
  shows "\<exists>d'. vp8_stream ra h fs p d = Some (d', zip (map fst fs) ((b, k) # map (\<lambda>(t, f). vp8_out f) fs))"
  using assms
proof (induction fs arbitrary: p d b k)
  case (Cons e fs)
  obtain t f where e: "e = (t, f)" by (cases e)
  have f: "2 \<le> length f" "length f < 2 ^ 32" "f \<noteq> []" using Cons.prems(6) e by auto
  obtain q ds key where 1: "sendVP8 f (length f) (p, []) = Some (q, ds)" "getHsize q = Some h" "length (pdata q) = length (pdata p)"
    "map (drop h) ds = vp8_payloads key True f"
    using sendVP8_ok [OF Cons.prems(2,3) f(3), of "[]"] by auto
  obtain d1 where 2: "vp8_all ra t (map (drop h) ds) d = Some (d1, [(t, b, k)])" "vp8_holds d1 (kept f) (hd f AND 1 = 0)"
    using vp8_frame [OF Cons.prems(1,4) f(1,2), of t key] Cons.prems(5) 1(4) by auto
  obtain d2 where "vp8_stream ra h fs q d1 = Some (d2, zip (map fst fs) ((kept f, hd f AND 1 = 0) # map (\<lambda>(t, f). vp8_out f) fs))"
    using Cons.IH [OF Cons.prems(1) 1(2) _ 2(2) kept_not_Nil [OF f(1)]] Cons.prems(3,6) 1(3) by auto
  then show ?case using e 1(1) 2(1) by (simp add: vp8_out_def)
qed simp

section \<open>Properties\<close>

text \<open>C17: frames split by \<open>sendVP8\<close> are put together again by \<open>handleVP8\<close>, when no packet is lost: each is given out when the next one
  begins, with the time of that next one, and marked as a key frame by its first byte. A frame whose length is 1 modulo 1200
  loses its last byte, since a packet with one byte of payload is taken to be invalid.\<close>

theorem vp8_round_trip:
  assumes "grows ra" and "getHsize p = Some h" and "h + 1201 \<le> length (pdata p)"
    and "\<forall>(t, f) \<in> set fs. 2 \<le> length f \<and> length f < 2 ^ 32"
  shows "map_option snd (vp8_stream ra h fs p (toDTSC junk_time junk_sync)) =
    Some (zip (map fst (tl fs)) (map (\<lambda>(t, f). vp8_out f) fs))"
proof (cases fs)
  case (Cons e gs)
  obtain t f where e: "e = (t, f)" by (cases e)
  have f: "2 \<le> length f" "length f < 2 ^ 32" "f \<noteq> []" using assms(4) Cons e by auto
  obtain q ds key where 1: "sendVP8 f (length f) (p, []) = Some (q, ds)" "getHsize q = Some h" "length (pdata q) = length (pdata p)"
    "map (drop h) ds = vp8_payloads key True f"
    using sendVP8_ok [OF assms(2,3) f(3), of "[]"] by auto
  have "vp8_holds (toDTSC junk_time junk_sync) [] False"
    by (simp add: vp8_holds_def toDTSC_def buffered_def rp_new_def rp_wf_def rp_abs_def)
  from vp8_frame [OF assms(1) this f(1,2), of t key] obtain d1 where
    2: "vp8_all ra t (map (drop h) ds) (toDTSC junk_time junk_sync) = Some (d1, [])" "vp8_holds d1 (kept f) (hd f AND 1 = 0)"
    using 1(4) by auto
  obtain d2 where "vp8_stream ra h gs q d1 = Some (d2, zip (map fst gs) ((kept f, hd f AND 1 = 0) # map (\<lambda>(t, f). vp8_out f) gs))"
    using vp8_stream_ok [OF assms(1) 1(2) _ 2(2) kept_not_Nil [OF f(1)], of gs] assms(3,4) 1(3) Cons by auto
  then show ?thesis using Cons e 1(1) 2(1) by (simp add: vp8_out_def)
qed simp

theorem vp8_round_trip_witness:
  "\<exists>p. map_option snd (vp8_stream realloc_zero 12 [(0, [0, 7]), (40, [1, 2, 3]), (80, [4, 4])] p (toDTSC 0 0)) =
    Some [(40, [0, 7], True), (80, [1, 2, 3], False)]"
proof -
  let ?p = "\<lambda>junk. Packet_view junk (0x80 # replicate 1300 0)"
  have "grows realloc_zero" by (simp add: grows_def realloc_ok_def realloc_zero_def min_def)
  moreover have "getHsize (?p j) = Some 12" for j
    by (simp add: getHsize_def getContribCount_def getExtension_def Packet_view_def rd_def)
  moreover have "12 + 1201 \<le> length (pdata (?p j))" for j by (simp add: Packet_view_def)
  ultimately show ?thesis
    using vp8_round_trip [of realloc_zero "?p undefined" 12 "[(0, [0, 7]), (40, [1, 2, 3]), (80, [4, 4])]" 0 0]
    by (intro exI [of _ "?p undefined"]) (simp add: vp8_out_def kept_def)
qed

end
