(* ===== verification/Ebml.thy ===== *)
theory Ebml
  imports Bits
begin

text \<open>
  EBML, the format of Matroska and WebM (\<open>lib/ebml.cpp\<close>, \<open>lib/ebml.h\<close>): numbers of variable length, elements, the search
  for a child, values, and blocks with the frames laced into them. A pointer is the list of bytes that begins where it
  points; the result \<open>None\<close> is a read behind it or a division by zero. A signed number is its bit pattern, and the
  conversion of a \<open>float\<close> to a \<open>double\<close> is an argument. Descriptions for the log are left out.
\<close>

section \<open>Numbers\<close>

definition readSize :: "bytes \<Rightarrow> nat option" where
  "readSize p = do {
     b \<leftarrow> rd p 0;
     Some (if b AND 0x80 \<noteq> 0 then 1 else if b AND 0x40 \<noteq> 0 then 2 else if b AND 0x20 \<noteq> 0 then 3
       else if b AND 0x10 \<noteq> 0 then 4 else if b AND 0x08 \<noteq> 0 then 5 else if b AND 0x04 \<noteq> 0 then 6
       else if b AND 0x02 \<noteq> 0 then 7 else if b AND 0x01 \<noteq> 0 then 8 else 1) }"

definition writeSize :: "u64 \<Rightarrow> nat" where
  "writeSize val =
     (if val \<le> 0x7E then 1 else if val \<le> 0x3FFE then 2 else if val \<le> 0x1FFFFE then 3 else if val \<le> 0xFFFFFFE then 4
      else if val \<le> 0x7FFFFFFFE then 5 else if val \<le> 0x3FFFFFFFFFE then 6 else if val \<le> 0x1FFFFFFFFFFFE then 7
      else if val \<le> 0xFFFFFFFFFFFFFE then 8 else 0)"

definition readInt :: "bytes \<Rightarrow> u64 option" where
  "readInt p = do {
     n \<leftarrow> readSize p;
     if n = 1 then do { b \<leftarrow> rd p 0; Some (if b = 0xFF then 0xFFFFFFFFFFFFFFFF else ucast (b AND 0x7F)) }
     else if n = 2 then map_option (\<lambda>v. ucast v AND 0x3FFF) (btohs p 0)
     else if n = 3 then map_option (\<lambda>v. v AND 0x1FFFFF) (btoh24 p 0)
     else if n = 4 then map_option (\<lambda>v. ucast v AND 0xFFFFFFF) (btohl p 0)
     else if n = 5 then map_option (\<lambda>v. v AND 0x7FFFFFFFF) (btoh40 p 0)
     else if n = 6 then map_option (\<lambda>v. v AND 0x3FFFFFFFFFF) (btoh48 p 0)
     else if n = 7 then map_option (\<lambda>v. v AND 0x1FFFFFFFFFFFF) (btoh56 p 0)
     else map_option (\<lambda>v. v AND 0xFFFFFFFFFFFFFF) (btohll p 0) }"

definition writeInt :: "bytes \<Rightarrow> u64 \<Rightarrow> bytes option" where
  "writeInt p val =
     (let n = writeSize val in
      if n = 1 then wrn p 0 [ucast (val OR 0x80)]
      else if n = 2 then htobs p 0 (ucast (val OR 0x4000))
      else if n = 3 then htob24 p 0 (val OR 0x200000)
      else if n = 4 then htobl p 0 (ucast (val OR 0x10000000))
      else if n = 5 then htob40 p 0 (val OR 0x800000000)
      else if n = 6 then htob48 p 0 (val OR 0x40000000000)
      else if n = 7 then htob56 p 0 (val OR 0x2000000000000)
      else if n = 8 then htobll p 0 (val OR 0x100000000000000)
      else Some p)"

definition readSInt :: "bytes \<Rightarrow> u64 option" where
  "readSInt p = do {
     n \<leftarrow> readSize p;
     v \<leftarrow> readInt p;
     Some (if n = 1 then v - 0x3F else if n = 2 then v - 0x1FFF else if n = 3 then v - 0xFFFFF
       else if n = 4 then v - 0x7FFFFFF else if n = 5 then v - 0x3FFFFFFFF else if n = 6 then v - 0x1FFFFFFFFFF
       else if n = 7 then v - 0xFFFFFFFFFFFF else v - 0x7FFFFFFFFFFFFF) }"

section \<open>Elements\<close>

datatype etype = ELEM_UNKNOWN | ELEM_MASTER | ELEM_UINT | ELEM_INT | ELEM_STRING | ELEM_UTF8 | ELEM_BIN | ELEM_FLOAT
  | ELEM_DATE | ELEM_BLOCK

record element =
  edata :: bytes
  minimalMode :: bool

definition Element :: "bytes \<Rightarrow> bool \<Rightarrow> element" where
  "Element p minimal = \<lparr>edata = p, minimalMode = minimal\<rparr>"

definition getID :: "element \<Rightarrow> u32 option" where
  "getID e = map_option ucast (readInt (edata e))"

definition getPayloadLen :: "element \<Rightarrow> u64 option" where
  "getPayloadLen e = do { n \<leftarrow> readSize (edata e); readInt (drop n (edata e)) }"

definition getHeaderLen :: "element \<Rightarrow> nat option" where
  "getHeaderLen e = do { n \<leftarrow> readSize (edata e); m \<leftarrow> readSize (drop n (edata e)); Some (n + m) }"

definition getPayload :: "element \<Rightarrow> bytes option" where
  "getPayload e = map_option (\<lambda>h. drop h (edata e)) (getHeaderLen e)"

definition getOuterLen :: "element \<Rightarrow> u64 option" where
  "getOuterLen e = do {
     n \<leftarrow> readSize (edata e);
     v \<leftarrow> readInt (drop n (edata e));
     m \<leftarrow> readSize (drop n (edata e));
     Some (if minimalMode e \<and> v = 0xFFFFFFFFFFFFFFFF then of_nat (n + m) else v + of_nat n + of_nat m) }"

definition master_ids :: "u32 list" where
  "master_ids = [0x0A45DFA3, 0x08538067, 0x0F43B675, 0x014D9B74, 0x0549A966, 0x0654AE6B, 0xC53BB6B, 0xDBB, 0x2E, 0x60, 0x61,
     0x20, 0x3B, 0x37, 0x15B0, 0x254c367, 0x3373, 0x23C0, 0x43a770, 0x3a770, 0x941a469, 0x21A7, 0x5B9, 0x36, 0x0, 0x27C8]"

definition uint_ids :: "u32 list" where
  "uint_ids = [0x286, 0x2F7, 0x2F2, 0x2F3, 0x287, 0x285, 0x13AC, 0xAD7B1, 0x67, 0x57, 0x33C5, 0x1C, 0x3, 0x3E383, 0x16AA, 0x16BB,
     0x33, 0x77, 0x71, 0x70, 0x30, 0x3A, 0x1A, 0x14B0, 0x14BA, 0x1F, 0x2264, 0x15B7, 0x15B8, 0x15BA, 0x15B9, 0x15B1, 0x15BB, 0x2DE7,
     0x8, 0x1B, 0x6AE, 0x5BD, 0x5DB, 0x5BC, 0x33C4, 0x11, 0x18, 0x598, 0x23C5]"

definition elem_type :: "u32 \<Rightarrow> etype" where
  "elem_type i =
     (if i \<in> set master_ids then ELEM_MASTER
      else if i \<in> set uint_ids then ELEM_UINT
      else if i = 0x35A2 then ELEM_INT
      else if i \<in> {0x35, 0x489} then ELEM_FLOAT
      else if i \<in> {0x282, 0x2B59C, 0x660, 0x37C, 0xEB524, 0x6} then ELEM_STRING
      else if i \<in> {0xD80, 0x1741, 0x5A3, 0x136E, 0x3BA9, 0x66E, 0x67E, 0x5, 0x487} then ELEM_UTF8
      else if i \<in> {0x6C, 0x13AB, 0x23A2, 0x3F, 0x65C, 0x33A4} then ELEM_BIN
      else if i \<in> {0x23, 0x21} then ELEM_BLOCK
      else if i = 0x461 then ELEM_DATE
      else ELEM_UNKNOWN)"

definition getType :: "element \<Rightarrow> etype option" where
  "getType e = map_option elem_type (getID e)"

definition needBytes :: "bytes \<Rightarrow> u64 \<Rightarrow> bool \<Rightarrow> u64 option" where
  "needBytes p availBytes minimal =
     (if availBytes < 2 then Some 2
      else do {
        n \<leftarrow> readSize p;
        if availBytes < of_nat n + 1 then Some (of_nat n + 1)
        else do {
          m \<leftarrow> readSize (drop n p);
          let needed = of_nat n + of_nat m;
          if availBytes < needed then Some needed
          else do {
            master \<leftarrow> (if minimal then map_option (\<lambda>t. t = ELEM_MASTER) (getType (Element p True)) else Some False);
            if master then Some needed
            else do {
              pSize \<leftarrow> readInt (drop n p);
              Some (if pSize \<noteq> 0xFFFFFFFFFFFFFFFF then needed + pSize else needed) } } } })"

lemma readSize_pos: "readSize p = Some n \<Longrightarrow> 0 < n \<and> n \<le> 8 \<and> p \<noteq> []"
  by (auto simp: readSize_def split: bind_splits if_splits)

lemma getHeaderLen_shorter: "getHeaderLen e = Some h \<Longrightarrow> length (drop h (edata e)) < length (edata e)"
  by (auto simp: getHeaderLen_def split: bind_splits dest!: readSize_pos)

lemma getPayload_shorter: "getPayload e = Some p \<Longrightarrow> length p < length (edata e)"
  by (auto simp: getPayload_def dest: getHeaderLen_shorter)

text \<open>The search, in the order of the elements. \<open>Some None\<close> is the empty element. A child of unknown size is passed by with a
  length that is one less than that of its head.\<close>

lemma readInt_bound:
  assumes "readInt p = Some v"
  shows "v = 0xFFFFFFFFFFFFFFFF \<or> v \<le> 0xFFFFFFFFFFFFFF"
proof -
  have a: "(w :: u64) AND k \<le> 0xFFFFFFFFFFFFFF" if "k \<le> 0xFFFFFFFFFFFFFF" for w k
    using word_and_le1 [of w k] that by (rule order_trans)
  have b: "ucast (b :: byte) \<le> (0xFFFFFFFFFFFFFF :: u64)" for b
  proof -
    have "unat b < 256" using unsigned_less [of b, where ?'a = nat] by simp
    then show ?thesis by (simp add: word_le_nat_alt unsigned_ucast_eq take_bit_nat_eq_self)
  qed
  show ?thesis using assms
    by (auto simp: readInt_def a b split: bind_splits if_splits)
qed

lemma getOuterLen_pos:
  assumes "getOuterLen e = Some v"
  shows "0 < unat v"
proof -
  obtain n m w where w: "readSize (edata e) = Some n" "readSize (drop n (edata e)) = Some m" "readInt (drop n (edata e)) = Some w"
    "v = (if minimalMode e \<and> w = 0xFFFFFFFFFFFFFFFF then of_nat (n + m) else w + of_nat n + of_nat m)"
    using assms by (auto simp: getOuterLen_def split: bind_splits)
  note nm = readSize_pos [OF w(1)] readSize_pos [OF w(2)]
  have nm16: "(of_nat (n + m) :: u64) \<noteq> 0" using nm by (simp add: word_unat_eq_iff unat_of_nat del: of_nat_add)
  have "v \<noteq> 0"
  proof (cases "w = 0xFFFFFFFFFFFFFFFF")
    case True
    have "(of_nat (n + m) :: u64) \<noteq> 1" using nm by (simp add: word_unat_eq_iff unat_of_nat del: of_nat_add)
    moreover have "w = - 1" using True by simp
    ultimately show ?thesis using w(4) nm16 by (auto simp: algebra_simps)
  next
    case False
    then have "unat w \<le> 0xFFFFFFFFFFFFFF" using readInt_bound [OF w(3)] by (simp add: word_le_nat_alt)
    then have "unat (w + of_nat (n + m)) = unat w + (n + m)"
      using nm by (subst unat_add_lem [THEN iffD1]) (simp_all add: unat_of_nat del: of_nat_add)
    moreover have "v = w + of_nat (n + m)" using w(4) False by (simp add: add.assoc)
    ultimately have "unat v = unat w + (n + m)" by (simp only:)
    then show ?thesis using nm by auto
  qed
  then show ?thesis by (simp add: unat_gt_0)
qed

function findChild :: "u32 \<Rightarrow> element \<Rightarrow> element option option"
  and find_among :: "u32 \<Rightarrow> bytes \<Rightarrow> nat \<Rightarrow> nat \<Rightarrow> element option option" where
  "findChild i e = do {
     j \<leftarrow> getID e;
     if j = i then Some (Some e)
     else do {
       t \<leftarrow> getType e;
       if t \<noteq> ELEM_MASTER then Some None
       else if minimalMode e then Some None
       else do {
         payLen \<leftarrow> getPayloadLen e;
         payDat \<leftarrow> getPayload e;
         find_among i payDat (unat payLen) 0 } } }"
| "find_among i payDat payLen off =
     (if off < payLen then do {
        n \<leftarrow> needBytes (drop off payDat) (of_nat (payLen - off)) False;
        if of_nat (payLen - off) < n then Some None
        else do {
          f \<leftarrow> findChild i (Element (drop off payDat) False);
          (case f of
             Some f \<Rightarrow> Some (Some f)
           | None \<Rightarrow> do {
               l \<leftarrow> getOuterLen (Element (drop off payDat) False);
               find_among i payDat payLen (off + unat l) }) } }
      else Some None)"
  by pat_completeness auto
termination findChild
  by (relation "measures [\<lambda>x. case x of Inl (i, e) \<Rightarrow> length (edata e) | Inr (i, p, l, off) \<Rightarrow> length p,
      \<lambda>x. case x of Inl _ \<Rightarrow> 0 | Inr (i, p, l, off) \<Rightarrow> Suc (l - off)]")
    (auto simp: Element_def dest!: getPayload_shorter getOuterLen_pos)

declare findChild.simps [simp del] find_among.simps [simp del]

section \<open>Values\<close>

definition getValUInt :: "element \<Rightarrow> u64 option" where
  "getValUInt e = do {
     p \<leftarrow> getPayload e;
     n \<leftarrow> getPayloadLen e;
     if n = 1 then map_option ucast (rd p 0)
     else if n = 2 then map_option ucast (btohs p 0)
     else if n = 3 then btoh24 p 0
     else if n = 4 then map_option ucast (btohl p 0)
     else if n = 5 then btoh40 p 0
     else if n = 6 then btoh48 p 0
     else if n = 7 then btoh56 p 0
     else if n = 8 then btohll p 0
     else Some 0 }"

text \<open>Shifting to the left and back, arithmetically, extends the sign.\<close>

definition shift_back :: "nat \<Rightarrow> u64 \<Rightarrow> u64" where
  "shift_back k v = signed_drop_bit k (push_bit k v)"

definition getValInt :: "element \<Rightarrow> u64 option" where
  "getValInt e = do {
     p \<leftarrow> getPayload e;
     n \<leftarrow> getPayloadLen e;
     if n = 1 then map_option scast (rd p 0)
     else if n = 2 then map_option (\<lambda>v. shift_back 48 (ucast v)) (btohs p 0)
     else if n = 3 then map_option (shift_back 40) (btoh24 p 0)
     else if n = 4 then map_option scast (btohl p 0)
     else if n = 5 then map_option (shift_back 24) (btoh40 p 0)
     else if n = 6 then map_option (shift_back 16) (btoh48 p 0)
     else if n = 7 then map_option (shift_back 8) (btoh56 p 0)
     else if n = 8 then btohll p 0
     else Some 0 }"

text \<open>A quotient that is rounded towards zero.\<close>

definition getValDate :: "element \<Rightarrow> u64 option" where
  "getValDate e = map_option (\<lambda>v. 978307200000 + of_int (sgn (sint v) * (\<bar>sint v\<bar> div 1000000))) (getValInt e)"

definition getValFloat :: "(u32 \<Rightarrow> u64) \<Rightarrow> element \<Rightarrow> u64 option" where
  "getValFloat to_double e = do {
     p \<leftarrow> getPayload e;
     n \<leftarrow> getPayloadLen e;
     if n = 4 then map_option to_double (btohf p 0) else if n = 8 then btohd p 0 else Some 0 }"

definition getValStringUntrimmed :: "element \<Rightarrow> bytes option" where
  "getValStringUntrimmed e = do { n \<leftarrow> getPayloadLen e; p \<leftarrow> getPayload e; rdn p 0 (unat n) }"

fun trimmed :: "bytes \<Rightarrow> nat \<Rightarrow> nat option" where
  "trimmed p 0 = Some 0"
| "trimmed p (Suc n) = do { b \<leftarrow> rd p n; if b = 0 then trimmed p n else Some (Suc n) }"

definition getValString :: "element \<Rightarrow> bytes option" where
  "getValString e = do { n \<leftarrow> getPayloadLen e; p \<leftarrow> getPayload e; k \<leftarrow> trimmed p (unat n); rdn p 0 k }"

section \<open>Blocks\<close>

text \<open>The byte of a block \<open>k\<close> bytes behind the number of its track.\<close>

definition block_byte :: "element \<Rightarrow> nat \<Rightarrow> byte option" where
  "block_byte e k = do { p \<leftarrow> getPayload e; n \<leftarrow> readSize p; rd p (n + k) }"

definition getTrackNum :: "element \<Rightarrow> u64 option" where
  "getTrackNum e = do { p \<leftarrow> getPayload e; readInt p }"

definition getTimecode :: "element \<Rightarrow> u16 option" where
  "getTimecode e = do { p \<leftarrow> getPayload e; n \<leftarrow> readSize p; btohs p n }"

definition isKeyframe :: "element \<Rightarrow> bool option" where
  "isKeyframe e = map_option (\<lambda>b. b AND 0x80 \<noteq> 0) (block_byte e 2)"

definition isInvisible :: "element \<Rightarrow> bool option" where
  "isInvisible e = map_option (\<lambda>b. b AND 0x08 \<noteq> 0) (block_byte e 2)"

definition isDiscardable :: "element \<Rightarrow> bool option" where
  "isDiscardable e = map_option (\<lambda>b. b AND 0x01 \<noteq> 0) (block_byte e 2)"

definition getLacing :: "element \<Rightarrow> nat option" where
  "getLacing e = map_option (\<lambda>b. unat (drop_bit 1 (b AND 0x06))) (block_byte e 2)"

definition getFrameCount :: "element \<Rightarrow> byte option" where
  "getFrameCount e = do {
     l \<leftarrow> getLacing e;
     if l = 0 then Some 1 else do { b \<leftarrow> block_byte e 3; Some (b + 1) } }"

text \<open>The sizes in the head of a block. \<open>lace\<close> is the number of the frame whose size is being read; \<open>Inl\<close> is its size
  (frame \<open>no\<close> has been reached), \<open>Inr\<close> the position behind the sizes with their sum.\<close>

function xiph_size :: "bytes \<Rightarrow> nat \<Rightarrow> nat \<Rightarrow> nat \<Rightarrow> nat \<Rightarrow> nat \<Rightarrow> u32 \<Rightarrow> u32 \<Rightarrow> (u32 + nat \<times> u32) option" where
  "xiph_size p payLen frames no lace off cur tot =
     (if lace \<le> no \<and> lace < frames - 1 \<and> off < payLen then do {
        b \<leftarrow> rd p off;
        let cur = cur + ucast b;
        if b \<noteq> 0xFF then
          if lace = no then Some (Inl cur) else xiph_size p payLen frames no (lace + 1) (off + 1) 0 (tot + cur)
        else xiph_size p payLen frames no lace (off + 1) cur tot }
      else Some (Inr (off, tot)))"
  by pat_completeness auto
termination xiph_size
  by (relation "measure (\<lambda>(p, n, f, no, l, off, c, t). n - off)") auto

declare xiph_size.simps [simp del]

function ebml_size :: "bytes \<Rightarrow> nat \<Rightarrow> nat \<Rightarrow> nat \<Rightarrow> nat \<Rightarrow> nat \<Rightarrow> u32 \<Rightarrow> u32 \<Rightarrow> (u32 + nat \<times> u32) option" where
  "ebml_size p payLen frames no lace off cur tot =
     (if lace \<le> no \<and> lace < frames - 1 \<and> off < payLen then do {
        v \<leftarrow> (if lace = 0 then readInt (drop off p) else readSInt (drop off p));
        let cur = (if lace = 0 then ucast v else cur + ucast v);
        if lace = no then Some (Inl cur)
        else do {
          n \<leftarrow> readSize (drop off p);
          ebml_size p payLen frames no (lace + 1) (off + n) cur (tot + cur) } }
      else Some (Inr (off, tot)))"
  by pat_completeness auto
termination ebml_size
  by (relation "measure (\<lambda>(p, n, f, no, l, off, c, t). f - l)") auto

declare ebml_size.simps [simp del]

definition rest_size :: "u64 \<Rightarrow> u32 + nat \<times> u32 \<Rightarrow> u32" where
  "rest_size payLen r = (case r of Inl s \<Rightarrow> s | Inr (off, tot) \<Rightarrow> ucast (payLen - of_nat off - ucast tot))"

definition getFrameSize :: "element \<Rightarrow> byte \<Rightarrow> u32 option" where
  "getFrameSize e no = do {
     l \<leftarrow> getLacing e;
     p \<leftarrow> getPayload e;
     payLen \<leftarrow> getPayloadLen e;
     n \<leftarrow> readSize p;
     frames \<leftarrow> getFrameCount e;
     if l = 0 then Some (ucast (payLen - (of_nat n + 3)))
     else if l = 2 then
       if frames = 0 then None else Some (ucast ((payLen - (of_nat n + 3)) div ucast frames))
     else if int (unat frames) - 1 < int (unat no) then Some 0
     else map_option (rest_size payLen)
       ((if l = 1 then xiph_size else ebml_size) p (unat payLen) (unat frames) (unat no) 0 (n + 4) 0 0) }"

text \<open>The data of a frame: its position in the payload, \<open>Some None\<close> the null pointer.\<close>

function xiph_data :: "bytes \<Rightarrow> nat \<Rightarrow> nat \<Rightarrow> nat \<Rightarrow> nat \<Rightarrow> nat \<Rightarrow> u32 \<Rightarrow> nat option" where
  "xiph_data p payLen frames no lace off cur =
     (if lace < frames - 1 \<and> off < payLen then do {
        b \<leftarrow> rd p off;
        xiph_data p payLen frames no (if b \<noteq> 0xFF then lace + 1 else lace) (off + 1) (if lace < no then cur + ucast b else cur) }
      else Some (off + unat cur))"
  by pat_completeness auto
termination xiph_data
  by (relation "measure (\<lambda>(p, n, f, no, l, off, c). n - off)") auto

declare xiph_data.simps [simp del]

function ebml_data :: "bytes \<Rightarrow> nat \<Rightarrow> nat \<Rightarrow> nat \<Rightarrow> nat \<Rightarrow> nat \<Rightarrow> u32 \<Rightarrow> u32 \<Rightarrow> nat option" where
  "ebml_data p payLen frames no lace off cur tot =
     (if lace < frames - 1 \<and> off < payLen then do {
        v \<leftarrow> (if lace = 0 then readInt (drop off p) else readSInt (drop off p));
        let cur = (if lace = 0 then ucast v else cur + ucast v);
        n \<leftarrow> readSize (drop off p);
        ebml_data p payLen frames no (lace + 1) (off + n) cur (if lace < no then tot + cur else tot) }
      else Some (off + unat tot))"
  by pat_completeness auto
termination ebml_data
  by (relation "measure (\<lambda>(p, n, f, no, l, off, c, t). f - l)") auto

declare ebml_data.simps [simp del]

definition getFrameData :: "element \<Rightarrow> byte \<Rightarrow> nat option option" where
  "getFrameData e no = do {
     l \<leftarrow> getLacing e;
     p \<leftarrow> getPayload e;
     payLen \<leftarrow> getPayloadLen e;
     n \<leftarrow> readSize p;
     frames \<leftarrow> getFrameCount e;
     if l = 0 then Some (Some (n + 3))
     else if l = 2 then do { s \<leftarrow> getFrameSize e no; Some (Some (n + 4 + unat (ucast no * s))) }
     else if int (unat frames) - 1 < int (unat no) then Some None
     else if l = 1 then map_option Some (xiph_data p (unat payLen) (unat frames) (unat no) 0 (n + 4) 0)
     else map_option Some (ebml_data p (unat payLen) (unat frames) (unat no) 0 (n + 4) 0 0) }"

end
