(* ===== verification/EbmlWrite.thy ===== *)
theory EbmlWrite
  imports Ebml
begin

text \<open>
  Writing EBML (\<open>lib/ebml_socketglue.cpp\<close>): elements sent over a connection or appended to a string, and their sizes
  computed in advance. What is sent is appended to a list of bytes. Of the buffer of eight bytes on the stack only what has been
  written is used. A \<open>double\<close> is its bit pattern; \<open>exact\<close> says whether it is a \<open>float\<close> too, \<open>to_float\<close> converts it. A signed
  number is its bit pattern; \<open>None\<close> is the overflow of a signed number.
\<close>

section \<open>Numbers and heads\<close>

definition tmp8 :: bytes where
  "tmp8 = replicate 8 0"

definition sendUniInt :: "bytes \<Rightarrow> u64 \<Rightarrow> bytes option" where
  "sendUniInt C val =
     (let wSize = writeSize val in
      if wSize = 0 then Some (C @ [0xFF])
      else do { tmp \<leftarrow> writeInt tmp8 val; d \<leftarrow> rdn tmp 0 wSize; Some (C @ d) })"

definition appendUniInt :: "bytes \<Rightarrow> u64 \<Rightarrow> bytes option" where
  "appendUniInt buffer val =
     (let wSize = writeSize val in
      if wSize = 0 then Some (buffer @ [0xFF])
      else do { tmp \<leftarrow> writeInt tmp8 val; d \<leftarrow> rdn tmp 0 wSize; Some (buffer @ d) })"

definition sendElemHead :: "bytes \<Rightarrow> u32 \<Rightarrow> u64 \<Rightarrow> bytes option" where
  "sendElemHead C i s = do { C \<leftarrow> sendUniInt C (ucast i); sendUniInt C s }"

definition appendElemHead :: "bytes \<Rightarrow> u32 \<Rightarrow> u64 \<Rightarrow> bytes option" where
  "appendElemHead buffer i s = do { buffer \<leftarrow> appendUniInt buffer (ucast i); appendUniInt buffer s }"

definition sizeElemHead :: "u32 \<Rightarrow> u64 \<Rightarrow> u32" where
  "sizeElemHead i s = (let sLen = writeSize s in of_nat (writeSize (ucast i)) + (if sLen \<noteq> 0 then of_nat sLen else 1))"

section \<open>Values\<close>

definition sizeUInt :: "u64 \<Rightarrow> nat" where
  "sizeUInt val =
     (if val \<ge> 0x100000000000000 then 8 else if val \<ge> 0x1000000000000 then 7 else if val \<ge> 0x10000000000 then 6
      else if val \<ge> 0x100000000 then 5 else if val \<ge> 0x1000000 then 4 else if val \<ge> 0x10000 then 3
      else if val \<ge> 0x100 then 2 else 1)"

definition sizeInt :: "u64 \<Rightarrow> nat" where
  "sizeInt v =
     (let val = sint v in
      if val \<ge> 0x100000000000000 \<or> val \<le> -0x100000000000000 then 8
      else if val \<ge> 0x1000000000000 \<or> val \<le> -0x1000000000000 then 7
      else if val \<ge> 0x10000000000 \<or> val \<le> -0x10000000000 then 6
      else if val \<ge> 0x100000000 \<or> val \<le> -0x100000000 then 5
      else if val \<ge> 0x1000000 \<or> val \<le> -0x1000000 then 4
      else if val \<ge> 0x10000 \<or> val \<le> -0x10000 then 3
      else if val \<ge> 0x100 \<or> val \<le> -0x100 then 2 else 1)"

definition put_num :: "nat \<Rightarrow> u64 \<Rightarrow> bytes option" where
  "put_num wSize val = do {
     tmp \<leftarrow> (if wSize = 8 then htobll tmp8 0 val
       else if wSize = 7 then htob56 tmp8 0 val
       else if wSize = 6 then htob48 tmp8 0 val
       else if wSize = 5 then htob40 tmp8 0 val
       else if wSize = 4 then htobl tmp8 0 (ucast val)
       else if wSize = 3 then htob24 tmp8 0 val
       else if wSize = 2 then htobs tmp8 0 (ucast val)
       else wrn tmp8 0 [ucast val]);
     rdn tmp 0 wSize }"

definition appendElemUInt :: "bytes \<Rightarrow> u32 \<Rightarrow> u64 \<Rightarrow> bytes option" where
  "appendElemUInt buffer i val = do {
     let wSize = sizeUInt val;
     d \<leftarrow> put_num wSize val;
     buffer \<leftarrow> appendElemHead buffer i (of_nat wSize);
     Some (buffer @ d) }"

definition sendElemUInt :: "bytes \<Rightarrow> u32 \<Rightarrow> u64 \<Rightarrow> bytes option" where
  "sendElemUInt C i val = do {
     let wSize = sizeUInt val;
     d \<leftarrow> put_num wSize val;
     C \<leftarrow> sendElemHead C i (of_nat wSize);
     Some (C @ d) }"

definition sizeElemUInt :: "u32 \<Rightarrow> u64 \<Rightarrow> u32" where
  "sizeElemUInt i val = (let iSize = sizeUInt val in sizeElemHead i (of_nat iSize) + of_nat iSize)"

definition sendElemInt :: "bytes \<Rightarrow> u32 \<Rightarrow> u64 \<Rightarrow> bytes option" where
  "sendElemInt C i val = do {
     let wSize = sizeInt val;
     d \<leftarrow> put_num wSize val;
     C \<leftarrow> sendElemHead C i (of_nat wSize);
     Some (C @ d) }"

definition sizeElemInt :: "u32 \<Rightarrow> u64 \<Rightarrow> u32" where
  "sizeElemInt i val = (let iSize = sizeInt val in sizeElemHead i (of_nat iSize) + of_nat iSize)"

definition sendElemID :: "bytes \<Rightarrow> u32 \<Rightarrow> u64 \<Rightarrow> bytes option" where
  "sendElemID C i val = do { C \<leftarrow> sendElemHead C i (of_nat (writeSize val)); sendUniInt C val }"

definition sizeElemID :: "u32 \<Rightarrow> u64 \<Rightarrow> u32" where
  "sizeElemID i val = (let iSize = writeSize val in sizeElemHead i (of_nat iSize) + of_nat iSize)"

definition sendElemDbl :: "(u64 \<Rightarrow> bool) \<Rightarrow> (u64 \<Rightarrow> u32) \<Rightarrow> bytes \<Rightarrow> u32 \<Rightarrow> u64 \<Rightarrow> bytes option" where
  "sendElemDbl exact to_float C i val = do {
     let wSize = (if exact val then 4 else 8);
     tmp \<leftarrow> (if wSize = 4 then htobf tmp8 0 (to_float val) else htobd tmp8 0 val);
     C \<leftarrow> sendElemHead C i (of_nat wSize);
     d \<leftarrow> rdn tmp 0 wSize;
     Some (C @ d) }"

definition sizeElemDbl :: "(u64 \<Rightarrow> bool) \<Rightarrow> u32 \<Rightarrow> u64 \<Rightarrow> u32" where
  "sizeElemDbl exact i val = (let iSize = (if exact val then 4 else 8) in sizeElemHead i iSize + ucast iSize)"

definition sendElemStr :: "bytes \<Rightarrow> u32 \<Rightarrow> bytes \<Rightarrow> bytes option" where
  "sendElemStr C i val = do { C \<leftarrow> sendElemHead C i (of_nat (length val)); Some (C @ val) }"

definition sizeElemStr :: "u32 \<Rightarrow> bytes \<Rightarrow> u32" where
  "sizeElemStr i val = sizeElemHead i (of_nat (length val)) + of_nat (length val)"

section \<open>Elements of Matroska\<close>

definition sendElemEBML :: "bytes \<Rightarrow> bytes \<Rightarrow> bytes option" where
  "sendElemEBML C doctype = do {
     C \<leftarrow> sendElemHead C 0x0A45DFA3 (of_nat (27 + length doctype));
     C \<leftarrow> sendElemUInt C 0x286 1;
     C \<leftarrow> sendElemUInt C 0x2F7 1;
     C \<leftarrow> sendElemUInt C 0x2F2 4;
     C \<leftarrow> sendElemUInt C 0x2F3 8;
     C \<leftarrow> sendElemStr C 0x282 doctype;
     if doctype = str ''matroska'' then do { C \<leftarrow> sendElemUInt C 0x287 4; sendElemUInt C 0x285 1 }
     else do { C \<leftarrow> sendElemUInt C 0x287 1; sendElemUInt C 0x285 1 } }"

definition sizeElemEBML :: "bytes \<Rightarrow> u32" where
  "sizeElemEBML doctype = of_nat (27 + length doctype) + sizeElemHead 0x0A45DFA3 (of_nat (27 + length doctype))"

text \<open>The date in nanoseconds since 2001, from milliseconds since 1970.\<close>

definition dbl_positive :: "u64 \<Rightarrow> bool" where
  "dbl_positive d \<longleftrightarrow> 0 < d \<and> d \<le> 0x7FF0000000000000"

definition int64 :: "int \<Rightarrow> u64 option" where
  "int64 i = (if - (2 ^ 63) \<le> i \<and> i < 2 ^ 63 then Some (of_int i) else None)"

definition ebml_date :: "u64 \<Rightarrow> u64 option" where
  "ebml_date date = do { d \<leftarrow> int64 (sint date - 978307200000); int64 (sint d * 1000000) }"

definition info_content :: "(u64 \<Rightarrow> bool) \<Rightarrow> bytes \<Rightarrow> u64 \<Rightarrow> u64 \<Rightarrow> (u64 \<times> u64) option" where
  "info_content exact appName duration date = do {
     let contentLen = of_nat (13 + 2 * length appName);
     let contentLen = (if dbl_positive duration then contentLen + ucast (sizeElemDbl exact 0x489 duration) else contentLen);
     if date \<noteq> 0 then do { d \<leftarrow> ebml_date date; Some (contentLen + ucast (sizeElemInt 0x461 d), d) }
     else Some (contentLen, date) }"

definition sendElemInfo :: "(u64 \<Rightarrow> bool) \<Rightarrow> (u64 \<Rightarrow> u32) \<Rightarrow> bytes \<Rightarrow> bytes \<Rightarrow> u64 \<Rightarrow> u64 \<Rightarrow> bytes option" where
  "sendElemInfo exact to_float C appName duration date = do {
     (contentLen, date) \<leftarrow> info_content exact appName duration date;
     C \<leftarrow> sendElemHead C 0x0549A966 contentLen;
     C \<leftarrow> sendElemUInt C 0xAD7B1 1000000;
     C \<leftarrow> (if dbl_positive duration then sendElemDbl exact to_float C 0x489 duration else Some C);
     C \<leftarrow> (if date \<noteq> 0 then sendElemInt C 0x461 date else Some C);
     C \<leftarrow> sendElemStr C 0xD80 appName;
     sendElemStr C 0x1741 appName }"

definition sizeElemInfo :: "(u64 \<Rightarrow> bool) \<Rightarrow> bytes \<Rightarrow> u64 \<Rightarrow> u64 \<Rightarrow> u32 option" where
  "sizeElemInfo exact appName duration date = do {
     (contentLen, date) \<leftarrow> info_content exact appName duration date;
     Some (ucast (contentLen + ucast (sizeElemHead 0x0549A966 contentLen))) }"

definition block_head :: "u64 \<Rightarrow> u64 \<Rightarrow> bool \<Rightarrow> bytes option" where
  "block_head time clusterTime keyFrame =
     htobs [0, 0, if keyFrame then 0x80 else 0] 0 (ucast (time - clusterTime))"

definition block_size :: "u64 \<Rightarrow> bytes \<Rightarrow> u32" where
  "block_size trackId d = of_nat (writeSize trackId) + 3 + of_nat (length d)"

definition sendSimpleBlock :: "bytes \<Rightarrow> bytes \<Rightarrow> u64 \<Rightarrow> u64 \<Rightarrow> bool \<Rightarrow> u64 \<Rightarrow> bytes option" where
  "sendSimpleBlock C d trackId time keyFrame clusterTime = do {
     C \<leftarrow> sendElemHead C 0x23 (ucast (block_size trackId d));
     C \<leftarrow> sendUniInt C trackId;
     blockHead \<leftarrow> block_head time clusterTime keyFrame;
     Some (C @ blockHead @ d) }"

definition appendSimpleBlock :: "bytes \<Rightarrow> bytes \<Rightarrow> u64 \<Rightarrow> u64 \<Rightarrow> bool \<Rightarrow> u64 \<Rightarrow> bytes option" where
  "appendSimpleBlock buffer d trackId time keyFrame clusterTime = do {
     buffer \<leftarrow> appendElemHead buffer 0x23 (ucast (block_size trackId d));
     buffer \<leftarrow> appendUniInt buffer trackId;
     blockHead \<leftarrow> block_head time clusterTime keyFrame;
     Some (buffer @ blockHead @ d) }"

definition sizeSimpleBlock :: "u64 \<Rightarrow> u32 \<Rightarrow> u32" where
  "sizeSimpleBlock trackId dataSize = (let ret = of_nat (writeSize trackId) + 3 + dataSize in ret + sizeElemHead 0x23 (ucast ret))"

definition sendElemSeek :: "bytes \<Rightarrow> u32 \<Rightarrow> u64 \<Rightarrow> bytes option" where
  "sendElemSeek C i bytePos = do {
     let elems = sizeElemUInt 0x13AB (ucast i) + sizeElemUInt 0x13AC bytePos;
     C \<leftarrow> sendElemHead C 0xDBB (ucast elems);
     C \<leftarrow> sendElemID C 0x13AB (ucast i);
     sendElemUInt C 0x13AC bytePos }"

definition sizeElemSeek :: "u32 \<Rightarrow> u64 \<Rightarrow> u32" where
  "sizeElemSeek i bytePos =
     (let elems = sizeElemID 0x13AB (ucast i) + sizeElemUInt 0x13AC bytePos in sizeElemHead 0xDBB (ucast elems) + elems)"

definition sendElemCuePoint :: "bytes \<Rightarrow> u64 \<Rightarrow> u64 \<Rightarrow> u64 \<Rightarrow> u64 \<Rightarrow> bytes option" where
  "sendElemCuePoint C time track clusterPos relaPos = do {
     let elemsA = sizeElemUInt 0x77 track + sizeElemUInt 0x71 clusterPos + sizeElemUInt 0x70 relaPos;
     let elemsB = elemsA + sizeElemUInt 0x33 time + sizeElemHead 0x37 (ucast elemsA);
     C \<leftarrow> sendElemHead C 0x3B (ucast elemsB);
     C \<leftarrow> sendElemUInt C 0x33 time;
     C \<leftarrow> sendElemHead C 0x37 (ucast elemsA);
     C \<leftarrow> sendElemUInt C 0x77 track;
     C \<leftarrow> sendElemUInt C 0x71 clusterPos;
     sendElemUInt C 0x70 relaPos }"

definition sizeElemCuePoint :: "u64 \<Rightarrow> u64 \<Rightarrow> u64 \<Rightarrow> u64 \<Rightarrow> u32" where
  "sizeElemCuePoint time track clusterPos relaPos =
     (let elems = sizeElemUInt 0x77 track + sizeElemUInt 0x71 clusterPos + sizeElemUInt 0x70 relaPos;
          elems = elems + sizeElemHead 0x37 (ucast elems);
          elems = elems + sizeElemUInt 0x33 time
      in sizeElemHead 0x3B (ucast elems) + elems)"

end
