(* ===== verification/EbmlProps.thy ===== *)
theory EbmlProps
  imports EbmlWrite
begin

text \<open>
  Lemmas about EBML: numbers that are written are read back, with the length \<open>writeSize\<close> says; the head of an element; an
  element with its children as a \<open>tree\<close>, its bytes, when it is well formed, and the search in it, which \<open>findChild\<close>
  does on the bytes; leaves that hold numbers.
\<close>

section \<open>Numbers\<close>

lemma byte_bit_tests:
  fixes b :: byte
  shows "b AND 0x80 = 0 \<longleftrightarrow> \<not> bit b 7" "b AND 0x40 = 0 \<longleftrightarrow> \<not> bit b 6" "b AND 0x20 = 0 \<longleftrightarrow> \<not> bit b 5"
    "b AND 0x10 = 0 \<longleftrightarrow> \<not> bit b 4" "b AND 0x08 = 0 \<longleftrightarrow> \<not> bit b 3" "b AND 0x04 = 0 \<longleftrightarrow> \<not> bit b 2"
    "b AND 0x02 = 0 \<longleftrightarrow> \<not> bit b 1" "b AND 0x01 = 0 \<longleftrightarrow> \<not> bit b 0"
  using and_exp_eq_0_iff_not_bit [of b 7] and_exp_eq_0_iff_not_bit [of b 6] and_exp_eq_0_iff_not_bit [of b 5]
    and_exp_eq_0_iff_not_bit [of b 4] and_exp_eq_0_iff_not_bit [of b 3] and_exp_eq_0_iff_not_bit [of b 2]
    and_exp_eq_0_iff_not_bit [of b 1] and_exp_eq_0_iff_not_bit [of b 0]
  by simp_all

lemma readSize_marker:
  assumes "1 \<le> n" "n \<le> 8" "2 ^ (8 - n) \<le> unat b" "unat b < 2 ^ (9 - n)"
  shows "readSize (b # r) = Some n"
proof -
  have bit: "bit b k = odd (unat b div 2 ^ k)" if "k < 8" for k
    using that bit_unsigned_iff [of b k, where ?'a = nat] by (simp add: bit_iff_odd possible_bit_nat)
  have zero: "\<not> bit b k" if "9 - n \<le> k" "k < 8" for k
  proof -
    have "unat b < 2 ^ k" using assms(4) power_increasing [OF that(1), of "2 :: nat"] by linarith
    then show ?thesis using bit [OF that(2)] by simp
  qed
  have one: "bit b (8 - n)"
  proof -
    have "(2 :: nat) ^ (9 - n) = 2 * 2 ^ (8 - n)" using assms(1,2) by (simp flip: power_Suc add: Suc_diff_le)
    then have "unat b div 2 ^ (8 - n) = 1" using assms(3,4) by (intro div_nat_eqI) simp_all
    then show ?thesis using bit [of "8 - n"] assms(1) by simp
  qed
  have "n = 1 \<or> n = 2 \<or> n = 3 \<or> n = 4 \<or> n = 5 \<or> n = 6 \<or> n = 7 \<or> n = 8" using assms(1,2) by linarith
  then show ?thesis
    using zero [of 7] zero [of 6] zero [of 5] zero [of 4] zero [of 3] zero [of 2] zero [of 1] one
    by (elim disjE) (simp_all add: readSize_def byte_bit_tests)
qed

lemma writeSize_bounds:
  assumes "writeSize v = n" "n \<noteq> 0"
  shows "1 \<le> n" "n \<le> 8" "unat v < 2 ^ (7 * n) - 1"
  using assms by (auto simp: writeSize_def word_le_nat_alt split: if_splits)

lemma be_bytes_ucast:
  assumes "8 * n \<le> LENGTH('b)"
  shows "be_bytes n (ucast (v :: 'a::len word) :: 'b::len word) = be_bytes n v"
proof -
  have "(ucast (drop_bit (8 * i) (ucast v :: 'b word)) :: byte) = ucast (drop_bit (8 * i) v)" if "i < n" for i
    using that assms by (intro bit_word_eqI) (auto simp: bit_simps)
  then show ?thesis by (simp add: be_bytes_def)
qed

lemma be_val_ucast:
  assumes "8 * n \<le> LENGTH('b)"
  shows "(ucast (be_val (be_bytes n (v :: 'a::len word)) :: 'b::len word) :: 'a word) = take_bit (8 * n) v"
proof -
  have "(be_val (be_bytes n v) :: 'b word) = take_bit (8 * n) (ucast v)"
  proof -
    have "be_bytes n v = be_bytes n (ucast v :: 'b word)" by (rule be_bytes_ucast [OF assms, symmetric])
    then show ?thesis by (simp only: be_val_be_bytes_take)
  qed
  moreover have "(ucast (take_bit (8 * n) (ucast v :: 'b word)) :: 'a word) = take_bit (8 * n) v"
    using assms by (intro bit_word_eqI) (auto simp: bit_simps)
  ultimately show ?thesis by (simp only:)
qed

definition marked :: "nat \<Rightarrow> u64 \<Rightarrow> u64" where
  "marked n v = v OR push_bit (7 * n) 1"

definition uni :: "u64 \<Rightarrow> bytes" where
  "uni v = (if writeSize v = 0 then [0xFF] else be_bytes (writeSize v) (marked (writeSize v) v))"

lemma unat_marked:
  assumes "1 \<le> n" "n \<le> 8" "unat v < 2 ^ (7 * n)"
  shows "unat (marked n v) = unat v + 2 ^ (7 * n)"
proof -
  have "unat (push_bit (7 * n) (1 :: u64)) = 2 ^ (7 * n)"
  proof -
    have "n = 1 \<or> n = 2 \<or> n = 3 \<or> n = 4 \<or> n = 5 \<or> n = 6 \<or> n = 7 \<or> n = 8" using assms(1,2) by linarith
    then show ?thesis by (elim disjE) simp_all
  qed
  then show ?thesis using or_shift [OF assms(3), of 1] by (simp add: marked_def unsigned_or_eq push_bit_eq_mult)
qed

lemma length_uni: "length (uni v) = (if writeSize v = 0 then 1 else writeSize v)"
  by (simp add: uni_def)

lemma hd_be_bytes: "be_bytes (Suc k) v = ucast (drop_bit (8 * k) v) # be_bytes k v"
  by (simp add: be_bytes_def)

lemma readSize_uni: "readSize (uni v @ r) = Some (length (uni v))"
proof (cases "writeSize v = 0")
  case True
  then show ?thesis by (simp add: uni_def readSize_def)
next
  case False
  let ?n = "writeSize v"
  note b = writeSize_bounds [OF refl False]
  obtain k where k: "?n = Suc k" using False by (cases ?n) auto
  let ?w = "marked ?n v"
  have w: "unat ?w = unat v + 2 ^ (7 * ?n)" using b by (intro unat_marked) auto
  let ?b = "ucast (drop_bit (8 * k) ?w) :: byte"
  have lo: "2 ^ (8 - ?n) * 2 ^ (8 * k) \<le> unat ?w" "unat ?w < 2 ^ (9 - ?n) * 2 ^ (8 * k)"
  proof -
    have "(2 :: nat) ^ (8 - ?n) * 2 ^ (8 * k) = 2 ^ (7 * ?n)" using b(1,2) k by (simp flip: power_add)
    then show "2 ^ (8 - ?n) * 2 ^ (8 * k) \<le> unat ?w" using w by simp
    have "(2 :: nat) ^ (9 - ?n) * 2 ^ (8 * k) = 2 * 2 ^ (7 * ?n)" using b(1,2) k by (simp flip: power_add power_Suc)
    then show "unat ?w < 2 ^ (9 - ?n) * 2 ^ (8 * k)" using w b(3) by simp
  qed
  have d: "unat (drop_bit (8 * k) ?w) = unat ?w div 2 ^ (8 * k)" 
  proof -
    have "unat (drop_bit (8 * k) ?w) = drop_bit (8 * k) (unat ?w)" 
      using unsigned_less [of ?w, where ?'a = nat] by (simp add: unsigned_drop_bit_eq take_bit_nat_eq_self)
    then show ?thesis by (simp only: drop_bit_eq_div)
  qed
  have u: "2 ^ (8 - ?n) \<le> unat ?w div 2 ^ (8 * k)" "unat ?w div 2 ^ (8 * k) < 2 ^ (9 - ?n)"
    using lo by (simp_all add: less_eq_div_iff_mult_less_eq less_mult_imp_div_less)
  have "(2 :: nat) ^ (9 - ?n) \<le> 2 ^ 8" using b(1) by (intro power_increasing) auto
  then have "unat ?b = unat ?w div 2 ^ (8 * k)" using d u(2) by (simp add: unsigned_ucast_eq take_bit_nat_eq_self)
  then have "readSize (?b # be_bytes k ?w @ r) = Some ?n" using u b(1,2) by (intro readSize_marker) (simp_all only:)
  then show ?thesis using False k by (simp add: uni_def hd_be_bytes)
qed

lemma marked_low:
  assumes "1 \<le> n" "n \<le> 8" "unat v < 2 ^ (7 * n)"
  shows "take_bit (8 * n) (marked n v) = marked n v" "take_bit (7 * n) (marked n v) = v"
proof -
  have "unat (marked n v) < 2 ^ (8 * n)"
  proof -
    have "(2 :: nat) ^ (7 * n + 1) \<le> 2 ^ (8 * n)" using assms(1) by (intro power_increasing) auto
    then show ?thesis using unat_marked [OF assms] assms(3) by simp
  qed
  then show "take_bit (8 * n) (marked n v) = marked n v"
    by (simp add: word_unat_eq_iff unsigned_take_bit_eq take_bit_nat_eq_self)
  have "unat (take_bit (7 * n) (marked n v)) = unat v"
    using assms(3) by (simp only: unsigned_take_bit_eq unat_marked [OF assms]) (simp add: take_bit_eq_mod)
  then show "take_bit (7 * n) (marked n v) = v" by (simp add: word_unat_eq_iff)
qed

lemma size_cases:
  assumes "1 \<le> n" "n \<le> (8 :: nat)"
  shows "n = 1 \<or> n = 2 \<or> n = 3 \<or> n = 4 \<or> n = 5 \<or> n = 6 \<or> n = 7 \<or> n = 8"
  using assms by linarith

lemma writeInt_uni:
  assumes "writeSize v \<noteq> 0"
  shows "writeInt tmp8 v = wrn tmp8 0 (uni v)"
proof -
  note b = writeSize_bounds [OF refl assms]
  show ?thesis
    using size_cases [OF b(1,2)]
    by (elim disjE) (simp_all add: writeInt_def uni_def marked_def codec_eqs be_bytes_ucast be_bytes_Suc)
qed

lemma readInt_uni:
  "readInt (uni v @ r) = Some (if writeSize v = 0 then 0xFFFFFFFFFFFFFFFF else v)"
proof (cases "writeSize v = 0")
  case True
  then show ?thesis by (simp add: uni_def readInt_def readSize_def)
next
  case False
  let ?n = "writeSize v" and ?w = "marked (writeSize v) v"
  note b = writeSize_bounds [OF refl False]
  have m: "take_bit (8 * ?n) ?w = ?w" "take_bit (7 * ?n) ?w = v" using b by (auto intro!: marked_low)
  have s: "readSize (uni v @ r) = Some ?n" using readSize_uni [of v r] False by (simp add: length_uni)
  have u: "uni v = be_bytes ?n ?w" using False by (simp add: uni_def)
  have d: "rdn (uni v @ r) 0 ?n = Some (be_bytes ?n ?w)" by (simp add: u rdn_def)
  have val: "(be_val (be_bytes ?n ?w) :: u64) = ?w" using m(1) by (simp add: be_val_be_bytes)
  note low = val m take_bit_eq_mask mask_eq_exp_minus_1
  have c: "ucast (be_val (be_bytes ?n ?w) :: u16) = ?w" if "?n = 2" using be_val_ucast [of ?n ?w, where 'b = 16] that m(1) by simp
  have c': "ucast (be_val (be_bytes ?n ?w) :: u32) = ?w" if "?n = 4" using be_val_ucast [of ?n ?w, where 'b = 32] that m(1) by simp
  have mask: "?w AND (2 ^ (7 * ?n) - 1) = v" using m(2) by (simp only: take_bit_eq_mask mask_eq_exp_minus_1)
  show ?thesis
  proof (cases "?n = 1")
    case True
    then have w: "uni v = [ucast ?w]" using u by (simp add: be_bytes_def)
    have "unat ?w = unat v + 128" "unat v < 127" using unat_marked [of ?n v] b True by simp_all
    then have "unat (ucast ?w :: byte) = unat v + 128" by (simp add: unsigned_ucast_eq take_bit_nat_eq_self)
    then have "(ucast ?w :: byte) \<noteq> 0xFF" using \<open>unat v < 127\<close> by (auto simp: word_unat_eq_iff)
    moreover have "(0x7F :: byte) = mask 7" by (simp add: mask_eq_exp_minus_1)
    then have "ucast ((ucast ?w :: byte) AND 0x7F) = take_bit 7 ?w"
      by (simp only: take_bit_eq_mask [symmetric]) (rule bit_word_eqI, auto simp: bit_simps)
    ultimately show ?thesis using s True m(2) w by (simp add: readInt_def)
  next
    case False
    then have "?n = 2 \<or> ?n = 3 \<or> ?n = 4 \<or> ?n = 5 \<or> ?n = 6 \<or> ?n = 7 \<or> ?n = 8" using size_cases [OF b(1,2)] by blast
    then show ?thesis using s d c c' val mask
      by (elim disjE) (simp_all add: readInt_def codec_eqs)
  qed
qed

lemma appendUniInt_uni: "appendUniInt buffer v = Some (buffer @ uni v)" "sendUniInt buffer v = Some (buffer @ uni v)"
proof -
  have "writeSize v \<noteq> 0 \<Longrightarrow> rdn (take 0 tmp8 @ uni v @ drop (length (uni v)) tmp8) 0 (writeSize v) = Some (uni v)"
    by (simp add: rdn_def length_uni)
  moreover have "writeSize v \<noteq> 0 \<Longrightarrow> length (uni v) \<le> length tmp8"
    using writeSize_bounds [of v, OF refl] by (simp add: length_uni tmp8_def)
  ultimately show "appendUniInt buffer v = Some (buffer @ uni v)" "sendUniInt buffer v = Some (buffer @ uni v)"
    by (auto simp: appendUniInt_def sendUniInt_def writeInt_uni wrn_def uni_def Let_def)
qed

section \<open>Elements\<close>

lemma head_uni: "appendElemHead buffer i n = Some (buffer @ uni (ucast i) @ uni n)" "sendElemHead buffer i n = Some (buffer @ uni (ucast i) @ uni n)"
  by (simp_all add: appendElemHead_def sendElemHead_def appendUniInt_uni)

lemma writeSize_0: "writeSize v = 0 \<longleftrightarrow> 0xFFFFFFFFFFFFFE < v"
proof
  assume "0xFFFFFFFFFFFFFE < v"
  then have g: "\<not> v \<le> k" if "k \<le> 0xFFFFFFFFFFFFFE" for k using that by (meson leD order_trans)
  show "writeSize v = 0" by (simp add: writeSize_def g)
qed (auto simp: writeSize_def not_le split: if_splits)

lemma id_size: "writeSize (ucast (i :: u32)) \<noteq> 0"
proof -
  have "unat i < 2 ^ 32" using unsigned_less [of i, where ?'a = nat] by simp
  then have "unat (ucast i :: u64) < 2 ^ 32" by (simp add: unsigned_ucast_eq take_bit_nat_eq_self)
  then show ?thesis by (simp add: writeSize_0 word_less_nat_alt)
qed

lemma uni_not_Nil: "0 < length (uni v)" "length (uni v) \<le> 8"
  using writeSize_bounds [of v, OF refl] by (auto simp: length_uni)

text \<open>An element whose size is known.\<close>

lemma element_head:
  assumes "n \<le> 0xFFFFFFFFFFFFFE" and e: "edata e = uni (ucast i) @ uni n @ r"
  shows "getID e = Some i" "getPayloadLen e = Some n" "getHeaderLen e = Some (length (uni (ucast i)) + length (uni n))"
    "getPayload e = Some r" "getOuterLen e = Some (n + of_nat (length (uni (ucast i))) + of_nat (length (uni n)))"
proof -
  have n: "writeSize n \<noteq> 0" "n \<noteq> 0xFFFFFFFFFFFFFFFF" using assms(1) by (auto simp: writeSize_0)
  note u = readSize_uni readInt_uni
  have "ucast (ucast i :: u64) = i" by (rule bit_word_eqI) (auto simp: bit_simps)
  then show "getID e = Some i" using id_size [of i] by (simp add: getID_def e u)
  show "getPayloadLen e = Some n" using n by (simp add: getPayloadLen_def e u)
  show h: "getHeaderLen e = Some (length (uni (ucast i)) + length (uni n))" by (simp add: getHeaderLen_def e u)
  show "getPayload e = Some r" by (simp add: getPayload_def h e)
  show "getOuterLen e = Some (n + of_nat (length (uni (ucast i))) + of_nat (length (uni n)))" using n by (simp add: getOuterLen_def e u)
qed

datatype tree = Branch u32 "tree list" | Leaf u32 bytes

definition elem_head :: "u32 \<Rightarrow> nat \<Rightarrow> bytes" where
  "elem_head i n = (case appendElemHead [] i (of_nat n) of Some h \<Rightarrow> h | None \<Rightarrow> [])"

fun tree_bytes :: "tree \<Rightarrow> bytes" and trees_bytes :: "tree list \<Rightarrow> bytes" where
  "tree_bytes (Leaf i b) = elem_head i (length b) @ b"
| "tree_bytes (Branch i ts) = elem_head i (length (trees_bytes ts)) @ trees_bytes ts"
| "trees_bytes [] = []"
| "trees_bytes (t # ts) = tree_bytes t @ trees_bytes ts"

definition max_size :: nat where
  "max_size = 0xFFFFFFFFFFFFFE"

fun tree_ok :: "tree \<Rightarrow> bool" and trees_ok :: "tree list \<Rightarrow> bool" where
  "tree_ok (Leaf i b) = (elem_type i \<noteq> ELEM_MASTER \<and> length b \<le> max_size)"
| "tree_ok (Branch i ts) = (elem_type i = ELEM_MASTER \<and> length (trees_bytes ts) \<le> max_size \<and> trees_ok ts)"
| "trees_ok [] = True"
| "trees_ok (t # ts) = (tree_ok t \<and> trees_ok ts)"

fun tree_find :: "u32 \<Rightarrow> tree \<Rightarrow> tree option" and trees_find :: "u32 \<Rightarrow> tree list \<Rightarrow> tree option" where
  "tree_find j (Leaf i b) = (if i = j then Some (Leaf i b) else None)"
| "tree_find j (Branch i ts) = (if i = j then Some (Branch i ts) else trees_find j ts)"
| "trees_find j [] = None"
| "trees_find j (t # ts) = (case tree_find j t of Some s \<Rightarrow> Some s | None \<Rightarrow> trees_find j ts)"

lemma elem_head_uni: "elem_head i n = uni (ucast i) @ uni (of_nat n)"
  by (simp add: elem_head_def head_uni)

lemma max_of_nat: "n \<le> max_size \<Longrightarrow> (of_nat n :: u64) \<le> 0xFFFFFFFFFFFFFE"
  by (simp add: max_size_def word_le_nat_alt unat_of_nat)

lemma tree_shape: "tree_ok t \<Longrightarrow> \<exists>i b. tree_bytes t = uni (ucast (i :: u32)) @ uni (of_nat (length b)) @ b \<and> length b \<le> max_size"
  by (cases t) (force simp: elem_head_uni)+

lemma tree_outer:
  assumes "tree_ok t"
  shows "getOuterLen (Element (tree_bytes t @ r) False) = Some (of_nat (length (tree_bytes t)))" "length (tree_bytes t) < 2 ^ 63" "2 \<le> length (tree_bytes t)"
proof -
  obtain i :: u32 and b where t: "tree_bytes t = uni (ucast i) @ uni (of_nat (length b)) @ b" "length b \<le> max_size" using tree_shape [OF assms] by blast
  then show "getOuterLen (Element (tree_bytes t @ r) False) = Some (of_nat (length (tree_bytes t)))"
    using element_head(5) [OF max_of_nat [OF t(2)], of "Element (tree_bytes t @ r) False" i "b @ r"] by (simp add: Element_def algebra_simps)
  show "length (tree_bytes t) < 2 ^ 63" "2 \<le> length (tree_bytes t)"
    using t uni_not_Nil [of "ucast i"] uni_not_Nil [of "of_nat (length b)"]
    by (simp_all add: max_size_def del: length_greater_0_conv)
qed

lemma tree_needed:
  assumes "tree_ok t" "length (tree_bytes t) \<le> a" "a < 2 ^ 64"
  shows "needBytes (tree_bytes t @ r) (of_nat a) False = Some (of_nat (length (tree_bytes t)))"
proof -
  obtain i :: u32 and b where t: "tree_bytes t = uni (ucast i) @ uni (of_nat (length b)) @ b" "length b \<le> max_size" using tree_shape [OF assms(1)] by blast
  let ?n = "length (uni (ucast i))" and ?m = "length (uni (of_nat (length b)))"
  note u = uni_not_Nil [of "ucast i"] uni_not_Nil [of "of_nat (length b)"]
  have a: "?n + ?m + length b \<le> a" using assms(2) t(1) by simp
  have lt: "(of_nat a :: u64) < of_nat k \<longleftrightarrow> a < k" if "k < 2 ^ 64" for k
    using that assms(3) by (simp add: word_less_nat_alt unat_of_nat)
  have "\<not> (of_nat a :: u64) < 2" using lt [of 2] a u by simp
  moreover have "\<not> (of_nat a :: u64) < of_nat ?n + 1" using lt [of "?n + 1"] a u by (simp add: add.commute)
  moreover have "\<not> (of_nat a :: u64) < of_nat ?n + of_nat ?m" using lt [of "?n + ?m"] a u by simp
  moreover have "readInt (uni (of_nat (length b)) @ b @ r) = Some (of_nat (length b))" "(of_nat (length b) :: u64) \<noteq> 0xFFFFFFFFFFFFFFFF"
    using max_of_nat [OF t(2)] by (auto simp: readInt_uni writeSize_0)
  ultimately show ?thesis
    by (simp add: needBytes_def t(1) readSize_uni Let_def)
qed


lemma find_tree:
  "tree_ok t \<Longrightarrow> \<exists>f. findChild j (Element (tree_bytes t @ r) False) = Some f \<and>
     (case tree_find j t of None \<Rightarrow> f = None | Some s \<Rightarrow> \<exists>q. f = Some (Element (tree_bytes s @ q) False))"
  "trees_ok ts \<Longrightarrow> length pre + length (trees_bytes ts) \<le> max_size \<Longrightarrow>
    \<exists>f. find_among j (pre @ trees_bytes ts @ r) (length pre + length (trees_bytes ts)) (length pre) = Some f \<and>
     (case trees_find j ts of None \<Rightarrow> f = None | Some s \<Rightarrow> \<exists>q. f = Some (Element (tree_bytes s @ q) False))"
proof (induction j t and j ts arbitrary: r and pre r rule: tree_find_trees_find.induct)
  case (1 j i b)
  let ?e = "Element (tree_bytes (Leaf i b) @ r) False"
  have "getID ?e = Some i"
    using 1 by (intro element_head(1) [OF max_of_nat]) (auto simp: Element_def elem_head_uni)
  then show ?case using 1 by (subst findChild.simps) (auto simp: getType_def)
next
  case (2 j i ts)
  let ?e = "Element (tree_bytes (Branch i ts) @ r) False"
  have n: "length (trees_bytes ts) \<le> max_size" using 2(2) by simp
  have e: "edata ?e = uni (ucast i) @ uni (of_nat (length (trees_bytes ts))) @ (trees_bytes ts @ r)" by (simp add: Element_def elem_head_uni)
  note h = element_head [OF max_of_nat [OF n] e]
  have l: "unat (of_nat (length (trees_bytes ts)) :: u64) = length (trees_bytes ts)" using n by (simp add: unat_of_nat max_size_def)
  show ?case
  proof (cases "i = j")
    case True
    then show ?thesis using h(1) by (subst findChild.simps) auto
  next
    case False
    obtain f where f: "find_among j (trees_bytes ts @ r) (length (trees_bytes ts)) 0 = Some f"
      "case trees_find j ts of None \<Rightarrow> f = None | Some s \<Rightarrow> \<exists>q. f = Some (Element (tree_bytes s @ q) False)"
      using 2(1) [OF False, of "[]" r] 2(2) n by auto
    have "\<not> minimalMode ?e" by (simp add: Element_def)
    then have "findChild j ?e = Some f" using h f(1) False 2(2) l by (subst findChild.simps) (simp add: getType_def)
    then show ?thesis using f(2) False by auto
  qed
next
  case (3 j)
  then show ?case by (subst find_among.simps) simp
next
  case (4 j t ts)
  let ?p = "pre @ tree_bytes t @ trees_bytes ts @ r" and ?n = "length pre + (length (tree_bytes t) + length (trees_bytes ts))"
  have t: "tree_ok t" "trees_ok ts" using 4(3) by auto
  note o = tree_outer(1) [OF t(1), of "trees_bytes ts @ r"] tree_outer(2,3) [OF t(1)]
  have d: "drop (length pre) ?p = tree_bytes t @ (trees_bytes ts @ r)" by simp
  obtain f where f: "findChild j (Element (tree_bytes t @ (trees_bytes ts @ r)) False) = Some f"
    "case tree_find j t of None \<Rightarrow> f = None | Some s \<Rightarrow> \<exists>q. f = Some (Element (tree_bytes s @ q) False)"
    using 4(1) [OF t(1)] by blast
  have a: "?n - length pre = length (tree_bytes t) + length (trees_bytes ts)" by simp
  have a64: "length (tree_bytes t) + length (trees_bytes ts) < 2 ^ 64" using 4(4) by (simp add: max_size_def)
  have need: "needBytes (tree_bytes t @ (trees_bytes ts @ r)) (of_nat (?n - length pre)) False = Some (of_nat (length (tree_bytes t)))"
    unfolding a using tree_needed [OF t(1) _ a64] by simp
  have le: "\<not> (of_nat (?n - length pre) :: u64) < of_nat (length (tree_bytes t))"
    unfolding a using a64 by (simp add: word_less_nat_alt unat_of_nat del: of_nat_add)
  have l: "unat (of_nat (length (tree_bytes t)) :: u64) = length (tree_bytes t)" using o(2) by (simp add: unat_of_nat)
  show ?case
  proof (cases "tree_find j t")
    case None
    obtain g where g: "find_among j ((pre @ tree_bytes t) @ trees_bytes ts @ r) (length (pre @ tree_bytes t) + length (trees_bytes ts)) (length (pre @ tree_bytes t)) = Some g"
      "case trees_find j ts of None \<Rightarrow> g = None | Some s \<Rightarrow> \<exists>q. g = Some (Element (tree_bytes s @ q) False)"
      using 4(2) [OF None t(2), of "pre @ tree_bytes t" r] 4(4) by auto
    have "find_among j ?p ?n (length pre) = Some g"
      using f need le o g(1) None l by (subst find_among.simps) (auto simp: d add.assoc)
    then show ?thesis using g(2) None by auto
  next
    case (Some s)
    then obtain q where q: "f = Some (Element (tree_bytes s @ q) False)" using f(2) by auto
    then have "find_among j ?p ?n (length pre) = Some f"
      using f(1) need le o(3) by (subst find_among.simps) (auto simp: d)
    then show ?thesis using Some q by auto
  qed
qed

section \<open>Values\<close>

lemma put_num_bytes:
  assumes "1 \<le> n" "n \<le> 8"
  shows "put_num n v = Some (be_bytes n v)"
  using size_cases [OF assms]
  by (elim disjE) (simp_all add: put_num_def codec_eqs wrn_def tmp8_def rdn_def be_bytes_ucast be_bytes_Suc)

lemma sizeUInt_bounds: "1 \<le> sizeUInt v" "sizeUInt v \<le> 8" "take_bit (8 * sizeUInt v) v = v"
proof -
  show "1 \<le> sizeUInt v" "sizeUInt v \<le> 8" by (auto simp: sizeUInt_def)
  have "unat v < 2 ^ (8 * sizeUInt v)"
    using unsigned_less [of v, where ?'a = nat] by (auto simp: sizeUInt_def not_le word_less_nat_alt)
  then have "unat (take_bit (8 * sizeUInt v) v) = unat v"
    by (simp only: unsigned_take_bit_eq) (simp add: take_bit_nat_eq_self)
  then show "take_bit (8 * sizeUInt v) v = v" by (simp add: word_unat_eq_iff)
qed

definition uint_leaf :: "u32 \<Rightarrow> u64 \<Rightarrow> tree" where
  "uint_leaf i v = Leaf i (be_bytes (sizeUInt v) v)"

lemma send_uint: "sendElemUInt C i v = Some (C @ tree_bytes (uint_leaf i v))" "appendElemUInt C i v = Some (C @ tree_bytes (uint_leaf i v))"
  using sizeUInt_bounds [of v] by (simp_all add: sendElemUInt_def appendElemUInt_def put_num_bytes head_uni uint_leaf_def elem_head_uni Let_def)

lemma small_size: "n \<le> 8 \<Longrightarrow> (of_nat n :: u64) \<le> 0xFFFFFFFFFFFFFE"
  by (rule max_of_nat) (simp add: max_size_def)

lemma sizeElemHead_tree: "sizeElemHead i (of_nat n) = of_nat (length (elem_head i n))"
  using id_size [of i] by (simp add: sizeElemHead_def elem_head_uni length_uni Let_def)

lemma size_uint: "sizeElemUInt i v = of_nat (length (tree_bytes (uint_leaf i v)))"
  by (simp add: sizeElemUInt_def uint_leaf_def sizeElemHead_tree Let_def)

lemma be_val_ucast_up:
  assumes "8 * n \<le> LENGTH('b)" "take_bit (8 * n) v = v"
  shows "(ucast (be_val (be_bytes n (v :: u64)) :: 'b::len word) :: u64) = v"
  using be_val_ucast [OF assms(1), of v] assms(2) by simp

lemma getValUInt_leaf: "getValUInt (Element (tree_bytes (uint_leaf i v) @ r) m) = Some v"
proof -
  let ?n = "sizeUInt v" and ?e = "Element (tree_bytes (uint_leaf i v) @ r) m"
  note b = sizeUInt_bounds [of v]
  have e: "edata ?e = uni (ucast i) @ uni (of_nat ?n) @ (be_bytes ?n v @ r)" by (simp add: Element_def uint_leaf_def elem_head_uni)
  note h = element_head [OF small_size [OF b(2)] e]
  have d: "rdn (be_bytes ?n v @ r) 0 ?n = Some (be_bytes ?n v)" by (simp add: rdn_def)
  have val: "(be_val (be_bytes ?n v) :: u64) = v" using b(3) by (simp add: be_val_be_bytes)
  have c2: "ucast (be_val (be_bytes ?n v) :: u16) = v" if "?n = 2" using be_val_ucast_up [of ?n v, where 'b = 16] that b(3) by simp
  have c4: "ucast (be_val (be_bytes ?n v) :: u32) = v" if "?n = 4" using be_val_ucast_up [of ?n v, where 'b = 32] that b(3) by simp
  have c1: "rd (be_bytes ?n v @ r) 0 = Some (ucast v)" "ucast (ucast v :: byte) = v" if "?n = 1"
  proof -
    show "rd (be_bytes ?n v @ r) 0 = Some (ucast v)" using that by (simp add: be_bytes_def)
    have "ucast (ucast v :: byte) = take_bit 8 v" by (rule bit_word_eqI) (auto simp: bit_simps)
    then show "ucast (ucast v :: byte) = v" using b(3) that by simp
  qed
  show ?thesis using size_cases [OF b(1,2)] h(2,4) d val c1 c2 c4
    by (elim disjE) (simp_all add: getValUInt_def codec_eqs)
qed

lemma uint_leaf_ok: "i \<in> set uint_ids \<Longrightarrow> tree_ok (uint_leaf i v)"
proof -
  have "set master_ids \<inter> set uint_ids = {}" by (simp add: master_ids_def uint_ids_def)
  moreover assume "i \<in> set uint_ids"
  ultimately have "elem_type i = ELEM_UINT" by (auto simp: elem_type_def)
  then show ?thesis using sizeUInt_bounds [of v] by (simp add: uint_leaf_def max_size_def)
qed

lemma uint_leaf_length: "length (tree_bytes (uint_leaf i v)) \<le> 24"
  using sizeUInt_bounds [of v] uni_not_Nil [of "ucast i"] uni_not_Nil [of "of_nat (sizeUInt v)"]
  by (simp add: uint_leaf_def elem_head_uni)

end
