(* ===== verification/EbmlFiles.thy ===== *)
theory EbmlFiles
  imports EbmlProps
begin

text \<open>
  What the writer of EBML sends as trees of elements: the head of a file, cue points, simple blocks; and the properties of
  \<open>findChild\<close>, of what is written and read again, and of the signed numbers that are not.
\<close>

section \<open>Elements of Matroska\<close>

lemma ucast_small: "n < 2 ^ 32 \<Longrightarrow> (ucast (of_nat n :: u32) :: u64) = of_nat n"
  by (simp add: word_unat_eq_iff unsigned_ucast_eq unat_of_nat take_bit_nat_eq_self)

lemma send_head: "sendElemHead C i (of_nat n) = Some (C @ elem_head i n)"
  by (simp add: head_uni elem_head_uni)

lemma ebml_size_element: "length b = n \<Longrightarrow> of_nat n + sizeElemHead i (of_nat n) = (of_nat (length (elem_head i n @ b)) :: u32)"
  by (simp add: sizeElemHead_tree)

lemma elem_head_length: "length (elem_head i n) \<le> 16"
  using uni_not_Nil [of "ucast i"] uni_not_Nil [of "of_nat n"] by (simp add: elem_head_uni)

definition cue_tree :: "u64 \<Rightarrow> u64 \<Rightarrow> u64 \<Rightarrow> u64 \<Rightarrow> tree" where
  "cue_tree time track clusterPos relaPos =
     Branch 0x3B [uint_leaf 0x33 time, Branch 0x37 [uint_leaf 0x77 track, uint_leaf 0x71 clusterPos, uint_leaf 0x70 relaPos]]"

lemma cue_point_tree:
  "sendElemCuePoint C time track clusterPos relaPos = Some (C @ tree_bytes (cue_tree time track clusterPos relaPos))"
  "sizeElemCuePoint time track clusterPos relaPos = of_nat (length (tree_bytes (cue_tree time track clusterPos relaPos)))"
proof -
  let ?A = "trees_bytes [uint_leaf 0x77 track, uint_leaf 0x71 clusterPos, uint_leaf 0x70 relaPos]"
  let ?T = "tree_bytes (uint_leaf 0x33 time)"
  let ?B = "trees_bytes [uint_leaf 0x33 time, Branch 0x37 [uint_leaf 0x77 track, uint_leaf 0x71 clusterPos, uint_leaf 0x70 relaPos]]"
  have A: "length ?A \<le> 72" using uint_leaf_length [of "0x77" track] uint_leaf_length [of "0x71" clusterPos] uint_leaf_length [of "0x70" relaPos] by simp
  have B: "length ?B \<le> 112" using A uint_leaf_length [of "0x33" time] elem_head_length [of "0x37" "length ?A"] by simp
  have a: "sizeElemUInt 0x77 track + sizeElemUInt 0x71 clusterPos + sizeElemUInt 0x70 relaPos = of_nat (length ?A)"
    by (simp add: size_uint)
  have a': "(ucast (of_nat (length ?A) :: u32) :: u64) = of_nat (length ?A)" using A by (intro ucast_small) simp
  have h: "sizeElemHead 0x37 (of_nat (length ?A)) = of_nat (length (elem_head 0x37 (length ?A)))" by (rule sizeElemHead_tree)
  have b: "of_nat (length ?A) + sizeElemUInt 0x33 time + of_nat (length (elem_head 0x37 (length ?A))) = (of_nat (length ?B) :: u32)"
    by (simp add: size_uint)
  have b': "(ucast (of_nat (length ?B) :: u32) :: u64) = of_nat (length ?B)" using B by (intro ucast_small) simp
  have b2: "of_nat (length ?A) + of_nat (length (elem_head 0x37 (length ?A))) + sizeElemUInt 0x33 time = (of_nat (length ?B) :: u32)"
    by (simp add: size_uint)
  show "sendElemCuePoint C time track clusterPos relaPos = Some (C @ tree_bytes (cue_tree time track clusterPos relaPos))"
    unfolding sendElemCuePoint_def Let_def a a' h b b' send_head send_uint Option.bind.simps by (simp add: cue_tree_def)
  show "sizeElemCuePoint time track clusterPos relaPos = of_nat (length (tree_bytes (cue_tree time track clusterPos relaPos)))"
    unfolding sizeElemCuePoint_def Let_def a a' h b2 b' sizeElemHead_tree by (simp add: cue_tree_def)
qed

lemma cue_tree_ok: "tree_ok (cue_tree time track clusterPos relaPos)"
proof -
  have i: "(0x33 :: u32) \<in> set uint_ids" "(0x77 :: u32) \<in> set uint_ids" "(0x71 :: u32) \<in> set uint_ids" "(0x70 :: u32) \<in> set uint_ids"
    by (simp_all add: uint_ids_def)
  have m: "elem_type 0x3B = ELEM_MASTER" "elem_type 0x37 = ELEM_MASTER" by (simp_all add: elem_type_def master_ids_def)
  show ?thesis
    using i [THEN uint_leaf_ok] m uint_leaf_length [of "0x77" track] uint_leaf_length [of "0x71" clusterPos]
      uint_leaf_length [of "0x70" relaPos] uint_leaf_length [of "0x33" time]
      elem_head_length [of "0x37" "length (trees_bytes [uint_leaf 0x77 track, uint_leaf 0x71 clusterPos, uint_leaf 0x70 relaPos])"]
    by (simp add: cue_tree_def max_size_def)
qed

definition ebml_tree :: "bytes \<Rightarrow> tree" where
  "ebml_tree doctype = Branch 0x0A45DFA3 [uint_leaf 0x286 1, uint_leaf 0x2F7 1, uint_leaf 0x2F2 4, uint_leaf 0x2F3 8, Leaf 0x282 doctype,
     uint_leaf 0x287 (if doctype = str ''matroska'' then 4 else 1), uint_leaf 0x285 1]"


lemma ebml_head_tree:
  assumes "length doctype \<le> 0x7E"
  shows "sendElemEBML C doctype = Some (C @ tree_bytes (ebml_tree doctype))"
    "sizeElemEBML doctype = of_nat (length (tree_bytes (ebml_tree doctype)))" "tree_ok (ebml_tree doctype)"
proof -
  have d: "length (uni (of_nat (length doctype))) = 1"
  proof -
    have "(of_nat (length doctype) :: u64) \<le> 0x7E" using assms by (simp add: word_le_nat_alt unat_of_nat)
    then show ?thesis by (simp add: length_uni writeSize_def)
  qed
  have u: "length (tree_bytes (uint_leaf i v)) = 4" if "i \<in> {0x286, 0x2F7, 0x2F2, 0x2F3, 0x287, 0x285}" "v \<in> {1, 4, 8}" for i v
  proof -
    have "writeSize (ucast i) = 2" using that(1) by (auto simp: writeSize_def)
    moreover have "sizeUInt v = 1" using that(2) by (auto simp: sizeUInt_def word_le_nat_alt)
    moreover have "writeSize 1 = 1" by (simp add: writeSize_def)
    ultimately show ?thesis by (simp add: uint_leaf_def elem_head_uni length_uni)
  qed
  have h: "length (elem_head 0x282 (length doctype)) = 3" using d by (simp add: elem_head_uni length_uni writeSize_def)
  let ?ts = "[uint_leaf 0x286 1, uint_leaf 0x2F7 1, uint_leaf 0x2F2 4, uint_leaf 0x2F3 8, Leaf 0x282 doctype,
     uint_leaf 0x287 (if doctype = str ''matroska'' then 4 else 1), uint_leaf 0x285 1]"
  have n: "length (trees_bytes ?ts) = 27 + length doctype" using u h by simp
  have s: "sendElemStr C 0x282 doctype = Some (C @ tree_bytes (Leaf 0x282 doctype))" for C
    by (simp add: sendElemStr_def send_head)
  have "sendElemEBML C doctype = Some (C @ elem_head 0x0A45DFA3 (27 + length doctype) @ trees_bytes ?ts)"
    unfolding sendElemEBML_def send_head send_uint s Option.bind.simps by simp
  then show "sendElemEBML C doctype = Some (C @ tree_bytes (ebml_tree doctype))" using n by (simp only: ebml_tree_def tree_bytes.simps)
  show "sizeElemEBML doctype = of_nat (length (tree_bytes (ebml_tree doctype)))"
    using ebml_size_element [OF n, of "0x0A45DFA3"] by (simp only: sizeElemEBML_def ebml_tree_def tree_bytes.simps n)
  have "i \<in> {0x286, 0x2F7, 0x2F2, 0x2F3, 0x287, 0x285} \<Longrightarrow> tree_ok (uint_leaf i v)" for i v
    by (rule uint_leaf_ok) (auto simp: uint_ids_def)
  then have "trees_ok ?ts" using assms by (simp add: max_size_def elem_type_def master_ids_def uint_ids_def)
  moreover have "elem_type 0x0A45DFA3 = ELEM_MASTER" by (simp add: elem_type_def master_ids_def)
  ultimately show "tree_ok (ebml_tree doctype)" using n assms by (simp only: ebml_tree_def tree_ok.simps) (simp add: max_size_def)
qed

lemma trimmed_all: "last b \<noteq> 0 \<Longrightarrow> trimmed (b @ r) (length b) = Some (length b)"
  by (cases b rule: rev_cases) simp_all

lemma getValString_leaf:
  assumes "length b \<le> max_size" "b = [] \<or> last b \<noteq> 0"
  shows "getValString (Element (tree_bytes (Leaf i b) @ r) m) = Some b"
proof -
  let ?e = "Element (tree_bytes (Leaf i b) @ r) m"
  have e: "edata ?e = uni (ucast i) @ uni (of_nat (length b)) @ (b @ r)" by (simp add: Element_def elem_head_uni)
  note h = element_head [OF max_of_nat [OF assms(1)] e]
  have l: "unat (of_nat (length b) :: u64) = length b" using assms(1) by (simp add: unat_of_nat max_size_def)
  have "trimmed (b @ r) (length b) = Some (length b)" using assms(2) trimmed_all [of b r] by auto
  then show ?thesis using h(2,4) l by (simp add: getValString_def rdn_def)
qed

section \<open>Blocks\<close>

definition block_tree :: "bytes \<Rightarrow> u64 \<Rightarrow> u64 \<Rightarrow> bool \<Rightarrow> u64 \<Rightarrow> tree" where
  "block_tree d trackId time keyFrame clusterTime =
     Leaf 0x23 (uni trackId @ be_bytes 2 (ucast (time - clusterTime) :: u16) @ [if keyFrame then 0x80 else 0] @ d)"

lemma simple_block_tree:
  assumes "trackId \<le> 0xFFFFFFFFFFFFFE" "length d + 11 < 2 ^ 32"
  shows "sendSimpleBlock C d trackId time keyFrame clusterTime = Some (C @ tree_bytes (block_tree d trackId time keyFrame clusterTime))"
    "appendSimpleBlock C d trackId time keyFrame clusterTime = Some (C @ tree_bytes (block_tree d trackId time keyFrame clusterTime))"
    "sizeSimpleBlock trackId (of_nat (length d)) = of_nat (length (tree_bytes (block_tree d trackId time keyFrame clusterTime)))"
proof -
  have t: "writeSize trackId \<noteq> 0" using assms(1) by (simp add: writeSize_0)
  let ?n = "length (uni trackId) + 3 + length d"
  have n: "?n < 2 ^ 32" using uni_not_Nil [of trackId] assms(2) by simp
  have b: "(ucast (of_nat ?n :: u32) :: u64) = of_nat ?n" using n by (rule ucast_small)
  have s: "block_size trackId d = of_nat ?n" using t by (simp add: block_size_def length_uni)
  have h: "block_head time clusterTime keyFrame = Some (be_bytes 2 (ucast (time - clusterTime) :: u16) @ [if keyFrame then 0x80 else 0])"
    by (simp add: block_head_def htobs_eq wrn_def)
  have l: "length (uni trackId @ be_bytes 2 (ucast (time - clusterTime) :: u16) @ [if keyFrame then 0x80 else 0] @ d) = ?n" by simp
  show "sendSimpleBlock C d trackId time keyFrame clusterTime = Some (C @ tree_bytes (block_tree d trackId time keyFrame clusterTime))"
    "appendSimpleBlock C d trackId time keyFrame clusterTime = Some (C @ tree_bytes (block_tree d trackId time keyFrame clusterTime))"
    by (simp_all only: sendSimpleBlock_def appendSimpleBlock_def s b h head_uni appendUniInt_uni Option.bind.simps block_tree_def tree_bytes.simps elem_head_uni
      l append_assoc)
  have "sizeSimpleBlock trackId (of_nat (length d)) = of_nat ?n + sizeElemHead 0x23 (of_nat ?n)"
    using b s by (simp only: sizeSimpleBlock_def block_size_def Let_def)
  then show "sizeSimpleBlock trackId (of_nat (length d)) = of_nat (length (tree_bytes (block_tree d trackId time keyFrame clusterTime)))"
    using ebml_size_element [OF l, of "0x23"] by (simp only: block_tree_def tree_bytes.simps l)
qed

lemma block_read:
  fixes r d :: bytes and time clusterTime :: u64 and keyFrame m :: bool
  assumes "trackId \<le> 0xFFFFFFFFFFFFFE" "length d + 11 < 2 ^ 32"
  defines "e \<equiv> Element (tree_bytes (block_tree d trackId time keyFrame clusterTime) @ r) m"
  shows "getTrackNum e = Some trackId" "getTimecode e = Some (ucast (time - clusterTime))" "isKeyframe e = Some keyFrame"
    "isInvisible e = Some False" "isDiscardable e = Some False" "getFrameCount e = Some 1"
    "getFrameSize e no = Some (of_nat (length d))"
    "getFrameData e no = Some (Some (length (uni trackId) + 3))"
    "\<exists>p. getPayload e = Some p \<and> rdn p (length (uni trackId) + 3) (length d) = Some d"
proof -
  let ?x = "ucast (time - clusterTime) :: u16" and ?k = "length (uni trackId)" and ?f = "if keyFrame then 0x80 else 0 :: byte"
  let ?b = "uni trackId @ be_bytes 2 ?x @ [?f] @ d"
  let ?p = "uni trackId @ be_bytes 2 ?x @ [?f] @ d @ r"
  have t: "writeSize trackId \<noteq> 0" using assms(1) by (simp add: writeSize_0)
  have n: "length ?b \<le> max_size" using uni_not_Nil [of trackId] assms(2) by (simp add: max_size_def)
  have e: "edata e = uni (ucast (0x23 :: u32)) @ uni (of_nat (length ?b)) @ ?p" by (simp add: e_def Element_def block_tree_def elem_head_uni)
  note h = element_head [OF max_of_nat [OF n] e]
  have s: "readSize ?p = Some ?k" "readInt ?p = Some trackId" using t by (simp_all add: readSize_uni readInt_uni)
  show "getTrackNum e = Some trackId" using h(4) s(2) by (simp add: getTrackNum_def)
  have "rdn ?p ?k 2 = Some (be_bytes 2 ?x)" by (simp add: rdn_def)
  then show "getTimecode e = Some ?x" using h(4) s(1) by (simp add: getTimecode_def btohs_eq be_val_be_bytes take_bit_word_eq_self)
  have "rd (be_bytes 2 ?x @ [?f] @ d @ r) 2 = Some ?f" by (simp add: rd_def nth_append)
  then have f: "block_byte e 2 = Some ?f" using h(4) s(1) by (simp only: block_byte_def Option.bind.simps rd_append_at)
  then show "isKeyframe e = Some keyFrame" "isInvisible e = Some False" "isDiscardable e = Some False"
    by (simp_all add: isKeyframe_def isInvisible_def isDiscardable_def)
  have l: "getLacing e = Some 0" using f by (simp add: getLacing_def)
  then show c: "getFrameCount e = Some 1" by (simp add: getFrameCount_def)
  have "(of_nat (length ?b) :: u64) - (of_nat ?k + 3) = of_nat (length d)" by simp
  moreover have "(ucast (of_nat (length d) :: u64) :: u32) = of_nat (length d)"
    using assms(2) by (simp add: word_unat_eq_iff unsigned_ucast_eq unat_of_nat take_bit_nat_eq_self)
  ultimately show "getFrameSize e no = Some (of_nat (length d))"
    using h(2,4) s(1) l c by (simp only: getFrameSize_def Option.bind.simps simp_thms if_True)
  show "getFrameData e no = Some (Some (?k + 3))"
    using h(2,4) s(1) l c by (simp only: getFrameData_def Option.bind.simps simp_thms if_True)
  show "\<exists>p. getPayload e = Some p \<and> rdn p (?k + 3) (length d) = Some d"
    using h(4) by (simp add: rdn_def)
qed

section \<open>Signed values\<close>

lemma shift_back_eq:
  assumes "k < 64"
  shows "shift_back k v = signed_take_bit (63 - k) v"
proof (rule bit_word_eqI)
  fix n assume "n < LENGTH(64)"
  then show "bit (shift_back k v) n = bit (signed_take_bit (63 - k) v) n"
    using assms by (cases "n = 63 - k") (auto simp: shift_back_def bit_signed_drop_bit_iff bit_push_bit_iff bit_signed_take_bit_iff min_def)
qed

definition int_leaf :: "u32 \<Rightarrow> u64 \<Rightarrow> tree" where
  "int_leaf i v = Leaf i (be_bytes (sizeInt v) v)"

lemma sizeInt_bounds: "1 \<le> sizeInt v" "sizeInt v \<le> 8"
  by (auto simp: sizeInt_def Let_def)

lemma send_int: "sendElemInt C i v = Some (C @ tree_bytes (int_leaf i v))" "sizeElemInt i v = of_nat (length (tree_bytes (int_leaf i v)))"
  using sizeInt_bounds [of v]
  by (simp_all add: sendElemInt_def put_num_bytes head_uni int_leaf_def elem_head_uni Let_def sizeElemInt_def sizeElemHead_tree)

lemma getValInt_leaf: "getValInt (Element (tree_bytes (int_leaf i v) @ r) m) = Some (signed_take_bit (8 * sizeInt v - 1) v)"
proof -
  let ?n = "sizeInt v" and ?e = "Element (tree_bytes (int_leaf i v) @ r) m"
  note b = sizeInt_bounds [of v]
  have e: "edata ?e = uni (ucast i) @ uni (of_nat ?n) @ (be_bytes ?n v @ r)" by (simp add: Element_def int_leaf_def elem_head_uni)
  note h = element_head [OF small_size [OF b(2)] e]
  have d: "rdn (be_bytes ?n v @ r) 0 ?n = Some (be_bytes ?n v)" by (simp add: rdn_def)
  have val: "(be_val (be_bytes ?n v) :: u64) = take_bit (8 * ?n) v" by (rule be_val_be_bytes_take)
  have c2: "ucast (be_val (be_bytes ?n v) :: u16) = take_bit 16 v" if "?n = 2" using be_val_ucast [of ?n v, where 'b = 16] that by simp
  have s4: "scast (be_val (be_bytes ?n v) :: u32) = signed_take_bit 31 v" if "?n = 4"
  proof -
    have "(be_val (be_bytes ?n v) :: u32) = ucast v"
      using that be_bytes_ucast [of 4 v, where 'b = 32] be_val_be_bytes_take [of 4 "ucast v :: u32"] by (simp add: take_bit_word_eq_self)
    then show ?thesis by (simp only:) (rule bit_word_eqI, auto simp: bit_simps min_def)
  qed
  have s1: "rd (be_bytes ?n v @ r) 0 = Some (ucast v)" "scast (ucast v :: byte) = signed_take_bit 7 v" if "?n = 1"
  proof -
    show "rd (be_bytes ?n v @ r) 0 = Some (ucast v)" using that by (simp add: be_bytes_def)
    show "scast (ucast v :: byte) = signed_take_bit 7 v" by (rule bit_word_eqI) (auto simp: bit_simps min_def)
  qed
  have t: "signed_take_bit k (take_bit j v) = signed_take_bit k v" if "k < j" for j k
    using that by (intro bit_word_eqI) (auto simp: bit_simps min_def)
  have "signed_take_bit 63 v = v"
  proof (rule bit_word_eqI)
    fix n assume "n < LENGTH(64)"
    then show "bit (signed_take_bit 63 v) n = bit v n" by (cases "n = 63") (auto simp: bit_signed_take_bit_iff min_def)
  qed
  then show ?thesis using size_cases [OF b] h(2,4) d val c2 s1 s4
    by (elim disjE) (simp_all add: getValInt_def codec_eqs shift_back_eq t)
qed

section \<open>Properties\<close>

text \<open>C10: the search for an element in a tree of elements written one in the other finds the first with the number that is
  looked for, in the order of the file, or none; what follows the tree in memory does not matter.\<close>

theorem findChild_first:
  assumes "tree_ok t"
  shows "\<exists>f. findChild j (Element (tree_bytes t @ r) False) = Some f \<and>
    (case tree_find j t of None \<Rightarrow> f = None | Some s \<Rightarrow> \<exists>q. f = Some (Element (tree_bytes s @ q) False))"
  by (rule find_tree(1) [OF assms])

theorem findChild_first_witness:
  "\<exists>f. findChild 0x57 (Element (tree_bytes (Branch 0x2E [Leaf 0x6 [1, 2], Leaf 0x57 [7]]) @ []) False) = Some f \<and>
    (case tree_find 0x57 (Branch 0x2E [Leaf 0x6 [1, 2], Leaf 0x57 [7]]) of None \<Rightarrow> f = None
     | Some s \<Rightarrow> \<exists>q. f = Some (Element (tree_bytes s @ q) False))"
proof (rule findChild_first)
  from elem_head_length [of "0x6" "Suc (Suc 0)"] elem_head_length [of "0x57" 1] show "tree_ok (Branch 0x2E [Leaf 0x6 [1, 2], Leaf 0x57 [7]])"
    by (simp add: elem_type_def master_ids_def uint_ids_def max_size_def)
qed

text \<open>C25: a point of the index is read back: the size computed in advance is that of what is sent, and each of the four numbers
  is found in it.\<close>

theorem cue_point_read:
  "\<exists>w. sendElemCuePoint C time track clusterPos relaPos = Some (C @ w) \<and>
    sizeElemCuePoint time track clusterPos relaPos = of_nat (length w) \<and>
    list_all2 (\<lambda>i v. \<exists>e. findChild i (Element (w @ r) False) = Some (Some e) \<and> getValUInt e = Some v)
      [0x33, 0x77, 0x71, 0x70] [time, track, clusterPos, relaPos]"
proof -
  let ?t = "cue_tree time track clusterPos relaPos"
  have "\<exists>e. findChild i (Element (tree_bytes ?t @ r) False) = Some (Some e) \<and> getValUInt e = Some v"
    if f: "tree_find i ?t = Some (uint_leaf i v)" for i v
  proof -
    obtain q where "findChild i (Element (tree_bytes ?t @ r) False) = Some (Some (Element (tree_bytes (uint_leaf i v) @ q) False))"
      using find_tree(1) [OF cue_tree_ok, of i time track clusterPos relaPos r] f by auto
    then show ?thesis using getValUInt_leaf by blast
  qed
  moreover have "tree_find 0x33 ?t = Some (uint_leaf 0x33 time)" "tree_find 0x77 ?t = Some (uint_leaf 0x77 track)"
    "tree_find 0x71 ?t = Some (uint_leaf 0x71 clusterPos)" "tree_find 0x70 ?t = Some (uint_leaf 0x70 relaPos)"
    by (simp_all add: cue_tree_def uint_leaf_def)
  ultimately show ?thesis using cue_point_tree by auto
qed

text \<open>C18: a block is read back: the number of its track, its time relative to the cluster, in 16 bits, whether it is a key frame,
  and its one frame with size and data; the size computed in advance is that of what is sent.\<close>

theorem simple_block_read:
  assumes "trackId \<le> 0xFFFFFFFFFFFFFE" and "length d + 11 < 2 ^ 32"
  shows "\<exists>w. sendSimpleBlock C d trackId time keyFrame clusterTime = Some (C @ w) \<and>
    appendSimpleBlock C d trackId time keyFrame clusterTime = Some (C @ w) \<and>
    sizeSimpleBlock trackId (of_nat (length d)) = of_nat (length w) \<and>
    (let e = Element (w @ r) m in
      getTrackNum e = Some trackId \<and> getTimecode e = Some (ucast (time - clusterTime)) \<and> isKeyframe e = Some keyFrame \<and>
      getFrameCount e = Some 1 \<and> getFrameSize e 0 = Some (of_nat (length d)) \<and>
      (\<exists>p k. getPayload e = Some p \<and> getFrameData e 0 = Some (Some k) \<and> rdn p k (length d) = Some d))"
proof -
  note b = block_read [OF assms, where time = time and clusterTime = clusterTime and keyFrame = keyFrame and r = r and m = m]
  show ?thesis
    using b(9) by (intro exI [of _ "tree_bytes (block_tree d trackId time keyFrame clusterTime)"])
      (auto simp: simple_block_tree [OF assms, where time = time and clusterTime = clusterTime and keyFrame = keyFrame] b Let_def)
qed

theorem simple_block_read_witness:
  "\<exists>w. sendSimpleBlock [] [1, 2] 3 1040 True 1000 = Some ([] @ w) \<and>
    appendSimpleBlock [] [1, 2] 3 1040 True 1000 = Some ([] @ w) \<and>
    sizeSimpleBlock 3 (of_nat (length [1, 2 :: byte])) = of_nat (length w) \<and>
    (let e = Element (w @ [9]) False in
      getTrackNum e = Some 3 \<and> getTimecode e = Some (ucast (1040 - 1000 :: u64)) \<and> isKeyframe e = Some True \<and>
      getFrameCount e = Some 1 \<and> getFrameSize e 0 = Some (of_nat (length [1, 2 :: byte])) \<and>
      (\<exists>p k. getPayload e = Some p \<and> getFrameData e 0 = Some (Some k) \<and> rdn p k (length [1, 2 :: byte]) = Some [1, 2]))"
  by (rule simple_block_read) simp_all

lemma signed_take_bit_same:
  assumes "k < 64"
  shows "signed_take_bit k (v :: u64) = v \<longleftrightarrow> - (2 ^ k) \<le> sint v \<and> sint v < 2 ^ k"
proof -
  have "sint (signed_take_bit k v) = signed_take_bit k (sint v)"
    using assms by (intro bit_eqI) (auto simp: bit_sint_iff bit_signed_take_bit_iff min_def)
  then have "signed_take_bit k v = v \<longleftrightarrow> signed_take_bit k (sint v) = sint v" by (metis signed_word_eqI)
  then show ?thesis by (simp add: signed_take_bit_int_eq_self_iff)
qed

text \<open>C36: a signed number is read back exactly when it is in the range of the bytes it is written in. The size is
  chosen as if there were no sign, so that numbers with the highest bit of their bytes set, like 200 in one byte, are read
  back as negative ones.\<close>

theorem Int_read_back:
  "\<exists>w. sendElemInt C i v = Some (C @ w) \<and> sizeElemInt i v = of_nat (length w) \<and>
    (getValInt (Element (w @ r) m) = Some v \<longleftrightarrow>
      - (2 ^ (8 * sizeInt v - 1)) \<le> sint v \<and> sint v < 2 ^ (8 * sizeInt v - 1))"
proof -
  have "8 * sizeInt v - 1 < 64" using sizeInt_bounds [of v] by linarith
  from signed_take_bit_same [OF this, of v] show ?thesis using send_int getValInt_leaf by auto
qed

end
