(* ===== verification/EbmlLacing.thy ===== *)
theory EbmlLacing
  imports EbmlFiles
begin

text \<open>
  Blocks of several frames, with the sizes of all but the last one in front of them in the manner of Xiph: each as bytes of
  255 that are added up, to the first byte that is less. The writer here is that of the standard; the code has none.
\<close>

definition xiph_lace :: "nat \<Rightarrow> bytes" where
  "xiph_lace s = replicate (s div 255) 0xFF @ [of_nat (s mod 255)]"

definition xiph_laces :: "nat list \<Rightarrow> bytes" where
  "xiph_laces ss = concat (map xiph_lace ss)"

lemma last_lace: "(of_nat (s mod 255) :: byte) \<noteq> 0xFF" "(ucast (of_nat (s mod 255) :: byte) :: u32) = of_nat (s mod 255)"
proof -
  have "s mod 255 < 255" by simp
  then have "unat (of_nat (s mod 255) :: byte) = s mod 255" by (simp add: unat_of_nat)
  then show "(of_nat (s mod 255) :: byte) \<noteq> 0xFF" "(ucast (of_nat (s mod 255) :: byte) :: u32) = of_nat (s mod 255)"
    using \<open>s mod 255 < 255\<close> by (auto simp: word_unat_eq_iff unsigned_ucast_eq unat_of_nat take_bit_nat_eq_self)
qed

lemma xiph_size_bytes:
  assumes "b \<noteq> 0xFF" "lace \<le> no" "lace < frames - 1" "length pre + k < payLen"
  shows "xiph_size (pre @ replicate k 0xFF @ b # post) payLen frames no lace (length pre) cur tot =
    (if lace = no then Some (Inl (cur + of_nat (255 * k) + ucast b))
     else xiph_size (pre @ replicate k 0xFF @ b # post) payLen frames no (lace + 1) (length pre + k + 1) 0
       (tot + (cur + of_nat (255 * k) + ucast b)))"
  using assms(4)
proof (induction k arbitrary: pre cur)
  case 0
  then show ?case using assms(1-3) by (subst xiph_size.simps) (simp add: Let_def)
next
  case (Suc k)
  have "rd (pre @ replicate (Suc k) 0xFF @ b # post) (length pre) = Some 0xFF" by simp
  then have "xiph_size (pre @ replicate (Suc k) 0xFF @ b # post) payLen frames no lace (length pre) cur tot =
    xiph_size (pre @ replicate (Suc k) 0xFF @ b # post) payLen frames no lace (length pre + 1) (cur + 255) tot"
    using assms(2,3) Suc.prems by (subst xiph_size.simps) (simp add: Let_def)
  also have "\<dots> = xiph_size ((pre @ [0xFF]) @ replicate k 0xFF @ b # post) payLen frames no lace (length (pre @ [0xFF :: byte])) (cur + 255) tot"
    by simp
  also have "\<dots> = (if lace = no then Some (Inl ((cur + 255) + of_nat (255 * k) + ucast b))
     else xiph_size ((pre @ [0xFF]) @ replicate k 0xFF @ b # post) payLen frames no (lace + 1) (length (pre @ [0xFF :: byte]) + k + 1) 0
       (tot + ((cur + 255) + of_nat (255 * k) + ucast b)))"
    using Suc.prems by (intro Suc.IH) simp
  finally show ?case by (simp add: algebra_simps)
qed

lemma xiph_size_lace:
  assumes "lace \<le> no" "lace < frames - 1" "length pre + length (xiph_lace s) \<le> payLen"
  shows "xiph_size (pre @ xiph_lace s @ post) payLen frames no lace (length pre) 0 tot =
    (if lace = no then Some (Inl (of_nat s))
     else xiph_size (pre @ xiph_lace s @ post) payLen frames no (lace + 1) (length pre + length (xiph_lace s)) 0 (tot + of_nat s))"
proof -
  have "of_nat (255 * (s div 255)) + of_nat (s mod 255) = (of_nat s :: u32)"
    by (simp only: of_nat_add [symmetric] mult_div_mod_eq)
  then show ?thesis
    using xiph_size_bytes [OF last_lace(1) assms(1,2), of pre "s div 255" payLen s post 0 tot] assms(3)
    by (simp add: xiph_lace_def last_lace(2) add.assoc)
qed

lemma xiph_size_laces:
  assumes "lace \<le> no" "frames - 1 = lace + length ss" "length pre + length (xiph_laces ss) \<le> payLen"
  shows "xiph_size (pre @ xiph_laces ss @ post) payLen frames no lace (length pre) 0 tot =
    (if no < lace + length ss then Some (Inl (of_nat (ss ! (no - lace))))
     else Some (Inr (length pre + length (xiph_laces ss), tot + of_nat (sum_list ss))))"
  using assms
proof (induction ss arbitrary: pre lace tot)
  case Nil
  then show ?case by (subst xiph_size.simps) (simp add: xiph_laces_def)
next
  case (Cons s ss)
  let ?p = "pre @ xiph_laces (s # ss) @ post" and ?pre = "pre @ xiph_lace s"
  have p: "?p = pre @ xiph_lace s @ (xiph_laces ss @ post)" "?p = ?pre @ xiph_laces ss @ post" by (simp_all add: xiph_laces_def)
  have l: "length (xiph_laces (s # ss)) = length (xiph_lace s) + length (xiph_laces ss)" by (simp add: xiph_laces_def)
  show ?case
  proof (cases "lace = no")
    case True
    then show ?thesis using xiph_size_lace [of lace no frames pre s payLen "xiph_laces ss @ post" tot] Cons.prems l by (simp add: p(1))
  next
    case False
    have "xiph_size ?p payLen frames no lace (length pre) 0 tot = xiph_size ?p payLen frames no (lace + 1) (length ?pre) 0 (tot + of_nat s)"
      using xiph_size_lace [of lace no frames pre s payLen "xiph_laces ss @ post" tot] Cons.prems l False by (simp add: p(1))
    also have "\<dots> = (if no < (lace + 1) + length ss then Some (Inl (of_nat (ss ! (no - (lace + 1)))))
      else Some (Inr (length ?pre + length (xiph_laces ss), (tot + of_nat s) + of_nat (sum_list ss))))"
      unfolding p(2) using Cons.prems False l by (intro Cons.IH) simp_all
    finally show ?thesis using False Cons.prems(1) l by (auto simp: nth_Cons' algebra_simps)
  qed
qed

lemma xiph_data_bytes:
  assumes "b \<noteq> 0xFF" "lace < frames - 1" "length pre + k < payLen"
  shows "xiph_data (pre @ replicate k 0xFF @ b # post) payLen frames no lace (length pre) cur =
     xiph_data (pre @ replicate k 0xFF @ b # post) payLen frames no (lace + 1) (length pre + k + 1)
       (if lace < no then cur + of_nat (255 * k) + ucast b else cur)"
  using assms(3)
proof (induction k arbitrary: pre cur)
  case 0
  then show ?case using assms(1,2) by (subst xiph_data.simps) simp
next
  case (Suc k)
  have "xiph_data (pre @ replicate (Suc k) 0xFF @ b # post) payLen frames no lace (length pre) cur =
    xiph_data ((pre @ [0xFF]) @ replicate k 0xFF @ b # post) payLen frames no lace (length (pre @ [0xFF :: byte])) (if lace < no then cur + 255 else cur)"
    using assms(2) Suc.prems by (subst xiph_data.simps) simp
  also have "\<dots> = xiph_data ((pre @ [0xFF]) @ replicate k 0xFF @ b # post) payLen frames no (lace + 1) (length (pre @ [0xFF :: byte]) + k + 1)
      (if lace < no then (if lace < no then cur + 255 else cur) + of_nat (255 * k) + ucast b else (if lace < no then cur + 255 else cur))"
    using Suc.prems by (intro Suc.IH) simp
  finally show ?case by (simp add: algebra_simps)
qed

lemma xiph_data_laces:
  assumes "frames - 1 = lace + length ss" "length pre + length (xiph_laces ss) \<le> payLen"
  shows "xiph_data (pre @ xiph_laces ss @ post) payLen frames no lace (length pre) cur =
    Some (length pre + length (xiph_laces ss) + unat (cur + of_nat (sum_list (take (no - lace) ss))))"
  using assms
proof (induction ss arbitrary: pre lace cur)
  case Nil
  then show ?case by (subst xiph_data.simps) (simp add: xiph_laces_def)
next
  case (Cons s ss)
  let ?p = "pre @ xiph_laces (s # ss) @ post" and ?pre = "pre @ xiph_lace s"
  have p: "?p = pre @ replicate (s div 255) 0xFF @ of_nat (s mod 255) # (xiph_laces ss @ post)" "?p = ?pre @ xiph_laces ss @ post"
    by (simp_all add: xiph_laces_def xiph_lace_def)
  have l: "length (xiph_laces (s # ss)) = length (xiph_lace s) + length (xiph_laces ss)" by (simp add: xiph_laces_def)
  have s: "of_nat (255 * (s div 255)) + of_nat (s mod 255) = (of_nat s :: u32)"
    by (simp only: of_nat_add [symmetric] mult_div_mod_eq)
  have "xiph_data ?p payLen frames no lace (length pre) cur =
    xiph_data ?p payLen frames no (lace + 1) (length ?pre) (if lace < no then cur + of_nat s else cur)"
    using xiph_data_bytes [OF last_lace(1), of lace frames pre "s div 255" payLen s "xiph_laces ss @ post" no cur] Cons.prems l s
    unfolding p(1) by (simp add: last_lace(2) xiph_lace_def add.assoc)
  also have "\<dots> = Some (length ?pre + length (xiph_laces ss) +
      unat ((if lace < no then cur + of_nat s else cur) + of_nat (sum_list (take (no - (lace + 1)) ss))))"
    unfolding p(2) using Cons.prems l by (intro Cons.IH) simp_all
  finally have "xiph_data ?p payLen frames no lace (length pre) cur = Some (length ?pre + length (xiph_laces ss) +
      unat ((if lace < no then cur + of_nat s else cur) + of_nat (sum_list (take (no - (lace + 1)) ss))))" .
  moreover have "lace < no \<Longrightarrow> no - lace = Suc (no - (lace + 1))" by simp
  ultimately show ?case using l by (cases "lace < no") (simp_all add: algebra_simps)
qed

lemma unat_max: "k \<le> max_size \<Longrightarrow> unat (of_nat k :: u64) = k"
  by (simp add: unat_of_nat max_size_def)

definition laced_block :: "u64 \<Rightarrow> u16 \<Rightarrow> byte \<Rightarrow> bytes list \<Rightarrow> tree" where
  "laced_block trackId timecode flags fs =
     Leaf 0x23 (uni trackId @ be_bytes 2 timecode @ [flags, of_nat (length fs - 1)] @ xiph_laces (map length (butlast fs)) @ concat fs)"

text \<open>C19: the frames of a block with sizes in the manner of Xiph are read back, the last one too, whose size is that of the rest.
  There are at most 255: for 256 the count, in eight bits, is zero.\<close>

theorem xiph_frames_read:
  assumes "trackId \<le> 0xFFFFFFFFFFFFFE" and "flags AND 0x06 = 0x02" and "fs \<noteq> []" and "length fs \<le> 255"
    and "length (concat fs) < 2 ^ 31" and "i < length fs"
  shows "let e = Element (tree_bytes (laced_block trackId timecode flags fs) @ r) m in
    getFrameCount e = Some (of_nat (length fs)) \<and> getFrameSize e (of_nat i) = Some (of_nat (length (fs ! i))) \<and>
    (\<exists>p k. getPayload e = Some p \<and> getFrameData e (of_nat i) = Some (Some k) \<and> rdn p k (length (fs ! i)) = Some (fs ! i))"
proof -
  let ?e = "Element (tree_bytes (laced_block trackId timecode flags fs) @ r) m"
  let ?ss = "map length (butlast fs)" and ?u = "uni trackId"
  let ?h = "?u @ be_bytes 2 timecode @ [flags, of_nat (length fs - 1)]"
  let ?b = "?h @ xiph_laces ?ss @ concat fs" and ?p = "?h @ xiph_laces ?ss @ (concat fs @ r)"
  let ?off = "length ?h + length (xiph_laces ?ss)"
  have t: "writeSize trackId \<noteq> 0" using assms(1) by (simp add: writeSize_0)
  have laces: "length (xiph_laces (map length gs)) \<le> length (concat gs) + length gs" for gs :: "bytes list"
  proof (induction gs)
    case (Cons g gs)
    have "length g div 255 \<le> length g" by simp
    then show ?case using Cons by (simp add: xiph_laces_def xiph_lace_def)
  qed (simp add: xiph_laces_def)
  have fs: "fs = butlast fs @ [last fs]" "length (butlast fs) = length fs - 1" using assms(3) by simp_all
  then have c: "length (concat fs) = sum_list ?ss + length (last fs)"
    by (metis concat_append concat.simps(1) concat.simps(2) append_Nil2 length_append length_concat)
  have n: "length ?b \<le> max_size"
    using laces [of "butlast fs"] c assms(4,5) fs(2) uni_not_Nil [of trackId] by (simp add: max_size_def length_concat)
  have len: "unat (of_nat (length ?b) :: u64) = length ?b" using n by (rule unat_max)
  have e: "edata ?e = uni (ucast (0x23 :: u32)) @ uni (of_nat (length ?b)) @ ?p" by (simp add: Element_def laced_block_def elem_head_uni)
  note h = element_head [OF max_of_nat [OF n] e]
  have s: "readSize ?p = Some (length ?u)" by (simp add: readSize_uni)
  have byte: "block_byte ?e (2 + k) = rd ([flags, of_nat (length fs - 1)] @ xiph_laces ?ss @ (concat fs @ r)) k" for k
  proof -
    have "block_byte ?e (2 + k) = rd ?p (length ?u + (2 + k))" using h(4) s by (simp add: block_byte_def)
    also have "\<dots> = rd (be_bytes 2 timecode @ [flags, of_nat (length fs - 1)] @ xiph_laces ?ss @ (concat fs @ r)) (length (be_bytes 2 timecode) + k)"
      by (simp only: append_assoc rd_append_at length_be_bytes)
    also have "\<dots> = rd ([flags, of_nat (length fs - 1)] @ xiph_laces ?ss @ (concat fs @ r)) k" by (rule rd_append_at)
    finally show ?thesis .
  qed
  have l: "getLacing ?e = Some 1"
  proof -
    have "unat (drop_bit 1 (flags AND 0x06)) = 1" by (simp only: assms(2)) simp
    moreover have "block_byte ?e 2 = Some flags" using byte [of 0] by simp
    ultimately show ?thesis by (simp only: getLacing_def option.map)
  qed
  have cnt: "getFrameCount ?e = Some (of_nat (length fs))"
    using byte [of 1] l assms(3) by (cases fs) (simp_all add: getFrameCount_def)
  have f: "unat (of_nat (length fs) :: byte) = length fs" "unat (of_nat i :: byte) = i" using assms(4,6) by (simp_all add: unat_of_nat)
  have h4: "length ?u + 4 = length ?h" by simp
  have off: "length ?b = ?off + length (concat fs)" by simp
  have size: "xiph_size ?p (length ?b) (length fs) i 0 (length ?h) 0 0 =
      (if i < length ?ss then Some (Inl (of_nat (?ss ! i))) else Some (Inr (?off, of_nat (sum_list ?ss))))"
    using xiph_size_laces [of 0 i "length fs" ?ss ?h "length ?b" "concat fs @ r" 0] fs(2) by simp
  have "rest_size (of_nat (length ?b)) (if i < length ?ss then Inl (of_nat (?ss ! i)) else Inr (?off, of_nat (sum_list ?ss))) = of_nat (length (fs ! i))"
  proof (cases "i < length ?ss")
    case True
    then show ?thesis by (simp add: rest_size_def nth_butlast)
  next
    case False
    then have i: "i = length fs - 1" using assms(6) fs(2) by simp
    have "(ucast (of_nat (sum_list ?ss) :: u32) :: u64) = of_nat (sum_list ?ss)" using c assms(5) by (intro ucast_small) simp
    then have "(of_nat (length ?b) :: u64) - of_nat ?off - ucast (of_nat (sum_list ?ss) :: u32) = of_nat (length (last fs))"
      unfolding off c by simp
    moreover have "(ucast (of_nat (length (last fs)) :: u64) :: u32) = of_nat (length (last fs))"
      using c assms(5) by (simp add: word_unat_eq_iff unsigned_ucast_eq unat_of_nat take_bit_nat_eq_self)
    moreover have "last fs = fs ! i" using i assms(3) by (simp add: last_conv_nth)
    ultimately show ?thesis using False by (simp only: rest_size_def if_False sum.case prod.case)
  qed
  then have sz: "getFrameSize ?e (of_nat i) = Some (of_nat (length (fs ! i)))"
    using h(2,4) s l cnt f len assms(6) size
    by (simp only: getFrameSize_def Option.bind.simps h4 if_True if_False simp_thms option.map) (auto split: if_splits)
  have "xiph_data ?p (length ?b) (length fs) i 0 (length ?h) 0 = Some (?off + unat (0 + of_nat (sum_list (take (i - 0) ?ss)) :: u32))"
    using fs(2) by (intro xiph_data_laces) simp_all
  moreover have tk: "take i ?ss = map length (take i fs)" using assms(6) by (simp add: take_map take_butlast)
  moreover have "concat fs = concat (take i fs) @ fs ! i @ concat (drop (Suc i) fs)"
    using id_take_nth_drop [OF assms(6)] by (metis concat.simps(2) concat_append)
  moreover from this have "length (concat (take i fs)) < 2 ^ 32" using assms(5) by simp
  moreover have "unat (0 + of_nat (sum_list (take (i - 0) ?ss)) :: u32) = length (concat (take i fs))"
  proof -
    have "sum_list (take i ?ss) = length (concat (take i fs))" by (simp add: tk length_concat)
    then show ?thesis using \<open>length (concat (take i fs)) < 2 ^ 32\<close> by (simp add: unat_of_nat)
  qed
  ultimately have d: "xiph_data ?p (length ?b) (length fs) i 0 (length ?h) 0 = Some (?off + length (concat (take i fs)))"
    and q: "concat fs = concat (take i fs) @ fs ! i @ concat (drop (Suc i) fs)" by simp_all
  have "getFrameData ?e (of_nat i) = Some (Some (?off + length (concat (take i fs))))"
    using h(2,4) s l cnt f len assms(6) d
    by (simp only: getFrameData_def Option.bind.simps h4 if_True if_False simp_thms option.map) (auto split: if_splits)
  moreover have "rdn ?p (?off + length (concat (take i fs))) (length (fs ! i)) = Some (fs ! i)"
    using rdn_append_at [of "?h @ xiph_laces ?ss @ concat (take i fs)" _ "fs ! i" _ "concat (drop (Suc i) fs) @ r"] by (simp add: q)
  ultimately show ?thesis using cnt sz h(4) by (auto simp: Let_def)
qed

theorem xiph_frames_read_witness:
  "let e = Element (tree_bytes (laced_block 1 40 0x82 [[1, 2], [3]]) @ [7]) False in
    getFrameCount e = Some (of_nat (length [[1, 2], [3 :: byte]])) \<and>
    getFrameSize e (of_nat 1) = Some (of_nat (length ([[1, 2], [3 :: byte]] ! 1))) \<and>
    (\<exists>p k. getPayload e = Some p \<and> getFrameData e (of_nat 1) = Some (Some k) \<and>
      rdn p k (length ([[1, 2], [3 :: byte]] ! 1)) = Some ([[1, 2], [3]] ! 1))"
  by (rule xiph_frames_read) simp_all

end
