(* ===== verification/EbmlPredictor.thy ===== *)
theory EbmlPredictor
  imports Prelude "HOL-Library.Multiset"
begin

text \<open>
  \<open>EBML::trackPredictor\<close> (\<open>lib/ebml_socketglue.cpp\<close>, \<open>lib/ebml_socketglue.h\<close>): the packets of a track arrive in the order in which
  they are decoded, with the times at which they are shown; they leave with the times at which they are decoded, which
  are the same times in ascending order, and the offset to the time of showing. Two arrays of 24 places: a ring of packets,
  and the times of those in it, sorted. The counters do not reach 2 to the power of 64. The data of a packet is the list of the \<open>packDataSize\<close> bytes
  at its pointer.
\<close>

section \<open>State\<close>

record pack =
  ptime :: u64
  poffset :: u64
  ptrack :: u64
  pdsize :: u64
  pbpos :: u64
  pkey :: bool
  pptr :: bytes

definition PKT_COUNT :: nat where
  "PKT_COUNT = 24"

record predictor =
  pkts :: "pack list"
  times :: "u64 list"
  maxDelay :: nat
  timeOffset :: u32
  ctr :: nat
  rem :: nat
  finished :: nat
  initialized :: bool

definition INVALID :: nat where
  "INVALID = 0xFFFFFFFF"

definition packetData :: pack where
  "packetData = \<lparr>ptime = 0, poffset = 0, ptrack = 0, pdsize = 0, pbpos = 0, pkey = False, pptr = []\<rparr>"

definition trackPredictor :: "u64 list \<Rightarrow> predictor" where
  "trackPredictor junk = \<lparr>pkts = replicate PKT_COUNT packetData, times = junk, maxDelay = 0, timeOffset = 0, ctr = 0, rem = 0,
     finished = INVALID, initialized = False\<rparr>"

definition set_pack :: "u64 \<Rightarrow> u64 \<Rightarrow> u64 \<Rightarrow> u64 \<Rightarrow> u64 \<Rightarrow> bool \<Rightarrow> bytes option \<Rightarrow> pack \<Rightarrow> pack" where
  "set_pack packTime packOffset packTrack packDataSize packBytePos isKeyframe dataPtr p =
     p\<lparr>ptime := packTime, poffset := packOffset, ptrack := packTrack, pdsize := packDataSize, pbpos := packBytePos,
       pkey := isKeyframe, pptr := (case dataPtr of Some d \<Rightarrow> d | None \<Rightarrow> pptr p)\<rparr>"

text \<open>A difference of counters as a \<open>size_t\<close>.\<close>

definition less64 :: "nat \<Rightarrow> nat \<Rightarrow> nat" where
  "less64 a b = (if b \<le> a then a - b else a + 2 ^ 64 - b)"

definition hasPackets :: "predictor \<Rightarrow> bool" where
  "hasPackets P =
     (if finished P \<noteq> INVALID \<and> rem P < finished P then True
      else (initialized P \<or> 16 < ctr P) \<and> maxDelay P < less64 (ctr P) (rem P))"

definition finish :: "predictor \<Rightarrow> predictor" where
  "finish P = P\<lparr>finished := ctr P\<rparr>"

definition flush :: "predictor \<Rightarrow> predictor" where
  "flush P = P\<lparr>ctr := 0, rem := 0, finished := INVALID\<rparr>"

section \<open>Operations\<close>

text \<open>The new time moves towards the front until the one before it is not greater.\<close>

fun sink :: "bool \<Rightarrow> nat \<Rightarrow> nat \<Rightarrow> u64 list \<Rightarrow> nat \<Rightarrow> u64 list \<times> nat" where
  "sink init buffLen 0 ts md = (ts, md)"
| "sink init buffLen (Suc i) ts md =
     (if ts ! Suc i < ts ! i then
        sink init buffLen i (ts[i := ts ! Suc i, Suc i := ts ! i])
          (if \<not> init \<and> md < buffLen - i + 1 then buffLen - i + 1 else md)
      else (ts, md))"

definition clamp :: "nat \<Rightarrow> nat" where
  "clamp n = (if PKT_COUNT \<le> n then PKT_COUNT - 1 else n)"

definition add_pack :: "u64 \<Rightarrow> u64 \<Rightarrow> u64 \<Rightarrow> u64 \<Rightarrow> bool \<Rightarrow> bool \<Rightarrow> bytes option \<Rightarrow> predictor \<Rightarrow> predictor" where
  "add_pack packTime packTrack packDataSize packBytePos isKeyframe isVideo dataPtr P =
     (let k = ctr P mod PKT_COUNT;
          P = P\<lparr>pkts := (pkts P)[k := set_pack packTime 0 packTrack packDataSize packBytePos isKeyframe dataPtr (pkts P ! k)],
            ctr := ctr P + 1\<rparr>
      in if \<not> isVideo then P
         else
           let buffLen = clamp (less64 (less64 (ctr P) (rem P)) 1);
               (ts, md) = sink (initialized P) buffLen buffLen ((times P)[buffLen := packTime]) (maxDelay P)
           in P\<lparr>times := ts, maxDelay := md\<rparr>)"

definition remove_pack :: "predictor \<Rightarrow> predictor" where
  "remove_pack P =
     (let P = P\<lparr>rem := rem P + 1\<rparr>;
          buffLen = clamp (less64 (ctr P) (rem P))
      in P\<lparr>times := map (\<lambda>i. if i < buffLen then times P ! (i + 1) else times P ! i) [0..<length (times P)]\<rparr>)"

text \<open>The greatest distance by which a packet is shown earlier than its place in the sorted times says.\<close>

fun find_offset :: "pack list \<Rightarrow> u64 list \<Rightarrow> nat list \<Rightarrow> u32 \<Rightarrow> u32" where
  "find_offset ps ts [] off = off"
| "find_offset ps ts (i # is) off =
     find_offset ps ts is
       (if ptime (ps ! i) < ts ! i \<and> ucast off < ts ! i - ptime (ps ! i) then ucast (ts ! i - ptime (ps ! i)) else off)"

definition retimed :: "u32 \<Rightarrow> u64 \<Rightarrow> pack \<Rightarrow> pack" where
  "retimed off first p =
     (let t = (if ucast off \<le> first then first - ucast off else first);
          d = (if t < ptime p then ptime p - t else poffset p)
      in p\<lparr>ptime := t, poffset := (if d < 3 then 0 else d)\<rparr>)"

definition getPacketData :: "bool \<Rightarrow> predictor \<Rightarrow> predictor \<times> pack" where
  "getPacketData mustCalcOffsets P =
     (let k = rem P mod PKT_COUNT in
      if \<not> mustCalcOffsets \<or> maxDelay P = 0 then (P\<lparr>initialized := True\<rparr>, pkts P ! k)
      else
        let P = (if \<not> initialized P
                 then P\<lparr>timeOffset := find_offset (pkts P) (times P)
                     [0..<less64 (less64 (ctr P) (rem P)) 1 mod PKT_COUNT + 1] (timeOffset P), initialized := True\<rparr>
                 else P);
            p = retimed (timeOffset P) (times P ! 0) (pkts P ! k)
        in (P\<lparr>pkts := (pkts P)[k := p]\<rparr>, p))"

section \<open>A queue of packets and the multiset of their times\<close>

definition in_ring :: "predictor \<Rightarrow> pack list \<Rightarrow> u64 multiset \<Rightarrow> bool" where
  "in_ring P q T \<longleftrightarrow> length (pkts P) = PKT_COUNT \<and> length (times P) = PKT_COUNT \<and> length q \<le> PKT_COUNT \<and>
     ctr P = rem P + length q \<and> (\<forall>i < length q. pkts P ! ((rem P + i) mod PKT_COUNT) = q ! i) \<and>
     sorted (take (length q) (times P)) \<and> mset (take (length q) (times P)) = T"

lemma sink_sorts:
  assumes "i < length ts" "sorted (take i ts)" "sink init buffLen i ts md = (ts', md')"
  shows "length ts' = length ts \<and> sorted (take (Suc i) ts') \<and> mset (take (Suc i) ts') = mset (take (Suc i) ts) \<and>
    (\<forall>k > i. ts' ! k = ts ! k) \<and> (init \<longrightarrow> md' = md)"
  using assms
proof (induction init buffLen i ts md rule: sink.induct)
  case (1 init buffLen ts md)
  then show ?case by (cases ts) auto
next
  case (2 init buffLen i ts md)
  let ?x = "ts ! Suc i" and ?y = "ts ! i"
  let ?u = "ts[i := ?x, Suc i := ?y]"
  have s: "sorted (take i ts)" "\<forall>z \<in> set (take i ts). z \<le> ?y"
    using 2(2,3) by (simp_all add: take_Suc_conv_app_nth sorted_append)
  have t: "take (Suc (Suc i)) ts = take i ts @ [?y, ?x]" using 2(2) by (simp add: take_Suc_conv_app_nth)
  show ?case
  proof (cases "?x < ?y")
    case True
    have u: "take (Suc i) ?u = take i ts @ [?x]" using 2(2) by (simp add: take_Suc_conv_app_nth)
    have r: "sink init buffLen i ?u (if \<not> init \<and> md < buffLen - i + 1 then buffLen - i + 1 else md) = (ts', md')"
      using 2(4) True by simp
    have ih: "length ts' = length ts" "sorted (take (Suc i) ts')" "mset (take (Suc i) ts') = mset (take i ts @ [?x])"
      "\<forall>k > i. ts' ! k = ?u ! k" "init \<longrightarrow> md' = md"
      using 2(1) [OF True _ _ r] 2(2) s(1) u by auto
    have last: "ts' ! Suc i = ?y" using ih(4) 2(2) by simp
    have t': "take (Suc (Suc i)) ts' = take (Suc i) ts' @ [?y]" using ih(1) 2(2) last by (simp add: take_Suc_conv_app_nth)
    have "set (take (Suc i) ts') = set (take i ts @ [?x])" using ih(3) by (rule mset_eq_setD)
    then have "sorted (take (Suc (Suc i)) ts')" using ih(2) s(2) True unfolding t' by (auto simp: sorted_append)
    moreover have "mset (take (Suc (Suc i)) ts') = mset (take (Suc (Suc i)) ts)" unfolding t t' using ih(3) by simp
    moreover have "\<forall>k > Suc i. ts' ! k = ts ! k" using ih(4) by simp
    ultimately show ?thesis using ih(1,5) by simp
  next
    case False
    then have "sorted (take (Suc (Suc i)) ts)" using s unfolding t by (auto simp: sorted_append intro: order_trans)
    then show ?thesis using 2(4) False by auto
  qed
qed

lemma ring_slot:
  assumes "i < n" "n < PKT_COUNT"
  shows "(r + i) mod PKT_COUNT \<noteq> (r + n) mod PKT_COUNT"
proof
  assume "(r + i) mod PKT_COUNT = (r + n) mod PKT_COUNT"
  then have "PKT_COUNT dvd (r + n) - (r + i)" using assms(1) by (metis add_le_cancel_left less_imp_le mod_eq_dvd_iff_nat)
  then have "PKT_COUNT dvd n - i" by simp
  then show False using assms by (auto dest!: dvd_imp_le)
qed

definition pack_of :: "u64 \<Rightarrow> u64 \<Rightarrow> u64 \<Rightarrow> bool \<Rightarrow> bytes \<Rightarrow> pack" where
  "pack_of t track pos key d = \<lparr>ptime = t, poffset = 0, ptrack = track, pdsize = of_nat (length d), pbpos = pos, pkey = key, pptr = d\<rparr>"

lemma add_ring:
  assumes "in_ring P q T" "length q < PKT_COUNT"
    and new: "P' = add_pack t track (of_nat (length d)) pos key True (Some d) P"
  shows "in_ring P' (q @ [pack_of t track pos key d]) (add_mset t T)" "timeOffset P' = timeOffset P" "initialized P' = initialized P"
    "initialized P \<longrightarrow> maxDelay P' = maxDelay P"
proof -
  note h = assms(1) [unfolded in_ring_def]
  let ?n = "length q" and ?k = "ctr P mod PKT_COUNT"
  have n: "clamp (less64 (less64 (ctr P + 1) (rem P)) 1) = ?n" using h assms(2) by (simp add: less64_def clamp_def)
  let ?ts = "(times P)[?n := t]"
  obtain ts md where s: "sink (initialized P) ?n ?n ?ts (maxDelay P) = (ts, md)" by fastforce
  have r: "length ts = PKT_COUNT \<and> sorted (take (Suc ?n) ts) \<and> mset (take (Suc ?n) ts) = mset (take (Suc ?n) ?ts) \<and> (initialized P \<longrightarrow> md = maxDelay P)"
    using sink_sorts [OF _ _ s] h assms(2) by simp
  have m: "mset (take (Suc ?n) ?ts) = add_mset t T" using h assms(2) by (simp add: take_Suc_conv_app_nth)
  have p: "set_pack t 0 track (of_nat (length d)) pos key (Some d) x = pack_of t track pos key d" for x
    by (simp add: set_pack_def pack_of_def)
  have P': "P' = P\<lparr>pkts := (pkts P)[?k := pack_of t track pos key d], ctr := ctr P + 1, times := ts, maxDelay := md\<rparr>"
    unfolding new add_pack_def Let_def p by (simp add: n [simplified] s)
  have k: "?k < PKT_COUNT" by (simp add: PKT_COUNT_def)
  have "(pkts P)[?k := pack_of t track pos key d] ! ((rem P + i) mod PKT_COUNT) = (q @ [pack_of t track pos key d]) ! i"
    if "i < Suc ?n" for i
  proof (cases "i = ?n")
    case True
    then show ?thesis using k h by simp
  next
    case False
    then have "i < ?n" using that by simp
    then have "?k \<noteq> (rem P + i) mod PKT_COUNT" using ring_slot [of i ?n "rem P"] assms(2) h by simp
    then have "(pkts P)[?k := pack_of t track pos key d] ! ((rem P + i) mod PKT_COUNT) = pkts P ! ((rem P + i) mod PKT_COUNT)"
      by (rule nth_list_update_neq)
    then show ?thesis using h \<open>i < ?n\<close> by (simp add: nth_append)
  qed
  then show "in_ring P' (q @ [pack_of t track pos key d]) (add_mset t T)"
    using h r m assms(2) by (simp add: in_ring_def P')
  show "timeOffset P' = timeOffset P" "initialized P' = initialized P" "initialized P \<longrightarrow> maxDelay P' = maxDelay P"
    using r by (simp_all add: P')
qed

lemma tail_times:
  assumes "length ts = m" "n < m"
  shows "take n (map (\<lambda>i. if i < n then ts ! (i + 1) else ts ! i) [0..<m]) = take n (tl ts)"
  using assms by (auto intro!: nth_equalityI simp: nth_tl)

lemma take_ring:
  assumes "in_ring P q T" "q \<noteq> []" "initialized P" "maxDelay P \<noteq> 0"
    and new: "getPacketData True P = (P1, p)" "P' = remove_pack P1"
  shows "p = retimed (timeOffset P) (Min_mset T) (hd q)" "in_ring P' (tl q) (T - {#Min_mset T#})"
    "timeOffset P' = timeOffset P" "initialized P'" "maxDelay P' = maxDelay P"
proof -
  note h = assms(1) [unfolded in_ring_def]
  let ?n = "length q" and ?k = "rem P mod PKT_COUNT"
  obtain a q' where q: "q = a # q'" using assms(2) by (cases q) auto
  obtain x ts' where ts: "times P = x # ts'" using h by (cases "times P") (auto simp: PKT_COUNT_def)
  have T: "T = add_mset x (mset (take (length q') ts'))" using h by (auto simp: q ts)
  have sx: "sorted (take (length q') ts')" "\<forall>y \<in> set (take (length q') ts'). x \<le> y" using h by (auto simp: q ts)
  have mn: "Min_mset T = x" unfolding T using sx(2) by (auto intro!: Min_eqI)
  have f: "pkts P ! ?k = a" using h by (auto simp: q)
  have r: "p = retimed (timeOffset P) x a" "P1 = P\<lparr>pkts := (pkts P)[?k := p]\<rparr>"
    using new(1) assms(3,4) by (auto simp add: getPacketData_def Let_def f ts)
  then show "p = retimed (timeOffset P) (Min_mset T) (hd q)" using mn q by simp
  have c: "clamp (less64 (ctr P) (rem P + 1)) = length q'" using h by (simp add: q less64_def clamp_def)
  let ?t = "map (\<lambda>i. if i < length q' then times P ! (i + 1) else times P ! i) [0..<length (times P)]"
  have P': "P' = P\<lparr>pkts := (pkts P)[?k := p], rem := rem P + 1, times := ?t\<rparr>"
    unfolding new(2) r(2) remove_pack_def Let_def by (simp add: c [simplified] cong: if_cong)
  have tt: "take (length q') ?t = take (length q') ts'"
    using tail_times [of "times P" PKT_COUNT "length q'"] h by (simp add: q ts)
  have "pkts P ! ((rem P + 1 + i) mod PKT_COUNT) = q' ! i" if "i < length q'" for i
    using h that by (auto simp: q dest!: spec [of _ "Suc i"])
  moreover have "(rem P + 0) mod PKT_COUNT \<noteq> (rem P + Suc i) mod PKT_COUNT" if "i < length q'" for i
    using ring_slot [of 0 "Suc i" "rem P"] that h by (simp add: q)
  moreover have "T - {#Min_mset T#} = mset (take (length q') ts')" unfolding mn unfolding T by simp
  ultimately show "in_ring P' (tl q) (T - {#Min_mset T#})"
    unfolding in_ring_def P' using h sx tt by (auto simp: q)
  show "timeOffset P' = timeOffset P" "initialized P'" "maxDelay P' = maxDelay P" using assms(3) by (simp_all add: P')
qed

datatype op = Put u64 u64 u64 bool bytes | Take

fun run_ops :: "op list \<Rightarrow> predictor \<Rightarrow> pack list" where
  "run_ops [] P = []"
| "run_ops (Put t track pos key d # ops) P = run_ops ops (add_pack t track (of_nat (length d)) pos key True (Some d) P)"
| "run_ops (Take # ops) P = (let (P, p) = getPacketData True P in p # run_ops ops (remove_pack P))"

fun spec_ops :: "u32 \<Rightarrow> op list \<Rightarrow> pack list \<Rightarrow> u64 multiset \<Rightarrow> pack list" where
  "spec_ops off [] q T = []"
| "spec_ops off (Put t track pos key d # ops) q T = spec_ops off ops (q @ [pack_of t track pos key d]) (add_mset t T)"
| "spec_ops off (Take # ops) q T = retimed off (Min_mset T) (hd q) # spec_ops off ops (tl q) (T - {#Min_mset T#})"

fun within :: "nat \<Rightarrow> op list \<Rightarrow> bool" where
  "within n [] \<longleftrightarrow> True"
| "within n (Put t track pos key d # ops) \<longleftrightarrow> n < PKT_COUNT \<and> within (Suc n) ops"
| "within n (Take # ops) \<longleftrightarrow> 0 < n \<and> within (n - 1) ops"

text \<open>C8: Once a \<open>trackPredictor\<close> has set its offset, and as long as between none and 24 packets wait in it, it is a queue of
  the packets beside the multiset of their times: the packets leave in the order of their arrival, each with the least of
  the waiting times less the offset as its time, and the distance to its own time, from three milliseconds on, as its
  offset, whatever slots of the ring hold them.\<close>

theorem predictor_refines:
  assumes "in_ring P q T" "initialized P" "maxDelay P \<noteq> 0" "within (length q) ops"
  shows "run_ops ops P = spec_ops (timeOffset P) ops q T"
  using assms
proof (induction ops arbitrary: P q T)
  case (Cons x ops)
  show ?case
  proof (cases x)
    case (Put t track pos key d)
    then have n: "length q < PKT_COUNT" "within (length (q @ [pack_of t track pos key d])) ops" using Cons.prems(4) by simp_all
    note r = add_ring [OF Cons.prems(1) n(1) refl, of t track d pos key]
    show ?thesis using Cons.IH [OF r(1) _ _ n(2)] r(2-4) Cons.prems(2,3) Put by simp
  next
    case Take
    then have n: "q \<noteq> []" "within (length (tl q)) ops" using Cons.prems(4) by auto
    obtain P1 p where g: "getPacketData True P = (P1, p)" by fastforce
    note r = take_ring [OF Cons.prems(1) n(1) Cons.prems(2,3) g refl]
    show ?thesis using Cons.IH [OF r(2) r(4) _ n(2)] r(1,3,5) Cons.prems(3) Take by (simp add: g)
  qed
qed simp

lemma predictor_refines_witness:
  "run_ops [Put 80 1 0 True [1], Put 160 1 9 False [2], Put 120 1 18 False [3], Take, Take, Take]
     ((trackPredictor (replicate 24 0))\<lparr>initialized := True, maxDelay := 2, timeOffset := 40\<rparr>) =
   [\<lparr>ptime = 40, poffset = 40, ptrack = 1, pdsize = 1, pbpos = 0, pkey = True, pptr = [1]\<rparr>,
    \<lparr>ptime = 80, poffset = 80, ptrack = 1, pdsize = 1, pbpos = 9, pkey = False, pptr = [2]\<rparr>,
    \<lparr>ptime = 120, poffset = 0, ptrack = 1, pdsize = 1, pbpos = 18, pkey = False, pptr = [3]\<rparr>]"
  by (subst predictor_refines [where q = "[]" and T = "{#}"])
    (simp_all add: in_ring_def trackPredictor_def PKT_COUNT_def pack_of_def retimed_def)

end
