(* ===== verification/Spec2Isabelle.thy ===== *)
theory Spec2Isabelle
  imports Prelude Bits ByteBuffer Rtmp Doubles Amf Encode Strings Url Bitstream RelAccX
    Json JsonText JsonParse JsonPack DtscScan DtscPacket Auth
    Http HttpProps HttpChunks Websocket WebsocketProps
    Av1 Mpeg Adts Rtp RtpSorter RtpProps RtpDepay RtpFrames RtpVp8
    Ebml EbmlWrite EbmlProps EbmlFiles EbmlLacing EbmlPredictor
begin

text \<open>
  MistServer is a media server: inputs read streams, a buffer process keeps the recent packets of
  every track in shared memory, outputs serve them over many protocols, and a controller starts and
  configures all of them. The processes share the library in \<open>src/lib\<close>, and this development models
  the parts of it that carry the data of the server: the bytes on the wire, the packets of the
  stream container, the configuration values and the records in shared memory.

  \<^bold>\<open>Theories, and the sources they model.\<close>

  \<^item> \<open>Prelude\<close>: machine types (\<open>byte\<close>, \<open>u16\<close>, \<open>u32\<close>, \<open>u64\<close>), checked reads and writes of memory areas
    (\<open>rd\<close>, \<open>rdn\<close>, \<open>wrn\<close>: \<open>None\<close> outside of the area, where the code has undefined behaviour) and
    numbers as lists of bytes (\<open>be_val\<close>, \<open>be_bytes\<close>). The sources are compiled with unsigned \<open>char\<close>.
  \<^item> \<open>Bits\<close>: \<open>bitfields.h\<close>, \<open>bitfields.cpp\<close>. The accessors of fixed width satisfy the laws of the locale
    \<open>mem_codec\<close>, which is interpreted for each of them; \<open>getMSB\<close> and \<open>setMSB\<close> for any width.
  \<^item> \<open>ByteBuffer\<close>: \<open>Util::ResizeablePointer\<close> (\<open>util.cpp\<close>) and \<open>Socket::Buffer\<close> (\<open>socket.cpp\<close>). The buffer
    is a list of blocks that stands for a queue of bytes (\<open>sb_abs\<close>); \<open>realloc\<close> is an argument.
  \<^item> \<open>Rtmp\<close>: \<open>rtmpchunks.cpp\<close>, the chunk stream of RTMP in both directions with the state of its
    channels, and the handshake with the keyed digest of \<open>Auth\<close>.
  \<^item> \<open>Doubles\<close>, \<open>Amf\<close>: \<open>amf.cpp\<close>, \<open>amf.h\<close>, the values of AMF0 and their encoding.
  \<^item> \<open>Encode\<close>, \<open>Strings\<close>, \<open>Url\<close>: \<open>encode.cpp\<close> and \<open>url.cpp\<close>.
  \<^item> \<open>Bitstream\<close>: \<open>bitstream.cpp\<close>, readers and writers of bits and of Exp-Golomb codes.
  \<^item> \<open>RelAccX\<close>: the class of that name in \<open>util.cpp\<close>, self-describing records in shared memory.
  \<^item> \<open>Json\<close>, \<open>JsonText\<close>, \<open>JsonParse\<close>, \<open>JsonPack\<close>: \<open>json.cpp\<close>, its values, the escaping of strings, the
    text form and the packed form (DTMI) of the stream container.
  \<^item> \<open>Auth\<close>: \<open>auth.cpp\<close>, the digests MD5 and SHA-2 and the keyed digest HMAC, with the text of their
    standards (\<open>sha_standard\<close>, \<open>md5_standard\<close>, \<open>hmac_standard\<close>) to compare with. The locale \<open>digest\<close> is what
    HMAC needs of a digest; it is interpreted for the three of SHA-2.
  \<^item> \<open>Http\<close>: \<open>http_parser.cpp\<close>, the class \<open>HTTP::Parser\<close> and the encoding of variables, with \<open>SendNow\<close> of
    \<open>socket.cpp\<close>. \<open>HttpProps\<close>: requests are read back, and reading a message in pieces is reading it at once.
    \<open>HttpChunks\<close>: responses in chunks, and the properties of the component.
  \<^item> \<open>Websocket\<close>, \<open>WebsocketProps\<close>: \<open>websocket.cpp\<close>, frames over a connection, put together to messages.
  \<^item> \<open>DtscScan\<close>, \<open>DtscPacket\<close>: \<open>dtsc.cpp\<close> up to the metadata: packed data read in place, and packets.

  \<^item> \<open>Av1\<close>, \<open>Mpeg\<close>, \<open>Adts\<close>: \<open>av1.cpp\<close>, \<open>mpeg.cpp\<close>, \<open>adts.cpp\<close> with \<open>adts.h\<close>, the headers of AV1 units, of MPEG audio and
    MPEG-2 video, and of AAC frames.
  \<^item> \<open>Rtp\<close>: \<open>rtp.cpp\<close>, packets of RTP and the ways frames are split into them. \<open>RtpSorter\<close>, \<open>RtpProps\<close>: the class
    \<open>Sorter\<close>, which puts the packets that arrive into order. \<open>RtpDepay\<close>, \<open>RtpFrames\<close>: the class \<open>toDTSC\<close>, which makes
    frames of them. \<open>RtpVp8\<close>: VP8 from \<open>sendVP8\<close> to \<open>handleVP8\<close>.
  \<^item> \<open>Ebml\<close>, \<open>EbmlWrite\<close>: \<open>ebml.cpp\<close> and \<open>ebml_socketglue.cpp\<close>, the elements of Matroska read and written. \<open>EbmlProps\<close>,
    \<open>EbmlFiles\<close>, \<open>EbmlLacing\<close>: what is written is read back, and \<open>findChild\<close> is the search in a tree of elements.
    \<open>EbmlPredictor\<close>: the class \<open>trackPredictor\<close>, which finds the times of decoding.

  \<^bold>\<open>How the parts interact.\<close> A protocol parser takes bytes out of a \<open>Socket::Buffer\<close> into
  \<open>ResizeablePointer\<close>s (\<open>Rtmp\<close> uses the operations of \<open>ByteBuffer\<close> as they are). RTMP messages carry
  AMF0. A packet is a header written with the accessors of \<open>Bits\<close> and an object in the form of
  \<open>JsonPack\<close>, which \<open>DtscScan\<close> reads in place: the properties of \<open>DtscPacket\<close> rest on \<open>getMember\<close> finding
  what \<open>toPacked\<close> wrote. \<open>HTTP::Parser\<close> reads from a \<open>Socket::Buffer\<close>, with the encodings of \<open>Encode\<close>, the
  digests of \<open>Auth\<close> and the URLs of \<open>Url\<close>. RTP packets are split with the headers of \<open>Av1\<close> and \<open>Mpeg\<close>, go through the
  \<open>Sorter\<close> and become frames again in \<open>toDTSC\<close>, which collects them in the \<open>ResizeablePointer\<close> of \<open>ByteBuffer\<close>.

  \<^bold>\<open>Conventions.\<close> A pointer is an index into the area it points into. An operation that reads or
  writes outside of an area, frees or reallocates what it does not own, or overflows a signed
  integer is \<open>None\<close>. Loops that always end are total functions with a measure. Where the code can
  fail to return (\<open>from_dtmi\<close>, \<open>key_offset\<close>, \<open>Read_loop\<close>) the definition is a partial function whose value is \<open>None\<close>
  when it does not return, and undefined behaviour is \<open>Some None\<close>. Fuel is used in three places: 65537
  steps for the field loop of \<open>RelAccX\<close>, whose 16-bit offset grows in every step; 64 for the loop that
  doubles the size of a string; and as many steps as the number has bits for \<open>bitSize\<close>. A \<open>double\<close> is
  its bit pattern; arithmetic on doubles and their printing are arguments.

  \<^bold>\<open>What the lemmas show.\<close> Each component has a well-formedness invariant or an abstraction
  function where it keeps state, with the lemmas that every operation preserves it (\<open>framed\<close> for
  buffers, which \<open>compact\<close> alone breaks, \<open>ring\<close> facts for \<open>RelAccX\<close>, \<open>holds\<close> for packets, channel agreement for \<open>Rtmp\<close>); the formats
  have round trips between their writer and their reader; and the error properties state what the
  code does where its reader and writer disagree, or where it does not return.

  \<^bold>\<open>Not modelled.\<close> System calls, sockets, processes, timers and shared memory itself; the metadata
  of streams (it lives in pages shared between processes; its record structure is \<open>RelAccX\<close>); the
  proxy loop of \<open>HTTP::Parser\<close>; the last step of \<open>toDTSC\<close> for H.264 and HEVC, which needs their parameter sets; the
  part of \<open>ebml_socketglue.cpp\<close> that fills in metadata; the other media containers and the other codec headers, which would be built on top of \<open>ByteBuffer\<close>, \<open>Bits\<close> and \<open>Bitstream\<close>; session
  descriptions; vendored and generated code.
\<close>

end
